(* ===== verification/Prelude.thy ===== *)
theory Prelude
  imports Complex_Main "HOL-Library.Word"
begin

unbundle bit_operations_syntax

text \<open>
  What every component shares: the names of the machine types, the C conversions and
  roundings the sources use, byte buffers, the fault values that stand for exceptions,
  traps and exits, and the generic lemmas on words, lists and reals.

  A C++ \<^verbatim>\<open>double\<close> is a real number here: the arithmetic is exact, so rounding is not
  modelled. Where the code can divide by zero or otherwise leave the finite doubles, the
  model says so with an option or a fault and does not use HOL's total division.
\<close>

section \<open>Machine types\<close>

type_synonym u8 = "8 word"
type_synonym u16 = "16 word"
type_synonym u32 = "32 word"
type_synonym bytes = "u8 list"

named_theorems fault_simps \<open>unfolding of the fault plumbing\<close>
named_theorems regs_simps \<open>effect of register accesses on the register file\<close>

section \<open>Faults\<close>

text \<open>
  The ways a statement of the sources does not return normally: the standard library's
  exceptions, undefined behaviour, the integer trap, \<^verbatim>\<open>exit\<close> and the exceptions of the MQTT
  client, of the formatting library and of the option parser (with its text). \<open>Not_modelled\<close> marks inputs whose treatment by the standard library is left
  out (hexadecimal, infinite and NaN texts); no result is claimed for them.
\<close>

datatype fault =
    Invalid_argument
  | Out_of_range
  | Div_by_zero
  | Undefined_behaviour
  | Exited int
  | Mqtt_exception
  | Format_error
  | Option_error string
  | Not_modelled

text \<open>
  An action on the outside world that may not return normally: the world it leaves behind is
  kept in either case. \<open>io_bind\<close> is the sequencing of statements.
\<close>

type_synonym ('w, 'a) io = "'w \<Rightarrow> (fault + 'a) \<times> 'w"

definition io_return :: "'a \<Rightarrow> ('w, 'a) io" where
  "io_return x w = (Inr x, w)"

definition io_fail :: "fault \<Rightarrow> ('w, 'a) io" where
  "io_fail e w = (Inl e, w)"

definition io_bind :: "('w, 'a) io \<Rightarrow> ('a \<Rightarrow> ('w, 'b) io) \<Rightarrow> ('w, 'b) io" where
  "io_bind m f w = (case m w of (Inl e, w') \<Rightarrow> (Inl e, w') | (Inr x, w') \<Rightarrow> f x w')"

definition io_lift :: "fault + 'a \<Rightarrow> ('w, 'a) io" where
  "io_lift r w = (r, w)"

definition io_act :: "('w \<Rightarrow> 'w) \<Rightarrow> ('w, unit) io" where
  "io_act f w = (Inr (), f w)"

lemma io_simps [fault_simps]:
  "io_bind (io_return x) f = f x"
  "io_bind (io_fail e) f = io_fail e"
  "io_bind (io_act g) h w = h () (g w)"
  "io_bind (io_lift (Inr x)) f = f x"
  "io_bind (io_lift (Inl e)) f = io_fail e"
  "io_return x w = (Inr x, w)" "io_fail e w = (Inl e, w)" "io_act g w = (Inr (), g w)"
  by (simp_all add: io_bind_def io_return_def io_fail_def io_act_def io_lift_def fun_eq_iff)

lemma io_bind_assoc: "io_bind (io_bind m f) g = io_bind m (\<lambda>x. io_bind (f x) g)"
  by (auto simp: io_bind_def fun_eq_iff split: sum.splits prod.splits)

lemma io_bind_Inr [fault_simps]: "m w = (Inr x, w') \<Longrightarrow> io_bind m f w = f x w'"
  by (simp add: io_bind_def)

lemma io_bind_Inl [fault_simps]: "m w = (Inl e, w') \<Longrightarrow> io_bind m f w = (Inl e, w')"
  by (simp add: io_bind_def)

lemma io_bind_InrE:
  assumes "io_bind m f w = (Inr y, w')"
  obtains x w1 where "m w = (Inr x, w1)" "f x w1 = (Inr y, w')"
  using assms by (auto simp: io_bind_def split: prod.splits sum.splits)

text \<open>
  Hoare triples for actions: from a world with \<open>P\<close>, a fault \<open>e\<close> leaves a world with \<open>E e\<close> and a
  result \<open>x\<close> one with \<open>Q x\<close>. With \<open>E\<close> false everywhere the triple says that the action returns.
\<close>

definition triple :: "('w \<Rightarrow> bool) \<Rightarrow> ('w, 'a) io \<Rightarrow> (fault \<Rightarrow> 'w \<Rightarrow> bool) \<Rightarrow> ('a \<Rightarrow> 'w \<Rightarrow> bool) \<Rightarrow> bool" where
  "triple P m E Q \<longleftrightarrow>
     (\<forall>w e w'. P w \<longrightarrow> m w = (Inl e, w') \<longrightarrow> E e w') \<and>
     (\<forall>w x w'. P w \<longrightarrow> m w = (Inr x, w') \<longrightarrow> Q x w')"

lemma triple_bind:
  assumes "triple P m E R" "\<And>x. triple (R x) (f x) E Q"
  shows "triple P (io_bind m f) E Q"
  using assms unfolding triple_def io_bind_def
  by (simp split: prod.splits sum.splits) (metis prod.exhaust sum.exhaust)

lemma triple_return: "(\<And>w. P w \<Longrightarrow> Q x w) \<Longrightarrow> triple P (io_return x) E Q"
  by (simp add: triple_def io_return_def)

lemma triple_fail: "(\<And>w. P w \<Longrightarrow> E e w) \<Longrightarrow> triple P (io_fail e) E Q"
  by (simp add: triple_def io_fail_def)

lemma triple_act: "(\<And>w. P w \<Longrightarrow> Q () (g w)) \<Longrightarrow> triple P (io_act g) E Q"
  by (simp add: triple_def io_act_def)

lemma triple_lift:
  "(\<And>e w. r = Inl e \<Longrightarrow> P w \<Longrightarrow> E e w) \<Longrightarrow> (\<And>x w. r = Inr x \<Longrightarrow> P w \<Longrightarrow> Q x w) \<Longrightarrow>
   triple P (io_lift r) E Q"
  by (auto simp: triple_def io_lift_def)

lemma triple_weaken:
  assumes "triple P m E Q" "\<And>w. P' w \<Longrightarrow> P w" "\<And>x w. Q x w \<Longrightarrow> Q' x w" "\<And>e w. E e w \<Longrightarrow> E' e w"
  shows "triple P' m E' Q'"
  using assms unfolding triple_def by blast

lemma triple_caseI:
  assumes "\<And>w. P w \<Longrightarrow> case m w of (Inl e, w') \<Rightarrow> E e w' | (Inr x, w') \<Rightarrow> Q x w'"
  shows "triple P m E Q"
  unfolding triple_def
proof (intro conjI allI impI)
  show "P w \<Longrightarrow> m w = (Inl e, w') \<Longrightarrow> E e w'" for w e w' using assms [of w] by simp
  show "P w \<Longrightarrow> m w = (Inr x, w') \<Longrightarrow> Q x w'" for w x w' using assms [of w] by simp
qed

lemma triple_conj:
  "triple P m E Q \<Longrightarrow> triple P m E' Q' \<Longrightarrow>
   triple P m (\<lambda>e w. E e w \<and> E' e w) (\<lambda>x w. Q x w \<and> Q' x w)"
  by (simp add: triple_def)

lemma triple_if:
  "(b \<Longrightarrow> triple P m E Q) \<Longrightarrow> (\<not> b \<Longrightarrow> triple P n E Q) \<Longrightarrow> triple P (if b then m else n) E Q"
  by simp

lemma triple_use:
  assumes "triple P m E Q" "m w = (Inr x, w')" "P w"
  shows "Q x w'"
  using assms unfolding triple_def by blast

lemma triple_not_fault:
  assumes "triple P m E Q" "m w = (Inl e, w')" "P w"
  shows "E e w'"
  using assms unfolding triple_def by blast

lemma triple_returns:
  assumes "triple P m (\<lambda>_ _. False) Q" "P w"
  obtains x w' where "m w = (Inr x, w')" "Q x w'"
  using assms unfolding triple_def by (metis prod.exhaust sum.exhaust)

lemma map_sum_id_iff [simp]:
  "map_sum id g x = Inr y \<longleftrightarrow> (\<exists>z. x = Inr z \<and> y = g z)"
  "map_sum id g x = Inl e \<longleftrightarrow> x = Inl e"
  by (cases x; auto)+

section \<open>C conversions\<close>

definition promote :: "u8 \<Rightarrow> u32" where
  "promote b = ucast b"

definition narrow :: "u32 \<Rightarrow> u8" where
  "narrow x = ucast x"

definition c_trunc :: "real \<Rightarrow> int" where
  "c_trunc x = (if 0 \<le> x then \<lfloor>x\<rfloor> else \<lceil>x\<rceil>)"

definition c_round :: "real \<Rightarrow> int" where
  "c_round x = (if 0 \<le> x then \<lfloor>x + 1/2\<rfloor> else \<lceil>x - 1/2\<rceil>)"

definition c_div :: "int \<Rightarrow> int \<Rightarrow> int" where
  "c_div a b = sgn a * sgn b * (\<bar>a\<bar> div \<bar>b\<bar>)"

definition int_ok :: "int \<Rightarrow> bool" where
  "int_ok x \<longleftrightarrow> - (2 ^ 31) \<le> x \<and> x < 2 ^ 31"

definition int_of_double :: "real \<Rightarrow> fault + int" where
  "int_of_double x =
     (if int_ok (c_trunc x) then Inr (c_trunc x) else Inl Undefined_behaviour)"

definition short_of_int :: "int \<Rightarrow> int" where
  "short_of_int x = sint (word_of_int x :: u16)"

lemma c_trunc_of_int [simp]: "c_trunc (real_of_int i) = i"
  by (simp add: c_trunc_def)

lemma c_trunc_numeral [simp]: "c_trunc (numeral n) = numeral n"
  by (simp add: c_trunc_def)

lemma c_trunc_zero [simp]: "c_trunc 0 = 0"
  by (simp add: c_trunc_def)

lemma c_trunc_mono: "x \<le> y \<Longrightarrow> c_trunc x \<le> c_trunc y"
  by (auto simp: c_trunc_def floor_mono ceiling_mono) (smt (verit) ceiling_le_zero zero_le_floor)+

lemma c_trunc_between:
  "real_of_int a \<le> x \<Longrightarrow> x \<le> real_of_int b \<Longrightarrow> a \<le> c_trunc x \<and> c_trunc x \<le> b"
  using c_trunc_mono [of "real_of_int a" x] c_trunc_mono [of x "real_of_int b"] by simp

lemma c_trunc_error: "\<bar>real_of_int (c_trunc x) - x\<bar> < 1"
  unfolding c_trunc_def by (auto split: if_splits) linarith+

lemma c_round_error: "\<bar>real_of_int (c_round x) - x\<bar> \<le> 1/2"
proof (cases "0 \<le> x")
  case True
  then show ?thesis
    using floor_correct [of "x + 1/2"] unfolding c_round_def by (simp only: if_True) linarith
next
  case False
  then show ?thesis
    using ceiling_correct [of "x - 1/2"] unfolding c_round_def by (simp only: if_False) linarith
qed

lemma c_round_zero [simp]: "c_round 0 = 0"
  by (simp add: c_round_def)

lemma c_div_nonneg: "0 \<le> a \<Longrightarrow> 0 < b \<Longrightarrow> c_div a b = a div b"
  by (cases "a = 0") (auto simp: c_div_def)

lemma div_bounds:
  fixes a b :: int
  assumes "0 < b"
  shows "a div b * b \<le> a" "a < (a div b + 1) * b"
proof -
  have a: "a = a div b * b + a mod b" by (simp add: div_mult_mod_eq)
  have m: "0 \<le> a mod b" "a mod b < b" using assms by simp_all
  show "a div b * b \<le> a" using a m(1) by linarith
  show "a < (a div b + 1) * b" using a m(2) unfolding distrib_right by linarith
qed

lemma div_less_bound:
  fixes a b n :: int
  assumes "0 < b" "a < n * b"
  shows "a div b < n"
proof (rule ccontr)
  assume "\<not> a div b < n"
  then have "n * b \<le> a div b * b" using assms(1) by (intro mult_right_mono) simp_all
  then show False using div_bounds(1) [OF assms(1), of a] assms(2) by simp
qed

section \<open>Pairs of bytes\<close>

lemma word_pair: "push_bit 8 (ucast h) OR ucast l = (word_cat (h :: u8) (l :: u8) :: u16)"
  by (rule bit_word_eqI) (auto simp: bit_simps dest: bit_imp_le_length)

lemma sint_pair: "sint (push_bit 8 (ucast h) OR ucast l :: u16) = 256 * sint (h :: u8) + uint (l :: u8)"
proof -
  have "sint (word_cat h l :: u16) = concat_bit 8 (uint l) (sint h)"
    by (rule bit_eqI) (auto simp: bit_simps min_def)
  moreover have "concat_bit 8 (uint l) (sint h) = 256 * sint h + uint l"
    using uint_bounded [of l] uint_ge_0 [of l]
    by (simp add: concat_bit_eq push_bit_eq_mult take_bit_int_eq_self)
  ultimately show ?thesis by (simp add: word_pair)
qed

lemma uint_pair: "uint (push_bit 8 (ucast h) OR ucast l :: u16) = 256 * uint (h :: u8) + uint (l :: u8)"
proof -
  have "uint (word_cat h l :: u16) = concat_bit 8 (uint l) (uint h)"
    by (rule bit_eqI) (auto simp: bit_simps min_def dest: bit_imp_le_length)
  moreover have "concat_bit 8 (uint l) (uint h) = 256 * uint h + uint l"
    using uint_bounded [of l] uint_ge_0 [of l]
    by (simp add: concat_bit_eq push_bit_eq_mult take_bit_int_eq_self)
  ultimately show ?thesis by (simp add: word_pair)
qed

section \<open>Byte buffers\<close>

text \<open>
  \<open>store buf data\<close> is a buffer after a callee has written \<open>data\<close> to its start: the rest
  of the buffer keeps its contents and nothing is written past its end.
\<close>

definition store :: "'a list \<Rightarrow> 'a list \<Rightarrow> 'a list" where
  "store buf data = take (length buf) data @ drop (length data) buf"

lemma length_store [simp]: "length (store buf data) = length buf"
  by (simp add: store_def)

lemma store_full [simp]: "length data = length buf \<Longrightarrow> store buf data = data"
  by (simp add: store_def)

lemma store_nil [simp]: "store buf [] = buf"
  by (simp add: store_def)

lemma replicate_3: "replicate 3 x = [x, x, x]"
  by (simp add: numeral_eq_Suc)

lemma replicate_6: "replicate 6 x = [x, x, x, x, x, x]"
  by (simp add: numeral_eq_Suc)

section \<open>Read-modify-write on a byte\<close>

text \<open>
  The register updates of the drivers are \<open>old & ~mask | value\<close>, computed at the width of
  \<^verbatim>\<open>int\<close> and cut to a byte by the call.
\<close>

definition merge_bits :: "u8 \<Rightarrow> u8 \<Rightarrow> u8 \<Rightarrow> u8" where
  "merge_bits old msk v = (old AND NOT msk) OR v"

lemma narrow_promote [simp]: "narrow (promote b) = b"
  by (rule bit_word_eqI) (simp add: narrow_def promote_def bit_simps)

lemma narrow_rmw:
  "narrow ((promote b AND NOT m) OR v) = merge_bits b (narrow m) (narrow v)"
  unfolding merge_bits_def
  by (rule bit_word_eqI) (simp add: narrow_def promote_def bit_simps)

lemma narrow_clear:
  "narrow (promote b AND NOT m) = merge_bits b (narrow m) 0"
  unfolding merge_bits_def
  by (rule bit_word_eqI) (simp add: narrow_def promote_def bit_simps)

lemma narrow_set:
  "narrow (promote b OR v) = merge_bits b 0 (narrow v)"
  unfolding merge_bits_def
  by (rule bit_word_eqI) (simp add: narrow_def promote_def bit_simps)

lemma bit_merge_bits:
  "bit (merge_bits old msk v) n \<longleftrightarrow> n < 8 \<and> (bit v n \<or> bit old n \<and> \<not> bit msk n)"
  by (auto simp: merge_bits_def bit_simps dest: bit_imp_le_length)

lemma merge_bits_frame: "merge_bits old msk v AND NOT msk = (old AND NOT msk) OR (v AND NOT msk)"
  unfolding merge_bits_def by (rule bit_word_eqI) (auto simp: bit_simps)

lemma merge_bits_field: "v AND NOT msk = 0 \<Longrightarrow> merge_bits old msk v AND msk = v"
proof -
  assume "v AND NOT msk = 0"
  then have none: "\<not> bit (v AND NOT msk) n" for n
    by simp
  have v: "bit msk n" if "bit v n" for n
    using none [of n] that bit_imp_le_length [OF that] by (simp add: bit_simps)
  show ?thesis
    unfolding merge_bits_def by (rule bit_word_eqI) (auto simp: bit_simps dest: v)
qed

end
