(* ===== verification/Kernel.thy ===== *)
theory Kernel
  imports Prelude
begin

text \<open>
  The boundary of the program. Everything below the sources (the operating system, the
  devices behind \<^verbatim>\<open>/dev/i2c-1\<close>, the clocks, the MQTT client library) is one parameter of
  the model: a function from a request and the state of the outside world to an answer and
  the next state of the world. Nothing is assumed about it here; the theories that rely on
  documented behaviour state it as a named predicate on this function.
\<close>

section \<open>Requests\<close>

record i2c_msg =
  m_addr :: u16
  m_flags :: u16
  m_len :: u16
  m_buf :: bytes

datatype sockaddr =
    Sockaddr_un string
  | Sockaddr_in u32 u16

datatype clock = Steady | Wall

datatype request =
    Open string
  | Close int
  | Ioctl_slave int int
  | Ioctl_rdwr int "i2c_msg list"
  | Read int nat
  | Perror string
  | Usleep int
  | Sleep_until int
  | Now clock
  | Access string
  | Unlink string
  | Socket int int int
  | Set_sock_opt int int int "u8 list"
  | Bind int sockaddr
  | Listen int int
  | Accept int
  | Connect int sockaddr
  | Send int "u8 list"
  | Recv int nat
  | Poll int
  | Fcntl_getfl int
  | Fcntl_setfl int int
  | Epoll_create
  | Epoll_add int int int
  | Epoll_del int int
  | Epoll_wait int nat
  | Mqtt_connect
  | Mqtt_subscribe string
  | Mqtt_publish string string
  | Mqtt_consume
  | Puts string
  | Printf string "real list"
  | Flush
  | Tcgetattr
  | Tcsetattr int
  | Start_thread string
  | Uninit nat

text \<open>
  An answer: the returned integer, the bytes stored into the caller's buffer, the epoll
  events (event mask and descriptor) and the consumed message (topic and payload). A request
  uses the part that its C signature has; \<open>Puts\<close> is text written to standard output, and \<open>Printf\<close>
  a call whose format has a conversion the C standard does not define, left to the library; \<open>Uninit n\<close> is no call at all, its bytes are what an
  uninitialised object of \<open>n\<close> bytes on the stack happens to hold.
\<close>

record answer =
  rval :: int
  rdata :: bytes
  revents :: "(int \<times> int) list"
  rmsg :: "(string \<times> string) option"

type_synonym 'w kernel = "request \<Rightarrow> 'w \<Rightarrow> answer \<times> 'w"

definition answer_of :: "int \<Rightarrow> answer" where
  "answer_of v = \<lparr>rval = v, rdata = [], revents = [], rmsg = None\<rparr>"

lemma answer_of_sel [simp]:
  "rval (answer_of v) = v" "rdata (answer_of v) = []" "revents (answer_of v) = []"
  "rmsg (answer_of v) = None"
  by (simp_all add: answer_of_def)

text \<open>Two control characters of terminal output.\<close>

definition esc :: string where "esc = [CHR 0x1B]"
definition newline :: string where "newline = [CHR 0x0A]"

section \<open>Calls whose answer is not looked at\<close>

definition call :: "'w kernel \<Rightarrow> request \<Rightarrow> 'w \<Rightarrow> 'w" where
  "call k q w = snd (k q w)"

definition ask :: "'w kernel \<Rightarrow> request \<Rightarrow> 'w \<Rightarrow> int \<times> 'w" where
  "ask k q w = (let (a, w') = k q w in (rval a, w'))"

definition uninit :: "'w kernel \<Rightarrow> nat \<Rightarrow> 'w \<Rightarrow> bytes" where
  "uninit k n w = store (replicate n 0) (rdata (fst (k (Uninit n) w)))"

lemma length_uninit [simp]: "length (uninit k n w) = n"
  by (simp add: uninit_def)

end
