(* ===== verification/I2c.thy ===== *)
theory I2c
  imports Kernel
begin

text \<open>
  \<^verbatim>\<open>src/backend/i2c.cpp\<close>: an I2C device as a file descriptor and a bus address, with the
  byte and burst transfers every driver is built on. The transfers are one \<^verbatim>\<open>I2C_RDWR\<close>
  ioctl each; a failed ioctl prints a message and is otherwise ignored.
\<close>

section \<open>The device\<close>

record device =
  fd :: int
  addr :: int

definition device_static :: device where
  "device_static = \<lparr>fd = 0, addr = 0\<rparr>"

definition I2C_M_RD :: u16 where
  "I2C_M_RD = 0x0001"

definition device_new :: "'w kernel \<Rightarrow> int \<Rightarrow> 'w \<Rightarrow> device \<times> 'w" where
  "device_new k a w =
     (let (f, w) = ask k (Open ''/dev/i2c-1'') w;
          d = \<lparr>fd = f, addr = a\<rparr>
      in if f < 0 then (d, w)
         else (d, call k (Ioctl_slave f a) w))"

definition device_close :: "'w kernel \<Rightarrow> device \<Rightarrow> 'w \<Rightarrow> 'w" where
  "device_close k d w = call k (Close (fd d)) w"

definition read_msgs :: "device \<Rightarrow> bytes \<Rightarrow> bytes \<Rightarrow> int \<Rightarrow> i2c_msg list" where
  "read_msgs d wbuf rbuf len =
     [\<lparr>m_addr = word_of_int (addr d), m_flags = 0, m_len = 1, m_buf = wbuf\<rparr>,
      \<lparr>m_addr = word_of_int (addr d), m_flags = I2C_M_RD, m_len = word_of_int len, m_buf = rbuf\<rparr>]"

definition read_byte :: "'w kernel \<Rightarrow> device \<Rightarrow> u8 \<Rightarrow> 'w \<Rightarrow> u8 \<times> 'w" where
  "read_byte k d reg w =
     (let buf = [reg];
          (a, w) = k (Ioctl_rdwr (fd d) (read_msgs d buf buf 1)) w;
          buf = store buf (rdata a);
          w = (if rval a < 0 then call k (Perror ''Error reading byte'') w else w)
      in (hd buf, w))"

definition read_burst :: "'w kernel \<Rightarrow> device \<Rightarrow> u8 \<Rightarrow> bytes \<Rightarrow> int \<Rightarrow> 'w \<Rightarrow> bytes \<times> 'w" where
  "read_burst k d reg buf len w =
     (let (a, w) = k (Ioctl_rdwr (fd d) (read_msgs d [reg] buf len)) w;
          buf = store buf (rdata a);
          w = (if rval a < 0 then call k (Perror ''Error reading bytes'') w else w)
      in (buf, w))"

definition write_byte :: "'w kernel \<Rightarrow> device \<Rightarrow> u8 \<Rightarrow> u8 \<Rightarrow> 'w \<Rightarrow> 'w" where
  "write_byte k d reg val w =
     (let buf = [reg, val];
          (a, w) = k (Ioctl_rdwr (fd d)
                        [\<lparr>m_addr = word_of_int (addr d), m_flags = 0, m_len = 2, m_buf = buf\<rparr>]) w
      in if rval a < 0 then call k (Perror ''Error writing byte'') w else w)"

lemma length_read_burst [simp]: "length (fst (read_burst k d reg buf len w)) = length buf"
  by (simp add: read_burst_def Let_def split: prod.splits)

section \<open>What a working bus promises\<close>

text \<open>
  The documented behaviour of \<^verbatim>\<open>i2c-dev\<close> with register-addressed slaves behind it, for the
  two message shapes the code sends: a one-byte write followed by a read of \<open>n\<close> bytes returns
  the registers from the addressed one on, and a two-byte write stores the second byte in the
  register the first one names. \<open>regs\<close> reads the registers of every slave off the world.
  Every other request leaves the registers alone: a slave keeps its registers between
  transfers, so a sensor whose readings move is outside this assumption.
\<close>

definition bus_reads :: "'w kernel \<Rightarrow> ('w \<Rightarrow> u16 \<Rightarrow> u8 \<Rightarrow> u8) \<Rightarrow> bool" where
  "bus_reads k regs \<longleftrightarrow>
     (\<forall>f a r n b w. 0 \<le> f \<longrightarrow>
        (case k (Ioctl_rdwr f
               [\<lparr>m_addr = a, m_flags = 0, m_len = 1, m_buf = [r]\<rparr>,
                \<lparr>m_addr = a, m_flags = I2C_M_RD, m_len = n, m_buf = b\<rparr>]) w of (x, w') \<Rightarrow>
         0 \<le> rval x \<and> rdata x = map (\<lambda>i. regs w a (r + of_nat i)) [0..<unat n] \<and>
         regs w' = regs w))"

definition bus_writes :: "'w kernel \<Rightarrow> ('w \<Rightarrow> u16 \<Rightarrow> u8 \<Rightarrow> u8) \<Rightarrow> bool" where
  "bus_writes k regs \<longleftrightarrow>
     (\<forall>f a r v w. 0 \<le> f \<longrightarrow>
        (case k (Ioctl_rdwr f [\<lparr>m_addr = a, m_flags = 0, m_len = 2, m_buf = [r, v]\<rparr>]) w of
           (x, w') \<Rightarrow> 0 \<le> rval x \<and> regs w' = (regs w)(a := (regs w a)(r := v))))"

definition bus_stable :: "'w kernel \<Rightarrow> ('w \<Rightarrow> u16 \<Rightarrow> u8 \<Rightarrow> u8) \<Rightarrow> request \<Rightarrow> bool" where
  "bus_stable k regs q \<longleftrightarrow> (\<forall>w. regs (snd (k q w)) = regs w)"

definition is_transfer :: "request \<Rightarrow> bool" where
  "is_transfer q = (case q of Ioctl_rdwr _ _ \<Rightarrow> True | _ \<Rightarrow> False)"

definition register_bus :: "'w kernel \<Rightarrow> ('w \<Rightarrow> u16 \<Rightarrow> u8 \<Rightarrow> u8) \<Rightarrow> bool" where
  "register_bus k regs \<longleftrightarrow>
     bus_reads k regs \<and> bus_writes k regs \<and>
     (\<forall>q. \<not> is_transfer q \<longrightarrow> bus_stable k regs q) \<and>
     (\<forall>w. 0 \<le> rval (fst (k (Open ''/dev/i2c-1'') w)))"

lemma register_bus_read:
  assumes "register_bus k regs" "0 \<le> f"
    and "k (Ioctl_rdwr f
               [\<lparr>m_addr = a, m_flags = 0, m_len = 1, m_buf = [r]\<rparr>,
                \<lparr>m_addr = a, m_flags = I2C_M_RD, m_len = n, m_buf = b\<rparr>]) w = (x, w')"
  shows "\<not> rval x < 0 \<and> rdata x = map (\<lambda>i. regs w a (r + of_nat i)) [0..<unat n] \<and>
    regs w' = regs w"
proof -
  from assms(1) have "bus_reads k regs" by (simp only: register_bus_def)
  from this [unfolded bus_reads_def, rule_format, OF assms(2), where a = a and r = r and n = n and b = b and w = w]
  show ?thesis by (simp add: assms(3))
qed

lemma register_bus_write:
  assumes "register_bus k regs" "0 \<le> f"
    and "k (Ioctl_rdwr f [\<lparr>m_addr = a, m_flags = 0, m_len = 2, m_buf = [r, v]\<rparr>]) w = (x, w')"
  shows "\<not> rval x < 0 \<and> regs w' = (regs w)(a := (regs w a)(r := v))"
proof -
  from assms(1) have "bus_writes k regs" by (simp only: register_bus_def)
  from this [unfolded bus_writes_def, rule_format, OF assms(2), where a = a and r = r and v = v and w = w]
  show ?thesis by (simp add: assms(3))
qed

lemma register_bus_call [regs_simps]:
  assumes "register_bus k regs"
  shows "\<not> is_transfer q \<Longrightarrow> regs (call k q w) = regs w"
    "regs (call k (Usleep u) w) = regs w" "regs (call k (Puts s) w) = regs w"
    "regs (call k (Ioctl_slave f a) w) = regs w" "regs (call k (Printf s xs) w) = regs w"
    "regs (call k Mqtt_connect w) = regs w" "regs (call k (Mqtt_subscribe s) w) = regs w"
    "regs (call k (Mqtt_publish s t) w) = regs w"
  using assms by (simp_all add: register_bus_def bus_stable_def call_def is_transfer_def)

lemma device_new_ok:
  assumes "register_bus k regs"
  shows "0 \<le> fd (fst (device_new k a w))" "addr (fst (device_new k a w)) = a"
    "regs (snd (device_new k a w)) = regs w"
proof -
  obtain x w' where kw: "k (Open ''/dev/i2c-1'') w = (x, w')" by fastforce
  have "0 \<le> rval x" and "regs w' = regs w"
    using assms kw unfolding register_bus_def bus_stable_def
    by (metis fst_conv) (use assms kw register_bus_call(1) [OF assms, of "Open ''/dev/i2c-1''" w]
      in \<open>simp add: call_def is_transfer_def\<close>)
  then show "0 \<le> fd (fst (device_new k a w))" "addr (fst (device_new k a w)) = a"
    "regs (snd (device_new k a w)) = regs w"
    using register_bus_call [OF assms] by (simp_all add: device_new_def ask_def Let_def kw)
qed

section \<open>The register interface the drivers use\<close>

text \<open>
  A configured device, as the drivers see it: \<open>view\<close> is its register file, a read returns a
  register and changes none, a write changes the addressed register only. The laws are
  required where \<open>good\<close> holds of the configuration.
\<close>

locale reg_device =
  fixes good :: "'c \<Rightarrow> bool"
    and rd :: "'c \<Rightarrow> u8 \<Rightarrow> 'w \<Rightarrow> u8 \<times> 'w"
    and wr :: "'c \<Rightarrow> u8 \<Rightarrow> u8 \<Rightarrow> 'w \<Rightarrow> 'w"
    and view :: "'c \<Rightarrow> 'w \<Rightarrow> u8 \<Rightarrow> u8"
  assumes rd_val: "good c \<Longrightarrow> fst (rd c r w) = view c w r"
    and rd_view: "good c \<Longrightarrow> view c (snd (rd c r w)) = view c w"
    and wr_view: "good c \<Longrightarrow> view c (wr c r v w) = (view c w)(r := v)"
begin

text \<open>Reading a register, computing a new value from it and writing that back.\<close>

lemma rmw:
  assumes "good c"
  shows "view c (wr c r (f (fst (rd c r w))) (snd (rd c r w))) = (view c w)(r := f (view c w r))"
  using assms by (simp add: rd_val rd_view wr_view)

text \<open>A sequence of writes is the fold of the updates, so the last write to a register stays.\<close>

lemma writes:
  assumes "good c"
  shows "view c (fold (\<lambda>(r, v). wr c r v) rvs w) = fold (\<lambda>(r, v) m. m(r := v)) rvs (view c w)"
  using assms by (induction rvs arbitrary: w) (auto simp: wr_view)

lemma rd_after_wr:
  assumes "good c"
  shows "fst (rd c r (wr c r v w)) = v"
  using assms by (simp add: rd_val wr_view)

end

definition bus_good :: "'w kernel \<times> ('w \<Rightarrow> u16 \<Rightarrow> u8 \<Rightarrow> u8) \<times> device \<Rightarrow> bool" where
  "bus_good c = (case c of (k, regs, d) \<Rightarrow> register_bus k regs \<and> 0 \<le> fd d)"

definition dev_regs :: "('w \<Rightarrow> u16 \<Rightarrow> u8 \<Rightarrow> u8) \<Rightarrow> device \<Rightarrow> 'w \<Rightarrow> u8 \<Rightarrow> u8" where
  "dev_regs regs d w = regs w (word_of_int (addr d))"

lemma read_byte_val:
  assumes "register_bus k regs" "0 \<le> fd d"
  shows "fst (read_byte k d r w) = dev_regs regs d w r"
    "regs (snd (read_byte k d r w)) = regs w"
proof -
  obtain x w' where kw: "k (Ioctl_rdwr (fd d) (read_msgs d [r] [r] 1)) w = (x, w')" by fastforce
  from register_bus_read [OF assms kw [unfolded read_msgs_def]] show
    "fst (read_byte k d r w) = dev_regs regs d w r"
    "regs (snd (read_byte k d r w)) = regs w"
    by (simp_all add: read_byte_def kw dev_regs_def)
qed

lemma write_byte_regs:
  assumes "register_bus k regs" "0 \<le> fd d"
  shows "regs (write_byte k d r v w) =
    (regs w)(word_of_int (addr d) := (dev_regs regs d w)(r := v))"
proof -
  obtain x w' where kw: "k (Ioctl_rdwr (fd d)
    [\<lparr>m_addr = word_of_int (addr d), m_flags = 0, m_len = 2, m_buf = [r, v]\<rparr>]) w = (x, w')"
    by fastforce
  from register_bus_write [OF assms kw] show ?thesis
    by (simp add: write_byte_def kw dev_regs_def)
qed

lemma read_burst_val:
  assumes "register_bus k regs" "0 \<le> fd d" "length buf = n" "n < 65536"
  shows "fst (read_burst k d r buf (int n) w) =
      map (\<lambda>i. dev_regs regs d w (r + of_nat i)) [0..<n]"
    "regs (snd (read_burst k d r buf (int n) w)) = regs w"
proof -
  have n: "unat (word_of_int (int n) :: u16) = n"
    using assms(4) by (simp add: unat_of_nat)
  obtain x w' where kw: "k (Ioctl_rdwr (fd d) (read_msgs d [r] buf (int n))) w = (x, w')"
    by fastforce
  from register_bus_read [OF assms(1,2) kw [unfolded read_msgs_def]] n assms(3) show
    "fst (read_burst k d r buf (int n) w) = map (\<lambda>i. dev_regs regs d w (r + of_nat i)) [0..<n]"
    "regs (snd (read_burst k d r buf (int n) w)) = regs w"
    by (simp_all add: read_burst_def kw dev_regs_def)
qed

text \<open>The byte transfers of the code provide the interface, on any bus that works.\<close>

interpretation i2c: reg_device bus_good
  "\<lambda>(k, regs, d). read_byte k d" "\<lambda>(k, regs, d). write_byte k d" "\<lambda>(k, regs, d). dev_regs regs d"
  by unfold_locales
    (auto simp: bus_good_def read_byte_val write_byte_regs dev_regs_def)

end
