(* ===== verification/Sim.thy ===== *)
theory Sim
  imports I2c
begin

text \<open>
  A small concrete world for the witnesses: a register file per bus address, a script of
  answers for the requests that are not about the bus, and a log of those requests. It takes
  no part in the properties, which hold for every kernel (with the named assumptions); the
  witnesses instantiate the kernel with it.
\<close>

record sim =
  sim_regs :: "u16 \<Rightarrow> u8 \<Rightarrow> u8"
  sim_script :: "answer list"
  sim_log :: "request list"

definition sim0 :: sim where
  "sim0 = \<lparr>sim_regs = (\<lambda>_ _. 0), sim_script = [], sim_log = []\<rparr>"

definition sim_rdwr :: "i2c_msg list \<Rightarrow> sim \<Rightarrow> answer \<times> sim" where
  "sim_rdwr ms w =
     (case ms of
        [m] \<Rightarrow>
          (case m_buf m of
             [r, v] \<Rightarrow> (answer_of 1, w\<lparr>sim_regs := (sim_regs w)(m_addr m := (sim_regs w (m_addr m))(r := v))\<rparr>)
           | _ \<Rightarrow> (answer_of (-1), w))
      | [m, m'] \<Rightarrow>
          (case m_buf m of
             [r] \<Rightarrow> ((answer_of 2)\<lparr>rdata := map (\<lambda>i. sim_regs w (m_addr m') (r + of_nat i)) [0..<unat (m_len m')]\<rparr>, w)
           | _ \<Rightarrow> (answer_of (-1), w))
      | _ \<Rightarrow> (answer_of (-1), w))"

definition sim_other :: "request \<Rightarrow> sim \<Rightarrow> answer \<times> sim" where
  "sim_other q w =
     (case sim_script w of
        [] \<Rightarrow> (answer_of 0, w\<lparr>sim_log := sim_log w @ [q]\<rparr>)
      | a # as \<Rightarrow> (a, w\<lparr>sim_script := as, sim_log := sim_log w @ [q]\<rparr>))"

fun sim_kernel :: "sim kernel" where
  "sim_kernel (Ioctl_rdwr f ms) w = sim_rdwr ms w"
| "sim_kernel (Usleep u) w = (answer_of 0, w)"
| "sim_kernel (Puts s) w = (answer_of 0, w)"
| "sim_kernel (Perror s) w = (answer_of 0, w)"
| "sim_kernel (Open p) w = (answer_of 3, w)"
| "sim_kernel (Ioctl_slave f a) w = (answer_of 0, w)"
| "sim_kernel (Uninit n) w = (answer_of 0, w)"
| "sim_kernel q w = sim_other q w"

lemma sim_other_regs [simp]: "sim_regs (snd (sim_other q w)) = sim_regs w"
  by (simp add: sim_other_def split: list.splits)

lemma sim_stable: "\<not> is_transfer q \<Longrightarrow> sim_regs (snd (sim_kernel q w)) = sim_regs w"
  by (cases q) (simp_all add: is_transfer_def)

lemma sim_bus: "register_bus sim_kernel sim_regs"
  by (simp add: register_bus_def bus_reads_def bus_writes_def bus_stable_def sim_rdwr_def sim_stable)

text \<open>The same world with a broker that takes every message and serves those of the script.\<close>

definition sim_consume :: "sim \<Rightarrow> answer \<times> sim" where
  "sim_consume w =
     (case sim_script w of
        [] \<Rightarrow> (answer_of 0, w)
      | a # as \<Rightarrow> (if rmsg a = None then answer_of 0 else a, w\<lparr>sim_script := as\<rparr>))"

definition sim_up :: "sim kernel" where
  "sim_up q w =
     (case q of
        Mqtt_connect \<Rightarrow> (answer_of 0, w)
      | Mqtt_subscribe t \<Rightarrow> (answer_of 0, w)
      | Mqtt_publish t m \<Rightarrow> (answer_of 0, w\<lparr>sim_log := sim_log w @ [q]\<rparr>)
      | Mqtt_consume \<Rightarrow> sim_consume w
      | _ \<Rightarrow> sim_kernel q w)"

lemma sim_up_stable: "\<not> is_transfer q \<Longrightarrow> sim_regs (snd (sim_up q w)) = sim_regs w"
  by (cases q) (simp_all add: is_transfer_def sim_up_def sim_consume_def split: list.splits)

lemma sim_up_bus: "register_bus sim_up sim_regs"
  by (simp add: register_bus_def bus_reads_def bus_writes_def bus_stable_def sim_rdwr_def
      sim_up_stable)
    (simp add: sim_up_def sim_rdwr_def)

text \<open>A world whose bus answers every read with the same bytes.\<close>

definition sim_reader :: "bytes \<Rightarrow> sim kernel" where
  "sim_reader buf q w = ((answer_of 2)\<lparr>rdata := buf\<rparr>, w)"

lemma sim_reader_burst:
  "length buf = length b \<Longrightarrow> read_burst (sim_reader buf) d r b n w = (buf, w)"
  by (simp add: read_burst_def sim_reader_def)

lemma sim0_regs [simp]: "sim_regs sim0 = (\<lambda>_ _. 0)"
  by (simp add: sim0_def)

end
