(* ===== verification/Pca9685.thy ===== *)
theory Pca9685
  imports I2c Sim
begin

text \<open>
  \<^verbatim>\<open>src/backend/pca9685.cpp\<close>: the sixteen-channel PWM chip that drives the motors and LEDs.
  The state is the device with the frequency and the period (in microseconds) that the file
  keeps in static variables. Integer division by zero, overflow and an index outside the
  register table are faults.
\<close>

section \<open>Registers\<close>

definition PCA9685_ADDRESS :: int where "PCA9685_ADDRESS = 0x40"
definition MODE_1 :: u8 where "MODE_1 = 0x00"
definition PRESCALE :: u8 where "PRESCALE = 0xFE"

definition pwm_regs :: "u8 list list" where
  "pwm_regs =
    [[0x06, 0x07, 0x08, 0x09],
     [0x0A, 0x0B, 0x0C, 0x0D],
     [0x0E, 0x0F, 0x10, 0x11],
     [0x02, 0x03, 0x14, 0x15],
     [0x16, 0x17, 0x18, 0x19],
     [0x1A, 0x1B, 0x1C, 0x1D],
     [0x1E, 0x1F, 0x20, 0x21],
     [0x22, 0x23, 0x24, 0x25],
     [0x26, 0x27, 0x28, 0x29],
     [0x2A, 0x2B, 0x2C, 0x2D],
     [0x2E, 0x2F, 0x30, 0x31],
     [0x32, 0x33, 0x34, 0x35],
     [0x36, 0x37, 0x38, 0x39],
     [0x3A, 0x3B, 0x3C, 0x3D],
     [0x3E, 0x3F, 0x40, 0x41],
     [0x42, 0x43, 0x44, 0x45]]"

text \<open>
  The constants \<^verbatim>\<open>PWM0_ON_L\<close> to \<^verbatim>\<open>PWM15_OFF_H\<close> of the header, a row of ON_L, ON_H, OFF_L and
  OFF_H for each channel. The code uses the table above and not these.
\<close>

definition pwm_header :: "u8 list list" where
  "pwm_header =
    [[0x06, 0x07, 0x08, 0x09],
     [0x0A, 0x0B, 0x0C, 0x0D],
     [0x0E, 0x0F, 0x11, 0x10],
     [0x12, 0x13, 0x14, 0x15],
     [0x16, 0x17, 0x18, 0x19],
     [0x1A, 0x1B, 0x1C, 0x1D],
     [0x1E, 0x1F, 0x20, 0x21],
     [0x22, 0x23, 0x24, 0x25],
     [0x26, 0x27, 0x28, 0x29],
     [0x2A, 0x2B, 0x2C, 0x2D],
     [0x2E, 0x2F, 0x30, 0x31],
     [0x32, 0x33, 0x34, 0x35],
     [0x36, 0x37, 0x38, 0x39],
     [0x3A, 0x3B, 0x3C, 0x3D],
     [0x3E, 0x3F, 0x40, 0x41],
     [0x42, 0x43, 0x44, 0x45]]"

text \<open>The register map of the chip itself: four registers a channel, from address 6 up.\<close>

definition PWM_ON_L :: "nat \<Rightarrow> u8" where "PWM_ON_L c = 0x06 + 4 * of_nat c"
definition PWM_ON_H :: "nat \<Rightarrow> u8" where "PWM_ON_H c = 0x07 + 4 * of_nat c"
definition PWM_OFF_L :: "nat \<Rightarrow> u8" where "PWM_OFF_L c = 0x08 + 4 * of_nat c"
definition PWM_OFF_H :: "nat \<Rightarrow> u8" where "PWM_OFF_H c = 0x09 + 4 * of_nat c"

section \<open>State and operations\<close>

record pca =
  pca_dev :: device
  freq :: int
  per :: int

definition pca_static :: pca where
  "pca_static = \<lparr>pca_dev = device_static, freq = 200, per = 1000000 div 200\<rparr>"

definition get_frequency :: "'w kernel \<Rightarrow> device \<Rightarrow> 'w \<Rightarrow> int \<times> 'w" where
  "get_frequency k d w =
     (let (v, w) = read_byte k d PRESCALE w
      in (c_div 25000000 ((uint v + 1) * 4096), w))"

definition period_of :: "int \<Rightarrow> fault + int" where
  "period_of f = (if f = 0 then Inl Div_by_zero else Inr (c_div 1000000 f))"

definition pca_init :: "'w kernel \<Rightarrow> pca \<Rightarrow> ('w, pca) io" where
  "pca_init k p w =
     (let (d, w) = device_new k PCA9685_ADDRESS w;
          (f, w) = get_frequency k d w
      in io_bind (io_lift (period_of f))
           (\<lambda>t. io_return \<lparr>pca_dev = d, freq = f, per = t\<rparr>) w)"

definition pca_destroy :: "'w kernel \<Rightarrow> pca \<Rightarrow> 'w \<Rightarrow> 'w" where
  "pca_destroy k p w = device_close k (pca_dev p) w"

definition pca_query_reg :: "'w kernel \<Rightarrow> pca \<Rightarrow> int \<Rightarrow> 'w \<Rightarrow> int \<times> 'w" where
  "pca_query_reg k p reg w =
     (let (v, w) = read_byte k (pca_dev p) (word_of_int reg) w in (uint v, w))"

definition pca_write_reg :: "'w kernel \<Rightarrow> pca \<Rightarrow> int \<Rightarrow> int \<Rightarrow> 'w \<Rightarrow> 'w" where
  "pca_write_reg k p reg v w = write_byte k (pca_dev p) (word_of_int reg) (word_of_int v) w"

definition pcaround :: "real \<Rightarrow> int" where
  "pcaround d =
     (if d < 0 then
        (if - d - real_of_int (c_trunc (- d)) < 0.5 then c_trunc d else c_trunc d - 1)
      else (if d - real_of_int (c_trunc d) < 0.5 then c_trunc d else c_trunc d + 1))"

definition set_frequency :: "'w kernel \<Rightarrow> int \<Rightarrow> pca \<Rightarrow> ('w, pca) io" where
  "set_frequency k frq p =
     io_bind (io_lift (period_of frq)) (\<lambda>t.
       if \<not> int_ok (4096 * frq) then io_fail Undefined_behaviour
       else
         (let p = p\<lparr>freq := frq, per := t\<rparr>;
              reg_val = pcaround (25000000 / real_of_int (4096 * freq p)) - 1
          in io_bind (io_act (write_byte k (pca_dev p) PRESCALE
                                 (narrow (word_of_int reg_val AND 0xFF))))
               (\<lambda>_. io_bind (io_act (call k (Usleep 5000))) (\<lambda>_. io_return p))))"

definition cycle_lo :: "int \<Rightarrow> u8" where
  "cycle_lo cycle = narrow (word_of_int cycle AND 0xFF)"

definition cycle_hi :: "int \<Rightarrow> u8" where
  "cycle_hi cycle = narrow (signed_drop_bit 8 (word_of_int cycle) AND 0xF)"

definition write_pwm :: "'w kernel \<Rightarrow> pca \<Rightarrow> int \<Rightarrow> int \<Rightarrow> ('w, unit) io" where
  "write_pwm k p pwm cycle =
     (if pwm < 0 \<or> 16 \<le> pwm then io_fail Undefined_behaviour
      else io_act (fold (\<lambda>(r, v). write_byte k (pca_dev p) r v)
             [(pwm_regs ! nat pwm ! 0, 0), (pwm_regs ! nat pwm ! 1, 0),
              (pwm_regs ! nat pwm ! 2, cycle_lo cycle), (pwm_regs ! nat pwm ! 3, cycle_hi cycle)]))"

definition cycle_of :: "int \<Rightarrow> int \<Rightarrow> fault + int" where
  "cycle_of period micro_s =
     (if \<not> int_ok (4096 * micro_s) then Inl Undefined_behaviour
      else if period = 0 then Inl Div_by_zero
      else Inr (c_div (4096 * micro_s) period))"

definition set_pwm_ms :: "'w kernel \<Rightarrow> pca \<Rightarrow> int \<Rightarrow> int \<Rightarrow> ('w, unit) io" where
  "set_pwm_ms k p pwm micro_s =
     io_bind (io_lift (cycle_of (per p) micro_s)) (write_pwm k p pwm)"

definition set_pwm_percent :: "'w kernel \<Rightarrow> pca \<Rightarrow> int \<Rightarrow> real \<Rightarrow> ('w, unit) io" where
  "set_pwm_percent k p pwm percent =
     io_bind (io_lift (int_of_double (4096 * percent))) (write_pwm k p pwm)"

definition set_pwm_on :: "'w kernel \<Rightarrow> pca \<Rightarrow> int \<Rightarrow> int \<Rightarrow> ('w, unit) io" where
  "set_pwm_on k p pwm v =
     (if pwm < 0 \<or> 16 \<le> pwm then io_fail Undefined_behaviour
      else io_act (fold (\<lambda>(r, v). write_byte k (pca_dev p) r v)
             [(pwm_regs ! nat pwm ! 0, cycle_lo v), (pwm_regs ! nat pwm ! 1, cycle_hi v)]))"

definition set_pwm_off :: "int \<Rightarrow> int \<Rightarrow> 'w \<Rightarrow> 'w" where
  "set_pwm_off pwm v w = w"

definition pca_wake_up :: "'w kernel \<Rightarrow> pca \<Rightarrow> 'w \<Rightarrow> 'w" where
  "pca_wake_up k p w =
     (let (old, w) = read_byte k (pca_dev p) MODE_1 w;
          w = write_byte k (pca_dev p) MODE_1 (narrow (promote old AND NOT 0b00010000)) w
      in call k (Usleep 5000) w)"

definition pca_sleep :: "'w kernel \<Rightarrow> pca \<Rightarrow> 'w \<Rightarrow> 'w" where
  "pca_sleep k p w =
     (let (old, w) = read_byte k (pca_dev p) MODE_1 w;
          w = write_byte k (pca_dev p) MODE_1 (narrow ((promote old AND 0xFF) OR 0b00010000)) w
      in call k (Usleep 5000) w)"

definition pca_restart :: "'w \<Rightarrow> 'w" where
  "pca_restart w = w"

section \<open>The cycle bytes\<close>

lemma cycle_lo_value: "uint (cycle_lo c) = c mod 256"
proof -
  have m: "(0xFF :: u32) = mask 8" by (simp add: mask_eq_exp_minus_1)
  have "cycle_lo c = word_of_int c"
    unfolding cycle_lo_def narrow_def m by (rule bit_word_eqI) (auto simp: bit_simps)
  then show ?thesis by (simp add: uint_word_of_int)
qed

lemma cycle_hi_value: "uint (cycle_hi c) = c div 256 mod 16"
proof -
  have m: "(0xF :: u32) = mask 4" by (simp add: mask_eq_exp_minus_1)
  have "uint (cycle_hi c) = take_bit 4 (drop_bit 8 c)"
    unfolding cycle_hi_def narrow_def m
    by (rule bit_eqI) (auto simp: bit_simps)
  then show ?thesis by (simp add: take_bit_eq_mod drop_bit_eq_div)
qed

lemma cycle_bytes: "uint (cycle_lo c) + 256 * uint (cycle_hi c) = c mod 4096"
  unfolding cycle_lo_value cycle_hi_value
  using mod_mult2_eq' [of c 256 16] by simp


section \<open>Channels as the chip sees them\<close>

definition pwm_on_ticks :: "(u8 \<Rightarrow> u8) \<Rightarrow> int \<Rightarrow> int" where
  "pwm_on_ticks view c = uint (view (PWM_ON_L (nat c))) + 256 * uint (view (PWM_ON_H (nat c)))"

definition pwm_off_ticks :: "(u8 \<Rightarrow> u8) \<Rightarrow> int \<Rightarrow> int" where
  "pwm_off_ticks view c = uint (view (PWM_OFF_L (nat c))) + 256 * uint (view (PWM_OFF_H (nat c)))"

text \<open>
  The output of a channel is high from its ON count to its OFF count, of 4096 counts a period.
\<close>

definition pulse_us :: "int \<Rightarrow> (u8 \<Rightarrow> u8) \<Rightarrow> int \<Rightarrow> real" where
  "pulse_us period view c =
     real_of_int (((pwm_off_ticks view c - pwm_on_ticks view c) mod 4096) * period) / 4096"

lemma channel_cases:
  assumes "0 \<le> c" "c < 16"
  obtains "c = 0" | "c = 1" | "c = 2" | "c = 3" | "c = 4" | "c = 5" | "c = 6" | "c = (7::int)"
    | "c = 8" | "c = 9" | "c = 10" | "c = 11" | "c = 12" | "c = 13" | "c = 14" | "c = 15"
proof -
  have "c = 0 \<or> c = 1 \<or> c = 2 \<or> c = 3 \<or> c = 4 \<or> c = 5 \<or> c = 6 \<or> c = 7 \<or> c = 8 \<or>
    c = 9 \<or> c = 10 \<or> c = 11 \<or> c = 12 \<or> c = 13 \<or> c = 14 \<or> c = 15"
    using assms by arith
  with that show thesis by blast
qed

lemmas pwm_addr_defs = pwm_regs_def PWM_ON_L_def PWM_ON_H_def PWM_OFF_L_def PWM_OFF_H_def

lemma pwm_regs_off:
  assumes "0 \<le> c" "c < 16"
  shows "pwm_regs ! nat c ! 2 = PWM_OFF_L (nat c)" "pwm_regs ! nat c ! 3 = PWM_OFF_H (nat c)"
  by (use assms in \<open>cases rule: channel_cases\<close>; simp add: pwm_addr_defs)+

lemma pwm_regs_on:
  assumes "0 \<le> c" "c < 16" "c \<noteq> 3"
  shows "pwm_regs ! nat c ! 0 = PWM_ON_L (nat c)" "pwm_regs ! nat c ! 1 = PWM_ON_H (nat c)"
  using assms(3) by (use assms(1,2) in \<open>cases rule: channel_cases\<close>; simp add: pwm_addr_defs)+

lemma write_pwm_ok:
  assumes "0 \<le> c" "c < 16"
  shows "write_pwm k p c cyc w = (Inr (), snd (write_pwm k p c cyc w))"
  using assms by (simp add: write_pwm_def fault_simps)

lemma write_pwm_regs:
  assumes "register_bus k regs" "0 \<le> fd (pca_dev p)" "0 \<le> c" "c < 16"
  shows "dev_regs regs (pca_dev p) (snd (write_pwm k p c cyc w)) =
    (dev_regs regs (pca_dev p) w)(pwm_regs ! nat c ! 0 := 0, pwm_regs ! nat c ! 1 := 0,
       PWM_OFF_L (nat c) := cycle_lo cyc, PWM_OFF_H (nat c) := cycle_hi cyc)"
proof -
  have "bus_good (k, regs, pca_dev p)"
    using assms by (simp add: bus_good_def)
  from i2c.wr_view [OF this] show ?thesis
    using assms(3,4) by (simp add: write_pwm_def fault_simps pwm_regs_off)
qed

text \<open>The four registers the code writes for a channel.\<close>

definition pulse_regs :: "int \<Rightarrow> int \<Rightarrow> (u8 \<Rightarrow> u8) \<Rightarrow> u8 \<Rightarrow> u8" where
  "pulse_regs c cyc view = view(pwm_regs ! nat c ! 0 := 0, pwm_regs ! nat c ! 1 := 0,
     PWM_OFF_L (nat c) := cycle_lo cyc, PWM_OFF_H (nat c) := cycle_hi cyc)"

text \<open>
  The register addresses as numbers, and from them the comparisons the channel proofs need:
  the OFF registers of different channels differ, and no ON register is one of them.
\<close>

lemma uint_pwm_addr:
  assumes "0 \<le> c" "c < 16"
  shows "uint (PWM_OFF_L (nat c)) = 8 + 4 * c" "uint (PWM_OFF_H (nat c)) = 9 + 4 * c"
    "uint (PWM_ON_L (nat c)) = 6 + 4 * c" "uint (PWM_ON_H (nat c)) = 7 + 4 * c"
    "uint (pwm_regs ! nat c ! 0) = (if c = 3 then 2 else 6 + 4 * c)"
    "uint (pwm_regs ! nat c ! 1) = (if c = 3 then 3 else 7 + 4 * c)"
  by (use assms in \<open>cases rule: channel_cases\<close>; simp add: pwm_addr_defs)+

lemma pwm_addr_neq:
  assumes "0 \<le> c" "c < 16" "0 \<le> d" "d < 16"
  shows "PWM_OFF_L (nat c) = PWM_OFF_L (nat d) \<longleftrightarrow> c = d"
    "PWM_OFF_H (nat c) = PWM_OFF_H (nat d) \<longleftrightarrow> c = d"
    "PWM_OFF_L (nat c) \<noteq> PWM_OFF_H (nat d)" "PWM_OFF_H (nat c) \<noteq> PWM_OFF_L (nat d)"
    "PWM_OFF_L (nat c) \<noteq> PWM_ON_L (nat d)" "PWM_OFF_L (nat c) \<noteq> PWM_ON_H (nat d)"
    "PWM_OFF_H (nat c) \<noteq> PWM_ON_L (nat d)" "PWM_OFF_H (nat c) \<noteq> PWM_ON_H (nat d)"
    "PWM_ON_L (nat c) \<noteq> PWM_ON_H (nat d)"
    "PWM_OFF_L (nat c) \<noteq> pwm_regs ! nat d ! 0" "PWM_OFF_L (nat c) \<noteq> pwm_regs ! nat d ! 1"
    "PWM_OFF_H (nat c) \<noteq> pwm_regs ! nat d ! 0" "PWM_OFF_H (nat c) \<noteq> pwm_regs ! nat d ! 1"
  using uint_pwm_addr [OF assms(1,2)] uint_pwm_addr [OF assms(3,4)] assms
  unfolding word_uint_eq_iff by (simp_all split: if_splits) presburger+

lemma write_pwm_duty:
  assumes "register_bus k regs" "0 \<le> fd (pca_dev p)" "0 \<le> c" "c < 16" "0 \<le> d" "d < 16"
  shows "pwm_off_ticks (dev_regs regs (pca_dev p) (snd (write_pwm k p c cyc w))) d =
    (if d = c then cyc mod 4096 else pwm_off_ticks (dev_regs regs (pca_dev p) w) d)"
  unfolding pwm_off_ticks_def write_pwm_regs [OF assms(1-4)]
  using pwm_addr_neq [OF assms(5,6,3,4)] by (simp add: cycle_bytes)


section \<open>The PWM interface of the client programs\<close>

text \<open>
  What the motor controller relies on: setting a channel inside the working range succeeds,
  gives that channel its duty and leaves the duty of every other channel.
\<close>

locale pwm_driver =
  fixes good :: "'c \<Rightarrow> bool"
    and in_range :: "'c \<Rightarrow> int \<Rightarrow> bool"
    and set_ch :: "'c \<Rightarrow> int \<Rightarrow> int \<Rightarrow> ('w, unit) io"
    and ticks :: "'c \<Rightarrow> int \<Rightarrow> int"
    and duty :: "'c \<Rightarrow> 'w \<Rightarrow> int \<Rightarrow> int"
  assumes set_ok: "good c \<Longrightarrow> 0 \<le> ch \<Longrightarrow> ch < 16 \<Longrightarrow> in_range c v \<Longrightarrow> fst (set_ch c ch v w) = Inr ()"
    and set_duty: "good c \<Longrightarrow> 0 \<le> ch \<Longrightarrow> ch < 16 \<Longrightarrow> in_range c v \<Longrightarrow> 0 \<le> d \<Longrightarrow> d < 16 \<Longrightarrow>
      duty c (snd (set_ch c ch v w)) d = (if d = ch then ticks c v else duty c w d)"
begin

primrec set_all :: "'c \<Rightarrow> (int \<times> int) list \<Rightarrow> ('w, unit) io" where
  "set_all c [] = io_return ()"
| "set_all c (x # xs) = io_bind (set_ch c (fst x) (snd x)) (\<lambda>_. set_all c xs)"

lemma set_all_ok:
  assumes "good c" "\<forall>(ch, v) \<in> set xs. 0 \<le> ch \<and> ch < 16 \<and> in_range c v" "distinct (map fst xs)"
  shows "fst (set_all c xs w) = Inr () \<and>
    (\<forall>d. 0 \<le> d \<longrightarrow> d < 16 \<longrightarrow> duty c (snd (set_all c xs w)) d =
       (case map_of xs d of Some v \<Rightarrow> ticks c v | None \<Rightarrow> duty c w d))"
  using assms(2,3)
proof (induction xs arbitrary: w)
  case Nil
  then show ?case by (simp add: fault_simps)
next
  case (Cons x xs)
  obtain ch v where x: "x = (ch, v)" by fastforce
  have r: "0 \<le> ch" "ch < 16" "in_range c v" using Cons.prems(1) x by simp_all
  obtain w1 where w1: "set_ch c ch v w = (Inr (), w1)"
    using set_ok [OF assms(1) r, of w] by (metis prod.collapse)
  have "fst (set_all c xs w1) = Inr () \<and>
    (\<forall>d. 0 \<le> d \<longrightarrow> d < 16 \<longrightarrow> duty c (snd (set_all c xs w1)) d =
       (case map_of xs d of Some v \<Rightarrow> ticks c v | None \<Rightarrow> duty c w1 d))"
    using Cons by simp
  moreover have "duty c w1 d = (if d = ch then ticks c v else duty c w d)" if "0 \<le> d" "d < 16" for d
    using set_duty [OF assms(1) r that, of w] w1 by simp
  moreover have "map_of xs ch = None"
    using Cons.prems(2) x by (simp add: map_of_eq_None_iff)
  ultimately show ?case
    by (auto simp: x w1 io_bind_Inr split: option.splits)
qed

end

definition pwm_good :: "'w kernel \<times> ('w \<Rightarrow> u16 \<Rightarrow> u8 \<Rightarrow> u8) \<times> pca \<Rightarrow> bool" where
  "pwm_good c = (case c of (k, regs, p) \<Rightarrow> register_bus k regs \<and> 0 \<le> fd (pca_dev p) \<and> 0 < per p)"

lemma set_pwm_ms_eq:
  assumes "0 < per p" "0 \<le> us" "us < 2 ^ 19"
  shows "set_pwm_ms k p c us = write_pwm k p c (4096 * us div per p)"
  using assms by (simp add: set_pwm_ms_def cycle_of_def int_ok_def c_div_nonneg fault_simps)

interpretation pwm: pwm_driver pwm_good "\<lambda>_ us. 0 \<le> us \<and> us < 2 ^ 19"
  "\<lambda>(k, regs, p). set_pwm_ms k p" "\<lambda>(k, regs, p) us. (4096 * us div per p) mod 4096"
  "\<lambda>(k, regs, p) w. pwm_off_ticks (dev_regs regs (pca_dev p) w)"
proof (unfold_locales, goal_cases)
  case (1 c ch v w)
  then show ?case
    by (auto simp: pwm_good_def set_pwm_ms_eq write_pwm_def fault_simps split: prod.splits)
next
  case (2 c ch v d w)
  then show ?case
    by (auto simp: pwm_good_def set_pwm_ms_eq write_pwm_duty split: prod.splits)
qed


section \<open>Rounding and the prescaler\<close>

lemma pcaround_eq: "pcaround d = c_round d"
proof (cases "d < 0")
  case True
  then have neg: "c_trunc d = \<lceil>d\<rceil>" "c_trunc (- d) = - \<lceil>d\<rceil>"
    by (simp_all add: c_trunc_def floor_minus)
  have "c_round d = \<lceil>d - 1/2\<rceil>" using True by (simp add: c_round_def)
  then show ?thesis
    using True unfolding pcaround_def neg
    by (auto simp: ceiling_unique algebra_simps; linarith?)
next
  case False
  then have pos: "c_trunc d = \<lfloor>d\<rfloor>" by (simp add: c_trunc_def)
  have "c_round d = \<lfloor>d + 1/2\<rfloor>" using False by (simp add: c_round_def)
  then show ?thesis
    using False unfolding pcaround_def pos by (simp; linarith)
qed


lemma prescale_byte:
  assumes "24 \<le> f" "f \<le> 12207"
  shows "0 \<le> c_round (25000000 / real_of_int (4096 * f)) - 1"
    "c_round (25000000 / real_of_int (4096 * f)) - 1 < 256"
proof -
  let ?x = "25000000 / real_of_int (4096 * f)"
  have f: "24 \<le> real_of_int f" "real_of_int f \<le> 12207" using assms by simp_all
  then have "1/2 \<le> ?x" "?x < 256" by (simp_all add: field_simps)
  then have "1 \<le> \<lfloor>?x + 1/2\<rfloor>" "\<lfloor>?x + 1/2\<rfloor> < 257" by linarith+
  moreover have "0 \<le> ?x" using f by simp
  ultimately show "0 \<le> c_round ?x - 1" "c_round ?x - 1 < 256"
    by (simp_all add: c_round_def)
qed

lemma narrow_byte:
  assumes "0 \<le> x" "x < 256"
  shows "uint (narrow (word_of_int x AND 0xFF)) = x"
  using cycle_lo_value [of x] assms by (simp add: cycle_lo_def)

lemma get_frequency_range:
  "23 \<le> fst (get_frequency k d w) \<and> fst (get_frequency k d w) \<le> 6103"
proof -
  obtain v w' where r: "read_byte k d PRESCALE w = (v, w')" by fastforce
  have v: "0 \<le> uint v" "uint v \<le> 255" using uint_bounded [of v] by simp_all
  have pos: "0 < (uint v + 1) * 4096" by (simp add: add_nonneg_pos)
  have "fst (get_frequency k d w) = 25000000 div ((uint v + 1) * 4096)"
    using c_div_nonneg [OF _ pos, of 25000000] by (simp add: get_frequency_def r)
  moreover have "25000000 div (256 * 4096) \<le> 25000000 div ((uint v + 1) * 4096)"
    using v pos by (intro zdiv_mono2) simp_all
  moreover have "25000000 div ((uint v + 1) * 4096) \<le> 25000000 div (1 * 4096)"
    using v pos by (intro zdiv_mono2) simp_all
  ultimately show ?thesis by simp
qed

lemma set_frequency_run:
  assumes "register_bus k regs" "0 \<le> fd (pca_dev p)" "24 \<le> f" "f \<le> 12207"
  defines "v \<equiv> c_round (25000000 / real_of_int (4096 * f)) - 1"
  shows "fst (set_frequency k f p w) = Inr (p\<lparr>freq := f, per := 1000000 div f\<rparr>)"
    "dev_regs regs (pca_dev p) (snd (set_frequency k f p w)) =
      (dev_regs regs (pca_dev p) w)(PRESCALE := narrow (word_of_int v AND 0xFF))"
proof -
  have g: "bus_good (k, regs, pca_dev p)" using assms(1,2) by (simp add: bus_good_def)
  have ok: "int_ok (4096 * f)" "period_of f = Inr (1000000 div f)"
    using assms(3,4) by (simp_all add: int_ok_def period_of_def c_div_nonneg)
  have eq: "set_frequency k f p w = (Inr (p\<lparr>freq := f, per := 1000000 div f\<rparr>),
      call k (Usleep 5000) (write_byte k (pca_dev p) PRESCALE (narrow (word_of_int v AND 0xFF)) w))"
    using ok by (simp add: set_frequency_def pcaround_eq fault_simps Let_def v_def)
  show "fst (set_frequency k f p w) = Inr (p\<lparr>freq := f, per := 1000000 div f\<rparr>)"
    by (simp add: eq)
  show "dev_regs regs (pca_dev p) (snd (set_frequency k f p w)) =
      (dev_regs regs (pca_dev p) w)(PRESCALE := narrow (word_of_int v AND 0xFF))"
    using i2c.wr_view [OF g, of PRESCALE] register_bus_call [OF assms(1)]
    by (simp add: eq dev_regs_def fun_eq_iff)
qed

lemma pca_init_run:
  assumes "register_bus k regs"
  shows "\<exists>q w'. pca_init k p w = (Inr q, w') \<and> 0 \<le> fd (pca_dev q) \<and>
    addr (pca_dev q) = PCA9685_ADDRESS \<and> regs w' = regs w"
proof -
  obtain d w1 where d: "device_new k PCA9685_ADDRESS w = (d, w1)" by fastforce
  obtain f w2 where f: "get_frequency k d w1 = (f, w2)" by fastforce
  note o = device_new_ok [OF assms, of PCA9685_ADDRESS w, unfolded d fst_conv snd_conv]
  have "23 \<le> f" using get_frequency_range [of k d w1] f by simp
  moreover have "regs w2 = regs w1"
    using read_byte_val(2) [OF assms o(1), of PRESCALE w1] f
    by (auto simp: get_frequency_def split: prod.splits)
  ultimately show ?thesis
    using o by (simp add: pca_init_def d f period_of_def fault_simps)
qed

lemma pca_wake_up_run:
  assumes "register_bus k regs" "0 \<le> fd (pca_dev p)"
  shows "dev_regs regs (pca_dev p) (pca_wake_up k p w) = (dev_regs regs (pca_dev p) w)
    (MODE_1 := merge_bits (dev_regs regs (pca_dev p) w MODE_1) 0b00010000 0)"
proof -
  have n: "narrow 0b00010000 = 0b00010000" by (simp add: narrow_def)
  show ?thesis
    using register_bus_call [OF assms(1)] read_byte_val [OF assms]
      narrow_clear [of _ "0b00010000", unfolded n]
    by (auto simp add: pca_wake_up_def dev_regs_def write_byte_regs [OF assms] Let_def
        case_prod_unfold fun_eq_iff)
qed

section \<open>Properties\<close>

text \<open>
  C14: Setting a pulse of \<open>us\<close> microseconds on any channel but 3 of a working chip leaves the
  ON count of that channel at 0 and its OFF count at \<open>4096 * us / per\<close>, cut to twelve bits,
  and changes no register other than the four of the channel.
\<close>

theorem set_pwm_ms_correct:
  assumes "register_bus k regs" "0 \<le> fd (pca_dev p)" "0 < per p"
    and "0 \<le> c" "c < 16" "c \<noteq> 3" "0 \<le> us" "us < 2 ^ 19"
    and "set_pwm_ms k p c us w = (res, w')"
  shows "res = Inr () \<and>
    pwm_on_ticks (dev_regs regs (pca_dev p) w') c = 0 \<and>
    pwm_off_ticks (dev_regs regs (pca_dev p) w') c = (4096 * us div per p) mod 4096 \<and>
    (\<forall>r. r \<notin> {PWM_ON_L (nat c), PWM_ON_H (nat c), PWM_OFF_L (nat c), PWM_OFF_H (nat c)} \<longrightarrow>
       dev_regs regs (pca_dev p) w' r = dev_regs regs (pca_dev p) w r)"
proof -
  have w: "res = Inr ()" "w' = snd (write_pwm k p c (4096 * us div per p) w)"
    using assms(9) write_pwm_ok [OF assms(4,5)] set_pwm_ms_eq [OF assms(3,7,8)]
    by (metis fst_conv snd_conv)+
  show ?thesis
    using write_pwm_duty [OF assms(1,2,4,5,4,5)] pwm_addr_neq [OF assms(4,5,4,5)]
    unfolding w write_pwm_regs [OF assms(1,2,4,5)] pwm_regs_on [OF assms(4-6)] pwm_on_ticks_def
    by simp
qed

definition pca_example :: pca where
  "pca_example = \<lparr>pca_dev = \<lparr>fd = 3, addr = 0x40\<rparr>, freq = 50, per = 20000\<rparr>"

lemma pca_example_sel [simp]: "0 \<le> fd (pca_dev pca_example)" "per pca_example = 20000"
  "addr (pca_dev pca_example) = 0x40"
  by (simp_all add: pca_example_def)

theorem set_pwm_ms_correct_witness:
  "pwm_off_ticks (dev_regs sim_regs (pca_dev pca_example)
     (snd (set_pwm_ms sim_kernel pca_example 0 1500 sim0))) 0 = 307"
  using set_pwm_ms_correct [OF sim_bus, of pca_example 0 1500 sim0
      "fst (set_pwm_ms sim_kernel pca_example 0 1500 sim0)"
      "snd (set_pwm_ms sim_kernel pca_example 0 1500 sim0)"]
  by simp

text \<open>
  The pulse a channel then produces is never longer than asked for and short by less than
  one tick, for every channel and every request shorter than the period.
\<close>

theorem pulse_width:
  assumes "register_bus k regs" "0 \<le> fd (pca_dev p)" "0 < per p"
    and "0 \<le> c" "c < 16" "0 \<le> us" "us < per p" "us < 2 ^ 19"
    and "t = pwm_off_ticks (dev_regs regs (pca_dev p) (snd (set_pwm_ms k p c us w))) c"
  shows "real_of_int (t * per p) / 4096 \<le> real_of_int us \<and>
    real_of_int us < real_of_int ((t + 1) * per p) / 4096"
proof -
  have g: "pwm_good (k, regs, p)" using assms(1-3) by (simp add: pwm_good_def)
  have "4096 * us div per p < 4096"
    using assms(3,7) by (intro div_less_bound) simp_all
  moreover have "0 \<le> 4096 * us div per p"
    using assms(3,6) by (simp add: pos_imp_zdiv_nonneg_iff)
  ultimately have t: "t = 4096 * us div per p"
    using pwm.set_duty [OF g assms(4,5) _ assms(4,5), of us w] assms(6,8,9) by simp
  have "t * per p \<le> 4096 * us" "4096 * us < (t + 1) * per p"
    unfolding t using div_bounds [OF assms(3)] by simp_all
  then have "real_of_int (t * per p) \<le> real_of_int (4096 * us)"
    "real_of_int (4096 * us) < real_of_int ((t + 1) * per p)"
    by (simp_all only: of_int_le_iff of_int_less_iff)
  then show ?thesis by simp
qed


theorem pulse_width_witness:
  "real_of_int (307 * 20000) / 4096 \<le> 1500 \<and> (1500::real) < real_of_int (308 * 20000) / 4096"
  using pulse_width [OF sim_bus, of pca_example 3 1500 307 sim0]
    pwm.set_duty [of "(sim_kernel, sim_regs, pca_example)" 3 1500 3 sim0]
  by (simp add: pwm_good_def sim_bus)

text \<open>
  The table of the code and the constants of the header differ in two rows: channel 3, where
  the table is wrong, and channel 2, where the header has the two OFF registers exchanged.
\<close>

lemma table_and_header:
  "length pwm_header = 16 \<and> (\<forall>c < 16. pwm_regs ! c = pwm_header ! c \<longleftrightarrow> c \<noteq> 2 \<and> c \<noteq> 3) \<and>
   pwm_header ! 2 ! 2 = PWM_OFF_H 2 \<and> pwm_header ! 2 ! 3 = PWM_OFF_L 2"
proof -
  have "pwm_regs ! c = pwm_header ! c \<longleftrightarrow> c \<noteq> 2 \<and> c \<noteq> 3" if "c < 16" for c
  proof -
    from that have "0 \<le> int c" "int c < 16" by simp_all
    then show ?thesis by (cases rule: channel_cases; simp add: pwm_addr_defs pwm_header_def)
  qed
  then show ?thesis by (simp add: pwm_header_def PWM_OFF_L_def PWM_OFF_H_def)
qed

text \<open>
  Channel 3 is the exception. Its row of the register table names the subaddress registers
  2 and 3 in place of the channel's ON registers: setting a pulse on it zeroes those two
  registers and leaves the ON count of the channel as it was.
\<close>

theorem channel_3_on_registers:
  assumes "register_bus k regs" "0 \<le> fd (pca_dev p)" "0 < per p" "0 \<le> us" "us < 2 ^ 19"
  shows "(\<forall>c < 16. pwm_regs ! c = [PWM_ON_L c, PWM_ON_H c, PWM_OFF_L c, PWM_OFF_H c] \<longleftrightarrow> c \<noteq> 3) \<and>
    dev_regs regs (pca_dev p) (snd (set_pwm_ms k p 3 us w)) 0x02 = 0 \<and>
    dev_regs regs (pca_dev p) (snd (set_pwm_ms k p 3 us w)) 0x03 = 0 \<and>
    pwm_on_ticks (dev_regs regs (pca_dev p) (snd (set_pwm_ms k p 3 us w))) 3 =
      pwm_on_ticks (dev_regs regs (pca_dev p) w) 3"
proof -
  have "pwm_regs ! c = [PWM_ON_L c, PWM_ON_H c, PWM_OFF_L c, PWM_OFF_H c] \<longleftrightarrow> c \<noteq> 3"
    if "c < 16" for c
  proof -
    from that have "0 \<le> int c" "int c < 16" by simp_all
    then show ?thesis by (cases rule: channel_cases; simp add: pwm_addr_defs)
  qed
  moreover have "set_pwm_ms k p 3 us w = write_pwm k p 3 (4096 * us div per p) w"
    by (simp only: set_pwm_ms_eq [OF assms(3-5)])
  moreover have "pwm_regs ! 3 ! 0 = 0x02" "pwm_regs ! 3 ! 1 = 0x03" "PWM_ON_L 3 = 0x12"
    "PWM_ON_H 3 = 0x13" "PWM_OFF_L 3 = 0x14" "PWM_OFF_H 3 = 0x15"
    by (simp_all add: pwm_addr_defs)
  ultimately show ?thesis
    using write_pwm_regs [OF assms(1,2), of 3]
    by (simp add: pwm_on_ticks_def)
qed

theorem channel_3_on_registers_witness:
  "pwm_on_ticks (dev_regs sim_regs (pca_dev pca_example)
     (snd (set_pwm_ms sim_kernel pca_example 3 1500
       (sim0\<lparr>sim_regs := (\<lambda>_. (\<lambda>_. 0)(0x12 := 7))\<rparr>)))) 3 = 7"
  using channel_3_on_registers [OF sim_bus, of pca_example 1500
      "sim0\<lparr>sim_regs := (\<lambda>_. (\<lambda>_. 0)(0x12 := 7))\<rparr>"]
  by (simp add: pwm_on_ticks_def dev_regs_def PWM_ON_L_def PWM_ON_H_def)

text \<open>
  A request that cannot be carried out touches nothing: where the product overflows, the
  period is zero or the channel is outside the table, the result is the fault and the world is
  the one before the call.
\<close>

theorem set_pwm_ms_fault:
  "(case set_pwm_ms k p c us w of (res, w') \<Rightarrow>
     (res = Inr () \<longleftrightarrow> int_ok (4096 * us) \<and> per p \<noteq> 0 \<and> 0 \<le> c \<and> c < 16) \<and>
     (res \<noteq> Inr () \<longrightarrow> w' = w \<and> res \<in> {Inl Undefined_behaviour, Inl Div_by_zero}))"
  by (simp add: set_pwm_ms_def cycle_of_def write_pwm_def fault_simps io_lift_def io_bind_def)

theorem set_pwm_ms_fault_witness:
  "set_pwm_ms sim_kernel pca_example 16 1000 sim0 = (Inl Undefined_behaviour, sim0)"
  using set_pwm_ms_fault [where k = sim_kernel and p = pca_example and c = 16 and us = 1000 and w = sim0]
  by (simp add: set_pwm_ms_def cycle_of_def int_ok_def c_div_def write_pwm_def fault_simps)

text \<open>
  Initialisation never traps, whatever the chip or a failing bus answers for the prescaler:
  the frequency it computes lies between 23 and 6103 Hz, so the period is a positive number of
  microseconds.
\<close>

theorem pca_init_no_trap:
  "\<exists>q w'. pca_init k p w = (Inr q, w') \<and> 23 \<le> freq q \<and> freq q \<le> 6103 \<and>
     per q = 1000000 div freq q \<and> 163 \<le> per q \<and> per q \<le> 43478"
proof -
  obtain d w1 where d: "device_new k PCA9685_ADDRESS w = (d, w1)" by fastforce
  obtain f w2 where f: "get_frequency k d w1 = (f, w2)" by fastforce
  have r: "23 \<le> f" "f \<le> 6103" using get_frequency_range [of k d w1] f by simp_all
  have "1000000 div 6103 \<le> 1000000 div f" "1000000 div f \<le> 1000000 div 23"
    using r by (intro zdiv_mono2; simp)+
  then show ?thesis
    using r by (simp add: pca_init_def d f period_of_def c_div_nonneg fault_simps)
qed

text \<open>
  From 24 to 12207 Hz the prescaler byte written is the rounded quotient of the datasheet
  formula less one, nothing is cut off by the mask, and the divisor it stands for is within one
  half of the exact one; every other register keeps its value.
\<close>

theorem set_frequency_correct:
  assumes "register_bus k regs" "0 \<le> fd (pca_dev p)" "24 \<le> f" "f \<le> 12207"
    and "set_frequency k f p w = (res, w')"
  shows "res = Inr (p\<lparr>freq := f, per := 1000000 div f\<rparr>) \<and>
    uint (dev_regs regs (pca_dev p) w' PRESCALE) = c_round (25000000 / real_of_int (4096 * f)) - 1 \<and>
    \<bar>real_of_int (uint (dev_regs regs (pca_dev p) w' PRESCALE) + 1) -
       25000000 / real_of_int (4096 * f)\<bar> \<le> 1/2 \<and>
    (\<forall>r. r \<noteq> PRESCALE \<longrightarrow> dev_regs regs (pca_dev p) w' r = dev_regs regs (pca_dev p) w r)"
proof -
  note r = set_frequency_run [OF assms(1-4), of w, unfolded assms(5)]
  have "uint (dev_regs regs (pca_dev p) w' PRESCALE) = c_round (25000000 / real_of_int (4096 * f)) - 1"
    using r(2) narrow_byte [OF prescale_byte [OF assms(3,4)]] by simp
  then show ?thesis
    using c_round_error [of "25000000 / real_of_int (4096 * f)"] r by simp
qed

theorem set_frequency_correct_witness:
  "uint (dev_regs sim_regs (pca_dev pca_example)
     (snd (set_frequency sim_kernel 50 pca_example sim0)) PRESCALE) = 121"
  using set_frequency_correct [OF sim_bus, of pca_example 50 sim0
      "fst (set_frequency sim_kernel 50 pca_example sim0)"
      "snd (set_frequency sim_kernel 50 pca_example sim0)"]
  by (simp add: c_round_def)

text \<open>
  A full duty cycle asked for as a fraction wraps: \<open>set_pwm_percent\<close> of 1 writes the same
  registers as \<open>set_pwm_percent\<close> of 0, so the channel goes off.
\<close>

theorem set_pwm_percent_full_wraps:
  "set_pwm_percent k p c 1 w = set_pwm_percent k p c 0 w"
proof -
  have "cycle_lo 4096 = cycle_lo 0" "cycle_hi 4096 = cycle_hi 0"
    by (simp_all add: word_uint_eq_iff cycle_lo_value cycle_hi_value)
  then show ?thesis
    by (simp add: set_pwm_percent_def int_of_double_def int_ok_def write_pwm_def fault_simps)
qed

end
