(* ===== verification/StdNum.thy ===== *)
theory StdNum
  imports Prelude
begin

text \<open>
  The conversions between numbers and text of the C++ standard library that the sources apply
  to MQTT payloads and NMEA fields: \<^verbatim>\<open>std::stoi\<close>, \<^verbatim>\<open>std::stod\<close> and
  \<^verbatim>\<open>std::to_string(double)\<close>. Both parsers skip white space, read the longest numeric prefix
  and ignore the rest of the text; without a digit they throw. Hexadecimal, infinite and NaN
  texts are not modelled.
\<close>

section \<open>Decimal digits\<close>

definition is_digit :: "char \<Rightarrow> bool" where
  "is_digit c \<longleftrightarrow> 48 \<le> (of_char c :: nat) \<and> (of_char c :: nat) \<le> 57"

definition is_space :: "char \<Rightarrow> bool" where
  "is_space c \<longleftrightarrow> of_char c = (32 :: nat) \<or> 9 \<le> (of_char c :: nat) \<and> (of_char c :: nat) \<le> 13"

definition lower :: "char \<Rightarrow> char" where
  "lower c = (if 65 \<le> (of_char c :: nat) \<and> (of_char c :: nat) \<le> 90
     then char_of ((of_char c :: nat) + 32) else c)"

definition digit_char :: "nat \<Rightarrow> char" where
  "digit_char n = char_of (48 + n mod 10)"

definition dec_val :: "string \<Rightarrow> nat" where
  "dec_val ds = foldl (\<lambda>a c. 10 * a + (of_char c - 48)) 0 ds"

section \<open>Parsing\<close>

definition take_sign :: "string \<Rightarrow> bool \<times> string" where
  "take_sign s = (case s of [] \<Rightarrow> (False, [])
     | c # r \<Rightarrow> if c = CHR ''-'' then (True, r) else if c = CHR ''+'' then (False, r) else (False, s))"

definition stoi :: "string \<Rightarrow> fault + int" where
  "stoi s =
     (let (neg, body) = take_sign (dropWhile is_space s);
          ds = takeWhile is_digit body;
          v = (if neg then - int (dec_val ds) else int (dec_val ds))
      in if ds = [] then Inl Invalid_argument
         else if int_ok v then Inr v else Inl Out_of_range)"

definition special_number :: "string \<Rightarrow> bool" where
  "special_number body \<longleftrightarrow> map lower (take 3 body) = ''inf'' \<or> map lower (take 3 body) = ''nan'' \<or>
     map lower (take 2 body) = ''0x''"

definition frac_part :: "string \<Rightarrow> string \<times> string" where
  "frac_part s = (case s of [] \<Rightarrow> ([], [])
     | c # r \<Rightarrow> if c = CHR ''.'' then (takeWhile is_digit r, dropWhile is_digit r) else ([], s))"

definition exp_part :: "string \<Rightarrow> int" where
  "exp_part s = (case s of [] \<Rightarrow> 0
     | c # r \<Rightarrow> if lower c = CHR ''e''
         then (let (neg, r') = take_sign r; ds = takeWhile is_digit r'
               in if neg then - int (dec_val ds) else int (dec_val ds))
         else 0)"

definition ten_pow :: "int \<Rightarrow> real" where
  "ten_pow e = (if 0 \<le> e then 10 ^ nat e else 1 / 10 ^ nat (- e))"

definition double_range :: "real \<Rightarrow> bool" where
  "double_range v \<longleftrightarrow> v = 0 \<or> 1 / 2 ^ 1022 \<le> \<bar>v\<bar> \<and> \<bar>v\<bar> < 2 ^ 1024 - 2 ^ 970"

definition lex_number :: "string \<Rightarrow> string \<times> string \<times> int" where
  "lex_number body =
     (let (f, rest) = frac_part (dropWhile is_digit body)
      in (takeWhile is_digit body, f, exp_part rest))"

definition stod :: "string \<Rightarrow> fault + real" where
  "stod s =
     (let (neg, body) = take_sign (dropWhile is_space s);
          (i, f, e) = lex_number body;
          v = real (dec_val (i @ f)) * ten_pow (e - int (length f));
          v = (if neg then - v else v)
      in if special_number body then Inl Not_modelled
         else if i = [] \<and> f = [] then Inl Invalid_argument
         else if double_range v then Inr v else Inl Out_of_range)"

section \<open>Printing\<close>

fun show_nat :: "nat \<Rightarrow> string" where
  "show_nat n = (if n < 10 then [] else show_nat (n div 10)) @ [digit_char n]"

declare show_nat.simps [simp del]

primrec show_fixed :: "nat \<Rightarrow> nat \<Rightarrow> string" where
  "show_fixed 0 n = []"
| "show_fixed (Suc k) n = show_fixed k (n div 10) @ [digit_char n]"

definition round_half_even :: "real \<Rightarrow> int" where
  "round_half_even y =
     (let l = \<lfloor>y\<rfloor>; d = y - real_of_int l
      in if d < 1/2 \<or> d = 1/2 \<and> even l then l else l + 1)"

definition to_string :: "real \<Rightarrow> string" where
  "to_string x =
     (let m = nat (round_half_even (\<bar>x\<bar> * 10 ^ 6))
      in (if x < 0 then ''-'' else []) @ show_nat (m div 10 ^ 6) @ ''.'' @ show_fixed 6 m)"

text \<open>\<^verbatim>\<open>printf\<close>'s \<^verbatim>\<open>%w.pf\<close> and \<^verbatim>\<open>%d\<close>.\<close>

definition pad_left :: "nat \<Rightarrow> string \<Rightarrow> string" where
  "pad_left w s = replicate (w - length s) CHR '' '' @ s"

definition fmt_f :: "nat \<Rightarrow> nat \<Rightarrow> real \<Rightarrow> string" where
  "fmt_f w p x =
     (let m = nat (round_half_even (\<bar>x\<bar> * 10 ^ p))
      in pad_left w ((if x < 0 then ''-'' else []) @ show_nat (m div 10 ^ p) @
           (if p = 0 then [] else ''.'' @ show_fixed p m)))"

definition fmt_d :: "int \<Rightarrow> string" where
  "fmt_d i = (if i < 0 then ''-'' else []) @ show_nat (nat \<bar>i\<bar>)"

section \<open>Digits\<close>

lemma of_char_digit_char [simp]: "of_char (digit_char n) = 48 + n mod 10"
proof -
  have "48 + n mod 10 < 256" using mod_less_divisor [of 10 n] by linarith
  then show ?thesis by (simp add: digit_char_def)
qed

lemma is_digit_digit_char [simp]: "is_digit (digit_char n)"
  using mod_less_divisor [of 10 n] by (auto simp: is_digit_def simp del: mod_less_divisor)

lemma dec_val_snoc [simp]: "dec_val (ds @ [c]) = 10 * dec_val ds + (of_char c - 48)"
  by (simp add: dec_val_def)

lemma dec_val_Nil [simp]: "dec_val [] = 0"
  by (simp add: dec_val_def)

lemma dec_val_show_nat [simp]: "dec_val (show_nat n) = n"
  by (induction n rule: show_nat.induct) (subst show_nat.simps, simp)

lemma show_nat_digits: "c \<in> set (show_nat n) \<Longrightarrow> is_digit c"
  by (induction n rule: show_nat.induct) (subst (asm) show_nat.simps, auto split: if_splits)

lemma show_nat_nonempty [simp]: "show_nat n \<noteq> []"
  by (subst show_nat.simps) simp

lemma length_show_fixed [simp]: "length (show_fixed k n) = k"
  by (induction k arbitrary: n) simp_all

lemma show_fixed_digits: "c \<in> set (show_fixed k n) \<Longrightarrow> is_digit c"
  by (induction k arbitrary: n) auto

lemma dec_val_append_fixed:
  "dec_val (ds @ show_fixed k n) = dec_val ds * 10 ^ k + n mod 10 ^ k"
proof (induction k arbitrary: n)
  case (Suc k)
  have "n mod 10 ^ Suc k = 10 * (n div 10 mod 10 ^ k) + n mod 10"
    by (simp add: mod_mult2_eq)
  then show ?case
    using Suc.IH [of "n div 10"] by (simp flip: append_assoc add: algebra_simps)
qed simp


section \<open>Parsing stops at a delimiter\<close>

text \<open>The two delimiters the programs use: neither can continue a number.\<close>

definition num_stop :: "char \<Rightarrow> bool" where
  "num_stop d \<longleftrightarrow> d = CHR '' '' \<or> d = CHR '',''"

lemma num_stop_simps:
  assumes "num_stop d"
  shows "\<not> is_digit d" "lower d = d" "d \<noteq> CHR ''.''" "d \<noteq> CHR ''e''" "d \<noteq> CHR ''-''" "d \<noteq> CHR ''+''"
    "d \<noteq> CHR ''i''" "d \<noteq> CHR ''n''" "d \<noteq> CHR ''f''" "d \<noteq> CHR ''a''" "d \<noteq> CHR ''0''" "d \<noteq> CHR ''x''"
  using assms by (auto simp: num_stop_def is_digit_def lower_def)

lemma takeWhile_digit_stop [simp]:
  "num_stop d \<Longrightarrow> takeWhile is_digit (g @ d # r) = takeWhile is_digit g"
  by (induction g) (simp_all add: num_stop_simps)

lemma dropWhile_digit_stop:
  "num_stop d \<Longrightarrow> dropWhile is_digit (g @ d # r) = dropWhile is_digit g @ d # r"
  by (induction g) (simp_all add: num_stop_simps)

lemma exp_part_stop: "num_stop d \<Longrightarrow> exp_part (g @ d # r) = exp_part g"
  by (cases g; cases "tl g") (auto simp: exp_part_def take_sign_def num_stop_simps Let_def)

lemma frac_part_stop:
  "num_stop d \<Longrightarrow> frac_part (g @ d # r) = (fst (frac_part g), snd (frac_part g) @ d # r)"
  by (cases g) (simp_all add: frac_part_def num_stop_simps dropWhile_digit_stop)

lemma lex_number_stop: "num_stop d \<Longrightarrow> lex_number (g @ d # r) = lex_number g"
  by (simp add: lex_number_def dropWhile_digit_stop frac_part_stop exp_part_stop split: prod.split)

lemma special_number_stop: "num_stop d \<Longrightarrow> special_number (g @ d # r) = special_number g"
  by (cases g; cases "tl g"; cases "tl (tl g)")
    (auto simp: special_number_def num_stop_simps numeral_eq_Suc)

lemma dropWhile_space_stop:
  "dropWhile is_space g \<noteq> [] \<Longrightarrow> dropWhile is_space (g @ d # r) = dropWhile is_space g @ d # r"
  by (induction g) (auto split: if_splits)

lemma take_sign_stop:
  "g \<noteq> [] \<Longrightarrow> take_sign (g @ d # r) = (fst (take_sign g), snd (take_sign g) @ d # r)"
  by (cases g) (simp_all add: take_sign_def)

lemma stod_stop:
  assumes "num_stop d" "dropWhile is_space g \<noteq> []"
  shows "stod (g @ d # r) = stod g"
  using assms
  by (simp add: stod_def dropWhile_space_stop take_sign_stop lex_number_stop special_number_stop
      split: prod.split)

lemma stoi_stop:
  assumes "num_stop d" "dropWhile is_space g \<noteq> []"
  shows "stoi (g @ d # r) = stoi g"
  using assms
  by (simp add: stoi_def dropWhile_space_stop take_sign_stop Let_def split: prod.split)

section \<open>Reading back a printed number\<close>

text \<open>What is left of a number after printing: the nearest multiple of a millionth.\<close>

definition micro :: "real \<Rightarrow> real" where
  "micro x = (if x < 0 then -1 else 1) * real_of_int (round_half_even (\<bar>x\<bar> * 10 ^ 6)) / 10 ^ 6"

lemma round_half_even_error: "\<bar>real_of_int (round_half_even y) - y\<bar> \<le> 1/2"
  unfolding round_half_even_def Let_def using floor_correct [of y] by (auto split: if_splits)

lemma round_half_even_nonneg: "0 \<le> y \<Longrightarrow> 0 \<le> round_half_even y"
  unfolding round_half_even_def Let_def by auto

lemma micro_error: "\<bar>micro x - x\<bar> \<le> 1 / 2000000"
proof -
  define m where "m = real_of_int (round_half_even (\<bar>x\<bar> * 10 ^ 6))"
  have m: "\<bar>m - \<bar>x\<bar> * 1000000\<bar> \<le> 1/2"
    using round_half_even_error [of "\<bar>x\<bar> * 10 ^ 6"] by (simp add: m_def)
  have "micro x = (if x < 0 then -1 else 1) * m / 1000000"
    by (simp add: micro_def m_def)
  then have e: "micro x - x = (if x < 0 then -1 else 1) * (m - \<bar>x\<bar> * 1000000) / 1000000"
    by (simp add: field_simps)
  have "\<bar>micro x - x\<bar> = \<bar>m - \<bar>x\<bar> * 1000000\<bar> / 1000000"
    unfolding e by (cases "x < 0") (simp_all add: abs_mult abs_minus_commute)
  with m show ?thesis by simp
qed

lemma takeWhile_show_nat: "\<not> is_digit c \<Longrightarrow> takeWhile is_digit (show_nat n @ c # r) = show_nat n"
  by (subst takeWhile_append2) (auto simp: show_nat_digits)

lemma dropWhile_show_nat: "\<not> is_digit c \<Longrightarrow> dropWhile is_digit (show_nat n @ c # r) = c # r"
  by (subst dropWhile_append2) (auto simp: show_nat_digits)

definition num_end :: "string \<Rightarrow> bool" where
  "num_end r \<longleftrightarrow> (case r of [] \<Rightarrow> True | c # _ \<Rightarrow> \<not> is_digit c \<and> lower c \<noteq> CHR ''e'')"

lemma lex_show:
  assumes "num_end r"
  shows "lex_number (show_nat n @ ''.'' @ show_fixed k m @ r) = (show_nat n, show_fixed k m, 0)"
proof -
  have dot: "\<not> is_digit CHR ''.''" by (simp add: is_digit_def)
  have "takeWhile is_digit (show_fixed k m @ r) = show_fixed k m"
    "dropWhile is_digit (show_fixed k m @ r) = r"
    using assms by (cases r; simp add: takeWhile_append2 dropWhile_append2 show_fixed_digits num_end_def)+
  then show ?thesis
    using assms takeWhile_show_nat [OF dot] dropWhile_show_nat [OF dot]
    by (auto simp: lex_number_def frac_part_def exp_part_def num_end_def split: list.split)
qed

lemma show_nat_hd: "\<exists>c cs. show_nat n = c # cs \<and> is_digit c"
  using show_nat_nonempty [of n] show_nat_digits [of _ n]
  by (metis list.exhaust list.set_intros(1))

lemma digit_simps:
  assumes "is_digit c"
  shows "\<not> is_space c" "c \<noteq> CHR ''-''" "c \<noteq> CHR ''+''" "lower c = c" "c \<noteq> CHR ''i''" "c \<noteq> CHR ''n''"
    "c \<noteq> CHR ''x''"
  using assms by (auto simp: is_digit_def is_space_def lower_def)

lemma not_special_show: "\<not> special_number (show_nat n @ ''.'' @ r)"
proof -
  obtain c cs where c: "show_nat n = c # cs" "is_digit c" using show_nat_hd by blast
  have l: "lower CHR ''.'' = CHR ''.''" by (simp add: lower_def)
  show ?thesis
  proof (cases cs)
    case Nil
    then show ?thesis
      using digit_simps [OF c(2)] by (simp add: special_number_def c(1) l numeral_eq_Suc)
  next
    case (Cons c' cs')
    then have "is_digit c'" using show_nat_digits [of c' n] c(1) by simp
    then show ?thesis
      using digit_simps [OF c(2)] digit_simps [of c'] Cons
      by (simp add: special_number_def c(1) numeral_eq_Suc)
  qed
qed

lemma abs_bound_trans:
  fixes m x c d :: real
  shows "\<bar>m\<bar> \<le> \<bar>x\<bar> + 1 \<Longrightarrow> c + 1 < d \<Longrightarrow> \<bar>x\<bar> \<le> c \<Longrightarrow> \<bar>m\<bar> < d"
  by linarith

lemma double_range_micro:
  assumes "\<bar>x\<bar> \<le> 10 ^ 300"
  shows "double_range (micro x)"
proof -
  define m where "m = round_half_even (\<bar>x\<bar> * 10 ^ 6)"
  have m: "0 \<le> m" unfolding m_def by (rule round_half_even_nonneg) simp
  have micro: "micro x = (if x < 0 then -1 else 1) * real_of_int m / 10 ^ 6"
    unfolding micro_def m_def ..
  have abs: "\<bar>micro x\<bar> = real_of_int m / 10 ^ 6"
    unfolding micro using m by (cases "x < 0") simp_all
  have upper: "\<bar>micro x\<bar> < 2 ^ 1024 - 2 ^ 970"
  proof -
    have "\<bar>micro x\<bar> \<le> \<bar>x\<bar> + 1" using micro_error [of x] by linarith
    moreover have "(10 ^ 300 + 1 :: real) < 2 ^ 1024 - 2 ^ 970" by simp
    ultimately show ?thesis using assms by (rule abs_bound_trans)
  qed
  have lower: "1 / 2 ^ 1022 \<le> \<bar>micro x\<bar>" if "micro x \<noteq> 0"
  proof -
    have "m \<noteq> 0" using that micro by auto
    then have "(1 :: real) / 10 ^ 6 \<le> \<bar>micro x\<bar>" using m by (simp add: abs)
    moreover have "1 / 2 ^ 1022 \<le> (1 / 10 ^ 6 :: real)" by simp
    ultimately show ?thesis by (rule order_trans [rotated])
  qed
  show ?thesis
    unfolding double_range_def using upper lower by blast
qed

lemma stod_to_string:
  assumes "num_end r" "\<bar>x\<bar> \<le> 10 ^ 300"
  shows "stod (to_string x @ r) = Inr (micro x)"
proof -
  define m where "m = nat (round_half_even (\<bar>x\<bar> * 10 ^ 6))"
  define body where "body = show_nat (m div 10 ^ 6) @ ''.'' @ show_fixed 6 m @ r"
  have str: "to_string x @ r = (if x < 0 then ''-'' else []) @ body"
    by (simp add: to_string_def m_def body_def Let_def)
  obtain c cs where c: "body = c # cs" "is_digit c"
    using show_nat_hd [of "m div 10 ^ 6"] by (auto simp: body_def)
  have "\<not> is_space CHR ''-''" by (simp add: is_space_def)
  then have sign: "take_sign (dropWhile is_space (to_string x @ r)) = (x < 0, body)"
    using digit_simps [OF c(2)] by (simp add: str c(1) take_sign_def)
  have lex: "lex_number body = (show_nat (m div 10 ^ 6), show_fixed 6 m, 0)"
    unfolding body_def by (rule lex_show [OF assms(1)])
  have "dec_val (show_nat (m div 10 ^ 6) @ show_fixed 6 m) = m"
    by (simp only: dec_val_append_fixed dec_val_show_nat div_mult_mod_eq)
  moreover have "real m = real_of_int (round_half_even (\<bar>x\<bar> * 10 ^ 6))"
    using round_half_even_nonneg [of "\<bar>x\<bar> * 10 ^ 6"] by (simp add: m_def)
  ultimately have "real (dec_val (show_nat (m div 10 ^ 6) @ show_fixed 6 m)) =
      real_of_int (round_half_even (\<bar>x\<bar> * 10 ^ 6))" by simp
  moreover have "ten_pow (0 - int (length (show_fixed 6 m))) = 1 / 10 ^ 6"
    by (simp add: ten_pow_def)
  ultimately have val: "(if x < 0 then - (real (dec_val (show_nat (m div 10 ^ 6) @ show_fixed 6 m)) *
        ten_pow (0 - int (length (show_fixed 6 m))))
      else real (dec_val (show_nat (m div 10 ^ 6) @ show_fixed 6 m)) *
        ten_pow (0 - int (length (show_fixed 6 m)))) = micro x"
    by (simp add: micro_def)
  have "\<not> special_number body"
    using not_special_show [of "m div 10 ^ 6" "show_fixed 6 m @ r"] by (simp add: body_def)
  then show ?thesis
    using double_range_micro [OF assms(2)] show_nat_nonempty
    by (simp only: stod_def sign lex prod.case Let_def val if_True if_False simp_thms)
qed

lemma stod_fault: "stod s = Inl e \<Longrightarrow> e = Invalid_argument \<or> e = Out_of_range \<or> e = Not_modelled"
  by (auto simp: stod_def Let_def split: prod.splits if_splits)

end
