(* ===== verification/StrUtils.thy ===== *)
theory StrUtils
  imports StdNum
begin

text \<open>
  \<^verbatim>\<open>src/util/str_utils.cpp\<close>: the tokenizer, on a model of the \<^verbatim>\<open>std::string\<close> operations it
  uses, and the reading of numbers token by token that the message handlers are made of.
\<close>

section \<open>The string operations used\<close>

definition npos :: nat where
  "npos = 2 ^ 64 - 1"

definition str_find :: "string \<Rightarrow> char \<Rightarrow> nat \<Rightarrow> nat" where
  "str_find s c pos =
     (let i = pos + length (takeWhile (\<lambda>x. x \<noteq> c) (drop pos s))
      in if i < length s then i else npos)"

definition str_substr :: "string \<Rightarrow> nat \<Rightarrow> nat \<Rightarrow> fault + string" where
  "str_substr s pos n = (if length s < pos then Inl Out_of_range else Inr (take n (drop pos s)))"

definition str_first :: "string \<Rightarrow> char" where
  "str_first s = (case s of [] \<Rightarrow> CHR 0x00 | c # _ \<Rightarrow> c)"

section \<open>The tokenizer\<close>

record tokenizer =
  tk_delim :: char
  tk_curr :: nat
  tk_s :: string

definition tokenizer_default :: "string \<Rightarrow> tokenizer" where
  "tokenizer_default s = \<lparr>tk_delim = CHR '' '', tk_curr = 0, tk_s = s\<rparr>"

definition tokenizer_new :: "string \<Rightarrow> char \<Rightarrow> tokenizer" where
  "tokenizer_new s delim = \<lparr>tk_delim = delim, tk_curr = 0, tk_s = s\<rparr>"

definition next_token :: "tokenizer \<Rightarrow> fault + string \<times> tokenizer" where
  "next_token t =
     (let next = str_find (tk_s t) (tk_delim t) (tk_curr t)
      in case str_substr (tk_s t) (tk_curr t) next of
           Inl e \<Rightarrow> Inl e
         | Inr output \<Rightarrow> Inr (output, t\<lparr>tk_curr := (next + 1) mod 2 ^ 64\<rparr>))"

section \<open>What the tokens are\<close>

text \<open>
  A string as the fields between its delimiters, the text the tokenizer has still ahead, and
  the invariant of its position.
\<close>

fun split_fields :: "char \<Rightarrow> string \<Rightarrow> string list" where
  "split_fields d [] = [[]]"
| "split_fields d (c # s) =
     (if c = d then [] # split_fields d s
      else (case split_fields d s of [] \<Rightarrow> [[c]] | f # fs \<Rightarrow> (c # f) # fs))"

lemma fields_unfold:
  "split_fields d s = takeWhile (\<lambda>x. x \<noteq> d) s #
     (case dropWhile (\<lambda>x. x \<noteq> d) s of [] \<Rightarrow> [] | _ # r \<Rightarrow> split_fields d r)"
  by (induction s) (auto split: list.splits)

lemma fields_nonempty [simp]: "split_fields d s \<noteq> []"
  using fields_unfold [of d s] by simp

definition tk_rest :: "tokenizer \<Rightarrow> string" where
  "tk_rest t = drop (tk_curr t) (tk_s t)"

definition tk_ok :: "tokenizer \<Rightarrow> bool" where
  "tk_ok t \<longleftrightarrow> tk_curr t \<le> length (tk_s t) \<and> length (tk_s t) < npos"

definition leading :: "char \<Rightarrow> string \<Rightarrow> string" where
  "leading d s = takeWhile (\<lambda>x. x \<noteq> d) s"

lemma tk_ok_new [simp]: "length s < npos \<Longrightarrow> tk_ok (tokenizer_new s d)"
  by (simp add: tk_ok_def tokenizer_new_def)

lemma tk_new_sel [simp]: "tk_rest (tokenizer_new s d) = s" "tk_delim (tokenizer_new s d) = d"
  "tk_s (tokenizer_new s d) = s"
  by (simp_all add: tk_rest_def tokenizer_new_def)

lemma leading_append_take:
  assumes "length (leading d r) \<le> n"
  shows "leading d (take n r) = leading d r"
proof -
  have "takeWhile (\<lambda>x. x \<noteq> d) (take n r) = take n (takeWhile (\<lambda>x. x \<noteq> d) r)"
    by (induction r arbitrary: n) (auto simp: take_Cons split: nat.split)
  then show ?thesis using assms by (simp add: leading_def)
qed

lemma next_token_step:
  assumes "tk_ok t"
  obtains out t' where "next_token t = Inr (out, t')" "tk_ok t'" "tk_s t' = tk_s t"
    "tk_delim t' = tk_delim t" "leading (tk_delim t) out = leading (tk_delim t) (tk_rest t)"
    "tk_rest t' = (case dropWhile (\<lambda>x. x \<noteq> tk_delim t) (tk_rest t) of [] \<Rightarrow> tk_s t | _ # r \<Rightarrow> r)"
    "out = take (if tk_delim t \<in> set (tk_rest t) then tk_curr t + length (leading (tk_delim t) (tk_rest t))
                 else npos) (tk_rest t)"
proof -
  define d where "d = tk_delim t"
  define r where "r = tk_rest t"
  define k where "k = length (leading d r)"
  have r: "r = drop (tk_curr t) (tk_s t)" by (simp add: r_def tk_rest_def)
  have len: "length r = length (tk_s t) - tk_curr t" by (simp add: r)
  have "k \<le> length r" unfolding k_def leading_def by (rule length_takeWhile_le)
  then have found: "tk_curr t + k < length (tk_s t) \<longleftrightarrow> k < length r"
    using assms len by (auto simp: tk_ok_def)
  have mem: "d \<in> set r \<longleftrightarrow> k < length r"
    unfolding k_def leading_def by (induction r) auto
  have next_token: "next_token t = Inr (take (if d \<in> set r then tk_curr t + k else npos) r,
      t\<lparr>tk_curr := ((if d \<in> set r then tk_curr t + k else npos) + 1) mod 2 ^ 64\<rparr>)"
    using assms found mem
    by (simp add: next_token_def str_find_def str_substr_def tk_ok_def Let_def d_def k_def r
        leading_def)
  show thesis
  proof (cases "d \<in> set r")
    case True
    then have k: "k < length r" using mem by simp
    then have lt: "tk_curr t + k + 1 \<le> length (tk_s t)" "tk_curr t + k + 1 < 2 ^ 64"
      using found assms by (auto simp: tk_ok_def npos_def)
    have dw: "dropWhile (\<lambda>x. x \<noteq> d) r = drop k r"
      unfolding k_def leading_def by (rule dropWhile_eq_drop)
    have "dropWhile (\<lambda>x. x \<noteq> d) r = r ! k # drop (k + 1) r"
      using k by (simp add: dw Cons_nth_drop_Suc)
    then show thesis
      using that [OF next_token] True lt assms leading_append_take [of d r "tk_curr t + k"]
      by (simp add: d_def [symmetric] r_def [symmetric] k_def [symmetric] tk_ok_def)
        (simp add: tk_rest_def r add.commute add.left_commute)
  next
    case False
    then have dw: "dropWhile (\<lambda>x. x \<noteq> d) r = []" by (auto simp: dropWhile_eq_Nil_conv)
    have "length r \<le> npos" using len assms unfolding tk_ok_def by linarith
    then show thesis
      using that [OF next_token] False assms
      by (simp add: d_def [symmetric] r_def [symmetric] k_def [symmetric] tk_ok_def dw)
        (simp add: tk_rest_def npos_def)
  qed
qed


lemma fields_of_rest:
  assumes "tk_ok t" "next_token t = Inr (out, t')"
  shows "leading (tk_delim t) out = hd (split_fields (tk_delim t) (tk_rest t))"
    "tl (split_fields (tk_delim t) (tk_rest t)) \<noteq> [] \<Longrightarrow>
       split_fields (tk_delim t) (tk_rest t') = tl (split_fields (tk_delim t) (tk_rest t))"
    "tl (split_fields (tk_delim t) (tk_rest t)) = [] \<Longrightarrow> tk_rest t' = tk_s t"
    "tk_ok t'" "tk_s t' = tk_s t" "tk_delim t' = tk_delim t"
proof -
  let ?d = "tk_delim t" and ?r = "tk_rest t"
  obtain out1 t1 where n: "next_token t = Inr (out1, t1)" and 1: "tk_ok t1" "tk_s t1 = tk_s t"
    "tk_delim t1 = ?d" "leading ?d out1 = leading ?d ?r"
    "tk_rest t1 = (case dropWhile (\<lambda>x. x \<noteq> ?d) ?r of [] \<Rightarrow> tk_s t | _ # r \<Rightarrow> r)"
    using next_token_step [OF assms(1)] by metis
  have eq: "out1 = out" "t1 = t'" using n assms(2) by simp_all
  have hd: "hd (split_fields ?d ?r) = leading ?d ?r"
    and tl: "tl (split_fields ?d ?r) = (case dropWhile (\<lambda>x. x \<noteq> ?d) ?r of [] \<Rightarrow> [] | _ # r \<Rightarrow> split_fields ?d r)"
    by (simp_all add: fields_unfold [of ?d ?r] leading_def)
  show "leading ?d out = hd (split_fields ?d ?r)" "tk_ok t'" "tk_s t' = tk_s t" "tk_delim t' = ?d"
    using 1 eq hd by simp_all
  show "split_fields ?d (tk_rest t') = tl (split_fields ?d ?r)" if "tl (split_fields ?d ?r) \<noteq> []"
    using that 1(5) eq unfolding tl by (cases "dropWhile (\<lambda>x. x \<noteq> ?d) ?r") simp_all
  show "tk_rest t' = tk_s t" if "tl (split_fields ?d ?r) = []"
    using that 1(5) eq unfolding tl by (cases "dropWhile (\<lambda>x. x \<noteq> ?d) ?r") simp_all
qed

lemma leading_split: "d \<in> set s \<Longrightarrow> \<exists>r. s = leading d s @ d # r"
  by (induction s) (auto simp: leading_def)

lemma stod_leading:
  assumes "num_stop d" "dropWhile is_space (leading d out) \<noteq> []"
  shows "stod out = stod (leading d out)" "stoi out = stoi (leading d out)"
proof -
  have "stod out = stod (leading d out) \<and> stoi out = stoi (leading d out)"
  proof (cases "d \<in> set out")
    case True
    then obtain r where "out = leading d out @ d # r" using leading_split by blast
    then show ?thesis using stod_stop [OF assms, of r] stoi_stop [OF assms, of r] by metis
  next
    case False
    then have "leading d out = out" by (auto simp: leading_def takeWhile_eq_all_conv)
    then show ?thesis by simp
  qed
  then show "stod out = stod (leading d out)" "stoi out = stoi (leading d out)" by simp_all
qed

section \<open>Reading numbers from a token source\<close>

text \<open>
  What the message handlers rely on: while there are fields ahead a token can be taken, it
  starts with the next field, and taking it moves on by one field.
\<close>

locale token_source =
  fixes ok :: "'t \<Rightarrow> bool"
    and take_token :: "'t \<Rightarrow> fault + string \<times> 't"
    and ahead :: "'t \<Rightarrow> string list"
    and delim :: "'t \<Rightarrow> char"
  assumes ahead_nonempty: "ok t \<Longrightarrow> ahead t \<noteq> []"
    and take_ok: "ok t \<Longrightarrow> \<exists>out t'. take_token t = Inr (out, t')"
    and take_leading: "ok t \<Longrightarrow> take_token t = Inr (out, t') \<Longrightarrow> leading (delim t) out = hd (ahead t)"
    and take_next: "ok t \<Longrightarrow> take_token t = Inr (out, t') \<Longrightarrow>
      ok t' \<and> delim t' = delim t \<and> (tl (ahead t) \<noteq> [] \<longrightarrow> ahead t' = tl (ahead t))"
begin

text \<open>Parsing the next token is parsing the next field, where the field is not blank.\<close>

lemma take_number:
  assumes "ok t" "num_stop (delim t)" "ahead t = f # fs" "dropWhile is_space f \<noteq> []"
  shows "\<exists>out t'. take_token t = Inr (out, t') \<and> stod out = stod f \<and> stoi out = stoi f \<and> ok t' \<and>
    delim t' = delim t \<and> (fs \<noteq> [] \<longrightarrow> ahead t' = fs)"
proof -
  obtain out t' where o: "take_token t = Inr (out, t')"
    using take_ok [OF assms(1)] by blast
  have lead: "leading (delim t) out = f"
    using take_leading [OF assms(1) o] assms(3) by simp
  have "stod out = stod f \<and> stoi out = stoi f"
    using stod_leading [OF assms(2), of out] assms(4) by (simp add: lead)
  then show ?thesis
    using o take_next [OF assms(1) o] assms(3) by auto
qed

end

interpretation tk: token_source tk_ok next_token "\<lambda>t. split_fields (tk_delim t) (tk_rest t)" tk_delim
proof (unfold_locales, goal_cases)
  case (1 t)
  show ?case by simp
next
  case (2 t)
  from next_token_step [OF this] show ?case by metis
next
  case (3 t out t')
  then show ?case by (rule fields_of_rest(1))
next
  case (4 t out t')
  then show ?case using fields_of_rest [OF 4] by simp
qed

text \<open>\<^verbatim>\<open>std::stod(tokenizer.next_token())\<close>, the statement the handlers repeat.\<close>

definition stod_token :: "tokenizer \<Rightarrow> fault + real \<times> tokenizer" where
  "stod_token t =
     (case next_token t of
        Inl e \<Rightarrow> Inl e
      | Inr (out, t') \<Rightarrow> (case stod out of Inl e \<Rightarrow> Inl e | Inr x \<Rightarrow> Inr (x, t')))"

primrec stod_tokens :: "nat \<Rightarrow> tokenizer \<Rightarrow> fault + real list \<times> tokenizer" where
  "stod_tokens 0 t = Inr ([], t)"
| "stod_tokens (Suc n) t =
     (case stod_token t of
        Inl e \<Rightarrow> Inl e
      | Inr (x, t') \<Rightarrow>
          (case stod_tokens n t' of Inl e \<Rightarrow> Inl e | Inr (xs, t'') \<Rightarrow> Inr (x # xs, t'')))"

primrec tokens :: "nat \<Rightarrow> tokenizer \<Rightarrow> fault + string list \<times> tokenizer" where
  "tokens 0 t = Inr ([], t)"
| "tokens (Suc n) t =
     (case next_token t of
        Inl e \<Rightarrow> Inl e
      | Inr (out, t') \<Rightarrow>
          (case tokens n t' of Inl e \<Rightarrow> Inl e | Inr (outs, t'') \<Rightarrow> Inr (out # outs, t'')))"

lemma tokens_from:
  assumes "tk_ok t" "tk_s t = s" "tk_delim t = d" "j < length (split_fields d s)"
    and "split_fields d (tk_rest t) = drop j (split_fields d s)"
  shows "\<exists>outs t'. tokens n t = Inr (outs, t') \<and> length outs = n \<and>
    (\<forall>i < n. leading d (outs ! i) = split_fields d s ! ((j + i) mod length (split_fields d s)))"
  using assms
proof (induction n arbitrary: t j)
  case 0
  then show ?case by simp
next
  case (Suc n)
  let ?fs = "split_fields d s" and ?j = "(j + 1) mod length (split_fields d s)"
  obtain out t' where o: "next_token t = Inr (out, t')"
    using tk.take_ok [OF Suc.prems(1)] by blast
  note f = fields_of_rest [OF Suc.prems(1) o, unfolded Suc.prems(2,3,5)]
  have out: "leading d out = ?fs ! j"
    using f(1) Suc.prems(4) by (simp add: hd_drop_conv_nth)
  have tl: "tl (drop j ?fs) = drop (j + 1) ?fs" by (simp add: drop_Suc tl_drop)
  have j': "?j < length ?fs" using Suc.prems(4) by simp
  have rest: "split_fields d (tk_rest t') = drop ?j ?fs"
  proof (cases "j + 1 < length ?fs")
    case True
    then show ?thesis using f(2) tl by simp
  next
    case False
    then have "j + 1 = length ?fs" using Suc.prems(4) by simp
    then show ?thesis using f(3) tl by simp
  qed
  obtain outs t'' where IH: "tokens n t' = Inr (outs, t'')" "length outs = n"
    "\<forall>i < n. leading d (outs ! i) = ?fs ! ((?j + i) mod length ?fs)"
    using Suc.IH [OF f(4,5) f(6) j' rest] by blast
  have "leading d ((out # outs) ! i) = ?fs ! ((j + i) mod length ?fs)" if "i < Suc n" for i
  proof (cases i)
    case 0
    then show ?thesis using out Suc.prems(4) by simp
  next
    case (Suc i')
    then show ?thesis using IH(3) that by (simp add: mod_simps)
  qed
  then show ?case using o IH by auto
qed

text \<open>
  Reading \<open>n\<close> numbers from a string: the values of its fields, taken around again when there
  are fewer than \<open>n\<close> of them.
\<close>

lemma stod_tokens_tokens:
  "tokens n t = Inr (outs, t') \<Longrightarrow> map stod outs = map Inr xs \<Longrightarrow> stod_tokens n t = Inr (xs, t')"
proof (induction n arbitrary: t outs xs)
  case (Suc n)
  then show ?case
    by (cases xs) (auto simp: stod_token_def split: sum.splits prod.splits)
qed simp

lemma stod_tokens_cyclic:
  assumes "length s < npos" "num_stop d" "length ys = n"
    and "\<And>i. i < n \<Longrightarrow> dropWhile is_space (split_fields d s ! (i mod length (split_fields d s))) \<noteq> [] \<and>
      stod (split_fields d s ! (i mod length (split_fields d s))) = Inr (ys ! i)"
  shows "\<exists>t'. stod_tokens n (tokenizer_new s d) = Inr (ys, t')"
proof -
  obtain outs t' where o: "tokens n (tokenizer_new s d) = Inr (outs, t')" "length outs = n"
    "\<forall>i < n. leading d (outs ! i) = split_fields d s ! (i mod length (split_fields d s))"
    using tokens_from [of "tokenizer_new s d" s d 0 n] assms(1) by auto
  have "map stod outs = map Inr ys"
    using o(2,3) assms(3,4) stod_leading [OF assms(2)] by (intro nth_equalityI) auto
  then show ?thesis using stod_tokens_tokens [OF o(1)] by blast
qed

section \<open>Properties\<close>

lemma next_token_fault: "next_token t = Inl e \<Longrightarrow> e = Out_of_range"
  by (auto simp: next_token_def str_substr_def Let_def split: if_splits)

text \<open>
  Taking any number of tokens from a string never throws, and the tokens start with the
  fields of the string in order; after the last field the tokenizer begins again with the first.
\<close>

theorem tokens_are_fields:
  assumes "length s < npos"
  shows "\<exists>outs t'. tokens n (tokenizer_new s d) = Inr (outs, t') \<and> length outs = n \<and>
    (\<forall>i < n. leading d (outs ! i) = split_fields d s ! (i mod length (split_fields d s)))"
  using tokens_from [of "tokenizer_new s d" s d 0 n] assms by simp

theorem tokens_are_fields_witness:
  "\<exists>outs t'. tokens 4 (tokenizer_new ''1,22,3'' CHR '','') = Inr (outs, t') \<and>
     map (leading CHR '','') outs = [''1'', ''22'', ''3'', ''1'']"
proof -
  obtain outs t' where o: "tokens 4 (tokenizer_new ''1,22,3'' CHR '','') = Inr (outs, t')"
    "length outs = 4"
    "\<forall>i < 4. leading CHR '','' (outs ! i) =
      split_fields CHR '','' ''1,22,3'' ! (i mod length (split_fields CHR '','' ''1,22,3''))"
    using tokens_are_fields [of "''1,22,3''" 4 "CHR '',''"] by (auto simp: npos_def)
  obtain a b c e where outs: "outs = [a, b, c, e]"
    using o(2) by (auto simp: length_Suc_conv eval_nat_numeral)
  have "map (leading CHR '','') outs = [''1'', ''22'', ''3'', ''1'']"
    using o(3) [rule_format, of 0] o(3) [rule_format, of 1] o(3) [rule_format, of 2]
      o(3) [rule_format, of 3]
    by (simp add: outs)
  with o(1) show ?thesis by (intro exI conjI)
qed

text \<open>
  A token is the field it starts with only when it is the first or the last one of the
  string: everywhere else the length passed to \<^verbatim>\<open>substr\<close> is the position of the delimiter, so
  the token runs on past it.
\<close>

theorem token_is_field_iff:
  assumes "tk_ok t" "next_token t = Inr (out, t')"
  shows "out = leading (tk_delim t) (tk_rest t) \<longleftrightarrow>
    tk_curr t = 0 \<or> tk_delim t \<notin> set (tk_rest t)"
proof -
  let ?d = "tk_delim t" and ?r = "tk_rest t"
  have out: "out = take (if ?d \<in> set ?r then tk_curr t + length (leading ?d ?r) else npos) ?r"
    using next_token_step [OF assms(1)] assms(2) by (metis Inr_inject Pair_inject)
  show ?thesis
  proof (cases "?d \<in> set ?r")
    case True
    then obtain r where r: "?r = leading ?d ?r @ ?d # r" using leading_split by blast
    then have len: "length ?r = length (leading ?d ?r) + Suc (length r)"
      by (metis length_append length_Cons)
    have "take (length (leading ?d ?r)) ?r = leading ?d ?r"
      by (subst r) simp
    moreover have "length out = min (length ?r) (tk_curr t + length (leading ?d ?r))"
      using True by (simp add: out)
    moreover have "out \<noteq> leading ?d ?r" if "tk_curr t \<noteq> 0"
    proof
      assume "out = leading ?d ?r"
      then show False using calculation(2) that len by simp
    qed
    ultimately show ?thesis
      using True out by auto
  next
    case False
    then have "leading ?d ?r = ?r" by (auto simp: leading_def takeWhile_eq_all_conv)
    moreover have "length ?r \<le> npos" using assms(1) unfolding tk_ok_def tk_rest_def length_drop by linarith
    ultimately show ?thesis using False out by simp
  qed
qed

theorem token_is_field_iff_witness:
  "next_token \<lparr>tk_delim = CHR '','', tk_curr = 2, tk_s = ''1,2,3''\<rparr> =
     Inr (''2,3'', \<lparr>tk_delim = CHR '','', tk_curr = 4, tk_s = ''1,2,3''\<rparr>) \<and> ''2,3'' \<noteq> ''2''"
proof -
  let ?t = "\<lparr>tk_delim = CHR '','', tk_curr = 2, tk_s = ''1,2,3''\<rparr>"
  have n: "next_token ?t = Inr (''2,3'', \<lparr>tk_delim = CHR '','', tk_curr = 4, tk_s = ''1,2,3''\<rparr>)"
    by (simp add: next_token_def str_find_def str_substr_def npos_def)
  have "tk_ok ?t" by (simp add: tk_ok_def npos_def)
  from token_is_field_iff [OF this n] n show ?thesis
    by (simp add: tk_rest_def leading_def)
qed

end
