(* ===== verification/Mqtt.thy ===== *)
theory Mqtt
  imports Sim
begin

text \<open>
  The calls of the MQTT client the programs make. The client library is outside the sources:
  each call is a request to the kernel, a negative answer is the library's exception. A
  consumed message that is reported present but missing is the null pointer the handlers
  dereference at once.
\<close>

definition mqtt_call :: "'w kernel \<Rightarrow> request \<Rightarrow> ('w, unit) io" where
  "mqtt_call k q w =
     (let (r, w) = ask k q w in if r < 0 then (Inl Mqtt_exception, w) else (Inr (), w))"

definition mqtt_connect :: "'w kernel \<Rightarrow> ('w, unit) io" where
  "mqtt_connect k = mqtt_call k Mqtt_connect"

definition mqtt_subscribe :: "'w kernel \<Rightarrow> string \<Rightarrow> ('w, unit) io" where
  "mqtt_subscribe k topic = mqtt_call k (Mqtt_subscribe topic)"

definition mqtt_publish :: "'w kernel \<Rightarrow> string \<Rightarrow> string \<Rightarrow> ('w, unit) io" where
  "mqtt_publish k topic payload = mqtt_call k (Mqtt_publish topic payload)"

definition mqtt_consume :: "'w kernel \<Rightarrow> ('w, (string \<times> string) option) io" where
  "mqtt_consume k w =
     (let (a, w) = k Mqtt_consume w
      in if rval a = 0 then (Inr None, w)
         else (case rmsg a of None \<Rightarrow> (Inl Undefined_behaviour, w) | Some m \<Rightarrow> (Inr (Some m), w)))"

text \<open>A broker that is up: the calls are answered and a present message is there.\<close>

definition broker_up :: "'w kernel \<Rightarrow> bool" where
  "broker_up k \<longleftrightarrow>
     (\<forall>w. 0 \<le> rval (fst (k Mqtt_connect w))) \<and>
     (\<forall>t w. 0 \<le> rval (fst (k (Mqtt_subscribe t) w))) \<and>
     (\<forall>t m w. 0 \<le> rval (fst (k (Mqtt_publish t m) w))) \<and>
     (\<forall>w. rval (fst (k Mqtt_consume w)) \<noteq> 0 \<longrightarrow> rmsg (fst (k Mqtt_consume w)) \<noteq> None)"

lemma broker_calls:
  assumes "broker_up k"
  shows "mqtt_connect k = io_act (call k Mqtt_connect)"
    "mqtt_subscribe k t = io_act (call k (Mqtt_subscribe t))"
    "mqtt_publish k t m = io_act (call k (Mqtt_publish t m))"
  using assms
  by (auto simp: broker_up_def mqtt_connect_def mqtt_subscribe_def mqtt_publish_def mqtt_call_def
      ask_def call_def io_act_def fun_eq_iff not_less [symmetric] split: prod.splits)
     (metis fst_conv linorder_not_less)+

lemma sim_broker: "broker_up sim_up"
  by (simp add: broker_up_def sim_up_def sim_consume_def split: list.splits)

lemma mqtt_call_world: "snd (mqtt_call k q w) = call k q w"
  by (simp add: mqtt_call_def ask_def call_def case_prod_unfold Let_def)

lemma mqtt_call_result: "fst (mqtt_call k q w) \<in> {Inr (), Inl Mqtt_exception}"
  by (simp add: mqtt_call_def ask_def case_prod_unfold Let_def)

end
