(* ===== verification/FmtCore.thy ===== *)
theory FmtCore
  imports StdNum
begin

text \<open>
  The data of the formatting library \<^verbatim>\<open>src/include/fmt\<close> (\<^verbatim>\<open>core.h\<close>, \<^verbatim>\<open>format.h\<close>) the logger
  prints with: its errors, the kinds of arguments and the sets of kinds a specifier accepts, the
  arguments with their packed type descriptor, and the format specifiers. Characters are those of
  the \<^verbatim>\<open>char\<close> instance. A floating-point argument is a value of a type of its own (\<open>'f\<close>): how its
  digits are produced is not modelled and is an argument of the definitions that write one.
\<close>

section \<open>Errors\<close>

text \<open>
  One constructor per message the library throws; \<open>Fmt_undefined\<close> is undefined behaviour (a null
  text that is read, a write in front of a buffer).
\<close>

datatype fmt_error =
    Invalid_format_string
  | Unmatched_brace
  | Missing_brace
  | Unknown_specifier
  | Invalid_specifier
  | Invalid_char_specifier
  | Invalid_fill
  | Invalid_precision
  | Numeric_required
  | Number_too_big
  | Argument_not_found
  | Manual_to_automatic
  | Automatic_to_manual
  | Negative_width
  | Negative_precision
  | Width_not_integer
  | Precision_not_integer
  | Spec_not_integer
  | Named_not_checked
  | Null_string
  | Fmt_undefined

text \<open>The message of the exception.\<close>

fun fmt_what :: "fmt_error \<Rightarrow> string" where
  "fmt_what Invalid_format_string = ''invalid format string''"
| "fmt_what Unmatched_brace = ''unmatched '' @ [CHR 0x27, CHR 0x7D, CHR 0x27] @ '' in format string''"
| "fmt_what Missing_brace = ''missing '' @ [CHR 0x27, CHR 0x7D, CHR 0x27] @ '' in format string''"
| "fmt_what Unknown_specifier = ''unknown format specifier''"
| "fmt_what Invalid_specifier = ''invalid format specifier''"
| "fmt_what Invalid_char_specifier = ''invalid format specifier for char''"
| "fmt_what Invalid_fill = ''invalid fill character '' @ [CHR 0x27, CHR 0x7B, CHR 0x27]"
| "fmt_what Invalid_precision = ''invalid precision''"
| "fmt_what Numeric_required = ''format specifier requires numeric argument''"
| "fmt_what Number_too_big = ''number is too big''"
| "fmt_what Argument_not_found = ''argument not found''"
| "fmt_what Manual_to_automatic = ''cannot switch from manual to automatic argument indexing''"
| "fmt_what Automatic_to_manual = ''cannot switch from automatic to manual argument indexing''"
| "fmt_what Negative_width = ''negative width''"
| "fmt_what Negative_precision = ''negative precision''"
| "fmt_what Width_not_integer = ''width is not integer''"
| "fmt_what Precision_not_integer = ''precision is not integer''"
| "fmt_what Spec_not_integer = ''width/precision is not integer''"
| "fmt_what Named_not_checked = ''compile-time checks for named arguments require C++20 support''"
| "fmt_what Null_string = ''string pointer is null''"
| "fmt_what Fmt_undefined = []"

type_synonym 'a fmt = "fmt_error + 'a"

definition fmt_bind :: "'a fmt \<Rightarrow> ('a \<Rightarrow> 'b fmt) \<Rightarrow> 'b fmt" where
  "fmt_bind m f = (case m of Inl e \<Rightarrow> Inl e | Inr x \<Rightarrow> f x)"

lemma fmt_bind_simps [simp]: "fmt_bind (Inl e) f = Inl e" "fmt_bind (Inr x) f = f x"
  by (simp_all add: fmt_bind_def)

lemma fmt_bind_Inr_iff: "fmt_bind m f = Inr y \<longleftrightarrow> (\<exists>x. m = Inr x \<and> f x = Inr y)"
  by (cases m) auto

lemma fmt_bind_Inl_iff: "fmt_bind m f = Inl e \<longleftrightarrow> m = Inl e \<or> (\<exists>x. m = Inr x \<and> f x = Inl e)"
  by (cases m) auto

lemma fmt_bind_assoc: "fmt_bind (fmt_bind m f) g = fmt_bind m (\<lambda>x. fmt_bind (f x) g)"
  by (cases m) auto

lemma fmt_bind_cong [fundef_cong]:
  "m = m' \<Longrightarrow> (\<And>x. m' = Inr x \<Longrightarrow> f x = g x) \<Longrightarrow> fmt_bind m f = fmt_bind m' g"
  by (cases m') auto

definition guard :: "bool \<Rightarrow> fmt_error \<Rightarrow> unit fmt" where
  "guard b e = (if b then Inr () else Inl e)"

lemma guard_simps [simp]:
  "guard True e = Inr ()" "guard False e = Inl e"
  "guard b e = Inr u \<longleftrightarrow> b" "guard b e = Inl e' \<longleftrightarrow> \<not> b \<and> e' = e"
  by (auto simp: guard_def)

definition LBRACE :: char where "LBRACE = CHR 0x7B"
definition RBRACE :: char where "RBRACE = CHR 0x7D"

definition INT_MAX :: nat where "INT_MAX = 2147483647"

section \<open>Kinds of arguments\<close>

datatype fmt_type =
    None_type | Int_type | Uint_type | Long_long_type | Ulong_long_type | Int128_type | Uint128_type
  | Bool_type | Char_type | Float_type | Double_type | Long_double_type
  | Cstring_type | String_type | Pointer_type | Custom_type

text \<open>The value of the enumerator.\<close>

fun kind_code :: "fmt_type \<Rightarrow> nat" where
  "kind_code None_type = 0"
| "kind_code Int_type = 1"
| "kind_code Uint_type = 2"
| "kind_code Long_long_type = 3"
| "kind_code Ulong_long_type = 4"
| "kind_code Int128_type = 5"
| "kind_code Uint128_type = 6"
| "kind_code Bool_type = 7"
| "kind_code Char_type = 8"
| "kind_code Float_type = 9"
| "kind_code Double_type = 10"
| "kind_code Long_double_type = 11"
| "kind_code Cstring_type = 12"
| "kind_code String_type = 13"
| "kind_code Pointer_type = 14"
| "kind_code Custom_type = 15"

definition all_types :: "fmt_type list" where
  "all_types = [None_type, Int_type, Uint_type, Long_long_type, Ulong_long_type, Int128_type,
     Uint128_type, Bool_type, Char_type, Float_type, Double_type, Long_double_type, Cstring_type,
     String_type, Pointer_type, Custom_type]"

definition is_integral_type :: "fmt_type \<Rightarrow> bool" where
  "is_integral_type t \<longleftrightarrow> kind_code None_type < kind_code t \<and> kind_code t \<le> kind_code Char_type"

definition is_arithmetic_type :: "fmt_type \<Rightarrow> bool" where
  "is_arithmetic_type t \<longleftrightarrow> kind_code None_type < kind_code t \<and> kind_code t \<le> kind_code Long_double_type"

text \<open>Sets of kinds are the bits of an integer.\<close>

definition set_of :: "fmt_type \<Rightarrow> nat" where
  "set_of t = push_bit (kind_code t) 1"

definition in_set :: "fmt_type \<Rightarrow> nat \<Rightarrow> bool" where
  "in_set t s \<longleftrightarrow> drop_bit (kind_code t) s AND 1 \<noteq> 0"

definition sint_set :: nat where "sint_set = set_of Int_type OR set_of Long_long_type OR set_of Int128_type"
definition uint_set :: nat where "uint_set = set_of Uint_type OR set_of Ulong_long_type OR set_of Uint128_type"
definition bool_set :: nat where "bool_set = set_of Bool_type"
definition char_set :: nat where "char_set = set_of Char_type"
definition float_set :: nat where "float_set = set_of Float_type OR set_of Double_type OR set_of Long_double_type"
definition string_set :: nat where "string_set = set_of String_type"
definition cstring_set :: nat where "cstring_set = set_of Cstring_type"
definition pointer_set :: nat where "pointer_set = set_of Pointer_type"
definition integral_set :: nat where "integral_set = sint_set OR uint_set OR bool_set OR char_set"

lemma kind_code_inj [simp]: "kind_code s = kind_code t \<longleftrightarrow> s = t"
  by (cases s; cases t) simp_all

lemma kind_code_bound: "kind_code t < 16"
  by (cases t) simp_all

lemma in_set_of [simp]: "in_set t (set_of u) \<longleftrightarrow> t = u"
proof -
  have "in_set t (set_of u) \<longleftrightarrow> bit (set_of u) (kind_code t)"
    by (simp add: in_set_def bit_iff_odd_drop_bit and_one_eq odd_iff_mod_2_eq_one)
  also have "bit (set_of u) (kind_code t) \<longleftrightarrow> t = u"
    by (auto simp: set_of_def bit_exp_iff)
  finally show ?thesis .
qed

lemma in_set_OR [simp]: "in_set t (a OR b) \<longleftrightarrow> in_set t a \<or> in_set t b"
proof -
  have b: "in_set t s \<longleftrightarrow> bit s (kind_code t)" for s
    by (simp add: in_set_def bit_iff_odd_drop_bit and_one_eq odd_iff_mod_2_eq_one)
  show ?thesis by (simp add: b bit_or_iff)
qed

lemmas kind_sets = sint_set_def uint_set_def bool_set_def char_set_def float_set_def string_set_def
  cstring_set_def pointer_set_def integral_set_def

section \<open>Specifiers\<close>

datatype fmt_align = Align_none | Align_left | Align_right | Align_center | Align_numeric

datatype fmt_sign = Sign_none | Sign_minus | Sign_plus | Sign_space

datatype presentation =
    P_none | P_dec | P_oct | P_hex_lower | P_hex_upper | P_bin_lower | P_bin_upper
  | P_hexfloat_lower | P_hexfloat_upper | P_exp_lower | P_exp_upper | P_fixed_lower | P_fixed_upper
  | P_general_lower | P_general_upper | P_chr | P_string | P_pointer | P_debug

record fmt_specs =
  sp_width :: int
  sp_precision :: int
  sp_type :: presentation
  sp_align :: fmt_align
  sp_sign :: fmt_sign
  sp_alt :: bool
  sp_localized :: bool
  sp_fill :: string

text \<open>An argument reference, and the specifiers whose width or precision may be one.\<close>

datatype arg_ref = Ref_none | Ref_index int | Ref_name string

record dynamic_specs = fmt_specs +
  sp_width_ref :: arg_ref
  sp_precision_ref :: arg_ref

definition specs0 :: fmt_specs where
  "specs0 = \<lparr>sp_width = 0, sp_precision = -1, sp_type = P_none, sp_align = Align_none, sp_sign = Sign_none,
     sp_alt = False, sp_localized = False, sp_fill = '' ''\<rparr>"

definition dynamic0 :: dynamic_specs where
  "dynamic0 = fmt_specs.extend specs0 \<lparr>sp_width_ref = Ref_none, sp_precision_ref = Ref_none\<rparr>"

lemma specs0_simps [simp]:
  "sp_width specs0 = 0" "sp_precision specs0 = -1" "sp_type specs0 = P_none"
  "sp_align specs0 = Align_none" "sp_sign specs0 = Sign_none" "\<not> sp_alt specs0"
  "\<not> sp_localized specs0" "sp_fill specs0 = '' ''"
  by (simp_all add: specs0_def)

lemma dynamic0_simps [simp]:
  "sp_width dynamic0 = 0" "sp_precision dynamic0 = -1" "sp_type dynamic0 = P_none"
  "sp_align dynamic0 = Align_none" "sp_sign dynamic0 = Sign_none" "\<not> sp_alt dynamic0"
  "\<not> sp_localized dynamic0" "sp_fill dynamic0 = '' ''"
  "sp_width_ref dynamic0 = Ref_none" "sp_precision_ref dynamic0 = Ref_none"
  by (simp_all add: dynamic0_def specs0_def fmt_specs.defs)

section \<open>Arguments\<close>

text \<open>
  An argument value with its kind, as the library's tagged union holds it. A C string is its
  address and the characters before the terminator; a pointer is an address.
\<close>

datatype 'f fmt_arg =
    No_arg
  | Arg_int "32 word"
  | Arg_uint "32 word"
  | Arg_long_long "64 word"
  | Arg_ulong_long "64 word"
  | Arg_int128 "128 word"
  | Arg_uint128 "128 word"
  | Arg_bool bool
  | Arg_char char
  | Arg_float 'f
  | Arg_double 'f
  | Arg_long_double 'f
  | Arg_cstring "64 word" string
  | Arg_string string
  | Arg_pointer "64 word"

fun arg_type :: "'f fmt_arg \<Rightarrow> fmt_type" where
  "arg_type No_arg = None_type"
| "arg_type (Arg_int _) = Int_type"
| "arg_type (Arg_uint _) = Uint_type"
| "arg_type (Arg_long_long _) = Long_long_type"
| "arg_type (Arg_ulong_long _) = Ulong_long_type"
| "arg_type (Arg_int128 _) = Int128_type"
| "arg_type (Arg_uint128 _) = Uint128_type"
| "arg_type (Arg_bool _) = Bool_type"
| "arg_type (Arg_char _) = Char_type"
| "arg_type (Arg_float _) = Float_type"
| "arg_type (Arg_double _) = Double_type"
| "arg_type (Arg_long_double _) = Long_double_type"
| "arg_type (Arg_cstring _ _) = Cstring_type"
| "arg_type (Arg_string _) = String_type"
| "arg_type (Arg_pointer _) = Pointer_type"

text \<open>
  The arguments of a call. Up to fifteen are packed: their kinds are fields of four bits of a
  64-bit descriptor and the values stand in an array without kinds. More are stored as values with
  their kinds, and the descriptor holds the top bit and the count. Bit 62 says that some argument
  is named; the names are pairs of a name and a position.
\<close>

record 'f format_args =
  fa_desc :: "64 word"
  fa_values :: "'f fmt_arg list"
  fa_names :: "(string \<times> nat) list"

definition packed_arg_bits :: nat where "packed_arg_bits = 4"
definition max_packed_args :: nat where "max_packed_args = 62 div packed_arg_bits"
definition is_unpacked_bit :: "64 word" where "is_unpacked_bit = push_bit 63 1"
definition has_named_args_bit :: "64 word" where "has_named_args_bit = push_bit 62 1"

fun encode_types :: "fmt_type list \<Rightarrow> 64 word" where
  "encode_types [] = 0"
| "encode_types (t # ts) = word_of_nat (kind_code t) OR push_bit packed_arg_bits (encode_types ts)"

definition init_named_args :: "(string option \<times> 'f fmt_arg) list \<Rightarrow> (string \<times> nat) list" where
  "init_named_args xs = [(the n, i). (i, n) \<leftarrow> enumerate 0 (map fst xs), n \<noteq> None]"

definition make_format_args :: "(string option \<times> 'f fmt_arg) list \<Rightarrow> 'f format_args" where
  "make_format_args xs =
     (let names = init_named_args xs
      in \<lparr>fa_desc = (if length xs \<le> max_packed_args then encode_types (map (arg_type \<circ> snd) xs)
                     else is_unpacked_bit OR word_of_nat (length xs)) OR
                  (if names \<noteq> [] then has_named_args_bit else 0),
          fa_values = map snd xs, fa_names = names\<rparr>)"

definition is_packed :: "'f format_args \<Rightarrow> bool" where
  "is_packed a \<longleftrightarrow> fa_desc a AND is_unpacked_bit = 0"

definition has_named_args :: "'f format_args \<Rightarrow> bool" where
  "has_named_args a \<longleftrightarrow> fa_desc a AND has_named_args_bit \<noteq> 0"

definition packed_type :: "'f format_args \<Rightarrow> nat \<Rightarrow> nat" where
  "packed_type a i = unat (drop_bit (i * packed_arg_bits) (fa_desc a) AND (push_bit packed_arg_bits 1 - 1))"

definition args_max_size :: "'f format_args \<Rightarrow> nat" where
  "args_max_size a =
     (if is_packed a then max_packed_args
      else unat (ucast (fa_desc a AND NOT is_unpacked_bit) :: 32 word))"

text \<open>
  The argument with an id. For packed arguments the kind comes from the descriptor and the value
  from the array; they agree, which is what \<open>args_get\<close> below is about. An index at or above zero
  is what the library passes.
\<close>

definition get_arg_at :: "'f format_args \<Rightarrow> nat \<Rightarrow> 'f fmt_arg option" where
  "get_arg_at a i =
     (if \<not> is_packed a then
        (if i < args_max_size a then if i < length (fa_values a) then Some (fa_values a ! i) else None
         else Some No_arg)
      else if max_packed_args \<le> i then Some No_arg
      else if packed_type a i = kind_code None_type then Some No_arg
      else if i < length (fa_values a) \<and> packed_type a i = kind_code (arg_type (fa_values a ! i))
           then Some (fa_values a ! i)
      else None)"

definition get_id :: "'f format_args \<Rightarrow> string \<Rightarrow> int" where
  "get_id a n =
     (if \<not> has_named_args a then -1
      else case List.find (\<lambda>x. fst x = n) (fa_names a) of None \<Rightarrow> -1 | Some x \<Rightarrow> int (snd x))"

section \<open>The descriptor\<close>

lemma bit_type_code: "bit (kind_code t) n \<Longrightarrow> n < 4"
proof (rule ccontr)
  assume b: "bit (kind_code t) n" and n: "\<not> n < 4"
  have "take_bit 4 (kind_code t) = kind_code t"
    using kind_code_bound [of t] by (simp add: take_bit_nat_eq_self)
  then have "bit (take_bit 4 (kind_code t)) n" using b by simp
  then show False using n by (simp add: bit_take_bit_iff)
qed

lemma bit_encode_types:
  "bit (encode_types ts) n \<longleftrightarrow> n < 64 \<and> n div 4 < length ts \<and> bit (kind_code (ts ! (n div 4))) (n mod 4)"
proof (induction ts arbitrary: n)
  case (Cons t ts)
  have "bit (encode_types (t # ts)) n \<longleftrightarrow>
      n < 64 \<and> (bit (kind_code t) n \<or> 4 \<le> n \<and> bit (encode_types ts) (n - 4))"
    by (auto simp: bit_or_iff bit_push_bit_iff bit_of_nat_iff packed_arg_bits_def possible_bit_word)
  also have "\<dots> \<longleftrightarrow> n < 64 \<and> n div 4 < length (t # ts) \<and> bit (kind_code ((t # ts) ! (n div 4))) (n mod 4)"
  proof (cases "n < 4")
    case False
    then have "n div 4 = Suc ((n - 4) div 4)" "n mod 4 = (n - 4) mod 4"
      by (simp_all add: le_div_geq le_mod_geq)
    then show ?thesis using False bit_type_code [of t n] by (auto simp: Cons.IH)
  qed auto
  finally show ?case .
qed simp

definition args_desc :: "(string option \<times> 'f fmt_arg) list \<Rightarrow> 64 word" where
  "args_desc xs = fa_desc (make_format_args xs)"

lemma flag_bits:
  "bit is_unpacked_bit n \<longleftrightarrow> n = 63" "bit has_named_args_bit n \<longleftrightarrow> n = 62"
  unfolding is_unpacked_bit_def has_named_args_bit_def bit_push_bit_iff by (auto simp: bit_1_iff)

lemma word_bit_bound: "bit w n \<Longrightarrow> n < 64" for w :: "64 word"
  using bit_imp_le_length [of w n] by simp

lemma word_zero_bits: "w = 0 \<longleftrightarrow> (\<forall>n. \<not> bit w n)" for w :: "64 word"
  by (auto intro: bit_word_eqI)

lemma args_desc_bit:
  "bit (args_desc xs) n \<longleftrightarrow> n < 64 \<and>
     ((if length xs \<le> 15 then bit (encode_types (map (arg_type \<circ> snd) xs)) n
       else n = 63 \<or> bit (length xs) n) \<or> n = 62 \<and> init_named_args xs \<noteq> [])"
  by (auto simp: args_desc_def make_format_args_def Let_def max_packed_args_def packed_arg_bits_def
      bit_or_iff flag_bits bit_of_nat_iff possible_bit_word dest: word_bit_bound)

lemma is_packed_args: "is_packed (make_format_args xs) \<longleftrightarrow> length xs \<le> 15"
proof -
  have "is_packed (make_format_args xs) \<longleftrightarrow> \<not> bit (args_desc xs) 63"
    by (auto simp: is_packed_def args_desc_def word_zero_bits bit_and_iff flag_bits)
  also have "\<dots> \<longleftrightarrow> length xs \<le> 15"
    by (auto simp: args_desc_bit bit_encode_types)
  finally show ?thesis .
qed

lemma has_named_args_iff:
  assumes "length xs < 2 ^ 31"
  shows "has_named_args (make_format_args xs) \<longleftrightarrow> init_named_args xs \<noteq> []"
proof -
  have "has_named_args (make_format_args xs) \<longleftrightarrow> bit (args_desc xs) 62"
    by (auto simp: has_named_args_def args_desc_def word_zero_bits bit_and_iff flag_bits)
  moreover have "\<not> bit (length xs) 62"
    using assms by (simp add: bit_iff_odd)
  ultimately show ?thesis by (auto simp: args_desc_bit bit_encode_types)
qed

lemma packed_type_code:
  assumes "length xs \<le> 15" "i < 15"
  shows "packed_type (make_format_args xs) i =
    (if i < length xs then kind_code (arg_type (snd (xs ! i))) else 0)"
proof -
  have m: "push_bit packed_arg_bits 1 - 1 = (mask 4 :: 64 word)"
    by (simp add: packed_arg_bits_def mask_eq_exp_minus_1)
  have "bit (packed_type (make_format_args xs) i) n \<longleftrightarrow>
      bit (if i < length xs then kind_code (arg_type (snd (xs ! i))) else 0) n" for n
  proof (cases "n < 4")
    case True
    then have "(i * 4 + n) div 4 = i" "(i * 4 + n) mod 4 = n" "i * 4 + n < 62" using assms(2) by auto
    moreover have "bit (15 :: 64 word) n"
    proof -
      have e: "(15 :: 64 word) = mask 4" by (simp add: mask_eq_exp_minus_1)
      show ?thesis unfolding e bit_mask_iff using True by simp
    qed
    ultimately show ?thesis using True assms
      by (simp add: packed_type_def m packed_arg_bits_def bit_unsigned_iff bit_and_iff bit_drop_bit_eq bit_mask_iff
          args_desc_def [symmetric] args_desc_bit bit_encode_types add.commute)
  next
    case False
    then show ?thesis
      using bit_type_code [of "arg_type (snd (xs ! i))" n] unfolding packed_type_def m
      by (auto simp: bit_unsigned_iff bit_and_iff bit_mask_iff)
  qed
  then show ?thesis by (simp add: bit_eq_iff)
qed

lemma unpacked_size:
  assumes "\<not> length xs \<le> 15" "length xs < 2 ^ 31"
  shows "args_max_size (make_format_args xs) = length xs"
proof -
  have "bit (ucast (args_desc xs AND NOT is_unpacked_bit) :: 32 word) n \<longleftrightarrow> bit (word_of_nat (length xs) :: 32 word) n" if "n < 32" for n
    using that assms by (simp add: bit_unsigned_iff bit_and_iff bit_not_iff flag_bits args_desc_bit bit_of_nat_iff possible_bit_word)
  then have "(ucast (args_desc xs AND NOT is_unpacked_bit) :: 32 word) = word_of_nat (length xs)"
    by (intro bit_word_eqI) simp
  then show ?thesis using assms
    by (simp add: args_max_size_def is_packed_args args_desc_def unat_of_nat take_bit_nat_eq_self)
qed

lemma args_get:
  assumes "length xs < 2 ^ 31"
  shows "get_arg_at (make_format_args xs) i = Some (if i < length xs then snd (xs ! i) else No_arg)"
proof (cases "length xs \<le> 15")
  case True
  have v: "fa_values (make_format_args xs) = map snd xs" by (simp add: make_format_args_def Let_def)
  have t0: "kind_code (arg_type a) = 0 \<Longrightarrow> a = No_arg" for a :: "'a fmt_arg" by (cases a) auto
  show ?thesis using True packed_type_code [OF True, of i]
    by (auto simp: get_arg_at_def is_packed_args max_packed_args_def packed_arg_bits_def v dest: t0)
next
  case False
  have v: "fa_values (make_format_args xs) = map snd xs" by (simp add: make_format_args_def Let_def)
  show ?thesis using False assms by (simp add: get_arg_at_def is_packed_args unpacked_size v)
qed

end
