(* ===== verification/FmtUtf8.thy ===== *)
theory FmtUtf8
  imports FmtCore
begin

text \<open>
  The UTF-8 part of the formatting library: the decoder without branches, the walk over the code
  points of a text, the display width and the index of a code point. The bytes are the codes of the
  characters; the 32-bit values of the decoder stay below \<open>2 ^ 21\<close> and do not wrap, so they are
  natural numbers. What is shown: the decoder accepts exactly the encodings of code points, and the
  walk, which reads blocks of four bytes and copies the rest into a buffer of zeros, cuts a text into
  its code points.
\<close>

section \<open>The decoder\<close>

definition byte_of :: "char \<Rightarrow> nat" where
  "byte_of c = of_char c"

definition code_point_length_impl :: "nat \<Rightarrow> nat" where
  "code_point_length_impl b =
     [1, 1, 1, 1, 1, 1, 1, 1, 1, 1, 1, 1, 1, 1, 1, 1, 0, 0, 0, 0, 0, 0, 0, 0, 2, 2, 2, 2, 3, 3, 4, 0]
     ! drop_bit 3 b"

definition code_point_length :: "char \<Rightarrow> nat" where
  "code_point_length c =
     (let n = code_point_length_impl (byte_of c) in n + (if n = 0 then 1 else 0))"

definition utf8_masks :: "nat list" where "utf8_masks = [0, 0x7f, 0x1f, 0x0f, 0x07]"
definition utf8_mins :: "nat list" where "utf8_mins = [4194304, 0, 128, 2048, 65536]"
definition utf8_shiftc :: "nat list" where "utf8_shiftc = [0, 18, 12, 6, 0]"
definition utf8_shifte :: "nat list" where "utf8_shifte = [0, 6, 4, 2, 0]"

definition decode_value :: "nat \<Rightarrow> nat \<Rightarrow> nat \<Rightarrow> nat \<Rightarrow> nat \<Rightarrow> nat" where
  "decode_value n s0 s1 s2 s3 =
     drop_bit (utf8_shiftc ! n)
       (push_bit 18 (s0 AND utf8_masks ! n) OR push_bit 12 (s1 AND 0x3f) OR
        push_bit 6 (s2 AND 0x3f) OR push_bit 0 (s3 AND 0x3f))"

definition decode_errors :: "nat \<Rightarrow> nat \<Rightarrow> nat \<Rightarrow> nat \<Rightarrow> nat \<Rightarrow> nat" where
  "decode_errors n c s1 s2 s3 =
     drop_bit (utf8_shifte ! n)
       ((push_bit 6 (of_bool (c < utf8_mins ! n)) OR
         push_bit 7 (of_bool (drop_bit 11 c = 0x1b)) OR
         push_bit 8 (of_bool (0x10FFFF < c)) OR
         drop_bit 2 (s1 AND 0xc0) OR drop_bit 4 (s2 AND 0xc0) OR drop_bit 6 s3) XOR 0x2a)"

text \<open>
  The distance to the next character, the code point and the error bits. Four bytes are read
  whatever the length of the character is: \<open>None\<close> when there are fewer.
\<close>

definition utf8_decode :: "string \<Rightarrow> (nat \<times> nat \<times> nat) option" where
  "utf8_decode s =
     (case map byte_of (take 4 s) of
        [s0, s1, s2, s3] \<Rightarrow>
          (let n = code_point_length_impl s0; c = decode_value n s0 s1 s2 s3
           in Some (n + (if n = 0 then 1 else 0), c, decode_errors n c s1 s2 s3))
      | _ \<Rightarrow> None)"

section \<open>Walking over a text\<close>

definition invalid_code_point :: nat where "invalid_code_point = 2 ^ 32 - 1"

text \<open>
  One step: the function gets the code point and its bytes, and says whether to go on; the result
  is its state and, to go on, the distance walked.
\<close>

definition decode_step ::
    "(nat \<Rightarrow> string \<Rightarrow> 's \<Rightarrow> 's \<times> bool) \<Rightarrow> string \<Rightarrow> string \<Rightarrow> 's \<Rightarrow> ('s \<times> nat option) option" where
  "decode_step f buf s st =
     (case utf8_decode buf of None \<Rightarrow> None
      | Some (n, c, e) \<Rightarrow>
          (let (st, go) = f (if e \<noteq> 0 then invalid_code_point else c) (take (if e \<noteq> 0 then 1 else n) s) st
           in Some (st, if go then Some (if e \<noteq> 0 then 1 else n) else None)))"

lemma decode_step_pos: "decode_step f buf s st = Some (st', Some k) \<Longrightarrow> 0 < k"
  by (auto simp: decode_step_def utf8_decode_def Let_def split: option.splits prod.splits list.splits if_splits)

text \<open>
  The rest of at most three bytes is copied into a zeroed buffer of seven; \<open>left\<close> of them belong
  to the text.
\<close>

function tail_loop :: "(nat \<Rightarrow> string \<Rightarrow> 's \<Rightarrow> 's \<times> bool) \<Rightarrow> string \<Rightarrow> nat \<Rightarrow> 's \<Rightarrow> 's option" where
  "tail_loop f buf left st =
     (case decode_step f buf (take left buf) st of None \<Rightarrow> None
      | Some (st, None) \<Rightarrow> Some st
      | Some (st, Some k) \<Rightarrow> if k < left then tail_loop f (drop k buf) (left - k) st else Some st)"
  by pat_completeness auto

termination
  by (relation "measure (\<lambda>(f, buf, left, st). left)") (auto dest: decode_step_pos)

declare tail_loop.simps [simp del]

definition tail_buffer :: "string \<Rightarrow> string" where
  "tail_buffer s = s @ replicate (7 - length s) (CHR 0x00)"

function for_each_codepoint :: "(nat \<Rightarrow> string \<Rightarrow> 's \<Rightarrow> 's \<times> bool) \<Rightarrow> string \<Rightarrow> 's \<Rightarrow> 's option" where
  "for_each_codepoint f s st =
     (if 4 \<le> length s then
        (case decode_step f s s st of None \<Rightarrow> None
         | Some (st, None) \<Rightarrow> Some st
         | Some (st, Some k) \<Rightarrow> for_each_codepoint f (drop k s) st)
      else if s = [] then Some st
      else tail_loop f (tail_buffer s) (length s) st)"
  by pat_completeness auto

termination
  by (relation "measure (\<lambda>(f, s, st). length s)") (auto dest: decode_step_pos)

declare for_each_codepoint.simps [simp del]

text \<open>Two columns for the wide characters of East Asia and for pictographs, one for the others.\<close>

definition wide :: "nat \<Rightarrow> bool" where
  "wide cp \<longleftrightarrow> 0x1100 \<le> cp \<and>
     (cp \<le> 0x115f \<or> cp = 0x2329 \<or> cp = 0x232a \<or>
      (0x2e80 \<le> cp \<and> cp \<le> 0xa4cf \<and> cp \<noteq> 0x303f) \<or>
      (0xac00 \<le> cp \<and> cp \<le> 0xd7a3) \<or>
      (0xf900 \<le> cp \<and> cp \<le> 0xfaff) \<or>
      (0xfe10 \<le> cp \<and> cp \<le> 0xfe19) \<or>
      (0xfe30 \<le> cp \<and> cp \<le> 0xfe6f) \<or>
      (0xff00 \<le> cp \<and> cp \<le> 0xff60) \<or>
      (0xffe0 \<le> cp \<and> cp \<le> 0xffe6) \<or>
      (0x20000 \<le> cp \<and> cp \<le> 0x2fffd) \<or>
      (0x30000 \<le> cp \<and> cp \<le> 0x3fffd) \<or>
      (0x1f300 \<le> cp \<and> cp \<le> 0x1f64f) \<or>
      (0x1f900 \<le> cp \<and> cp \<le> 0x1f9ff))"

definition count_code_points :: "nat \<Rightarrow> string \<Rightarrow> nat \<Rightarrow> nat \<times> bool" where
  "count_code_points cp sv n = (n + (1 + (if wide cp then 1 else 0)), True)"

definition compute_width :: "string \<Rightarrow> nat" where
  "compute_width s = (case for_each_codepoint count_code_points s 0 of Some n \<Rightarrow> n | None \<Rightarrow> 0)"

text \<open>The index of the \<open>n\<close>-th code point.\<close>

fun index_loop :: "string \<Rightarrow> nat \<Rightarrow> nat \<Rightarrow> nat \<Rightarrow> nat" where
  "index_loop [] i k n = i"
| "index_loop (c # s) i k n =
     (if byte_of c AND 0xc0 \<noteq> 0x80 then (if n < k + 1 then i else index_loop s (i + 1) (k + 1) n)
      else index_loop s (i + 1) k n)"

definition code_point_index :: "string \<Rightarrow> nat \<Rightarrow> nat" where
  "code_point_index s n = index_loop s 0 0 n"

section \<open>What the decoder computes\<close>

lemma bit_below: "b < 2 ^ k \<Longrightarrow> bit b n \<Longrightarrow> n < k" for b :: nat
  using bit_take_bit_iff [of k b n] by (simp add: take_bit_nat_eq_self)

lemma push_or_add: "b < 2 ^ k \<Longrightarrow> push_bit k a OR b = a * 2 ^ k + b" for a b :: nat
proof -
  assume b: "b < 2 ^ k"
  have "push_bit k a + b = push_bit k a OR b"
    using bit_below [OF b] by (intro disjunctive_add) (auto simp: bit_push_bit_iff not_less [symmetric])
  then show ?thesis by (simp add: push_bit_eq_mult)
qed

lemma and_low: "s AND 0x3f = s mod 64" "s AND 0x7f = s mod 128" "s AND 0x1f = s mod 32"
  "s AND 0x0f = s mod 16" "s AND 0x07 = s mod 8" for s :: nat
  using take_bit_eq_mask [of 6 s] take_bit_eq_mask [of 7 s] take_bit_eq_mask [of 5 s]
    take_bit_eq_mask [of 4 s] take_bit_eq_mask [of 3 s]
  by (simp_all add: take_bit_eq_mod mask_eq_exp_minus_1)

lemma and_top:
  fixes s :: nat
  assumes "s < 256"
  shows "s AND 0xc0 = push_bit 6 (s div 64)"
proof (rule bit_eqI)
  fix n
  have "(0xc0 :: nat) = push_bit 6 (mask 2)" by (simp add: push_bit_eq_mult mask_eq_exp_minus_1)
  then have "bit (0xc0 :: nat) n \<longleftrightarrow> 6 \<le> n \<and> n < 8"
    by (simp only: bit_push_bit_iff bit_mask_iff) auto
  moreover have "bit s n \<Longrightarrow> n < 8" using bit_below [of s 8 n] assms by simp
  moreover have "bit (s div 64) (n - 6) \<longleftrightarrow> bit s n" if "6 \<le> n"
    using bit_drop_bit_eq [of 6 s] that by (simp add: drop_bit_eq_div)
  ultimately show "bit (s AND 0xc0) n = bit (push_bit 6 (s div 64)) n"
    by (auto simp: bit_and_iff bit_push_bit_iff)
qed

lemma decode_value_sum:
  "decode_value n s0 s1 s2 s3 =
     ((s0 AND utf8_masks ! n) * 2 ^ 18 + s1 mod 64 * 2 ^ 12 + s2 mod 64 * 2 ^ 6 + s3 mod 64) div 2 ^ (utf8_shiftc ! n)"
proof -
  have a: "s1 mod 64 * 2 ^ 12 + (s2 mod 64 * 2 ^ 6 + s3 mod 64) < 2 ^ 18"
    and b: "s2 mod 64 * 2 ^ 6 + s3 mod 64 < 2 ^ 12" and c: "s3 mod 64 < 2 ^ 6"
    using mod_less_divisor [of 64 s1] mod_less_divisor [of 64 s2] mod_less_divisor [of 64 s3] by simp_all
  show ?thesis
    unfolding decode_value_def and_low
    by (simp only: push_bit_0_id id_apply push_or_add [OF c] push_or_add [OF b] push_or_add [OF a])
      (simp add: drop_bit_eq_div add.assoc)
qed

lemma length_code:
  assumes "b < 256"
  shows "code_point_length_impl b =
    (if b < 128 then 1 else if b < 192 then 0 else if b < 224 then 2 else if b < 240 then 3 else if b < 248 then 4 else 0)"
proof -
  have "list_all (\<lambda>q. [1, 1, 1, 1, 1, 1, 1, 1, 1, 1, 1, 1, 1, 1, 1, 1, 0, 0, 0, 0, 0, 0, 0, 0, 2, 2, 2, 2, 3, 3, 4, 0 :: nat] ! q =
      (if q < 16 then 1 else if q < 24 then 0 else if q < 28 then 2 else if q < 30 then 3 else if q < 31 then 4 else 0)) [0..<32]"
    by code_simp
  moreover have "b div 8 < 32" using assms by simp
  ultimately have "code_point_length_impl b =
      (if b div 8 < 16 then 1 else if b div 8 < 24 then 0 else if b div 8 < 28 then 2 else if b div 8 < 30 then 3 else if b div 8 < 31 then 4 else 0)"
    unfolding code_point_length_impl_def by (simp only: drop_bit_eq_div list_all_iff) simp
  then show ?thesis by auto
qed

lemma xor_zero: "a XOR b = 0 \<longleftrightarrow> a = b" for a b :: nat
  by (auto simp: bit_eq_iff bit_xor_iff)

lemma error_sum:
  assumes "t1 < 4" "t2 < 4" "t3 < 4"
  shows "push_bit 6 (of_bool A) OR push_bit 7 (of_bool B) OR push_bit 8 (of_bool C) OR
      push_bit 4 t1 OR push_bit 2 t2 OR t3 = 64 * (of_bool A + 2 * of_bool B + 4 * of_bool C) + (16 * t1 + 4 * t2 + t3 :: nat)"
proof -
  have o: "push_bit k a OR (push_bit j b OR c) = push_bit j b OR (push_bit k a OR c)" for a b c j k :: nat
    by (simp add: or.left_commute)
  have 1: "push_bit 4 t1 OR push_bit 2 t2 OR t3 = 16 * t1 + 4 * t2 + t3"
    using assms push_or_add [of t3 2 t2] push_or_add [of "t2 * 2 ^ 2 + t3" 4 t1] by (simp add: or.assoc)
  have 2: "16 * t1 + 4 * t2 + t3 < 64" using assms by linarith
  have "push_bit 6 (of_bool A) OR push_bit 7 (of_bool B) OR push_bit 8 (of_bool C) OR (16 * t1 + 4 * t2 + t3) =
      push_bit 8 (of_bool C) OR (push_bit 7 (of_bool B) OR (push_bit 6 (of_bool A) OR (16 * t1 + 4 * t2 + t3)))"
    by (simp only: or.left_commute or.assoc or.commute)
  also have "\<dots> = 64 * (of_bool A + 2 * of_bool B + 4 * of_bool C) + (16 * t1 + 4 * t2 + t3)"
    using 2 push_or_add [of "16 * t1 + 4 * t2 + t3" 6 "of_bool A"]
      push_or_add [of "of_bool A * 2 ^ 6 + (16 * t1 + 4 * t2 + t3)" 7 "of_bool B"]
      push_or_add [of "of_bool B * 2 ^ 7 + (of_bool A * 2 ^ 6 + (16 * t1 + 4 * t2 + t3))" 8 "of_bool C"]
    by (cases A; cases B; cases C) simp_all
  finally show ?thesis by (simp only: 1 or.assoc)
qed

lemma base4_eq: "t < 4 \<Longrightarrow> 4 * x + t = 4 * y + 2 \<longleftrightarrow> x = y \<and> t = 2" for t x y :: nat
  by presburger

lemma digits_of_42:
  fixes h t1 t2 t3 :: nat
  assumes "t1 < 4" "t2 < 4" "t3 < 4"
  defines "X \<equiv> 64 * h + (16 * t1 + 4 * t2 + t3)"
  shows "X div 2 ^ 0 = 42 div 2 ^ 0 \<longleftrightarrow> h = 0 \<and> t1 = 2 \<and> t2 = 2 \<and> t3 = 2"
    "X div 2 ^ 2 = 42 div 2 ^ 2 \<longleftrightarrow> h = 0 \<and> t1 = 2 \<and> t2 = 2"
    "X div 2 ^ 4 = 42 div 2 ^ 4 \<longleftrightarrow> h = 0 \<and> t1 = 2"
    "X div 2 ^ 6 = 42 div 2 ^ 6 \<longleftrightarrow> h = 0"
proof -
  have X2: "X = 4 * (16 * h + 4 * t1 + t2) + t3" and X4: "X = 16 * (4 * h + t1) + (4 * t2 + t3)"
    by (simp_all add: X_def)
  have lt: "4 * t2 + t3 < 16" "16 * t1 + 4 * t2 + t3 < 64" using assms(1-3) by linarith+
  have "X div 4 = 16 * h + 4 * t1 + t2" unfolding X2 using assms(3) by simp
  moreover have "X div 16 = 4 * h + t1" unfolding X4 using lt by simp
  moreover have "X div 64 = h" unfolding X_def using lt by simp
  moreover have e1: "4 * h + t1 = 2 \<longleftrightarrow> h = 0 \<and> t1 = 2" using base4_eq [of t1 h 0] assms(1) by (simp add: numeral_2_eq_2)
  moreover have e2: "16 * h + 4 * t1 + t2 = 10 \<longleftrightarrow> h = 0 \<and> t1 = 2 \<and> t2 = 2"
    using base4_eq [of t2 "4 * h + t1" 2] e1 assms by auto
  moreover have "X = 42 \<longleftrightarrow> h = 0 \<and> t1 = 2 \<and> t2 = 2 \<and> t3 = 2"
    using base4_eq [of t3 "16 * h + 4 * t1 + t2" 10] e2 assms X2 by auto
  ultimately show "X div 2 ^ 0 = 42 div 2 ^ 0 \<longleftrightarrow> h = 0 \<and> t1 = 2 \<and> t2 = 2 \<and> t3 = 2"
    "X div 2 ^ 2 = 42 div 2 ^ 2 \<longleftrightarrow> h = 0 \<and> t1 = 2 \<and> t2 = 2"
    "X div 2 ^ 4 = 42 div 2 ^ 4 \<longleftrightarrow> h = 0 \<and> t1 = 2"
    "X div 2 ^ 6 = 42 div 2 ^ 6 \<longleftrightarrow> h = 0" by simp_all
qed

lemma decode_errors_zero:
  assumes "s1 < 256" "s2 < 256" "s3 < 256" "n \<le> 4"
  shows "decode_errors n c s1 s2 s3 = 0 \<longleftrightarrow>
    n \<noteq> 0 \<and> \<not> c < utf8_mins ! n \<and> c div 2048 \<noteq> 27 \<and> c \<le> 0x10FFFF \<and>
    (2 \<le> n \<longrightarrow> s1 div 64 = 2) \<and> (3 \<le> n \<longrightarrow> s2 div 64 = 2) \<and> (n = 4 \<longrightarrow> s3 div 64 = 2) \<or>
    n = 0 \<and> \<not> c < utf8_mins ! n \<and> c div 2048 \<noteq> 27 \<and> c \<le> 0x10FFFF \<and> s1 div 64 = 2 \<and> s2 div 64 = 2 \<and> s3 div 64 = 2"
proof -
  define h :: nat where "h = of_bool (c < utf8_mins ! n) + 2 * of_bool (drop_bit 11 c = 0x1b) + 4 * of_bool (0x10FFFF < c)"
  have t: "s1 div 64 < 4" "s2 div 64 < 4" "s3 div 64 < 4" using assms by auto
  have d: "drop_bit 2 (s1 AND 0xc0) = push_bit 4 (s1 div 64)" "drop_bit 4 (s2 AND 0xc0) = push_bit 2 (s2 div 64)"
    "drop_bit 6 s3 = s3 div 64"
    by (simp_all only: and_top [OF assms(1)] and_top [OF assms(2)])
      (simp_all add: drop_bit_eq_div push_bit_eq_mult)
  have "decode_errors n c s1 s2 s3 =
      drop_bit (utf8_shifte ! n) ((64 * h + (16 * (s1 div 64) + 4 * (s2 div 64) + s3 div 64)) XOR 42)"
    unfolding decode_errors_def d h_def error_sum [OF t] by simp
  then have e: "decode_errors n c s1 s2 s3 = 0 \<longleftrightarrow>
      (64 * h + (16 * (s1 div 64) + 4 * (s2 div 64) + s3 div 64)) div 2 ^ (utf8_shifte ! n) = 42 div 2 ^ (utf8_shifte ! n)"
    by (simp only: drop_bit_xor xor_zero) (simp only: drop_bit_eq_div)
  have h0: "h = 0 \<longleftrightarrow> \<not> c < utf8_mins ! n \<and> c div 2048 \<noteq> 27 \<and> c \<le> 0x10FFFF"
    by (auto simp: h_def drop_bit_eq_div)
  have sh: "utf8_shifte ! 0 = 0" "utf8_shifte ! 1 = 6" "utf8_shifte ! 2 = 4" "utf8_shifte ! 3 = 2" "utf8_shifte ! 4 = 0"
    by (simp_all add: utf8_shifte_def)
  define t1 t2 t3 where "t1 = s1 div 64" and "t2 = s2 div 64" and "t3 = s3 div 64"
  have b: "t1 < 4" "t2 < 4" "t3 < 4" using t by (simp_all add: t1_def t2_def t3_def)
  note x = digits_of_42 [OF b, of h]
  have "n = 0 \<or> n = 1 \<or> n = 2 \<or> n = 3 \<or> n = 4" using assms(4) by linarith
  then show ?thesis
    unfolding e t1_def [symmetric] t2_def [symmetric] t3_def [symmetric]
    by (elim disjE) (simp_all only: sh x h0, simp_all)
qed

section \<open>The encoding\<close>

definition scalar :: "nat \<Rightarrow> bool" where
  "scalar c \<longleftrightarrow> c < 0x110000 \<and> \<not> (0xD800 \<le> c \<and> c < 0xE000)"

definition utf8_bytes :: "nat \<Rightarrow> nat list" where
  "utf8_bytes c =
     (if c < 0x80 then [c]
      else if c < 0x800 then [0xC0 + c div 64, 0x80 + c mod 64]
      else if c < 0x10000 then [0xE0 + c div 4096, 0x80 + c div 64 mod 64, 0x80 + c mod 64]
      else [0xF0 + c div 262144, 0x80 + c div 4096 mod 64, 0x80 + c div 64 mod 64, 0x80 + c mod 64])"

definition utf8_encode :: "nat \<Rightarrow> string" where
  "utf8_encode c = map char_of (utf8_bytes c)"

lemma surrogate: "c div 2048 = 27 \<longleftrightarrow> 0xD800 \<le> c \<and> c < 0xE000" for c :: nat
proof -
  have "x = 27 \<longleftrightarrow> 27 \<le> x \<and> x < 28" for x :: nat by linarith
  then have "c div 2048 = 27 \<longleftrightarrow> 27 \<le> c div 2048 \<and> c div 2048 < 28" .
  also have "\<dots> \<longleftrightarrow> 0xD800 \<le> c \<and> c < 0xE000"
    by (simp add: less_eq_div_iff_mult_less_eq div_less_iff_less_mult)
  finally show ?thesis .
qed

lemma value_1: "decode_value 1 s0 s1 s2 s3 = s0 mod 128"
  and value_2: "decode_value 2 s0 s1 s2 s3 = s0 mod 32 * 64 + s1 mod 64"
  and value_3: "decode_value 3 s0 s1 s2 s3 = s0 mod 16 * 4096 + s1 mod 64 * 64 + s2 mod 64"
  and value_4: "decode_value 4 s0 s1 s2 s3 = s0 mod 8 * 262144 + s1 mod 64 * 4096 + s2 mod 64 * 64 + s3 mod 64"
  and value_0: "decode_value 0 s0 s1 s2 s3 < 4194304"
proof -
  have b: "s1 mod 64 < 64" "s2 mod 64 < 64" "s3 mod 64 < 64" by simp_all
  have q: "(a * 2 ^ 18 + x * 2 ^ 12 + y * 2 ^ 6 + z) div 2 ^ 18 = a"
    "(a * 2 ^ 18 + x * 2 ^ 12 + y * 2 ^ 6 + z) div 2 ^ 12 = a * 64 + x"
    "(a * 2 ^ 18 + x * 2 ^ 12 + y * 2 ^ 6 + z) div 2 ^ 6 = a * 4096 + x * 64 + y"
    if "x < 64" "y < 64" "z < 64" for a x y z :: nat
  proof -
    have "a * 2 ^ 18 + x * 2 ^ 12 + y * 2 ^ 6 + z = a * 2 ^ 18 + (x * 2 ^ 12 + y * 2 ^ 6 + z)"
      "x * 2 ^ 12 + y * 2 ^ 6 + z < 2 ^ 18"
      "a * 2 ^ 18 + x * 2 ^ 12 + y * 2 ^ 6 + z = (a * 64 + x) * 2 ^ 12 + (y * 2 ^ 6 + z)"
      "y * 2 ^ 6 + z < 2 ^ 12"
      "a * 2 ^ 18 + x * 2 ^ 12 + y * 2 ^ 6 + z = (a * 4096 + x * 64 + y) * 2 ^ 6 + z"
      using that by simp_all
    note e = this
    show "(a * 2 ^ 18 + x * 2 ^ 12 + y * 2 ^ 6 + z) div 2 ^ 18 = a" unfolding e(1) using e(2) by simp
    show "(a * 2 ^ 18 + x * 2 ^ 12 + y * 2 ^ 6 + z) div 2 ^ 12 = a * 64 + x" unfolding e(3) using e(4) by simp
    show "(a * 2 ^ 18 + x * 2 ^ 12 + y * 2 ^ 6 + z) div 2 ^ 6 = a * 4096 + x * 64 + y" unfolding e(5) using that by simp
  qed
  show "decode_value 1 s0 s1 s2 s3 = s0 mod 128"
    unfolding decode_value_sum using q(1) [OF b, of "s0 mod 128"] by (simp add: utf8_masks_def utf8_shiftc_def and_low)
  show "decode_value 2 s0 s1 s2 s3 = s0 mod 32 * 64 + s1 mod 64"
    unfolding decode_value_sum using q(2) [OF b, of "s0 mod 32"] by (simp add: utf8_masks_def utf8_shiftc_def and_low)
  show "decode_value 3 s0 s1 s2 s3 = s0 mod 16 * 4096 + s1 mod 64 * 64 + s2 mod 64"
    unfolding decode_value_sum using q(3) [OF b, of "s0 mod 16"] by (simp add: utf8_masks_def utf8_shiftc_def and_low)
  show "decode_value 4 s0 s1 s2 s3 = s0 mod 8 * 262144 + s1 mod 64 * 4096 + s2 mod 64 * 64 + s3 mod 64"
    unfolding decode_value_sum by (simp add: utf8_masks_def utf8_shiftc_def and_low)
  show "decode_value 0 s0 s1 s2 s3 < 4194304"
    unfolding decode_value_sum using b by (simp add: utf8_masks_def utf8_shiftc_def)
qed

lemma mod_low: "a * m \<le> s \<Longrightarrow> s < a * m + m \<Longrightarrow> s mod m = s - a * m" for s :: nat
proof -
  assume a: "a * m \<le> s" "s < a * m + m"
  then have "s = (s - a * m) + a * m" "s - a * m < m" by simp_all
  then show ?thesis using mod_less [of "s - a * m" m] by (metis mod_mult_self1)
qed

lemma kdiv: "r < m \<Longrightarrow> (k * m + r) div m = k \<and> (k * m + r) mod m = r" for r m :: nat
  by simp

lemma tail_byte: "s div 64 = 2 \<Longrightarrow> s = 128 + s mod 64" for s :: nat
  using div_mult_mod_eq [of s 64] by simp

lemma decode_sound:
  assumes s: "s0 < 256" "s1 < 256" "s2 < 256" "s3 < 256"
  defines "n \<equiv> code_point_length_impl s0"
  defines "c \<equiv> decode_value n s0 s1 s2 s3"
  assumes e: "decode_errors n c s1 s2 s3 = 0"
  shows "scalar c" "take n [s0, s1, s2, s3] = utf8_bytes c" "n \<noteq> 0"
proof -
  have n4: "n \<le> 4" using s(1) by (simp add: n_def length_code)
  have z: "n \<noteq> 0"
  proof
    assume "n = 0"
    then have "c < 4194304" using value_0 by (simp add: c_def)
    then show False using e n4 s \<open>n = 0\<close> decode_errors_zero [of s1 s2 s3 n c] by (auto simp: utf8_mins_def)
  qed
  then have h: "\<not> c < utf8_mins ! n" "c div 2048 \<noteq> 27" "c \<le> 0x10FFFF"
    "2 \<le> n \<longrightarrow> s1 = 128 + s1 mod 64" "3 \<le> n \<longrightarrow> s2 = 128 + s2 mod 64" "n = 4 \<longrightarrow> s3 = 128 + s3 mod 64"
    using e n4 s decode_errors_zero [of s1 s2 s3 n c] by (auto intro!: tail_byte)
  show "scalar c" using h(2,3) surrogate [of c] by (auto simp: scalar_def)
  show "n \<noteq> 0" by (rule z)
  have b: "s1 mod 64 < 64" "s2 mod 64 < 64" "s3 mod 64 < 64" by simp_all
  consider "n = 1" "s0 < 128" | "n = 2" "192 \<le> s0" "s0 < 224" | "n = 3" "224 \<le> s0" "s0 < 240" | "n = 4" "240 \<le> s0" "s0 < 248"
    using z s(1) by (auto simp: n_def length_code split: if_splits)
  then show "take n [s0, s1, s2, s3] = utf8_bytes c"
  proof cases
    case 1
    have "c = s0" using 1 value_1 [of s0 s1 s2 s3] by (simp add: c_def)
    then show ?thesis using 1 by (simp add: utf8_bytes_def)
  next
    case 2
    have c: "c = (s0 - 192) * 64 + s1 mod 64" using 2 mod_low [of 6 32 s0] by (simp add: c_def value_2)
    then have "c div 64 = s0 - 192" "c mod 64 = s1 mod 64" using b by simp_all
    moreover have "128 \<le> c" "c < 2048" using h(1) 2 b(1) c by (simp_all add: utf8_mins_def)
    ultimately show ?thesis using h(4) 2 by (simp add: utf8_bytes_def)
  next
    case 3
    define a where "a = s0 - 224"
    define x y where "x = s1 mod 64" and "y = s2 mod 64"
    have xy: "x < 64" "y < 64" "a < 16" "s0 = 224 + a" using 3 by (simp_all add: x_def y_def a_def)
    have c: "c = a * 4096 + x * 64 + y" using 3 mod_low [of 14 16 s0] by (simp add: c_def value_3 a_def x_def y_def)
    have q1: "c = (a * 64 + x) * 64 + y" and q2: "c = a * 4096 + (x * 64 + y)" using c by simp_all
    have "c mod 64 = y" "c div 64 = a * 64 + x" using kdiv [OF xy(2), of "a * 64 + x"] unfolding q1 by blast+
    moreover have "c div 4096 = a" unfolding q2 using xy by simp
    moreover have "2048 \<le> c" "c < 65536" using h(1) 3 xy c by (simp_all add: utf8_mins_def)
    ultimately show ?thesis using h(4,5) 3 xy by (simp add: utf8_bytes_def x_def y_def)
  next
    case 4
    define a where "a = s0 - 240"
    define x y z where "x = s1 mod 64" and "y = s2 mod 64" and "z = s3 mod 64"
    have xy: "x < 64" "y < 64" "z < 64" "a < 8" "s0 = 240 + a" using 4 by (simp_all add: x_def y_def z_def a_def)
    have c: "c = a * 262144 + x * 4096 + y * 64 + z"
      using 4 mod_low [of 30 8 s0] by (simp add: c_def value_4 a_def x_def y_def z_def)
    have q1: "c = ((a * 64 + x) * 64 + y) * 64 + z" and q2: "c = (a * 64 + x) * 4096 + (y * 64 + z)"
      and q3: "c = a * 262144 + (x * 4096 + y * 64 + z)" using c by simp_all
    have m: "c mod 64 = z" and d: "c div 64 = (a * 64 + x) * 64 + y"
      using kdiv [OF xy(3), of "(a * 64 + x) * 64 + y"] unfolding q1 by blast+
    have d2: "c div 4096 = a * 64 + x" using kdiv [of "y * 64 + z" 4096 "a * 64 + x"] xy unfolding q2 by simp
    have "c div 64 mod 64 = y" "c div 4096 mod 64 = x"
      unfolding d d2 using kdiv [OF xy(2), of "a * 64 + x"] kdiv [OF xy(1), of a] by blast+
    moreover have "c div 262144 = a" using kdiv [of "x * 4096 + y * 64 + z" 262144 a] xy unfolding q3 by simp
    moreover note m
    moreover have "65536 \<le> c" using h(1) 4 by (simp add: utf8_mins_def)
    ultimately show ?thesis using h(4,5,6) 4 xy by (simp add: utf8_bytes_def x_def y_def z_def)
  qed
qed

lemma tail_parts: "r < 64 \<Longrightarrow> (128 + r) div 64 = 2" "r < 64 \<Longrightarrow> (128 + r) mod 64 = r" for r :: nat
proof -
  have "128 + r = r + 2 * 64" by simp
  then show "r < 64 \<Longrightarrow> (128 + r) div 64 = 2" "r < 64 \<Longrightarrow> (128 + r) mod 64 = r"
    by (simp_all only: div_mult_self1 mod_mult_self1) simp_all
qed

lemma decode_complete:
  assumes c: "scalar c" and s: "s1 < 256" "s2 < 256" "s3 < 256"
    and t: "take (length (utf8_bytes c)) [s0, s1, s2, s3] = utf8_bytes c"
  shows "s0 < 256" "code_point_length_impl s0 = length (utf8_bytes c)"
    "decode_value (length (utf8_bytes c)) s0 s1 s2 s3 = c"
    "decode_errors (length (utf8_bytes c)) c s1 s2 s3 = 0"
proof -
  have lim: "c < 1114112" "c div 2048 \<noteq> 27" using c surrogate [of c] by (auto simp: scalar_def)
  define n where "n = length (utf8_bytes c)"
  have ok: "s0 < 256 \<and> code_point_length_impl s0 = n \<and> decode_value n s0 s1 s2 s3 = c \<and> \<not> c < utf8_mins ! n \<and>
      n \<noteq> 0 \<and> n \<le> 4 \<and> (2 \<le> n \<longrightarrow> s1 div 64 = 2) \<and> (3 \<le> n \<longrightarrow> s2 div 64 = 2) \<and> (n = 4 \<longrightarrow> s3 div 64 = 2)"
  proof -
    consider "c < 128" | "128 \<le> c" "c < 2048" | "2048 \<le> c" "c < 65536" | "65536 \<le> c" by linarith
    then show ?thesis
    proof cases
      case 1
      then have "s0 = c" "n = 1" using t by (auto simp: utf8_bytes_def n_def)
      then show ?thesis using 1 value_1 [of c s1 s2 s3] by (simp add: length_code utf8_mins_def)
    next
      case 2
      then have e: "s0 = 192 + c div 64" "s1 = 128 + c mod 64" "n = 2" using t by (auto simp: utf8_bytes_def n_def)
      moreover have "c div 64 < 32" using 2 by (simp add: div_less_iff_less_mult)
      ultimately show ?thesis using 2 mod_low [of 6 32 s0] div_mult_mod_eq [of c 64]
        by (simp add: length_code utf8_mins_def value_2 tail_parts)
    next
      case 3
      then have e: "s0 = 224 + c div 4096" "s1 = 128 + c div 64 mod 64" "s2 = 128 + c mod 64" "n = 3"
        using t by (auto simp: utf8_bytes_def n_def)
      define a x y where "a = c div 4096" and "x = c div 64 mod 64" and "y = c mod 64"
      have "c div 64 = a * 64 + x"
        using div_mult_mod_eq [of "c div 64" 64] by (simp add: a_def x_def div_mult2_eq [symmetric])
      then have c3: "c = a * 4096 + x * 64 + y" using div_mult_mod_eq [of c 64] by (simp add: y_def)
      have xy: "x < 64" "y < 64" "a < 16" using 3 by (simp_all add: a_def x_def y_def div_less_iff_less_mult)
      have e: "s0 = 224 + a" "s1 = 128 + x" "s2 = 128 + y" "n = 3" using e by (simp_all add: a_def x_def y_def)
      show ?thesis using 3(1) xy mod_low [of 14 16 s0] tail_parts [OF xy(1)] tail_parts [OF xy(2)]
        by (simp add: e length_code utf8_mins_def value_3 c3)
    next
      case 4
      then have e: "s0 = 240 + c div 262144" "s1 = 128 + c div 4096 mod 64" "s2 = 128 + c div 64 mod 64"
        "s3 = 128 + c mod 64" "n = 4"
        using t by (auto simp: utf8_bytes_def n_def)
      define a x y z where "a = c div 262144" and "x = c div 4096 mod 64" and "y = c div 64 mod 64" and "z = c mod 64"
      have "c div 64 = c div 4096 * 64 + y" "c div 4096 = a * 64 + x"
        using div_mult_mod_eq [of "c div 64" 64] div_mult_mod_eq [of "c div 4096" 64]
        by (simp_all add: a_def x_def y_def div_mult2_eq [symmetric])
      then have c4: "c = a * 262144 + x * 4096 + y * 64 + z" using div_mult_mod_eq [of c 64] by (simp add: z_def)
      have xy: "x < 64" "y < 64" "z < 64" "a < 8" using lim by (simp_all add: a_def x_def y_def z_def div_less_iff_less_mult)
      have e: "s0 = 240 + a" "s1 = 128 + x" "s2 = 128 + y" "s3 = 128 + z" "n = 4"
        using e by (simp_all add: a_def x_def y_def z_def)
      show ?thesis
        using 4 xy mod_low [of 30 8 s0] tail_parts [OF xy(1)] tail_parts [OF xy(2)] tail_parts [OF xy(3)]
        by (simp add: e length_code utf8_mins_def value_4 c4)
    qed
  qed
  then show "s0 < 256" "code_point_length_impl s0 = length (utf8_bytes c)"
    "decode_value (length (utf8_bytes c)) s0 s1 s2 s3 = c" by (simp_all add: n_def)
  show "decode_errors (length (utf8_bytes c)) c s1 s2 s3 = 0"
    using decode_errors_zero [OF s, of n c] ok lim by (auto simp: n_def)
qed

section \<open>Texts\<close>

lemma byte_of_bound [simp]: "byte_of c < 256"
  using of_char_eq_iff by (simp add: byte_of_def)

lemma char_byte [simp]: "char_of (byte_of c) = c" "b < 256 \<Longrightarrow> byte_of (char_of b) = b"
  by (simp_all add: byte_of_def of_char_of)

lemma utf8_bytes_bound: "scalar c \<Longrightarrow> list_all (\<lambda>b. b < 256) (utf8_bytes c)"
  by (auto simp: utf8_bytes_def scalar_def div_less_iff_less_mult list_all_iff) 

lemma utf8_bytes_tail: "b \<in> set (tl (utf8_bytes c)) \<Longrightarrow> 128 \<le> b"
  by (auto simp: utf8_bytes_def split: if_splits)

lemma utf8_length: "0 < length (utf8_encode c)" "length (utf8_encode c) \<le> 4"
  by (simp_all add: utf8_encode_def utf8_bytes_def)

lemma bytes_encode: "scalar c \<Longrightarrow> map byte_of (utf8_encode c) = utf8_bytes c"
  using utf8_bytes_bound [of c] by (simp add: utf8_encode_def list_all_iff map_idI)

lemma encode_bytes: "map byte_of t = utf8_bytes c \<Longrightarrow> t = utf8_encode c"
proof -
  assume a: "map byte_of t = utf8_bytes c"
  have "t = map char_of (map byte_of t)" by (simp add: comp_def)
  then show ?thesis by (simp add: a utf8_encode_def)
qed

lemma four_chars: "4 \<le> length s \<Longrightarrow> \<exists>a b c d r. s = a # b # c # d # r"
  by (metis Suc_le_length_iff numeral_eq_Suc pred_numeral_simps(2) pred_numeral_simps(3) BitM.simps(1,2) eval_nat_numeral(2,3))

lemma utf8_decode_total:
  assumes "4 \<le> length s"
  obtains n c e where "utf8_decode s = Some (n, c, e)" "0 < n" "n \<le> 4"
proof -
  obtain a b c d r where s: "s = a # b # c # d # r" using four_chars [OF assms] by blast
  have "code_point_length_impl (byte_of a) \<le> 4" by (simp add: length_code)
  then show ?thesis using that by (simp add: utf8_decode_def s Let_def)
qed

lemma utf8_decode_ok_iff:
  assumes "4 \<le> length s"
  shows "utf8_decode s = Some (n, c, 0) \<longleftrightarrow>
    scalar c \<and> n = length (utf8_encode c) \<and> take n s = utf8_encode c"
proof -
  obtain a b d f r where s: "s = a # b # d # f # r" using four_chars [OF assms] by blast
  let ?m = "code_point_length_impl (byte_of a)"
  let ?c = "decode_value ?m (byte_of a) (byte_of b) (byte_of d) (byte_of f)"
  have dec: "utf8_decode s = Some (?m + (if ?m = 0 then 1 else 0), ?c, decode_errors ?m ?c (byte_of b) (byte_of d) (byte_of f))"
    by (simp add: utf8_decode_def s Let_def)
  have four: "[byte_of a, byte_of b, byte_of d, byte_of f] = map byte_of (take 4 s)" by (simp add: s)
  have tk: "take n (map byte_of (take 4 s)) = map byte_of (take n s)" if "n \<le> 4" for n
    using that by (simp add: take_map)
  show ?thesis
  proof
    assume "utf8_decode s = Some (n, c, 0)"
    then have e: "decode_errors ?m ?c (byte_of b) (byte_of d) (byte_of f) = 0" and c: "c = ?c"
      and n: "n = ?m + (if ?m = 0 then 1 else 0)" using dec by auto
    have ds: "scalar c" "take ?m [byte_of a, byte_of b, byte_of d, byte_of f] = utf8_bytes c" "?m \<noteq> 0"
      unfolding c using decode_sound [OF _ _ _ _ e] by simp_all
    have m4: "?m \<le> 4" by (simp add: length_code)
    have "map byte_of (take n s) = utf8_bytes c" using ds(2,3) n tk [OF m4] four by simp
    then have t: "take n s = utf8_encode c" by (rule encode_bytes)
    moreover have "length (take n s) = n" using assms m4 ds(3) n by simp
    ultimately show "scalar c \<and> n = length (utf8_encode c) \<and> take n s = utf8_encode c" using ds(1) by simp
  next
    assume r: "scalar c \<and> n = length (utf8_encode c) \<and> take n s = utf8_encode c"
    have l: "length (utf8_bytes c) = n" using r by (simp add: utf8_encode_def)
    have "map byte_of (take n s) = utf8_bytes c" using r bytes_encode [of c] by metis
    then have t: "take (length (utf8_bytes c)) [byte_of a, byte_of b, byte_of d, byte_of f] = utf8_bytes c"
      unfolding four l using tk utf8_length(2) [of c] r by simp
    show "utf8_decode s = Some (n, c, 0)"
      using decode_complete [OF _ _ _ _ t] r dec utf8_length(1) [of c] by (simp add: l)
  qed
qed

section \<open>The pieces of a text\<close>

definition padded_text :: "string \<Rightarrow> string" where
  "padded_text s = s @ replicate 3 (CHR 0x00)"

text \<open>The next code point and the number of bytes it takes: one byte of a broken encoding at a time.\<close>

definition next_piece :: "string \<Rightarrow> nat \<times> nat" where
  "next_piece s =
     (case utf8_decode (padded_text s) of None \<Rightarrow> (invalid_code_point, 1)
      | Some (n, c, e) \<Rightarrow> if e \<noteq> 0 then (invalid_code_point, 1) else (c, n))"

lemma next_piece_pos: "0 < snd (next_piece s)"
  by (auto simp: next_piece_def utf8_decode_def Let_def split: option.splits prod.splits list.splits if_splits)

function text_pieces :: "string \<Rightarrow> (nat \<times> string) list" where
  "text_pieces s =
     (if s = [] then []
      else let (c, n) = next_piece s in (c, take n s) # text_pieces (drop n s))"
  by pat_completeness auto

termination
proof (relation "measure length", simp)
  fix s x c n
  assume s: "s \<noteq> []" and x: "x = next_piece s" "(c, n) = x"
  have "0 < n" using next_piece_pos [of s] x by (metis snd_conv)
  then show "(drop n s, s) \<in> measure length" using s by simp
qed

declare text_pieces.simps [simp del]

fun run_pieces :: "(nat \<Rightarrow> string \<Rightarrow> 's \<Rightarrow> 's \<times> bool) \<Rightarrow> (nat \<times> string) list \<Rightarrow> 's \<Rightarrow> 's" where
  "run_pieces f [] st = st"
| "run_pieces f ((c, t) # ps) st = (let (st, go) = f c t st in if go then run_pieces f ps st else st)"

lemma take_4_pad: "s \<noteq> [] \<Longrightarrow> take 4 (s @ replicate k z) = take 4 (s @ replicate 3 z)" if "3 \<le> k"
proof -
  assume "s \<noteq> []"
  then have "4 - length s \<le> 3" by (cases s) auto
  then show ?thesis using that by (simp add: min_def)
qed

lemma decode_pad: "s \<noteq> [] \<Longrightarrow> 3 \<le> k \<Longrightarrow> utf8_decode (s @ replicate k (CHR 0x00)) = utf8_decode (padded_text s)"
  using take_4_pad [of k s "CHR 0x00"] by (simp add: utf8_decode_def padded_text_def)

lemma decode_no_pad: "4 \<le> length s \<Longrightarrow> utf8_decode s = utf8_decode (padded_text s)"
  by (simp add: utf8_decode_def padded_text_def)

lemma piece_within:
  assumes s: "s \<noteq> []" and d: "utf8_decode (padded_text s) = Some (n, c, 0)"
  shows "n \<le> length s"
proof (rule ccontr)
  assume n: "\<not> n \<le> length s"
  have l: "4 \<le> length (padded_text s)" using s by (cases s) (auto simp: padded_text_def)
  have e: "scalar c" "n = length (utf8_encode c)" "take n (padded_text s) = utf8_encode c"
    using d utf8_decode_ok_iff [OF l] by auto
  have "utf8_encode c ! length s = padded_text s ! length s" using n e by (metis not_le nth_take)
  also have "\<dots> = CHR 0x00" by (simp add: padded_text_def nth_append)
  finally have z: "utf8_bytes c ! length s = 0"
    using e n bytes_encode [of c] nth_map [of "length s" "utf8_encode c" byte_of] by (simp add: byte_of_def)
  have ls: "0 < length s" "length s < length (utf8_bytes c)" using s n e by (auto simp: utf8_encode_def)
  then have "utf8_bytes c ! length s \<in> set (tl (utf8_bytes c))"
    by (cases "utf8_bytes c"; cases "length s") auto
  then show False using utf8_bytes_tail z by fastforce
qed

lemma step_piece:
  assumes "s \<noteq> []" "utf8_decode buf = utf8_decode (padded_text s)"
  shows "decode_step f buf s st =
    (let (c, n) = next_piece s; (st, go) = f c (take n s) st in Some (st, if go then Some n else None))"
proof -
  have "4 \<le> length (padded_text s)" using assms(1) by (cases s) (auto simp: padded_text_def)
  then obtain n c e where "utf8_decode (padded_text s) = Some (n, c, e)" by (rule utf8_decode_total)
  then show ?thesis by (auto simp: decode_step_def assms(2) next_piece_def split: prod.splits)
qed

lemma next_piece_within: "s \<noteq> [] \<Longrightarrow> snd (next_piece s) \<le> length s"
  using piece_within [of s] by (cases s) (auto simp: next_piece_def split: option.splits prod.splits if_splits)

lemma tail_loop_pieces:
  "s \<noteq> [] \<Longrightarrow> 3 \<le> k \<Longrightarrow>
   tail_loop f (s @ replicate k (CHR 0x00)) (length s) st = Some (run_pieces f (text_pieces s) st)"
proof (induction "length s" arbitrary: s st rule: less_induct)
  case less
  obtain c n where p: "next_piece s = (c, n)" by (cases "next_piece s")
  have n: "0 < n" "n \<le> length s" using next_piece_pos [of s] next_piece_within [OF less.prems(1)] p by auto
  have st: "decode_step f (s @ replicate k (CHR 0x00)) s st =
      (let (st, go) = f c (take n s) st in Some (st, if go then Some n else None))"
    using step_piece [OF less.prems(1) decode_pad [OF less.prems], of f st] by (simp add: p)
  have tp: "text_pieces s = (c, take n s) # text_pieces (drop n s)"
    using less.prems(1) by (subst text_pieces.simps) (simp add: p)
  obtain st' go where f: "f c (take n s) st = (st', go)" by (cases "f c (take n s) st")
  show ?case
  proof (cases "go \<and> n < length s")
    case True
    then have "tail_loop f (drop n s @ replicate k (CHR 0x00)) (length (drop n s)) st' =
        Some (run_pieces f (text_pieces (drop n s)) st')"
      using less.hyps [of "drop n s"] less.prems n by simp
    then show ?thesis using True n by (subst tail_loop.simps) (simp add: st f tp)
  next
    case False
    then have "go \<Longrightarrow> drop n s = []" using n by simp
    then show ?thesis using False by (subst tail_loop.simps) (auto simp: st f tp text_pieces.simps [of "[]"])
  qed
qed

text \<open>The walk visits the pieces in order, whichever loop reads them, and reads no byte it should not.\<close>

lemma walk_pieces: "for_each_codepoint f s st = Some (run_pieces f (text_pieces s) st)"
proof (induction "length s" arbitrary: s st rule: less_induct)
  case less
  show ?case
  proof (cases "4 \<le> length s")
    case False
    show ?thesis
    proof (cases "s = []")
      case True
      then show ?thesis by (simp add: for_each_codepoint.simps [of f "[]"] text_pieces.simps [of "[]"])
    next
      case s: False
      have "tail_loop f (tail_buffer s) (length s) st = Some (run_pieces f (text_pieces s) st)"
        using tail_loop_pieces [OF s, of "7 - length s" f st] False by (simp add: tail_buffer_def)
      then show ?thesis using False s by (simp add: for_each_codepoint.simps [of f s])
    qed
  next
    case True
    then have s: "s \<noteq> []" by auto
    obtain c n where p: "next_piece s = (c, n)" by (cases "next_piece s")
    have n: "0 < n" using next_piece_pos [of s] p by simp
    have st: "decode_step f s s st = (let (st, go) = f c (take n s) st in Some (st, if go then Some n else None))"
      using step_piece [OF s decode_no_pad [OF True], of f st] by (simp add: p)
    have tp: "text_pieces s = (c, take n s) # text_pieces (drop n s)"
      using s by (subst text_pieces.simps) (simp add: p)
    have "length (drop n s) < length s" using n s by simp
    then show ?thesis using less [of "drop n s"] True
      by (subst for_each_codepoint.simps) (auto simp: st tp split: prod.splits)
  qed
qed

lemma pieces_concat: "concat (map snd (text_pieces s)) = s"
proof (induction s rule: text_pieces.induct)
  case (1 s)
  then show ?case by (subst text_pieces.simps) (auto split: prod.splits)
qed

lemma pieces_encode:
  assumes "scalar c"
  shows "text_pieces (utf8_encode c @ s) = (c, utf8_encode c) # text_pieces s"
proof -
  have l: "4 \<le> length (padded_text (utf8_encode c @ s))"
    using utf8_length(1) [of c] unfolding padded_text_def length_append length_replicate by linarith
  have "utf8_decode (padded_text (utf8_encode c @ s)) = Some (length (utf8_encode c), c, 0)"
    using utf8_decode_ok_iff [OF l] assms by (simp add: padded_text_def)
  then have "next_piece (utf8_encode c @ s) = (c, length (utf8_encode c))" by (simp add: next_piece_def)
  then show ?thesis using utf8_length(1) [of c] by (subst text_pieces.simps) auto
qed

lemma pieces_of_text:
  "list_all scalar cs \<Longrightarrow> text_pieces (concat (map utf8_encode cs)) = map (\<lambda>c. (c, utf8_encode c)) cs"
  by (induction cs) (simp_all add: pieces_encode text_pieces.simps [of "[]"])

lemma compute_width_pieces: "compute_width s = (\<Sum>(c, t) \<leftarrow> text_pieces s. 1 + (if wide c then 1 else 0))"
proof -
  have "run_pieces count_code_points ps n = n + (\<Sum>(c, t) \<leftarrow> ps. 1 + (if wide c then 1 else 0))" for ps n
    by (induction ps arbitrary: n) (auto simp: count_code_points_def)
  then show ?thesis by (simp add: compute_width_def walk_pieces)
qed

section \<open>Properties\<close>

text \<open>
  C32: Walking over a text visits its pieces in order, and the pieces put together are the text:
  nothing is skipped, read twice or read past the end, whatever the bytes. The text that encodes a
  sequence of code points is walked as exactly these code points with exactly their bytes, and its
  width is two columns for each wide one and one for each other.
\<close>

theorem code_points_walked:
  assumes "list_all scalar cs"
  shows "for_each_codepoint f s st = Some (run_pieces f (text_pieces s) st) \<and> concat (map snd (text_pieces s)) = s \<and>
    for_each_codepoint f (concat (map utf8_encode cs)) st = Some (run_pieces f (map (\<lambda>c. (c, utf8_encode c)) cs) st) \<and>
    compute_width (concat (map utf8_encode cs)) = (\<Sum>c \<leftarrow> cs. if wide c then 2 else 1)"
proof -
  have w: "(\<Sum>c \<leftarrow> cs. Suc (if wide c then 1 else 0)) = (\<Sum>c \<leftarrow> cs. if wide c then 2 else 1)" for cs
    by (induction cs) auto
  show ?thesis using pieces_of_text [OF assms] w [of cs]
    by (simp add: walk_pieces pieces_concat compute_width_pieces comp_def)
qed

theorem code_points_walked_witness:
  "list_all scalar [0x41, 0x20ac, 0x1f600] \<and>
   compute_width (concat (map utf8_encode [0x41, 0x20ac, 0x1f600])) = 4"
  using code_points_walked [of "[0x41, 0x20ac, 0x1f600]" "\<lambda>c t n. (n, True)" "[]" "0 :: nat"]
  by (simp add: scalar_def wide_def)

end
