(* ===== verification/FmtNum.thy ===== *)
theory FmtNum
  imports FmtCore
begin

text \<open>
  How the formatting library writes integers (\<^verbatim>\<open>src/include/fmt/format.h\<close>): the digit counts by
  table, the digits into a buffer from its end, the sign and base prefix packed into one word, and
  the padding. A buffer is a list of characters; a write in front of it is \<open>None\<close>. What is
  shown: the tables count the decimal digits of every 32-bit and 64-bit value, the buffers are filled
  exactly, and the text of an integer is its digits behind its sign.
\<close>

section \<open>Counting digits\<close>

fun count_loop :: "nat \<Rightarrow> nat \<Rightarrow> nat" where
  "count_loop c n =
     (if n < 10 then c else if n < 100 then c + 1 else if n < 1000 then c + 2
      else if n < 10000 then c + 3 else count_loop (c + 4) (n div 10000))"

declare count_loop.simps [simp del]

definition count_digits_fallback :: "nat \<Rightarrow> nat" where
  "count_digits_fallback n = count_loop 1 n"

text \<open>\<^verbatim>\<open>__builtin_clz\<close> and \<^verbatim>\<open>__builtin_clzll\<close>, which are asked for odd values only.\<close>

fun bit_length :: "nat \<Rightarrow> nat" where
  "bit_length n = (if n = 0 then 0 else Suc (bit_length (n div 2)))"

declare bit_length.simps [simp del]

definition clz :: "nat \<Rightarrow> nat \<Rightarrow> nat" where
  "clz w n = w - bit_length n"

text \<open>The table entries hold the number of digits in the upper half and a threshold below.\<close>

definition fmt_inc :: "nat \<Rightarrow> 64 word" where
  "fmt_inc t = push_bit 32 (word_of_nat (length (show_nat t))) - word_of_nat t"

definition inc_thresholds :: "nat list" where
  "inc_thresholds =
     [0, 0, 0, 10, 10, 10, 100, 100, 100, 1000, 1000, 1000, 10000, 10000, 10000, 100000, 100000, 100000,
      1000000, 1000000, 1000000, 10000000, 10000000, 10000000, 100000000, 100000000, 100000000,
      1000000000, 1000000000, 1000000000, 1000000000, 1000000000]"

definition do_count_digits32 :: "32 word \<Rightarrow> nat" where
  "do_count_digits32 n =
     (let inc = fmt_inc (inc_thresholds ! (clz 32 (unat (n OR 1)) XOR 31))
      in unat (drop_bit 32 (ucast n + inc)))"

definition bsr2log10 :: "nat list" where
  "bsr2log10 =
     [1, 1, 1, 2, 2, 2, 3, 3, 3, 4, 4, 4, 4, 5, 5, 5,
      6, 6, 6, 7, 7, 7, 7, 8, 8, 8, 9, 9, 9, 10, 10, 10,
      10, 11, 11, 11, 12, 12, 12, 13, 13, 13, 13, 14, 14, 14, 15, 15,
      15, 16, 16, 16, 16, 17, 17, 17, 18, 18, 18, 19, 19, 19, 19, 20]"

definition zero_or_powers_of_10 :: "nat list" where
  "zero_or_powers_of_10 =
     [0, 0, 10, 100, 1000, 10000, 100000, 1000000, 10000000, 100000000, 1000000000,
      10000000000, 100000000000, 1000000000000, 10000000000000, 100000000000000, 1000000000000000,
      10000000000000000, 100000000000000000, 1000000000000000000, 10000000000000000000]"

definition do_count_digits64 :: "64 word \<Rightarrow> nat" where
  "do_count_digits64 n =
     (let t = bsr2log10 ! (clz 64 (unat (n OR 1)) XOR 63)
      in t - (if n < word_of_nat (zero_or_powers_of_10 ! t) then 1 else 0))"

text \<open>
  The unsigned type an integer is written as: the smallest of 32, 64 and 128 bits that holds it.
\<close>

datatype fmt_uint = U32 "32 word" | U64 "64 word" | U128 "128 word"

fun uint_nat :: "fmt_uint \<Rightarrow> nat" where
  "uint_nat (U32 n) = unat n" | "uint_nat (U64 n) = unat n" | "uint_nat (U128 n) = unat n"

fun count_digits :: "fmt_uint \<Rightarrow> nat" where
  "count_digits (U32 n) = do_count_digits32 n"
| "count_digits (U64 n) = do_count_digits64 n"
| "count_digits (U128 n) = count_digits_fallback (unat n)"

text \<open>Digits in base \<open>2 ^ b\<close>.\<close>

function count_shifts :: "nat \<Rightarrow> nat \<Rightarrow> nat \<Rightarrow> nat" where
  "count_shifts b c m =
     (if b = 0 \<or> drop_bit b m = 0 then c + 1 else count_shifts b (c + 1) (drop_bit b m))"
  by pat_completeness auto

termination
  by (relation "measure (\<lambda>(b, c, m). m)") (auto simp: drop_bit_eq_div div_greater_zero_iff intro!: div_less_dividend one_less_power intro: gr0I)

declare count_shifts.simps [simp del]

fun count_digits_base :: "nat \<Rightarrow> fmt_uint \<Rightarrow> nat" where
  "count_digits_base b (U32 n) = (clz 32 (unat (n OR 1)) XOR 31) div b + 1"
| "count_digits_base b (U64 n) = count_shifts b 0 (unat n)"
| "count_digits_base b (U128 n) = count_shifts b 0 (unat n)"

section \<open>Digits into a buffer\<close>

definition digits2_table :: string where
  "digits2_table =
     ''0001020304050607080910111213141516171819'' @
     ''2021222324252627282930313233343536373839'' @
     ''4041424344454647484950515253545556575859'' @
     ''6061626364656667686970717273747576777879'' @
     ''8081828384858687888990919293949596979899''"

definition copy2 :: "string \<Rightarrow> nat \<Rightarrow> nat \<Rightarrow> string" where
  "copy2 buf p v = buf[p := digits2_table ! (2 * v), Suc p := digits2_table ! Suc (2 * v)]"

fun dec_loop :: "nat \<Rightarrow> nat \<Rightarrow> string \<Rightarrow> (nat \<times> string) option" where
  "dec_loop v p buf =
     (if 100 \<le> v then
        (if p < 2 then None else dec_loop (v div 100) (p - 2) (copy2 buf (p - 2) (v mod 100)))
      else if v < 10 then
        (if p < 1 then None else Some (p - 1, buf[p - 1 := char_of (48 + v)]))
      else if p < 2 then None else Some (p - 2, copy2 buf (p - 2) v))"

declare dec_loop.simps [simp del]

text \<open>The begin of the digits, and the buffer; they end at \<open>n\<close>.\<close>

definition format_decimal :: "string \<Rightarrow> nat \<Rightarrow> nat \<Rightarrow> (nat \<times> string) option" where
  "format_decimal buf v n = (if length buf < n then None else dec_loop v n buf)"

definition hex_digit :: "bool \<Rightarrow> nat \<Rightarrow> char" where
  "hex_digit upper d = (if upper then ''0123456789ABCDEF'' else ''0123456789abcdef'') ! d"

definition base_digit :: "nat \<Rightarrow> bool \<Rightarrow> nat \<Rightarrow> char" where
  "base_digit b upper d = (if b < 4 then char_of (48 + d) else hex_digit upper d)"

function uint_loop :: "nat \<Rightarrow> bool \<Rightarrow> nat \<Rightarrow> nat \<Rightarrow> string \<Rightarrow> string option" where
  "uint_loop b upper v p buf =
     (if p < 1 then None
      else let buf = buf[p - 1 := base_digit b upper (v AND (2 ^ b - 1))]; v = drop_bit b v
           in if v = 0 then Some buf else uint_loop b upper v (p - 1) buf)"
  by pat_completeness auto

termination
  by (relation "measure (\<lambda>(b, u, v, p, buf). p)") auto

declare uint_loop.simps [simp del]

definition format_uint :: "nat \<Rightarrow> string \<Rightarrow> nat \<Rightarrow> nat \<Rightarrow> bool \<Rightarrow> string option" where
  "format_uint b buf v n upper = (if length buf < n then None else uint_loop b upper v n buf)"

section \<open>The reference: decimal and binary digits\<close>

lemma show_nat_step: "length (show_nat n) = (if n < 10 then 1 else Suc (length (show_nat (n div 10))))"
  by (subst show_nat.simps) simp

lemma digits_le_iff: "length (show_nat n) \<le> Suc d \<longleftrightarrow> n < 10 ^ Suc d"
proof (induction d arbitrary: n)
  case 0
  then show ?case by (subst show_nat_step) (simp add: show_nat_nonempty)
next
  case (Suc d)
  have "n < 10 ^ Suc (Suc d) \<longleftrightarrow> n div 10 < 10 ^ Suc d"
    by (simp add: less_mult_imp_div_less div_less_iff_less_mult mult.commute)
  moreover have "(10 :: nat) \<le> 10 ^ Suc (Suc d)" using power_increasing [of 1 "Suc (Suc d)" "10 :: nat"] by simp
  ultimately show ?case using Suc.IH [of "n div 10"] by (subst show_nat_step) auto
qed

lemma digits_eqI:
  assumes "n < 10 ^ d" "d = 1 \<or> 10 ^ (d - 1) \<le> n" "0 < d"
  shows "length (show_nat n) = d"
proof -
  obtain e where d: "d = Suc e" using assms(3) by (cases d) auto
  have le: "length (show_nat n) \<le> d" using assms(1) by (simp add: d digits_le_iff)
  show ?thesis
  proof (cases e)
    case 0
    then show ?thesis using le d show_nat_nonempty [of n] by (cases "show_nat n") auto
  next
    case (Suc f)
    then have "\<not> length (show_nat n) \<le> e" using assms(2) by (simp add: d digits_le_iff)
    then show ?thesis using le d by simp
  qed
qed

lemma count_loop_digits: "count_loop c n + 1 = c + length (show_nat n)"
proof (induction c n rule: count_loop.induct)
  case (1 c n)
  show ?case
  proof (cases "n < 10000")
    case True
    consider "n < 10" | "10 \<le> n" "n < 100" | "100 \<le> n" "n < 1000" | "1000 \<le> n" by linarith
    then show ?thesis
      using True by cases (simp_all add: count_loop.simps [of c n] digits_eqI [of n 1]
        digits_eqI [of n 2] digits_eqI [of n 3] digits_eqI [of n 4])
  next
    case False
    then have "\<not> n div 1000 < 10" "\<not> n div 100 < 10" "\<not> n div 10 < 10" "\<not> n < 10" by linarith+
    then have "length (show_nat n) = 4 + length (show_nat (n div 10000))"
      by (simp add: show_nat_step [of n] show_nat_step [of "n div 10"] show_nat_step [of "n div 100"]
          show_nat_step [of "n div 1000"] div_mult2_eq [symmetric])
    then show ?thesis using False 1 by (simp add: count_loop.simps [of c n])
  qed
qed

lemma count_digits_fallback: "count_digits_fallback n = length (show_nat n)"
  using count_loop_digits [of 1 n] by (simp add: count_digits_fallback_def)

lemma bit_length_bounds: "0 < n \<Longrightarrow> 2 ^ (bit_length n - 1) \<le> n \<and> n < 2 ^ bit_length n \<and> 0 < bit_length n"
proof (induction n rule: bit_length.induct)
  case (1 n)
  show ?case
  proof (cases "n = 1")
    case True
    have "bit_length 1 = 1" by (simp add: bit_length.simps)
    then show ?thesis using True by simp
  next
    case False
    then have "0 < n div 2" using 1(2) by auto
    then have h: "2 ^ (bit_length (n div 2) - 1) \<le> n div 2" "n div 2 < 2 ^ bit_length (n div 2)"
      "0 < bit_length (n div 2)" using 1 by auto
    obtain k where k: "bit_length (n div 2) = Suc k" using h(3) by (cases "bit_length (n div 2)") auto
    have "bit_length n = Suc (Suc k)" using 1(2) k by (subst bit_length.simps) simp
    then show ?thesis using h(1,2) by (auto simp: k)
  qed
qed

lemma bit_length_le: "n < 2 ^ w \<Longrightarrow> bit_length n \<le> w"
proof (rule ccontr)
  assume n: "n < 2 ^ w" and b: "\<not> bit_length n \<le> w"
  then have "n \<noteq> 0" by (intro notI) (simp add: bit_length.simps [of 0])
  then have "2 ^ (bit_length n - 1) \<le> n" using bit_length_bounds by simp
  moreover have "(2 :: nat) ^ w \<le> 2 ^ (bit_length n - 1)" using b by (intro power_increasing) auto
  ultimately show False using n by linarith
qed

section \<open>The tables count decimal digits\<close>

lemma xor_31: "x < 32 \<Longrightarrow> x XOR 31 = 31 - x" for x :: nat
proof -
  have "list_all (\<lambda>x :: nat. x XOR 31 = 31 - x) [0..<32]" by code_simp
  then show "x < 32 \<Longrightarrow> x XOR 31 = 31 - x" by (simp add: list_all_iff)
qed

lemma xor_63: "x < 64 \<Longrightarrow> x XOR 63 = 63 - x" for x :: nat
proof -
  have "list_all (\<lambda>x :: nat. x XOR 63 = 63 - x) [0..<64]" by code_simp
  then show "x < 64 \<Longrightarrow> x XOR 63 = 63 - x" by (simp add: list_all_iff)
qed

lemma or_1: "n OR Suc 0 = (if even n then n + 1 else n)" for n :: nat
  using or_Suc_0_eq [of n] by simp

lemma top_bit:
  assumes "n < 2 ^ Suc w" and i: "i = w - clz (Suc w) (n OR 1)"
  shows "i < Suc w" "n < 2 ^ Suc i" "i = 0 \<or> 2 ^ i \<le> n" "clz (Suc w) (n OR 1) < Suc w"
proof -
  define k where "k = bit_length (n OR 1)"
  have lt: "n OR 1 < 2 ^ Suc w" using assms(1) by (auto simp: or_1 elim!: evenE)
  then have b: "2 ^ (k - 1) \<le> n OR 1" "n OR 1 < 2 ^ k" "0 < k"  "k \<le> Suc w"
    using bit_length_bounds [of "n OR 1"] bit_length_le [OF lt] by (auto simp: k_def or_1 odd_pos)
  then have e: "i = k - 1" by (simp add: i clz_def k_def)
  then show "i < Suc w" "clz (Suc w) (n OR 1) < Suc w" using b by (auto simp: clz_def k_def)
  have k: "k = Suc i" using e b by simp
  show "n < 2 ^ Suc i" using b k by (simp add: or_1 split: if_splits)
  show "i = 0 \<or> 2 ^ i \<le> n"
  proof (cases i)
    case (Suc j)
    have "n + 1 \<noteq> 2 ^ i" if "even n" using that Suc by (metis even_add even_numeral even_power odd_one zero_less_Suc)
    then show ?thesis using b(1) e by (auto simp: or_1 split: if_splits)
  qed simp
qed

lemma inc_rows:
  assumes "3 \<le> i" "i < 32"
  defines "e \<equiv> min (i div 3) 9"
  shows "inc_thresholds ! i = 10 ^ e" "10 ^ (e - 1) \<le> (2 :: nat) ^ i" "(2 :: nat) ^ Suc i \<le> 10 ^ Suc e"
proof -
  have "\<forall>i \<in> set [3..<32]. inc_thresholds ! i = 10 ^ min (i div 3) 9 \<and>
      10 ^ (min (i div 3) 9 - 1) \<le> (2 :: nat) ^ i \<and> (2 :: nat) ^ Suc i \<le> 10 ^ Suc (min (i div 3) 9)"
    by (simp add: inc_thresholds_def upt_rec_numeral)
  moreover have "i \<in> set [3..<32]" unfolding set_upt atLeastLessThan_iff using assms by blast
  ultimately have r: "inc_thresholds ! i = 10 ^ min (i div 3) 9 \<and>
      10 ^ (min (i div 3) 9 - 1) \<le> (2 :: nat) ^ i \<and> (2 :: nat) ^ Suc i \<le> 10 ^ Suc (min (i div 3) 9)"
    by (rule bspec)
  show "inc_thresholds ! i = 10 ^ e" "10 ^ (e - 1) \<le> (2 :: nat) ^ i" "(2 :: nat) ^ Suc i \<le> 10 ^ Suc e"
    using r unfolding e_def by blast+
qed

definition bsr_row :: "nat \<Rightarrow> nat \<Rightarrow> bool" where
  "bsr_row i t \<longleftrightarrow> 0 < t \<and> t \<le> 20 \<and> zero_or_powers_of_10 ! t = (if t = 1 then 0 else 10 ^ (t - 1)) \<and>
     (i < 3 \<or> 10 ^ (t - 2) \<le> (2 :: nat) ^ i) \<and> (i < 3 \<longrightarrow> t = 1) \<and> (2 :: nat) ^ Suc i \<le> 10 ^ t"

lemma bsr_rows:
  assumes "i < 64"
  shows "bsr_row i (bsr2log10 ! i)"
proof (cases "i < 3")
  case True
  then have "i = 0 \<or> i = 1 \<or> i = 2" by linarith
  then show ?thesis by (auto simp: bsr_row_def bsr2log10_def zero_or_powers_of_10_def)
next
  case False
  have "\<forall>i \<in> set [3..<64]. bsr_row i (bsr2log10 ! i)"
    by (simp add: bsr_row_def bsr2log10_def zero_or_powers_of_10_def upt_rec_numeral)
  moreover have "i \<in> set [3..<64]" unfolding set_upt atLeastLessThan_iff using assms False by linarith
  ultimately show ?thesis by (rule bspec)
qed

lemma index_32: "clz 32 (unat (n OR 1)) XOR 31 = 31 - clz 32 (unat (n OR 1))" for n :: "32 word"
proof -
  have "unat (n OR 1) = unat n OR 1" by (simp add: unsigned_or_eq)
  moreover have "unat n < 2 ^ Suc 31" using unsigned_less [of n] by simp
  ultimately show ?thesis using top_bit(4) [of "unat n" 31, OF _ refl] xor_31 by simp
qed

lemma index_64: "clz 64 (unat (n OR 1)) XOR 63 = 63 - clz 64 (unat (n OR 1))" for n :: "64 word"
proof -
  have "unat (n OR 1) = unat n OR 1" by (simp add: unsigned_or_eq)
  moreover have "unat n < 2 ^ Suc 63" using unsigned_less [of n] by simp
  ultimately show ?thesis using top_bit(4) [of "unat n" 63, OF _ refl] xor_63 by simp
qed

lemma unat_drop_bit_div: "unat (drop_bit k x) = unat x div 2 ^ k"
proof -
  have "unat (drop_bit k x) = drop_bit k (unat x)"
    by (simp only: unsigned_drop_bit_eq) (simp add: take_bit_nat_eq_self)
  then show ?thesis by (simp only: drop_bit_eq_div)
qed

lemma inc_sum:
  assumes "n < 2 ^ 32" "t \<le> 2 ^ 32" "length (show_nat t) = Suc l" "l < 20"
  shows "unat (drop_bit 32 (word_of_nat n + fmt_inc t)) = (if t \<le> n then Suc l else l)"
proof -
  have "word_of_nat n + fmt_inc t = (word_of_nat (n + Suc l * 2 ^ 32 - t) :: 64 word)"
    using assms(2) by (simp add: fmt_inc_def assms(3) push_bit_eq_mult of_nat_diff algebra_simps)
  moreover have "n + Suc l * 2 ^ 32 - t < 2 ^ 64" using assms(1,4) by simp
  ultimately have "unat (drop_bit 32 (word_of_nat n + fmt_inc t)) = (n + Suc l * 2 ^ 32 - t) div 2 ^ 32"
    by (simp only: unat_drop_bit_div) (simp add: unat_of_nat take_bit_nat_eq_self)
  also have "\<dots> = (if t \<le> n then Suc l else l)"
  proof (cases "t \<le> n")
    case True
    then have "n + Suc l * 2 ^ 32 - t = (n - t) + Suc l * 2 ^ 32" by simp
    then show ?thesis using True assms(1) by (simp add: div_less)
  next
    case False
    then have "n + Suc l * 2 ^ 32 - t = (2 ^ 32 - (t - n)) + l * 2 ^ 32" using assms(2) by simp
    moreover have "2 ^ 32 - (t - n) < (2 :: nat) ^ 32" using False assms(2) by simp
    ultimately show ?thesis using False by (simp add: div_less del: power_numeral)
  qed
  finally show ?thesis .
qed

lemma length_show_pow: "length (show_nat (10 ^ d)) = Suc d"
  by (induction d) (subst show_nat_step, simp)+

lemma do_count_digits32: "do_count_digits32 n = length (show_nat (unat n))"
proof -
  define i where "i = 31 - clz 32 (unat n OR 1)"
  have n: "unat n < 2 ^ Suc 31" using unsigned_less [of n] by simp
  have o1: "unat (n OR 1) = unat n OR 1" by (simp add: unsigned_or_eq)
  have w: "(ucast n :: 64 word) = word_of_nat (unat n)" by simp
  have v: "do_count_digits32 n = unat (drop_bit 32 (word_of_nat (unat n) + fmt_inc (inc_thresholds ! i)))"
    unfolding do_count_digits32_def Let_def w index_32 by (simp add: i_def o1)
  have i: "i < 32" "unat n < 2 ^ Suc i" "i = 0 \<or> 2 ^ i \<le> unat n"
    using top_bit [OF n, of i] by (simp_all add: i_def)
  show ?thesis
  proof (cases "i < 3")
    case True
    then have c: "i = 0 \<or> i = 1 \<or> i = 2" by linarith
    then have "unat n < 10 ^ 1" "inc_thresholds ! i = 0" using i by (auto simp: inc_thresholds_def)
    then show ?thesis using inc_sum [of "unat n" 0 0] n digits_eqI [of "unat n" 1] show_nat_step [of 0]
      by (simp add: v)
  next
    case False
    define e where "e = min (i div 3) 9"
    have e: "0 < e" "e \<le> 9" using False by (auto simp: e_def)
    have r: "inc_thresholds ! i = 10 ^ e" "10 ^ (e - 1) \<le> (2 :: nat) ^ i" "(2 :: nat) ^ Suc i \<le> 10 ^ Suc e"
      using inc_rows [of i] False i by (simp_all only: e_def not_less)
    have "(10 :: nat) ^ e \<le> 10 ^ 9" using e by (intro power_increasing) auto
    then have "v \<le> 2 ^ 32" if "v = (10 :: nat) ^ e" for v using that by simp
    then have s: "do_count_digits32 n = (if 10 ^ e \<le> unat n then Suc e else e)"
      unfolding v r(1) using inc_sum [of "unat n" "10 ^ e" e] n e length_show_pow [of e] by simp
    have lo: "10 ^ (e - 1) \<le> unat n" and hi: "unat n < 10 ^ Suc e" using r i False by auto
    show ?thesis using digits_eqI [of "unat n" "Suc e"] digits_eqI [of "unat n" e] lo hi e
      by (cases "10 ^ e \<le> unat n") (simp_all add: s)
  qed
qed

lemma do_count_digits64: "do_count_digits64 n = length (show_nat (unat n))"
proof -
  define i where "i = 63 - clz 64 (unat n OR 1)"
  define t where "t = bsr2log10 ! i"
  have n: "unat n < 2 ^ Suc 63" using unsigned_less [of n] by simp
  have o1: "unat (n OR 1) = unat n OR 1" by (simp add: unsigned_or_eq)
  have i: "i < 64" "unat n < 2 ^ Suc i" "i = 0 \<or> 2 ^ i \<le> unat n"
    using top_bit [OF n, of i] by (simp_all add: i_def)
  have row: "bsr_row i t" using bsr_rows [OF i(1)] by (simp add: t_def)
  have p: "zero_or_powers_of_10 ! t < 2 ^ 64"
  proof -
    have "(10 :: nat) ^ (t - 1) \<le> 10 ^ 19" using row by (intro power_increasing) (auto simp: bsr_row_def)
    then show ?thesis using row by (auto simp: bsr_row_def)
  qed
  have v: "do_count_digits64 n = t - (if unat n < zero_or_powers_of_10 ! t then 1 else 0)"
    unfolding do_count_digits64_def Let_def index_64 
    using p by (simp add: i_def o1 t_def word_less_nat_alt unat_of_nat take_bit_nat_eq_self)
  have hi: "unat n < 10 ^ t" using i row by (auto simp: bsr_row_def)
  show ?thesis
  proof (cases "t = 1")
    case True
    then show ?thesis using hi row digits_eqI [of "unat n" 1] by (simp add: v bsr_row_def)
  next
    case False
    then have "\<not> i < 3" using row by (auto simp: bsr_row_def)
    then have lo: "10 ^ (t - 2) \<le> unat n" using row i by (auto simp: bsr_row_def)
    have q: "zero_or_powers_of_10 ! t = 10 ^ (t - 1)" "1 < t" using row False by (auto simp: bsr_row_def)
    have "t - 1 - 1 = t - 2" by simp
    then show ?thesis using digits_eqI [of "unat n" t] digits_eqI [of "unat n" "t - 1"] lo hi q
      by (cases "unat n < 10 ^ (t - 1)") (simp_all add: v)
  qed
qed

text \<open>Every count is the number of decimal digits.\<close>

lemma count_digits_decimal: "count_digits n = length (show_nat (uint_nat n))"
  by (cases n) (simp_all add: do_count_digits32 do_count_digits64 count_digits_fallback)

section \<open>The buffers hold the digits\<close>

lemma digit_char_mod [simp]: "digit_char (n mod 10) = digit_char n"
  by (simp add: digit_char_def)

lemma nth_pairs:
  "i < length xs \<Longrightarrow> concat (map (\<lambda>v. [f v, g v]) xs) ! (2 * i) = f (xs ! i) \<and>
     concat (map (\<lambda>v. [f v, g v]) xs) ! Suc (2 * i) = g (xs ! i)"
proof (induction xs arbitrary: i)
  case (Cons x xs)
  then show ?case by (cases i) auto
qed simp

lemma digits2_rows:
  assumes "v < 100"
  shows "digits2_table ! (2 * v) = digit_char (v div 10) \<and> digits2_table ! Suc (2 * v) = digit_char v"
proof -
  have "digits2_table = concat (map (\<lambda>v. [digit_char (v div 10), digit_char v]) [0..<100])"
  proof -
    have d: "char_of (48 :: nat) = CHR ''0''" "char_of (49 :: nat) = CHR ''1''" "char_of (50 :: nat) = CHR ''2''"
      "char_of (51 :: nat) = CHR ''3''" "char_of (52 :: nat) = CHR ''4''" "char_of (53 :: nat) = CHR ''5''"
      "char_of (54 :: nat) = CHR ''6''" "char_of (55 :: nat) = CHR ''7''" "char_of (56 :: nat) = CHR ''8''"
      "char_of (57 :: nat) = CHR ''9''"
      by code_simp+
    have "[0..<100] = 0 # 1 # [2..<100]" by (simp add: upt_rec)
    then show ?thesis
      by (simp add: digit_char_def d upt_rec_numeral digits2_table_def)
  qed
  then show ?thesis using assms nth_pairs [of v "[0..<100]" "\<lambda>v. digit_char (v div 10)" digit_char] by simp
qed

lemma update_two:
  "Suc q < length buf \<Longrightarrow> buf[q := a, Suc q := b] = take q buf @ [a, b] @ drop (Suc (Suc q)) buf"
proof (induction q arbitrary: buf)
  case 0
  then show ?case by (cases buf; cases "tl buf") auto
next
  case (Suc q)
  then show ?case by (cases buf) auto
qed

lemma copy2_text:
  "v < 100 \<Longrightarrow> 2 \<le> p \<Longrightarrow> p \<le> length buf \<Longrightarrow>
   copy2 buf (p - 2) v = take (p - 2) buf @ [digit_char (v div 10), digit_char v] @ drop p buf"
  using update_two [of "p - 2" buf "digit_char (v div 10)" "digit_char v"] digits2_rows [of v]
  by (cases p; cases "p - 1") (simp_all add: copy2_def)

lemma show_nat_snoc: "10 \<le> v \<Longrightarrow> show_nat v = show_nat (v div 10) @ [digit_char v]"
  by (subst show_nat.simps) simp

lemma show_nat_single: "v < 10 \<Longrightarrow> show_nat v = [digit_char v]"
  by (subst show_nat.simps) simp

lemma dec_loop_text:
  "length (show_nat v) \<le> p \<Longrightarrow> p \<le> length buf \<Longrightarrow>
   dec_loop v p buf = Some (p - length (show_nat v), take (p - length (show_nat v)) buf @ show_nat v @ drop p buf)"
proof (induction v p buf rule: dec_loop.induct)
  case (1 v p buf)
  consider "v < 10" | "10 \<le> v" "v < 100" | "100 \<le> v" by linarith
  then show ?case
  proof cases
    case 1
    then show ?thesis using "1.prems"
      by (cases p) (auto simp: dec_loop.simps [of v] show_nat_single digit_char_def upd_conv_take_nth_drop)
  next
    case 2
    then show ?thesis using "1.prems"
      by (simp add: dec_loop.simps [of v] show_nat_snoc show_nat_single copy2_text) (simp add: numeral_2_eq_2)
  next
    case 3
    then have s: "show_nat v = show_nat (v div 100) @ [digit_char (v div 10), digit_char v]"
      using show_nat_snoc [of v] show_nat_snoc [of "v div 10"] by (simp add: div_mult2_eq [symmetric])
    let ?b = "copy2 buf (p - 2) (v mod 100)"
    have d: "digit_char (v mod 100 div 10) = digit_char (v div 10)" "digit_char (v mod 100) = digit_char v"
    proof -
      have "v mod 100 = 10 * (v div 10 mod 10) + v mod 10" using mod_mult2_eq [of v 10 10] by simp
      then have "v mod 100 div 10 = v div 10 mod 10" "v mod 100 mod 10 = v mod 10" by simp_all
      then show "digit_char (v mod 100 div 10) = digit_char (v div 10)" "digit_char (v mod 100) = digit_char v"
        by (simp_all add: digit_char_def)
    qed
    have p: "2 \<le> p" using "1.prems" s by simp
    have b: "?b = take (p - 2) buf @ [digit_char (v div 10), digit_char v] @ drop p buf"
      using copy2_text [of "v mod 100" p buf] p "1.prems" d by simp
    have "dec_loop v p buf = dec_loop (v div 100) (p - 2) ?b"
      using 3 p by (simp add: dec_loop.simps [of v])
    also have "\<dots> = Some (p - length (show_nat v), take (p - length (show_nat v)) buf @ show_nat v @ drop p buf)"
      using "1.IH" [OF 3] p "1.prems" by (simp add: s b)
    finally show ?thesis .
  qed
qed

lemma format_decimal_text:
  assumes "length (show_nat v) \<le> n" "n \<le> length buf"
  shows "format_decimal buf v n =
    Some (n - length (show_nat v), take (n - length (show_nat v)) buf @ show_nat v @ drop n buf)"
  using assms dec_loop_text by (simp add: format_decimal_def)

function show_base :: "nat \<Rightarrow> bool \<Rightarrow> nat \<Rightarrow> string" where
  "show_base b u v = (if b = 0 \<or> v < 2 ^ b then [] else show_base b u (v div 2 ^ b)) @ [base_digit b u (v mod 2 ^ b)]"
  by pat_completeness auto

termination
  by (relation "measure (\<lambda>(b, u, v). v)") (auto intro!: div_less_dividend one_less_power intro: gr0I)

declare show_base.simps [simp del]

lemma length_show_base:
  "length (show_base b u v) = (if b = 0 \<or> v < 2 ^ b then 1 else Suc (length (show_base b u (v div 2 ^ b))))"
  by (subst show_base.simps) simp

lemma count_shifts_base: "0 < b \<Longrightarrow> count_shifts b c v = c + length (show_base b u v)"
proof (induction b c v rule: count_shifts.induct)
  case (1 b c v)
  then show ?case
    by (subst count_shifts.simps, subst length_show_base) (auto simp: drop_bit_eq_div div_eq_0_iff)
qed

lemma uint_loop_text:
  "0 < b \<Longrightarrow> length (show_base b u v) \<le> p \<Longrightarrow> p \<le> length buf \<Longrightarrow>
   uint_loop b u v p buf = Some (take (p - length (show_base b u v)) buf @ show_base b u v @ drop p buf)"
proof (induction b u v p buf rule: uint_loop.induct)
  case (1 b u v p buf)
  have p: "1 \<le> p" using "1.prems"(2) by (subst (asm) length_show_base) (auto split: if_splits)
  let ?d = "base_digit b u (v mod 2 ^ b)"
  have m: "v AND (2 ^ b - Suc 0) = v mod 2 ^ b" using take_bit_eq_mask [of b v] by (simp add: take_bit_eq_mod mask_eq_exp_minus_1)
  have upd: "buf[p - 1 := ?d] = take (p - 1) buf @ ?d # drop p buf"
    using p "1.prems"(3) by (simp add: upd_conv_take_nth_drop)
  show ?case
  proof (cases "v < 2 ^ b")
    case True
    then show ?thesis using p upd "1.prems"
      by (subst uint_loop.simps, subst (1 2) show_base.simps) (simp add: m Let_def drop_bit_eq_div)
  next
    case False
    have s: "show_base b u v = show_base b u (v div 2 ^ b) @ [?d]"
      using False "1.prems"(1) by (subst show_base.simps) simp
    have nz: "drop_bit b v \<noteq> 0" using False by (simp add: drop_bit_eq_div div_eq_0_iff)
    have "uint_loop b u v p buf = uint_loop b u (v div 2 ^ b) (p - 1) (take (p - 1) buf @ ?d # drop p buf)"
      using p nz upd by (subst uint_loop.simps) (simp add: m Let_def drop_bit_eq_div)
    also have "\<dots> = Some (take (p - length (show_base b u v)) buf @ show_base b u v @ drop p buf)"
      using "1.IH" [OF _ refl refl] p nz "1.prems" upd by (simp add: s m drop_bit_eq_div)
    finally show ?thesis .
  qed
qed

lemma length_show_base_bits:
  "0 < b \<Longrightarrow> v < 2 ^ Suc i \<Longrightarrow> i = 0 \<or> 2 ^ i \<le> v \<Longrightarrow> length (show_base b u v) = i div b + 1"
proof (induction b u v arbitrary: i rule: show_base.induct)
  case (1 b u v)
  show ?case
  proof (cases "v < 2 ^ b")
    case True
    then have "(2 :: nat) ^ i < 2 ^ b" if "i \<noteq> 0" using that "1.prems"(3) by linarith
    then have "i < b" using "1.prems"(1) by (cases "i = 0") auto
    then show ?thesis using True by (subst length_show_base) simp
  next
    case False
    have "(2 :: nat) ^ b < 2 ^ Suc i" using False "1.prems"(2) by linarith
    then have bi: "b \<le> i" by (metis less_Suc_eq_le power_less_imp_less_exp one_less_numeral_iff semiring_norm(76))
    have up: "v div 2 ^ b < 2 ^ Suc (i - b)"
      using "1.prems"(2) bi by (simp add: div_less_iff_less_mult flip: power_add power_Suc)
    have lo: "i - b = 0 \<or> 2 ^ (i - b) \<le> v div 2 ^ b"
      using "1.prems"(3) bi "1.prems"(1) by (auto simp: less_eq_div_iff_mult_less_eq simp flip: power_add)
    have "length (show_base b u (v div 2 ^ b)) = (i - b) div b + 1"
      using "1.IH" [of "i - b"] False "1.prems"(1) up lo by simp
    then show ?thesis using False "1.prems"(1) bi by (subst length_show_base) (simp add: le_div_geq)
  qed
qed

lemma count_digits_base: "0 < b \<Longrightarrow> count_digits_base b x = length (show_base b u (uint_nat x))"
proof (cases x)
  case (U32 n)
  assume b: "0 < b"
  have n: "unat n < 2 ^ Suc 31" using unsigned_less [of n] by simp
  have o1: "unat (n OR 1) = unat n OR 1" by (simp add: unsigned_or_eq)
  have "count_digits_base b x = (31 - clz 32 (unat n OR 1)) div b + 1"
    unfolding U32 count_digits_base.simps index_32 by (simp add: o1)
  then show ?thesis using length_show_base_bits [OF b] top_bit(2,3) [OF n refl] by (simp add: U32)
qed (simp_all add: count_shifts_base [where u = u])

lemma format_uint_text:
  assumes "0 < b" "n = count_digits_base b x" "n \<le> length buf"
  shows "format_uint b buf (uint_nat x) n u = Some (show_base b u (uint_nat x) @ drop n buf)"
  using assms uint_loop_text [of b u "uint_nat x" n buf] count_digits_base [of b x u]
  by (simp add: format_uint_def)

text \<open>The values of the digits.\<close>

definition base_val :: "nat \<Rightarrow> nat list \<Rightarrow> nat" where
  "base_val b ds = foldl (\<lambda>a d. 2 ^ b * a + d) 0 ds"

definition digit_value :: "char \<Rightarrow> nat" where
  "digit_value c = (let n = of_char c in if n < 58 then n - 48 else if n < 71 then n - 55 else n - 87)"

lemma digit_value_char: "b \<le> 4 \<Longrightarrow> d < 2 ^ b \<Longrightarrow> digit_value (base_digit b u d) = d"
proof -
  assume b: "b \<le> 4" and d: "d < 2 ^ b"
  have "(2 :: nat) ^ b \<le> 2 ^ 4" using b by (intro power_increasing) auto
  then have "d < 16" using d by simp
  moreover have "list_all (\<lambda>d. digit_value (hex_digit True d) = d \<and> digit_value (hex_digit False d) = d) [0..<16]"
    by code_simp
  ultimately have h: "digit_value (hex_digit u d) = d" by (cases u) (auto simp: list_all_iff)
  have "d < 10" if "b < 4"
  proof -
    have "(2 :: nat) ^ b \<le> 2 ^ 3" using that by (intro power_increasing) auto
    then show ?thesis using d by simp
  qed
  then show ?thesis using h by (auto simp: base_digit_def digit_value_def of_char_of)
qed

lemma base_val_show: "0 < b \<Longrightarrow> b \<le> 4 \<Longrightarrow> base_val b (map digit_value (show_base b u v)) = v"
proof (induction b u v rule: show_base.induct)
  case (1 b u v)
  then show ?case
    by (subst show_base.simps) (auto simp: base_val_def digit_value_char div_eq_0_iff)
qed

end
