(* ===== verification/FmtEscape.thy ===== *)
theory FmtEscape
  imports FmtUtf8 FmtNum
begin

text \<open>
  The debug form of texts and characters: which code points are printable (the compressed tables of
  \<^verbatim>\<open>format-inl.h\<close>), which need an escape, and how it is written. The instance is the one of
  a UTF-8 build.
\<close>

section \<open>Printable code points\<close>

text \<open>Pairs of an upper byte and the number of lower bytes listed for it, and runs of alternating kinds.\<close>

definition singletons0 :: "(nat \<times> nat) list" where
  "singletons0 =
     [
      (0x00, 1), (0x03, 5), (0x05, 6), (0x06, 3), (0x07, 6), (0x08, 8), (0x09, 17), (0x0a, 28),
      (0x0b, 25), (0x0c, 20), (0x0d, 16), (0x0e, 13), (0x0f, 4), (0x10, 3), (0x12, 18), (0x13, 9),
      (0x16, 1), (0x17, 5), (0x18, 2), (0x19, 3), (0x1a, 7), (0x1c, 2), (0x1d, 1), (0x1f, 22),
      (0x20, 3), (0x2b, 3), (0x2c, 2), (0x2d, 11), (0x2e, 1), (0x30, 3), (0x31, 2), (0x32, 1),
      (0xa7, 2), (0xa9, 2), (0xaa, 4), (0xab, 8), (0xfa, 2), (0xfb, 5), (0xfd, 4), (0xfe, 3), (0xff, 9)]"

definition singletons1 :: "(nat \<times> nat) list" where
  "singletons1 =
     [
      (0x00, 6), (0x01, 1), (0x03, 1), (0x04, 2), (0x08, 8), (0x09, 2), (0x0a, 5), (0x0b, 2), (0x0e, 4),
      (0x10, 1), (0x11, 2), (0x12, 5), (0x13, 17), (0x14, 1), (0x15, 2), (0x17, 2), (0x19, 13),
      (0x1c, 5), (0x1d, 8), (0x24, 1), (0x6a, 3), (0x6b, 2), (0xbc, 2), (0xd1, 2), (0xd4, 12),
      (0xd5, 9), (0xd6, 2), (0xd7, 2), (0xda, 1), (0xe0, 5), (0xe1, 2), (0xe8, 2), (0xee, 32),
      (0xf0, 4), (0xf8, 2), (0xf9, 2), (0xfa, 2), (0xfb, 1)]"

definition singletons0_lower :: "nat list" where
  "singletons0_lower =
     [
      0xad, 0x78, 0x79, 0x8b, 0x8d, 0xa2, 0x30, 0x57, 0x58, 0x8b, 0x8c, 0x90, 0x1c, 0x1d, 0xdd, 0x0e,
      0x0f, 0x4b, 0x4c, 0xfb, 0xfc, 0x2e, 0x2f, 0x3f, 0x5c, 0x5d, 0x5f, 0xb5, 0xe2, 0x84, 0x8d, 0x8e,
      0x91, 0x92, 0xa9, 0xb1, 0xba, 0xbb, 0xc5, 0xc6, 0xc9, 0xca, 0xde, 0xe4, 0xe5, 0xff, 0x00, 0x04,
      0x11, 0x12, 0x29, 0x31, 0x34, 0x37, 0x3a, 0x3b, 0x3d, 0x49, 0x4a, 0x5d, 0x84, 0x8e, 0x92, 0xa9,
      0xb1, 0xb4, 0xba, 0xbb, 0xc6, 0xca, 0xce, 0xcf, 0xe4, 0xe5, 0x00, 0x04, 0x0d, 0x0e, 0x11, 0x12,
      0x29, 0x31, 0x34, 0x3a, 0x3b, 0x45, 0x46, 0x49, 0x4a, 0x5e, 0x64, 0x65, 0x84, 0x91, 0x9b, 0x9d,
      0xc9, 0xce, 0xcf, 0x0d, 0x11, 0x29, 0x45, 0x49, 0x57, 0x64, 0x65, 0x8d, 0x91, 0xa9, 0xb4, 0xba,
      0xbb, 0xc5, 0xc9, 0xdf, 0xe4, 0xe5, 0xf0, 0x0d, 0x11, 0x45, 0x49, 0x64, 0x65, 0x80, 0x84, 0xb2,
      0xbc, 0xbe, 0xbf, 0xd5, 0xd7, 0xf0, 0xf1, 0x83, 0x85, 0x8b, 0xa4, 0xa6, 0xbe, 0xbf, 0xc5, 0xc7,
      0xce, 0xcf, 0xda, 0xdb, 0x48, 0x98, 0xbd, 0xcd, 0xc6, 0xce, 0xcf, 0x49, 0x4e, 0x4f, 0x57, 0x59,
      0x5e, 0x5f, 0x89, 0x8e, 0x8f, 0xb1, 0xb6, 0xb7, 0xbf, 0xc1, 0xc6, 0xc7, 0xd7, 0x11, 0x16, 0x17,
      0x5b, 0x5c, 0xf6, 0xf7, 0xfe, 0xff, 0x80, 0x0d, 0x6d, 0x71, 0xde, 0xdf, 0x0e, 0x0f, 0x1f, 0x6e,
      0x6f, 0x1c, 0x1d, 0x5f, 0x7d, 0x7e, 0xae, 0xaf, 0xbb, 0xbc, 0xfa, 0x16, 0x17, 0x1e, 0x1f, 0x46,
      0x47, 0x4e, 0x4f, 0x58, 0x5a, 0x5c, 0x5e, 0x7e, 0x7f, 0xb5, 0xc5, 0xd4, 0xd5, 0xdc, 0xf0, 0xf1,
      0xf5, 0x72, 0x73, 0x8f, 0x74, 0x75, 0x96, 0x2f, 0x5f, 0x26, 0x2e, 0x2f, 0xa7, 0xaf, 0xb7, 0xbf,
      0xc7, 0xcf, 0xd7, 0xdf, 0x9a, 0x40, 0x97, 0x98, 0x30, 0x8f, 0x1f, 0xc0, 0xc1, 0xce, 0xff, 0x4e,
      0x4f, 0x5a, 0x5b, 0x07, 0x08, 0x0f, 0x10, 0x27, 0x2f, 0xee, 0xef, 0x6e, 0x6f, 0x37, 0x3d, 0x3f,
      0x42, 0x45, 0x90, 0x91, 0xfe, 0xff, 0x53, 0x67, 0x75, 0xc8, 0xc9, 0xd0, 0xd1, 0xd8, 0xd9, 0xe7,
      0xfe, 0xff]"

definition singletons1_lower :: "nat list" where
  "singletons1_lower =
     [
      0x0c, 0x27, 0x3b, 0x3e, 0x4e, 0x4f, 0x8f, 0x9e, 0x9e, 0x9f, 0x06, 0x07, 0x09, 0x36, 0x3d, 0x3e,
      0x56, 0xf3, 0xd0, 0xd1, 0x04, 0x14, 0x18, 0x36, 0x37, 0x56, 0x57, 0x7f, 0xaa, 0xae, 0xaf, 0xbd,
      0x35, 0xe0, 0x12, 0x87, 0x89, 0x8e, 0x9e, 0x04, 0x0d, 0x0e, 0x11, 0x12, 0x29, 0x31, 0x34, 0x3a,
      0x45, 0x46, 0x49, 0x4a, 0x4e, 0x4f, 0x64, 0x65, 0x5c, 0xb6, 0xb7, 0x1b, 0x1c, 0x07, 0x08, 0x0a,
      0x0b, 0x14, 0x17, 0x36, 0x39, 0x3a, 0xa8, 0xa9, 0xd8, 0xd9, 0x09, 0x37, 0x90, 0x91, 0xa8, 0x07,
      0x0a, 0x3b, 0x3e, 0x66, 0x69, 0x8f, 0x92, 0x6f, 0x5f, 0xee, 0xef, 0x5a, 0x62, 0x9a, 0x9b, 0x27,
      0x28, 0x55, 0x9d, 0xa0, 0xa1, 0xa3, 0xa4, 0xa7, 0xa8, 0xad, 0xba, 0xbc, 0xc4, 0x06, 0x0b, 0x0c,
      0x15, 0x1d, 0x3a, 0x3f, 0x45, 0x51, 0xa6, 0xa7, 0xcc, 0xcd, 0xa0, 0x07, 0x19, 0x1a, 0x22, 0x25,
      0x3e, 0x3f, 0xc5, 0xc6, 0x04, 0x20, 0x23, 0x25, 0x26, 0x28, 0x33, 0x38, 0x3a, 0x48, 0x4a, 0x4c,
      0x50, 0x53, 0x55, 0x56, 0x58, 0x5a, 0x5c, 0x5e, 0x60, 0x63, 0x65, 0x66, 0x6b, 0x73, 0x78, 0x7d,
      0x7f, 0x8a, 0xa4, 0xaa, 0xaf, 0xb0, 0xc0, 0xd0, 0xae, 0xaf, 0x79, 0xcc, 0x6e, 0x6f, 0x93]"

definition normal0 :: "nat list" where
  "normal0 =
     [
      0x00, 0x20, 0x5f, 0x22, 0x82, 0xdf, 0x04, 0x82, 0x44, 0x08, 0x1b, 0x04, 0x06, 0x11, 0x81, 0xac,
      0x0e, 0x80, 0xab, 0x35, 0x28, 0x0b, 0x80, 0xe0, 0x03, 0x19, 0x08, 0x01, 0x04, 0x2f, 0x04, 0x34,
      0x04, 0x07, 0x03, 0x01, 0x07, 0x06, 0x07, 0x11, 0x0a, 0x50, 0x0f, 0x12, 0x07, 0x55, 0x07, 0x03,
      0x04, 0x1c, 0x0a, 0x09, 0x03, 0x08, 0x03, 0x07, 0x03, 0x02, 0x03, 0x03, 0x03, 0x0c, 0x04, 0x05,
      0x03, 0x0b, 0x06, 0x01, 0x0e, 0x15, 0x05, 0x3a, 0x03, 0x11, 0x07, 0x06, 0x05, 0x10, 0x07, 0x57,
      0x07, 0x02, 0x07, 0x15, 0x0d, 0x50, 0x04, 0x43, 0x03, 0x2d, 0x03, 0x01, 0x04, 0x11, 0x06, 0x0f,
      0x0c, 0x3a, 0x04, 0x1d, 0x25, 0x5f, 0x20, 0x6d, 0x04, 0x6a, 0x25, 0x80, 0xc8, 0x05, 0x82, 0xb0,
      0x03, 0x1a, 0x06, 0x82, 0xfd, 0x03, 0x59, 0x07, 0x15, 0x0b, 0x17, 0x09, 0x14, 0x0c, 0x14, 0x0c,
      0x6a, 0x06, 0x0a, 0x06, 0x1a, 0x06, 0x59, 0x07, 0x2b, 0x05, 0x46, 0x0a, 0x2c, 0x04, 0x0c, 0x04,
      0x01, 0x03, 0x31, 0x0b, 0x2c, 0x04, 0x1a, 0x06, 0x0b, 0x03, 0x80, 0xac, 0x06, 0x0a, 0x06, 0x21,
      0x3f, 0x4c, 0x04, 0x2d, 0x03, 0x74, 0x08, 0x3c, 0x03, 0x0f, 0x03, 0x3c, 0x07, 0x38, 0x08, 0x2b,
      0x05, 0x82, 0xff, 0x11, 0x18, 0x08, 0x2f, 0x11, 0x2d, 0x03, 0x20, 0x10, 0x21, 0x0f, 0x80, 0x8c,
      0x04, 0x82, 0x97, 0x19, 0x0b, 0x15, 0x88, 0x94, 0x05, 0x2f, 0x05, 0x3b, 0x07, 0x02, 0x0e, 0x18,
      0x09, 0x80, 0xb3, 0x2d, 0x74, 0x0c, 0x80, 0xd6, 0x1a, 0x0c, 0x05, 0x80, 0xff, 0x05, 0x80, 0xdf,
      0x0c, 0xee, 0x0d, 0x03, 0x84, 0x8d, 0x03, 0x37, 0x09, 0x81, 0x5c, 0x14, 0x80, 0xb8, 0x08, 0x80,
      0xcb, 0x2a, 0x38, 0x03, 0x0a, 0x06, 0x38, 0x08, 0x46, 0x08, 0x0c, 0x06, 0x74, 0x0b, 0x1e, 0x03,
      0x5a, 0x04, 0x59, 0x09, 0x80, 0x83, 0x18, 0x1c, 0x0a, 0x16, 0x09, 0x4c, 0x04, 0x80, 0x8a, 0x06,
      0xab, 0xa4, 0x0c, 0x17, 0x04, 0x31, 0xa1, 0x04, 0x81, 0xda, 0x26, 0x07, 0x0c, 0x05, 0x05, 0x80,
      0xa5, 0x11, 0x81, 0x6d, 0x10, 0x78, 0x28, 0x2a, 0x06, 0x4c, 0x04, 0x80, 0x8d, 0x04, 0x80, 0xbe,
      0x03, 0x1b, 0x03, 0x0f, 0x0d]"

definition normal1 :: "nat list" where
  "normal1 =
     [
      0x5e, 0x22, 0x7b, 0x05, 0x03, 0x04, 0x2d, 0x03, 0x66, 0x03, 0x01, 0x2f, 0x2e, 0x80, 0x82, 0x1d,
      0x03, 0x31, 0x0f, 0x1c, 0x04, 0x24, 0x09, 0x1e, 0x05, 0x2b, 0x05, 0x44, 0x04, 0x0e, 0x2a, 0x80,
      0xaa, 0x06, 0x24, 0x04, 0x24, 0x04, 0x28, 0x08, 0x34, 0x0b, 0x01, 0x80, 0x90, 0x81, 0x37, 0x09,
      0x16, 0x0a, 0x08, 0x80, 0x98, 0x39, 0x03, 0x63, 0x08, 0x09, 0x30, 0x16, 0x05, 0x21, 0x03, 0x1b,
      0x05, 0x01, 0x40, 0x38, 0x04, 0x4b, 0x05, 0x2f, 0x04, 0x0a, 0x07, 0x09, 0x07, 0x40, 0x20, 0x27,
      0x04, 0x0c, 0x09, 0x36, 0x03, 0x3a, 0x05, 0x1a, 0x07, 0x04, 0x0c, 0x07, 0x50, 0x49, 0x37, 0x33,
      0x0d, 0x33, 0x07, 0x2e, 0x08, 0x0a, 0x81, 0x26, 0x52, 0x4e, 0x28, 0x08, 0x2a, 0x56, 0x1c, 0x14,
      0x17, 0x09, 0x4e, 0x04, 0x1e, 0x0f, 0x43, 0x0e, 0x19, 0x07, 0x0a, 0x06, 0x48, 0x08, 0x27, 0x09,
      0x75, 0x0b, 0x3f, 0x41, 0x2a, 0x06, 0x3b, 0x05, 0x0a, 0x06, 0x51, 0x06, 0x01, 0x05, 0x10, 0x03,
      0x05, 0x80, 0x8b, 0x62, 0x1e, 0x48, 0x08, 0x0a, 0x80, 0xa6, 0x5e, 0x22, 0x45, 0x0b, 0x0a, 0x06,
      0x0d, 0x13, 0x39, 0x07, 0x0a, 0x36, 0x2c, 0x04, 0x10, 0x80, 0xc0, 0x3c, 0x64, 0x53, 0x0c, 0x48,
      0x09, 0x0a, 0x46, 0x45, 0x1b, 0x48, 0x08, 0x53, 0x1d, 0x39, 0x81, 0x07, 0x46, 0x0a, 0x1d, 0x03,
      0x47, 0x49, 0x37, 0x03, 0x0e, 0x08, 0x0a, 0x06, 0x39, 0x07, 0x0a, 0x81, 0x36, 0x19, 0x80, 0xb7,
      0x01, 0x0f, 0x32, 0x0d, 0x83, 0x9b, 0x66, 0x75, 0x0b, 0x80, 0xc4, 0x8a, 0xbc, 0x84, 0x2f, 0x8f,
      0xd1, 0x82, 0x47, 0xa1, 0xb9, 0x82, 0x39, 0x07, 0x2a, 0x04, 0x02, 0x60, 0x26, 0x0a, 0x46, 0x0a,
      0x28, 0x05, 0x13, 0x82, 0xb0, 0x5b, 0x65, 0x4b, 0x04, 0x39, 0x07, 0x11, 0x40, 0x05, 0x0b, 0x02,
      0x0e, 0x97, 0xf8, 0x08, 0x84, 0xd6, 0x2a, 0x09, 0xa2, 0xf7, 0x81, 0x1f, 0x31, 0x03, 0x11, 0x04,
      0x08, 0x81, 0x8c, 0x89, 0x04, 0x6b, 0x05, 0x0d, 0x03, 0x09, 0x07, 0x10, 0x93, 0x60, 0x80, 0xf6,
      0x0a, 0x73, 0x08, 0x6e, 0x17, 0x46, 0x80, 0x9a, 0x14, 0x0c, 0x57, 0x09, 0x19, 0x80, 0x87, 0x81,
      0x47, 0x03, 0x85, 0x42, 0x0f, 0x15, 0x85, 0x50, 0x2b, 0x80, 0xd5, 0x2d, 0x03, 0x1a, 0x04, 0x02,
      0x81, 0x70, 0x3a, 0x05, 0x01, 0x85, 0x00, 0x80, 0xd7, 0x29, 0x4c, 0x04, 0x0a, 0x04, 0x02, 0x83,
      0x11, 0x44, 0x4c, 0x3d, 0x80, 0xc2, 0x3c, 0x06, 0x01, 0x04, 0x55, 0x05, 0x1b, 0x34, 0x02, 0x81,
      0x0e, 0x2c, 0x04, 0x64, 0x0c, 0x56, 0x0a, 0x80, 0xae, 0x38, 0x1d, 0x0d, 0x2c, 0x04, 0x09, 0x07,
      0x02, 0x0e, 0x06, 0x80, 0x9a, 0x83, 0xd8, 0x08, 0x0d, 0x03, 0x0d, 0x03, 0x74, 0x0c, 0x59, 0x07,
      0x0c, 0x14, 0x0c, 0x04, 0x38, 0x08, 0x0a, 0x06, 0x28, 0x08, 0x22, 0x4e, 0x81, 0x54, 0x0c, 0x15,
      0x03, 0x03, 0x05, 0x07, 0x09, 0x19, 0x07, 0x07, 0x09, 0x03, 0x0d, 0x07, 0x29, 0x80, 0xcb, 0x25,
      0x0a, 0x84, 0x06]"

fun singleton_hit :: "nat \<Rightarrow> (nat \<times> nat) list \<Rightarrow> nat list \<Rightarrow> nat \<Rightarrow> bool" where
  "singleton_hit x [] lowers start = False"
| "singleton_hit x ((u, k) # ss) lowers start =
     (if drop_bit 8 x < u then False
      else if drop_bit 8 x = u \<and> (x AND 0xff) \<in> set (take k (drop start lowers)) then True
      else singleton_hit x ss lowers (start + k))"

fun normal_loop :: "int \<Rightarrow> bool \<Rightarrow> nat list \<Rightarrow> bool" where
  "normal_loop x current [] = current"
| "normal_loop x current [v] = (if x - int v < 0 then current else \<not> current)"
| "normal_loop x current (v # w # vs) =
     (if v AND 0x80 \<noteq> 0 then
        (let y = x - int (push_bit 8 (v AND 0x7f) OR w) in if y < 0 then current else normal_loop y (\<not> current) vs)
      else (let y = x - int v in if y < 0 then current else normal_loop y (\<not> current) (w # vs)))"

definition is_printable16 :: "nat \<Rightarrow> (nat \<times> nat) list \<Rightarrow> nat list \<Rightarrow> nat list \<Rightarrow> bool" where
  "is_printable16 x singletons lowers normal =
     (\<not> singleton_hit x singletons lowers 0 \<and> normal_loop (int x) True normal)"

definition is_printable :: "nat \<Rightarrow> bool" where
  "is_printable cp =
     (let lower = take_bit 16 cp
      in if cp < 0x10000 then is_printable16 lower singletons0 singletons0_lower normal0
         else if cp < 0x20000 then is_printable16 lower singletons1 singletons1_lower normal1
         else if 0x2a6de \<le> cp \<and> cp < 0x2a700 then False
         else if 0x2b735 \<le> cp \<and> cp < 0x2b740 then False
         else if 0x2b81e \<le> cp \<and> cp < 0x2b820 then False
         else if 0x2cea2 \<le> cp \<and> cp < 0x2ceb0 then False
         else if 0x2ebe1 \<le> cp \<and> cp < 0x2f800 then False
         else if 0x2fa1e \<le> cp \<and> cp < 0x30000 then False
         else if 0x3134b \<le> cp \<and> cp < 0xe0100 then False
         else if 0xe01f0 \<le> cp \<and> cp < 0x110000 then False
         else cp < 0x110000)"

definition needs_escape :: "nat \<Rightarrow> bool" where
  "needs_escape cp \<longleftrightarrow> cp < 0x20 \<or> cp = 0x7f \<or> cp = 0x22 \<or> cp = 0x5c \<or> \<not> is_printable cp"

section \<open>Escapes\<close>

text \<open>
  The begin and the end of the first code point that needs an escape, and the code point; the end is
  null when there is none.
\<close>

definition find_escape_step ::
    "nat \<Rightarrow> string \<Rightarrow> nat \<times> (nat \<times> nat option \<times> nat) \<Rightarrow> (nat \<times> (nat \<times> nat option \<times> nat)) \<times> bool" where
  "find_escape_step cp sv st =
     (if needs_escape cp then ((fst st, (fst st, Some (fst st + length sv), cp)), False)
      else ((fst st + length sv, snd st), True))"

definition find_escape :: "string \<Rightarrow> nat \<times> nat option \<times> nat" where
  "find_escape s =
     (case for_each_codepoint find_escape_step s (0, (length s, None, 0)) of
        Some r \<Rightarrow> snd r | None \<Rightarrow> (length s, None, 0))"

definition BACKSLASH :: char where "BACKSLASH = CHR 0x5C"
definition DQUOTE :: char where "DQUOTE = CHR 0x22"
definition SQUOTE :: char where "SQUOTE = CHR 0x27"

definition write_codepoint :: "nat \<Rightarrow> char \<Rightarrow> nat \<Rightarrow> string option" where
  "write_codepoint w prefix cp =
     map_option (\<lambda>buf. BACKSLASH # prefix # buf) (format_uint 4 (replicate w (CHR ''0'')) cp w False)"

fun write_bytes_escaped :: "string \<Rightarrow> string option" where
  "write_bytes_escaped [] = Some []"
| "write_bytes_escaped (c # s) =
     (case write_codepoint 2 (CHR ''x'') (byte_of c AND 0xff) of None \<Rightarrow> None
      | Some t \<Rightarrow> map_option (append t) (write_bytes_escaped s))"

definition write_escaped_cp :: "nat \<Rightarrow> string \<Rightarrow> string option" where
  "write_escaped_cp cp bytes =
     (if cp = 0x0a then Some [BACKSLASH, CHR ''n'']
      else if cp = 0x0d then Some [BACKSLASH, CHR ''r'']
      else if cp = 0x09 then Some [BACKSLASH, CHR ''t'']
      else if cp = 0x22 \<or> cp = 0x27 \<or> cp = 0x5c then Some [BACKSLASH, char_of cp]
      else if cp < 0x100 then write_codepoint 2 (CHR ''x'') cp
      else if cp < 0x10000 then write_codepoint 4 (CHR ''u'') cp
      else if cp < 0x110000 then write_codepoint 8 (CHR ''U'') cp
      else write_bytes_escaped bytes)"

lemma find_escape_end:
  assumes "find_escape s = (i, Some j, cp)" "s \<noteq> []"
  shows "0 < j"
proof -
  have inv: "snd (run_pieces find_escape_step ps (p, (n, None, 0))) = (i, Some j, cp) \<Longrightarrow>
      (\<forall>x \<in> set ps. snd x \<noteq> []) \<Longrightarrow> p < j" for ps p n
  proof (induction ps arbitrary: p)
    case (Cons x ps)
    obtain c t where x: "x = (c, t)" by (cases x)
    show ?case using Cons.prems Cons.IH [of "p + length t"]
      by (auto simp: x find_escape_step_def split: if_splits)
  qed simp
  have "\<forall>x \<in> set (text_pieces s). snd x \<noteq> []"
  proof (induction s rule: text_pieces.induct)
    case (1 s)
    show ?case
    proof (cases "s = []")
      case False
      obtain c n where p: "next_piece s = (c, n)" by (cases "next_piece s")
      have "0 < n" using next_piece_pos [of s] p by simp
      then show ?thesis using 1 [OF False] False by (subst text_pieces.simps) (auto simp: p)
    qed (simp add: text_pieces.simps [of "[]"])
  qed
  then show ?thesis using assms(1) inv [of "text_pieces s" 0 "length s"] by (simp add: find_escape_def walk_pieces)
qed

function escape_loop :: "string \<Rightarrow> string option" where
  "escape_loop s =
     (case find_escape s of
        (i, None, cp) \<Rightarrow> Some (take i s)
      | (i, Some j, cp) \<Rightarrow>
          (case write_escaped_cp cp (take (j - i) (drop i s)) of None \<Rightarrow> None
           | Some t \<Rightarrow>
               if drop j s = [] then Some (take i s @ t)
               else map_option (\<lambda>r. take i s @ t @ r) (escape_loop (drop j s))))"
  by pat_completeness auto

termination
  by (relation "measure length") (auto dest!: sym [of _ "find_escape _"] dest: find_escape_end)

declare escape_loop.simps [simp del]

definition write_escaped_string :: "string \<Rightarrow> string option" where
  "write_escaped_string s = map_option (\<lambda>t. DQUOTE # t @ [DQUOTE]) (escape_loop s)"

definition write_escaped_char :: "char \<Rightarrow> string option" where
  "write_escaped_char v =
     map_option (\<lambda>t. SQUOTE # t @ [SQUOTE])
       (if needs_escape (byte_of v) \<and> v \<noteq> DQUOTE \<or> v = SQUOTE then write_escaped_cp (byte_of v) [v] else Some [v])"

end
