(* ===== verification/FmtWrite.thy ===== *)
theory FmtWrite
  imports FmtEscape
begin

text \<open>
  How the formatting library writes one argument, with specifiers (\<open>write_arg\<close>) and without
  (\<open>write_default\<close>). A write yields the number of characters it reserves in the output and the
  characters it puts there. What the locale says about digit groups is an argument, and so is the
  writing of the digits of a floating-point value. \<^verbatim>\<open>char\<close> is unsigned, as on the ARM boards of
  the program.
\<close>

type_synonym piece = "nat \<times> string"

section \<open>Padding\<close>

definition fill_text :: "nat \<Rightarrow> string \<Rightarrow> string" where
  "fill_text n f = (if length f = 1 then replicate n (f ! 0) else concat (replicate n f))"

fun align_code :: "fmt_align \<Rightarrow> nat" where
  "align_code Align_none = 0"
| "align_code Align_left = 1"
| "align_code Align_right = 2"
| "align_code Align_center = 3"
| "align_code Align_numeric = 4"

text \<open>The padding left of the text is the whole padding shifted right by a character of this text.\<close>

definition padding_shifts :: "fmt_align \<Rightarrow> nat list" where
  "padding_shifts a = (if a = Align_left then [31, 31, 0, 1, 0] else [0, 31, 0, 1, 0])"

definition write_padded :: "fmt_align \<Rightarrow> 'a fmt_specs_scheme \<Rightarrow> nat \<Rightarrow> nat \<Rightarrow> string \<Rightarrow> piece" where
  "write_padded a specs sz width text =
     (let spec_width = nat (sp_width specs);
          padding = (if width < spec_width then spec_width - width else 0);
          left = drop_bit (padding_shifts a ! align_code (sp_align specs)) padding;
          right = padding - left
      in (sz + padding * length (sp_fill specs),
          fill_text left (sp_fill specs) @ text @ fill_text right (sp_fill specs)))"

definition write_bytes :: "fmt_align \<Rightarrow> string \<Rightarrow> 'a fmt_specs_scheme \<Rightarrow> piece" where
  "write_bytes a s specs = write_padded a specs (length s) (length s) s"

section \<open>Integers\<close>

fun digits10 :: "fmt_uint \<Rightarrow> nat" where
  "digits10 (U32 _) = 9" | "digits10 (U64 _) = 19" | "digits10 (U128 _) = 38"

fun num_bits :: "fmt_uint \<Rightarrow> nat" where
  "num_bits (U32 _) = 32" | "num_bits (U64 _) = 64" | "num_bits (U128 _) = 128"

definition decimal_text :: "fmt_uint \<Rightarrow> nat \<Rightarrow> string option" where
  "decimal_text x n =
     (case format_decimal (replicate (digits10 x + 1) (CHR 0x00)) (uint_nat x) n of
        None \<Rightarrow> None | Some (b, buf) \<Rightarrow> Some (take n buf))"

definition base_text :: "nat \<Rightarrow> fmt_uint \<Rightarrow> nat \<Rightarrow> bool \<Rightarrow> string option" where
  "base_text b x n upper =
     map_option (take n) (format_uint b (replicate (num_bits x div b + 1) (CHR 0x00)) (uint_nat x) n upper)"

definition from_option :: "'a option \<Rightarrow> 'a fmt" where
  "from_option r = (case r of None \<Rightarrow> Inl Fmt_undefined | Some x \<Rightarrow> Inr x)"

text \<open>The prefix: up to three characters, the first in the low byte, and their number in the top byte.\<close>

fun prefix_chars :: "nat \<Rightarrow> string" where
  "prefix_chars p = (if p = 0 then [] else char_of (p mod 256) # prefix_chars (p div 256))"

declare prefix_chars.simps [simp del]

definition prefix_text :: "u32 \<Rightarrow> string" where
  "prefix_text p = prefix_chars (unat (p AND 0xffffff))"

definition prefix_size :: "u32 \<Rightarrow> nat" where
  "prefix_size p = unat (drop_bit 24 p)"

definition prefix_append :: "u32 \<Rightarrow> u32 \<Rightarrow> u32" where
  "prefix_append p v =
     (p OR (if p \<noteq> 0 then push_bit 8 v else v)) + push_bit 24 (1 + (if 0xff < v then 1 else 0))"

definition sign_prefix :: "bool \<Rightarrow> fmt_sign \<Rightarrow> u32" where
  "sign_prefix neg s =
     (if neg then 0x01000000 OR 0x2d
      else case s of Sign_plus \<Rightarrow> 0x01000000 OR 0x2b | Sign_space \<Rightarrow> 0x01000000 OR 0x20 | _ \<Rightarrow> 0)"

definition write_int_data :: "nat \<Rightarrow> u32 \<Rightarrow> 'a fmt_specs_scheme \<Rightarrow> nat \<times> nat" where
  "write_int_data n p specs =
     (let sz = prefix_size p + n
      in if sp_align specs = Align_numeric then
           (let width = nat (sp_width specs) in if sz < width then (width, width - sz) else (sz, 0))
         else if int n < sp_precision specs then
           (prefix_size p + nat (sp_precision specs), nat (sp_precision specs - int n))
         else (sz, 0))"

definition write_int_digits :: "nat \<Rightarrow> u32 \<Rightarrow> 'a fmt_specs_scheme \<Rightarrow> string \<Rightarrow> piece" where
  "write_int_digits n p specs digits =
     (if sp_width specs OR (sp_precision specs + 1) = 0 then
        (n + prefix_size p, (if p \<noteq> 0 then prefix_text p else []) @ digits)
      else
        (let (sz, padding) = write_int_data n p specs
         in write_padded Align_right specs sz sz
              (prefix_text p @ replicate padding (CHR ''0'') @ digits)))"

section \<open>Characters\<close>

definition check_char_specs :: "'a fmt_specs_scheme \<Rightarrow> bool fmt" where
  "check_char_specs specs =
     (if sp_type specs \<notin> {P_none, P_chr, P_debug} then Inr False
      else if sp_align specs = Align_numeric \<or> sp_sign specs \<noteq> Sign_none \<or> sp_alt specs
      then Inl Invalid_char_specifier
      else Inr True)"

definition write_char :: "char \<Rightarrow> 'a fmt_specs_scheme \<Rightarrow> piece fmt" where
  "write_char c specs =
     fmt_bind (from_option (if sp_type specs = P_debug then write_escaped_char c else Some [c])) (\<lambda>t.
     Inr (write_padded Align_left specs 1 1 t))"

section \<open>Integers by presentation\<close>

definition write_int_value :: "fmt_uint \<Rightarrow> u32 \<Rightarrow> 'a fmt_specs_scheme \<Rightarrow> piece fmt" where
  "write_int_value x p specs =
     (let based = (\<lambda>b upper p.
        (let n = count_digits_base b x
         in fmt_bind (from_option (base_text b x n upper)) (\<lambda>t. Inr (write_int_digits n p specs t))));
        low = (\<lambda>c. prefix_append p (push_bit 8 c OR 0x30))
      in case sp_type specs of
        P_none \<Rightarrow> (let n = count_digits x in fmt_bind (from_option (decimal_text x n)) (\<lambda>t. Inr (write_int_digits n p specs t)))
      | P_dec \<Rightarrow> (let n = count_digits x in fmt_bind (from_option (decimal_text x n)) (\<lambda>t. Inr (write_int_digits n p specs t)))
      | P_hex_lower \<Rightarrow> based 4 False (if sp_alt specs then low 0x78 else p)
      | P_hex_upper \<Rightarrow> based 4 True (if sp_alt specs then low 0x58 else p)
      | P_bin_lower \<Rightarrow> based 1 False (if sp_alt specs then low 0x62 else p)
      | P_bin_upper \<Rightarrow> based 1 False (if sp_alt specs then low 0x42 else p)
      | P_oct \<Rightarrow>
          based 3 False
            (if sp_alt specs \<and> sp_precision specs \<le> int (count_digits_base 3 x) \<and> uint_nat x \<noteq> 0
             then prefix_append p 0x30 else p)
      | P_chr \<Rightarrow> write_char (char_of (uint_nat x mod 256)) specs
      | _ \<Rightarrow> Inl Invalid_specifier)"

text \<open>Digit groups: the sizes from the right, the last repeated, and the separator.\<close>

record digit_grouping =
  dg_grouping :: "nat list"
  dg_thousands_sep :: string

definition CHAR_MAX :: nat where "CHAR_MAX = 255"

definition next_sep :: "digit_grouping \<Rightarrow> nat list \<times> nat \<Rightarrow> nat \<times> (nat list \<times> nat)" where
  "next_sep g st =
     (if dg_thousands_sep g = [] then (INT_MAX, st)
      else case fst st of
        [] \<Rightarrow> (let i = snd st + last (dg_grouping g) in (i, ([], i)))
      | x # xs \<Rightarrow>
          if x = 0 \<or> x = CHAR_MAX then (INT_MAX, st) else (let i = snd st + x in (i, (xs, i))))"

text \<open>The positions below \<open>n\<close>; a grouping that does not advance would keep the source in its loop.\<close>

function sep_positions :: "digit_grouping \<Rightarrow> nat list \<times> nat \<Rightarrow> nat \<Rightarrow> nat list" where
  "sep_positions g st n =
     (let (i, st') = next_sep g st
      in if n \<le> i \<or> snd st' \<le> snd st then [] else i # sep_positions g st' n)"
  by pat_completeness auto

termination
  by (relation "measure (\<lambda>(g, st, n). n - snd st)")
    (auto simp: next_sep_def Let_def split: if_splits list.splits)

declare sep_positions.simps [simp del]

definition count_separators :: "digit_grouping \<Rightarrow> nat \<Rightarrow> nat" where
  "count_separators g n = length (sep_positions g (dg_grouping g, 0) n)"

fun apply_loop :: "string \<Rightarrow> string \<Rightarrow> nat list \<Rightarrow> string" where
  "apply_loop sep [] ss = []"
| "apply_loop sep (d # ds) [] = d # apply_loop sep ds []"
| "apply_loop sep (d # ds) (s # ss) =
     (if length (d # ds) = s then sep @ d # apply_loop sep ds ss else d # apply_loop sep ds (s # ss))"

definition apply_grouping :: "digit_grouping \<Rightarrow> string \<Rightarrow> string" where
  "apply_grouping g digits =
     apply_loop (dg_thousands_sep g) digits (rev (0 # sep_positions g (dg_grouping g, 0) (length digits)))"

fun widen :: "fmt_uint \<Rightarrow> fmt_uint" where
  "widen (U32 n) = U64 (ucast n)" | "widen x = x"

definition write_grouped :: "fmt_uint \<Rightarrow> u32 \<Rightarrow> 'a fmt_specs_scheme \<Rightarrow> digit_grouping \<Rightarrow> piece fmt" where
  "write_grouped x p specs g =
     (let v = widen x; n = count_digits v
      in fmt_bind (from_option (map_option (\<lambda>r. take n (snd r))
           (format_decimal (replicate 40 (CHR 0x00)) (uint_nat v) n))) (\<lambda>digits.
         (let sz = (if p \<noteq> 0 then 1 else 0) + n + count_separators g n
          in Inr (write_padded Align_right specs sz sz
               ((if p \<noteq> 0 then [char_of (unat (p AND 0xff))] else []) @ apply_grouping g digits)))))"

definition write_integer :: "digit_grouping \<Rightarrow> fmt_uint \<Rightarrow> bool \<Rightarrow> 'a fmt_specs_scheme \<Rightarrow> piece fmt" where
  "write_integer g x neg specs =
     (let p = sign_prefix neg (sp_sign specs)
      in if sp_localized specs then write_grouped x p specs g else write_int_value x p specs)"

text \<open>The absolute value in the unsigned type, and whether the value is negative.\<close>

fun int_parts :: "'f fmt_arg \<Rightarrow> (fmt_uint \<times> bool) option" where
  "int_parts (Arg_int w) = Some (if sint w < 0 then (U32 (0 - w), True) else (U32 w, False))"
| "int_parts (Arg_uint w) = Some (U32 w, False)"
| "int_parts (Arg_long_long w) = Some (if sint w < 0 then (U64 (0 - w), True) else (U64 w, False))"
| "int_parts (Arg_ulong_long w) = Some (U64 w, False)"
| "int_parts (Arg_int128 w) = Some (if sint w < 0 then (U128 (0 - w), True) else (U128 w, False))"
| "int_parts (Arg_uint128 w) = Some (U128 w, False)"
| "int_parts _ = None"

section \<open>Texts, addresses, truth values\<close>

definition write_view :: "string \<Rightarrow> 'a fmt_specs_scheme \<Rightarrow> piece fmt" where
  "write_view s specs =
     (let sz = (if 0 \<le> sp_precision specs \<and> nat (sp_precision specs) < length s
                  then code_point_index s (nat (sp_precision specs)) else length s);
          debug = (sp_type specs = P_debug)
      in fmt_bind (from_option (if debug then write_escaped_string s else Some (take sz s))) (\<lambda>t.
         (let width = (if sp_width specs \<noteq> 0 then (if debug then length t else compute_width (take sz s)) else 0)
          in Inr (write_padded Align_left specs sz width t))))"

definition write_ptr :: "64 word \<Rightarrow> 'a fmt_specs_scheme \<Rightarrow> piece fmt" where
  "write_ptr v specs =
     (let n = count_digits_base 4 (U64 v); sz = n + 2
      in fmt_bind (from_option (base_text 4 (U64 v) n False)) (\<lambda>t.
         Inr (write_padded Align_right specs sz sz (''0x'' @ t))))"

definition write_bool :: "digit_grouping \<Rightarrow> bool \<Rightarrow> 'a fmt_specs_scheme \<Rightarrow> piece fmt" where
  "write_bool g b specs =
     (if sp_type specs \<noteq> P_none \<and> sp_type specs \<noteq> P_string
      then write_integer g (U32 (if b then 1 else 0)) False specs
      else Inr (write_bytes Align_left (if b then ''true'' else ''false'') specs))"

section \<open>Floating-point values\<close>

datatype float_format = Float_general | Float_exp | Float_fixed | Float_hex

record float_specs =
  fs_precision :: int
  fs_format :: float_format
  fs_sign :: fmt_sign
  fs_upper :: bool
  fs_locale :: bool
  fs_binary32 :: bool
  fs_showpoint :: bool

definition float_specs0 :: float_specs where
  "float_specs0 = \<lparr>fs_precision = 0, fs_format = Float_general, fs_sign = Sign_none, fs_upper = False,
     fs_locale = False, fs_binary32 = False, fs_showpoint = False\<rparr>"

definition parse_float_type_spec :: "'a fmt_specs_scheme \<Rightarrow> float_specs fmt" where
  "parse_float_type_spec specs =
     (let r = float_specs0\<lparr>fs_locale := sp_localized specs, fs_showpoint := sp_alt specs\<rparr>;
          point = (sp_alt specs \<or> sp_precision specs \<noteq> 0)
      in case sp_type specs of
        P_none \<Rightarrow> Inr r
      | P_general_upper \<Rightarrow> Inr (r\<lparr>fs_upper := True\<rparr>)
      | P_general_lower \<Rightarrow> Inr r
      | P_exp_upper \<Rightarrow> Inr (r\<lparr>fs_upper := True, fs_format := Float_exp, fs_showpoint := point\<rparr>)
      | P_exp_lower \<Rightarrow> Inr (r\<lparr>fs_format := Float_exp, fs_showpoint := point\<rparr>)
      | P_fixed_upper \<Rightarrow> Inr (r\<lparr>fs_upper := True, fs_format := Float_fixed, fs_showpoint := point\<rparr>)
      | P_fixed_lower \<Rightarrow> Inr (r\<lparr>fs_format := Float_fixed, fs_showpoint := point\<rparr>)
      | P_hexfloat_upper \<Rightarrow> Inr (r\<lparr>fs_upper := True, fs_format := Float_hex\<rparr>)
      | P_hexfloat_lower \<Rightarrow> Inr (r\<lparr>fs_format := Float_hex\<rparr>)
      | _ \<Rightarrow> Inl Invalid_specifier)"

text \<open>
  The digits of a value in a format are the argument \<open>fl\<close>; without specifiers it gets none.
\<close>

type_synonym 'f float_writer = "'f \<Rightarrow> (fmt_specs \<times> float_specs) option \<Rightarrow> piece fmt"

definition write_float :: "'f float_writer \<Rightarrow> 'f \<Rightarrow> 'a fmt_specs_scheme \<Rightarrow> piece fmt" where
  "write_float fl v specs =
     fmt_bind (parse_float_type_spec specs) (\<lambda>fs. fl v (Some (fmt_specs.truncate specs, fs)))"

section \<open>One argument\<close>

definition write_char_arg :: "digit_grouping \<Rightarrow> char \<Rightarrow> 'a fmt_specs_scheme \<Rightarrow> piece fmt" where
  "write_char_arg g c specs =
     fmt_bind (check_char_specs specs) (\<lambda>is_char.
       if is_char then write_char c specs
       else write_integer g (U32 (word_of_nat (byte_of c))) False specs)"

fun write_arg :: "'f float_writer \<Rightarrow> digit_grouping \<Rightarrow> 'f fmt_arg \<Rightarrow> 'a fmt_specs_scheme \<Rightarrow> piece fmt" where
  "write_arg fl g (Arg_bool b) specs = write_bool g b specs"
| "write_arg fl g (Arg_char c) specs = write_char_arg g c specs"
| "write_arg fl g (Arg_float v) specs = write_float fl v specs"
| "write_arg fl g (Arg_double v) specs = write_float fl v specs"
| "write_arg fl g (Arg_long_double v) specs = write_float fl v specs"
| "write_arg fl g (Arg_cstring a s) specs =
     (if sp_type specs \<noteq> P_pointer then (if a = 0 then Inl Fmt_undefined else write_view s specs)
      else write_ptr a specs)"
| "write_arg fl g (Arg_string s) specs = write_view s specs"
| "write_arg fl g (Arg_pointer a) specs = write_ptr a specs"
| "write_arg fl g a specs =
     (case int_parts a of None \<Rightarrow> Inl Fmt_undefined | Some (x, neg) \<Rightarrow> write_integer g x neg specs)"

definition write_default_int :: "fmt_uint \<Rightarrow> bool \<Rightarrow> piece fmt" where
  "write_default_int x neg =
     (let n = count_digits x
      in fmt_bind (from_option (decimal_text x n)) (\<lambda>t.
         Inr ((if neg then 1 else 0) + n, (if neg then ''-'' else []) @ t)))"

fun write_default :: "'f float_writer \<Rightarrow> digit_grouping \<Rightarrow> 'f fmt_arg \<Rightarrow> piece fmt" where
  "write_default fl g (Arg_bool b) = write_bool g b specs0"
| "write_default fl g (Arg_char c) = Inr (1, [c])"
| "write_default fl g (Arg_float v) = fl v None"
| "write_default fl g (Arg_double v) = fl v None"
| "write_default fl g (Arg_long_double v) = fl v None"
| "write_default fl g (Arg_cstring a s) = (if a = 0 then Inl Null_string else Inr (length s, s))"
| "write_default fl g (Arg_string s) = Inr (length s, s)"
| "write_default fl g (Arg_pointer a) = write_ptr a specs0"
| "write_default fl g a =
     (case int_parts a of None \<Rightarrow> Inl Fmt_undefined | Some (x, neg) \<Rightarrow> write_default_int x neg)"

end
