(* ===== verification/FmtParse.thy ===== *)
theory FmtParse
  imports FmtWrite
begin

text \<open>
  Reading a format string (\<^verbatim>\<open>src/include/fmt/core.h\<close>): numbers, argument ids, specifiers,
  replacement fields, and the two loops over the whole string, the plain one for short strings
  and the one that searches for braces for long strings. Positions in the string are suffixes of it. What
  a replacement field means is a handler, a record of functions on a state; a handler's
  \<^verbatim>\<open>on_format_specs\<close> says how far it has read.
\<close>

section \<open>Numbers\<close>

fun nonnegative_loop :: "string \<Rightarrow> u32 \<Rightarrow> u32 \<Rightarrow> nat \<Rightarrow> nat \<Rightarrow> u32 \<times> u32 \<times> nat \<times> nat \<times> string" where
  "nonnegative_loop (c # s) value prev n dig =
     (if is_digit c
      then nonnegative_loop s (value * 10 + word_of_nat (byte_of c - 48)) value (n + 1) (byte_of c - 48)
      else (value, prev, n, dig, c # s))"
| "nonnegative_loop [] value prev n dig = (value, prev, n, dig, [])"

text \<open>
  The number at the front of a text that begins with a digit, and the rest. The value wraps in
  32 bits; with ten digits the one before the last digit decides in 64 bits whether it fits.
\<close>

definition parse_nonnegative_int :: "string \<Rightarrow> int \<Rightarrow> int \<times> string" where
  "parse_nonnegative_int s error_value =
     (let (value, prev, n, dig, r) = nonnegative_loop s 0 0 0 0
      in (if n \<le> 9 then sint value
          else if n = 10 \<and> (ucast prev :: 64 word) * 10 + word_of_nat dig \<le> word_of_nat INT_MAX
          then sint value else error_value, r))"

section \<open>Argument ids\<close>

datatype arg_id = Id_auto | Id_index int | Id_name string

definition is_name_start :: "char \<Rightarrow> bool" where
  "is_name_start c \<longleftrightarrow>
     (97 \<le> byte_of c \<and> byte_of c \<le> 122) \<or> (65 \<le> byte_of c \<and> byte_of c \<le> 90) \<or> c = CHR ''_''"

definition is_name_char :: "char \<Rightarrow> bool" where
  "is_name_char c \<longleftrightarrow> is_name_start c \<or> is_digit c"

definition do_parse_arg_id :: "string \<Rightarrow> (arg_id \<times> string) fmt" where
  "do_parse_arg_id s =
     (let c = hd s
      in if is_digit c then
           (let (i, r) = (if c \<noteq> CHR ''0'' then parse_nonnegative_int s (int INT_MAX) else (0, tl s))
            in if r = [] \<or> hd r \<noteq> RBRACE \<and> hd r \<noteq> CHR '':'' then Inl Invalid_format_string
               else Inr (Id_index i, r))
         else if \<not> is_name_start c then Inl Invalid_format_string
         else Inr (Id_name (c # takeWhile is_name_char (tl s)), dropWhile is_name_char (tl s)))"

definition parse_arg_id :: "string \<Rightarrow> (arg_id \<times> string) fmt" where
  "parse_arg_id s =
     (if hd s \<noteq> RBRACE \<and> hd s \<noteq> CHR '':'' then do_parse_arg_id s else Inr (Id_auto, s))"

text \<open>
  The parse context: the next automatic id, negative once an id was given by hand. The check at
  compile time knows the kinds of the arguments as well.
\<close>

record parse_ctx =
  pc_next :: int
  pc_types :: "fmt_type list option"

definition do_check_arg_id :: "parse_ctx \<Rightarrow> int \<Rightarrow> unit fmt" where
  "do_check_arg_id ctx i =
     (case pc_types ctx of None \<Rightarrow> Inr () | Some ts \<Rightarrow> guard (i < int (length ts)) Argument_not_found)"

definition next_arg_id :: "parse_ctx \<Rightarrow> (int \<times> parse_ctx) fmt" where
  "next_arg_id ctx =
     (if pc_next ctx < 0 then Inl Manual_to_automatic
      else fmt_bind (do_check_arg_id ctx (pc_next ctx)) (\<lambda>_. Inr (pc_next ctx, ctx\<lparr>pc_next := pc_next ctx + 1\<rparr>)))"

definition check_arg_id :: "parse_ctx \<Rightarrow> int \<Rightarrow> parse_ctx fmt" where
  "check_arg_id ctx i =
     (if 0 < pc_next ctx then Inl Automatic_to_manual
      else fmt_bind (do_check_arg_id ctx i) (\<lambda>_. Inr (ctx\<lparr>pc_next := -1\<rparr>)))"

definition check_dynamic_spec :: "parse_ctx \<Rightarrow> int \<Rightarrow> unit fmt" where
  "check_dynamic_spec ctx i =
     (case pc_types ctx of None \<Rightarrow> Inr ()
      | Some ts \<Rightarrow> guard (\<not> (i < int (length ts) \<and> \<not> is_integral_type (ts ! nat i))) Spec_not_integer)"

section \<open>Specifiers\<close>

definition dynamic_spec_id :: "parse_ctx \<Rightarrow> arg_id \<Rightarrow> (arg_ref \<times> parse_ctx) fmt" where
  "dynamic_spec_id ctx i =
     (case i of
        Id_auto \<Rightarrow>
          fmt_bind (next_arg_id ctx) (\<lambda>(k, ctx). fmt_bind (check_dynamic_spec ctx k) (\<lambda>_. Inr (Ref_index k, ctx)))
      | Id_index k \<Rightarrow>
          fmt_bind (check_arg_id ctx k) (\<lambda>ctx. fmt_bind (check_dynamic_spec ctx k) (\<lambda>_. Inr (Ref_index k, ctx)))
      | Id_name n \<Rightarrow> Inr (Ref_name n, ctx))"

definition parse_dynamic_spec ::
    "string \<Rightarrow> int \<Rightarrow> arg_ref \<Rightarrow> parse_ctx \<Rightarrow> (int \<times> arg_ref \<times> parse_ctx \<times> string) fmt" where
  "parse_dynamic_spec s value ref ctx =
     (if is_digit (hd s) then
        (let (v, r) = parse_nonnegative_int s (-1)
         in if v \<noteq> -1 then Inr (v, ref, ctx, r) else Inl Number_too_big)
      else if hd s = LBRACE then
        (if tl s = [] then Inl Invalid_format_string
         else fmt_bind (parse_arg_id (tl s)) (\<lambda>(i, r).
              fmt_bind (dynamic_spec_id ctx i) (\<lambda>(ref, ctx).
              if r \<noteq> [] \<and> hd r = RBRACE then Inr (value, ref, ctx, tl r) else Inl Invalid_format_string)))
      else Inr (value, ref, ctx, s))"

definition parse_precision ::
    "string \<Rightarrow> int \<Rightarrow> arg_ref \<Rightarrow> parse_ctx \<Rightarrow> (int \<times> arg_ref \<times> parse_ctx \<times> string) fmt" where
  "parse_precision s value ref ctx =
     (if tl s = [] \<or> hd (tl s) = RBRACE then Inl Invalid_precision
      else parse_dynamic_spec (tl s) value ref ctx)"

definition parse_align :: "char \<Rightarrow> fmt_align" where
  "parse_align c =
     (if c = CHR ''<'' then Align_left else if c = CHR ''>'' then Align_right
      else if c = CHR ''^'' then Align_center else Align_none)"

text \<open>The presentation letters with the kinds they apply to.\<close>

definition presentation_of :: "char \<Rightarrow> (presentation \<times> nat) option" where
  "presentation_of c =
     (if c = CHR ''d'' then Some (P_dec, integral_set)
      else if c = CHR ''o'' then Some (P_oct, integral_set)
      else if c = CHR ''x'' then Some (P_hex_lower, integral_set)
      else if c = CHR ''X'' then Some (P_hex_upper, integral_set)
      else if c = CHR ''b'' then Some (P_bin_lower, integral_set)
      else if c = CHR ''B'' then Some (P_bin_upper, integral_set)
      else if c = CHR ''a'' then Some (P_hexfloat_lower, float_set)
      else if c = CHR ''A'' then Some (P_hexfloat_upper, float_set)
      else if c = CHR ''e'' then Some (P_exp_lower, float_set)
      else if c = CHR ''E'' then Some (P_exp_upper, float_set)
      else if c = CHR ''f'' then Some (P_fixed_lower, float_set)
      else if c = CHR ''F'' then Some (P_fixed_upper, float_set)
      else if c = CHR ''g'' then Some (P_general_lower, float_set)
      else if c = CHR ''G'' then Some (P_general_upper, float_set)
      else if c = CHR ''c'' then Some (P_chr, integral_set)
      else if c = CHR ''s'' then Some (P_string, bool_set OR string_set OR cstring_set)
      else if c = CHR ''p'' then Some (P_pointer, pointer_set OR cstring_set)
      else if c = CHR ''?'' then Some (P_debug, char_set OR string_set OR cstring_set)
      else None)"

datatype spec_state = At_start | At_align | At_sign | At_hash | At_zero | At_width | At_precision | At_locale

fun state_code :: "spec_state \<Rightarrow> nat" where
  "state_code At_start = 0"
| "state_code At_align = 1"
| "state_code At_sign = 2"
| "state_code At_hash = 3"
| "state_code At_zero = 4"
| "state_code At_width = 5"
| "state_code At_precision = 6"
| "state_code At_locale = 7"

definition enter_state :: "spec_state \<Rightarrow> spec_state \<Rightarrow> bool \<Rightarrow> unit fmt" where
  "enter_state current s valid = guard (state_code current < state_code s \<and> valid) Invalid_specifier"

text \<open>
  One round of the loop over the specifiers: \<open>Spec_done\<close> is a return, \<open>Spec_more\<close> the end of the
  round with the new state.
\<close>

datatype spec_step =
    Spec_done dynamic_specs parse_ctx string
  | Spec_more spec_state dynamic_specs parse_ctx string

definition fill_step :: "spec_state \<Rightarrow> dynamic_specs \<Rightarrow> parse_ctx \<Rightarrow> string \<Rightarrow> spec_step fmt" where
  "fill_step st specs ctx s =
     (if hd s = RBRACE then Inr (Spec_done specs ctx s)
      else let n = code_point_length (hd s)
      in if length s \<le> n then Inl Invalid_specifier
         else if hd s = LBRACE then Inl Invalid_fill
         else (let a = parse_align (s ! n)
               in fmt_bind (enter_state st At_align (a \<noteq> Align_none)) (\<lambda>_.
                  Inr (Spec_more At_align (specs\<lparr>sp_fill := take n s, sp_align := a\<rparr>) ctx (drop (n + 1) s)))))"

definition spec_round :: "fmt_type \<Rightarrow> spec_state \<Rightarrow> dynamic_specs \<Rightarrow> parse_ctx \<Rightarrow> char \<Rightarrow> string \<Rightarrow> spec_step fmt" where
  "spec_round ty st specs ctx c s =
     (if c = CHR ''<'' \<or> c = CHR ''>'' \<or> c = CHR ''^'' then
        fmt_bind (enter_state st At_align True) (\<lambda>_.
        Inr (Spec_more At_align (specs\<lparr>sp_align := parse_align c\<rparr>) ctx (tl s)))
      else if c = CHR ''+'' \<or> c = CHR ''-'' \<or> c = CHR '' '' then
        fmt_bind (enter_state st At_sign (in_set ty (sint_set OR float_set))) (\<lambda>_.
        Inr (Spec_more At_sign
          (specs\<lparr>sp_sign := if c = CHR ''+'' then Sign_plus else if c = CHR ''-'' then Sign_minus else Sign_space\<rparr>)
          ctx (tl s)))
      else if c = CHR ''#'' then
        fmt_bind (enter_state st At_hash (is_arithmetic_type ty)) (\<lambda>_.
        Inr (Spec_more At_hash (specs\<lparr>sp_alt := True\<rparr>) ctx (tl s)))
      else if c = CHR ''0'' then
        fmt_bind (enter_state st At_zero True) (\<lambda>_.
        if \<not> is_arithmetic_type ty then Inl Numeric_required
        else Inr (Spec_more At_zero
          (if sp_align specs = Align_none
           then specs\<lparr>sp_align := Align_numeric, sp_fill := CHR ''0'' # tl (sp_fill specs)\<rparr> else specs)
          ctx (tl s)))
      else if is_digit c \<or> c = LBRACE then
        fmt_bind (enter_state st At_width True) (\<lambda>_.
        fmt_bind (parse_dynamic_spec s (sp_width specs) (sp_width_ref specs) ctx) (\<lambda>(v, r, ctx, s').
        Inr (Spec_more At_width (specs\<lparr>sp_width := v, sp_width_ref := r\<rparr>) ctx s')))
      else if c = CHR ''.'' then
        fmt_bind (enter_state st At_precision (in_set ty (float_set OR string_set OR cstring_set))) (\<lambda>_.
        fmt_bind (parse_precision s (sp_precision specs) (sp_precision_ref specs) ctx) (\<lambda>(v, r, ctx, s').
        Inr (Spec_more At_precision (specs\<lparr>sp_precision := v, sp_precision_ref := r\<rparr>) ctx s')))
      else if c = CHR ''L'' then
        fmt_bind (enter_state st At_locale (is_arithmetic_type ty)) (\<lambda>_.
        Inr (Spec_more At_locale (specs\<lparr>sp_localized := True\<rparr>) ctx (tl s)))
      else case presentation_of c of
        Some (p, kinds) \<Rightarrow>
          fmt_bind (guard (in_set ty kinds) Invalid_specifier) (\<lambda>_. Inr (Spec_done (specs\<lparr>sp_type := p\<rparr>) ctx (tl s)))
      | None \<Rightarrow> if c = RBRACE then Inr (Spec_done specs ctx s) else fill_step st specs ctx s)"

text \<open>The state only moves forward, so the loop ends after at most seven rounds.\<close>

lemma enter_state_Inr [simp]: "enter_state st st' v = Inr u \<longleftrightarrow> state_code st < state_code st' \<and> v"
  by (simp add: enter_state_def)

lemma spec_round_forward:
  "spec_round ty st specs ctx c s = Inr (Spec_more st' specs' ctx' s') \<Longrightarrow> state_code st < state_code st'"
  by (auto simp: spec_round_def fill_step_def fmt_bind_Inr_iff Let_def split: if_splits option.splits prod.splits)

lemma state_code_bound: "state_code st < 8"
  by (cases st) simp_all

function spec_loop ::
    "fmt_type \<Rightarrow> spec_state \<Rightarrow> dynamic_specs \<Rightarrow> parse_ctx \<Rightarrow> char \<Rightarrow> string \<Rightarrow> (dynamic_specs \<times> parse_ctx \<times> string) fmt" where
  "spec_loop ty st specs ctx c s =
     fmt_bind (spec_round ty st specs ctx c s) (\<lambda>r.
       case r of
         Spec_done specs' ctx' s' \<Rightarrow> Inr (specs', ctx', s')
       | Spec_more st' specs' ctx' s' \<Rightarrow>
           if s' = [] then Inr (specs', ctx', s') else spec_loop ty st' specs' ctx' (hd s') s')"
  by pat_completeness auto

termination
  by (relation "measure (\<lambda>(ty, st, _). 8 - state_code st)")
    (use state_code_bound in \<open>auto dest!: spec_round_forward intro: diff_less_mono2\<close>)

declare spec_loop.simps [simp del]

definition parse_format_specs ::
    "fmt_type \<Rightarrow> parse_ctx \<Rightarrow> string \<Rightarrow> (dynamic_specs \<times> parse_ctx \<times> string) fmt" where
  "parse_format_specs ty ctx s =
     (if 1 < length s then
        spec_loop ty At_start dynamic0 ctx (if parse_align (s ! 1) = Align_none then hd s else CHR 0x00) s
      else if s = [] then Inr (dynamic0, ctx, s)
      else spec_loop ty At_start dynamic0 ctx (hd s) s)"

end
