(* ===== verification/FmtLoops.thy ===== *)
theory FmtLoops
  imports FmtParse
begin

text \<open>
  The two loops over a whole format string (\<^verbatim>\<open>parse_format_string\<close> of \<^verbatim>\<open>src/include/fmt/core.h\<close>): the plain
  one for strings of less than 32 characters, and the one that searches for braces for longer
  strings. What a text and a replacement field mean is a handler, a record of functions on a state.
  The locale states what the loops need of a handler to be the same function.
\<close>

section \<open>Handlers and replacement fields\<close>

text \<open>
  \<open>on_format_specs\<close> gets the id of the argument and the string behind the colon, and says how
  far it has read.
\<close>

record 's format_handler =
  on_text :: "string \<Rightarrow> 's \<Rightarrow> 's"
  on_arg_id :: "arg_id \<Rightarrow> 's \<Rightarrow> (int \<times> 's) fmt"
  on_replacement_field :: "int \<Rightarrow> 's \<Rightarrow> 's fmt"
  on_format_specs :: "int \<Rightarrow> string \<Rightarrow> 's \<Rightarrow> (nat \<times> 's) fmt"

text \<open>The field begins behind its opening brace.\<close>

definition parse_replacement_field :: "'s format_handler \<Rightarrow> string \<Rightarrow> 's \<Rightarrow> (string \<times> 's) fmt" where
  "parse_replacement_field h s st =
     (if s = [] then Inl Invalid_format_string
      else if hd s = RBRACE then
        fmt_bind (on_arg_id h Id_auto st) (\<lambda>(i, st).
        fmt_bind (on_replacement_field h i st) (\<lambda>st. Inr (tl s, st)))
      else if hd s = LBRACE then Inr (tl s, on_text h [hd s] st)
      else
        fmt_bind (parse_arg_id s) (\<lambda>(a, r).
        fmt_bind (on_arg_id h a st) (\<lambda>(i, st).
          if r \<noteq> [] \<and> hd r = RBRACE then
            fmt_bind (on_replacement_field h i st) (\<lambda>st. Inr (tl r, st))
          else if r \<noteq> [] \<and> hd r = CHR '':'' then
            fmt_bind (on_format_specs h i (tl r) st) (\<lambda>(n, st).
              let r' = drop n (tl r)
              in if r' = [] \<or> hd r' \<noteq> RBRACE then Inl Unknown_specifier else Inr (tl r', st))
          else Inl Missing_brace)))"

lemma parse_arg_id_shorter: "parse_arg_id s = Inr (a, r) \<Longrightarrow> length r \<le> length s"
proof -
  have n: "length (snd (snd (snd (snd (nonnegative_loop s v p n d))))) \<le> length s" for v p n d
    by (induction s v p n d rule: nonnegative_loop.induct) (auto simp: le_SucI)
  have m: "length (snd (parse_nonnegative_int s e)) \<le> length s" for e
    using n [of 0 0 0 0] by (auto simp: parse_nonnegative_int_def Let_def split: prod.splits)
  show "parse_arg_id s = Inr (a, r) \<Longrightarrow> length r \<le> length s"
    using m [of "int INT_MAX"] length_dropWhile_le [of is_name_char "tl s"]
    by (auto simp: parse_arg_id_def do_parse_arg_id_def Let_def split: if_splits prod.splits)
qed

lemma parse_replacement_field_shorter:
  assumes "parse_replacement_field h s st = Inr (r, st')"
  shows "length r < length s"
proof -
  have s: "s \<noteq> []" using assms by (auto simp: parse_replacement_field_def)
  have d: "length (tl (drop n (tl q))) < length s" if "parse_arg_id s = Inr (a, q)" "q \<noteq> []" for n a q
    using parse_arg_id_shorter [OF that(1)] that(2) by (cases q) auto
  have t: "length (tl q) < length s" if "parse_arg_id s = Inr (a, q)" "q \<noteq> []" for a q
    using parse_arg_id_shorter [OF that(1)] that(2) by (cases q) auto
  show ?thesis using assms s d t
    unfolding parse_replacement_field_def fmt_bind_Inr_iff Let_def
    by (auto simp: fmt_bind_Inr_iff Let_def split: if_splits prod.splits)
qed

section \<open>The plain loop\<close>

text \<open>\<open>t\<close> is the text since the last replacement field.\<close>

function small_loop :: "'s format_handler \<Rightarrow> string \<Rightarrow> string \<Rightarrow> 's \<Rightarrow> 's fmt" where
  "small_loop h t [] st = Inr (on_text h t st)"
| "small_loop h t (c # s) st =
     (if c = LBRACE then
        fmt_bind (parse_replacement_field h s (on_text h t st)) (\<lambda>(r, st). small_loop h [] r st)
      else if c = RBRACE then
        (if s = [] \<or> hd s \<noteq> RBRACE then Inl Unmatched_brace
         else small_loop h [] (tl s) (on_text h (t @ [c]) st))
      else small_loop h (t @ [c]) s st)"
  by pat_completeness auto

termination
  by (relation "measure (\<lambda>(h, t, s, st). length s)") (auto dest!: parse_replacement_field_shorter)

section \<open>The searching loop\<close>

text \<open>The writer of a text without opening braces.\<close>

function write_loop :: "'s format_handler \<Rightarrow> string \<Rightarrow> 's \<Rightarrow> 's fmt" where
  "write_loop h s st =
     (if RBRACE \<notin> set s then Inr (on_text h s st)
      else let t = takeWhile (\<lambda>c. c \<noteq> RBRACE) s; r = tl (dropWhile (\<lambda>c. c \<noteq> RBRACE) s)
      in if r = [] \<or> hd r \<noteq> RBRACE then Inl Unmatched_brace
         else write_loop h (tl r) (on_text h (t @ [RBRACE]) st))"
  by pat_completeness auto

termination
proof (relation "measure (\<lambda>(h, s, st). length s)")
  fix h :: "'s format_handler" and s and st :: 's and t r
  assume s: "\<not> RBRACE \<notin> set s" and r: "r = tl (dropWhile (\<lambda>c. c \<noteq> RBRACE) s)"
  have "length (dropWhile (\<lambda>c. c \<noteq> RBRACE) s) \<le> length s" by (rule length_dropWhile_le)
  moreover have "s \<noteq> []" using s by auto
  ultimately have "length (tl r) < length s" unfolding r by (cases s) auto
  then show "((h, tl r, on_text h (t @ [RBRACE]) st), h, s, st) \<in> measure (\<lambda>(h, s, st). length s)" by simp
qed simp

declare write_loop.simps [simp del]

definition write_text :: "'s format_handler \<Rightarrow> string \<Rightarrow> 's \<Rightarrow> 's fmt" where
  "write_text h s st = (if s = [] then Inr st else write_loop h s st)"

function fast_loop :: "'s format_handler \<Rightarrow> string \<Rightarrow> 's \<Rightarrow> 's fmt" where
  "fast_loop h s st =
     (if s = [] then Inr st
      else if hd s \<noteq> LBRACE \<and> LBRACE \<notin> set (tl s) then write_text h s st
      else fmt_bind (write_text h (takeWhile (\<lambda>c. c \<noteq> LBRACE) s) st) (\<lambda>st.
           fmt_bind (parse_replacement_field h (tl (dropWhile (\<lambda>c. c \<noteq> LBRACE) s)) st) (\<lambda>(r, st).
           fast_loop h r st)))"
  by pat_completeness auto

termination
proof (relation "measure (\<lambda>(h, s, st). length s)")
  fix h :: "'s format_handler" and s and st st' :: 's and x r and st''
  assume p: "parse_replacement_field h (tl (dropWhile (\<lambda>c. c \<noteq> LBRACE) s)) st' = Inr x" and x: "(r, st'') = x"
  have "length r < length (tl (dropWhile (\<lambda>c. c \<noteq> LBRACE) s))"
    using parse_replacement_field_shorter p x by metis
  also have "\<dots> \<le> length s" using length_dropWhile_le [of "\<lambda>c. c \<noteq> LBRACE" s] by simp
  finally show "((h, r, st''), h, s, st) \<in> measure (\<lambda>(h, s, st). length s)" by simp
qed simp

declare fast_loop.simps [simp del]

definition parse_format_string :: "'s format_handler \<Rightarrow> string \<Rightarrow> 's \<Rightarrow> 's fmt" where
  "parse_format_string h s st = (if length s < 32 then small_loop h [] s st else fast_loop h s st)"

section \<open>The loops agree\<close>

text \<open>
  The writer passes a text on in pieces cut at the doubled braces, the plain loop cuts it at the
  replacement fields as well, and passes on empty texts. A handler that takes texts as their
  concatenation does not see the difference.
\<close>

locale text_handler =
  fixes h :: "'s format_handler"
  assumes text_nil: "on_text h [] st = st"
    and text_append: "on_text h (a @ b) st = on_text h b (on_text h a st)"
begin

lemma write_text_loop: "write_text h s st = write_loop h s st"
  by (simp add: write_text_def write_loop.simps [of h "[]"] text_nil)

lemma write_text_nil: "write_text h [] st = Inr st"
  by (simp add: write_text_def)

lemma write_text_Cons:
  assumes "c \<noteq> RBRACE"
  shows "write_text h (c # s) st = write_text h s (on_text h [c] st)"
proof (cases "RBRACE \<in> set s")
  case True
  then show ?thesis
    using text_append [of "[c]" "takeWhile (\<lambda>c. c \<noteq> RBRACE) s @ [RBRACE]" st] assms
    by (subst (1 2) write_text_loop, subst (1 2) write_loop.simps) (simp add: Let_def)
next
  case False
  then show ?thesis using text_append [of "[c]" s st] assms
    by (subst (1 2) write_text_loop, subst (1 2) write_loop.simps) simp
qed

lemma write_text_brace:
  "write_text h (RBRACE # s) st =
     (if s = [] \<or> hd s \<noteq> RBRACE then Inl Unmatched_brace else write_text h (tl s) (on_text h [RBRACE] st))"
  by (subst (1 2) write_text_loop, subst write_loop.simps) simp

lemma small_loop_text:
  assumes "LBRACE \<notin> set t" "s = [] \<or> hd s = LBRACE"
  shows "small_loop h p (t @ s) st = fmt_bind (write_text h t (on_text h p st)) (\<lambda>st. small_loop h [] s st)"
  using assms
proof (induction "length t" arbitrary: t p st rule: less_induct)
  case less
  have b: "LBRACE \<noteq> RBRACE" by (simp add: LBRACE_def RBRACE_def)
  show ?case
  proof (cases t)
    case Nil
    have "small_loop h p s st = small_loop h [] s (on_text h p st)"
      using less.prems(2) by (cases s) (auto simp: text_nil)
    then show ?thesis by (simp add: Nil write_text_nil)
  next
    case (Cons c u)
    have c: "c \<noteq> LBRACE" "LBRACE \<notin> set u" using less.prems(1) Cons by auto
    show ?thesis
    proof (cases "c = RBRACE")
      case False
      then show ?thesis using less.hyps [of u "p @ [c]" st] less.prems(2) c
        by (simp add: Cons write_text_Cons text_append)
    next
      case True
      show ?thesis
      proof (cases "u = [] \<or> hd u \<noteq> RBRACE")
        case True
        then have "u @ s = [] \<or> hd (u @ s) \<noteq> RBRACE" using less.prems(2) b by (cases u) auto
        then show ?thesis using True c \<open>c = RBRACE\<close> by (auto simp: Cons write_text_brace)
      next
        case False
        then obtain v where u: "u = RBRACE # v" by (cases u) auto
        have "length v < length t" "LBRACE \<notin> set v" using Cons u c by auto
        then show ?thesis using less.hyps [of v "[]" "on_text h (p @ [RBRACE]) st"] less.prems(2) b \<open>c = RBRACE\<close>
          by (simp add: Cons u write_text_brace text_append text_nil)
      qed
    qed
  qed
qed

lemma loops_agree: "small_loop h [] s st = fast_loop h s st"
proof (induction "length s" arbitrary: s st rule: less_induct)
  case less
  let ?t = "takeWhile (\<lambda>c. c \<noteq> LBRACE) s" and ?r = "dropWhile (\<lambda>c. c \<noteq> LBRACE) s"
  have t: "LBRACE \<notin> set ?t" by (auto dest: set_takeWhileD)
  have r: "?r = [] \<or> hd ?r = LBRACE" using hd_dropWhile [of "\<lambda>c. c \<noteq> LBRACE" s] by blast
  have "small_loop h [] (?t @ ?r) st = fmt_bind (write_text h ?t st) (\<lambda>st. small_loop h [] ?r st)"
    using small_loop_text [OF t r, of "[]" st] by (simp add: text_nil)
  also have "?t @ ?r = s" by simp
  finally have e: "small_loop h [] s st = fmt_bind (write_text h ?t st) (\<lambda>st. small_loop h [] ?r st)" .
  show ?case
  proof (cases "LBRACE \<in> set s")
    case False
    then have rt: "?r = []" "?t = s" by (auto simp: dropWhile_eq_Nil_conv takeWhile_eq_all_conv)
    have m: "fmt_bind m (\<lambda>st. Inr st) = m" for m :: "'s fmt" by (cases m) auto
    have w: "small_loop h [] s st = write_text h s st" using e unfolding rt by (simp add: text_nil m)
    show ?thesis using False unfolding w
      by (cases s) (auto simp: fast_loop.simps write_text_nil)
  next
    case True
    then have rne: "?r \<noteq> []" by (auto simp: dropWhile_eq_Nil_conv)
    then obtain q where q: "?r = LBRACE # q" using r by (cases ?r) auto
    have ql: "length q < length s" using length_dropWhile_le [of "\<lambda>c. c \<noteq> LBRACE" s] unfolding q by simp
    have k: "fmt_bind (parse_replacement_field h q st') (\<lambda>(r, st). small_loop h [] r st) =
        fmt_bind (parse_replacement_field h q st') (\<lambda>(r, st). fast_loop h r st)" for st'
    proof (rule fmt_bind_cong [OF refl])
      fix x
      assume x: "parse_replacement_field h q st' = Inr x"
      obtain r' st'' where x': "x = (r', st'')" by (cases x)
      have "length r' < length s" using parse_replacement_field_shorter x ql x' by fastforce
      then show "(case x of (r, st) \<Rightarrow> small_loop h [] r st) = (case x of (r, st) \<Rightarrow> fast_loop h r st)"
        using less.hyps by (simp add: x')
    qed
    have sl: "small_loop h [] (LBRACE # q) =
        (\<lambda>st. fmt_bind (parse_replacement_field h q st) (\<lambda>(r, st). fast_loop h r st))"
      by (rule ext) (simp add: k text_nil)
    have ne: "s \<noteq> []" "\<not> (hd s \<noteq> LBRACE \<and> LBRACE \<notin> set (tl s))" using True by (cases s; auto)+
    show ?thesis
      unfolding e q sl by (subst fast_loop.simps) (simp only: ne q if_False list.sel refl not_False_eq_True)
  qed
qed

lemma parse_format_string_plain: "parse_format_string h s st = small_loop h [] s st"
  by (simp add: parse_format_string_def loops_agree)

end

end
