(* ===== verification/Fmt.thy ===== *)
theory Fmt
  imports FmtLoops
begin

text \<open>
  Formatting (\<^verbatim>\<open>vformat_to\<close>, \<^verbatim>\<open>vformat\<close>, \<^verbatim>\<open>println\<close>) and the check of a format string against the kinds of its
  arguments (\<^verbatim>\<open>format_string_checker\<close>), from \<^verbatim>\<open>src/include/fmt/format.h\<close>, \<^verbatim>\<open>core.h\<close> and \<^verbatim>\<open>format-inl.h\<close>: two
  handlers for the loops over a format string. Formatting takes the writer of floating-point
  values \<open>fl\<close> and the grouping of digits \<open>g\<close> of the locale. The text goes to the buffer; the source
  encoding is UTF-8, so \<^verbatim>\<open>print\<close> is \<^verbatim>\<open>vprint\<close>.
\<close>

section \<open>Arguments and dynamic specifiers at run time\<close>

definition get_arg :: "'f format_args \<Rightarrow> int \<Rightarrow> 'f fmt_arg fmt" where
  "get_arg a i =
     fmt_bind (from_option (get_arg_at a (nat i))) (\<lambda>x.
     fmt_bind (guard (arg_type x \<noteq> None_type) Argument_not_found) (\<lambda>_. Inr x))"

definition get_named_arg :: "'f format_args \<Rightarrow> string \<Rightarrow> 'f fmt_arg fmt" where
  "get_named_arg a n = (let i = get_id a n in if 0 \<le> i then get_arg a i else Inl Argument_not_found)"

text \<open>
  The two checkers differ in their messages, so they are one function of the messages. A value
  is taken modulo \<open>2\<^sup>6\<^sup>4\<close>.
\<close>

definition dynamic_checker :: "fmt_error \<Rightarrow> fmt_error \<Rightarrow> 'f fmt_arg \<Rightarrow> 64 word fmt" where
  "dynamic_checker negative not_integer x =
     (case int_parts x of
        None \<Rightarrow> Inl not_integer
      | Some (v, neg) \<Rightarrow> if neg then Inl negative else Inr (word_of_nat (uint_nat v)))"

definition width_checker :: "'f fmt_arg \<Rightarrow> 64 word fmt" where
  "width_checker = dynamic_checker Negative_width Width_not_integer"

definition precision_checker :: "'f fmt_arg \<Rightarrow> 64 word fmt" where
  "precision_checker = dynamic_checker Negative_precision Precision_not_integer"

definition get_dynamic_spec :: "('f fmt_arg \<Rightarrow> 64 word fmt) \<Rightarrow> 'f fmt_arg \<Rightarrow> int fmt" where
  "get_dynamic_spec checker x =
     fmt_bind (checker x) (\<lambda>v. if word_of_nat INT_MAX < v then Inl Number_too_big else Inr (uint v))"

definition handle_dynamic_spec ::
    "('f fmt_arg \<Rightarrow> 64 word fmt) \<Rightarrow> 'f format_args \<Rightarrow> int \<Rightarrow> arg_ref \<Rightarrow> int fmt" where
  "handle_dynamic_spec checker a value ref =
     (case ref of
        Ref_none \<Rightarrow> Inr value
      | Ref_index i \<Rightarrow> fmt_bind (get_arg a i) (get_dynamic_spec checker)
      | Ref_name n \<Rightarrow> fmt_bind (get_named_arg a n) (get_dynamic_spec checker))"

section \<open>The handler that formats\<close>

record run_state =
  rs_ctx :: parse_ctx
  rs_out :: string

definition start_ctx :: "fmt_type list option \<Rightarrow> parse_ctx" where
  "start_ctx ts = \<lparr>pc_next = 0, pc_types = ts\<rparr>"

definition run_arg_id :: "'f format_args \<Rightarrow> arg_id \<Rightarrow> run_state \<Rightarrow> (int \<times> run_state) fmt" where
  "run_arg_id a i st =
     (case i of
        Id_auto \<Rightarrow> fmt_bind (next_arg_id (rs_ctx st)) (\<lambda>(k, ctx). Inr (k, st\<lparr>rs_ctx := ctx\<rparr>))
      | Id_index k \<Rightarrow> fmt_bind (check_arg_id (rs_ctx st) k) (\<lambda>ctx. Inr (k, st\<lparr>rs_ctx := ctx\<rparr>))
      | Id_name n \<Rightarrow> if get_id a n < 0 then Inl Argument_not_found else Inr (get_id a n, st))"

definition run_field ::
    "'f float_writer \<Rightarrow> digit_grouping \<Rightarrow> 'f format_args \<Rightarrow> int \<Rightarrow> run_state \<Rightarrow> run_state fmt" where
  "run_field fl g a i st =
     fmt_bind (get_arg a i) (\<lambda>x.
     fmt_bind (write_default fl g x) (\<lambda>t. Inr (st\<lparr>rs_out := rs_out st @ snd t\<rparr>)))"

definition run_specs ::
    "'f float_writer \<Rightarrow> digit_grouping \<Rightarrow> 'f format_args \<Rightarrow> int \<Rightarrow> string \<Rightarrow> run_state \<Rightarrow> (nat \<times> run_state) fmt" where
  "run_specs fl g a i s st =
     fmt_bind (get_arg a i) (\<lambda>x.
     fmt_bind (parse_format_specs (arg_type x) (rs_ctx st) s) (\<lambda>(specs, ctx, r).
     fmt_bind (handle_dynamic_spec width_checker a (sp_width specs) (sp_width_ref specs)) (\<lambda>w.
     fmt_bind (handle_dynamic_spec precision_checker a (sp_precision specs) (sp_precision_ref specs)) (\<lambda>p.
       if r = [] \<or> hd r \<noteq> RBRACE then Inl Missing_brace
       else fmt_bind (write_arg fl g x (specs\<lparr>sp_width := w, sp_precision := p\<rparr>)) (\<lambda>t.
         Inr (length s - length r, st\<lparr>rs_ctx := ctx, rs_out := rs_out st @ snd t\<rparr>))))))"

definition run_handler :: "'f float_writer \<Rightarrow> digit_grouping \<Rightarrow> 'f format_args \<Rightarrow> run_state format_handler" where
  "run_handler fl g a =
     \<lparr>on_text = (\<lambda>t st. st\<lparr>rs_out := rs_out st @ t\<rparr>),
      on_arg_id = run_arg_id a,
      on_replacement_field = run_field fl g a,
      on_format_specs = run_specs fl g a\<rparr>"

definition vformat_to :: "'f float_writer \<Rightarrow> digit_grouping \<Rightarrow> string \<Rightarrow> 'f format_args \<Rightarrow> string fmt" where
  "vformat_to fl g s a =
     (if s = [LBRACE, RBRACE] then
        fmt_bind (get_arg a 0) (\<lambda>x. fmt_bind (write_default fl g x) (\<lambda>t. Inr (snd t)))
      else fmt_bind (parse_format_string (run_handler fl g a) s \<lparr>rs_ctx = start_ctx None, rs_out = []\<rparr>)
        (\<lambda>st. Inr (rs_out st)))"

definition fmt_format ::
    "'f float_writer \<Rightarrow> digit_grouping \<Rightarrow> string \<Rightarrow> (string option \<times> 'f fmt_arg) list \<Rightarrow> string fmt" where
  "fmt_format fl g s xs = vformat_to fl g s (make_format_args xs)"

text \<open>What \<^verbatim>\<open>println\<close> writes to the standard output.\<close>

definition println ::
    "'f float_writer \<Rightarrow> digit_grouping \<Rightarrow> string \<Rightarrow> (string option \<times> 'f fmt_arg) list \<Rightarrow> string fmt" where
  "println fl g s xs =
     fmt_bind (fmt_format fl g s xs) (\<lambda>t.
       fmt_format fl g [LBRACE, RBRACE, CHR 0x0A] [(None, Arg_string t)])"

interpretation run: text_handler "run_handler fl g a" for fl :: "'f float_writer" and g a
  by unfold_locales (simp_all add: run_handler_def)

section \<open>The handler that checks\<close>

definition check_arg :: "arg_id \<Rightarrow> parse_ctx \<Rightarrow> (int \<times> parse_ctx) fmt" where
  "check_arg i ctx =
     (case i of
        Id_auto \<Rightarrow> next_arg_id ctx
      | Id_index k \<Rightarrow> fmt_bind (check_arg_id ctx k) (\<lambda>ctx. Inr (k, ctx))
      | Id_name n \<Rightarrow> Inl Named_not_checked)"

definition check_specs :: "fmt_type list \<Rightarrow> int \<Rightarrow> string \<Rightarrow> parse_ctx \<Rightarrow> (nat \<times> parse_ctx) fmt" where
  "check_specs ts i s ctx =
     (if 0 \<le> i \<and> i < int (length ts) then
        fmt_bind (parse_format_specs (ts ! nat i) ctx s) (\<lambda>(specs, ctx, r).
        fmt_bind (if ts ! nat i = Char_type then check_char_specs specs else Inr True) (\<lambda>_.
        Inr (length s - length r, ctx)))
      else Inr (0, ctx))"

definition check_handler :: "fmt_type list \<Rightarrow> parse_ctx format_handler" where
  "check_handler ts =
     \<lparr>on_text = (\<lambda>t ctx. ctx), on_arg_id = check_arg, on_replacement_field = (\<lambda>i ctx. Inr ctx),
      on_format_specs = check_specs ts\<rparr>"

definition check_format_string :: "fmt_type list \<Rightarrow> string \<Rightarrow> unit fmt" where
  "check_format_string ts s =
     fmt_bind (parse_format_string (check_handler ts) s (start_ctx (Some ts))) (\<lambda>_. Inr ())"

interpretation check: text_handler "check_handler ts" for ts
  by unfold_locales (simp_all add: check_handler_def)

section \<open>Formatting is the plain loop\<close>

lemma run_handler_simps [simp]:
  "on_text (run_handler fl g a) t st = st\<lparr>rs_out := rs_out st @ t\<rparr>"
  "on_arg_id (run_handler fl g a) = run_arg_id a"
  "on_replacement_field (run_handler fl g a) = run_field fl g a"
  "on_format_specs (run_handler fl g a) = run_specs fl g a"
  by (simp_all add: run_handler_def)

lemma check_handler_simps [simp]:
  "on_text (check_handler ts) t ctx = ctx"
  "on_arg_id (check_handler ts) = check_arg"
  "on_replacement_field (check_handler ts) i ctx = Inr ctx"
  "on_format_specs (check_handler ts) = check_specs ts"
  by (simp_all add: check_handler_def)

lemma brace_neq [simp]: "LBRACE \<noteq> RBRACE" "RBRACE \<noteq> LBRACE"
  by (simp_all add: LBRACE_def RBRACE_def)

definition run_plain :: "'f float_writer \<Rightarrow> digit_grouping \<Rightarrow> string \<Rightarrow> 'f format_args \<Rightarrow> string fmt" where
  "run_plain fl g s a =
     fmt_bind (small_loop (run_handler fl g a) [] s \<lparr>rs_ctx = start_ctx None, rs_out = []\<rparr>) (\<lambda>st. Inr (rs_out st))"

lemma vformat_plain: "vformat_to fl g s a = run_plain fl g s a"
proof (cases "s = [LBRACE, RBRACE]")
  case True
  show ?thesis
    by (simp add: True vformat_to_def run_plain_def parse_replacement_field_def run_arg_id_def run_field_def
        next_arg_id_def do_check_arg_id_def start_ctx_def fmt_bind_assoc)
next
  case False
  then show ?thesis by (simp add: vformat_to_def run_plain_def run.parse_format_string_plain)
qed

section \<open>Formatting without arguments\<close>

text \<open>Braces are doubled, and every other brace is an error.\<close>

fun fmt_literal :: "string \<Rightarrow> string option" where
  "fmt_literal [] = Some []"
| "fmt_literal [c] = (if c = LBRACE \<or> c = RBRACE then None else Some [c])"
| "fmt_literal (c # d # s) =
     (if c = LBRACE \<or> c = RBRACE then
        (if d = c then map_option (Cons c) (fmt_literal s) else None)
      else map_option (Cons c) (fmt_literal (d # s)))"

lemma get_arg_no_args: "get_arg (make_format_args [] :: 'f format_args) i = Inl Argument_not_found"
  using args_get [of "[] :: (string option \<times> 'f fmt_arg) list" "nat i"] by (simp add: get_arg_def from_option_def)

lemma get_id_no_args: "get_id (make_format_args [] :: 'f format_args) n = -1"
  using has_named_args_iff [of "[] :: (string option \<times> 'f fmt_arg) list"] by (simp add: get_id_def init_named_args_def)

lemma field_no_args:
  assumes "s \<noteq> []" "hd s \<noteq> LBRACE"
  shows "\<exists>e. parse_replacement_field (run_handler fl g (make_format_args [])) s st = Inl e"
proof -
  have k: "\<exists>e. fmt_bind m f = Inl e" if "\<And>x. m = Inr x \<Longrightarrow> \<exists>e. f x = Inl e" for m :: "'x fmt" and f :: "'x \<Rightarrow> 'y fmt"
    using that by (cases m) auto
  show ?thesis
    using assms
    by (auto simp: parse_replacement_field_def run_field_def run_specs_def get_arg_no_args Let_def intro!: k split: prod.splits)
qed

lemma small_loop_no_args:
  "map_sum (\<lambda>_. ()) rs_out (small_loop (run_handler fl g (make_format_args [])) t s st) =
     (case fmt_literal s of None \<Rightarrow> Inl () | Some u \<Rightarrow> Inr (rs_out st @ t @ u))"
proof (induction s arbitrary: t st rule: fmt_literal.induct)
  case (2 c)
  show ?case by (auto simp: parse_replacement_field_def)
next
  case (3 c d s)
  consider "c = LBRACE" "d = LBRACE" | "c = LBRACE" "d \<noteq> LBRACE" | "c = RBRACE" | "c \<noteq> LBRACE" "c \<noteq> RBRACE" by blast
  then show ?case
  proof cases
    case 2
    then show ?thesis using field_no_args [of "d # s" fl g "st\<lparr>rs_out := rs_out st @ t\<rparr>"] by auto
  qed (use 3 in \<open>auto simp: parse_replacement_field_def split: option.splits\<close>)
qed simp

lemma format_literal:
  "map_sum (\<lambda>_. ()) id (fmt_format fl g s []) = (case fmt_literal s of None \<Rightarrow> Inl () | Some u \<Rightarrow> Inr u)"
  using small_loop_no_args [of fl g "[]" s "\<lparr>rs_ctx = start_ctx None, rs_out = []\<rparr>"]
  by (cases "small_loop (run_handler fl g (make_format_args [])) [] s \<lparr>rs_ctx = start_ctx None, rs_out = []\<rparr>")
    (auto simp: fmt_format_def vformat_plain run_plain_def split: option.splits)

lemma println_literal:
  fixes fl :: "'f float_writer"
  shows "map_sum (\<lambda>_. ()) id (println fl g s []) =
     (case fmt_literal s of None \<Rightarrow> Inl () | Some u \<Rightarrow> Inr (u @ [CHR 0x0A]))"
proof -
  have a: "get_arg (make_format_args [(None, Arg_string t)] :: 'f format_args) 0 = Inr (Arg_string t)" for t
    using args_get [of "[(None :: string option, Arg_string t :: 'f fmt_arg)]" 0] by (simp add: get_arg_def from_option_def)
  have l: "fmt_format fl g [LBRACE, RBRACE, CHR 0x0A] [(None, Arg_string t)] = Inr (t @ [CHR 0x0A])" for t
    by (simp add: fmt_format_def vformat_plain run_plain_def parse_replacement_field_def run_arg_id_def run_field_def
        next_arg_id_def do_check_arg_id_def start_ctx_def fmt_bind_assoc a) (simp add: LBRACE_def RBRACE_def)
  show ?thesis using format_literal [of fl g s] l
    by (cases "fmt_format fl g s []") (auto simp: println_def split: option.splits)
qed

section \<open>Properties\<close>

text \<open>
  C31: For every format string, of whatever length, formatting is the plain character by character
  loop: the shortcut for a lone field and the search for braces in long strings, which cuts the
  text in other places, write the same text and end in the same error, at run time and in the
  check against the kinds of the arguments.
\<close>

theorem long_strings_agree:
  "vformat_to fl g s a =
     fmt_bind (small_loop (run_handler fl g a) [] s \<lparr>rs_ctx = start_ctx None, rs_out = []\<rparr>) (\<lambda>st. Inr (rs_out st)) \<and>
   check_format_string ts s =
     fmt_bind (small_loop (check_handler ts) [] s (start_ctx (Some ts))) (\<lambda>_. Inr ())"
  using vformat_plain [of fl g s a] by (simp add: run_plain_def check_format_string_def check.parse_format_string_plain)

end
