(* ===== verification/Logger.thy ===== *)
theory Logger
  imports Mqtt Fmt
begin

text \<open>
  \<^verbatim>\<open>src/util/log.cpp\<close>. The state is whether a client has been bound; the static pointer is null
  before. \<^verbatim>\<open>fmt::println (s)\<close> takes the message itself as the format string, so its braces are
  replacement fields; with no arguments every field is an error of the library.
\<close>

text \<open>
  The call passes no argument, so the writer of floating-point values and the grouping of digits
  are never asked.
\<close>

definition print_line :: "string \<Rightarrow> fault + string" where
  "print_line s =
     map_sum (\<lambda>_. Format_error) id
       (println (\<lambda>_ _. Inl Fmt_undefined) \<lparr>dg_grouping = [], dg_thousands_sep = []\<rparr> s ([] :: (string option \<times> unit fmt_arg) list))"

definition bind_client :: "bool \<Rightarrow> bool" where
  "bind_client bound = True"

definition logger_log :: "'w kernel \<Rightarrow> bool \<Rightarrow> string \<Rightarrow> ('w, unit) io" where
  "logger_log k bound s =
     (if \<not> bound then io_fail Undefined_behaviour
      else io_bind (mqtt_publish k ''log'' s) (\<lambda>_.
           io_bind (io_lift (print_line s)) (\<lambda>t.
           io_act (call k (Puts t)))))"

section \<open>Messages with and without braces\<close>

lemma print_line_literal:
  "print_line s = (case fmt_literal s of None \<Rightarrow> Inl Format_error | Some u \<Rightarrow> Inr (u @ newline))"
proof -
  let ?p = "println (\<lambda>_ _. Inl Fmt_undefined) \<lparr>dg_grouping = [], dg_thousands_sep = []\<rparr> s ([] :: (string option \<times> unit fmt_arg) list)"
  have "map_sum (\<lambda>_. ()) id ?p = (case fmt_literal s of None \<Rightarrow> Inl () | Some u \<Rightarrow> Inr (u @ [CHR 0x0A]))"
    by (rule println_literal)
  then show ?thesis by (cases ?p) (auto simp: print_line_def newline_def split: option.splits)
qed

lemma fmt_literal_id: "LBRACE \<notin> set s \<Longrightarrow> RBRACE \<notin> set s \<Longrightarrow> fmt_literal s = Some s"
  by (induction s rule: fmt_literal.induct) auto

lemma print_line_id: "LBRACE \<notin> set s \<Longrightarrow> RBRACE \<notin> set s \<Longrightarrow> print_line s = Inr (s @ newline)"
  by (simp add: print_line_literal fmt_literal_id)

lemma print_line_fault: "print_line s = Inl e \<Longrightarrow> e = Format_error"
  by (auto simp: print_line_literal split: option.splits)

lemma fmt_literal_length: "fmt_literal s = Some t \<Longrightarrow> length t \<le> length s"
  by (induction s arbitrary: t rule: fmt_literal.induct) (fastforce split: if_splits)+

lemma fmt_literal_same: "fmt_literal s = Some s \<longleftrightarrow> LBRACE \<notin> set s \<and> RBRACE \<notin> set s"
proof
  show "fmt_literal s = Some s \<Longrightarrow> LBRACE \<notin> set s \<and> RBRACE \<notin> set s"
  proof (induction s rule: fmt_literal.induct)
    case (3 c d s)
    have "c \<noteq> LBRACE \<and> c \<noteq> RBRACE"
    proof (rule ccontr)
      assume "\<not> ?thesis"
      then have "fmt_literal s = Some (d # s)" using 3(3) by (auto split: if_splits)
      then show False using fmt_literal_length by fastforce
    qed
    then show ?case using 3 by auto
  qed (auto split: if_splits)
qed (simp add: fmt_literal_id)

section \<open>Properties\<close>

text \<open>
  C40: Once a client is bound and the broker accepts the message, a log line is published
  unchanged; it is printed unchanged exactly when it holds no brace. A line with a brace that is
  not doubled is published and then leaves the call with the exception of the formatting library.
\<close>

theorem logger_log_cases:
  assumes "0 \<le> rval (fst (k (Mqtt_publish ''log'' s) w))"
  defines "w1 \<equiv> call k (Mqtt_publish ''log'' s) w"
  shows "(LBRACE \<notin> set s \<and> RBRACE \<notin> set s \<longrightarrow>
       logger_log k (bind_client b) s w = (Inr (), call k (Puts (s @ newline)) w1)) \<and>
    (\<forall>t. fmt_literal s = Some t \<longrightarrow>
       logger_log k (bind_client b) s w = (Inr (), call k (Puts (t @ newline)) w1) \<and>
       (t = s \<longleftrightarrow> LBRACE \<notin> set s \<and> RBRACE \<notin> set s)) \<and>
    (fmt_literal s = None \<longrightarrow>
       logger_log k (bind_client b) s w = (Inl Format_error, w1))"
proof -
  have p: "mqtt_publish k ''log'' s w = (Inr (), w1)"
    using assms by (simp add: mqtt_publish_def mqtt_call_def ask_def call_def case_prod_unfold Let_def)
  have l: "logger_log k (bind_client b) s w =
      io_bind (io_lift (print_line s)) (\<lambda>t. io_act (call k (Puts t))) w1"
    by (simp add: logger_log_def bind_client_def io_bind_Inr [where m = "mqtt_publish k ''log'' s", OF p])
  show ?thesis
    unfolding l using fmt_literal_id [of s] fmt_literal_same [of s]
    by (auto simp: fault_simps print_line_literal)
qed

theorem logger_log_cases_witness:
  "fst (logger_log (\<lambda>_. Pair (answer_of 0)) (bind_client False) [CHR ''x'', LBRACE, RBRACE] ()) =
     Inl Format_error"
  using logger_log_cases [of "\<lambda>_. Pair (answer_of 0)" "[CHR ''x'', LBRACE, RBRACE]" "()" False]
  by (simp add: LBRACE_def RBRACE_def)

end
