(* ===== verification/MotorController.thy ===== *)
theory MotorController
  imports Pca9685 StrUtils Logger
begin

text \<open>
  \<^verbatim>\<open>src/main/motor_controller.cpp\<close>: the process that turns the messages \<^verbatim>\<open>motors/speed\<close> and
  \<^verbatim>\<open>leds/brightness\<close> into pulses. Its state is the static state of the PWM driver. The option
  \<^verbatim>\<open>--arm\<close> is an argument; the option parser is a vendored library. An exception that leaves
  \<^verbatim>\<open>main\<close> ends the process and is the fault the model returns.
\<close>

section \<open>The program\<close>

definition MOTOR_FL_PIN :: int where "MOTOR_FL_PIN = 0"
definition MOTOR_FR_PIN :: int where "MOTOR_FR_PIN = 1"
definition MOTOR_BL_PIN :: int where "MOTOR_BL_PIN = 2"
definition MOTOR_BR_PIN :: int where "MOTOR_BR_PIN = 3"
definition THROTTLE_MIN :: int where "THROTTLE_MIN = 1000"
definition THROTTLE_MAX :: int where "THROTTLE_MAX = 2000"
definition PWM_FULL :: int where "PWM_FULL = 19999"

definition all_motors :: "'w kernel \<Rightarrow> pca \<Rightarrow> int \<Rightarrow> ('w, unit) io" where
  "all_motors k p us =
     io_bind (set_pwm_ms k p 0 us) (\<lambda>_.
     io_bind (set_pwm_ms k p 1 us) (\<lambda>_.
     io_bind (set_pwm_ms k p 2 us) (\<lambda>_.
     set_pwm_ms k p 3 us)))"

definition arm_motors :: "'w kernel \<Rightarrow> pca \<Rightarrow> ('w, unit) io" where
  "arm_motors k p =
     io_bind (io_act (call k (Puts (''arming motors'' @ newline)))) (\<lambda>_.
     io_bind (all_motors k p THROTTLE_MIN) (\<lambda>_.
     io_bind (io_act (call k (Usleep 2000000))) (\<lambda>_.
     io_bind (all_motors k p THROTTLE_MAX) (\<lambda>_.
     io_bind (io_act (call k (Usleep 2000000))) (\<lambda>_.
     io_bind (all_motors k p THROTTLE_MIN) (\<lambda>_.
     io_act (call k (Usleep 1000000))))))))"

definition motor_setup :: "'w kernel \<Rightarrow> bool \<Rightarrow> pca \<Rightarrow> ('w, pca) io" where
  "motor_setup k should_arm p =
     io_bind (pca_init k p) (\<lambda>p.
     io_bind (set_frequency k 50 p) (\<lambda>p.
     io_bind (io_act (pca_wake_up k p)) (\<lambda>_.
     io_bind (if should_arm then arm_motors k p else io_return ()) (\<lambda>_.
     io_bind (mqtt_connect k) (\<lambda>_.
     io_bind (mqtt_subscribe k ''motors/speed'') (\<lambda>_.
     io_bind (mqtt_subscribe k ''leds/brightness'') (\<lambda>_.
     io_bind (io_act (call k (Puts (''finished intialization'' @ newline)))) (\<lambda>_.
     io_return p))))))))"

definition set_throttle :: "'w kernel \<Rightarrow> pca \<Rightarrow> int \<Rightarrow> real \<Rightarrow> ('w, unit) io" where
  "set_throttle k p ch t =
     io_bind (io_lift (int_of_double (real_of_int (THROTTLE_MAX - THROTTLE_MIN) * t +
                                      real_of_int THROTTLE_MIN)))
       (set_pwm_ms k p ch)"

definition set_brightness :: "'w kernel \<Rightarrow> pca \<Rightarrow> int \<Rightarrow> real \<Rightarrow> ('w, unit) io" where
  "set_brightness k p pin b =
     io_bind (io_lift (int_of_double (real_of_int PWM_FULL * b))) (set_pwm_ms k p pin)"

definition parse_led :: "string \<Rightarrow> fault + int \<times> real" where
  "parse_led msg =
     (case next_token (tokenizer_new msg CHR '' '') of
        Inl e \<Rightarrow> Inl e
      | Inr (tok, t) \<Rightarrow>
          (case stoi tok of
             Inl e \<Rightarrow> Inl e
           | Inr pin \<Rightarrow>
               (case stod_token t of Inl e \<Rightarrow> Inl e | Inr (brightness, t) \<Rightarrow> Inr (pin, brightness))))"

definition handle_leds :: "'w kernel \<Rightarrow> pca \<Rightarrow> string \<Rightarrow> ('w, unit) io" where
  "handle_leds k p msg =
     io_bind (io_lift (parse_led msg)) (\<lambda>(pin, brightness).
     io_bind (set_brightness k p pin brightness) (\<lambda>_.
     io_act (call k (Puts (''led: pin '' @ fmt_d pin @ '' brightness to '' @ fmt_f 4 2 brightness @ newline)))))"

text \<open>\<^verbatim>\<open>printf ("%s\n", s.c_str ())\<close> prints up to the first NUL.\<close>

definition c_str :: "string \<Rightarrow> string" where
  "c_str s = takeWhile (\<lambda>c. c \<noteq> CHR 0x00) s"

definition throttle_format :: string where
  "throttle_format = ''throttles: %4.2f %, %4.2f %, %4.2f %, %4.2f %'' @ newline"

definition handle_motors :: "'w kernel \<Rightarrow> pca \<Rightarrow> string \<Rightarrow> ('w, unit) io" where
  "handle_motors k p msg =
     io_bind (io_act (call k (Puts (c_str msg @ newline)))) (\<lambda>_.
     io_bind (io_lift (stod_tokens 4 (tokenizer_new msg CHR '' ''))) (\<lambda>(throttles, t).
     io_bind (set_throttle k p 0 (throttles ! 0)) (\<lambda>_.
     io_bind (set_throttle k p 1 (throttles ! 1)) (\<lambda>_.
     io_bind (set_throttle k p 2 (throttles ! 2)) (\<lambda>_.
     io_bind (set_throttle k p 3 (throttles ! 3)) (\<lambda>_.
     io_act (call k (Printf throttle_format throttles))))))))"

definition motor_handle :: "'w kernel \<Rightarrow> pca \<Rightarrow> string \<times> string \<Rightarrow> ('w, unit) io" where
  "motor_handle k p m =
     (case m of (topic, payload) \<Rightarrow>
        if topic = ''leds/brightness'' then handle_leds k p payload
        else if topic = ''motors/speed'' then handle_motors k p payload
        else io_return ())"

definition motor_step :: "'w kernel \<Rightarrow> pca \<Rightarrow> ('w, unit) io" where
  "motor_step k p =
     io_bind (mqtt_consume k) (\<lambda>m.
       case m of None \<Rightarrow> io_return () | Some m \<Rightarrow> motor_handle k p m)"

text \<open>
  The loop of \<^verbatim>\<open>main\<close> never leaves by itself (the inner \<^verbatim>\<open>running\<close> is another variable):
  \<open>motor_loop n\<close> is its first \<open>n\<close> rounds.
\<close>

primrec motor_loop :: "nat \<Rightarrow> 'w kernel \<Rightarrow> pca \<Rightarrow> ('w, unit) io" where
  "motor_loop 0 k p = io_return ()"
| "motor_loop (Suc n) k p = io_bind (motor_step k p) (\<lambda>_. motor_loop n k p)"

definition motor_main :: "nat \<Rightarrow> 'w kernel \<Rightarrow> bool \<Rightarrow> ('w, unit) io" where
  "motor_main n k should_arm = io_bind (motor_setup k should_arm pca_static) (motor_loop n k)"

section \<open>The handlers through the PWM interface\<close>

lemma pwm_goodI: "register_bus k regs \<Longrightarrow> 0 \<le> fd (pca_dev p) \<Longrightarrow> 0 < per p \<Longrightarrow> pwm_good (k, regs, p)"
  by (simp add: pwm_good_def)

definition throttle_us :: "real \<Rightarrow> int" where
  "throttle_us t = c_trunc (1000 * t + 1000)"

lemma throttle_us_range: "0 \<le> t \<Longrightarrow> t \<le> 1 \<Longrightarrow> 1000 \<le> throttle_us t \<and> throttle_us t \<le> 2000"
  unfolding throttle_us_def by (rule c_trunc_between) simp_all

lemma set_throttle_eq:
  "0 \<le> t \<Longrightarrow> t \<le> 1 \<Longrightarrow> set_throttle k p ch t = set_pwm_ms k p ch (throttle_us t)"
  using throttle_us_range [of t]
  by (simp add: set_throttle_def THROTTLE_MAX_def THROTTLE_MIN_def int_of_double_def int_ok_def
      throttle_us_def [symmetric] fault_simps)

lemma io_bind_return [simp]: "io_bind m io_return = m"
  by (auto simp: io_bind_def io_return_def fun_eq_iff split: prod.splits sum.splits)

lemma four_channels:
  "pwm.set_all (k, regs, p) [(0, a), (1, b), (2, c), (3, d)] =
     io_bind (set_pwm_ms k p 0 a) (\<lambda>_. io_bind (set_pwm_ms k p 1 b) (\<lambda>_.
     io_bind (set_pwm_ms k p 2 c) (\<lambda>_. set_pwm_ms k p 3 d)))"
  by (simp add: numeral_eq_Suc)

lemma io_bind_last: "m w = (Inr x, w1) \<Longrightarrow> io_bind m (\<lambda>_. io_act g) w = (Inr (), g w1)"
  by (simp add: io_bind_def io_act_def)

lemma list_of_4: "length ts = 4 \<longleftrightarrow> (\<exists>a b c d. ts = [a, b, c, d])"
  by (auto simp: numeral_eq_Suc length_Suc_conv)

lemma motors_set:
  assumes "register_bus k regs" "0 \<le> fd (pca_dev p)" "0 < per p"
    and "length us = 4" "\<forall>u \<in> set us. 0 \<le> u \<and> u < 2 ^ 19"
  shows "\<exists>w'. io_bind (set_pwm_ms k p 0 (us ! 0)) (\<lambda>_. io_bind (set_pwm_ms k p 1 (us ! 1)) (\<lambda>_.
       io_bind (set_pwm_ms k p 2 (us ! 2)) (\<lambda>_. set_pwm_ms k p 3 (us ! 3)))) w = (Inr (), w') \<and>
    (\<forall>ch. 0 \<le> ch \<longrightarrow> ch < 16 \<longrightarrow> pwm_off_ticks (dev_regs regs (pca_dev p) w') ch =
       (if ch < 4 then (4096 * us ! nat ch div per p) mod 4096
        else pwm_off_ticks (dev_regs regs (pca_dev p) w) ch))"
proof -
  obtain a b c d where us: "us = [a, b, c, d]" using assms(4) by (auto simp: list_of_4)
  let ?l = "[(0, a), (1, b), (2, c), (3, d)]"
  have "pwm_good (k, regs, p)" using assms(1-3) by (rule pwm_goodI)
  from pwm.set_all_ok [OF this, of ?l w] assms(5)
  have ok: "fst (pwm.set_all (k, regs, p) ?l w) = Inr ()"
    and duty: "\<And>ch. 0 \<le> ch \<Longrightarrow> ch < 16 \<Longrightarrow>
      pwm_off_ticks (dev_regs regs (pca_dev p) (snd (pwm.set_all (k, regs, p) ?l w))) ch =
      (case map_of ?l ch of Some v \<Rightarrow> (4096 * v div per p) mod 4096
       | None \<Rightarrow> pwm_off_ticks (dev_regs regs (pca_dev p) w) ch)"
    by (simp_all add: us)
  have "ch = 0 \<or> ch = 1 \<or> ch = 2 \<or> ch = 3" if "0 \<le> ch" "ch < 4" for ch :: int
    using that by arith
  then have "(case map_of ?l ch of Some v \<Rightarrow> (4096 * v div per p) mod 4096 | None \<Rightarrow> x) =
      (if ch < 4 then (4096 * us ! nat ch div per p) mod 4096 else x)" if "0 \<le> ch" for ch x
    using that by (auto simp: us)
  then show ?thesis
    using ok duty unfolding four_channels us
    by (intro exI [of _ "snd (pwm.set_all (k, regs, p) ?l w)"])
      (simp add: us four_channels [symmetric] prod_eq_iff)
qed


text \<open>What a message of four parsed throttles does, for any four in [0, 1].\<close>

lemma handle_motors_ok:
  assumes "register_bus k regs" "0 \<le> fd (pca_dev p)" "0 < per p"
    and "stod_tokens 4 (tokenizer_new msg CHR '' '') = Inr (ts, t')"
    and "length ts = 4" "\<forall>t \<in> set ts. 0 \<le> t \<and> t \<le> 1"
  shows "\<exists>w'. handle_motors k p msg w = (Inr (), w') \<and>
    (\<forall>ch. 0 \<le> ch \<longrightarrow> ch < 16 \<longrightarrow> pwm_off_ticks (dev_regs regs (pca_dev p) w') ch =
       (if ch < 4 then (4096 * throttle_us (ts ! nat ch) div per p) mod 4096
        else pwm_off_ticks (dev_regs regs (pca_dev p) w) ch))"
proof -
  let ?us = "map throttle_us ts" and ?w = "call k (Puts (c_str msg @ newline)) w"
  have us: "length ?us = 4" "\<forall>u \<in> set ?us. 0 \<le> u \<and> u < 2 ^ 19"
    using assms(5,6) throttle_us_range by fastforce+
  have eq: "set_throttle k p ch (ts ! i) = set_pwm_ms k p ch (?us ! i)" if "i < 4" for ch i
    using set_throttle_eq [of "ts ! i" k p ch] assms(5,6) that by simp
  define m where "m = io_bind (set_pwm_ms k p 0 (?us ! 0)) (\<lambda>_. io_bind (set_pwm_ms k p 1 (?us ! 1))
       (\<lambda>_. io_bind (set_pwm_ms k p 2 (?us ! 2)) (\<lambda>_. set_pwm_ms k p 3 (?us ! 3))))"
  obtain w1 where w1: "m ?w = (Inr (), w1)"
    and d: "\<And>ch. 0 \<le> ch \<Longrightarrow> ch < 16 \<Longrightarrow> pwm_off_ticks (dev_regs regs (pca_dev p) w1) ch =
       (if ch < 4 then (4096 * ?us ! nat ch div per p) mod 4096
        else pwm_off_ticks (dev_regs regs (pca_dev p) ?w) ch)"
    using motors_set [OF assms(1-3) us, of ?w] unfolding m_def by auto
  have "handle_motors k p msg w = io_bind m (\<lambda>_. io_act (call k (Printf throttle_format ts))) ?w"
    unfolding m_def io_bind_assoc
    by (simp add: handle_motors_def assms(4) fault_simps eq del: nth_map)
  then have "handle_motors k p msg w = (Inr (), call k (Printf throttle_format ts) w1)"
    by (simp only: io_bind_last [where m = m, OF w1])
  moreover have "dev_regs regs (pca_dev p) (call k (Printf throttle_format ts) w1) =
      dev_regs regs (pca_dev p) w1" "dev_regs regs (pca_dev p) ?w = dev_regs regs (pca_dev p) w"
    by (simp_all add: dev_regs_def register_bus_call [OF assms(1)])
  ultimately show ?thesis
    using d assms(5) by auto
qed

text \<open>All registers after the four pulses are set.\<close>

definition motor_regs :: "int list \<Rightarrow> (u8 \<Rightarrow> u8) \<Rightarrow> u8 \<Rightarrow> u8" where
  "motor_regs cs view = pulse_regs 3 (cs ! 3) (pulse_regs 2 (cs ! 2) (pulse_regs 1 (cs ! 1) (pulse_regs 0 (cs ! 0) view)))"

lemma motor_regs_view:
  "0 \<le> ch \<Longrightarrow> ch < 4 \<Longrightarrow> pwm_on_ticks (motor_regs cs view) ch = (if ch = 3 then pwm_on_ticks view 3 else 0)"
  "motor_regs cs view 0x02 = 0" "motor_regs cs view 0x03 = 0"
  "r \<notin> {0x02, 0x03} \<union> {0x06..0x15} \<Longrightarrow> motor_regs cs view r = view r"
proof -
  have "ch = 0 \<or> ch = 1 \<or> ch = 2 \<or> ch = 3" if "0 \<le> ch" "ch < 4" using that by arith
  then show "0 \<le> ch \<Longrightarrow> ch < 4 \<Longrightarrow> pwm_on_ticks (motor_regs cs view) ch = (if ch = 3 then pwm_on_ticks view 3 else 0)"
    by (auto simp: motor_regs_def pulse_regs_def pwm_on_ticks_def pwm_addr_defs)
  show "motor_regs cs view 0x02 = 0" "motor_regs cs view 0x03 = 0"
    by (simp_all add: motor_regs_def pulse_regs_def pwm_addr_defs)
  show "motor_regs cs view r = view r" if r: "r \<notin> {0x02, 0x03} \<union> {0x06..0x15}"
  proof -
    have n: "(r = a) = False" if "a \<in> {0x02, 0x03} \<union> {0x06..0x15}" for a using that r by blast
    show ?thesis by (simp add: motor_regs_def pulse_regs_def pwm_addr_defs n)
  qed
qed

lemma set_pwm_ms_regs:
  assumes "register_bus k regs" "0 \<le> fd (pca_dev p)" "0 < per p" "0 \<le> u" "u < 2 ^ 19" "0 \<le> c" "c < 16"
  shows "set_pwm_ms k p c u w = (Inr (), snd (set_pwm_ms k p c u w)) \<and>
    dev_regs regs (pca_dev p) (snd (set_pwm_ms k p c u w)) =
      pulse_regs c (4096 * u div per p) (dev_regs regs (pca_dev p) w)"
  unfolding set_pwm_ms_eq [OF assms(3-5)] pulse_regs_def
  by (rule conjI [OF write_pwm_ok [OF assms(6,7)] write_pwm_regs [OF assms(1,2,6,7)]])

lemma motors_regs:
  assumes "register_bus k regs" "0 \<le> fd (pca_dev p)" "0 < per p"
    and "length us = 4" "\<forall>u \<in> set us. 0 \<le> u \<and> u < 2 ^ 19"
    and "io_bind (set_pwm_ms k p 0 (us ! 0)) (\<lambda>_. io_bind (set_pwm_ms k p 1 (us ! 1)) (\<lambda>_.
       io_bind (set_pwm_ms k p 2 (us ! 2)) (\<lambda>_. set_pwm_ms k p 3 (us ! 3)))) w = (res, w')"
  shows "dev_regs regs (pca_dev p) w' = motor_regs (map (\<lambda>u. 4096 * u div per p) us) (dev_regs regs (pca_dev p) w)"
proof -
  have u: "0 \<le> us ! i \<and> us ! i < 2 ^ 19" if "i < 4" for i using assms(4,5) that by simp
  have set: "set_pwm_ms k p c (us ! i) w = (Inr (), snd (set_pwm_ms k p c (us ! i) w))"
      "dev_regs regs (pca_dev p) (snd (set_pwm_ms k p c (us ! i) w)) =
        pulse_regs c (4096 * us ! i div per p) (dev_regs regs (pca_dev p) w)"
    if "i < 4" "0 \<le> c" "c < 16" for i c w
    using set_pwm_ms_regs [OF assms(1-3) _ _ that(2,3), of "us ! i" w] u [OF that(1)] by blast+
  let ?a = "snd (set_pwm_ms k p 0 (us ! 0) w)"
  let ?b = "snd (set_pwm_ms k p 1 (us ! 1) ?a)"
  let ?c = "snd (set_pwm_ms k p 2 (us ! 2) ?b)"
  have e: "set_pwm_ms k p 0 (us ! 0) w = (Inr (), ?a)" "set_pwm_ms k p 1 (us ! 1) ?a = (Inr (), ?b)"
    "set_pwm_ms k p 2 (us ! 2) ?b = (Inr (), ?c)" by (rule set(1); simp)+
  have "w' = snd (set_pwm_ms k p 3 (us ! 3) ?c)"
    using assms(6) by (simp only: io_bind_Inr [where m = "set_pwm_ms k p 0 (us ! 0)", OF e(1)]
      io_bind_Inr [where m = "set_pwm_ms k p 1 (us ! 1)", OF e(2)] io_bind_Inr [where m = "set_pwm_ms k p 2 (us ! 2)", OF e(3)] snd_conv)
  then show ?thesis
    using set(2) [of 0 0 w] set(2) [of 1 1 ?a] set(2) [of 2 2 ?b] set(2) [of 3 3 ?c] assms(4) by (simp add: motor_regs_def)
qed

lemma handle_motors_regs:
  assumes "register_bus k regs" "0 \<le> fd (pca_dev p)" "0 < per p"
    and "stod_tokens 4 (tokenizer_new msg CHR '' '') = Inr (ts, t')"
    and "length ts = 4" "\<forall>t \<in> set ts. 0 \<le> t \<and> t \<le> 1" "handle_motors k p msg w = (Inr (), w')"
  shows "dev_regs regs (pca_dev p) w' =
    motor_regs (map (\<lambda>t. 4096 * throttle_us t div per p) ts) (dev_regs regs (pca_dev p) w)"
proof -
  let ?us = "map throttle_us ts" and ?w = "call k (Puts (c_str msg @ newline)) w"
  have us: "length ?us = 4" "\<forall>u \<in> set ?us. 0 \<le> u \<and> u < 2 ^ 19"
    using assms(5,6) throttle_us_range by fastforce+
  have eq: "set_throttle k p ch (ts ! i) = set_pwm_ms k p ch (?us ! i)" if "i < 4" for ch i
    using set_throttle_eq [of "ts ! i" k p ch] assms(5,6) that by simp
  define m where "m = io_bind (set_pwm_ms k p 0 (?us ! 0)) (\<lambda>_. io_bind (set_pwm_ms k p 1 (?us ! 1))
       (\<lambda>_. io_bind (set_pwm_ms k p 2 (?us ! 2)) (\<lambda>_. set_pwm_ms k p 3 (?us ! 3))))"
  have "handle_motors k p msg w = io_bind m (\<lambda>_. io_act (call k (Printf throttle_format ts))) ?w"
    unfolding m_def io_bind_assoc
    by (simp add: handle_motors_def assms(4) fault_simps eq del: nth_map)
  then have "io_bind m (\<lambda>_. io_act (call k (Printf throttle_format ts))) ?w = (Inr (), w')" using assms(7) by simp
  then obtain w1 where w1: "m ?w = (Inr (), w1)" "w' = call k (Printf throttle_format ts) w1"
    by (auto simp: io_act_def elim!: io_bind_InrE)
  have "dev_regs regs (pca_dev p) w1 = motor_regs (map (\<lambda>u. 4096 * u div per p) ?us) (dev_regs regs (pca_dev p) ?w)"
    using motors_regs [OF assms(1-3) us w1(1) [unfolded m_def]] .
  then show ?thesis unfolding w1(2)
    by (simp add: dev_regs_def register_bus_call [OF assms(1)] comp_def)
qed

text \<open>At 50 Hz a throttle between 0 and 1 is a pulse of 1 to 2 ms: 204 to 409 ticks of 4096.\<close>

lemma throttle_ticks:
  assumes "0 \<le> t" "t \<le> 1"
  shows "204 \<le> 4096 * throttle_us t div 20000" "4096 * throttle_us t div 20000 \<le> 409"
    "(4096 * throttle_us t div 20000) mod 4096 = 4096 * throttle_us t div 20000"
proof -
  note r = throttle_us_range [OF assms]
  have "4096 * 1000 div 20000 \<le> 4096 * throttle_us t div 20000"
    "4096 * throttle_us t div 20000 \<le> 4096 * 2000 div (20000::int)"
    using r by (intro zdiv_mono1; simp)+
  then show a: "204 \<le> 4096 * throttle_us t div 20000" "4096 * throttle_us t div 20000 \<le> 409"
    by simp_all
  show "(4096 * throttle_us t div 20000) mod 4096 = 4096 * throttle_us t div 20000"
    by (rule mod_pos_pos_trivial) (use a in linarith)+
qed

lemma throttle_pulse:
  assumes "0 \<le> t" "t \<le> 1" "pwm_off_ticks view c = 4096 * throttle_us t div 20000" "pwm_on_ticks view c = 0"
  shows "1000 + 1000 * t - 59 / 10 < pulse_us 20000 view c" "pulse_us 20000 view c \<le> 1000 + 1000 * t"
    "996 < pulse_us 20000 view c" "pulse_us 20000 view c < 1998"
proof -
  let ?u = "throttle_us t" and ?k = "4096 * throttle_us t div 20000"
  have p: "pulse_us 20000 view c = real_of_int (?k * 20000) / 4096"
    using throttle_ticks(3) [OF assms(1,2)] by (simp add: pulse_us_def assms(3,4))
  have "?k * 20000 \<le> 4096 * ?u" "4096 * ?u < (?k + 1) * 20000" using div_bounds [of 20000 "4096 * ?u"] by simp_all
  then have k: "real_of_int (?k * 20000) \<le> 4096 * real_of_int ?u" "4096 * real_of_int ?u < real_of_int (?k * 20000) + 20000"
    by linarith+
  have u: "real_of_int ?u \<le> 1000 * t + 1000" "1000 * t + 999 < real_of_int ?u"
    using assms(1) by (simp_all add: throttle_us_def c_trunc_def; linarith)+
  show "1000 + 1000 * t - 59 / 10 < pulse_us 20000 view c" "pulse_us 20000 view c \<le> 1000 + 1000 * t"
    unfolding p using k u by linarith+
  have "204 * 20000 \<le> ?k * 20000" "?k * 20000 \<le> 409 * 20000" using throttle_ticks(1,2) [OF assms(1,2)] by simp_all
  then have "real_of_int (204 * 20000) \<le> real_of_int (?k * 20000)" "real_of_int (?k * 20000) \<le> real_of_int (409 * 20000)"
    by (simp_all only: of_int_le_iff)
  then show "996 < pulse_us 20000 view c" "pulse_us 20000 view c < 1998" unfolding p by simp_all
qed

text \<open>The set-up, step by step.\<close>

lemma all_motors_ok:
  assumes "register_bus k regs" "0 \<le> fd (pca_dev p)" "0 < per p" "0 \<le> u" "u < 2 ^ 19"
  shows "fst (all_motors k p u w) = Inr ()"
    "\<And>ch. 0 \<le> ch \<Longrightarrow> ch < 4 \<Longrightarrow>
      pwm_off_ticks (dev_regs regs (pca_dev p) (snd (all_motors k p u w))) ch = (4096 * u div per p) mod 4096"
proof -
  have "\<exists>w'. all_motors k p u w = (Inr (), w') \<and>
    (\<forall>ch. 0 \<le> ch \<longrightarrow> ch < 16 \<longrightarrow> pwm_off_ticks (dev_regs regs (pca_dev p) w') ch =
       (if ch < 4 then (4096 * [u, u, u, u] ! nat ch div per p) mod 4096
        else pwm_off_ticks (dev_regs regs (pca_dev p) w) ch))"
    using motors_set [OF assms(1-3), of "[u, u, u, u]" w] assms(4,5)
    by (simp add: all_motors_def)
  moreover have "[u, u, u, u] ! nat ch = u" if "0 \<le> ch" "ch < 4" for ch
  proof -
    have "set [u, u, u, u] = {u}" by simp
    then show ?thesis using nth_mem [of "nat ch" "[u, u, u, u]"] that by simp
  qed
  ultimately show "fst (all_motors k p u w) = Inr ()"
    "\<And>ch. 0 \<le> ch \<Longrightarrow> ch < 4 \<Longrightarrow>
      pwm_off_ticks (dev_regs regs (pca_dev p) (snd (all_motors k p u w))) ch = (4096 * u div per p) mod 4096"
    by auto
qed

text \<open>Actions that leave a part of the world alone, closed under sequencing.\<close>

definition keeps :: "('w \<Rightarrow> 'v) \<Rightarrow> ('w, 'a) io \<Rightarrow> bool" where
  "keeps view m \<longleftrightarrow> (\<forall>w. view (snd (m w)) = view w)"

lemma keeps_bind: "keeps view m \<Longrightarrow> (\<And>x. keeps view (f x)) \<Longrightarrow> keeps view (io_bind m f)"
  by (auto simp: keeps_def io_bind_def split: sum.splits prod.splits) (metis snd_conv)+

lemma keeps_return: "keeps view (io_return x)"
  by (simp add: keeps_def io_return_def)

lemma keeps_call: "register_bus k regs \<Longrightarrow> \<not> is_transfer q \<Longrightarrow> keeps (\<lambda>w. dev_regs regs d w r) (io_act (call k q))"
  by (simp add: keeps_def io_act_def dev_regs_def register_bus_call)

lemma keeps_write_pwm:
  assumes "register_bus k regs" "0 \<le> fd (pca_dev p)" "uint r < 2 \<or> 0x45 < uint r"
  shows "keeps (\<lambda>w. dev_regs regs (pca_dev p) w r) (write_pwm k p ch cyc)"
proof (cases "0 \<le> ch \<and> ch < 16")
  case True
  then have c: "0 \<le> ch" "ch < 16" by simp_all
  have "r \<noteq> pwm_regs ! nat ch ! 0 \<and> r \<noteq> pwm_regs ! nat ch ! 1 \<and> r \<noteq> PWM_OFF_L (nat ch) \<and>
      r \<noteq> PWM_OFF_H (nat ch)"
    using assms(3) c uint_pwm_addr [OF c] by (auto split: if_splits)
  then show ?thesis
    unfolding keeps_def write_pwm_regs [OF assms(1,2) c] by simp
next
  case False
  then have "write_pwm k p ch cyc = io_fail Undefined_behaviour" by (auto simp: write_pwm_def)
  then show ?thesis by (simp add: keeps_def io_fail_def)
qed

lemma keeps_all_motors:
  assumes "register_bus k regs" "0 \<le> fd (pca_dev p)" "0 < per p" "0 \<le> u" "u < 2 ^ 19"
    and "uint r < 2 \<or> 0x45 < uint r"
  shows "keeps (\<lambda>w. dev_regs regs (pca_dev p) w r) (all_motors k p u)"
  unfolding all_motors_def set_pwm_ms_eq [OF assms(3-5)]
  by (intro keeps_bind keeps_write_pwm assms)

lemma keeps_arm:
  assumes "register_bus k regs" "0 \<le> fd (pca_dev p)" "0 < per p" "uint r < 2 \<or> 0x45 < uint r"
  shows "keeps (\<lambda>w. dev_regs regs (pca_dev p) w r) (arm_motors k p)"
  unfolding arm_motors_def
  by (intro keeps_bind keeps_call keeps_all_motors assms)
    (simp_all add: is_transfer_def THROTTLE_MIN_def THROTTLE_MAX_def)

lemma arm_motors_ok:
  assumes "register_bus k regs" "0 \<le> fd (pca_dev p)" "0 < per p"
  shows "fst (arm_motors k p w) = Inr ()"
    "\<And>ch. 0 \<le> ch \<Longrightarrow> ch < 4 \<Longrightarrow>
      pwm_off_ticks (dev_regs regs (pca_dev p) (snd (arm_motors k p w))) ch = (4096 * 1000 div per p) mod 4096"
proof -
  define w1 where "w1 = call k (Puts (''arming motors'' @ newline)) w"
  note lo = all_motors_ok [OF assms, of THROTTLE_MIN] and hi = all_motors_ok [OF assms, of THROTTLE_MAX]
  have t: "0 \<le> THROTTLE_MIN" "THROTTLE_MIN < 2 ^ 19" "0 \<le> THROTTLE_MAX" "THROTTLE_MAX < 2 ^ 19"
    by (simp_all add: THROTTLE_MIN_def THROTTLE_MAX_def)
  obtain w2 where w2: "all_motors k p THROTTLE_MIN w1 = (Inr (), w2)"
    using lo(1) t by (metis prod.collapse)
  obtain w3 where w3: "all_motors k p THROTTLE_MAX (call k (Usleep 2000000) w2) = (Inr (), w3)"
    using hi(1) t by (metis prod.collapse)
  obtain w4 where w4: "all_motors k p THROTTLE_MIN (call k (Usleep 2000000) w3) = (Inr (), w4)"
    using lo(1) t by (metis prod.collapse)
  have eq: "arm_motors k p w = (Inr (), call k (Usleep 1000000) w4)"
    unfolding arm_motors_def io_simps w1_def [symmetric] by (simp add: io_bind_def io_act_def w2 w3 w4)
  then show "fst (arm_motors k p w) = Inr ()" by simp
  show "pwm_off_ticks (dev_regs regs (pca_dev p) (snd (arm_motors k p w))) ch = (4096 * 1000 div per p) mod 4096"
    if "0 \<le> ch" "ch < 4" for ch
    using lo(2) [OF t(1,2) that, of "call k (Usleep 2000000) w3"]
    unfolding w4 by (simp add: eq dev_regs_def register_bus_call [OF assms(1)] THROTTLE_MIN_def)
qed

text \<open>A message of four parsed throttles: counts, registers and pulses.\<close>

lemma motors_message:
  assumes "register_bus k regs" "0 \<le> fd (pca_dev p)" "per p = 20000"
    and "stod_tokens 4 (tokenizer_new msg CHR '' '') = Inr (ts, t')" "length ts = 4" "\<forall>t \<in> set ts. 0 \<le> t \<and> t \<le> 1"
  shows "\<exists>w'. handle_motors k p msg w = (Inr (), w') \<and>
    (\<forall>ch. 0 \<le> ch \<longrightarrow> ch < 4 \<longrightarrow>
       pwm_off_ticks (dev_regs regs (pca_dev p) w') ch = 4096 * throttle_us (ts ! nat ch) div 20000 \<and>
       204 \<le> pwm_off_ticks (dev_regs regs (pca_dev p) w') ch \<and>
       pwm_off_ticks (dev_regs regs (pca_dev p) w') ch \<le> 409 \<and>
       pwm_on_ticks (dev_regs regs (pca_dev p) w') ch =
         (if ch = 3 then pwm_on_ticks (dev_regs regs (pca_dev p) w) 3 else 0) \<and>
       (ch < 3 \<or> pwm_on_ticks (dev_regs regs (pca_dev p) w) 3 = 0 \<longrightarrow>
         1000 + 1000 * ts ! nat ch - 59 / 10 < pulse_us (per p) (dev_regs regs (pca_dev p) w') ch \<and>
         pulse_us (per p) (dev_regs regs (pca_dev p) w') ch \<le> 1000 + 1000 * ts ! nat ch \<and>
         996 < pulse_us (per p) (dev_regs regs (pca_dev p) w') ch \<and>
         pulse_us (per p) (dev_regs regs (pca_dev p) w') ch < 1998)) \<and>
    dev_regs regs (pca_dev p) w' 0x02 = 0 \<and> dev_regs regs (pca_dev p) w' 0x03 = 0 \<and>
    (\<forall>r. r \<notin> {0x02, 0x03} \<union> {0x06..0x15} \<longrightarrow> dev_regs regs (pca_dev p) w' r = dev_regs regs (pca_dev p) w r)"
proof -
  have "0 < per p" using assms(3) by simp
  from handle_motors_ok [OF assms(1,2) this assms(4-6), of w] obtain w' where
    w': "handle_motors k p msg w = (Inr (), w')" and
    d: "\<And>ch. 0 \<le> ch \<Longrightarrow> ch < 16 \<Longrightarrow> pwm_off_ticks (dev_regs regs (pca_dev p) w') ch =
       (if ch < 4 then (4096 * throttle_us (ts ! nat ch) div per p) mod 4096
        else pwm_off_ticks (dev_regs regs (pca_dev p) w) ch)" by blast
  note regs = handle_motors_regs [OF assms(1,2) \<open>0 < per p\<close> assms(4-6) w']
  let ?v = "dev_regs regs (pca_dev p) w" and ?v' = "dev_regs regs (pca_dev p) w'"
  have on: "pwm_on_ticks ?v' ch = (if ch = 3 then pwm_on_ticks ?v 3 else 0)" if "0 \<le> ch" "ch < 4" for ch
    unfolding regs by (rule motor_regs_view(1) [OF that])
  have off: "pwm_off_ticks ?v' ch = 4096 * throttle_us (ts ! nat ch) div 20000" "204 \<le> pwm_off_ticks ?v' ch"
      "pwm_off_ticks ?v' ch \<le> 409" and ts: "0 \<le> ts ! nat ch" "ts ! nat ch \<le> 1" if "0 \<le> ch" "ch < 4" for ch
  proof -
    show s: "0 \<le> ts ! nat ch" "ts ! nat ch \<le> 1" using assms(5,6) that by simp_all
    note t = throttle_ticks [OF s]
    show e: "pwm_off_ticks ?v' ch = 4096 * throttle_us (ts ! nat ch) div 20000"
      using d [of ch] that unfolding assms(3) t(3) by simp
    show "204 \<le> pwm_off_ticks ?v' ch" "pwm_off_ticks ?v' ch \<le> 409" unfolding e by (rule t)+
  qed
  have pulse: "1000 + 1000 * ts ! nat ch - 59 / 10 < pulse_us 20000 ?v' ch \<and> pulse_us 20000 ?v' ch \<le> 1000 + 1000 * ts ! nat ch \<and>
      996 < pulse_us 20000 ?v' ch \<and> pulse_us 20000 ?v' ch < 1998"
    if "0 \<le> ch" "ch < 4" "ch < 3 \<or> pwm_on_ticks ?v 3 = 0" for ch
    using throttle_pulse [OF ts(1) [OF that(1,2)] ts(2) [OF that(1,2)] off(1) [OF that(1,2)]] on [OF that(1,2)] that(3)
    by (auto split: if_splits)
  show ?thesis
    unfolding assms(3)
  proof (intro exI [of _ w'] conjI allI impI)
    show "?v' 0x02 = 0" "?v' 0x03 = 0" unfolding regs by (rule motor_regs_view)+
    show "?v' r = ?v r" if "r \<notin> {0x02, 0x03} \<union> {0x06..0x15}" for r unfolding regs by (rule motor_regs_view(4) [OF that])
  qed (use w' off on pulse in blast)+
qed

section \<open>Properties\<close>

text \<open>
  C11: A \<open>motors/speed\<close> message whose fields are throttles between 0 and 1 sets motor \<open>i\<close> by field
  \<open>i\<close>: its OFF count is 4096 times the pulse in whole microseconds over the period, between 204 and
  409. The ON counts of the first three motors become 0; that of the fourth stays what it was, because its
  row of the table names the subaddress registers 2 and 3, which become 0 instead. No other register
  changes. So the pulse of a motor, the fourth one's if its ON count was 0, is less than 5.9 microseconds shorter
  than its share between 1 and 2 ms, never longer, and between 996 and 1998 microseconds. The fields are
  read around: a message with fewer than four of them, a single number for example, is applied to the
  remaining motors from its start again.
\<close>

theorem motor_message_sets_throttles:
  assumes "register_bus k regs" "0 \<le> fd (pca_dev p)" "per p = 20000"
    and "length msg < npos" "length ts = 4"
    and "\<And>i. i < 4 \<Longrightarrow> 0 \<le> ts ! i \<and> ts ! i \<le> 1 \<and>
      dropWhile is_space (split_fields CHR '' '' msg ! (i mod length (split_fields CHR '' '' msg))) \<noteq> [] \<and>
      stod (split_fields CHR '' '' msg ! (i mod length (split_fields CHR '' '' msg))) = Inr (ts ! i)"
  shows "\<exists>w'. motor_handle k p (''motors/speed'', msg) w = (Inr (), w') \<and>
    (\<forall>ch. 0 \<le> ch \<longrightarrow> ch < 4 \<longrightarrow>
       pwm_off_ticks (dev_regs regs (pca_dev p) w') ch = 4096 * throttle_us (ts ! nat ch) div 20000 \<and>
       204 \<le> pwm_off_ticks (dev_regs regs (pca_dev p) w') ch \<and>
       pwm_off_ticks (dev_regs regs (pca_dev p) w') ch \<le> 409 \<and>
       pwm_on_ticks (dev_regs regs (pca_dev p) w') ch =
         (if ch = 3 then pwm_on_ticks (dev_regs regs (pca_dev p) w) 3 else 0) \<and>
       (ch < 3 \<or> pwm_on_ticks (dev_regs regs (pca_dev p) w) 3 = 0 \<longrightarrow>
         1000 + 1000 * ts ! nat ch - 59 / 10 < pulse_us (per p) (dev_regs regs (pca_dev p) w') ch \<and>
         pulse_us (per p) (dev_regs regs (pca_dev p) w') ch \<le> 1000 + 1000 * ts ! nat ch \<and>
         996 < pulse_us (per p) (dev_regs regs (pca_dev p) w') ch \<and>
         pulse_us (per p) (dev_regs regs (pca_dev p) w') ch < 1998)) \<and>
    dev_regs regs (pca_dev p) w' 0x02 = 0 \<and> dev_regs regs (pca_dev p) w' 0x03 = 0 \<and>
    (\<forall>r. r \<notin> {0x02, 0x03} \<union> {0x06..0x15} \<longrightarrow> dev_regs regs (pca_dev p) w' r = dev_regs regs (pca_dev p) w r)"
proof -
  obtain t' where t: "stod_tokens 4 (tokenizer_new msg CHR '' '') = Inr (ts, t')"
    using stod_tokens_cyclic [OF assms(4) _ assms(5), of "CHR '' ''"] assms(6)
    by (auto simp: num_stop_def)
  have r: "\<forall>t \<in> set ts. 0 \<le> t \<and> t \<le> 1" using assms(5,6) by (auto simp: in_set_conv_nth)
  from motors_message [OF assms(1-3) t assms(5) r, of w] show ?thesis by (simp add: motor_handle_def)
qed

lemma stod_half: "stod ''0.5'' = Inr (1 / 2)"
  by (simp add: stod_def take_sign_def lex_number_def frac_part_def exp_part_def special_number_def
      is_digit_def is_space_def lower_def dec_val_def ten_pow_def double_range_def)

theorem motor_message_sets_throttles_witness:
  "\<exists>w'. motor_handle sim_kernel pca_example (''motors/speed'', ''0.5'') sim0 = (Inr (), w') \<and>
     pwm_off_ticks (dev_regs sim_regs (pca_dev pca_example) w') 3 = 307"
proof -
  have i: "(i = 0 \<longrightarrow> P) \<and> (i = 1 \<longrightarrow> P) \<and> (i = 2 \<longrightarrow> P) \<and> (i = 3 \<longrightarrow> P) \<Longrightarrow> P" if "i < 4" for i :: nat and P
    using that by linarith
  have "[1 / 2, 1 / 2, 1 / 2, 1 / 2] ! i = (1 / 2 :: real)" if "i < 4" for i
    by (rule i [OF that]) simp
  moreover have "split_fields CHR '' '' ''0.5'' = [''0.5'']" by simp
  ultimately have "\<exists>w'. motor_handle sim_kernel pca_example (''motors/speed'', ''0.5'') sim0 = (Inr (), w') \<and>
    (\<forall>ch. 0 \<le> ch \<longrightarrow> ch < 4 \<longrightarrow>
       pwm_off_ticks (dev_regs sim_regs (pca_dev pca_example) w') ch =
         4096 * throttle_us ([1 / 2, 1 / 2, 1 / 2, 1 / 2] ! nat ch) div 20000)"
    using motor_message_sets_throttles [OF sim_bus, of pca_example "''0.5''"
        "[1 / 2, 1 / 2, 1 / 2, 1 / 2]" sim0]
    by (fastforce simp: stod_half is_space_def npos_def)
  then obtain w' where w': "motor_handle sim_kernel pca_example (''motors/speed'', ''0.5'') sim0 = (Inr (), w')"
    "\<forall>ch. 0 \<le> ch \<longrightarrow> ch < 4 \<longrightarrow>
       pwm_off_ticks (dev_regs sim_regs (pca_dev pca_example) w') ch =
         4096 * throttle_us ([1 / 2, 1 / 2, 1 / 2, 1 / 2] ! nat ch) div 20000" by blast
  have "throttle_us (1 / 2) = 1500" by (simp add: throttle_us_def)
  then show ?thesis using w'(1) w'(2) [rule_format, of 3] by auto
qed

text \<open>
  A \<open>motors/speed\<close> message that does not parse moves no motor: the process ends with the
  parser's fault and the only thing it has done is to print the message.
\<close>

theorem bad_motor_message_moves_nothing:
  assumes "stod_tokens 4 (tokenizer_new msg CHR '' '') = Inl e"
  shows "motor_handle k p (''motors/speed'', msg) w =
    (Inl e, call k (Puts (c_str msg @ newline)) w)"
  using assms by (simp add: motor_handle_def handle_motors_def fault_simps)

theorem bad_motor_message_moves_nothing_witness:
  "motor_handle sim_kernel pca_example (''motors/speed'', ''full'') sim0 = (Inl Invalid_argument, sim0)"
proof -
  have "stod_tokens 4 (tokenizer_new ''full'' CHR '' '') = Inl Invalid_argument"
  proof -
    have "stod_token (tokenizer_new ''full'' CHR '' '') = Inl Invalid_argument"
      by (simp add: stod_token_def next_token_def tokenizer_new_def str_find_def
        str_substr_def npos_def stod_def take_sign_def lex_number_def frac_part_def exp_part_def
        special_number_def is_digit_def is_space_def lower_def)
    then have "stod_tokens (Suc n) (tokenizer_new ''full'' CHR '' '') = Inl Invalid_argument" for n
      by simp
    from this [of 3] show ?thesis by (simp only: eval_nat_numeral BitM.simps)
  qed
  from bad_motor_message_moves_nothing [OF this, of sim_kernel pca_example sim0] show ?thesis
    by (simp add: call_def)
qed


text \<open>
  On a working bus and with the broker up, start-up succeeds and leaves the chip at 50 Hz
  (prescaler 121, period 20 ms), out of sleep, and, when asked to arm, all four motors at the
  minimum throttle of 1 ms.
\<close>

theorem motor_setup_ready:
  assumes "register_bus k regs" "broker_up k"
  shows "\<exists>p w'. motor_setup k arm pca_static w = (Inr p, w') \<and>
    freq p = 50 \<and> per p = 20000 \<and> 0 \<le> fd (pca_dev p) \<and> addr (pca_dev p) = PCA9685_ADDRESS \<and>
    uint (dev_regs regs (pca_dev p) w' PRESCALE) = 121 \<and>
    \<not> bit (dev_regs regs (pca_dev p) w' MODE_1) 4 \<and>
    (arm \<longrightarrow> (\<forall>ch. 0 \<le> ch \<longrightarrow> ch < 4 \<longrightarrow> pwm_off_ticks (dev_regs regs (pca_dev p) w') ch = 204))"
proof -
  obtain p0 w0 where p0: "pca_init k pca_static w = (Inr p0, w0)" "0 \<le> fd (pca_dev p0)"
    "addr (pca_dev p0) = PCA9685_ADDRESS"
    using pca_init_run [OF assms(1), of pca_static w] by blast
  define p where "p = p0\<lparr>freq := 50, per := 20000\<rparr>"
  have p: "0 \<le> fd (pca_dev p)" "addr (pca_dev p) = PCA9685_ADDRESS" "0 < per p" "per p = 20000"
    "freq p = 50" "pca_dev p = pca_dev p0"
    using p0 by (simp_all add: p_def)
  obtain w1 where w1: "set_frequency k 50 p0 w0 = (Inr p, w1)"
    "dev_regs regs (pca_dev p) w1 PRESCALE = 121"
  proof -
    have "c_round (25000000 / real_of_int (4096 * 50)) - 1 = 121" by (simp add: c_round_def)
    then show thesis
      using set_frequency_run [OF assms(1) p0(2), of 50 w0] p(6)
      by (intro that [of "snd (set_frequency k 50 p0 w0)"])
        (simp_all add: p_def prod_eq_iff narrow_def)
  qed
  define w2 where "w2 = pca_wake_up k p w1"
  have w2: "dev_regs regs (pca_dev p) w2 PRESCALE = 121" "\<not> bit (dev_regs regs (pca_dev p) w2 MODE_1) 4"
    unfolding w2_def pca_wake_up_run [OF assms(1) p(1)]
    using w1(2) by (simp_all add: MODE_1_def PRESCALE_def bit_merge_bits)
  define armed where "armed = (if arm then arm_motors k p else io_return ())"
  define w3 where "w3 = snd (armed w2)"
  have w3: "armed w2 = (Inr (), w3)"
    using arm_motors_ok(1) [OF assms(1) p(1,3)] by (simp add: w3_def armed_def fault_simps prod_eq_iff)
  have keep: "keeps (\<lambda>w. dev_regs regs (pca_dev p) w r) armed" if "uint r < 2 \<or> 0x45 < uint r" for r
    using keeps_arm [OF assms(1) p(1,3) that] by (simp add: armed_def keeps_return)
  have regs3: "dev_regs regs (pca_dev p) w3 PRESCALE = 121" "\<not> bit (dev_regs regs (pca_dev p) w3 MODE_1) 4"
    using keep [of PRESCALE] keep [of MODE_1] w2
    by (simp_all add: keeps_def w3_def PRESCALE_def MODE_1_def)
  have duty: "pwm_off_ticks (dev_regs regs (pca_dev p) w3) ch = 204" if "arm" "0 \<le> ch" "ch < 4" for ch
    using arm_motors_ok(2) [OF assms(1) p(1,3) that(2,3), of w2] that(1) p(4)
    by (simp add: w3_def armed_def)
  let ?w' = "call k (Puts (''finished intialization'' @ newline))
      (call k (Mqtt_subscribe ''leds/brightness'') (call k (Mqtt_subscribe ''motors/speed'')
        (call k Mqtt_connect w3)))"
  have "motor_setup k arm pca_static w = (Inr p, ?w')"
    using w3 by (simp add: motor_setup_def io_bind_Inr [where m = "pca_init k pca_static", OF p0(1)]
        io_bind_Inr [where m = "set_frequency k 50 p0", OF w1(1)] fault_simps
        w2_def [symmetric] armed_def [symmetric] io_bind_Inr [where m = armed, OF w3]
        broker_calls [OF assms(2)])
  moreover have "dev_regs regs (pca_dev p) ?w' = dev_regs regs (pca_dev p) w3"
    by (simp add: dev_regs_def register_bus_call [OF assms(1)])
  ultimately show ?thesis using p regs3 duty by (intro exI [of _ p] exI [of _ ?w']) simp
qed

theorem motor_setup_ready_witness:
  "\<exists>p w'. motor_setup sim_up True pca_static sim0 = (Inr p, w') \<and>
     pwm_off_ticks (dev_regs sim_regs (pca_dev p) w') 2 = 204"
  using motor_setup_ready [OF sim_up_bus sim_broker, of True sim0] by fastforce

text \<open>
  A \<open>leds/brightness\<close> message drives whatever channel it names, the motors' channels too:
  the brightness is its share of the period in whole microseconds and no other channel changes.
  A pin outside the sixteen channels is an access outside the register table.
\<close>

theorem led_message:
  assumes "register_bus k regs" "0 \<le> fd (pca_dev p)" "per p = 20000"
    and "parse_led msg = Inr (pin, b)" "0 \<le> b" "b \<le> 1"
  shows "if 0 \<le> pin \<and> pin < 16 then
      \<exists>w'. motor_handle k p (''leds/brightness'', msg) w = (Inr (), w') \<and>
        (\<forall>ch. 0 \<le> ch \<longrightarrow> ch < 16 \<longrightarrow> pwm_off_ticks (dev_regs regs (pca_dev p) w') ch =
           (if ch = pin then 4096 * \<lfloor>19999 * b\<rfloor> div 20000
            else pwm_off_ticks (dev_regs regs (pca_dev p) w) ch))
    else motor_handle k p (''leds/brightness'', msg) w = (Inl Undefined_behaviour, w)"
proof -
  let ?u = "c_trunc (19999 * b)"
  have u: "0 \<le> ?u" "?u \<le> 19999" using c_trunc_between [of 0 "19999 * b" 19999] assms(5,6) by simp_all
  have "4096 * 0 div 20000 \<le> 4096 * ?u div 20000" "4096 * ?u div 20000 \<le> 4096 * 19999 div (20000::int)"
    using u by (intro zdiv_mono1; simp)+
  then have m: "(4096 * ?u div 20000) mod 4096 = 4096 * ?u div 20000"
    by (intro mod_pos_pos_trivial) simp_all
  have b: "set_brightness k p pin b = set_pwm_ms k p pin ?u"
    using u by (simp add: set_brightness_def PWM_FULL_def int_of_double_def int_ok_def fault_simps)
  have g: "pwm_good (k, regs, p)" using assms(1-3) by (simp add: pwm_good_def)
  obtain line where h: "motor_handle k p (''leds/brightness'', msg) =
      io_bind (set_pwm_ms k p pin ?u) (\<lambda>_. io_act (call k (Puts line)))"
    using assms(4) b by (simp add: motor_handle_def handle_leds_def fault_simps)
  show ?thesis
  proof (cases "0 \<le> pin \<and> pin < 16")
    case True
    define w1 where "w1 = snd (set_pwm_ms k p pin ?u w)"
    have w1: "set_pwm_ms k p pin ?u w = (Inr (), w1)"
      using pwm.set_ok [OF g, of pin ?u w] True u by (simp add: w1_def prod_eq_iff)
    have "pwm_off_ticks (dev_regs regs (pca_dev p) w1) ch =
        (if ch = pin then 4096 * ?u div 20000 else pwm_off_ticks (dev_regs regs (pca_dev p) w) ch)"
      if "0 \<le> ch" "ch < 16" for ch
      using pwm.set_duty [OF g, of pin ?u ch w] True u that unfolding split assms(3) m w1_def by simp
    moreover have "?u = \<lfloor>19999 * b\<rfloor>" using assms(5) by (simp add: c_trunc_def)
    moreover have "motor_handle k p (''leds/brightness'', msg) w = (Inr (), call k (Puts line) w1)"
      unfolding h by (rule io_bind_last [where m = "set_pwm_ms k p pin ?u", OF w1])
    moreover have "dev_regs regs (pca_dev p) (call k (Puts line) w1) = dev_regs regs (pca_dev p) w1"
      by (simp add: dev_regs_def register_bus_call [OF assms(1)])
    ultimately show ?thesis using True by auto
  next
    case False
    have "set_pwm_ms k p pin ?u = write_pwm k p pin (4096 * ?u div per p)"
      using u assms(3) by (intro set_pwm_ms_eq) simp_all
    then have "set_pwm_ms k p pin ?u = io_fail Undefined_behaviour"
      using False by (auto simp: write_pwm_def)
    then show ?thesis using False by (auto simp: h fault_simps)
  qed
qed

lemma parse_led_example: "parse_led ''16 1'' = Inr (16, 1)" "parse_led ''0 1'' = Inr (0, 1)"
  by (simp_all add: parse_led_def next_token_def tokenizer_new_def str_find_def str_substr_def
      npos_def stod_token_def stoi_def stod_def take_sign_def lex_number_def frac_part_def exp_part_def
      special_number_def is_digit_def is_space_def lower_def dec_val_def ten_pow_def
      double_range_def int_ok_def)

theorem led_message_witness:
  "motor_handle sim_kernel pca_example (''leds/brightness'', ''16 1'') sim0 =
     (Inl Undefined_behaviour, sim0) \<and>
   (\<exists>w'. motor_handle sim_kernel pca_example (''leds/brightness'', ''0 1'') sim0 = (Inr (), w') \<and>
     pwm_off_ticks (dev_regs sim_regs (pca_dev pca_example) w') 0 = 4095)"
  using led_message [OF sim_bus _ _ parse_led_example(1), of pca_example sim0]
    led_message [OF sim_bus _ _ parse_led_example(2), of pca_example sim0]
  by fastforce

end
