(* ===== verification/MathLib.thy ===== *)
theory MathLib
  imports Prelude
begin

text \<open>
  \<^verbatim>\<open>src/math/math.cpp\<close> and its header: vectors and quaternions over the reals. The matrix
  class of the header has no implementation in the repository and is not modelled.
\<close>

definition DEG_TO_RAD :: real where "DEG_TO_RAD = 0.017453292519943"
definition RAD_TO_DEG :: real where "RAD_TO_DEG = 57.29577951308232"

section \<open>Vectors\<close>

record vector =
  vx :: real
  vy :: real
  vz :: real

definition vector0 :: vector where "vector0 = \<lparr>vx = 0, vy = 0, vz = 0\<rparr>"
definition vector1 :: "real \<Rightarrow> vector" where "vector1 x = \<lparr>vx = x, vy = 0, vz = 0\<rparr>"
definition vector2 :: "real \<Rightarrow> real \<Rightarrow> vector" where "vector2 x y = \<lparr>vx = x, vy = y, vz = 0\<rparr>"
definition vector3 :: "real \<Rightarrow> real \<Rightarrow> real \<Rightarrow> vector" where
  "vector3 x y z = \<lparr>vx = x, vy = y, vz = z\<rparr>"

definition vadd :: "vector \<Rightarrow> vector \<Rightarrow> vector" where
  "vadd a r = vector3 (vx a + vx r) (vy a + vy r) (vz a + vz r)"

definition vscale :: "vector \<Rightarrow> real \<Rightarrow> vector" where
  "vscale a s = vector3 (vx a * s) (vy a * s) (vz a * s)"

definition vlength :: "vector \<Rightarrow> real" where
  "vlength v = sqrt (vx v * vx v + vy v * vy v + vz v * vz v)"

section \<open>Quaternions\<close>

record quarternion =
  qw :: real
  qx :: real
  qy :: real
  qz :: real
  qunit :: bool

definition quat0 :: quarternion where
  "quat0 = \<lparr>qw = 0, qx = 0, qy = 0, qz = 0, qunit = False\<rparr>"
definition quat3 :: "real \<Rightarrow> real \<Rightarrow> real \<Rightarrow> quarternion" where
  "quat3 x y z = \<lparr>qw = 0, qx = x, qy = y, qz = z, qunit = False\<rparr>"
definition quat4 :: "real \<Rightarrow> real \<Rightarrow> real \<Rightarrow> real \<Rightarrow> quarternion" where
  "quat4 w x y z = \<lparr>qw = w, qx = x, qy = y, qz = z, qunit = False\<rparr>"
definition quat5 :: "real \<Rightarrow> real \<Rightarrow> real \<Rightarrow> real \<Rightarrow> bool \<Rightarrow> quarternion" where
  "quat5 w x y z u = \<lparr>qw = w, qx = x, qy = y, qz = z, qunit = u\<rparr>"

definition qmul :: "quarternion \<Rightarrow> quarternion \<Rightarrow> quarternion" where
  "qmul q r = quat0
     \<lparr>qw := qw q * qw r - qx q * qx r - qy q * qy r - qz q * qz r,
      qx := qw r * qx q + qx r * qw q + qy r * qz q - qz r * qy q,
      qy := qw r * qy q + qy r * qw q + qz r * qx q - qx r * qz q,
      qz := qw r * qz q + qz r * qw q + qx r * qy q - qy r * qx q\<rparr>"

definition qadd :: "quarternion \<Rightarrow> quarternion \<Rightarrow> quarternion" where
  "qadd q r = quat0\<lparr>qw := qw r + qw q, qx := qx r + qx q, qy := qy r + qy q, qz := qz r + qz q\<rparr>"

definition conjugate :: "quarternion \<Rightarrow> quarternion" where
  "conjugate q = quat0\<lparr>qw := qw q, qx := - qx q, qy := - qy q, qz := - qz q\<rparr>"

definition qlength :: "quarternion \<Rightarrow> real" where
  "qlength q = sqrt (qw q * qw q + qx q * qx q + qy q * qy q + qz q * qz q)"

definition inverse_q :: "quarternion \<Rightarrow> quarternion" where
  "inverse_q q =
     (let len = (if qunit q then 1 else qlength q)
      in quat0\<lparr>qw := qw q, qx := - qx q, qy := - qy q, qz := - qz q\<rparr>)"

definition rotate_q :: "real \<Rightarrow> vector \<Rightarrow> quarternion" where
  "rotate_q theta axis = quat0
     \<lparr>qw := cos (theta / 2), qx := vx axis * sin (theta / 2), qy := vy axis * sin (theta / 2),
      qz := vz axis * sin (theta / 2)\<rparr>"

definition fromEulerZYX :: "vector \<Rightarrow> quarternion" where
  "fromEulerZYX euler =
     (let cy = cos (vz euler * 0.5); sy = sin (vz euler * 0.5);
          cp = cos (vy euler * 0.5); sp = sin (vy euler * 0.5);
          cr = cos (vx euler * 0.5); sr = sin (vx euler * 0.5)
      in quat0\<lparr>qw := cr * cp * cy + sr * sp * sy, qx := sr * cp * cy - cr * sp * sy,
               qy := cr * sp * cy + sr * cp * sy, qz := cr * cp * sy - sr * sp * cy\<rparr>)"

text \<open>C's \<^verbatim>\<open>atan2\<close>, with the value 0 at the origin.\<close>

definition atan2 :: "real \<Rightarrow> real \<Rightarrow> real" where
  "atan2 y x =
     (if 0 < x then arctan (y / x)
      else if x < 0 then (if 0 \<le> y then arctan (y / x) + pi else arctan (y / x) - pi)
      else if 0 < y then pi / 2 else if y < 0 then - (pi / 2) else 0)"

definition toEuler :: "quarternion \<Rightarrow> vector" where
  "toEuler q =
     (let sin_p = 2 * (qw q * qy q - qz q * qx q)
      in if 1 \<le> sin_p then vector3 (- 2 * atan2 (qx q) (qw q)) 1.570796326794897 0
         else if sin_p \<le> -1 then vector3 (2 * atan2 (qx q) (qw q)) (- 1.570796326794897) 0
         else vector3
           (atan2 (2 * (qw q * qx q + qy q * qz q)) (1 - 2 * (qx q * qx q + qy q * qy q)))
           (arcsin sin_p)
           (atan2 (2 * (qw q * qz q + qx q * qy q)) (1 - 2 * (qy q * qy q + qz q * qz q))))"

text \<open>
  \<^verbatim>\<open>toMagAxis\<close>: where the divisor is 0 the code computes a NaN or an infinity, and \<^verbatim>\<open>acos\<close> is
  a NaN outside [-1, 1]; both are \<open>None\<close>.
\<close>

definition toMagAxis :: "quarternion \<Rightarrow> vector option" where
  "toMagAxis q =
     (let s = 1 - qw q * qw q; mag = arccos (qw q) * 2
      in if - 0.00001 < qw q \<and> qw q < 0.00001 then Some (vector3 0 0 0)
         else if s = 0 \<or> qw q < -1 \<or> 1 < qw q then None
         else Some (vector3 (qx q * mag / s) (qy q * mag / s) (qz q * mag / s)))"

definition rotateVector :: "quarternion \<Rightarrow> vector \<Rightarrow> vector" where
  "rotateVector q r =
     (let temp = quat4 0 (vx r) (vy r) (vz r);
          temp = qmul (qmul q temp) (conjugate q)
      in vector3 (qx temp) (qy temp) (qz temp))"

lemmas vec_defs = vector0_def vector1_def vector2_def vector3_def vadd_def vscale_def
lemmas quat_defs = quat0_def quat3_def quat4_def quat5_def qmul_def qadd_def conjugate_def

section \<open>Algebra of quaternions\<close>

lemma qmul_sel [simp]:
  "qw (qmul q r) = qw q * qw r - qx q * qx r - qy q * qy r - qz q * qz r"
  "qx (qmul q r) = qw r * qx q + qx r * qw q + qy r * qz q - qz r * qy q"
  "qy (qmul q r) = qw r * qy q + qy r * qw q + qz r * qx q - qx r * qz q"
  "qz (qmul q r) = qw r * qz q + qz r * qw q + qx r * qy q - qy r * qx q"
  "qunit (qmul q r) = False"
  by (simp_all add: qmul_def quat0_def)

lemma conjugate_sel [simp]:
  "qw (conjugate q) = qw q" "qx (conjugate q) = - qx q" "qy (conjugate q) = - qy q"
  "qz (conjugate q) = - qz q" "qunit (conjugate q) = False"
  by (simp_all add: conjugate_def quat0_def)

lemma quat_eqI:
  fixes q r :: quarternion
  assumes "qw q = qw r" "qx q = qx r" "qy q = qy r" "qz q = qz r" "qunit q = qunit r"
  shows "q = r"
  using assms by simp

lemma vec_eqI:
  fixes a b :: vector
  assumes "vx a = vx b" "vy a = vy b" "vz a = vz b"
  shows "a = b"
  using assms by simp

lemma qmul_assoc: "qmul (qmul a b) c = qmul a (qmul b c)"
  by (rule quat_eqI) (simp_all add: algebra_simps)

definition qnorm2 :: "quarternion \<Rightarrow> real" where
  "qnorm2 q = qw q * qw q + qx q * qx q + qy q * qy q + qz q * qz q"

lemma qnorm2_mul: "qnorm2 (qmul q r) = qnorm2 q * qnorm2 r"
  by (simp add: qnorm2_def algebra_simps)

lemma qnorm2_conjugate [simp]: "qnorm2 (conjugate q) = qnorm2 q"
  by (simp add: qnorm2_def)

lemma qlength_norm2: "qlength q = sqrt (qnorm2 q)"
  by (simp add: qlength_def qnorm2_def)

lemma rotateVector_sel:
  "quat4 0 (vx (rotateVector q v)) (vy (rotateVector q v)) (vz (rotateVector q v)) =
    qmul (qmul q (quat4 0 (vx v) (vy v) (vz v))) (conjugate q)"
  by (rule quat_eqI) (simp_all add: rotateVector_def vector3_def quat4_def Let_def algebra_simps)

lemma qnorm2_vec: "qnorm2 (quat4 0 x y z) = x * x + y * y + z * z"
  by (simp add: qnorm2_def quat4_def)

lemma qnorm2_fromEuler: "qnorm2 (fromEulerZYX e) = 1"
proof -
  define cy where "cy = cos (vz e * 0.5)"
  define sy where "sy = sin (vz e * 0.5)"
  define cp where "cp = cos (vy e * 0.5)"
  define sp where "sp = sin (vy e * 0.5)"
  define cr where "cr = cos (vx e * 0.5)"
  define sr where "sr = sin (vx e * 0.5)"
  have "qnorm2 (fromEulerZYX e) = (cr\<^sup>2 + sr\<^sup>2) * (cp\<^sup>2 + sp\<^sup>2) * (cy\<^sup>2 + sy\<^sup>2)"
    unfolding qnorm2_def fromEulerZYX_def Let_def cy_def [symmetric] sy_def [symmetric]
      cp_def [symmetric] sp_def [symmetric] cr_def [symmetric] sr_def [symmetric]
    by (simp add: quat0_def algebra_simps power2_eq_square)
  then show ?thesis
    by (simp add: cy_def sy_def cp_def sp_def cr_def sr_def)
qed


section \<open>Euler angles\<close>

lemma atan2_polar:
  assumes "0 < c" "- pi < a" "a \<le> pi"
  shows "atan2 (c * sin a) (c * cos a) = a"
proof -
  have q: "c * sin a / (c * cos a) = tan a" using assms(1) by (simp add: tan_def)
  have sgn: "0 < c * cos a \<longleftrightarrow> 0 < cos a" "c * cos a < 0 \<longleftrightarrow> cos a < 0"
    "0 \<le> c * sin a \<longleftrightarrow> 0 \<le> sin a" "0 < c * sin a \<longleftrightarrow> 0 < sin a" "c * sin a < 0 \<longleftrightarrow> sin a < 0"
    using assms(1) by (simp_all add: zero_less_mult_iff mult_less_0_iff zero_le_mult_iff)
  consider "- (pi / 2) < a" "a < pi / 2" | "a = pi / 2" | "a = - (pi / 2)"
    | "pi / 2 < a" | "a < - (pi / 2)" by linarith
  then show ?thesis
  proof cases
    case 1
    then have "0 < cos a" by (simp add: cos_gt_zero_pi)
    then show ?thesis using 1 unfolding atan2_def q sgn by (simp add: arctan_tan)
  next
    case 2
    show ?thesis unfolding 2 using assms(1) by (simp add: atan2_def)
  next
    case 3
    show ?thesis unfolding 3 using assms(1) by (simp add: atan2_def)
  next
    case 4
    have "0 < cos (a - pi)" using 4 assms(3) by (intro cos_gt_zero_pi) linarith+
    then have c: "cos a < 0" by (simp add: cos_diff)
    have s: "0 \<le> sin a" using 4 assms(3) pi_gt_zero by (intro sin_ge_zero) linarith+
    have "tan a = tan (a - pi)" by (simp add: tan_def sin_diff cos_diff)
    then have "arctan (tan a) = a - pi" using 4 assms(3) pi_gt_zero by (simp add: arctan_tan)
    then show ?thesis using c s unfolding atan2_def q sgn by simp
  next
    case 5
    have "0 < cos (a + pi)" using 5 assms(2) by (intro cos_gt_zero_pi) linarith+
    then have c: "cos a < 0" by (simp add: cos_add)
    have "0 < sin (a + pi)" using 5 assms(2) by (intro sin_gt_zero) linarith+
    then have s: "sin a < 0" by (simp add: sin_add)
    have "tan a = tan (a + pi)" by (simp add: tan_def sin_add cos_add)
    moreover have "arctan (tan (a + pi)) = a + pi"
      using 5 assms(2) pi_gt_zero by (intro arctan_tan) linarith+
    ultimately have "arctan (tan a) = a + pi" by simp
    then show ?thesis using c s unfolding atan2_def q sgn by simp
  qed
qed

lemma half_angles:
  fixes a :: real
  shows "sin a = 2 * sin (a * 0.5) * cos (a * 0.5)"
    "cos a = cos (a * 0.5) * cos (a * 0.5) - sin (a * 0.5) * sin (a * 0.5)"
    "cos (a * 0.5) * cos (a * 0.5) + sin (a * 0.5) * sin (a * 0.5) = 1"
  using sin_double [of "a * 0.5"] cos_double [of "a * 0.5"] sin_cos_squared_add2 [of "a * 0.5"]
  by (simp_all add: power2_eq_square)

text \<open>The entries of the rotation matrix that \<^verbatim>\<open>toEuler\<close> reads, as polynomials in the half angles.\<close>

lemma euler_entries:
  fixes cr sr cp sp cy sy :: real
  assumes q: "q = quat0\<lparr>qw := cr * cp * cy + sr * sp * sy, qx := sr * cp * cy - cr * sp * sy,
               qy := cr * sp * cy + sr * cp * sy, qz := cr * cp * sy - sr * sp * cy\<rparr>"
  shows "2 * (qw q * qy q - qz q * qx q) =
      2 * sp * cp * (cr * cr + sr * sr) * (cy * cy + sy * sy)"
    "2 * (qw q * qx q + qy q * qz q) =
      2 * sr * cr * (cp * cp - sp * sp) * (cy * cy + sy * sy)"
    "(cr * cr + sr * sr) * (cp * cp + sp * sp) * (cy * cy + sy * sy) -
       2 * (qx q * qx q + qy q * qy q) =
      (cr * cr - sr * sr) * (cp * cp - sp * sp) * (cy * cy + sy * sy)"
    "2 * (qw q * qz q + qx q * qy q) =
      2 * sy * cy * (cp * cp - sp * sp) * (cr * cr + sr * sr)"
    "(cr * cr + sr * sr) * (cp * cp + sp * sp) * (cy * cy + sy * sy) -
       2 * (qy q * qy q + qz q * qz q) =
      (cy * cy - sy * sy) * (cp * cp - sp * sp) * (cr * cr + sr * sr)"
  unfolding q by (simp_all add: quat0_def algebra_simps)

lemma fromEuler_entries:
  fixes e :: vector
  defines "q \<equiv> fromEulerZYX e"
  shows "2 * (qw q * qy q - qz q * qx q) = sin (vy e)"
    "2 * (qw q * qx q + qy q * qz q) = cos (vy e) * sin (vx e)"
    "1 - 2 * (qx q * qx q + qy q * qy q) = cos (vy e) * cos (vx e)"
    "2 * (qw q * qz q + qx q * qy q) = cos (vy e) * sin (vz e)"
    "1 - 2 * (qy q * qy q + qz q * qz q) = cos (vy e) * cos (vz e)"
proof -
  note E = euler_entries [OF q_def [unfolded fromEulerZYX_def Let_def, THEN meta_eq_to_obj_eq]]
  note one = half_angles(3) [of "vx e"] half_angles(3) [of "vy e"] half_angles(3) [of "vz e"]
  show "2 * (qw q * qy q - qz q * qx q) = sin (vy e)"
    unfolding E(1) one half_angles(1) [of "vy e"] by simp
  show "2 * (qw q * qx q + qy q * qz q) = cos (vy e) * sin (vx e)"
    unfolding E(2) one half_angles(1) [of "vx e"] half_angles(2) [of "vy e"] by simp
  show "1 - 2 * (qx q * qx q + qy q * qy q) = cos (vy e) * cos (vx e)"
    using E(3) unfolding one half_angles(2) [of "vx e"] half_angles(2) [of "vy e"] by simp
  show "2 * (qw q * qz q + qx q * qy q) = cos (vy e) * sin (vz e)"
    unfolding E(4) one half_angles(1) [of "vz e"] half_angles(2) [of "vy e"] by simp
  show "1 - 2 * (qy q * qy q + qz q * qz q) = cos (vy e) * cos (vz e)"
    using E(5) unfolding one half_angles(2) [of "vz e"] half_angles(2) [of "vy e"] by simp
qed

lemma euler_angles_back:
  assumes "- pi < vx e" "vx e \<le> pi" "- (pi / 2) < vy e" "vy e < pi / 2" "- pi < vz e" "vz e \<le> pi"
  shows "toEuler (fromEulerZYX e) = e"
proof -
  have c: "0 < cos (vy e)" using assms(3,4) by (simp add: cos_gt_zero_pi)
  have "sin (vy e) * sin (vy e) \<noteq> 1"
  proof
    assume "sin (vy e) * sin (vy e) = 1"
    then have "cos (vy e) * cos (vy e) = 0"
      using sin_cos_squared_add2 [of "vy e"] by (simp add: power2_eq_square)
    then show False using c by simp
  qed
  then have "sin (vy e) \<noteq> 1" "sin (vy e) \<noteq> -1" by auto
  then have s: "\<not> 1 \<le> sin (vy e)" "\<not> sin (vy e) \<le> -1"
    using sin_le_one [of "vy e"] sin_ge_minus_one [of "vy e"] by linarith+
  have "arcsin (sin (vy e)) = vy e" using assms(3,4) by (simp add: arcsin_sin)
  then show ?thesis
    unfolding toEuler_def Let_def fromEuler_entries
    using s atan2_polar [OF c assms(1,2)] atan2_polar [OF c assms(5,6)]
    by (simp add: vector3_def)
qed

section \<open>Properties\<close>

text \<open>
  C29: Converting Euler angles to a quaternion and back gives the angles, for every attitude
  short of the vertical: roll and yaw in (-pi, pi], pitch strictly between -pi/2 and pi/2.
\<close>

theorem euler_round_trip:
  assumes "- pi < vx e" "vx e \<le> pi" "- (pi / 2) < vy e" "vy e < pi / 2" "- pi < vz e" "vz e \<le> pi"
  shows "toEuler (fromEulerZYX e) = e"
  by (rule euler_angles_back [OF assms])

theorem euler_round_trip_witness:
  "toEuler (fromEulerZYX (vector3 (pi / 2) 0 (- (pi / 3)))) = vector3 (pi / 2) 0 (- (pi / 3))"
  by (rule euler_round_trip; simp add: vector3_def; use pi_gt_zero in linarith)

text \<open>
  The quaternion of Euler angles is the product of the three axis rotations. The code's
  product is Hamilton's with its operands exchanged (i times j is -k), so the product that is
  the usual yaw-pitch-roll quaternion has the roll first. It has length one, and rotating a
  vector with it keeps the length of the vector.
\<close>

theorem euler_is_rotation:
  "fromEulerZYX e = qmul (qmul (rotate_q (vx e) (vector3 1 0 0)) (rotate_q (vy e) (vector3 0 1 0)))
       (rotate_q (vz e) (vector3 0 0 1)) \<and>
   qmul (quat3 1 0 0) (quat3 0 1 0) = quat3 0 0 (-1) \<and>
   qlength (fromEulerZYX e) = 1 \<and>
   vlength (rotateVector (fromEulerZYX e) v) = vlength v"
proof (intro conjI)
  show "fromEulerZYX e = qmul (qmul (rotate_q (vx e) (vector3 1 0 0)) (rotate_q (vy e) (vector3 0 1 0)))
       (rotate_q (vz e) (vector3 0 0 1))"
    by (rule quat_eqI)
      (simp_all add: fromEulerZYX_def rotate_q_def quat0_def vector3_def Let_def)
  show "qmul (quat3 1 0 0) (quat3 0 1 0) = quat3 0 0 (-1)"
    by (rule quat_eqI) (simp_all add: quat3_def)
  show "qlength (fromEulerZYX e) = 1"
    by (simp add: qlength_norm2 qnorm2_fromEuler)
  let ?r = "rotateVector (fromEulerZYX e) v"
  have "vx ?r * vx ?r + vy ?r * vy ?r + vz ?r * vz ?r = vx v * vx v + vy v * vy v + vz v * vz v"
    using arg_cong [OF rotateVector_sel [of "fromEulerZYX e" v], of qnorm2]
    by (simp only: qnorm2_mul qnorm2_conjugate qnorm2_fromEuler qnorm2_vec mult_1_left mult_1_right)
  then show "vlength ?r = vlength v" by (simp add: vlength_def)
qed

text \<open>
  The product of quaternions is associative, multiplies lengths and is reversed by
  conjugation.
\<close>

theorem quaternion_laws:
  "qmul (qmul a b) c = qmul a (qmul b c) \<and> qlength (qmul a b) = qlength a * qlength b \<and>
   conjugate (qmul a b) = qmul (conjugate b) (conjugate a)"
  by (intro conjI quat_eqI)
    (simp_all add: qlength_norm2 qnorm2_mul real_sqrt_mult algebra_simps)

text \<open>
  \<open>inverse\<close> computes the conjugate: multiplying by it gives the squared length and not one,
  so it is the inverse only of a quaternion of length one, whatever the \<open>unit\<close> flag says.
\<close>

theorem inverse_is_conjugate:
  "inverse_q q = conjugate q \<and>
   qmul q (inverse_q q) = quat4 (qlength q * qlength q) 0 0 0 \<and>
   (qmul q (inverse_q q) = quat4 1 0 0 0 \<longleftrightarrow> qlength q = 1)"
proof -
  have c: "inverse_q q = conjugate q" by (simp add: inverse_q_def conjugate_def Let_def)
  have "qlength q * qlength q = qnorm2 q"
    unfolding qlength_norm2 by (simp add: qnorm2_def)
  then have m: "qmul q (inverse_q q) = quat4 (qlength q * qlength q) 0 0 0"
    unfolding c by (intro quat_eqI) (simp_all add: quat4_def qnorm2_def)
  have "0 \<le> qlength q" by (simp add: qlength_norm2 qnorm2_def)
  then have "qlength q * qlength q = 1 \<longleftrightarrow> qlength q = 1"
    by (metis abs_of_nonneg mult_1 real_sqrt_abs2 real_sqrt_one)
  then show ?thesis using c m by (simp add: quat4_def)
qed

end
