(* ===== verification/Guidance.thy ===== *)
theory Guidance
  imports StrUtils Logger MathLib
begin

text \<open>
  \<^verbatim>\<open>src/guidance/auto_com.cpp\<close>: the search for the centre of mass. The process listens to the
  attitude messages of the sensor unit, ramps the thrust up until the craft tips, halves the
  interval of the correction factor according to the side it tips to, and waits until the craft
  is at rest again; seven times.
\<close>

section \<open>State\<close>

text \<open>
  The global factor and the variables of \<^verbatim>\<open>main\<close> that live through the iterations, and the
  values of the options (the option parser is a vendored library).
\<close>

record guidance =
  factor :: real
  com_min :: real
  com_max :: real
  euler :: vector
  euler_rate :: vector
  acceleration :: vector

record gparams =
  max_thrust :: real
  ramp_thrust :: real
  ramp_interval :: int

definition guidance_init :: guidance where
  "guidance_init = \<lparr>factor = 0.5, com_min = 0.0, com_max = 1.0, euler = vector0,
     euler_rate = vector0, acceleration = vector0\<rparr>"

definition angle_confirm :: real where "angle_confirm = 2 * DEG_TO_RAD"
definition angle_rest :: real where "angle_rest = 1 * DEG_TO_RAD"

section \<open>Operations\<close>

text \<open>A division by a factor of 0 would print an infinity or a NaN; the model reports it.\<close>

definition thrust_payload :: "real \<Rightarrow> real \<Rightarrow> string" where
  "thrust_payload f thrust =
     (let a = to_string thrust;
          b = to_string (thrust * (1 - f) / f)
      in a @ '' '' @ a @ '' '' @ b @ '' '' @ b)"

definition set_thrust :: "'w kernel \<Rightarrow> real \<Rightarrow> real \<Rightarrow> ('w, unit) io" where
  "set_thrust k f thrust =
     (if f = 0 then io_fail Div_by_zero
      else mqtt_publish k ''motors/speed'' (thrust_payload f thrust))"

definition sigint_handle :: "'w kernel \<Rightarrow> guidance \<Rightarrow> ('w, unit) io" where
  "sigint_handle k g = io_bind (set_thrust k (factor g) 0) (\<lambda>_. io_fail (Exited 0))"

definition process_message_string :: "string \<Rightarrow> guidance \<Rightarrow> fault + guidance" where
  "process_message_string msg g =
     (case stod_tokens 9 (tokenizer_new msg CHR '' '') of
        Inl e \<Rightarrow> Inl e
      | Inr (v, t) \<Rightarrow> Inr (g
          \<lparr>acceleration := (acceleration g)\<lparr>vx := v ! 0, vy := v ! 1, vz := v ! 2\<rparr>,
           euler := (euler g)\<lparr>vz := v ! 3\<rparr>\<lparr>vy := v ! 4\<rparr>\<lparr>vz := v ! 5\<rparr>,
           euler_rate := (euler_rate g)\<lparr>vz := v ! 6\<rparr>\<lparr>vy := v ! 7\<rparr>\<lparr>vz := v ! 8\<rparr>\<rparr>))"

definition wall_time :: "'w kernel \<Rightarrow> ('w, int) io" where
  "wall_time k w = (let (t, w) = ask k (Now Wall) w in (Inr t, w))"

definition fmt6 :: "real \<Rightarrow> string" where
  "fmt6 x = fmt_f 0 6 x"

text \<open>The end of a round in which the craft has not tipped: ramp the thrust up when it is time to.\<close>

definition ramp_step ::
  "'w kernel \<Rightarrow> gparams \<Rightarrow> int \<Rightarrow> guidance \<times> real \<times> int \<Rightarrow> ('w, guidance \<times> real \<times> int) io" where
  "ramp_step k P start = (\<lambda>(g, thrust, nxt).
     io_bind (wall_time k) (\<lambda>endt.
       if nxt < endt - start \<and> thrust < max_thrust P then
         if \<not> int_ok (nxt + ramp_interval P) then io_fail Undefined_behaviour
         else
           (let nxt = nxt + ramp_interval P; thrust = thrust + ramp_thrust P
            in io_bind (set_thrust k (factor g) thrust) (\<lambda>_.
               io_bind (logger_log k True (''Ramping thrust up to '' @ fmt6 thrust @ '' %'')) (\<lambda>_.
               io_return (g, thrust, nxt))))
       else io_return (g, thrust, nxt)))"

text \<open>
  One round of the first loop of an iteration: the flag says whether it was left by \<^verbatim>\<open>break\<close>.
  \<open>start\<close>, \<open>thrust\<close> and \<open>nxt\<close> are the loop's variables of these names (\<^verbatim>\<open>next\<close>).
\<close>

definition watch_step ::
  "'w kernel \<Rightarrow> gparams \<Rightarrow> int \<Rightarrow> guidance \<times> real \<times> int \<Rightarrow> ('w, bool \<times> guidance \<times> real \<times> int) io" where
  "watch_step k P start = (\<lambda>(g, thrust, nxt).
     io_bind (mqtt_consume k) (\<lambda>m.
       case m of
         None \<Rightarrow> io_return (False, g, thrust, nxt)
       | Some (topic, msg) \<Rightarrow>
           io_bind (io_lift (process_message_string msg g)) (\<lambda>g.
             if angle_confirm < vy (euler g) then
               io_bind (logger_log k True (''factor '' @ fmt6 (factor g) @ '' is too big'')) (\<lambda>_.
               io_return (True, g\<lparr>com_max := factor g\<rparr>, thrust, nxt))
             else if vy (euler g) < - angle_confirm then
               io_bind (logger_log k True (''factor '' @ fmt6 (factor g) @ '' is too small'')) (\<lambda>_.
               io_return (True, g\<lparr>com_min := factor g\<rparr>, thrust, nxt))
             else
               io_bind (ramp_step k P start (g, thrust, nxt)) (\<lambda>s. io_return (False, s)))))"

primrec watch ::
  "nat \<Rightarrow> 'w kernel \<Rightarrow> gparams \<Rightarrow> int \<Rightarrow> guidance \<times> real \<times> int \<Rightarrow> ('w, bool \<times> guidance) io" where
  "watch 0 k P start s = io_return (False, fst s)"
| "watch (Suc n) k P start s =
     io_bind (watch_step k P start s) (\<lambda>(left, s).
       if left then io_return (True, fst s) else watch n k P start s)"

definition rest_step :: "'w kernel \<Rightarrow> guidance \<Rightarrow> ('w, bool \<times> guidance) io" where
  "rest_step k g =
     io_bind (mqtt_consume k) (\<lambda>m.
       case m of
         None \<Rightarrow> io_return (False, g)
       | Some (topic, msg) \<Rightarrow>
           io_bind (io_lift (process_message_string msg g)) (\<lambda>g.
             if vy (euler g) < angle_rest \<and> - angle_rest < vy (euler g) then
               io_bind (logger_log k True ''drone has returned to rest'') (\<lambda>_. io_return (True, g))
             else io_return (False, g)))"

primrec rest :: "nat \<Rightarrow> 'w kernel \<Rightarrow> guidance \<Rightarrow> ('w, bool \<times> guidance) io" where
  "rest 0 k g = io_return (False, g)"
| "rest (Suc n) k g =
     io_bind (rest_step k g) (\<lambda>(left, g). if left then io_return (True, g) else rest n k g)"

text \<open>
  One iteration of the search. \<open>fuel\<close> bounds the rounds of each of its two loops; the flag of
  the result is false when it was not enough.
\<close>

definition com_iteration :: "nat \<Rightarrow> 'w kernel \<Rightarrow> gparams \<Rightarrow> nat \<Rightarrow> guidance \<Rightarrow> ('w, bool \<times> guidance) io" where
  "com_iteration fuel k P i g =
     (let g = g\<lparr>factor := (com_max g + com_min g) / 2\<rparr>
      in io_bind (logger_log k True (''Iteration '' @ fmt_d (int i) @ '' - Factor: '' @ fmt6 (factor g))) (\<lambda>_.
         io_bind (wall_time k) (\<lambda>start.
         io_bind (set_thrust k (factor g) 0.14) (\<lambda>_.
         io_bind (watch fuel k P start (g, 0.14, ramp_interval P)) (\<lambda>(left, g).
           if \<not> left then io_return (False, g)
           else
             io_bind (set_thrust k (factor g) 0.14) (\<lambda>_.
             io_bind (rest fuel k g) (\<lambda>(left, g).
               if \<not> left then io_return (False, g)
               else io_bind (io_act (call k (Usleep 2000000))) (\<lambda>_. io_return (True, g)))))))))"

primrec com_search :: "nat \<Rightarrow> nat \<Rightarrow> 'w kernel \<Rightarrow> gparams \<Rightarrow> nat \<Rightarrow> guidance \<Rightarrow> ('w, bool \<times> guidance) io" where
  "com_search 0 fuel k P i g = io_return (True, g)"
| "com_search (Suc n) fuel k P i g =
     io_bind (com_iteration fuel k P i g) (\<lambda>(left, g).
       if left then com_search n fuel k P (Suc i) g else io_return (False, g))"

definition guidance_run :: "nat \<Rightarrow> 'w kernel \<Rightarrow> gparams \<Rightarrow> ('w, bool \<times> guidance) io" where
  "guidance_run fuel k P =
     io_bind (logger_log k (bind_client False)
        (''Max Thrust: '' @ fmt6 (max_thrust P) @ '', Ramp-up Thrust: '' @ fmt6 (ramp_thrust P) @
         '', Ramp-up Interval: '' @ fmt_d (ramp_interval P) @ '' s'')) (\<lambda>_.
     io_bind (com_search 7 fuel k P 0 guidance_init) (\<lambda>(left, g).
       if \<not> left then io_return (False, g)
       else io_bind (logger_log k True (''Result: '' @ fmt6 (factor g))) (\<lambda>_. io_return (True, g))))"

definition guidance_main :: "nat \<Rightarrow> 'w kernel \<Rightarrow> gparams \<Rightarrow> ('w, bool \<times> guidance) io" where
  "guidance_main fuel k P =
     io_bind (mqtt_connect k) (\<lambda>_.
     io_bind (mqtt_subscribe k ''adiru/full'') (\<lambda>_.
     guidance_run fuel k P))"

section \<open>What one round, one loop and one iteration do to the interval\<close>

text \<open>
  \<open>same_bracket\<close>: the search variables are untouched. \<open>tipped\<close>: the last attitude is past the
  threshold and the bound on its side has moved to the factor. \<open>decided\<close>: one of the two bounds
  has, whatever the attitude is now.
\<close>

definition same_bracket :: "guidance \<Rightarrow> guidance \<Rightarrow> bool" where
  "same_bracket g h \<longleftrightarrow> factor h = factor g \<and> com_min h = com_min g \<and> com_max h = com_max g"

definition tipped :: "guidance \<Rightarrow> guidance \<Rightarrow> bool" where
  "tipped g h \<longleftrightarrow> factor h = factor g \<and>
     (angle_confirm < vy (euler h) \<and> com_max h = factor g \<and> com_min h = com_min g \<or>
      vy (euler h) < - angle_confirm \<and> com_min h = factor g \<and> com_max h = com_max g)"

definition decided :: "guidance \<Rightarrow> guidance \<Rightarrow> bool" where
  "decided g h \<longleftrightarrow> factor h = factor g \<and>
     (com_max h = factor g \<and> com_min h = com_min g \<or> com_min h = factor g \<and> com_max h = com_max g)"

lemma same_bracket_trans: "same_bracket g h \<Longrightarrow> same_bracket h i \<Longrightarrow> same_bracket g i"
  by (simp add: same_bracket_def)

lemma same_bracket_tipped: "same_bracket g h \<Longrightarrow> tipped h i \<Longrightarrow> tipped g i"
  by (auto simp: same_bracket_def tipped_def)

lemma tipped_same_bracket: "tipped g h \<Longrightarrow> same_bracket h i \<Longrightarrow> decided g i"
  by (auto simp: same_bracket_def tipped_def decided_def)

definition no_trap :: "fault \<Rightarrow> 'w \<Rightarrow> bool" where
  "no_trap e w \<longleftrightarrow> e \<noteq> Div_by_zero"

lemma triple_publish: "triple P (mqtt_publish k t m) no_trap (\<lambda>_ _. True)"
  by (auto simp: triple_def mqtt_publish_def mqtt_call_def no_trap_def Let_def
      split: prod.splits if_splits)

lemma triple_log: "triple P (logger_log k b s) no_trap (\<lambda>_ _. True)"
proof (cases b)
  case True
  have "triple P (mqtt_publish k ''log'' s) no_trap (\<lambda>_ _. True)" by (rule triple_publish)
  moreover have "triple (\<lambda>_. True) (io_bind (io_lift (print_line s)) (\<lambda>t. io_act (call k (Puts t))))
      no_trap (\<lambda>_ _. True)"
    by (rule triple_bind [where R = "\<lambda>_ _. True"])
      (auto intro!: triple_lift triple_act simp: no_trap_def dest: print_line_fault)
  ultimately show ?thesis
    unfolding logger_log_def using True by (auto intro: triple_bind [where R = "\<lambda>_ _. True"])
next
  case False
  then show ?thesis by (auto simp: logger_log_def no_trap_def intro!: triple_fail)
qed

lemma triple_set_thrust: "f \<noteq> 0 \<Longrightarrow> triple P (set_thrust k f t) no_trap (\<lambda>_ _. True)"
  by (simp add: set_thrust_def triple_publish)

lemma triple_consume: "triple P (mqtt_consume k) no_trap (\<lambda>_ _. True)"
  by (auto simp: triple_def mqtt_consume_def no_trap_def split: prod.splits option.splits if_splits)

lemma triple_time: "triple P (wall_time k) no_trap (\<lambda>_ _. True)"
  by (auto simp: triple_def wall_time_def split: prod.splits)

lemma stod_tokens_fault: "stod_tokens n t = Inl e \<Longrightarrow> e \<noteq> Div_by_zero"
  by (induction n arbitrary: t)
    (auto simp: stod_token_def split: sum.splits prod.splits dest: stod_fault next_token_fault)

lemma triple_process:
  "triple P (io_lift (process_message_string msg g)) no_trap (\<lambda>h _. same_bracket g h)"
  by (rule triple_lift)
    (auto simp: process_message_string_def no_trap_def same_bracket_def split: sum.splits
      dest: stod_tokens_fault)

lemmas triples = triple_bind [where R = "\<lambda>_ _. True"] triple_log triple_set_thrust triple_time
  triple_return triple_fail triple_act triple_if

lemma ramp_step_triple:
  assumes "factor g \<noteq> 0"
  shows "triple P' (ramp_step k P start (g, thrust, nxt)) no_trap
    (\<lambda>(h, thrust', nxt') _. h = g \<and>
       (thrust' = thrust \<or> thrust < max_thrust P \<and> thrust' = thrust + ramp_thrust P))"
  unfolding ramp_step_def split Let_def using assms
  by (intro triples) (auto simp: no_trap_def)

lemma watch_step_triple:
  assumes "factor g \<noteq> 0"
  shows "triple P' (watch_step k P start (g, thrust, nxt)) no_trap
    (\<lambda>(left, h, _) _. if left then tipped g h else same_bracket g h)"
  unfolding watch_step_def split
proof (rule triple_bind [OF triple_consume], goal_cases)
  case (1 m)
  show ?case
  proof (cases m)
    case None
    then show ?thesis by (auto intro!: triple_return simp: same_bracket_def)
  next
    case (Some tm)
    obtain topic msg where tm: "tm = (topic, msg)" by fastforce
    show ?thesis
      unfolding Some tm option.case split
    proof (rule triple_bind [OF triple_process], goal_cases)
      case (1 h)
      show ?case
      proof (cases "same_bracket g h")
        case True
        then have "factor h \<noteq> 0" using assms by (simp add: same_bracket_def)
        note ramp = ramp_step_triple [OF this, where P' = "\<lambda>_. True"]
        show ?thesis
        proof (rule triple_if, goal_cases)
          case 2
          show ?case
          proof (rule triple_if, goal_cases)
            case 2
            show ?case
              by (rule triple_weaken [OF triple_bind [OF ramp], where P' = "\<lambda>w. same_bracket g h"
                    and Q' = "\<lambda>(left, h, _) _. if left then tipped g h else same_bracket g h"])
                (auto simp: triple_def io_return_def True)
          qed (intro triples; use True in \<open>auto simp: tipped_def same_bracket_def\<close>)
        qed (intro triples; use True in \<open>auto simp: tipped_def same_bracket_def\<close>)
      next
        case False
        then show ?thesis by (simp add: triple_def)
      qed
    qed
  qed
qed

lemma watch_triple:
  "factor (fst s) \<noteq> 0 \<Longrightarrow> triple P' (watch n k P start s) no_trap
    (\<lambda>(left, h) _. if left then tipped (fst s) h else same_bracket (fst s) h)"
proof (induction n arbitrary: s P')
  case 0
  show ?case by (auto intro!: triple_return simp: same_bracket_def)
next
  case (Suc n)
  obtain g thrust nxt where s: "s = (g, thrust, nxt)" by (cases s)
  have g: "factor g \<noteq> 0" using Suc.prems s by simp
  show ?case
    unfolding watch.simps s
  proof (rule triple_bind [OF watch_step_triple [OF g]], goal_cases)
    case (1 x)
    obtain left h r where x: "x = (left, h, r)" by (cases x)
    show ?case
    proof (cases "left \<or> \<not> same_bracket g h")
      case True
      then show ?thesis by (auto simp: x triple_def io_return_def)
    next
      case False
      then have f: "factor h \<noteq> 0" "same_bracket g h" using g by (simp_all add: same_bracket_def)
      have "triple (\<lambda>_. True) (watch n k P start (h, r)) no_trap
          (\<lambda>(left, i) _. if left then tipped h i else same_bracket h i)"
        by (rule Suc.IH [of "(h, r)" "\<lambda>_. True", unfolded fst_conv, OF f(1)])
      then show ?thesis
        using False f(2)
        by (auto simp: x elim!: triple_weaken split: if_splits
            intro: same_bracket_trans same_bracket_tipped)
    qed
  qed
qed

lemma rest_triple: "triple P' (rest n k g) no_trap (\<lambda>(left, h) _. same_bracket g h)"
proof (induction n arbitrary: g P')
  case 0
  show ?case by (auto intro!: triple_return simp: same_bracket_def)
next
  case (Suc n)
  have step: "triple P' (rest_step k g) no_trap (\<lambda>(left, h) _. same_bracket g h)"
    unfolding rest_step_def
  proof (rule triple_bind [OF triple_consume], goal_cases)
    case (1 m)
    show ?case
    proof (cases m)
      case None
      then show ?thesis by (auto intro!: triple_return simp: same_bracket_def)
    next
      case (Some tm)
      obtain topic msg where tm: "tm = (topic, msg)" by fastforce
      show ?thesis
        unfolding Some tm option.case split
      proof (rule triple_bind [OF triple_process], goal_cases)
        case (1 h)
        show ?case
          by (cases "same_bracket g h", intro triples, auto simp: triple_def)
      qed
    qed
  qed
  show ?case
    unfolding rest.simps
  proof (rule triple_bind [OF step], goal_cases)
    case (1 x)
    obtain left h where x: "x = (left, h)" by (cases x)
    show ?case
    proof (cases "left \<or> \<not> same_bracket g h")
      case True
      then show ?thesis by (auto simp: x triple_def io_return_def)
    next
      case False
      then show ?thesis
        using Suc.IH [of "\<lambda>_. True" h]
        by (auto simp: x elim!: triple_weaken intro: same_bracket_trans)
    qed
  qed
qed

text \<open>A completed iteration halves the interval; an unfinished one keeps a proper interval.\<close>

definition proper :: "guidance \<Rightarrow> bool" where
  "proper g \<longleftrightarrow> 0 \<le> com_min g \<and> com_min g < com_max g \<and> com_max g \<le> 1"

definition halved :: "guidance \<Rightarrow> guidance \<Rightarrow> bool" where
  "halved g h \<longleftrightarrow> factor h = (com_max g + com_min g) / 2 \<and>
     (com_max h = factor h \<and> com_min h = com_min g \<or> com_min h = factor h \<and> com_max h = com_max g)"

lemma halved_proper: "proper g \<Longrightarrow> halved g h \<Longrightarrow> proper h"
  by (auto simp: proper_def halved_def field_simps)

lemma com_iteration_triple:
  assumes "proper g"
  shows "triple P' (com_iteration fuel k P i g) no_trap
    (\<lambda>(left, h) _. proper h \<and> (left \<longrightarrow> halved g h))"
proof -
  define g' where "g' = g\<lparr>factor := (com_max g + com_min g) / 2\<rparr>"
  have g': "factor g' \<noteq> 0" "factor g' = (com_max g + com_min g) / 2" "com_min g' = com_min g"
    "com_max g' = com_max g"
    using assms by (auto simp: g'_def proper_def)
  have same: "proper h" if "same_bracket g' h" for h
    using assms that g' by (simp add: same_bracket_def proper_def)
  have half: "halved g h" if "decided g' h" for h
    using that g' by (auto simp: decided_def halved_def)
  have half': "decided g' h" if "tipped g' h" for h
    using tipped_same_bracket [OF that, of h] by (simp add: same_bracket_def)
  show ?thesis
    unfolding com_iteration_def Let_def g'_def [symmetric]
  proof (rule triple_bind [OF triple_log], rule triple_bind [OF triple_time],
      rule triple_bind [OF triple_set_thrust [OF g'(1)]], goal_cases)
    case (1 _ start _)
    show ?case
    proof (rule triple_bind [OF watch_triple], goal_cases)
      case 1
      show ?case using g'(1) by simp
    next
      case (2 x)
      obtain left h where x: "x = (left, h)" by (cases x)
      show ?case
      proof (cases "left \<and> tipped g' h")
        case False
        then show ?thesis by (auto simp: x triple_def io_return_def dest: same)
      next
        case True
        then have h: "factor h \<noteq> 0" "left" "tipped g' h" using g'(1) by (auto simp: tipped_def)
        have "triple (\<lambda>_. True) (io_bind (set_thrust k (factor h) 0.14) (\<lambda>_.
             io_bind (rest fuel k h) (\<lambda>(left, g).
               if \<not> left then io_return (False, g)
               else io_bind (io_act (call k (Usleep 2000000))) (\<lambda>_. io_return (True, g))))) no_trap
            (\<lambda>(left, h) _. proper h \<and> (left \<longrightarrow> halved g h))"
        proof (rule triple_bind [OF triple_set_thrust [OF h(1)]], rule triple_bind [OF rest_triple], goal_cases)
          case (1 _ y)
          have "proper (snd y) \<and> halved g (snd y)" if "same_bracket h (snd y)"
            using half [OF tipped_same_bracket [OF h(3) that]] halved_proper [OF assms] by simp
          then show ?case
            by (auto simp: triple_def io_return_def io_bind_def io_act_def split: prod.splits if_splits)
        qed
        then show ?thesis using h by (simp add: x triple_def)
      qed
    qed
  qed
qed

section \<open>Runs of the search\<close>

text \<open>
  A run as a chain of completed iterations, with the list of the states after each: what
  \<open>com_search\<close> computes when it finishes.
\<close>

inductive com_run ::
  "nat \<Rightarrow> 'w kernel \<Rightarrow> gparams \<Rightarrow> nat \<Rightarrow> guidance \<times> 'w \<Rightarrow> guidance list \<Rightarrow> guidance \<times> 'w \<Rightarrow> bool"
  for fuel k P where
  run_done: "com_run fuel k P i s [] s"
| run_step: "com_iteration fuel k P i g w = (Inr (True, h), w1) \<Longrightarrow>
    com_run fuel k P (Suc i) (h, w1) hs s \<Longrightarrow> com_run fuel k P i (g, w) (h # hs) s"

inductive_cases com_run_nilE: "com_run fuel k P i s [] t"
inductive_cases com_run_consE: "com_run fuel k P i s (h # hs) t"

lemma com_search_run:
  "com_search n fuel k P i g w = (Inr (True, h), w') \<longleftrightarrow>
     (\<exists>hs. length hs = n \<and> com_run fuel k P i (g, w) hs (h, w'))"
proof (induction n arbitrary: i g w)
  case 0
  show ?case by (auto simp: io_return_def intro: run_done elim: com_run_nilE)
next
  case (Suc n)
  have "com_search (Suc n) fuel k P i g w = (Inr (True, h), w') \<longleftrightarrow>
      (\<exists>h1 w1. com_iteration fuel k P i g w = (Inr (True, h1), w1) \<and>
         com_search n fuel k P (Suc i) h1 w1 = (Inr (True, h), w'))"
    by (auto simp: io_bind_def io_return_def split: prod.splits sum.splits)
  also have "\<dots> \<longleftrightarrow> (\<exists>hs. length hs = Suc n \<and> com_run fuel k P i (g, w) hs (h, w'))"
    unfolding Suc.IH
  proof (intro iffI; elim exE conjE)
    fix h1 w1 hs
    assume "com_iteration fuel k P i g w = (Inr (True, h1), w1)"
      "length hs = n" "com_run fuel k P (Suc i) (h1, w1) hs (h, w')"
    then show "\<exists>hs. length hs = Suc n \<and> com_run fuel k P i (g, w) hs (h, w')"
      by (intro exI [of _ "h1 # hs"]) (simp add: run_step)
  next
    fix hs
    assume "length hs = Suc n" "com_run fuel k P i (g, w) hs (h, w')"
    then show "\<exists>h1 w1. com_iteration fuel k P i g w = (Inr (True, h1), w1) \<and>
        (\<exists>hs. length hs = n \<and> com_run fuel k P (Suc i) (h1, w1) hs (h, w'))"
      by (cases hs) (auto elim!: com_run_consE)
  qed
  finally show ?case .
qed

lemma com_search_triple:
  "proper g \<Longrightarrow> triple P' (com_search n fuel k P i g) no_trap (\<lambda>(left, h) _. proper h)"
proof (induction n arbitrary: i g P')
  case 0
  then show ?case by (auto intro!: triple_return)
next
  case (Suc n)
  show ?case
    unfolding com_search.simps
  proof (rule triple_bind [OF com_iteration_triple [OF Suc.prems]], goal_cases)
    case (1 x)
    obtain left h where x: "x = (left, h)" by (cases x)
    show ?case
    proof (cases "left \<and> proper h")
      case True
      then have "triple (\<lambda>_. True) (com_search n fuel k P (Suc i) h) no_trap (\<lambda>(left, h) _. proper h)"
        using Suc.IH by blast
      then show ?thesis using True by (auto simp: x elim: triple_weaken)
    next
      case False
      then show ?thesis by (auto simp: x triple_def io_return_def)
    qed
  qed
qed

text \<open>A verdict is right about a balance factor \<open>b\<close> when the bound it moves stays on \<open>b\<close>'s side.\<close>

definition right_about :: "real \<Rightarrow> guidance \<Rightarrow> bool" where
  "right_about b h \<longleftrightarrow>
     (com_max h = factor h \<longrightarrow> b \<le> factor h) \<and> (com_min h = factor h \<longrightarrow> factor h \<le> b)"

lemma com_run_bracket:
  assumes "com_run fuel k P i s hs t" "proper (fst s)"
  shows "proper (fst t) \<and> com_max (fst t) - com_min (fst t) = (com_max (fst s) - com_min (fst s)) / 2 ^ length hs \<and>
    (com_min (fst s) \<le> b \<longrightarrow> b \<le> com_max (fst s) \<longrightarrow> (\<forall>h \<in> set hs. right_about b h) \<longrightarrow>
       com_min (fst t) \<le> b \<and> b \<le> com_max (fst t)) \<and>
    (hs \<noteq> [] \<longrightarrow> last hs = fst t \<and> factor (fst t) \<in> {com_min (fst t), com_max (fst t)} \<and>
       (com_max (fst s) - com_min (fst s)) / 2 ^ length hs \<le> factor (fst t) - com_min (fst s) \<and>
       (com_max (fst s) - com_min (fst s)) / 2 ^ length hs \<le> com_max (fst s) - factor (fst t))"
  using assms
proof (induction rule: com_run.induct)
  case (run_done i s)
  then show ?case by simp
next
  case (run_step i g w h w1 hs s)
  have g: "proper g" using run_step.prems by simp
  have h: "proper h" "halved g h"
    using triple_use [OF com_iteration_triple [OF g, where P' = "\<lambda>_. True"] run_step.hyps(1)] by simp_all
  have w: "com_max h - com_min h = (com_max g - com_min g) / 2" "com_min g \<le> com_min h"
    "com_max h \<le> com_max g"
    using h(2) g by (auto simp: halved_def proper_def field_simps)
  note IH = run_step.IH [unfolded fst_conv, OF h(1)]
  have right: "com_min h \<le> b \<and> b \<le> com_max h"
    if "com_min g \<le> b" "b \<le> com_max g" "right_about b h"
    using that h(2) by (auto simp: halved_def right_about_def)
  show ?case
  proof (cases "hs = []")
    case True
    then have "s = (h, w1)" using run_step.hyps(2) by (auto elim: com_run_nilE)
    then show ?thesis
      using True h w(1) right by (auto simp: halved_def field_simps)
  next
    case False
    then show ?thesis
      using IH right w(2,3) by (auto simp: w(1))
  qed
qed

section \<open>Termination\<close>

text \<open>
  What the search needs from outside to finish. \<open>tip\<close> and \<open>still\<close> bound how many more messages
  can be consumed before one reports a tipped craft and before one reports a craft at rest; no
  other call raises them. Messages parse, the broker is up and the clock stays in a window of
  \<open>2 ^ 30\<close> seconds (about 34 years).
\<close>

definition attentive :: "'w kernel \<Rightarrow> ('w \<Rightarrow> nat) \<Rightarrow> ('w \<Rightarrow> nat) \<Rightarrow> nat \<Rightarrow> bool" where
  "attentive k tip still N \<longleftrightarrow>
     broker_up k \<and> (\<forall>w. tip w < N \<and> still w < N) \<and>
     (\<forall>q w. q \<noteq> Mqtt_consume \<longrightarrow> tip (call k q w) \<le> tip w \<and> still (call k q w) \<le> still w) \<and>
     (\<exists>t0. \<forall>w. t0 \<le> rval (fst (k (Now Wall) w)) \<and> rval (fst (k (Now Wall) w)) < t0 + 2 ^ 30) \<and>
     (\<forall>w. case k Mqtt_consume w of (a, w') \<Rightarrow>
        if rval a = 0 then tip w' < tip w \<and> still w' < still w
        else \<exists>topic msg vs t. rmsg a = Some (topic, msg) \<and>
          stod_tokens 9 (tokenizer_new msg CHR '' '') = Inr (vs, t) \<and>
          (angle_confirm < \<bar>vs ! 4\<bar> \<or> tip w' < tip w) \<and> (\<bar>vs ! 4\<bar> < angle_rest \<or> still w' < still w))"

text \<open>A view that no call but the consumption of a message raises.\<close>

definition calm :: "'w kernel \<Rightarrow> ('w \<Rightarrow> nat) \<Rightarrow> bool" where
  "calm k f \<longleftrightarrow> (\<forall>q w. q \<noteq> Mqtt_consume \<longrightarrow> f (call k q w) \<le> f w)"

lemma attentive_parts:
  assumes "attentive k tip still N"
  shows "broker_up k" "tip w < N" "still w < N" "calm k tip" "calm k still"
  using assms by (simp_all add: attentive_def calm_def)

definition never :: "fault \<Rightarrow> 'w \<Rightarrow> bool" where
  "never e w \<longleftrightarrow> False"

lemma steady_call: "calm k f \<Longrightarrow> q \<noteq> Mqtt_consume \<Longrightarrow> f w < n \<Longrightarrow> f (call k q w) < n"
  unfolding calm_def by (meson le_less_trans)

lemma log_returns:
  assumes "broker_up k" "calm k f" "LBRACE \<notin> set s" "RBRACE \<notin> set s"
  shows "triple (\<lambda>w. f w < n) (logger_log k True s) never (\<lambda>_ w. f w < n)"
  using steady_call [OF assms(2)] print_line_id [OF assms(3,4)]
  by (simp add: logger_log_def broker_calls [OF assms(1)] triple_def fault_simps io_bind_def io_act_def io_lift_def)

lemma thrust_returns:
  assumes "broker_up k" "calm k f" "c \<noteq> 0"
  shows "triple (\<lambda>w. f w < n) (set_thrust k c t) never (\<lambda>_ w. f w < n)"
  using steady_call [OF assms(2)] assms(3)
  by (simp add: set_thrust_def broker_calls [OF assms(1)] triple_def io_act_def)

lemma time_returns:
  assumes "attentive k tip still N" "calm k f"
  shows "\<exists>t0. \<forall>n. triple (\<lambda>w. f w < n) (wall_time k) never (\<lambda>t w. f w < n \<and> t0 \<le> t \<and> t < t0 + 2 ^ 30)"
proof -
  obtain t0 where "\<forall>w. t0 \<le> rval (fst (k (Now Wall) w)) \<and> rval (fst (k (Now Wall) w)) < t0 + 2 ^ 30"
    using assms(1) unfolding attentive_def by blast
  moreover have "f (snd (k (Now Wall) w)) < n" if "f w < n" for w n
    using steady_call [OF assms(2), of "Now Wall", OF _ that] by (simp add: call_def)
  ultimately show ?thesis
    by (intro exI [of _ t0])
      (auto simp: triple_def wall_time_def ask_def case_prod_unfold Let_def)
qed

lemma no_braces:
  "LBRACE \<notin> set (fmt6 x)" "RBRACE \<notin> set (fmt6 x)" "LBRACE \<notin> set (fmt_d i)" "RBRACE \<notin> set (fmt_d i)"
proof -
  have d: "\<not> is_digit LBRACE" "\<not> is_digit RBRACE"
    by (simp_all add: is_digit_def LBRACE_def RBRACE_def)
  show "LBRACE \<notin> set (fmt6 x)" "RBRACE \<notin> set (fmt6 x)"
    using show_nat_digits show_fixed_digits d
    by (auto simp: fmt6_def fmt_f_def pad_left_def Let_def) (auto simp: LBRACE_def RBRACE_def)
  show "LBRACE \<notin> set (fmt_d i)" "RBRACE \<notin> set (fmt_d i)"
    using show_nat_digits d by (auto simp: fmt_d_def) (auto simp: LBRACE_def RBRACE_def)
qed

lemma log_any:
  assumes "attentive k tip still N" "LBRACE \<notin> set s" "RBRACE \<notin> set s"
  shows "triple P' (logger_log k True s) never (\<lambda>_ _. True)"
  using log_returns [OF attentive_parts(1,4) [OF assms(1)] assms(2,3), of N]
  by (rule triple_weaken) (use attentive_parts(2) [OF assms(1)] in auto)

lemma thrust_any:
  assumes "attentive k tip still N" "c \<noteq> 0"
  shows "triple P' (set_thrust k c t) never (\<lambda>_ _. True)"
  using thrust_returns [OF attentive_parts(1,4) [OF assms(1)] assms(2), of N]
  by (rule triple_weaken) (use attentive_parts(2) [OF assms(1)] in auto)

lemma consume_returns:
  assumes "attentive k tip still N"
  shows "triple (\<lambda>w. tip w < Suc n \<and> still w < Suc n') (mqtt_consume k) never
    (\<lambda>m w. case m of None \<Rightarrow> tip w < n \<and> still w < n'
      | Some (topic, msg) \<Rightarrow> \<exists>vs t. stod_tokens 9 (tokenizer_new msg CHR '' '') = Inr (vs, t) \<and>
          (angle_confirm < \<bar>vs ! 4\<bar> \<or> tip w < n) \<and> (\<bar>vs ! 4\<bar> < angle_rest \<or> still w < n'))"
    (is "triple ?P _ _ ?Q")
proof -
  have "case mqtt_consume k w of (Inl e, w') \<Rightarrow> never e w' | (Inr m, w') \<Rightarrow> ?Q m w'" if "?P w" for w
  proof -
    obtain a w' where a: "k Mqtt_consume w = (a, w')" by fastforce
    have "if rval a = 0 then tip w' < tip w \<and> still w' < still w
        else \<exists>topic msg vs t. rmsg a = Some (topic, msg) \<and>
          stod_tokens 9 (tokenizer_new msg CHR '' '') = Inr (vs, t) \<and>
          (angle_confirm < \<bar>vs ! 4\<bar> \<or> tip w' < tip w) \<and> (\<bar>vs ! 4\<bar> < angle_rest \<or> still w' < still w)"
      using assms [unfolded attentive_def, THEN conjunct2, THEN conjunct2, THEN conjunct2, THEN conjunct2,
          rule_format, of w] by (simp only: a prod.case)
    then show ?thesis
      using that by (auto simp: mqtt_consume_def a split: if_splits)
  qed
  then show ?thesis by (rule triple_caseI)
qed

lemma process_returns:
  assumes "stod_tokens 9 (tokenizer_new msg CHR '' '') = Inr (vs, t)"
  obtains h where "process_message_string msg g = Inr h" "same_bracket g h" "vy (euler h) = vs ! 4"
  using assms by (simp add: process_message_string_def same_bracket_def)

lemma ramp_step_returns:
  assumes "attentive k tip still N" "factor g \<noteq> 0" "0 \<le> nxt" "0 \<le> ramp_interval P" "ramp_interval P < 2 ^ 30"
    and "\<forall>n. triple (\<lambda>w. tip w < n) (wall_time k) never (\<lambda>t w. tip w < n \<and> t0 \<le> t \<and> t < t0 + 2 ^ 30)"
    and "t0 \<le> start"
  shows "triple (\<lambda>w. tip w < n) (ramp_step k P start (g, thrust, nxt)) never
    (\<lambda>(h, thrust, nxt) w. h = g \<and> 0 \<le> nxt \<and> tip w < n)"
  unfolding ramp_step_def split
proof (rule triple_bind [OF assms(6) [rule_format]], goal_cases)
  case (1 endt)
  note a = attentive_parts [OF assms(1)]
  have ok: "int_ok (nxt + ramp_interval P)" if "nxt < endt - start" "endt < t0 + 2 ^ 30"
    using that assms(3-5,7) by (simp add: int_ok_def)
  show ?case
  proof (cases "nxt < endt - start \<and> thrust < max_thrust P \<and> endt < t0 + 2 ^ 30")
    case True
    then have o: "int_ok (nxt + ramp_interval P)" using ok by blast
    have "triple (\<lambda>w. tip w < n) (io_bind (set_thrust k (factor g) (thrust + ramp_thrust P)) (\<lambda>_.
        io_bind (logger_log k True (''Ramping thrust up to '' @ fmt6 (thrust + ramp_thrust P) @ '' %'')) (\<lambda>_.
        io_return (g, thrust + ramp_thrust P, nxt + ramp_interval P)))) never
        (\<lambda>(h, thrust, nxt) w. h = g \<and> 0 \<le> nxt \<and> tip w < n)"
    proof (intro triple_bind [OF thrust_returns [OF a(1,4) assms(2)]] triple_bind [OF log_returns [OF a(1,4)]]
        triple_return)
    qed (use assms(3,4) in \<open>auto simp: no_braces\<close>, auto simp: LBRACE_def RBRACE_def)
    then show ?thesis using True o by (auto simp: Let_def elim: triple_weaken)
  next
    case False
    then show ?thesis using assms(3) by (auto simp: triple_def io_return_def)
  qed
qed

lemma watch_step_returns:
  assumes "attentive k tip still N" "factor g \<noteq> 0" "0 \<le> nxt" "0 \<le> ramp_interval P" "ramp_interval P < 2 ^ 30"
    and "\<forall>n. triple (\<lambda>w. tip w < n) (wall_time k) never (\<lambda>t w. tip w < n \<and> t0 \<le> t \<and> t < t0 + 2 ^ 30)"
    and "t0 \<le> start"
  shows "triple (\<lambda>w. tip w < Suc n) (watch_step k P start (g, thrust, nxt)) never
    (\<lambda>(left, h, thrust, nxt) w. factor h = factor g \<and> 0 \<le> nxt \<and> (left \<or> tip w < n))"
proof -
  note a = attentive_parts [OF assms(1)]
  have c: "triple (\<lambda>w. tip w < Suc n) (mqtt_consume k) never
    (\<lambda>m w. case m of None \<Rightarrow> tip w < n
      | Some (topic, msg) \<Rightarrow> \<exists>vs t. stod_tokens 9 (tokenizer_new msg CHR '' '') = Inr (vs, t) \<and>
          (angle_confirm < \<bar>vs ! 4\<bar> \<or> tip w < n))"
    by (rule triple_weaken [OF consume_returns [OF assms(1), of n N]])
      (use a(3) in \<open>auto simp: less_Suc_eq split: option.splits\<close>)
  show ?thesis
    unfolding watch_step_def split
  proof (rule triple_bind [OF c], goal_cases)
    case (1 m)
    show ?case
    proof (cases m)
      case None
      then show ?thesis using assms(3) by (auto intro: triple_return)
    next
      case (Some tm)
      obtain topic msg where tm: "tm = (topic, msg)" by fastforce
      show ?thesis
      proof (cases "\<exists>vs t. stod_tokens 9 (tokenizer_new msg CHR '' '') = Inr (vs, t)")
        case False
        then show ?thesis by (auto simp: Some tm triple_def)
      next
        case True
        then obtain vs t where vs: "stod_tokens 9 (tokenizer_new msg CHR '' '') = Inr (vs, t)" by blast
        obtain h where h: "process_message_string msg g = Inr h" "same_bracket g h"
          "vy (euler h) = vs ! 4" using process_returns [OF vs] .
        have f: "factor h = factor g" "factor h \<noteq> 0" using h(2) assms(2) by (simp_all add: same_bracket_def)
        show ?thesis
        proof (cases "angle_confirm < \<bar>vs ! 4\<bar>")
          case True
          have "(angle_confirm < vy (euler h)) \<or> (vy (euler h) < - angle_confirm)"
            using True h(3) by linarith
          then show ?thesis
            by (auto simp: Some tm h(1) fault_simps f assms(3) no_braces LBRACE_def RBRACE_def
                intro!: triple_bind [OF log_any [OF assms(1)]] triple_return)
              (auto simp: LBRACE_def [symmetric] RBRACE_def [symmetric] no_braces)
        next
          case False
          then have nt: "\<not> angle_confirm < vy (euler h)" "\<not> vy (euler h) < - angle_confirm"
            using h(3) by linarith+
          have "triple (\<lambda>w. tip w < n)
              (io_bind (ramp_step k P start (h, thrust, nxt)) (\<lambda>s. io_return (False, s))) never
              (\<lambda>(left, h, thrust, nxt) w. factor h = factor g \<and> 0 \<le> nxt \<and> (left \<or> tip w < n))"
            by (rule triple_bind [OF ramp_step_returns [OF assms(1) f(2) assms(3-7)]])
              (use f(1) in \<open>auto simp: triple_def io_return_def\<close>)
          then show ?thesis
            unfolding Some tm option.case split h(1) io_simps if_not_P [OF nt(1)] if_not_P [OF nt(2)]
            by (rule triple_weaken) (use False vs in auto)
        qed
      qed
    qed
  qed
qed

lemma watch_returns:
  assumes "attentive k tip still N" "0 \<le> ramp_interval P" "ramp_interval P < 2 ^ 30"
    and "\<forall>n. triple (\<lambda>w. tip w < n) (wall_time k) never (\<lambda>t w. tip w < n \<and> t0 \<le> t \<and> t < t0 + 2 ^ 30)"
    and "t0 \<le> start"
  shows "factor g \<noteq> 0 \<Longrightarrow> 0 \<le> nxt \<Longrightarrow>
    triple (\<lambda>w. tip w < n) (watch n k P start (g, thrust, nxt)) never (\<lambda>(left, h) w. left)"
proof (induction n arbitrary: g thrust nxt)
  case 0
  show ?case by (simp add: triple_def)
next
  case (Suc n)
  show ?case
    unfolding watch.simps
  proof (rule triple_bind [OF watch_step_returns [OF assms(1) Suc.prems assms(2-5)]], goal_cases)
    case (1 x)
    obtain left h thrust' nxt' where x: "x = (left, h, thrust', nxt')" by (cases x)
    show ?case
    proof (cases "left \<or> \<not> (factor h = factor g \<and> 0 \<le> nxt')")
      case True
      then show ?thesis by (auto simp: x triple_def io_return_def)
    next
      case False
      then have "triple (\<lambda>w. tip w < n) (watch n k P start (h, thrust', nxt')) never (\<lambda>(left, h) w. left)"
        using Suc by simp
      then show ?thesis using False by (auto simp: x elim: triple_weaken)
    qed
  qed
qed

lemma rest_step_returns:
  assumes "attentive k tip still N"
  shows "triple (\<lambda>w. still w < Suc n) (rest_step k g) never (\<lambda>(left, h) w. left \<or> still w < n)"
proof -
  note a = attentive_parts [OF assms]
  have c: "triple (\<lambda>w. still w < Suc n) (mqtt_consume k) never
    (\<lambda>m w. case m of None \<Rightarrow> still w < n
      | Some (topic, msg) \<Rightarrow> \<exists>vs t. stod_tokens 9 (tokenizer_new msg CHR '' '') = Inr (vs, t) \<and>
          (\<bar>vs ! 4\<bar> < angle_rest \<or> still w < n))"
    by (rule triple_weaken [OF consume_returns [OF assms, of N n]])
      (use a(2) in \<open>auto simp: less_Suc_eq split: option.splits\<close>)
  show ?thesis
    unfolding rest_step_def
  proof (rule triple_bind [OF c], goal_cases)
    case (1 m)
    show ?case
    proof (cases m)
      case None
      then show ?thesis by (auto intro: triple_return)
    next
      case (Some tm)
      obtain topic msg where tm: "tm = (topic, msg)" by fastforce
      show ?thesis
      proof (cases "\<exists>vs t. stod_tokens 9 (tokenizer_new msg CHR '' '') = Inr (vs, t)")
        case False
        then show ?thesis by (auto simp: Some tm triple_def)
      next
        case True
        then obtain vs t where vs: "stod_tokens 9 (tokenizer_new msg CHR '' '') = Inr (vs, t)" by blast
        obtain h where h: "process_message_string msg g = Inr h" "vy (euler h) = vs ! 4"
          using process_returns [OF vs] by metis
        have "triple P' (io_bind (logger_log k True ''drone has returned to rest'') (\<lambda>_. io_return (True, h)))
            never (\<lambda>(left, h) w. left \<or> still w < n)" for P' :: "'a \<Rightarrow> bool"
          by (rule triple_bind [OF log_any [OF assms]])
            (auto simp: LBRACE_def RBRACE_def intro: triple_return)
        then show ?thesis
          unfolding Some tm option.case split h(1) io_simps(4)
          by (intro triple_if) (use vs h(2) in \<open>auto intro!: triple_return elim!: triple_weaken\<close>)
      qed
    qed
  qed
qed

lemma rest_returns:
  assumes "attentive k tip still N"
  shows "triple (\<lambda>w. still w < n) (rest n k g) never (\<lambda>(left, h) w. left)"
proof (induction n arbitrary: g)
  case 0
  show ?case by (simp add: triple_def)
next
  case (Suc n)
  show ?case
    unfolding rest.simps
  proof (rule triple_bind [OF rest_step_returns [OF assms]], goal_cases)
    case (1 x)
    obtain left h where x: "x = (left, h)" by (cases x)
    then show ?case
      using Suc.IH [of h] by (cases left) (auto intro: triple_return elim: triple_weaken)
  qed
qed

lemma com_iteration_returns:
  assumes "attentive k tip still N" "0 \<le> ramp_interval P" "ramp_interval P < 2 ^ 30" "N \<le> fuel" "proper g"
  shows "triple P' (com_iteration fuel k P i g) never (\<lambda>(left, h) w. left \<and> proper h)"
proof -
  note a = attentive_parts [OF assms(1)]
  define g' where "g' = g\<lparr>factor := (com_max g + com_min g) / 2\<rparr>"
  have g': "factor g' \<noteq> 0" using assms(5) by (auto simp: g'_def proper_def)
  obtain t0 where t0: "\<forall>n. triple (\<lambda>w. tip w < n) (wall_time k) never
      (\<lambda>t w. tip w < n \<and> t0 \<le> t \<and> t < t0 + 2 ^ 30)"
    using time_returns [OF assms(1) a(4)] by blast
  have tip: "tip w < fuel" and still: "still w < fuel" for w
    using a(2,3) assms(4) less_le_trans by metis+
  have time: "triple P' (wall_time k) never (\<lambda>t _. t0 \<le> t)" for P' :: "'a \<Rightarrow> bool"
    by (rule triple_weaken [OF t0 [rule_format, of fuel]]) (use tip in auto)
  have resting: "triple P' (rest fuel k h) never (\<lambda>(left, h) _. left)" for h and P' :: "'a \<Rightarrow> bool"
    by (rule triple_weaken [OF rest_returns [OF assms(1), of fuel]]) (use still in auto)
  have watching: "triple P' (watch fuel k P start (g', 0.14, ramp_interval P)) never
      (\<lambda>(left, h) _. left \<and> factor h \<noteq> 0)" if "t0 \<le> start" for start and P' :: "'a \<Rightarrow> bool"
  proof -
    have w: "triple P' (watch fuel k P start (g', 0.14, ramp_interval P)) never (\<lambda>(left, h) _. left)"
      by (rule triple_weaken [OF watch_returns [OF assms(1-3) t0 that g' assms(2), where n = fuel and thrust = "0.14"]])
        (use tip in auto)
    show ?thesis
      by (rule triple_weaken [OF triple_conj [OF w watch_triple]])
        (use g' in \<open>auto simp: never_def tipped_def\<close>)
  qed
  have tail: "triple P' (io_bind (set_thrust k (factor h) 0.14) (\<lambda>_.
         io_bind (rest fuel k h) (\<lambda>(left, g).
           if \<not> left then io_return (False, g)
           else io_bind (io_act (call k (Usleep 2000000))) (\<lambda>_. io_return (True, g))))) never
       (\<lambda>(left, h) w. left)" if "factor h \<noteq> 0" for h and P' :: "'a \<Rightarrow> bool"
  proof (rule triple_bind [OF thrust_any [OF assms(1) that]], rule triple_bind [OF resting], goal_cases)
    case (1 _ x)
    then show ?case
      by (cases x, cases "fst x")
        (auto simp: triple_def io_return_def io_bind_def io_act_def)
  qed
  have head: "triple P' (io_bind (wall_time k) (\<lambda>start.
         io_bind (set_thrust k (factor g') 0.14) (\<lambda>_.
         io_bind (watch fuel k P start (g', 0.14, ramp_interval P)) (\<lambda>(left, g).
           if \<not> left then io_return (False, g)
           else
             io_bind (set_thrust k (factor g) 0.14) (\<lambda>_.
             io_bind (rest fuel k g) (\<lambda>(left, g).
               if \<not> left then io_return (False, g)
               else io_bind (io_act (call k (Usleep 2000000))) (\<lambda>_. io_return (True, g)))))))) never
       (\<lambda>(left, h) w. left)" for P' :: "'a \<Rightarrow> bool"
  proof (rule triple_bind [OF time], goal_cases)
    case (1 start)
    show ?case
    proof (cases "t0 \<le> start")
      case True
      show ?thesis
      proof (rule triple_bind [OF thrust_any [OF assms(1) g']], rule triple_bind [OF watching [OF True]], goal_cases)
        case (1 _ x)
        obtain left h where x: "x = (left, h)" by (cases x)
        show ?case
        proof (cases "left \<and> factor h \<noteq> 0")
          case True
          then show ?thesis using tail [of h "\<lambda>_. True"] by (simp add: x)
        next
          case False
          then show ?thesis by (auto simp: x triple_def)
        qed
      qed
    qed (simp add: triple_def)
  qed
  have "triple P' (com_iteration fuel k P i g) never (\<lambda>(left, h) w. left)"
    unfolding com_iteration_def Let_def g'_def [symmetric]
    by (rule triple_bind [OF log_any [OF assms(1)] head])
      (auto simp: no_braces LBRACE_def [symmetric] RBRACE_def [symmetric], auto simp: LBRACE_def RBRACE_def)
  from triple_conj [OF this com_iteration_triple [OF assms(5)]]
  show ?thesis by (rule triple_weaken) (auto simp: never_def)
qed

lemma com_search_returns:
  assumes "attentive k tip still N" "0 \<le> ramp_interval P" "ramp_interval P < 2 ^ 30" "N \<le> fuel"
  shows "proper g \<Longrightarrow> triple P' (com_search n fuel k P i g) never (\<lambda>(left, h) w. left)"
proof (induction n arbitrary: i g P')
  case 0
  show ?case by (auto intro: triple_return)
next
  case (Suc n)
  show ?case
    unfolding com_search.simps
  proof (rule triple_bind [OF com_iteration_returns [OF assms Suc.prems]], goal_cases)
    case (1 x)
    obtain left h where x: "x = (left, h)" by (cases x)
    show ?case
    proof (cases "left \<and> proper h")
      case True
      then show ?thesis using Suc.IH [of h "\<lambda>_. True"] by (simp add: x)
    next
      case False
      then show ?thesis by (auto simp: x triple_def)
    qed
  qed
qed

section \<open>Properties\<close>

lemma proper_init: "proper guidance_init" "com_max guidance_init - com_min guidance_init = 1"
  "com_min guidance_init = 0" "com_max guidance_init = 1"
  by (simp_all add: proper_def guidance_init_def)

lemma guidance_main_search:
  assumes "guidance_main fuel k P w = (Inr (True, g), w')"
  obtains w1 w2 where "com_search 7 fuel k P 0 guidance_init w1 = (Inr (True, g), w2)"
  using assms unfolding guidance_main_def guidance_run_def io_bind_def [of "com_search 7 fuel k P 0 guidance_init"]
  by (auto simp: io_bind_def [of "mqtt_connect k"] io_bind_def [of "mqtt_subscribe k _"]
      io_bind_def [of "logger_log k _ _"] io_return_def split: prod.splits sum.splits if_splits)

text \<open>
  C23: Whatever the sensors, the broker and the clock answer and whenever the run stops, the
  program never divides by a zero factor: the bounds stay a proper interval inside [0, 1].
\<close>

theorem guidance_never_divides_by_zero:
  "case guidance_main fuel k P w of
     (Inl e, w') \<Rightarrow> e \<noteq> Div_by_zero
   | (Inr (left, g), w') \<Rightarrow> 0 \<le> com_min g \<and> com_min g < com_max g \<and> com_max g \<le> 1"
proof -
  have "triple (\<lambda>_. True) (mqtt_connect k) no_trap (\<lambda>_ _. True)" "triple (\<lambda>_. True) (mqtt_subscribe k t) no_trap (\<lambda>_ _. True)"
    for t
    by (auto simp: triple_def mqtt_connect_def mqtt_subscribe_def mqtt_call_def no_trap_def Let_def
        split: prod.splits if_splits)
  note c = triple_bind [OF this(1)] triple_bind [OF this(2)]
  have last: "triple P' (io_bind (logger_log k True s) (\<lambda>_. io_return (True, g))) no_trap
      (\<lambda>(left, h) _. proper h)" if "proper g" for s g and P' :: "'a \<Rightarrow> bool"
    by (rule triple_bind [OF triple_log]) (simp add: triple_return that)
  have "triple (\<lambda>_. True) (guidance_main fuel k P) no_trap (\<lambda>(left, h) _. proper h)"
    unfolding guidance_main_def guidance_run_def
  proof (rule c(1), rule c(2), rule triple_bind [OF triple_log],
      rule triple_bind [OF com_search_triple [OF proper_init(1)]], goal_cases)
    case (1 _ _ _ x)
    obtain left h where x: "x = (left, h)" by (cases x)
    show ?case
    proof (cases "proper h")
      case True
      then show ?thesis using last [OF True] by (auto simp: x intro: triple_return)
    next
      case False
      then show ?thesis by (simp add: x triple_def)
    qed
  qed
  from triple_use [OF this] triple_not_fault [OF this] show ?thesis
    by (auto simp: no_trap_def proper_def split: prod.splits sum.splits) blast
qed

lemma com_main_returns:
  assumes "attentive k tip still N" "0 \<le> ramp_interval P" "ramp_interval P < 2 ^ 30" "N \<le> fuel"
  shows "\<exists>g w'. guidance_main fuel k P w = (Inr (True, g), w')"
proof -
  note a = attentive_parts [OF assms(1)]
  have m: "triple (\<lambda>_. True) (mqtt_connect k) never (\<lambda>_ _. True)" "triple (\<lambda>_. True) (mqtt_subscribe k t) never (\<lambda>_ _. True)"
    for t
    by (simp_all add: broker_calls [OF a(1)] triple_act)
  have log: "triple (\<lambda>_. True) (logger_log k True (s @ fmt6 x @ t @ fmt6 y @ u @ fmt_d i @ v)) never (\<lambda>_ _. True)"
    if "LBRACE \<notin> set (s @ t @ u @ v)" "RBRACE \<notin> set (s @ t @ u @ v)" for s x t y u i v
    by (rule log_any [OF assms(1)]) (use that in \<open>auto simp: no_braces\<close>)
  have res: "triple P' (io_bind (logger_log k True (''Result: '' @ fmt6 (factor g))) (\<lambda>_. io_return (True, g)))
      never (\<lambda>(left, h) _. left)" for g and P' :: "'a \<Rightarrow> bool"
  proof (rule triple_bind [OF log_any [OF assms(1)]])
    show "LBRACE \<notin> set (''Result: '' @ fmt6 (factor g))" "RBRACE \<notin> set (''Result: '' @ fmt6 (factor g))"
      unfolding set_append Un_iff using no_braces by (simp_all add: LBRACE_def RBRACE_def)
  qed (simp add: triple_return)
  have "triple (\<lambda>_. True) (guidance_main fuel k P) never (\<lambda>(left, h) _. left)"
    unfolding guidance_main_def guidance_run_def bind_client_def
  proof (rule triple_bind [OF m(1)], rule triple_bind [OF m(2)], rule triple_bind [OF log],
      goal_cases)
    case (3 _ _ _)
    show ?case
    proof (rule triple_bind [OF com_search_returns [OF assms proper_init(1)]], goal_cases)
      case (1 x)
      obtain left h where x: "x = (left, h)" by (cases x)
      show ?case
      proof (cases left)
        case True
        then show ?thesis using res [of "\<lambda>_. True" h] by (simp add: x)
      next
        case False
        then show ?thesis by (simp add: x triple_def)
      qed
    qed
  qed (simp_all add: LBRACE_def RBRACE_def)
  then have "triple (\<lambda>_. True) (guidance_main fuel k P) (\<lambda>_ _. False) (\<lambda>x _. fst x)"
    by (rule triple_weaken) (auto simp: never_def)
  from triple_returns [OF this] obtain x w' where "guidance_main fuel k P w = (Inr x, w')" "fst x"
    by blast
  then show ?thesis by (cases x) auto
qed

text \<open>
  C7: With sensors that keep reporting, the search returns: if a message with a tipped craft and
  one with a craft at rest each arrive within \<open>N\<close> messages of any point, \<open>N\<close> rounds for each
  loop are enough for all seven iterations, with no fault on the way.
\<close>

theorem guidance_terminates:
  assumes "attentive k tip still N" "0 \<le> ramp_interval P" "ramp_interval P < 2 ^ 30" "N \<le> fuel"
  shows "\<exists>g w'. guidance_main fuel k P w = (Inr (True, g), w')"
  using assms by (rule com_main_returns)

text \<open>A small world for the witnesses: every other message is tipped, the others are at rest.\<close>

definition seesaw :: "nat kernel" where
  "seesaw q w =
     (if q = Mqtt_consume
      then ((answer_of 1)\<lparr>rmsg := Some (''adiru/full'',
              if even w then ''0 0 0 0 1 0 0 0 0'' else ''0 0 0 0 0 0 0 0 0'')\<rparr>, w + 1)
      else (answer_of 0, w))"

lemma stod_01: "stod ''0'' = Inr 0" "stod ''1'' = Inr 1"
  by (simp_all add: stod_def take_sign_def lex_number_def frac_part_def exp_part_def special_number_def
      is_digit_def is_space_def lower_def dec_val_def ten_pow_def double_range_def)

lemma seesaw_parse:
  assumes "c = CHR ''0'' \<or> c = CHR ''1''"
  shows "\<exists>t. stod_tokens 9 (tokenizer_new [CHR ''0'', CHR '' '', CHR ''0'', CHR '' '', CHR ''0'', CHR '' '',
      CHR ''0'', CHR '' '', c, CHR '' '', CHR ''0'', CHR '' '', CHR ''0'', CHR '' '', CHR ''0'', CHR '' '', CHR ''0''] CHR '' '') =
    Inr ([0, 0, 0, 0, if c = CHR ''1'' then 1 else 0, 0, 0, 0, 0], t)"
proof (rule stod_tokens_cyclic, goal_cases)
  case (4 i)
  then have "i = 0 \<or> i = 1 \<or> i = 2 \<or> i = 3 \<or> i = 4 \<or> i = 5 \<or> i = 6 \<or> i = 7 \<or> i = 8" by arith
  then show ?case using assms by (auto simp: stod_01 is_space_def)
qed (simp_all add: npos_def num_stop_def)

lemma seesaw_attentive:
  "attentive seesaw (\<lambda>w. if even w then 0 else 1) (\<lambda>w. if even w then 1 else 0) 2"
proof -
  have "angle_confirm < 1" by (simp add: angle_confirm_def DEG_TO_RAD_def)
  then show ?thesis
    using seesaw_parse [of "CHR ''0''"] seesaw_parse [of "CHR ''1''"]
    by (auto simp: attentive_def seesaw_def broker_up_def call_def angle_rest_def DEG_TO_RAD_def)
qed

definition example_params :: gparams where
  "example_params = \<lparr>max_thrust = 0.3, ramp_thrust = 0.01, ramp_interval = 5\<rparr>"

theorem guidance_terminates_witness:
  "\<exists>g w'. guidance_main 2 seesaw example_params 0 = (Inr (True, g), w')"
  by (rule guidance_terminates [OF seesaw_attentive]) (simp_all add: example_params_def)

text \<open>
  C1: A search that finishes is a bisection. The seven iterations form a chain of states that
  ends in the result, the bounds are \<open>1 / 2 ^ 7\<close> apart, the factor is one of them and at least
  \<open>1 / 2 ^ 7\<close> away from 0 and 1; and every balance factor about which each iteration decided
  rightly is within \<open>1 / 2 ^ 7\<close> of the result.
\<close>

theorem guidance_bisects:
  assumes "guidance_main fuel k P w = (Inr (True, g), w')"
  shows "\<exists>hs s t. length hs = 7 \<and> com_run fuel k P 0 (guidance_init, s) hs (g, t) \<and>
    last hs = g \<and> com_max g - com_min g = 1 / 2 ^ 7 \<and> (factor g = com_min g \<or> factor g = com_max g) \<and>
    1 / 2 ^ 7 \<le> factor g \<and> factor g \<le> 1 - 1 / 2 ^ 7 \<and>
    (\<forall>b. 0 \<le> b \<and> b \<le> 1 \<and> (\<forall>h \<in> set hs. right_about b h) \<longrightarrow> \<bar>factor g - b\<bar> \<le> 1 / 2 ^ 7)"
proof -
  obtain s t where "com_search 7 fuel k P 0 guidance_init s = (Inr (True, g), t)"
    using guidance_main_search [OF assms] .
  then obtain hs where hs: "length hs = 7" "com_run fuel k P 0 (guidance_init, s) hs (g, t)"
    unfolding com_search_run by blast
  note run = com_run_bracket [OF hs(2), unfolded fst_conv hs(1) proper_init(2-4), OF proper_init(1)]
  have "hs \<noteq> []" using hs(1) by auto
  then have f: "last hs = g" "factor g = com_min g \<or> factor g = com_max g" "com_max g - com_min g = 1 / 2 ^ 7"
    "1 / 2 ^ 7 \<le> factor g" "factor g \<le> 1 - 1 / 2 ^ 7"
    using run by auto
  moreover have "\<bar>factor g - b\<bar> \<le> 1 / 2 ^ 7"
    if "0 \<le> b" "b \<le> 1" "\<forall>h \<in> set hs. right_about b h" for b
  proof -
    have "com_min g \<le> b" "b \<le> com_max g" using run [of b] that by simp_all
    then show ?thesis using f(2,3) by linarith
  qed
  ultimately show ?thesis using hs by blast
qed

theorem guidance_bisects_witness:
  "\<exists>g w' hs. guidance_main 2 seesaw example_params 0 = (Inr (True, g), w') \<and>
     length hs = 7 \<and> last hs = g \<and> com_max g - com_min g = 1 / 2 ^ 7"
proof -
  have "\<exists>g w'. guidance_main 2 seesaw example_params 0 = (Inr (True, g), w')"
    by (rule com_main_returns [OF seesaw_attentive]) (simp_all add: example_params_def)
  then obtain g w' where g: "guidance_main 2 seesaw example_params 0 = (Inr (True, g), w')" by blast
  from guidance_bisects [OF g] g show ?thesis by blast
qed

text \<open>
  The verdict of an iteration is the side the craft tipped to: the first loop ends by
  \<open>break\<close> only with the last pitch past two degrees, and then the upper bound (pitch up) or the
  lower bound (pitch down) is the factor and the other is unchanged; until then neither moves.
\<close>

theorem watch_verdict:
  assumes "factor g \<noteq> 0" "watch n k P start (g, thrust, nxt) w = (Inr (left, h), w')"
  shows "factor h = factor g \<and>
    (if left then angle_confirm < \<bar>vy (euler h)\<bar> \<and>
       com_max h = (if 0 < vy (euler h) then factor g else com_max g) \<and>
       com_min h = (if 0 < vy (euler h) then com_min g else factor g)
     else com_min h = com_min g \<and> com_max h = com_max g)"
proof -
  have "if left then tipped g h else same_bracket g h"
    using triple_use [OF watch_triple [where P' = "\<lambda>_. True" and s = "(g, thrust, nxt)",
          unfolded fst_conv, OF assms(1)] assms(2)] by simp
  moreover have "0 < angle_confirm" by (simp add: angle_confirm_def DEG_TO_RAD_def)
  ultimately show ?thesis by (auto simp: tipped_def same_bracket_def split: if_splits)
qed

theorem watch_verdict_witness:
  "\<exists>h w'. watch 2 seesaw example_params 0 (guidance_init, 0.14, 5) 0 = (Inr (True, h), w') \<and>
     angle_confirm < \<bar>vy (euler h)\<bar>"
proof -
  have f: "factor guidance_init \<noteq> 0" by (simp add: guidance_init_def)
  have t: "\<forall>n. triple (\<lambda>w. (if even w then 0 else 1 :: nat) < n) (wall_time seesaw) never
        (\<lambda>t w. (if even w then 0 else 1 :: nat) < n \<and> 0 \<le> t \<and> t < 0 + 2 ^ 30)"
    by (simp add: triple_def wall_time_def seesaw_def ask_def)
  have "triple (\<lambda>w. (if even w then 0 else 1 :: nat) < 2) (watch 2 seesaw example_params 0 (guidance_init, 0.14, 5))
      never (\<lambda>(left, h) w. left)"
    by (rule watch_returns [OF seesaw_attentive _ _ t _ f]) (simp_all add: example_params_def)
  then have "triple (\<lambda>_. True) (watch 2 seesaw example_params 0 (guidance_init, 0.14, 5)) (\<lambda>_ _. False) (\<lambda>x _. fst x)"
    by (rule triple_weaken) (auto simp: never_def)
  from triple_returns [OF this] obtain x w' where
    "watch 2 seesaw example_params 0 (guidance_init, 0.14, 5) 0 = (Inr x, w')" "fst x" by blast
  then obtain h where h: "watch 2 seesaw example_params 0 (guidance_init, 0.14, 5) 0 = (Inr (True, h), w')"
    by (cases x) auto
  from watch_verdict [OF f h] h show ?thesis by auto
qed

end
