(* ===== verification/Mpu6050.thy ===== *)
theory Mpu6050
  imports I2c Sim
begin

text \<open>
  \<^verbatim>\<open>src/backend/mpu6050.cpp\<close> and its header: the accelerometer and gyroscope. The state is
  the device, the six offsets and the two scales that the file keeps in static variables; the
  configuration calls are read-modify-write accesses to one register each.
\<close>

section \<open>Registers and settings\<close>

definition MPU6050_DEFAULT_ADDR :: int where "MPU6050_DEFAULT_ADDR = 0x68"
definition REG_PWR_MNG_1 :: u8 where "REG_PWR_MNG_1 = 0x6B"
definition REG_CFG :: u8 where "REG_CFG = 0x1A"
definition REG_GYRO_CFG :: u8 where "REG_GYRO_CFG = 0x1B"
definition REG_ACCL_CFG :: u8 where "REG_ACCL_CFG = 0x1C"
definition OUT_XACCL_H :: u8 where "OUT_XACCL_H = 0x3B"

lemmas mpu_regs = REG_PWR_MNG_1_def REG_CFG_def REG_GYRO_CFG_def REG_ACCL_CFG_def OUT_XACCL_H_def

datatype accl_range = G_2 | G_4 | G_8 | G_16

primrec accl_code :: "accl_range \<Rightarrow> u32" where
  "accl_code G_2 = 0" | "accl_code G_4 = 1" | "accl_code G_8 = 2" | "accl_code G_16 = 3"

datatype gyro_range = Deg_250 | Deg_500 | Deg_1000 | Deg_2000

primrec gyro_code :: "gyro_range \<Rightarrow> u32" where
  "gyro_code Deg_250 = 0" | "gyro_code Deg_500 = 1" | "gyro_code Deg_1000 = 2"
| "gyro_code Deg_2000 = 3"

datatype fsync = Input_dis | Temp_out_l | Gyro_x_out_l | Gyro_y_out_l | Gyro_z_out_l
  | Accl_x_out_l | Accl_y_out_l | Accl_z_out_l

primrec fsync_code :: "fsync \<Rightarrow> u32" where
  "fsync_code Input_dis = 0" | "fsync_code Temp_out_l = 1" | "fsync_code Gyro_x_out_l = 2"
| "fsync_code Gyro_y_out_l = 3" | "fsync_code Gyro_z_out_l = 4" | "fsync_code Accl_x_out_l = 5"
| "fsync_code Accl_y_out_l = 6" | "fsync_code Accl_z_out_l = 7"

datatype dlpf = Hz_260 | Hz_184 | Hz_94 | Hz_44 | Hz_21 | Hz_10 | Hz_5

primrec dlpf_code :: "dlpf \<Rightarrow> u32" where
  "dlpf_code Hz_260 = 0" | "dlpf_code Hz_184 = 1" | "dlpf_code Hz_94 = 2"
| "dlpf_code Hz_44 = 3" | "dlpf_code Hz_21 = 4" | "dlpf_code Hz_10 = 5" | "dlpf_code Hz_5 = 6"

datatype clk = Int_oscl | X_gyro | Y_gyro | Z_gyro | Ext_32kHz | Ext_19MHz | Reserved | Clk_stop

primrec clk_code :: "clk \<Rightarrow> u32" where
  "clk_code Int_oscl = 0" | "clk_code X_gyro = 1" | "clk_code Y_gyro = 2"
| "clk_code Z_gyro = 3" | "clk_code Ext_32kHz = 4" | "clk_code Ext_19MHz = 5"
| "clk_code Reserved = 6" | "clk_code Clk_stop = 7"

section \<open>State\<close>

record mpu =
  mpu_dev :: device
  offsets :: "int list"
  accl_scale :: int
  gyro_scale :: real

definition mpu_static :: mpu where
  "mpu_static = \<lparr>mpu_dev = device_static, offsets = [0, 0, 0, 0, 0, 0],
     accl_scale = 16384, gyro_scale = 16.4\<rparr>"

section \<open>Operations\<close>

definition mpu_init :: "'w kernel \<Rightarrow> int \<Rightarrow> mpu \<times> 'w \<Rightarrow> mpu \<times> 'w" where
  "mpu_init k a = (\<lambda>(m, w).
     let (d, w) = device_new k a w
     in (m\<lparr>mpu_dev := d, offsets := [0, 0, 0, 0, 0, 0]\<rparr>, w))"

definition mpu_init_default :: "'w kernel \<Rightarrow> mpu \<times> 'w \<Rightarrow> mpu \<times> 'w" where
  "mpu_init_default k = mpu_init k MPU6050_DEFAULT_ADDR"

text \<open>
  \<^verbatim>\<open>Write(reg, f(Read(reg)))\<close> followed by \<^verbatim>\<open>usleep\<close>: the shape of every setter. The read
  value is widened to \<^verbatim>\<open>int\<close> before \<open>f\<close> and cut to a byte after it.
\<close>

definition mpu_update :: "'w kernel \<Rightarrow> u8 \<Rightarrow> (u32 \<Rightarrow> u32) \<Rightarrow> mpu \<times> 'w \<Rightarrow> mpu \<times> 'w" where
  "mpu_update k reg f = (\<lambda>(m, w).
     let (v, w) = read_byte k (mpu_dev m) reg w;
         w = write_byte k (mpu_dev m) reg (narrow (f (promote v))) w
     in (m, call k (Usleep 1000) w))"

definition wake_up :: "'w kernel \<Rightarrow> mpu \<times> 'w \<Rightarrow> mpu \<times> 'w" where
  "wake_up k = mpu_update k REG_PWR_MNG_1 (\<lambda>v. v AND NOT 0b01000000)"

definition sleep :: "'w kernel \<Rightarrow> mpu \<times> 'w \<Rightarrow> mpu \<times> 'w" where
  "sleep k = mpu_update k REG_PWR_MNG_1 (\<lambda>v. v OR 0b01000000)"

primrec accl_scale_of :: "accl_range \<Rightarrow> int" where
  "accl_scale_of G_16 = 2048" | "accl_scale_of G_8 = 4096" | "accl_scale_of G_4 = 8192"
| "accl_scale_of G_2 = 16384"

definition set_accl_set :: "'w kernel \<Rightarrow> accl_range \<Rightarrow> mpu \<times> 'w \<Rightarrow> mpu \<times> 'w" where
  "set_accl_set k s = (\<lambda>(m, w).
     mpu_update k REG_ACCL_CFG (\<lambda>v. v AND NOT 0b00011000 OR push_bit 3 (accl_code s))
       (m\<lparr>accl_scale := accl_scale_of s\<rparr>, w))"

primrec gyro_scale_of :: "gyro_range \<Rightarrow> real" where
  "gyro_scale_of Deg_250 = 131" | "gyro_scale_of Deg_500 = 65.5" | "gyro_scale_of Deg_1000 = 32.8"
| "gyro_scale_of Deg_2000 = 16.4"

definition set_gyro_set :: "'w kernel \<Rightarrow> gyro_range \<Rightarrow> mpu \<times> 'w \<Rightarrow> mpu \<times> 'w" where
  "set_gyro_set k s = (\<lambda>(m, w).
     mpu_update k REG_GYRO_CFG (\<lambda>v. v AND NOT 0b00011000 OR push_bit 3 (gyro_code s))
       (m\<lparr>gyro_scale := gyro_scale_of s\<rparr>, w))"

definition set_clk :: "'w kernel \<Rightarrow> clk \<Rightarrow> mpu \<times> 'w \<Rightarrow> mpu \<times> 'w" where
  "set_clk k s = mpu_update k REG_PWR_MNG_1 (\<lambda>v. v AND NOT 0b00000111 OR clk_code s)"

definition set_dlpf_bandwidth :: "'w kernel \<Rightarrow> dlpf \<Rightarrow> mpu \<times> 'w \<Rightarrow> mpu \<times> 'w" where
  "set_dlpf_bandwidth k s = mpu_update k REG_CFG (\<lambda>v. v AND NOT 0b00000111 OR dlpf_code s)"

definition set_fsync :: "'w kernel \<Rightarrow> fsync \<Rightarrow> mpu \<times> 'w \<Rightarrow> mpu \<times> 'w" where
  "set_fsync k s = mpu_update k REG_CFG (\<lambda>v. v AND NOT 0b00111000 OR push_bit 3 (fsync_code s))"

definition set_pwr_set :: "int \<Rightarrow> mpu \<times> 'w \<Rightarrow> mpu \<times> 'w" where
  "set_pwr_set s mw = mw"

definition handle_neg :: "int \<Rightarrow> int" where
  "handle_neg n = short_of_int n"

definition combine :: "u8 \<Rightarrow> u8 \<Rightarrow> int" where
  "combine h l = sint (push_bit 8 (ucast h) OR ucast l :: u16)"

definition read_raw :: "'w kernel \<Rightarrow> mpu \<Rightarrow> 'w \<Rightarrow> int list \<times> 'w" where
  "read_raw k m w =
     (let (buf, w) = read_burst k (mpu_dev m) OUT_XACCL_H (uninit k 14 w) 14 w
      in ([combine (buf ! 0) (buf ! 1), combine (buf ! 2) (buf ! 3), combine (buf ! 4) (buf ! 5),
           combine (buf ! 8) (buf ! 9), combine (buf ! 10) (buf ! 11),
           combine (buf ! 12) (buf ! 13)], w))"

definition read_wo_offsets :: "'w kernel \<Rightarrow> mpu \<Rightarrow> 'w \<Rightarrow> real list \<times> 'w" where
  "read_wo_offsets k m w =
     (let (raw, w) = read_raw k m w; a = real_of_int (accl_scale m); g = gyro_scale m
      in ([real_of_int (raw ! 0) / a, real_of_int (raw ! 1) / a, real_of_int (raw ! 2) / a,
           real_of_int (raw ! 3) / g, real_of_int (raw ! 4) / g, real_of_int (raw ! 5) / g], w))"

definition mpu_read :: "'w kernel \<Rightarrow> mpu \<Rightarrow> 'w \<Rightarrow> real list \<times> 'w" where
  "mpu_read k m w =
     (let (raw, w) = read_raw k m w; a = real_of_int (accl_scale m); g = gyro_scale m;
          o' = offsets m
      in ([(real_of_int (raw ! 0) - real_of_int (o' ! 0)) / a,
           (real_of_int (raw ! 1) - real_of_int (o' ! 1)) / a,
           (real_of_int (raw ! 2) - real_of_int (o' ! 2)) / a,
           (real_of_int (raw ! 3) - real_of_int (o' ! 3)) / g,
           (real_of_int (raw ! 4) - real_of_int (o' ! 4)) / g,
           (real_of_int (raw ! 5) - real_of_int (o' ! 5)) / g], w))"

definition query_register :: "'w kernel \<Rightarrow> mpu \<Rightarrow> int \<Rightarrow> 'w \<Rightarrow> int \<times> 'w" where
  "query_register k m reg w =
     (let (v, w) = read_byte k (mpu_dev m) (word_of_int reg) w in (uint v, w))"

definition set_register :: "'w kernel \<Rightarrow> mpu \<Rightarrow> int \<Rightarrow> int \<Rightarrow> 'w \<Rightarrow> 'w" where
  "set_register k m reg v w = write_byte k (mpu_dev m) (word_of_int reg) (word_of_int v) w"

definition set_offsets :: "int \<Rightarrow> int \<Rightarrow> int \<Rightarrow> int \<Rightarrow> int \<Rightarrow> int \<Rightarrow> mpu \<Rightarrow> mpu" where
  "set_offsets xa ya za xg yg zg m = m\<lparr>offsets := [xa, ya, za, xg, yg, zg]\<rparr>"

text \<open>
  \<^verbatim>\<open>calibrate\<close>: for every axis a proportional and an integral term drive the offset until
  the corrected reading is the expected one. An offset outside the range of \<^verbatim>\<open>int\<close> is
  undefined in the code and a fault here.
\<close>

fun cal_axes :: "real list \<Rightarrow> int list \<Rightarrow> real list \<Rightarrow> real list \<Rightarrow> real list \<Rightarrow> int list \<Rightarrow>
    fault + real list \<times> int list" where
  "cal_axes (x # xs) (d # ds) (kp # kps) (ki # kis) (s # ss) (off # offs) =
     (let error = x - (real_of_int d - real_of_int off);
          p_term = error * kp;
          s' = s + 0.001 * error * ki
      in case int_of_double (real_of_int off - real_of_int (c_round ((p_term + s') / 4))) of
           Inl e \<Rightarrow> Inl e
         | Inr off' \<Rightarrow>
             (case cal_axes xs ds kps kis ss offs of
                Inl e \<Rightarrow> Inl e
              | Inr (ss', offs') \<Rightarrow> Inr (s' # ss', off' # offs')))"
| "cal_axes _ _ _ _ _ _ = Inr ([], [])"

primrec cal_samples :: "nat \<Rightarrow> 'w kernel \<Rightarrow> real list \<Rightarrow> real list \<Rightarrow> real list \<Rightarrow>
    real list \<times> mpu \<times> 'w \<Rightarrow> fault + real list \<times> mpu \<times> 'w" where
  "cal_samples 0 k expect kP kI s = Inr s"
| "cal_samples (Suc j) k expect kP kI s =
     (case s of (errs, m, w) \<Rightarrow>
        let (raw, w) = read_raw k m w
        in case cal_axes expect raw kP kI errs (offsets m) of
             Inl e \<Rightarrow> Inl e
           | Inr (errs, offs) \<Rightarrow>
               cal_samples j k expect kP kI (errs, m\<lparr>offsets := offs\<rparr>, call k (Usleep 1000) w))"

primrec cal_rounds :: "nat \<Rightarrow> 'w kernel \<Rightarrow> real list \<Rightarrow> real list \<Rightarrow> real list \<Rightarrow>
    real list \<times> mpu \<times> 'w \<Rightarrow> fault + mpu \<times> 'w" where
  "cal_rounds 0 k expect kP kI s = Inr (snd s)"
| "cal_rounds (Suc i) k expect kP kI s =
     (case cal_samples 100 k expect kP kI s of
        Inl e \<Rightarrow> Inl e
      | Inr (errs, m, w) \<Rightarrow>
          cal_rounds i k expect (map ((*) 0.75) kP) (map ((*) 0.75) kI) (replicate 6 0, m, w))"

definition calibrate :: "'w kernel \<Rightarrow> int \<Rightarrow> mpu \<times> 'w \<Rightarrow> fault + mpu \<times> 'w" where
  "calibrate k n = (\<lambda>(m, w).
     cal_rounds (nat n) k [0, 0, real_of_int (accl_scale m) * 1, 0, 0, 0]
       [0.3, 0.3, 0.3, 0.3, 0.3, 0.3] [90, 90, 90, 20, 20, 20]
       (replicate 6 0, m\<lparr>offsets := replicate 6 0\<rparr>, w))"

section \<open>Effect on the register file\<close>

lemma mpu_update_state [simp]: "fst (mpu_update k r f (m, w)) = m"
  by (simp add: mpu_update_def Let_def split: prod.splits)

lemma mpu_update_regs [regs_simps]:
  assumes "register_bus k regs" "0 \<le> fd (mpu_dev m)"
  shows "dev_regs regs (mpu_dev m) (snd (mpu_update k r f (m, w))) =
    (dev_regs regs (mpu_dev m) w)(r := narrow (f (promote (dev_regs regs (mpu_dev m) w r))))"
proof -
  have "bus_good (k, regs, mpu_dev m)"
    using assms by (simp add: bus_good_def)
  from i2c.rmw [OF this, of r "\<lambda>v. narrow (f (promote v))" w] show ?thesis
    using assms(1)
    by (simp add: mpu_update_def dev_regs_def regs_simps Let_def case_prod_unfold fun_eq_iff)
qed

definition mpu_range_field :: "u8 \<Rightarrow> nat" where
  "mpu_range_field b = unat (drop_bit 3 (b AND 0x18))"

lemma accl_field [simp]:
  "mpu_range_field (merge_bits b 0x18 (narrow (push_bit 3 (accl_code s)))) = unat (accl_code s)"
  by (cases s) (simp_all add: mpu_range_field_def merge_bits_field narrow_def)

lemma gyro_field [simp]:
  "mpu_range_field (merge_bits b 0x18 (narrow (push_bit 3 (gyro_code s)))) = unat (gyro_code s)"
  by (cases s) (simp_all add: mpu_range_field_def merge_bits_field narrow_def)

lemma accl_table [simp]: "[16384, 8192, 4096, 2048] ! unat (accl_code s) = accl_scale_of s"
  by (cases s) simp_all

lemma gyro_table [simp]: "[131, 131 / 2, 164 / 5, 82 / 5] ! unat (gyro_code s) = gyro_scale_of s"
  by (cases s) simp_all

lemma narrow_numeral_mask [simp]:
  "narrow 0b00011000 = 0x18" "narrow 0b00000111 = 7" "narrow 0b00111000 = 0x38"
  "narrow 0b01000000 = 0x40"
  by (simp_all add: narrow_def)

text \<open>
  The scales the driver divides by are the ones of the ranges the chip is set to: the table
  is the one of the setters, indexed by the range field that the chip holds.
\<close>

definition mpu_synced :: "(u8 \<Rightarrow> u8) \<Rightarrow> mpu \<Rightarrow> bool" where
  "mpu_synced view m \<longleftrightarrow>
     accl_scale m = [16384, 8192, 4096, 2048] ! mpu_range_field (view REG_ACCL_CFG) \<and>
     gyro_scale m = [131, 65.5, 32.8, 16.4] ! mpu_range_field (view REG_GYRO_CFG)"

datatype mpu_op =
    Op_wake_up | Op_sleep | Op_accl accl_range | Op_gyro gyro_range | Op_clk clk
  | Op_dlpf dlpf | Op_fsync fsync | Op_pwr int

fun mpu_exec :: "'w kernel \<Rightarrow> mpu_op \<Rightarrow> mpu \<times> 'w \<Rightarrow> mpu \<times> 'w" where
  "mpu_exec k Op_wake_up = wake_up k"
| "mpu_exec k Op_sleep = sleep k"
| "mpu_exec k (Op_accl s) = set_accl_set k s"
| "mpu_exec k (Op_gyro s) = set_gyro_set k s"
| "mpu_exec k (Op_clk s) = set_clk k s"
| "mpu_exec k (Op_dlpf s) = set_dlpf_bandwidth k s"
| "mpu_exec k (Op_fsync s) = set_fsync k s"
| "mpu_exec k (Op_pwr s) = set_pwr_set s"

lemmas mpu_op_defs = wake_up_def sleep_def set_accl_set_def set_gyro_set_def set_clk_def
  set_dlpf_bandwidth_def set_fsync_def set_pwr_set_def

lemma mpu_exec_dev [simp]: "mpu_dev (fst (mpu_exec k p (m, w))) = mpu_dev m"
  by (cases p) (simp_all add: mpu_op_defs)

lemma set_accl_set_effect:
  assumes "register_bus k regs" "0 \<le> fd (mpu_dev m)" "set_accl_set k s (m, w) = (m', w')"
  shows "m' = m\<lparr>accl_scale := accl_scale_of s\<rparr>"
    "dev_regs regs (mpu_dev m) w' = (dev_regs regs (mpu_dev m) w)(REG_ACCL_CFG :=
       merge_bits (dev_regs regs (mpu_dev m) w REG_ACCL_CFG) 0x18 (narrow (push_bit 3 (accl_code s))))"
proof -
  let ?m = "m\<lparr>accl_scale := accl_scale_of s\<rparr>"
  have dev: "mpu_dev ?m = mpu_dev m" by simp
  show "m' = ?m"
    using assms(3) mpu_update_state [of k _ _ ?m w] unfolding set_accl_set_def
    by (metis case_prod_conv fst_conv)
  have "w' = snd (set_accl_set k s (m, w))" using assms(3) by simp
  then show "dev_regs regs (mpu_dev m) w' = (dev_regs regs (mpu_dev m) w)(REG_ACCL_CFG :=
       merge_bits (dev_regs regs (mpu_dev m) w REG_ACCL_CFG) 0x18 (narrow (push_bit 3 (accl_code s))))"
    using mpu_update_regs [OF assms(1), of ?m] assms(2)
    by (simp only: dev set_accl_set_def case_prod_conv narrow_rmw narrow_numeral_mask)
qed

lemma set_gyro_set_effect:
  assumes "register_bus k regs" "0 \<le> fd (mpu_dev m)" "set_gyro_set k s (m, w) = (m', w')"
  shows "m' = m\<lparr>gyro_scale := gyro_scale_of s\<rparr>"
    "dev_regs regs (mpu_dev m) w' = (dev_regs regs (mpu_dev m) w)(REG_GYRO_CFG :=
       merge_bits (dev_regs regs (mpu_dev m) w REG_GYRO_CFG) 0x18 (narrow (push_bit 3 (gyro_code s))))"
proof -
  let ?m = "m\<lparr>gyro_scale := gyro_scale_of s\<rparr>"
  have dev: "mpu_dev ?m = mpu_dev m" by simp
  show "m' = ?m"
    using assms(3) mpu_update_state [of k _ _ ?m w] unfolding set_gyro_set_def
    by (metis case_prod_conv fst_conv)
  have "w' = snd (set_gyro_set k s (m, w))" using assms(3) by simp
  then show "dev_regs regs (mpu_dev m) w' = (dev_regs regs (mpu_dev m) w)(REG_GYRO_CFG :=
       merge_bits (dev_regs regs (mpu_dev m) w REG_GYRO_CFG) 0x18 (narrow (push_bit 3 (gyro_code s))))"
    using mpu_update_regs [OF assms(1), of ?m] assms(2)
    by (simp only: dev set_gyro_set_def case_prod_conv narrow_rmw narrow_numeral_mask)
qed

lemma mpu_exec_synced:
  assumes "register_bus k regs" "0 \<le> fd (mpu_dev m)"
    and "mpu_synced (dev_regs regs (mpu_dev m) w) m"
    and "mpu_exec k p (m, w) = (m', w')"
  shows "mpu_synced (dev_regs regs (mpu_dev m') w') m'"
proof -
  have m': "m' = fst (mpu_exec k p (m, w))" and w': "w' = snd (mpu_exec k p (m, w))"
    using assms(4) by simp_all
  show ?thesis
  proof (cases p)
    case (Op_accl s)
    then show ?thesis
      using assms(3) set_accl_set_effect [OF assms(1,2), of s w m' w'] assms(4)
      by (simp add: mpu_synced_def mpu_regs)
  next
    case (Op_gyro s)
    then show ?thesis
      using assms(3) set_gyro_set_effect [OF assms(1,2), of s w m' w'] assms(4)
      by (simp add: mpu_synced_def mpu_regs)
  qed (use assms(3) mpu_update_regs [OF assms(1,2)] in
      \<open>simp_all add: m' w' mpu_synced_def mpu_op_defs mpu_regs\<close>)
qed

section \<open>Readings\<close>

lemma combine_value: "combine h l = 256 * sint h + uint l"
  by (simp add: combine_def sint_pair)

lemma combine_range: "-32768 \<le> combine h l \<and> combine h l \<le> 32767"
proof -
  have "-128 \<le> sint h" "sint h \<le> 127" "0 \<le> uint l" "uint l \<le> 255"
    using sint_range_size [of h] uint_bounded [of l] by (auto simp: word_size)
  then show ?thesis unfolding combine_value by linarith
qed

text \<open>The 16-bit two's complement value that the chip holds at a register, big end first.\<close>

definition reg16 :: "(u8 \<Rightarrow> u8) \<Rightarrow> u8 \<Rightarrow> int" where
  "reg16 view r = 256 * sint (view r) + uint (view (r + 1))"

lemma read_raw_val:
  assumes "register_bus k regs" "0 \<le> fd (mpu_dev m)"
  shows "fst (read_raw k m w) = map (reg16 (dev_regs regs (mpu_dev m) w))
      [0x3B, 0x3D, 0x3F, 0x43, 0x45, 0x47]"
    "regs (snd (read_raw k m w)) = regs w"
  using read_burst_val [OF assms, of "uninit k 14 w" 14]
  by (simp_all add: read_raw_def case_prod_unfold Let_def combine_value reg16_def mpu_regs upt_rec)

lemma length_read_raw [simp]: "length (fst (read_raw k m w)) = 6"
  by (simp add: read_raw_def Let_def case_prod_unfold)

lemma read_raw_range: "r \<in> set (fst (read_raw k m w)) \<Longrightarrow> -32768 \<le> r \<and> r \<le> 32767"
  using combine_range by (auto simp: read_raw_def Let_def case_prod_unfold)

section \<open>Calibration at rest\<close>

lemma int_of_double_zero [simp]: "int_of_double 0 = Inr 0"
  by (simp add: int_of_double_def int_ok_def)

lemma cal_axes_rest:
  "length kps = length ds \<Longrightarrow> length kis = length ds \<Longrightarrow>
   cal_axes (map real_of_int ds) ds kps kis (replicate (length ds) 0) (replicate (length ds) 0) =
     Inr (replicate (length ds) 0, replicate (length ds) 0)"
proof (induction ds arbitrary: kps kis)
  case (Cons d ds)
  then show ?case by (cases kps; cases kis) simp_all
qed simp


definition at_rest :: "mpu \<Rightarrow> (u8 \<Rightarrow> u8) \<Rightarrow> bool" where
  "at_rest m view \<longleftrightarrow>
     map (reg16 view) [0x3B, 0x3D, 0x3F, 0x43, 0x45, 0x47] = [0, 0, accl_scale m, 0, 0, 0]"

lemma cal_samples_rest:
  assumes "register_bus k regs" "0 \<le> fd (mpu_dev m)" "offsets m = replicate 6 0"
    and "at_rest m (dev_regs regs (mpu_dev m) w)" "length kP = 6" "length kI = 6"
  shows "\<exists>w'. cal_samples j k [0, 0, real_of_int (accl_scale m), 0, 0, 0] kP kI
      (replicate 6 0, m, w) = Inr (replicate 6 0, m, w') \<and> regs w' = regs w"
  using assms
proof (induction j arbitrary: w)
  case 0
  then show ?case by simp
next
  case (Suc j)
  obtain raw w1 where raw: "read_raw k m w = (raw, w1)" by fastforce
  then have r: "raw = [0, 0, accl_scale m, 0, 0, 0]" and w1: "regs w1 = regs w"
    using read_raw_val [OF Suc.prems(1,2), of w] Suc.prems(4) by (simp_all add: at_rest_def)
  have step: "cal_axes [0, 0, real_of_int (accl_scale m), 0, 0, 0] raw kP kI
      (replicate 6 0) (replicate 6 0) = Inr (replicate 6 0, replicate 6 0)"
    using cal_axes_rest [of kP raw kI] Suc.prems(5,6) by (simp add: r numeral_eq_Suc)
  have m: "m\<lparr>offsets := replicate 6 0\<rparr> = m"
    using Suc.prems(3) by simp
  have regs: "regs (call k (Usleep 1000) w1) = regs w"
    using w1 register_bus_call [OF Suc.prems(1)] by simp
  then have "at_rest m (dev_regs regs (mpu_dev m) (call k (Usleep 1000) w1))"
    using Suc.prems(4) by (simp add: dev_regs_def)
  from Suc.IH [OF Suc.prems(1-3) this Suc.prems(5,6)] show ?case
    using step m regs by (simp only: cal_samples.simps raw prod.case Let_def Suc.prems(3) sum.case)
qed

lemma cal_rounds_rest:
  assumes "register_bus k regs" "0 \<le> fd (mpu_dev m)" "offsets m = replicate 6 0"
    and "at_rest m (dev_regs regs (mpu_dev m) w)" "length kP = 6" "length kI = 6"
  shows "\<exists>w'. cal_rounds n k [0, 0, real_of_int (accl_scale m), 0, 0, 0] kP kI
      (replicate 6 0, m, w) = Inr (m, w') \<and> regs w' = regs w"
  using assms
proof (induction n arbitrary: w kP kI)
  case 0
  then show ?case by simp
next
  case (Suc n)
  obtain w1 where w1: "cal_samples 100 k [0, 0, real_of_int (accl_scale m), 0, 0, 0] kP kI
      (replicate 6 0, m, w) = Inr (replicate 6 0, m, w1)" "regs w1 = regs w"
    using cal_samples_rest [OF Suc.prems] by blast
  then have "at_rest m (dev_regs regs (mpu_dev m) w1)"
    using Suc.prems(4) by (simp add: dev_regs_def)
  from Suc.IH [OF Suc.prems(1-3) this, of "map ((*) 0.75) kP" "map ((*) 0.75) kI"]
  show ?case using w1 Suc.prems(5,6) by (simp only: cal_rounds.simps sum.case prod.case length_map)
qed

text \<open>Calibration reads the chip and changes nothing but the offsets.\<close>

definition only_offsets :: "('w \<Rightarrow> u16 \<Rightarrow> u8 \<Rightarrow> u8) \<Rightarrow> mpu \<times> 'w \<Rightarrow> mpu \<times> 'w \<Rightarrow> bool" where
  "only_offsets regs s s' \<longleftrightarrow> (\<exists>o'. fst s' = (fst s)\<lparr>offsets := o'\<rparr>) \<and> regs (snd s') = regs (snd s)"

lemma only_offsets_trans: "only_offsets regs a b \<Longrightarrow> only_offsets regs b c \<Longrightarrow> only_offsets regs a c"
  by (auto simp: only_offsets_def)

lemma only_offsets_refl: "only_offsets regs s s"
  by (auto simp: only_offsets_def intro: exI [of _ "offsets (fst s)"])

lemma cal_samples_keeps:
  assumes "register_bus k regs" "0 \<le> fd (mpu_dev m)" "cal_samples j k x kP kI (errs, m, w) = Inr (errs', s')"
  shows "only_offsets regs (m, w) s'"
  using assms(2,3)
proof (induction j arbitrary: errs m w)
  case 0
  then show ?case by (auto intro: only_offsets_refl)
next
  case (Suc j)
  obtain raw w1 where raw: "read_raw k m w = (raw, w1)" by fastforce
  then obtain errs1 offs where c: "cal_axes x raw kP kI errs (offsets m) = Inr (errs1, offs)"
    and r: "cal_samples j k x kP kI (errs1, m\<lparr>offsets := offs\<rparr>, call k (Usleep 1000) w1) = Inr (errs', s')"
    using Suc.prems(2) by (auto split: sum.splits prod.splits)
  have "regs w1 = regs w" using read_raw_val(2) [OF assms(1) Suc.prems(1), of w] by (simp add: raw)
  then have "only_offsets regs (m, w) (m\<lparr>offsets := offs\<rparr>, call k (Usleep 1000) w1)"
    using register_bus_call(2) [OF assms(1)] by (auto simp: only_offsets_def)
  then show ?case using Suc.IH [OF _ r] Suc.prems(1) only_offsets_trans by fastforce
qed

lemma cal_rounds_keeps:
  assumes "register_bus k regs" "0 \<le> fd (mpu_dev m)" "cal_rounds n k x kP kI (errs, m, w) = Inr s'"
  shows "only_offsets regs (m, w) s'"
  using assms(2,3)
proof (induction n arbitrary: errs m w kP kI)
  case 0
  then show ?case by (auto intro: only_offsets_refl)
next
  case (Suc n)
  then obtain errs1 m1 w1 where c: "cal_samples 100 k x kP kI (errs, m, w) = Inr (errs1, m1, w1)"
    and r: "cal_rounds n k x (map ((*) 0.75) kP) (map ((*) 0.75) kI) (replicate 6 0, m1, w1) = Inr s'"
    by (auto split: sum.splits)
  have s: "only_offsets regs (m, w) (m1, w1)" by (rule cal_samples_keeps [OF assms(1) Suc.prems(1) c])
  then have "0 \<le> fd (mpu_dev m1)" using Suc.prems(1) by (auto simp: only_offsets_def)
  then show ?case using Suc.IH [OF _ r] s only_offsets_trans by blast
qed

lemma calibrate_keeps:
  assumes "register_bus k regs" "0 \<le> fd (mpu_dev m)" "calibrate k n (m, w) = Inr s'"
  shows "only_offsets regs (m, w) s'"
proof -
  have "only_offsets regs (m\<lparr>offsets := replicate 6 0\<rparr>, w) s'"
    using assms(2,3) by (intro cal_rounds_keeps [OF assms(1)]) (auto simp: calibrate_def)
  then show ?thesis by (auto simp: only_offsets_def)
qed

lemma mpu_update_step:
  assumes "register_bus k regs" "0 \<le> fd (mpu_dev m)" "mpu_update k r f (m, w) = (m', w')"
  shows "m' = m" "dev_regs regs (mpu_dev m) w' =
    (dev_regs regs (mpu_dev m) w)(r := narrow (f (promote (dev_regs regs (mpu_dev m) w r))))"
  using mpu_update_regs [OF assms(1,2), of r f w] mpu_update_state [of k r f m w] assms(3) by auto

lemma mpu_read_value:
  assumes "register_bus k regs" "0 \<le> fd (mpu_dev m)" "length (offsets m) = 6"
  shows "fst (mpu_read k m w) =
      map (\<lambda>(r, off, s). real_of_int (reg16 (dev_regs regs (mpu_dev m) w) r - off) / s)
        (zip [0x3B, 0x3D, 0x3F, 0x43, 0x45, 0x47]
          (zip (offsets m) (replicate 3 (real_of_int (accl_scale m)) @ replicate 3 (gyro_scale m)))) \<and>
    regs (snd (mpu_read k m w)) = regs w"
proof -
  obtain a b c d e f where off: "offsets m = [a, b, c, d, e, f]"
    using assms(3) by (auto simp: numeral_eq_Suc length_Suc_conv)
  show ?thesis
    using read_raw_val [OF assms(1,2), of w]
    by (simp add: mpu_read_def case_prod_unfold Let_def off replicate_3)
qed

lemma calibrate_at_rest:
  assumes "register_bus k regs" "0 \<le> fd (mpu_dev m)"
    and "at_rest m (dev_regs regs (mpu_dev m) w)"
  shows "\<exists>w'. calibrate k n (m, w) = Inr (m\<lparr>offsets := replicate 6 0\<rparr>, w') \<and> regs w' = regs w"
proof -
  let ?m = "m\<lparr>offsets := replicate 6 0\<rparr>"
  have "\<exists>w'. cal_rounds (nat n) k [0, 0, real_of_int (accl_scale ?m), 0, 0, 0]
      [0.3, 0.3, 0.3, 0.3, 0.3, 0.3] [90, 90, 90, 20, 20, 20]
      (replicate 6 0, ?m, w) = Inr (?m, w') \<and> regs w' = regs w"
    using assms by (intro cal_rounds_rest) (simp_all add: at_rest_def)
  then show ?thesis by (simp add: calibrate_def)
qed

lemma mpu_run_keeps_synced:
  assumes "register_bus k regs" "0 \<le> fd (mpu_dev m)"
    and "mpu_synced (dev_regs regs (mpu_dev m) w) m"
    and "fold (mpu_exec k) ops (m, w) = (m', w')"
  shows "mpu_synced (dev_regs regs (mpu_dev m') w') m'"
  using assms(2-4)
proof (induction ops arbitrary: m w)
  case (Cons p ops)
  obtain m1 w1 where 1: "mpu_exec k p (m, w) = (m1, w1)" by fastforce
  moreover have "0 \<le> fd (mpu_dev m1)"
    using Cons.prems(1) mpu_exec_dev [of k p m w] 1 by simp
  moreover have "mpu_synced (dev_regs regs (mpu_dev m1) w1) m1"
    using mpu_exec_synced [OF assms(1) Cons.prems(1,2) 1] .
  ultimately show ?case
    using Cons.IH Cons.prems(3) by simp
qed simp

lemma mpu_ranges_synced:
  assumes "register_bus k regs" "0 \<le> fd (mpu_dev m)"
    and "set_gyro_set k g (set_accl_set k a (m, w)) = (m', w')"
  shows "mpu_synced (dev_regs regs (mpu_dev m') w') m' \<and> mpu_dev m' = mpu_dev m"
proof -
  obtain m1 w1 where 1: "set_accl_set k a (m, w) = (m1, w1)" by fastforce
  note a = set_accl_set_effect [OF assms(1,2) 1]
  have fd: "0 \<le> fd (mpu_dev m1)" using a assms(2) by simp
  note g = set_gyro_set_effect [OF assms(1) fd, of g w1 m' w']
  show ?thesis
    using a g assms(3) 1 by (simp add: mpu_synced_def mpu_regs)
qed

section \<open>Properties\<close>

text \<open>
  C13: Once the two range setters have run, every later configuration call, in any order and
  number, keeps the scales the driver divides by in step with the ranges the chip is set to.
\<close>

theorem mpu_run_synced:
  assumes "register_bus k regs" "0 \<le> fd (mpu_dev m)"
    and "fold (mpu_exec k) (Op_accl a # Op_gyro g # ops) (m, w) = (m', w')"
  shows "mpu_synced (dev_regs regs (mpu_dev m') w') m'"
proof -
  obtain m1 w1 where 1: "set_gyro_set k g (set_accl_set k a (m, w)) = (m1, w1)" by fastforce
  have s: "mpu_synced (dev_regs regs (mpu_dev m1) w1) m1" "0 \<le> fd (mpu_dev m1)"
    using conjunct1 [OF mpu_ranges_synced [OF assms(1,2) 1]]
      conjunct2 [OF mpu_ranges_synced [OF assms(1,2) 1]] assms(2) by simp_all
  show ?thesis
    using mpu_run_keeps_synced [OF assms(1) s(2,1)] assms(3) 1 by simp
qed

definition mpu_example :: mpu where
  "mpu_example = mpu_static\<lparr>mpu_dev := \<lparr>fd = 3, addr = 0x68\<rparr>\<rparr>"

theorem mpu_run_synced_witness:
  "case fold (mpu_exec sim_kernel) [Op_accl G_4, Op_gyro Deg_500, Op_sleep] (mpu_example, sim0) of
     (m', w') \<Rightarrow> mpu_synced (dev_regs sim_regs (mpu_dev m') w') m'"
proof -
  have "0 \<le> fd (mpu_dev mpu_example)" by (simp add: mpu_example_def)
  then show ?thesis
    using mpu_run_synced [OF sim_bus, of mpu_example G_4 Deg_500 "[Op_sleep]" sim0]
    by (auto split: prod.splits)
qed

text \<open>
  On a working bus a reading is, axis by axis, the big-endian two's complement register
  pair less the offset, divided by the scale; the temperature pair between the axes is
  skipped and no register changes.
\<close>

theorem mpu_read_correct:
  assumes "register_bus k regs" "0 \<le> fd (mpu_dev m)" "length (offsets m) = 6"
  shows "fst (mpu_read k m w) =
      map (\<lambda>(r, off, s). real_of_int (reg16 (dev_regs regs (mpu_dev m) w) r - off) / s)
        (zip [0x3B, 0x3D, 0x3F, 0x43, 0x45, 0x47]
          (zip (offsets m) (replicate 3 (real_of_int (accl_scale m)) @ replicate 3 (gyro_scale m)))) \<and>
    regs (snd (mpu_read k m w)) = regs w"
  using assms by (rule mpu_read_value)

theorem mpu_read_correct_witness:
  "fst (mpu_read sim_kernel (set_offsets 0 0 16384 0 0 0 mpu_example)
     (sim0\<lparr>sim_regs := (\<lambda>_. (\<lambda>_. 0)(0x3B := 0x40, 0x3F := 0x80))\<rparr>)) = [1, 0, -3, 0, 0, 0]"
  using mpu_read_correct [OF sim_bus, of "set_offsets 0 0 16384 0 0 0 mpu_example"
      "sim0\<lparr>sim_regs := (\<lambda>_. (\<lambda>_. 0)(0x3B := 0x40, 0x3F := 0x80))\<rparr>"]
  by (simp add: mpu_example_def mpu_static_def set_offsets_def reg16_def dev_regs_def replicate_3)

text \<open>
  A chip at rest in the expected attitude (no rotation, one g on the z axis) is a fixed
  point of the calibration: however many rounds it runs, it ends without a fault, with every
  offset zero and the registers untouched.
\<close>

theorem calibrate_rest:
  assumes "register_bus k regs" "0 \<le> fd (mpu_dev m)"
    and "at_rest m (dev_regs regs (mpu_dev m) w)"
  shows "\<exists>w'. calibrate k n (m, w) = Inr (m\<lparr>offsets := replicate 6 0\<rparr>, w') \<and> regs w' = regs w"
  using assms by (rule calibrate_at_rest)

theorem calibrate_rest_witness:
  "\<exists>w'. calibrate sim_kernel 7 (mpu_example, sim0\<lparr>sim_regs := (\<lambda>_. (\<lambda>_. 0)(0x3F := 0x40))\<rparr>) =
     Inr (mpu_example\<lparr>offsets := replicate 6 0\<rparr>, w')"
  using calibrate_rest [OF sim_bus, of mpu_example
      "sim0\<lparr>sim_regs := (\<lambda>_. (\<lambda>_. 0)(0x3F := 0x40))\<rparr>" 7]
  by (auto simp: mpu_example_def mpu_static_def at_rest_def reg16_def dev_regs_def)

end
