(* ===== verification/FilterMath.thy ===== *)
theory FilterMath
  imports Prelude
begin

text \<open>
  \<^verbatim>\<open>src/math/filter.cpp\<close>: second-order digital filters. The designs divide by tangents and by
  differences of their parameters; where a divisor is 0 or a tangent has no value the double
  computation leaves the finite numbers and the design is \<open>None\<close>.
\<close>

section \<open>The filter\<close>

record filt =
  fa1 :: real
  fa2 :: real
  fb0 :: real
  fb1 :: real
  fb2 :: real
  fx1 :: real
  fx2 :: real
  fy1 :: real
  fy2 :: real

definition filter_default :: filt where
  "filter_default = \<lparr>fa1 = 0, fa2 = 0, fb0 = 1, fb1 = 0, fb2 = 0,
     fx1 = 0, fx2 = 0, fy1 = 0, fy2 = 0\<rparr>"

definition filter_step :: "filt \<Rightarrow> real \<Rightarrow> real \<times> filt" where
  "filter_step f x0 =
     (let y0 = fb0 f * x0 + fb1 f * fx1 f + fb2 f * fx2 f + fa1 f * fy1 f + fa2 f * fy2 f
      in (y0, f\<lparr>fx2 := fx1 f, fx1 := x0, fy2 := fy1 f, fy1 := y0\<rparr>))"

definition checked_tan :: "real \<Rightarrow> real option" where
  "checked_tan x = (if cos x = 0 then None else Some (tan x))"

definition checked_div :: "real \<Rightarrow> real \<Rightarrow> real option" where
  "checked_div x y = (if y = 0 then None else Some (x / y))"

definition low_pass :: "real \<Rightarrow> real \<Rightarrow> filt option" where
  "low_pass sample_rate w0 =
     Option.bind (checked_div w0 sample_rate) (\<lambda>ff.
     Option.bind (checked_tan (pi * ff)) (\<lambda>t.
     Option.bind (checked_div 1 t) (\<lambda>ita.
     Option.bind (checked_div 1 (1 + sqrt 2 * ita + ita * ita)) (\<lambda>b0.
       let b1 = 2 * b0;
           b2 = b0;
           a1 = 2 * (ita * ita - 1) * b0;
           a2 = - (1 - sqrt 2 * ita + ita * ita) * b0
       in Some (filter_default\<lparr>fb0 := b0, fb1 := b1, fb2 := b2, fa1 := a1, fa2 := a2\<rparr>)))))"

definition band_pass :: "real \<Rightarrow> real \<Rightarrow> real \<Rightarrow> filt option" where
  "band_pass sample_rate wL wH =
     (let fs = sample_rate;
          fc = (wL + wH) / 2
      in Option.bind (checked_div 2 ((wH - wL) * sample_rate)) (\<lambda>Q.
         Option.bind (checked_div (2 * pi * fc) fs) (\<lambda>w.
         Option.bind (checked_div w (2 * Q)) (\<lambda>x.
         Option.bind (checked_tan x) (\<lambda>t.
         Option.bind (checked_div (1 - t) (1 + t)) (\<lambda>quot.
           let b = 0.5 * quot;
               g = (0.5 + b) * cos w
           in Some (filter_default
                \<lparr>fb0 := 0.5 - b, fb1 := 0, fb2 := - (0.5 - b), fa1 := - 2 * g, fa2 := 2 * b\<rparr>)))))))"

definition none_filter :: filt where
  "none_filter = filter_default\<lparr>fb0 := 1\<rparr>"

definition high_pass :: "real \<Rightarrow> real \<Rightarrow> filt option" where
  "high_pass sample_rate w0 =
     Option.bind (checked_div w0 sample_rate) (\<lambda>ff.
     Option.bind (checked_tan (pi * ff)) (\<lambda>t.
     Option.bind (checked_div 1 t) (\<lambda>ita.
     Option.bind (checked_div 1 (1 + sqrt 2 * ita + ita * ita)) (\<lambda>b0.
       let b1 = 2 * b0;
           b2 = b0;
           a1 = 2 * (ita * ita - 1) * b0;
           a2 = - (1 - sqrt 2 * ita + ita * ita) * b0;
           b0 = b0 * ita * ita;
           b1 = - b1 * ita * ita;
           b2 = b2 * ita * ita
       in Some (filter_default\<lparr>fb0 := b0, fb1 := b1, fb2 := b2, fa1 := a1, fa2 := a2\<rparr>)))))"

text \<open>The outputs for a list of samples, and the filter after them.\<close>

primrec filter_run :: "filt \<Rightarrow> real list \<Rightarrow> real list \<times> filt" where
  "filter_run f [] = ([], f)"
| "filter_run f (x # xs) =
     (let (y, f') = filter_step f x; (ys, f'') = filter_run f' xs in (y # ys, f''))"

text \<open>The state after \<open>n\<close> samples of the constant \<open>c\<close>.\<close>

primrec held :: "real \<Rightarrow> nat \<Rightarrow> filt \<Rightarrow> filt" where
  "held c 0 f = f"
| "held c (Suc n) f = snd (filter_step (held c n f) c)"

section \<open>The recurrence\<close>

lemma filter_step_sel [simp]:
  "fst (filter_step f x) = fy1 (snd (filter_step f x))"
  "fa1 (snd (filter_step f x)) = fa1 f" "fa2 (snd (filter_step f x)) = fa2 f"
  "fb0 (snd (filter_step f x)) = fb0 f" "fb1 (snd (filter_step f x)) = fb1 f"
  "fb2 (snd (filter_step f x)) = fb2 f"
  "fx1 (snd (filter_step f x)) = x" "fx2 (snd (filter_step f x)) = fx1 f"
  "fy2 (snd (filter_step f x)) = fy1 f"
  by (simp_all add: filter_step_def Let_def)

lemma filter_step_y:
  "fy1 (snd (filter_step f x)) =
     fb0 f * x + fb1 f * fx1 f + fb2 f * fx2 f + fa1 f * fy1 f + fa2 f * fy2 f"
  by (simp add: filter_step_def Let_def)

declare held.simps(2) [simp del]

lemma held_coeffs [simp]:
  "fa1 (held c n f) = fa1 f" "fa2 (held c n f) = fa2 f" "fb0 (held c n f) = fb0 f"
  "fb1 (held c n f) = fb1 f" "fb2 (held c n f) = fb2 f"
  by (induction n) (simp_all add: held.simps(2))

lemma held_inputs [simp]:
  "fx1 (held c (Suc n) f) = c" "fx2 (held c (Suc n) f) = fx1 (held c n f)"
  "fy2 (held c (Suc n) f) = fy1 (held c n f)"
  by (simp_all add: held.simps(2))

lemma filter_run_replicate:
  "filter_run f (replicate n c) = (map (\<lambda>i. fy1 (held c (Suc i) f)) [0..<n], held c n f)"
proof (induction n arbitrary: f)
  case 0
  show ?case by simp
next
  case (Suc n)
  have h: "held c i (snd (filter_step f c)) = held c (Suc i) f" for i
    by (induction i) (simp_all add: held.simps(2))
  have "map (\<lambda>i. fy1 (held c (Suc i) f)) [0..<Suc n] =
      fy1 (held c 1 f) # map (\<lambda>i. fy1 (held c (Suc (Suc i)) f)) [0..<n]"
    by (simp add: upt_conv_Cons map_Suc_upt [symmetric] o_def del: upt_Suc)
  then show ?case
    by (simp add: Suc.IH h case_prod_unfold Let_def held.simps(2) del: upt_Suc)
qed

text \<open>
  The energy of the recurrence \<open>y'' = a1 y' + a2 y\<close>: one step multiplies it by \<open>- a2\<close>.
\<close>

definition energy :: "real \<Rightarrow> real \<Rightarrow> real \<Rightarrow> real \<Rightarrow> real" where
  "energy a1 a2 y z = y * y - a1 * y * z - a2 * z * z"

lemma energy_step: "energy a1 a2 (a1 * y + a2 * z) y = - a2 * energy a1 a2 y z"
  by (simp add: energy_def algebra_simps)

lemma energy_bound:
  assumes "a2 < 0"
  shows "(- 4 * a2 - a1 * a1) * (y * y) \<le> - 4 * a2 * energy a1 a2 y z"
proof -
  have "- 4 * a2 * energy a1 a2 y z - (- 4 * a2 - a1 * a1) * (y * y) =
      (a1 * y + 2 * a2 * z) * (a1 * y + 2 * a2 * z)"
    by (simp add: energy_def algebra_simps)
  then show ?thesis using zero_le_square [of "a1 * y + 2 * a2 * z"] by linarith
qed

text \<open>
  A constant input \<open>c\<close> with steady state \<open>s\<close>: once both stored inputs are \<open>c\<close>, the distance
  of the outputs from \<open>s\<close> follows the recurrence without input.
\<close>

definition steady :: "filt \<Rightarrow> real \<Rightarrow> real \<Rightarrow> bool" where
  "steady f c s \<longleftrightarrow> (fb0 f + fb1 f + fb2 f) * c = (1 - fa1 f - fa2 f) * s"

lemma held_distance:
  assumes "steady f c s"
  shows "fy1 (held c (Suc (Suc (Suc n))) f) - s =
     fa1 f * (fy1 (held c (Suc (Suc n)) f) - s) + fa2 f * (fy2 (held c (Suc (Suc n)) f) - s)"
  using assms by (simp add: held.simps(2) [of c "Suc (Suc n)"] filter_step_y steady_def algebra_simps)

lemma held_energy:
  assumes "steady f c s"
  shows "energy (fa1 f) (fa2 f) (fy1 (held c (Suc (Suc n)) f) - s) (fy2 (held c (Suc (Suc n)) f) - s) =
     (- fa2 f) ^ n * energy (fa1 f) (fa2 f) (fy1 (held c (Suc (Suc 0)) f) - s) (fy2 (held c (Suc (Suc 0)) f) - s)"
proof (induction n)
  case 0
  show ?case by simp
next
  case (Suc n)
  show ?case
    unfolding held_distance [OF assms] held_inputs(3) [of c "Suc (Suc n)"] energy_step
      Suc.IH power_Suc mult.assoc ..
qed

lemma le_divide_by:
  fixes d x e :: real
  assumes "0 < d" "d * x \<le> e"
  shows "x \<le> e / d"
  using assms by (simp add: pos_le_divide_eq mult.commute)

definition settles :: "filt \<Rightarrow> bool" where
  "settles f \<longleftrightarrow> -1 < fa2 f \<and> fa2 f < 0 \<and> fa1 f * fa1 f < - 4 * fa2 f"

definition settle_const :: "filt \<Rightarrow> real \<Rightarrow> real \<Rightarrow> real" where
  "settle_const f c s = - 4 * fa2 f / (- 4 * fa2 f - fa1 f * fa1 f) *
     energy (fa1 f) (fa2 f) (fy1 (held c (Suc (Suc 0)) f) - s) (fy2 (held c (Suc (Suc 0)) f) - s)"

lemma held_settles:
  assumes "settles f" "steady f c s"
  shows "(fy1 (held c (Suc (Suc n)) f) - s)\<^sup>2 \<le> settle_const f c s * (- fa2 f) ^ n"
proof -
  let ?d = "- 4 * fa2 f - fa1 f * fa1 f"
  let ?E = "energy (fa1 f) (fa2 f) (fy1 (held c (Suc (Suc 0)) f) - s) (fy2 (held c (Suc (Suc 0)) f) - s)"
  have d: "0 < ?d" using assms(1) by (simp add: settles_def)
  have "?d * (fy1 (held c (Suc (Suc n)) f) - s)\<^sup>2 \<le> - 4 * fa2 f * ((- fa2 f) ^ n * ?E)"
    using energy_bound [of "fa2 f" "fa1 f" "fy1 (held c (Suc (Suc n)) f) - s" "fy2 (held c (Suc (Suc n)) f) - s"]
      assms(1) unfolding held_energy [OF assms(2), of n] power2_eq_square by (simp add: settles_def)
  then have "(fy1 (held c (Suc (Suc n)) f) - s)\<^sup>2 \<le> - 4 * fa2 f * ((- fa2 f) ^ n * ?E) / ?d"
    by (rule le_divide_by [OF d])
  then show ?thesis by (simp add: settle_const_def mult.commute mult.left_commute)
qed

lemma held_limit:
  assumes "settles f" "steady f c s"
  shows "(\<lambda>n. fy1 (held c n f)) \<longlonglongrightarrow> s"
proof -
  have "(\<lambda>n. settle_const f c s * (- fa2 f) ^ n) \<longlonglongrightarrow> settle_const f c s * 0"
    using assms(1) by (intro tendsto_mult_left LIMSEQ_realpow_zero) (simp_all add: settles_def)
  then have z: "(\<lambda>n. settle_const f c s * (- fa2 f) ^ n) \<longlonglongrightarrow> 0" by simp
  have "(\<lambda>n. (fy1 (held c (Suc (Suc n)) f) - s)\<^sup>2) \<longlonglongrightarrow> 0"
    by (rule tendsto_sandwich [OF _ _ tendsto_const z])
      (simp_all add: held_settles [OF assms])
  then have "(\<lambda>n. sqrt ((fy1 (held c (Suc (Suc n)) f) - s)\<^sup>2)) \<longlonglongrightarrow> sqrt 0"
    by (rule tendsto_real_sqrt)
  then have "(\<lambda>n. fy1 (held c (Suc (Suc n)) f) - s) \<longlonglongrightarrow> 0"
    by (simp add: tendsto_rabs_zero_iff)
  then have "(\<lambda>n. fy1 (held c (Suc (Suc n)) f)) \<longlonglongrightarrow> s"
    by (simp add: LIM_zero_iff)
  then show ?thesis
    by (intro LIMSEQ_imp_Suc [where f = "\<lambda>n. fy1 (held c n f)"]
        LIMSEQ_imp_Suc [where f = "\<lambda>n. fy1 (held c (Suc n) f)"])
qed

section \<open>The designs\<close>

text \<open>The coefficients of both Butterworth designs, in terms of \<open>ita > 0\<close>.\<close>

lemma butterworth_den:
  fixes t :: real
  shows "0 < 1 + sqrt 2 * t + t * t"
proof -
  have "1 + sqrt 2 * t + t * t = 1 / 2 + (t + sqrt 2 / 2) * (t + sqrt 2 / 2)"
    by (simp add: algebra_simps)
  also have "\<dots> > 0" by (intro add_pos_nonneg zero_le_square) simp
  finally show ?thesis .
qed

lemma butterworth_settles:
  fixes t :: real
  assumes "0 < t"
  defines "b \<equiv> 1 / (1 + sqrt 2 * t + t * t)"
  assumes "fa1 f = 2 * (t * t - 1) * b" "fa2 f = - (1 - sqrt 2 * t + t * t) * b"
  shows "settles f"
proof -
  define p where "p = (1 - sqrt 2 * t + t * t) * b"
  have d: "0 < 1 + sqrt 2 * t + t * t" "0 < 1 - sqrt 2 * t + t * t"
    using butterworth_den [of t] butterworth_den [of "- t"] by simp_all
  have b: "0 < b" "(1 + sqrt 2 * t + t * t) * b = 1" using d(1) by (simp_all add: b_def)
  have "p < (1 + sqrt 2 * t + t * t) * b"
    using assms(1) b(1) unfolding p_def by (intro mult_strict_right_mono) simp_all
  then have "p < 1" "0 < p" using b d(2) by (simp_all add: p_def)
  moreover have fa2: "fa2 f = - p" by (simp only: assms(4) p_def mult_minus_left)
  ultimately have 1: "-1 < fa2 f" "fa2 f < 0" by simp_all
  have "- 4 * fa2 f = 4 * p * ((1 + sqrt 2 * t + t * t) * b)"
    by (simp add: fa2 b(2))
  also have "\<dots> = 4 * b * b * ((1 + t * t) * (1 + t * t) - sqrt 2 * sqrt 2 * (t * t))"
    by (simp only: p_def algebra_simps)
  also have "\<dots> = fa1 f * fa1 f + 8 * (b * b) * (t * t)"
    by (simp add: assms(3) algebra_simps)
  finally have "fa1 f * fa1 f < - 4 * fa2 f" using b(1) assms(1) by simp
  with 1 show ?thesis by (simp add: settles_def)
qed

lemma tan_pos:
  assumes "0 < w0" "2 * w0 < fs"
  shows "0 < tan (pi * (w0 / fs))" "cos (pi * (w0 / fs)) \<noteq> 0" "fs \<noteq> 0"
proof -
  have "w0 / fs < 1 / 2" "0 < w0 / fs" using assms by (simp_all add: field_simps)
  then have "pi * (w0 / fs) < pi * (1 / 2)" "0 < pi * (w0 / fs)"
    by (simp_all only: mult_strict_left_mono pi_gt_zero mult_pos_pos)
  then show "0 < tan (pi * (w0 / fs))" "cos (pi * (w0 / fs)) \<noteq> 0"
    using cos_gt_zero_pi [of "pi * (w0 / fs)"] by (simp_all add: tan_gt_zero)
  show "fs \<noteq> 0" using assms by simp
qed

lemma low_pass_shape:
  assumes "0 < w0" "2 * w0 < fs"
  defines "t \<equiv> 1 / tan (pi * (w0 / fs))"
  defines "b \<equiv> 1 / (1 + sqrt 2 * t + t * t)"
  shows "0 < t"
    "low_pass fs w0 = Some (filter_default\<lparr>fb0 := b, fb1 := 2 * b, fb2 := b,
       fa1 := 2 * (t * t - 1) * b, fa2 := - (1 - sqrt 2 * t + t * t) * b\<rparr>)"
    "high_pass fs w0 = Some (filter_default\<lparr>fb0 := b * t * t, fb1 := - (2 * b) * t * t,
       fb2 := b * t * t, fa1 := 2 * (t * t - 1) * b, fa2 := - (1 - sqrt 2 * t + t * t) * b\<rparr>)"
proof -
  note p = tan_pos [OF assms(1,2)]
  show "0 < t" using p(1) by (simp add: t_def)
  have "1 + sqrt 2 * t + t * t \<noteq> 0" using butterworth_den [of t] by linarith
  then show "low_pass fs w0 = Some (filter_default\<lparr>fb0 := b, fb1 := 2 * b, fb2 := b,
       fa1 := 2 * (t * t - 1) * b, fa2 := - (1 - sqrt 2 * t + t * t) * b\<rparr>)"
    "high_pass fs w0 = Some (filter_default\<lparr>fb0 := b * t * t, fb1 := - (2 * b) * t * t,
       fb2 := b * t * t, fa1 := 2 * (t * t - 1) * b, fa2 := - (1 - sqrt 2 * t + t * t) * b\<rparr>)"
    using p unfolding low_pass_def high_pass_def checked_div_def checked_tan_def Let_def b_def t_def
    by simp_all
qed

section \<open>Properties\<close>

text \<open>The two lemmas on a held input, in terms of the outputs.\<close>

lemma output_held: "last (fst (filter_run g (replicate (Suc n) c))) = fy1 (held c (Suc n) g)"
  by (simp only: filter_run_replicate fst_conv upt_Suc_append zero_le map_append list.map last_snoc)

lemma outputs_settle:
  assumes "settles g" "steady g c s"
  shows "\<exists>K. \<forall>n. (last (fst (filter_run g (replicate (n + 2) c))) - s)\<^sup>2 \<le> K * (- fa2 g) ^ n"
    "(\<lambda>n. last (fst (filter_run g (replicate (Suc n) c)))) \<longlonglongrightarrow> s"
proof -
  have "(last (fst (filter_run g (replicate (n + 2) c))) - s)\<^sup>2 \<le> settle_const g c s * (- fa2 g) ^ n"
    for n
    using held_settles [OF assms, of n] output_held [of g "Suc n" c] by simp
  then show "\<exists>K. \<forall>n. (last (fst (filter_run g (replicate (n + 2) c))) - s)\<^sup>2 \<le> K * (- fa2 g) ^ n"
    by blast
  show "(\<lambda>n. last (fst (filter_run g (replicate (Suc n) c)))) \<longlonglongrightarrow> s"
    unfolding output_held by (rule LIMSEQ_Suc [OF held_limit [OF assms]])
qed

text \<open>A filter with any stored samples.\<close>

definition with_samples :: "filt \<Rightarrow> real \<Rightarrow> real \<Rightarrow> real \<Rightarrow> real \<Rightarrow> filt" where
  "with_samples f x1 x2 y1 y2 = f\<lparr>fx1 := x1, fx2 := x2, fy1 := y1, fy2 := y2\<rparr>"

lemma with_samples_sel [simp]:
  "fa1 (with_samples f x1 x2 y1 y2) = fa1 f" "fa2 (with_samples f x1 x2 y1 y2) = fa2 f"
  "settles (with_samples f x1 x2 y1 y2) = settles f"
  "steady (with_samples f x1 x2 y1 y2) c s = steady f c s"
  by (simp_all add: with_samples_def settles_def steady_def)

lemma low_pass_good:
  assumes "0 < w0" "2 * w0 < fs"
  shows "\<exists>f. low_pass fs w0 = Some f \<and> settles f \<and> (\<forall>c. steady f c c)"
proof -
  define t where "t = 1 / tan (pi * (w0 / fs))"
  define b where "b = 1 / (1 + sqrt 2 * t + t * t)"
  note shape = low_pass_shape [OF assms, folded t_def, folded b_def]
  have one: "b * (1 + sqrt 2 * t + t * t) = 1"
    using butterworth_den [of t] by (simp add: b_def)
  have "b + 2 * b + b = 1 - 2 * (t * t - 1) * b - - (1 - sqrt 2 * t + t * t) * b"
    using one by (simp add: algebra_simps)
  then show ?thesis
    unfolding shape(2)
    by (auto simp: steady_def filter_default_def b_def intro!: butterworth_settles [OF shape(1)])
qed

lemma high_pass_good:
  assumes "0 < w0" "2 * w0 < fs"
  shows "\<exists>f. high_pass fs w0 = Some f \<and> settles f \<and> (\<forall>c. steady f c 0)"
proof -
  define t where "t = 1 / tan (pi * (w0 / fs))"
  define b where "b = 1 / (1 + sqrt 2 * t + t * t)"
  note shape = low_pass_shape [OF assms, folded t_def, folded b_def]
  show ?thesis
    unfolding shape(3)
    by (auto simp: steady_def filter_default_def b_def intro!: butterworth_settles [OF shape(1)])
qed

text \<open>
  C26: Both Butterworth designs exist for every cut-off between 0 and half the sample rate. A
  constant input brings the output of the low-pass filter to that constant and the output of
  the high-pass filter to zero, whatever samples the filter holds: the square of the distance
  is bounded by a geometric sequence, and the outputs converge.
\<close>

theorem filters_settle:
  assumes "0 < w0" "2 * w0 < fs"
  shows "\<exists>f h. low_pass fs w0 = Some f \<and> high_pass fs w0 = Some h \<and>
    -1 < fa2 f \<and> fa2 f < 0 \<and> -1 < fa2 h \<and> fa2 h < 0 \<and>
    (\<forall>x1 x2 y1 y2 c.
      (let g = with_samples f x1 x2 y1 y2
       in (\<exists>K. \<forall>n. (last (fst (filter_run g (replicate (n + 2) c))) - c)\<^sup>2 \<le> K * (- fa2 f) ^ n) \<and>
          (\<lambda>n. last (fst (filter_run g (replicate (Suc n) c)))) \<longlonglongrightarrow> c) \<and>
      (let g = with_samples h x1 x2 y1 y2
       in (\<exists>K. \<forall>n. (last (fst (filter_run g (replicate (n + 2) c))))\<^sup>2 \<le> K * (- fa2 h) ^ n) \<and>
          (\<lambda>n. last (fst (filter_run g (replicate (Suc n) c)))) \<longlonglongrightarrow> 0))"
proof -
  obtain f where f: "low_pass fs w0 = Some f" "settles f" "\<And>c. steady f c c"
    using low_pass_good [OF assms] by blast
  obtain h where h: "high_pass fs w0 = Some h" "settles h" "\<And>c. steady h c 0"
    using high_pass_good [OF assms] by blast
  have s: "settles (with_samples f x1 x2 y1 y2)" "steady (with_samples f x1 x2 y1 y2) c c"
    "settles (with_samples h x1 x2 y1 y2)" "steady (with_samples h x1 x2 y1 y2) c 0"
    for x1 x2 y1 y2 c
    using f h by simp_all
  note l = outputs_settle [OF s(1,2), simplified with_samples_sel]
  note r = outputs_settle [OF s(3,4), simplified with_samples_sel diff_zero]
  have "-1 < fa2 f \<and> fa2 f < 0 \<and> -1 < fa2 h \<and> fa2 h < 0" using f h by (simp add: settles_def)
  then show ?thesis
    unfolding Let_def by (intro exI [of _ f] exI [of _ h]) (intro conjI allI f(1) h(1) l r; simp)
qed

theorem filters_settle_witness:
  "\<exists>f. low_pass 1000 100 = Some f \<and>
     (\<lambda>n. last (fst (filter_run (with_samples f 1 2 3 4) (replicate (Suc n) 5)))) \<longlonglongrightarrow> 5"
  using filters_settle [of 100 1000] unfolding Let_def by fastforce

text \<open>One step, and with it a run, is linear in the state and the input.\<close>

definition combined :: "real \<Rightarrow> real \<Rightarrow> filt \<Rightarrow> filt \<Rightarrow> filt \<Rightarrow> bool" where
  "combined a b f g h \<longleftrightarrow>
     (fa1 g, fa2 g, fb0 g, fb1 g, fb2 g) = (fa1 f, fa2 f, fb0 f, fb1 f, fb2 f) \<and>
     (fa1 h, fa2 h, fb0 h, fb1 h, fb2 h) = (fa1 f, fa2 f, fb0 f, fb1 f, fb2 f) \<and>
     fx1 h = a * fx1 f + b * fx1 g \<and> fx2 h = a * fx2 f + b * fx2 g \<and>
     fy1 h = a * fy1 f + b * fy1 g \<and> fy2 h = a * fy2 f + b * fy2 g"

lemma combined_step:
  "combined a b f g h \<Longrightarrow>
   combined a b (snd (filter_step f u)) (snd (filter_step g v)) (snd (filter_step h (a * u + b * v)))"
  unfolding combined_def filter_step_sel filter_step_y by (auto simp: algebra_simps)

lemma combined_run:
  "combined a b f g h \<Longrightarrow> length us = length vs \<Longrightarrow>
   fst (filter_run h (map2 (\<lambda>u v. a * u + b * v) us vs)) =
     map2 (\<lambda>y z. a * y + b * z) (fst (filter_run f us)) (fst (filter_run g vs))"
proof (induction us arbitrary: vs f g h)
  case Nil
  then show ?case by simp
next
  case (Cons u us)
  from Cons.prems(2) obtain v vs' where vs: "vs = v # vs'" by (cases vs) simp_all
  note c = combined_step [OF Cons.prems(1), of u v]
  have y: "fy1 (snd (filter_step h (a * u + b * v))) =
      a * fy1 (snd (filter_step f u)) + b * fy1 (snd (filter_step g v))"
    using c by (simp add: combined_def)
  show ?case
    using Cons.IH [OF c, of vs'] Cons.prems(2) y by (simp add: vs case_prod_unfold Let_def)
qed

text \<open>
  Every filter is linear: from cleared samples, filtering a weighted sum of two input
  sequences gives the weighted sum of the two outputs. The filter built by \<open>none\<close> passes every
  sample through unchanged.
\<close>

theorem filter_linear:
  assumes "length us = length vs"
  shows "fst (filter_run (with_samples f 0 0 0 0) (map2 (\<lambda>u v. a * u + b * v) us vs)) =
      map2 (\<lambda>y z. a * y + b * z) (fst (filter_run (with_samples f 0 0 0 0) us))
        (fst (filter_run (with_samples f 0 0 0 0) vs)) \<and>
    fst (filter_run none_filter us) = us"
proof
  have "combined a b (with_samples f 0 0 0 0) (with_samples f 0 0 0 0) (with_samples f 0 0 0 0)"
    by (simp add: combined_def with_samples_def)
  then show "fst (filter_run (with_samples f 0 0 0 0) (map2 (\<lambda>u v. a * u + b * v) us vs)) =
      map2 (\<lambda>y z. a * y + b * z) (fst (filter_run (with_samples f 0 0 0 0) us))
        (fst (filter_run (with_samples f 0 0 0 0) vs))"
    using assms by (rule combined_run)
  have "fst (filter_run g xs) = xs"
    if "fa1 g = 0" "fa2 g = 0" "fb0 g = 1" "fb1 g = 0" "fb2 g = 0" for g and xs
    using that by (induction xs arbitrary: g) (simp_all add: case_prod_unfold Let_def filter_step_y)
  then show "fst (filter_run none_filter us) = us"
    by (simp add: none_filter_def filter_default_def)
qed

theorem filter_linear_witness:
  "fst (filter_run (with_samples filter_default 0 0 0 0) [8, 14]) = [8, 14]"
  using filter_linear [of "[1, 2]" "[3, 5]" filter_default 2 2]
  by (simp add: with_samples_def filter_default_def filter_step_def)

end
