(* ===== verification/Timer.thy ===== *)
theory Timer
  imports Sim
begin

text \<open>
  \<^verbatim>\<open>src/util/timer.cpp\<close>: the four overloads of \<open>create_timer\<close>. Times of the steady clock are whole
  nanoseconds. The command works on a state of its own and may not return normally. Two of the
  loops never end by themselves: \<open>n\<close> bounds the number of rounds that are looked at, and the
  loops with a Boolean command also say whether they are still running.
\<close>

section \<open>The loops\<close>

definition steady :: "'w kernel \<Rightarrow> ('w, int) io" where
  "steady k w = (let (t, w) = ask k (Now Steady) w in (Inr t, w))"

definition timer_round ::
  "'w kernel \<Rightarrow> (real \<Rightarrow> 's \<Rightarrow> ('w, 'r) io) \<Rightarrow> u32 \<Rightarrow> int \<Rightarrow> 's \<Rightarrow> ('w, 'r \<times> int) io" where
  "timer_round k command interval_ms thn s =
     io_bind (steady k) (\<lambda>now.
       let dt = real_of_int (now - thn) * 0.000000001; thn = now
       in io_bind (steady k) (\<lambda>t.
            let nxt = t + uint interval_ms * 1000000
            in io_bind (command dt s) (\<lambda>r.
               io_bind (io_act (call k (Sleep_until nxt))) (\<lambda>_. io_return (r, thn)))))"

primrec loop_vd ::
  "nat \<Rightarrow> 'w kernel \<Rightarrow> (real \<Rightarrow> 's \<Rightarrow> ('w, 's) io) \<Rightarrow> u32 \<Rightarrow> int \<Rightarrow> 's \<Rightarrow> ('w, 's) io" where
  "loop_vd 0 k command interval_ms thn s = io_return s"
| "loop_vd (Suc n) k command interval_ms thn s =
     io_bind (timer_round k command interval_ms thn s) (\<lambda>(s, thn).
     loop_vd n k command interval_ms thn s)"

definition create_timer_vd ::
  "nat \<Rightarrow> 'w kernel \<Rightarrow> (real \<Rightarrow> 's \<Rightarrow> ('w, 's) io) \<Rightarrow> u32 \<Rightarrow> 's \<Rightarrow> ('w, 's) io" where
  "create_timer_vd n k command interval_ms s =
     io_bind (steady k) (\<lambda>now. io_bind (steady k) (\<lambda>thn. loop_vd n k command interval_ms thn s))"

primrec loop_v ::
  "nat \<Rightarrow> 'w kernel \<Rightarrow> ('s \<Rightarrow> ('w, 's) io) \<Rightarrow> u32 \<Rightarrow> int \<Rightarrow> 's \<Rightarrow> ('w, 's) io" where
  "loop_v 0 k command interval_ms thn s = io_return s"
| "loop_v (Suc n) k command interval_ms thn s =
     io_bind (timer_round k (\<lambda>dt. command) interval_ms thn s) (\<lambda>(s, thn).
     loop_v n k command interval_ms thn s)"

definition create_timer_v ::
  "nat \<Rightarrow> 'w kernel \<Rightarrow> ('s \<Rightarrow> ('w, 's) io) \<Rightarrow> u32 \<Rightarrow> 's \<Rightarrow> ('w, 's) io" where
  "create_timer_v n k command interval_ms s =
     io_bind (steady k) (\<lambda>now. io_bind (steady k) (\<lambda>thn. loop_v n k command interval_ms thn s))"

primrec loop_bd ::
  "nat \<Rightarrow> 'w kernel \<Rightarrow> (real \<Rightarrow> 's \<Rightarrow> ('w, bool \<times> 's) io) \<Rightarrow> u32 \<Rightarrow> int \<Rightarrow> bool \<times> 's \<Rightarrow> ('w, bool \<times> 's) io" where
  "loop_bd 0 k command interval_ms thn rs = io_return rs"
| "loop_bd (Suc n) k command interval_ms thn rs =
     (case rs of (running, s) \<Rightarrow>
        if running then
          io_bind (timer_round k command interval_ms thn s) (\<lambda>(rs, thn).
          loop_bd n k command interval_ms thn rs)
        else io_return (running, s))"

definition create_timer_bd ::
  "nat \<Rightarrow> 'w kernel \<Rightarrow> (real \<Rightarrow> 's \<Rightarrow> ('w, bool \<times> 's) io) \<Rightarrow> u32 \<Rightarrow> 's \<Rightarrow> ('w, bool \<times> 's) io" where
  "create_timer_bd n k command interval_ms s =
     io_bind (steady k) (\<lambda>now. io_bind (steady k) (\<lambda>thn. loop_bd n k command interval_ms thn (True, s)))"

primrec loop_b ::
  "nat \<Rightarrow> 'w kernel \<Rightarrow> ('s \<Rightarrow> ('w, bool \<times> 's) io) \<Rightarrow> u32 \<Rightarrow> int \<Rightarrow> bool \<times> 's \<Rightarrow> ('w, bool \<times> 's) io" where
  "loop_b 0 k command interval_ms thn rs = io_return rs"
| "loop_b (Suc n) k command interval_ms thn rs =
     (case rs of (running, s) \<Rightarrow>
        if running then
          io_bind (timer_round k (\<lambda>dt. command) interval_ms thn s) (\<lambda>(rs, thn).
          loop_b n k command interval_ms thn rs)
        else io_return (running, s))"

definition create_timer_b ::
  "nat \<Rightarrow> 'w kernel \<Rightarrow> ('s \<Rightarrow> ('w, bool \<times> 's) io) \<Rightarrow> u32 \<Rightarrow> 's \<Rightarrow> ('w, bool \<times> 's) io" where
  "create_timer_b n k command interval_ms s =
     io_bind (steady k) (\<lambda>now. io_bind (steady k) (\<lambda>thn. loop_b n k command interval_ms thn (True, s)))"

section \<open>The clock\<close>

text \<open>
  The documented behaviour of a steady clock: \<open>tm\<close> is the time of the world, which no call turns
  back, a reading lies between the times before and after the call, and sleeping until a time
  does not end before it.
\<close>

definition steady_clock :: "'w kernel \<Rightarrow> ('w \<Rightarrow> int) \<Rightarrow> bool" where
  "steady_clock k tm \<longleftrightarrow>
     (\<forall>q w. tm w \<le> tm (snd (k q w))) \<and>
     (\<forall>w. tm w \<le> rval (fst (k (Now Steady) w)) \<and> rval (fst (k (Now Steady) w)) \<le> tm (snd (k (Now Steady) w))) \<and>
     (\<forall>t w. t \<le> tm (snd (k (Sleep_until t) w)))"

definition forward :: "('w \<Rightarrow> int) \<Rightarrow> ('w, 'a) io \<Rightarrow> bool" where
  "forward tm m \<longleftrightarrow> (\<forall>w. tm w \<le> tm (snd (m w)))"

lemma steady_reading:
  assumes "steady_clock k tm"
  obtains t w' where "steady k w = (Inr t, w')" "tm w \<le> t" "t \<le> tm w'"
proof -
  obtain a w' where kw: "k (Now Steady) w = (a, w')" by fastforce
  then have "steady k w = (Inr (rval a), w')" by (simp add: steady_def ask_def)
  moreover have "tm w \<le> rval a \<and> rval a \<le> tm w'"
    using assms kw unfolding steady_clock_def by (metis fst_conv snd_conv)
  ultimately show thesis using that by blast
qed

text \<open>One round that returns, step by step.\<close>

lemma timer_round_returns:
  assumes "steady_clock k tm" "\<And>dt s. forward tm (command dt s)"
    and "timer_round k command ms thn s w = (Inr (r, thn'), w')"
  obtains w1 where "command (real_of_int (thn' - thn) * 0.000000001) s w1 = (Inr r, snd (command (real_of_int (thn' - thn) * 0.000000001) s w1))"
    "tm w \<le> thn'" "thn' + uint ms * 1000000 \<le> tm w'"
proof -
  obtain now w1 where 1: "steady k w = (Inr now, w1)" "tm w \<le> now" "now \<le> tm w1"
    by (rule steady_reading [OF assms(1)])
  obtain t w2 where 2: "steady k w1 = (Inr t, w2)" "tm w1 \<le> t" "t \<le> tm w2"
    by (rule steady_reading [OF assms(1)])
  let ?dt = "real_of_int (now - thn) * 0.000000001"
  have run: "timer_round k command ms thn s w =
      io_bind (command ?dt s) (\<lambda>r. io_bind (io_act (call k (Sleep_until (t + uint ms * 1000000))))
        (\<lambda>_. io_return (r, now))) w2"
    unfolding timer_round_def io_bind_Inr [where m = "steady k", OF 1(1)] Let_def
      io_bind_Inr [where m = "steady k", OF 2(1)] by (rule refl)
  obtain x w3 where c: "command ?dt s w2 = (x, w3)" by fastforce
  with assms(3) run obtain r' where x: "x = Inr r'" by (cases x) (simp_all add: io_bind_def)
  have "(Inr (r, thn'), w') = (Inr (r', now), call k (Sleep_until (t + uint ms * 1000000)) w3)"
    using assms(3) run c by (simp add: x io_bind_def io_act_def io_return_def)
  then have eq: "r' = r" "now = thn'" "w' = call k (Sleep_until (t + uint ms * 1000000)) w3" by auto
  have "t + uint ms * 1000000 \<le> tm w'"
    using assms(1) unfolding eq call_def steady_clock_def by blast
  then show thesis
    using that [of w2] 1(2,3) 2(2) c x eq by simp
qed

lemma timer_round_total:
  assumes "\<And>dt s w. \<exists>b s' w'. command dt s w = (Inr (b, s'), w') \<and> Q s b s'"
  obtains b s' thn' w' where "timer_round k command ms thn s w = (Inr ((b, s'), thn'), w')" "Q s b s'"
proof -
  obtain now w1 where 1: "steady k w = (Inr now, w1)" by (simp add: steady_def case_prod_unfold Let_def)
  obtain t w2 where 2: "steady k w1 = (Inr t, w2)" by (simp add: steady_def case_prod_unfold Let_def)
  obtain b s' w3 where 3: "command (real_of_int (now - thn) * 0.000000001) s w2 = (Inr (b, s'), w3)" "Q s b s'"
    using assms by blast
  have "timer_round k command ms thn s w =
      (Inr ((b, s'), now), call k (Sleep_until (t + uint ms * 1000000)) w3)"
    unfolding timer_round_def io_bind_Inr [where m = "steady k", OF 1] Let_def
      io_bind_Inr [where m = "steady k", OF 2] io_bind_Inr [where m = "command _ s", OF 3(1)]
    by (simp add: io_simps)
  then show thesis using that 3(2) by blast
qed

lemma shift_rounds:
  "\<forall>m \<ge> n. g m = x \<Longrightarrow> (\<And>m. h (Suc m) = g m) \<Longrightarrow> \<forall>m \<ge> Suc n. h m = x"
  by (metis Suc_le_D Suc_le_mono)

section \<open>Recording the time steps\<close>

text \<open>A command that also keeps the list of the time steps it has been given.\<close>

definition traced :: "(real \<Rightarrow> 's \<Rightarrow> ('w, 's) io) \<Rightarrow> real \<Rightarrow> 's \<times> real list \<Rightarrow> ('w, 's \<times> real list) io" where
  "traced command dt sd = (case sd of (s, ds) \<Rightarrow> io_bind (command dt s) (\<lambda>s. io_return (s, ds @ [dt])))"

lemma traced_forward:
  assumes "\<And>dt s. forward tm (command dt s)"
  shows "forward tm (traced command dt sd)"
proof -
  have "tm w \<le> tm (snd (traced command dt sd w))" for w
    using assms [of dt "fst sd", unfolded forward_def, rule_format, of w]
    by (cases "command dt (fst sd) w"; cases "fst (command dt (fst sd) w)")
      (simp_all add: traced_def io_bind_def io_return_def case_prod_unfold)
  then show ?thesis by (simp add: forward_def)
qed

lemma traced_result: "traced command dt (s, ds) w = (Inr (s', ds'), w') \<Longrightarrow> ds' = ds @ [dt]"
  by (auto simp: traced_def io_bind_def io_return_def split: prod.splits sum.splits)

lemma loop_trace:
  assumes "steady_clock k tm" "\<And>dt s. forward tm (command dt s)"
    and "loop_vd n k (traced command) ms thn (s, ds) w = (Inr (s', ds'), w')"
    and "thn + c \<le> tm w" "0 \<le> c"
  shows "\<exists>es. ds' = ds @ es \<and> length es = n \<and>
    (\<forall>i < n. real_of_int (if i = 0 then c else uint ms * 1000000) / 10 ^ 9 \<le> es ! i) \<and>
    sum_list es * 10 ^ 9 \<le> real_of_int (tm w' - thn) \<and> tm w + int n * (uint ms * 1000000) \<le> tm w'"
  using assms(3-5)
proof (induction n arbitrary: thn s ds w c)
  case 0
  then show ?case by (simp add: io_return_def)
next
  case (Suc n)
  obtain x w1 where x: "timer_round k (traced command) ms thn (s, ds) w = (x, w1)" by fastforce
  then obtain s1 ds1 thn1 where r: "x = Inr ((s1, ds1), thn1)"
    using Suc.prems(1) by (cases x) (auto simp: io_bind_def)
  let ?dt = "real_of_int (thn1 - thn) * 0.000000001"
  obtain w0 w2 where c: "traced command ?dt (s, ds) w0 = (Inr (s1, ds1), w2)"
    and t: "tm w \<le> thn1" "thn1 + uint ms * 1000000 \<le> tm w1"
    by (rule timer_round_returns [OF assms(1) traced_forward [OF assms(2)] x [unfolded r]])
  have ds1: "ds1 = ds @ [?dt]" by (rule traced_result [OF c])
  have tail: "loop_vd n k (traced command) ms thn1 (s1, ds1) w1 = (Inr (s', ds'), w')"
    using Suc.prems(1) x r by (simp add: io_bind_def)
  obtain es where es: "ds' = ds1 @ es" "length es = n"
    "\<forall>i < n. real_of_int (if i = 0 then uint ms * 1000000 else uint ms * 1000000) / 10 ^ 9 \<le> es ! i"
    "sum_list es * 10 ^ 9 \<le> real_of_int (tm w' - thn1)" "tm w1 + int n * (uint ms * 1000000) \<le> tm w'"
    using Suc.IH [OF tail t(2)] by (auto simp: uint_ge_0)
  have dt: "?dt * 10 ^ 9 = real_of_int (thn1 - thn)" by simp
  have "c \<le> thn1 - thn" using Suc.prems(2) t(1) by linarith
  then have "real_of_int c \<le> real_of_int (thn1 - thn)" by linarith
  then have first: "real_of_int c / 10 ^ 9 \<le> ?dt" by simp
  have steps: "\<forall>i < Suc n. real_of_int (if i = 0 then c else uint ms * 1000000) / 10 ^ 9 \<le> (?dt # es) ! i"
    using first es(3) by (auto simp: nth_Cons split: nat.split)
  have total: "sum_list (?dt # es) * 10 ^ 9 \<le> real_of_int (tm w' - thn)"
    using es(4) unfolding sum_list.Cons distrib_right dt by linarith
  have pace: "tm w + int (Suc n) * (uint ms * 1000000) \<le> tm w'"
    using es(5) t by (simp add: algebra_simps)
  show ?case
    by (rule exI [of _ "?dt # es"]) (use es(1,2) ds1 steps total pace in simp)
qed

text \<open>The example clock: time is the state, a reading gives it, sleeping moves it on.\<close>

fun clock_kernel :: "int kernel" where
  "clock_kernel (Sleep_until t) w = (answer_of 0, max t w)"
| "clock_kernel q w = (answer_of w, w)"

lemma clock_kernel_steady: "steady_clock clock_kernel (\<lambda>w. w)"
proof -
  have "w \<le> snd (clock_kernel q w)" for q w by (cases q) simp_all
  then show ?thesis by (simp add: steady_clock_def)
qed


section \<open>Properties\<close>

text \<open>
  On a steady clock, and for a command that takes time only forwards, the loop that reports
  time steps paces its command: every round after the first comes at least the interval after
  the one before, the steps it reports are never negative and together no more than the time
  that has passed, and \<open>n\<close> rounds take at least \<open>n\<close> intervals.
\<close>

theorem timer_paces:
  assumes "steady_clock k tm" "\<And>dt s. forward tm (command dt s)"
    and "create_timer_vd n k (traced command) ms (s, []) w = (Inr (s', dts), w')"
  shows "length dts = n \<and> (\<forall>i < n. 0 \<le> dts ! i \<and> (0 < i \<longrightarrow> real (unat ms) / 1000 \<le> dts ! i)) \<and>
    sum_list dts * 10 ^ 9 \<le> real_of_int (tm w' - tm w) \<and> tm w + int n * (int (unat ms) * 1000000) \<le> tm w'"
proof -
  obtain now w1 where 1: "steady k w = (Inr now, w1)" "tm w \<le> now" "now \<le> tm w1"
    by (rule steady_reading [OF assms(1)])
  obtain thn w2 where 2: "steady k w1 = (Inr thn, w2)" "tm w1 \<le> thn" "thn \<le> tm w2"
    by (rule steady_reading [OF assms(1)])
  have run: "loop_vd n k (traced command) ms thn (s, []) w2 = (Inr (s', dts), w')"
    using assms(3) unfolding create_timer_vd_def io_bind_Inr [where m = "steady k", OF 1(1)]
      io_bind_Inr [where m = "steady k", OF 2(1)] .
  obtain es where es: "dts = [] @ es" "length es = n"
    "\<forall>i < n. real_of_int (if i = 0 then 0 else uint ms * 1000000) / 10 ^ 9 \<le> es ! i"
    "sum_list es * 10 ^ 9 \<le> real_of_int (tm w' - thn)" "tm w2 + int n * (uint ms * 1000000) \<le> tm w'"
    using loop_trace [OF assms(1,2) run, of 0] 2(3) by auto
  have ms: "uint ms = int (unat ms)" by simp
  have step: "0 \<le> dts ! i \<and> (0 < i \<longrightarrow> real (unat ms) / 1000 \<le> dts ! i)" if "i < n" for i
  proof -
    have h: "real_of_int (if i = 0 then 0 else uint ms * 1000000) / 10 ^ 9 \<le> dts ! i"
      using es(3) that es(1) by simp
    have eq: "real_of_int (uint ms * 1000000) / 10 ^ 9 = real (unat ms) / 1000" by simp
    have ge: "0 \<le> real (unat ms) / 1000" by (intro divide_nonneg_nonneg of_nat_0_le_iff) simp
    show ?thesis
    proof (cases "i = 0")
      case False
      show ?thesis using h [unfolded if_not_P [OF False] eq] ge by (meson order_trans)
    qed (use h in simp)
  qed
  have "real_of_int (tm w' - thn) \<le> real_of_int (tm w' - tm w)" using 1 2 by linarith
  then have "sum_list dts * 10 ^ 9 \<le> real_of_int (tm w' - tm w)" using es(1,4) by simp
  moreover have "tm w + int n * (int (unat ms) * 1000000) \<le> tm w'"
    using es(5) 1 2 unfolding ms by linarith
  ultimately show ?thesis using es(1,2) step by simp
qed

theorem timer_paces_witness:
  "\<exists>dts w'. create_timer_vd 3 clock_kernel (traced (\<lambda>dt s. io_return (s + dt))) 20 (0, []) 5 = (Inr (0.04, dts), w') \<and>
     dts = [0, 0.02, 0.02] \<and> 5 + 3 * 20000000 \<le> w'"
proof -
  let ?c = "\<lambda>dt s. io_return (s + dt) :: (int, real) io"
  have "create_timer_vd 3 clock_kernel (traced ?c) 20 (0, []) 5 = (Inr (0.04, [0, 0.02, 0.02]), 60000005)"
    by (simp add: create_timer_vd_def numeral_3_eq_3 timer_round_def steady_def ask_def io_bind_def
        traced_def io_return_def io_act_def call_def Let_def)
  from timer_paces [OF clock_kernel_steady _ this] this show ?thesis
    by (auto simp: forward_def io_return_def)
qed

text \<open>
  A Boolean command is run until it asks to stop. Where it returns normally and every round
  that asks to go on makes some measure smaller, the loop ends within that many rounds, and then
  nothing is run any more, however many rounds are allowed.
\<close>

theorem timer_stops:
  assumes "\<And>dt s w. \<exists>b s' w'. command dt s w = (Inr (b, s'), w') \<and> (b \<longrightarrow> f s' < (f s :: nat))"
    and "f s < n"
  shows "\<exists>s' w'. \<forall>m \<ge> n. create_timer_bd m k command ms s w = (Inr (False, s'), w')"
proof -
  have "\<exists>s' w'. \<forall>m \<ge> n. loop_bd m k command ms thn (True, s) w = (Inr (False, s'), w')" for thn w
    using assms(2)
  proof (induction n arbitrary: thn s w)
    case (Suc n)
    obtain b s1 thn1 w1 where r: "timer_round k command ms thn s w = (Inr ((b, s1), thn1), w1)"
      and b: "b \<longrightarrow> f s1 < f s"
      by (rule timer_round_total [where Q = "\<lambda>s b s'. b \<longrightarrow> f s' < f s", OF assms(1), where k = k and ms = ms and thn = thn and s = s and w = w])
    have unroll: "loop_bd (Suc m) k command ms thn (True, s) w = loop_bd m k command ms thn1 (b, s1) w1" for m
      by (simp add: io_bind_Inr [where m = "timer_round k command ms thn s", OF r])
    show ?case
    proof (cases b)
      case True
      then obtain s' w' where "\<forall>m \<ge> n. loop_bd m k command ms thn1 (True, s1) w1 = (Inr (False, s'), w')"
        using Suc.IH [of s1 thn1 w1] Suc.prems b by auto
      then have "\<forall>m \<ge> Suc n. loop_bd m k command ms thn (True, s) w = (Inr (False, s'), w')"
        by (rule shift_rounds) (simp only: unroll True simp_thms)
      then show ?thesis by blast
    next
      case False
      have "loop_bd m k command ms thn1 (False, s1) w1 = (Inr (False, s1), w1)" for m
        by (cases m) (simp_all add: io_return_def)
      then have "\<forall>m \<ge> n. loop_bd m k command ms thn1 (False, s1) w1 = (Inr (False, s1), w1)" by blast
      then have "\<forall>m \<ge> Suc n. loop_bd m k command ms thn (True, s) w = (Inr (False, s1), w1)"
        by (rule shift_rounds) (use unroll False in simp)
      then show ?thesis by blast
    qed
  qed simp
  moreover have "\<exists>t w1. steady k w = (Inr t, w1)" for w
    by (simp add: steady_def case_prod_unfold Let_def)
  ultimately show ?thesis
    unfolding create_timer_bd_def by (metis io_bind_Inr)
qed

theorem timer_stops_witness:
  "\<exists>s' w'. \<forall>m \<ge> 4. create_timer_bd m clock_kernel (\<lambda>dt s. io_return (1 < s, s - 1)) 20 (3 :: nat) 0 = (Inr (False, s'), w')"
  by (rule timer_stops [where f = "\<lambda>s. s"]) (auto simp: io_return_def)

text \<open>
  The four overloads are one loop: a command without the time step is run as one that
  ignores it, and a command without a result as one that always asks to go on.
\<close>

theorem timer_overloads_agree:
  "create_timer_v n k c ms s = create_timer_vd n k (\<lambda>dt. c) ms s \<and>
   create_timer_b n k cb ms s = create_timer_bd n k (\<lambda>dt. cb) ms s \<and>
   create_timer_bd n k (\<lambda>dt s. io_bind (cd dt s) (\<lambda>s. io_return (True, s))) ms s =
     io_bind (create_timer_vd n k cd ms s) (\<lambda>s. io_return (True, s))"
proof -
  have 1: "loop_v n k c ms thn s = loop_vd n k (\<lambda>dt. c) ms thn s" for thn s
    by (induction n arbitrary: thn s) simp_all
  have 2: "loop_b n k cb ms thn rs = loop_bd n k (\<lambda>dt. cb) ms thn rs" for thn rs
    by (induction n arbitrary: thn rs) (simp_all split: prod.split)
  let ?cd = "\<lambda>dt s. io_bind (cd dt s) (\<lambda>s. io_return (True, s))"
  have round: "timer_round k ?cd ms thn s = io_bind (timer_round k cd ms thn s) (\<lambda>(s, thn). io_return ((True, s), thn))"
    for thn s
    by (simp add: timer_round_def io_bind_assoc Let_def io_simps(1))
  have 3: "loop_bd n k ?cd ms thn (True, s) = io_bind (loop_vd n k cd ms thn s) (\<lambda>s. io_return (True, s))" for thn s
    by (induction n arbitrary: thn s)
      (simp_all add: round io_bind_assoc io_simps(1) case_prod_unfold)
  show ?thesis
    by (simp add: create_timer_v_def create_timer_vd_def create_timer_b_def create_timer_bd_def 1 2 3 io_bind_assoc)
qed

end
