(* ===== verification/Adiru.thy ===== *)
theory Adiru
  imports Mpu6050 FilterMath MathLib Mqtt StdNum Timer
begin

text \<open>
  \<^verbatim>\<open>src/main/adiru.cpp\<close>: the inertial unit that publishes over MQTT. The globals of the file are
  one record; the options are arguments (the option parser is vendored). The attitude
  computation is the one of \<^verbatim>\<open>src/main/adiru-nosocket.cpp\<close> too and is shared with its model.
\<close>

section \<open>Attitude\<close>

definition sensor_roll_pitch_tau :: real where "sensor_roll_pitch_tau = 0.05"

definition tilt_roll :: "real list \<Rightarrow> real" where
  "tilt_roll a = atan2 (a ! 1) (a ! 2)"

definition tilt_pitch :: "real list \<Rightarrow> real" where
  "tilt_pitch a = atan2 (a ! 0) (sqrt (a ! 1 * a ! 1 + a ! 2 * a ! 2))"

text \<open>The orientation after turning by the filtered rates for a time step.\<close>

definition integrate :: "real \<Rightarrow> real list \<Rightarrow> quarternion \<Rightarrow> quarternion" where
  "integrate dt filtered orientation =
     (let euler_v = vector3 (filtered ! 3 * dt * DEG_TO_RAD) (filtered ! 4 * dt * DEG_TO_RAD)
                      (filtered ! 5 * dt * DEG_TO_RAD);
          euler_q = fromEulerZYX euler_v
      in qmul euler_q orientation)"

text \<open>Roll and pitch drawn towards those of the accelerometer.\<close>

definition fuse :: "real list \<Rightarrow> vector \<Rightarrow> vector" where
  "fuse a e =
     (let e = e\<lparr>vx := vx e * (1 - sensor_roll_pitch_tau) + tilt_roll a * sensor_roll_pitch_tau\<rparr>
      in e\<lparr>vy := vy e * (1 - sensor_roll_pitch_tau) + tilt_pitch a * sensor_roll_pitch_tau\<rparr>)"

definition attitude_step :: "real \<Rightarrow> real list \<Rightarrow> real list \<Rightarrow> quarternion \<Rightarrow> quarternion \<times> vector" where
  "attitude_step dt a filtered orientation =
     (let orientation = integrate dt filtered orientation;
          orientation_euler = toEuler orientation;
          orientation_euler = fuse a orientation_euler;
          orientation = fromEulerZYX orientation_euler;
          orientation_euler = toEuler orientation
      in (orientation, orientation_euler))"

text \<open>\<^verbatim>\<open>filtered[i] = filters[i][data[i]]\<close> for every channel.\<close>

fun filter_channels :: "filt list \<Rightarrow> real list \<Rightarrow> real list \<times> filt list" where
  "filter_channels (f # fs) (x # xs) =
     (let (y, f) = filter_step f x; (ys, fs) = filter_channels fs xs in (y # ys, f # fs))"
| "filter_channels fs xs = ([], fs)"

section \<open>State\<close>

record adiru =
  ad_mpu :: mpu
  raw_data :: "real list"
  filtered_data :: "real list"
  filters :: "filt list"
  orientation :: quarternion
  orientation_euler :: vector
  position :: vector
  velocity :: vector

definition adiru_globals :: adiru where
  "adiru_globals = \<lparr>ad_mpu = mpu_static, raw_data = replicate 6 0, filtered_data = replicate 6 0,
     filters = replicate 6 filter_default, orientation = quat0, orientation_euler = vector0,
     position = vector3 0 0 0, velocity = vector3 0 0 0\<rparr>"

section \<open>Operations\<close>

definition sense :: "'w kernel \<Rightarrow> mpu \<Rightarrow> 'w \<Rightarrow> real list \<times> 'w" where
  "sense k m w = (let (d, w) = mpu_read k m w in (d[4 := d ! 4 * -1], w))"

fun spaced :: "real list \<Rightarrow> string" where
  "spaced [] = []"
| "spaced [x] = to_string x"
| "spaced (x # xs) = to_string x @ '' '' @ spaced xs"

definition vec_list :: "vector \<Rightarrow> real list" where
  "vec_list v = [vx v, vy v, vz v]"

definition raw_payload :: "adiru \<Rightarrow> string" where
  "raw_payload s = spaced (raw_data s)"

definition filtered_payload :: "adiru \<Rightarrow> string" where
  "filtered_payload s = spaced (filtered_data s)"

definition attitude_payload :: "adiru \<Rightarrow> string" where
  "attitude_payload s = spaced (vec_list (orientation_euler s) @ drop 3 (filtered_data s))"

definition full_payload :: "adiru \<Rightarrow> string" where
  "full_payload s =
     spaced (take 3 (filtered_data s) @ vec_list (orientation_euler s) @ drop 3 (filtered_data s))"

definition adiru_update :: "real \<Rightarrow> real list \<Rightarrow> adiru \<Rightarrow> adiru" where
  "adiru_update dt d s =
     (let (ys, fs) = filter_channels (filters s) d;
          (q, e) = attitude_step dt d ys (orientation s)
      in s\<lparr>raw_data := d, filtered_data := ys, filters := fs, orientation := q, orientation_euler := e\<rparr>)"

definition adiru_publish :: "'w kernel \<Rightarrow> adiru \<Rightarrow> ('w, unit) io" where
  "adiru_publish k s =
     io_bind (mqtt_publish k ''adiru/raw-mpu6050_data'' (raw_payload s)) (\<lambda>_.
     io_bind (mqtt_publish k ''adiru/filtered-mpu6050_data'' (filtered_payload s)) (\<lambda>_.
     io_bind (mqtt_publish k ''adiru/attitude'' (attitude_payload s)) (\<lambda>_.
     mqtt_publish k ''adiru/full'' (full_payload s))))"

definition adiru_tick :: "'w kernel \<Rightarrow> real \<Rightarrow> adiru \<Rightarrow> ('w, adiru) io" where
  "adiru_tick k dt s w =
     (let (d, w) = sense k (ad_mpu s) w; s = adiru_update dt d s
      in io_bind (adiru_publish k s) (\<lambda>_. io_return s) w)"

definition io_calibrate :: "'w kernel \<Rightarrow> int \<Rightarrow> mpu \<Rightarrow> ('w, mpu) io" where
  "io_calibrate k n m w =
     (case calibrate k n (m, w) of Inl e \<Rightarrow> (Inl e, w) | Inr (m, w) \<Rightarrow> (Inr m, w))"

definition io_dev :: "('d \<times> 'w \<Rightarrow> 'd \<times> 'w) \<Rightarrow> 'd \<Rightarrow> ('w, 'd) io" where
  "io_dev f m w = (let (m, w) = f (m, w) in (Inr m, w))"

definition configure_mpu :: "'w kernel \<Rightarrow> mpu \<Rightarrow> ('w, mpu) io" where
  "configure_mpu k m =
     io_bind (io_dev (mpu_init_default k) m) (\<lambda>m.
     io_bind (io_dev (set_accl_set k G_2) m) (\<lambda>m.
     io_bind (io_dev (set_gyro_set k Deg_250) m) (\<lambda>m.
     io_bind (io_dev (set_clk k Y_gyro) m) (\<lambda>m.
     io_bind (io_dev (set_fsync k Input_dis) m) (\<lambda>m.
     io_bind (io_dev (set_dlpf_bandwidth k Hz_5) m) (\<lambda>m.
     io_bind (io_dev (wake_up k) m) (\<lambda>m.
     io_calibrate k 7 m)))))))"

text \<open>
  A design that is not finite is left out (the program would go on with NaN coefficients), and
  the rate must give an interval that fits an \<^verbatim>\<open>int\<close>.
\<close>

definition checked_interval :: "real \<Rightarrow> fault + int" where
  "checked_interval ups = (if ups = 0 then Inl Undefined_behaviour else int_of_double (1000 / ups))"

definition six_low_pass :: "real \<Rightarrow> fault + filt list" where
  "six_low_pass ups =
     (case low_pass ups 10 of None \<Rightarrow> Inl Not_modelled | Some f \<Rightarrow> Inr (replicate 6 f))"

definition adiru_setup :: "'w kernel \<Rightarrow> real \<Rightarrow> ('w, adiru \<times> int) io" where
  "adiru_setup k ups =
     io_bind (io_lift (checked_interval ups)) (\<lambda>interval_ms.
     io_bind (io_act (call k (Puts (''Begin mpu6050 configuration'' @ [CHR 0x0A])))) (\<lambda>_.
     io_bind (configure_mpu k mpu_static) (\<lambda>m.
     io_bind (io_act (call k (Puts (''Finish mpu6050 configuration'' @ [CHR 0x0A])))) (\<lambda>_.
     io_bind (io_act (call k (Puts (''Starting up MQTT client'' @ [CHR 0x0A])))) (\<lambda>_.
     io_bind (mqtt_connect k) (\<lambda>_.
     io_bind (io_lift (six_low_pass ups)) (\<lambda>fs.
     io_bind (io_act (call k (Puts (''Finished initialization'' @ [CHR 0x0A])))) (\<lambda>_.
     io_return (adiru_globals\<lparr>ad_mpu := m, filters := fs\<rparr>, interval_ms)))))))))"

definition adiru_main :: "nat \<Rightarrow> 'w kernel \<Rightarrow> real \<Rightarrow> ('w, adiru) io" where
  "adiru_main n k ups =
     io_bind (adiru_setup k ups) (\<lambda>(s, interval_ms).
     create_timer_vd n k (adiru_tick k) (word_of_int interval_ms) s)"

section \<open>Angles\<close>

lemma atan2_bounds: "- pi < atan2 y x \<and> atan2 y x \<le> pi"
proof -
  have a: "- (pi / 2) < arctan t \<and> arctan t < pi / 2" for t using arctan_bounded by blast
  have n: "arctan (y / x) \<le> 0" if "x < 0" "0 \<le> y" using that by (simp add: divide_nonneg_neg)
  have p: "0 < arctan (y / x)" if "x < 0" "y < 0" using that by (simp add: divide_neg_neg)
  show ?thesis
    using a [of "y / x"] n p pi_gt_zero by (auto simp: atan2_def not_less)
qed

lemma atan2_right: "0 \<le> x \<Longrightarrow> - (pi / 2) \<le> atan2 y x \<and> atan2 y x \<le> pi / 2"
proof -
  have "- (pi / 2) < arctan t \<and> arctan t < pi / 2" for t using arctan_bounded by blast
  then show "0 \<le> x \<Longrightarrow> ?thesis" using pi_gt_zero by (auto simp: atan2_def less_imp_le)
qed

text \<open>The angles \<open>toEuler\<close> can take back.\<close>

definition euler_ok :: "vector \<Rightarrow> bool" where
  "euler_ok e \<longleftrightarrow> - pi < vx e \<and> vx e \<le> pi \<and> - (pi / 2) < vy e \<and> vy e < pi / 2 \<and> - pi < vz e \<and> vz e \<le> pi"

lemma angles_back: "euler_ok e \<Longrightarrow> toEuler (fromEulerZYX e) = e"
  by (rule euler_angles_back) (simp_all add: euler_ok_def)

text \<open>The sine of the pitch of a quaternion, which says whether it is in the gimbal cases.\<close>

definition sin_pitch :: "quarternion \<Rightarrow> real" where
  "sin_pitch q = 2 * (qw q * qy q - qz q * qx q)"

lemma toEuler_ok:
  assumes "\<bar>sin_pitch q\<bar> < 1"
  shows "euler_ok (toEuler q)"
proof -
  have s: "-1 < sin_pitch q" "sin_pitch q < 1" using assms by linarith+
  then have "- (pi / 2) < arcsin (sin_pitch q)" "arcsin (sin_pitch q) < pi / 2"
    using arcsin_lt_bounded by blast+
  then show ?thesis
    using s atan2_bounds
    by (simp add: toEuler_def Let_def euler_ok_def vector3_def sin_pitch_def)
qed

lemma blend:
  fixes x y lo hi :: real
  assumes "lo < x" "x \<le> hi" "lo \<le> y" "y \<le> hi"
  shows "lo < x * (1 - sensor_roll_pitch_tau) + y * sensor_roll_pitch_tau"
    "x * (1 - sensor_roll_pitch_tau) + y * sensor_roll_pitch_tau \<le> hi"
    "x < hi \<Longrightarrow> x * (1 - sensor_roll_pitch_tau) + y * sensor_roll_pitch_tau < hi"
  using assms by (simp_all add: sensor_roll_pitch_tau_def field_simps)

lemma fuse_sel:
  "vx (fuse a e) = vx e * (1 - sensor_roll_pitch_tau) + tilt_roll a * sensor_roll_pitch_tau"
  "vy (fuse a e) = vy e * (1 - sensor_roll_pitch_tau) + tilt_pitch a * sensor_roll_pitch_tau"
  "vz (fuse a e) = vz e"
  by (simp_all add: fuse_def Let_def)

lemma tilt_bounds: "- pi < tilt_roll a \<and> tilt_roll a \<le> pi" "- (pi / 2) \<le> tilt_pitch a \<and> tilt_pitch a \<le> pi / 2"
  unfolding tilt_roll_def tilt_pitch_def by (rule atan2_bounds, rule atan2_right) simp

lemma fuse_ok:
  assumes "euler_ok e"
  shows "euler_ok (fuse a e)"
  using assms tilt_bounds [of a]
    blend [of "- pi" "vx e" pi "tilt_roll a"] blend [of "- (pi / 2)" "vy e" "pi / 2" "tilt_pitch a"]
  unfolding euler_ok_def fuse_sel by simp

lemma integrate_still:
  assumes "f ! 3 = 0" "f ! 4 = 0" "f ! 5 = 0"
  shows "integrate dt f (fromEulerZYX e) = fromEulerZYX e"
  using assms
  by (intro quat_eqI) (simp_all add: integrate_def Let_def fromEulerZYX_def vector3_def quat0_def qmul_def)

section \<open>Configuration\<close>

lemma io_dev_Inr: "io_dev f m w = (Inr m', w') \<longleftrightarrow> f (m, w) = (m', w')"
  by (auto simp: io_dev_def split: prod.splits)

text \<open>The registers of the chip as the configuration leaves them.\<close>

definition mpu_ready :: "(u8 \<Rightarrow> u8) \<Rightarrow> mpu \<Rightarrow> bool" where
  "mpu_ready view m \<longleftrightarrow> accl_scale m = 16384 \<and> gyro_scale m = 131 \<and>
     mpu_range_field (view REG_ACCL_CFG) = 0 \<and> mpu_range_field (view REG_GYRO_CFG) = 0 \<and>
     \<not> bit (view REG_PWR_MNG_1) 6 \<and> view REG_PWR_MNG_1 AND 7 = 2 \<and> view REG_CFG AND 0x3F = 6"

lemma config_fields:
  "merge_bits (merge_bits b 7 2) 0x40 0 AND 7 = 2"
  "merge_bits (merge_bits b 0x38 0) 7 6 AND 0x3F = 6"
  "\<not> bit (merge_bits b 0x40 0) 6"
  "mpu_range_field (merge_bits b 0x18 0) = 0"
proof -
  have "merge_bits (merge_bits b 7 2) 0x40 0 AND 7 = merge_bits b 7 2 AND 7"
    unfolding merge_bits_def
    by (rule bit_word_eqI) (auto simp: bit_simps bit_numeral_rec less_Suc_eq numeral_eq_Suc)
  then show "merge_bits (merge_bits b 7 2) 0x40 0 AND 7 = 2" by (simp add: merge_bits_field)
  have "merge_bits (merge_bits b 0x38 0) 7 6 AND 0x3F = merge_bits b 0x3F 6 AND 0x3F"
    unfolding merge_bits_def
    by (rule bit_word_eqI) (auto simp: bit_simps bit_numeral_rec less_Suc_eq numeral_eq_Suc)
  then show "merge_bits (merge_bits b 0x38 0) 7 6 AND 0x3F = 6" by (simp add: merge_bits_field)
qed (simp_all add: bit_merge_bits mpu_range_field_def merge_bits_field)

lemma configure_mpu_ready:
  assumes "register_bus k regs" "configure_mpu k m0 w = (Inr m, w')"
  shows "0 \<le> fd (mpu_dev m) \<and> addr (mpu_dev m) = MPU6050_DEFAULT_ADDR \<and> mpu_ready (dev_regs regs (mpu_dev m) w') m"
proof -
  obtain m1 w1 m2 w2 m3 w3 m4 w4 m5 w5 m6 w6 m7 w7 where
    1: "mpu_init_default k (m0, w) = (m1, w1)" and 2: "set_accl_set k G_2 (m1, w1) = (m2, w2)" and
    3: "set_gyro_set k Deg_250 (m2, w2) = (m3, w3)" and 4: "set_clk k Y_gyro (m3, w3) = (m4, w4)" and
    5: "set_fsync k Input_dis (m4, w4) = (m5, w5)" and 6: "set_dlpf_bandwidth k Hz_5 (m5, w5) = (m6, w6)" and
    7: "wake_up k (m6, w6) = (m7, w7)" and 8: "io_calibrate k 7 m7 w7 = (Inr m, w')"
    using assms(2) unfolding configure_mpu_def by (elim io_bind_InrE) (simp add: io_dev_Inr)
  let ?d = "mpu_dev m1" and ?v = "\<lambda>w. dev_regs regs (mpu_dev m1) w"
  have d: "0 \<le> fd ?d" "addr ?d = MPU6050_DEFAULT_ADDR"
    using device_new_ok [OF assms(1), of MPU6050_DEFAULT_ADDR w] 1
    by (auto simp: mpu_init_default_def mpu_init_def split: prod.splits)
  note acc = set_accl_set_effect [OF assms(1) d(1) 2]
  have d2: "mpu_dev m2 = ?d" "0 \<le> fd (mpu_dev m2)" using acc d by simp_all
  note gyr = set_gyro_set_effect [OF assms(1) d2(2) 3]
  have d3: "mpu_dev m3 = ?d" "0 \<le> fd (mpu_dev m3)" using gyr d2 by simp_all
  note clk = mpu_update_step [OF assms(1) d3(2) 4 [unfolded set_clk_def]]
  note fsy = mpu_update_step [OF assms(1) d3(2) 5 [unfolded set_fsync_def clk(1)]]
  note dlp = mpu_update_step [OF assms(1) d3(2) 6 [unfolded set_dlpf_bandwidth_def fsy(1)]]
  note wak = mpu_update_step [OF assms(1) d3(2) 7 [unfolded wake_up_def dlp(1)]]
  have "calibrate k 7 (m7, w7) = Inr (m, w')"
    using 8 by (auto simp: io_calibrate_def split: sum.splits)
  then have cal: "only_offsets regs (m3, w7) (m, w')"
    using calibrate_keeps [OF assms(1) d3(2)] wak(1) by simp
  have m: "mpu_dev m = ?d" "accl_scale m = 16384" "gyro_scale m = 131"
    using cal acc(1) gyr(1) by (auto simp: only_offsets_def)
  have v: "?v w' = ?v w7" using cal by (simp add: only_offsets_def dev_regs_def)
  note views = acc(2) gyr(2) [unfolded d2] clk(2) [unfolded d3] fsy(2) [unfolded d3] dlp(2) [unfolded d3] wak(2) [unfolded d3]
  have regs: "?v w' REG_ACCL_CFG = merge_bits (?v w1 REG_ACCL_CFG) 0x18 0"
    "?v w' REG_GYRO_CFG = merge_bits (?v w1 REG_GYRO_CFG) 0x18 0"
    "?v w' REG_PWR_MNG_1 = merge_bits (merge_bits (?v w1 REG_PWR_MNG_1) 7 2) 0x40 0"
    "?v w' REG_CFG = merge_bits (merge_bits (?v w1 REG_CFG) 0x38 0) 7 6"
    unfolding v views narrow_rmw narrow_clear narrow_numeral_mask by (simp_all add: mpu_regs narrow_def)
  show ?thesis
    using d m unfolding mpu_ready_def m(1) regs by (simp add: config_fields)
qed

lemma configure_mpu_rest:
  assumes "register_bus k regs"
    and "map (reg16 (regs w 0x68)) [0x3B, 0x3D, 0x3F, 0x43, 0x45, 0x47] = [0, 0, 16384, 0, 0, 0]"
  shows "\<exists>m w'. configure_mpu k m0 w = (Inr m, w') \<and> offsets m = replicate 6 0 \<and>
    map (reg16 (dev_regs regs (mpu_dev m) w')) [0x3B, 0x3D, 0x3F, 0x43, 0x45, 0x47] = [0, 0, 16384, 0, 0, 0]"
proof -
  obtain m1 w1 m2 w2 m3 w3 m4 w4 m5 w5 m6 w6 m7 w7 where
    1: "mpu_init_default k (m0, w) = (m1, w1)" and 2: "set_accl_set k G_2 (m1, w1) = (m2, w2)" and
    3: "set_gyro_set k Deg_250 (m2, w2) = (m3, w3)" and 4: "set_clk k Y_gyro (m3, w3) = (m4, w4)" and
    5: "set_fsync k Input_dis (m4, w4) = (m5, w5)" and 6: "set_dlpf_bandwidth k Hz_5 (m5, w5) = (m6, w6)" and
    7: "wake_up k (m6, w6) = (m7, w7)"
    by (metis surj_pair)
  let ?d = "mpu_dev m1" and ?v = "\<lambda>w. dev_regs regs (mpu_dev m1) w"
  have d: "0 \<le> fd ?d" "addr ?d = MPU6050_DEFAULT_ADDR" "regs w1 = regs w"
    using device_new_ok [OF assms(1), of MPU6050_DEFAULT_ADDR w] 1
    by (auto simp: mpu_init_default_def mpu_init_def split: prod.splits)
  note acc = set_accl_set_effect [OF assms(1) d(1) 2]
  have d2: "mpu_dev m2 = ?d" "0 \<le> fd (mpu_dev m2)" using acc d by simp_all
  note gyr = set_gyro_set_effect [OF assms(1) d2(2) 3]
  have d3: "mpu_dev m3 = ?d" "0 \<le> fd (mpu_dev m3)" using gyr d2 by simp_all
  note clk = mpu_update_step [OF assms(1) d3(2) 4 [unfolded set_clk_def]]
  note fsy = mpu_update_step [OF assms(1) d3(2) 5 [unfolded set_fsync_def clk(1)]]
  note dlp = mpu_update_step [OF assms(1) d3(2) 6 [unfolded set_dlpf_bandwidth_def fsy(1)]]
  note wak = mpu_update_step [OF assms(1) d3(2) 7 [unfolded wake_up_def dlp(1)]]
  note views = acc(2) gyr(2) [unfolded d2] clk(2) [unfolded d3] fsy(2) [unfolded d3] dlp(2) [unfolded d3] wak(2) [unfolded d3]
  have out: "?v w7 r = ?v w1 r" if "r \<notin> {REG_ACCL_CFG, REG_GYRO_CFG, REG_PWR_MNG_1, REG_CFG}" for r
    using that unfolding views by simp
  have v1: "?v w1 = regs w 0x68" by (simp add: dev_regs_def d MPU6050_DEFAULT_ADDR_def)
  have "reg16 (?v w7) r = reg16 (regs w 0x68) r" if "r \<in> set [0x3B, 0x3D, 0x3F, 0x43, 0x45, 0x47]" for r
    using that unfolding reg16_def v1 [symmetric] by (auto simp: out mpu_regs)
  then have v7: "map (reg16 (?v w7)) [0x3B, 0x3D, 0x3F, 0x43, 0x45, 0x47] = [0, 0, 16384, 0, 0, 0]"
    unfolding assms(2) [symmetric] by (intro map_cong [OF refl])
  have m7: "m7 = m3" using wak(1) by simp
  have "accl_scale m7 = 16384" using acc gyr m7 by simp
  then have "at_rest m7 (dev_regs regs (mpu_dev m7) w7)" using v7 m7 d3 by (simp add: at_rest_def)
  then obtain w' where c: "calibrate k 7 (m7, w7) = Inr (m7\<lparr>offsets := replicate 6 0\<rparr>, w')" "regs w' = regs w7"
    using calibrate_at_rest [OF assms(1), of m7 w7 7] d3 m7 by auto
  have "configure_mpu k m0 w = (Inr (m7\<lparr>offsets := replicate 6 0\<rparr>), w')"
    unfolding configure_mpu_def by (simp add: io_bind_def io_dev_def 1 2 3 4 5 6 7 io_calibrate_def c)
  moreover have "dev_regs regs (mpu_dev m7) w' = ?v w7" using m7 d3 c(2) by (simp add: dev_regs_def)
  ultimately show ?thesis using v7 by (intro exI [of _ "m7\<lparr>offsets := replicate 6 0\<rparr>"] exI [of _ w']) simp
qed

lemma checked_interval_ok: "1 \<le> ups \<Longrightarrow> checked_interval ups = Inr \<lfloor>1000 / ups\<rfloor>"
proof -
  assume a: "1 \<le> ups"
  then have "0 \<le> 1000 / ups" "1000 / ups \<le> 1000" by (simp_all add: divide_le_eq)
  then have "0 \<le> \<lfloor>1000 / ups\<rfloor>" "\<lfloor>1000 / ups\<rfloor> \<le> 1000" by linarith+
  moreover have "int_ok x" if "0 \<le> x" "x \<le> 1000" for x using that by (simp add: int_ok_def)
  ultimately have "int_ok \<lfloor>1000 / ups\<rfloor>" by blast
  then show ?thesis using a by (simp add: checked_interval_def int_of_double_def c_trunc_def)
qed

section \<open>Properties\<close>

text \<open>
  C22: After every step that does not meet the vertical the unit's two descriptions of the attitude
  agree: the quaternion has length one, it is that of the published angles and gives them back,
  the pitch is within a right angle, and roll and pitch are 95 parts of the turned attitude and 5
  parts of the accelerometer's.
\<close>

theorem attitude_step_consistent:
  assumes "\<bar>sin_pitch (integrate dt f q)\<bar> < 1" "attitude_step dt a f q = (q', e')"
  shows "q' = fromEulerZYX e' \<and> toEuler q' = e' \<and> qlength q' = 1 \<and> - (pi / 2) < vy e' \<and> vy e' < pi / 2 \<and>
    (let e = toEuler (integrate dt f q)
     in vx e' = 0.95 * vx e + 0.05 * atan2 (a ! 1) (a ! 2) \<and>
        vy e' = 0.95 * vy e + 0.05 * atan2 (a ! 0) (sqrt ((a ! 1)\<^sup>2 + (a ! 2)\<^sup>2)) \<and> vz e' = vz e)"
proof -
  let ?e = "fuse a (toEuler (integrate dt f q))"
  have ok: "euler_ok ?e" by (rule fuse_ok [OF toEuler_ok [OF assms(1)]])
  have q': "q' = fromEulerZYX ?e" and e': "e' = ?e"
    using assms(2) angles_back [OF ok] by (auto simp: attitude_step_def Let_def)
  show ?thesis
    unfolding q' e' using ok angles_back [OF ok]
    by (simp add: euler_ok_def qlength_norm2 qnorm2_fromEuler Let_def fuse_sel sensor_roll_pitch_tau_def
        tilt_roll_def tilt_pitch_def power2_eq_square)
qed

theorem attitude_step_consistent_witness:
  "\<exists>q' e'. attitude_step 0.02 [0, 1, 1, 0, 0, 0] (replicate 6 0) (fromEulerZYX vector0) = (q', e') \<and>
     vx e' = 0.05 * (pi / 4) \<and> toEuler q' = e'"
proof -
  have i: "integrate 0.02 (replicate 6 0) (fromEulerZYX vector0) = fromEulerZYX vector0"
    by (rule integrate_still) simp_all
  have z: "fromEulerZYX vector0 = quat0\<lparr>qw := 1\<rparr>"
    by (simp add: fromEulerZYX_def vector0_def quat0_def)
  have t: "toEuler (fromEulerZYX vector0) = vector0" by (rule angles_back) (simp add: euler_ok_def vector0_def)
  have sp: "\<bar>sin_pitch (integrate 0.02 (replicate 6 0) (fromEulerZYX vector0))\<bar> < 1"
    unfolding i unfolding z by (simp add: sin_pitch_def quat0_def)
  obtain q' e' where s: "attitude_step 0.02 [0, 1, 1, 0, 0, 0] (replicate 6 0) (fromEulerZYX vector0) = (q', e')"
    by fastforce
  from attitude_step_consistent [OF sp s] have "vx e' = 0.05 * (pi / 4)" "toEuler q' = e'"
    unfolding i t by (auto simp: Let_def atan2_def arctan_one vector0_def)
  with s show ?thesis by blast
qed

text \<open>
  A craft that does not turn converges to the attitude its accelerometer shows: after \<open>n\<close>
  steps the error in roll and in pitch is \<open>0.95 ^ n\<close> times the error at the start, and the
  yaw stays where it was, whatever the lengths of the steps.
\<close>

theorem attitude_settles:
  assumes "euler_ok e0" "f ! 3 = 0" "f ! 4 = 0" "f ! 5 = 0"
    and "fold (\<lambda>dt (q, e). attitude_step dt a f q) dts (fromEulerZYX e0, e0) = (q, e)"
  shows "q = fromEulerZYX e \<and> euler_ok e \<and>
    vx e - tilt_roll a = 0.95 ^ length dts * (vx e0 - tilt_roll a) \<and>
    vy e - tilt_pitch a = 0.95 ^ length dts * (vy e0 - tilt_pitch a) \<and> vz e = vz e0"
  using assms(1,5)
proof (induction dts arbitrary: e0)
  case (Cons dt dts)
  let ?e1 = "fuse a e0"
  have ok: "euler_ok ?e1" by (rule fuse_ok [OF Cons.prems(1)])
  have step: "attitude_step dt a f (fromEulerZYX e0) = (fromEulerZYX ?e1, ?e1)"
    by (simp add: attitude_step_def integrate_still [OF assms(2-4)] angles_back [OF Cons.prems(1)] angles_back [OF ok] Let_def)
  have "vx ?e1 - tilt_roll a = 0.95 * (vx e0 - tilt_roll a)" "vy ?e1 - tilt_pitch a = 0.95 * (vy e0 - tilt_pitch a)"
    by (simp_all add: fuse_sel sensor_roll_pitch_tau_def field_simps)
  then show ?case
    using Cons.IH [OF ok] Cons.prems(2) by (simp add: step fuse_sel(3))
qed simp

theorem attitude_settles_witness:
  "\<exists>q e. fold (\<lambda>dt (q, e). attitude_step dt [0, 1, 1, 0, 0, 0] (replicate 6 0) q) [0.02, 0.02, 0.03]
       (fromEulerZYX vector0, vector0) = (q, e) \<and> vx e = (1 - 0.95 ^ 3) * (pi / 4)"
proof -
  obtain q e where r: "fold (\<lambda>dt (q, e). attitude_step dt [0, 1, 1, 0, 0, 0] (replicate 6 0) q) [0.02, 0.02, 0.03]
       (fromEulerZYX vector0, vector0) = (q, e)" by fastforce
  have ok: "euler_ok vector0" by (simp add: euler_ok_def vector0_def)
  have "vx e - pi / 4 = 0.95 ^ 3 * (0 - pi / 4)"
    using attitude_settles [OF ok _ _ _ r] by (simp add: tilt_roll_def atan2_def arctan_one vector0_def eval_nat_numeral)
  with r show ?thesis by (auto simp: algebra_simps)
qed

text \<open>
  Started level and still on a working bus with a broker that is up, at a rate the filters can be designed for,
  the unit comes up: the interval is the whole number of milliseconds of the rate, the chip is
  awake, on the gyroscope clock, at 5 Hz bandwidth and at the ranges whose scales the driver
  divides by, all six channels have the same low-pass filter, every offset is zero, and the
  first reading is one g on the z axis and nothing else.
\<close>

theorem adiru_setup_ready:
  assumes "register_bus k regs" "broker_up k" "20 < ups"
    and "map (reg16 (regs w 0x68)) [0x3B, 0x3D, 0x3F, 0x43, 0x45, 0x47] = [0, 0, 16384, 0, 0, 0]"
  shows "\<exists>m f w'. adiru_setup k ups w =
      (Inr (adiru_globals\<lparr>ad_mpu := m, filters := replicate 6 f\<rparr>, \<lfloor>1000 / ups\<rfloor>), w') \<and>
    low_pass ups 10 = Some f \<and> settles f \<and> mpu_ready (dev_regs regs (mpu_dev m) w') m \<and>
    offsets m = replicate 6 0 \<and> fst (sense k m w') = [0, 0, 1, 0, 0, 0]"
proof -
  obtain f where f: "low_pass ups 10 = Some f" "settles f"
    using low_pass_good [of 10 ups] assms(3) by auto
  let ?w1 = "call k (Puts (''Begin mpu6050 configuration'' @ [CHR 0x0A])) w"
  have r1: "regs ?w1 = regs w" using register_bus_call [OF assms(1)] by simp
  obtain m w2 where c: "configure_mpu k mpu_static ?w1 = (Inr m, w2)" "offsets m = replicate 6 0"
    "map (reg16 (dev_regs regs (mpu_dev m) w2)) [0x3B, 0x3D, 0x3F, 0x43, 0x45, 0x47] = [0, 0, 16384, 0, 0, 0]"
    using configure_mpu_rest [OF assms(1), of ?w1 mpu_static, unfolded r1, OF assms(4)] by (elim exE conjE that)
  note ready = configure_mpu_ready [OF assms(1) c(1)]
  obtain w' where s: "adiru_setup k ups w =
      (Inr (adiru_globals\<lparr>ad_mpu := m, filters := replicate 6 f\<rparr>, \<lfloor>1000 / ups\<rfloor>), w')" "regs w' = regs w2"
    using assms(3) register_bus_call [OF assms(1)]
    by (simp add: adiru_setup_def checked_interval_ok io_simps(3,4) io_bind_Inr [where m = "configure_mpu k mpu_static", OF c(1) [simplified]]
        broker_calls [OF assms(2)] six_low_pass_def f io_simps(1,6,7,8) io_return_def is_transfer_def)
  have v: "dev_regs regs (mpu_dev m) w' = dev_regs regs (mpu_dev m) w2" using s(2) by (simp add: dev_regs_def)
  have six: "replicate 6 (0::int) = [0, 0, 0, 0, 0, 0]" by (simp add: numeral_eq_Suc)
  have "fst (mpu_read k m w') = [0, 0, 1, 0, 0, 0]"
    using mpu_read_value [OF assms(1), of m w'] ready c(2,3) v by (simp add: mpu_ready_def replicate_3 six)
  then have "fst (sense k m w') = [0, 0, 1, 0, 0, 0]"
    by (auto simp: sense_def split: prod.splits)
  then show ?thesis
    using s(1) f ready c(2) unfolding v [symmetric] by (intro exI [of _ m] exI [of _ f] exI [of _ w']) simp
qed

theorem adiru_setup_ready_witness:
  "\<exists>m f w'. adiru_setup sim_up 50 (sim0\<lparr>sim_regs := (\<lambda>_. (\<lambda>_. 0)(0x3F := 0x40))\<rparr>) =
      (Inr (adiru_globals\<lparr>ad_mpu := m, filters := replicate 6 f\<rparr>, 20), w')"
  using adiru_setup_ready [OF sim_up_bus sim_broker, of 50 "sim0\<lparr>sim_regs := (\<lambda>_. (\<lambda>_. 0)(0x3F := 0x40))\<rparr>"]
  by (auto simp: reg16_def)

end
