(* ===== verification/Bmp390.thy ===== *)
theory Bmp390
  imports I2c Sim
begin

text \<open>
  \<^verbatim>\<open>src/backend/bmp390.cpp\<close> and its headers: the barometer. The state is the device with the
  calibration parameters and the reference pressure of the file's static variables. A reading
  past the end of the FIFO buffer is a fault; the calibration routine reads one byte past its
  twenty-byte array, which the model takes from the memory that follows (an unspecified byte).
  A result that is not a finite number (division by no readings, a power of a negative number)
  is \<open>None\<close>.
\<close>

section \<open>Registers and settings\<close>

definition BMP390_ADDR :: int where "BMP390_ADDR = 0x77"
definition BMP390_SOFT_RESET :: u8 where "BMP390_SOFT_RESET = 0xB6"
definition BMP390_FIFO_FLUSH :: u8 where "BMP390_FIFO_FLUSH = 0xB0"
definition BMP390_REG_PWR_CTRL :: u8 where "BMP390_REG_PWR_CTRL = 0x1B"
definition BMP390_REG_CONFIG :: u8 where "BMP390_REG_CONFIG = 0x1F"
definition BMP390_REG_PRESS_7_0 :: u8 where "BMP390_REG_PRESS_7_0 = 0x04"
definition BMP390_REG_TEMP_7_0 :: u8 where "BMP390_REG_TEMP_7_0 = 0x07"
definition BMP390_REG_CMD :: u8 where "BMP390_REG_CMD = 0x7E"
definition BMP390_REG_OSR :: u8 where "BMP390_REG_OSR = 0x1C"
definition BMP390_REG_ODR :: u8 where "BMP390_REG_ODR = 0x1D"
definition BMP390_FIFO_CONFIG_1 :: u8 where "BMP390_FIFO_CONFIG_1 = 0x17"
definition BMP390_FIFO_LENGTH_0 :: u8 where "BMP390_FIFO_LENGTH_0 = 0x12"

text \<open>The trimming memory, by the names of the header.\<close>

datatype nvm = T1_L | T1_H | T2_L | T2_H | T3 | P1_L | P1_H | P2_L | P2_H | P3 | P4 | P5_L | P5_H
  | P6_L | P6_H | P7 | P8 | P9_L | P9_H | P10 | P11

primrec NVM_PAR :: "nvm \<Rightarrow> u8" where
  "NVM_PAR P11 = 0x45"
| "NVM_PAR P10 = 0x44"
| "NVM_PAR P9_H = 0x43"
| "NVM_PAR P9_L = 0x42"
| "NVM_PAR P8 = 0x41"
| "NVM_PAR P7 = 0x40"
| "NVM_PAR P6_H = 0x3F"
| "NVM_PAR P6_L = 0x3E"
| "NVM_PAR P5_H = 0x3D"
| "NVM_PAR P5_L = 0x3C"
| "NVM_PAR P4 = 0x3B"
| "NVM_PAR P3 = 0x3A"
| "NVM_PAR P2_H = 0x39"
| "NVM_PAR P2_L = 0x38"
| "NVM_PAR P1_H = 0x37"
| "NVM_PAR P1_L = 0x36"
| "NVM_PAR T3 = 0x35"
| "NVM_PAR T2_H = 0x34"
| "NVM_PAR T2_L = 0x33"
| "NVM_PAR T1_H = 0x32"
| "NVM_PAR T1_L = 0x31"

datatype pwr = SLEEP | NORMAL | FORCED

primrec pwr_code :: "pwr \<Rightarrow> u32" where
  "pwr_code SLEEP = 0b00" | "pwr_code NORMAL = 0b11" | "pwr_code FORCED = 0b10"

datatype oversampling = ULTRA_LOW_POWER | LOW_POWER | STANDARD | HIGH | ULTRA_HIGH | HIGHEST

primrec oversampling_code :: "oversampling \<Rightarrow> u32" where
  "oversampling_code ULTRA_LOW_POWER = 0b000"
| "oversampling_code LOW_POWER = 0b001"
| "oversampling_code STANDARD = 0b010"
| "oversampling_code HIGH = 0b011"
| "oversampling_code ULTRA_HIGH = 0b100"
| "oversampling_code HIGHEST = 0b101"

datatype iir_filter = COEFF_0 | COEFF_1 | COEFF_3 | COEFF_7 | COEFF_15 | COEFF_31 | COEFF_63 | COEFF_127

primrec iir_code :: "iir_filter \<Rightarrow> u32" where
  "iir_code COEFF_0 = 0b000"
| "iir_code COEFF_1 = 0b001"
| "iir_code COEFF_3 = 0b010"
| "iir_code COEFF_7 = 0b011"
| "iir_code COEFF_15 = 0b100"
| "iir_code COEFF_31 = 0b101"
| "iir_code COEFF_63 = 0b110"
| "iir_code COEFF_127 = 0b111"

datatype output_data_rate = Odr_200 | Odr_100 | Odr_50 | Odr_25 | Odr_25_2 | Odr_25_4 | Odr_25_8
  | Odr_25_16 | Odr_25_32 | Odr_25_64 | Odr_25_128 | Odr_25_256 | Odr_25_512 | Odr_25_1024
  | Odr_25_2048 | Odr_25_4096 | Odr_25_8192 | Odr_25_16384

primrec rate_code :: "output_data_rate \<Rightarrow> u8" where
  "rate_code Odr_200 = 0x00"
| "rate_code Odr_100 = 0x01"
| "rate_code Odr_50 = 0x02"
| "rate_code Odr_25 = 0x03"
| "rate_code Odr_25_2 = 0x04"
| "rate_code Odr_25_4 = 0x05"
| "rate_code Odr_25_8 = 0x06"
| "rate_code Odr_25_16 = 0x07"
| "rate_code Odr_25_32 = 0x08"
| "rate_code Odr_25_64 = 0x09"
| "rate_code Odr_25_128 = 0x0A"
| "rate_code Odr_25_256 = 0x0B"
| "rate_code Odr_25_512 = 0x0C"
| "rate_code Odr_25_1024 = 0x0D"
| "rate_code Odr_25_2048 = 0x0E"
| "rate_code Odr_25_4096 = 0x0F"
| "rate_code Odr_25_8192 = 0x10"
| "rate_code Odr_25_16384 = 0x11"

section \<open>State\<close>

record bmp =
  bmp_dev :: device
  par_t1 :: real
  par_t2 :: real
  par_t3 :: real
  par_p1 :: real
  par_p2 :: real
  par_p3 :: real
  par_p4 :: real
  par_p5 :: real
  par_p6 :: real
  par_p7 :: real
  par_p8 :: real
  par_p9 :: real
  par_p10 :: real
  par_p11 :: real
  bmp_p0 :: real

definition bmp_static :: bmp where
  "bmp_static = \<lparr>bmp_dev = device_static, par_t1 = 0, par_t2 = 0, par_t3 = 0, par_p1 = 0,
     par_p2 = 0, par_p3 = 0, par_p4 = 0, par_p5 = 0, par_p6 = 0, par_p7 = 0, par_p8 = 0,
     par_p9 = 0, par_p10 = 0, par_p11 = 0, bmp_p0 = 101325\<rparr>"

section \<open>Compensation\<close>

definition compensate_temp :: "bmp \<Rightarrow> int \<Rightarrow> real" where
  "compensate_temp b uncomp_temp =
     (let partial_data1 = real_of_int uncomp_temp - par_t1 b;
          partial_data2 = partial_data1 * par_t2 b
      in partial_data2 + (partial_data1 * partial_data1) * par_t3 b)"

primrec pow_loop :: "real \<Rightarrow> nat \<Rightarrow> real \<Rightarrow> real" where
  "pow_loop base 0 pow_output = pow_output"
| "pow_loop base (Suc n) pow_output = pow_loop base n (base * pow_output)"

definition pow_bmp3 :: "real \<Rightarrow> u8 \<Rightarrow> real" where
  "pow_bmp3 base n = pow_loop base (unat n) 1"

definition compensate_pressure :: "bmp \<Rightarrow> int \<Rightarrow> real \<Rightarrow> real" where
  "compensate_pressure b uncomp_pressure temp =
     (let t_lin = temp;
          partial_data1 = par_p6 b * t_lin;
          partial_data2 = par_p7 b * pow_bmp3 t_lin 2;
          partial_data3 = par_p8 b * pow_bmp3 t_lin 3;
          partial_out1 = par_p5 b + partial_data1 + partial_data2 + partial_data3;
          partial_data1 = par_p2 b * t_lin;
          partial_data2 = par_p3 b * pow_bmp3 t_lin 2;
          partial_data3 = par_p4 b * pow_bmp3 t_lin 3;
          partial_out2 = real_of_int uncomp_pressure *
            (par_p1 b + partial_data1 + partial_data2 + partial_data3);
          partial_data1 = pow_bmp3 (real_of_int uncomp_pressure) 2;
          partial_data2 = par_p9 b + par_p10 b * t_lin;
          partial_data3 = partial_data1 * partial_data2;
          partial_data4 = partial_data3 + pow_bmp3 (real_of_int uncomp_pressure) 3 * par_p11 b;
          comp_press = partial_out1 + partial_out2 + partial_data4
      in comp_press - 1024)"

definition bmp_combine16 :: "int \<Rightarrow> int \<Rightarrow> int" where
  "bmp_combine16 byte1 byte2 = short_of_int ((byte1 mod 65536) * 256 OR byte2)"

definition bmp_combine24 :: "u8 \<Rightarrow> u8 \<Rightarrow> u8 \<Rightarrow> u32" where
  "bmp_combine24 h l xl = push_bit 16 (ucast h) OR push_bit 8 (ucast l) OR ucast xl"

definition height :: "bmp \<Rightarrow> real \<Rightarrow> real \<Rightarrow> real option" where
  "height b temp_c pressure_k =
     (let temp_k = temp_c + 273.15
      in if pressure_k = 0 \<or> bmp_p0 b / pressure_k < 0 then None
         else Some ((-1 + (bmp_p0 b / pressure_k) powr (1 / 5.255)) * temp_k / 0.0065))"

section \<open>Calibration parameters\<close>

definition concat_u16 :: "u8 \<Rightarrow> u8 \<Rightarrow> int" where
  "concat_u16 msb lsb = uint (push_bit 8 (ucast msb) OR ucast lsb :: u16)"

definition concat_s16 :: "u8 \<Rightarrow> u8 \<Rightarrow> int" where
  "concat_s16 msb lsb = sint (push_bit 8 (ucast msb) OR ucast lsb :: u16)"

text \<open>The parameters from the twenty bytes read and the byte after them.\<close>

definition set_calib :: "bytes \<Rightarrow> u8 \<Rightarrow> bmp \<Rightarrow> bmp" where
  "set_calib d past b = b
     \<lparr>par_t1 := real_of_int (concat_u16 (d ! 1) (d ! 0)) / 0.00390625,
      par_t2 := real_of_int (concat_u16 (d ! 3) (d ! 2)) / 1073741824,
      par_t3 := real_of_int (sint (d ! 4)) / 281474976710656,
      par_p1 := real_of_int (concat_s16 (d ! 6) (d ! 5) - 16384) / 1048576,
      par_p2 := real_of_int (concat_s16 (d ! 8) (d ! 7) - 16384) / 536870912,
      par_p3 := real_of_int (sint (d ! 9)) / 4294967296,
      par_p4 := real_of_int (sint (d ! 10)) / 137438953472,
      par_p5 := real_of_int (concat_u16 (d ! 12) (d ! 11)) / 0.125,
      par_p6 := real_of_int (concat_u16 (d ! 14) (d ! 13)) / 64,
      par_p7 := real_of_int (sint (d ! 15)) / 256,
      par_p8 := real_of_int (sint (d ! 16)) / 32768,
      par_p9 := real_of_int (concat_s16 (d ! 18) (d ! 17)) / 281474976710656,
      par_p10 := real_of_int (sint (d ! 19)) / 281474976710656,
      par_p11 := real_of_int (sint past) / 36893488147419103232\<rparr>"

definition acquire_calib_vars :: "'w kernel \<Rightarrow> bmp \<times> 'w \<Rightarrow> bmp \<times> 'w" where
  "acquire_calib_vars k = (\<lambda>(b, w).
     let (reg_data, w) = read_burst k (bmp_dev b) (NVM_PAR T1_L) (uninit k 20 w) 20 w
     in (set_calib reg_data (hd (uninit k 1 w)) b, w))"

section \<open>Configuration\<close>

definition bmp_init :: "'w kernel \<Rightarrow> bmp \<times> 'w \<Rightarrow> bmp \<times> 'w" where
  "bmp_init k = (\<lambda>(b, w).
     let (d, w) = device_new k BMP390_ADDR w in acquire_calib_vars k (b\<lparr>bmp_dev := d\<rparr>, w))"

definition bmp_stop :: "'w kernel \<Rightarrow> bmp \<Rightarrow> 'w \<Rightarrow> 'w" where
  "bmp_stop k b w = device_close k (bmp_dev b) w"

definition bmp_query_register :: "'w kernel \<Rightarrow> bmp \<Rightarrow> int \<Rightarrow> 'w \<Rightarrow> int \<times> 'w" where
  "bmp_query_register k b reg w =
     (let (v, w) = read_byte k (bmp_dev b) (word_of_int reg) w in (uint v, w))"

definition bmp_write :: "'w kernel \<Rightarrow> bmp \<Rightarrow> u8 \<Rightarrow> u8 \<Rightarrow> 'w \<Rightarrow> 'w" where
  "bmp_write k b reg v w = write_byte k (bmp_dev b) reg v w"

definition bmp_update :: "'w kernel \<Rightarrow> bmp \<Rightarrow> u8 \<Rightarrow> (u32 \<Rightarrow> u32) \<Rightarrow> 'w \<Rightarrow> 'w" where
  "bmp_update k b reg f w =
     (let (v, w) = read_byte k (bmp_dev b) reg w in bmp_write k b reg (narrow (f (promote v))) w)"

definition bool_int :: "bool \<Rightarrow> u32" where
  "bool_int x = (if x then 1 else 0)"

definition soft_reset :: "'w kernel \<Rightarrow> bmp \<Rightarrow> 'w \<Rightarrow> 'w" where
  "soft_reset k b = bmp_write k b BMP390_REG_CMD BMP390_SOFT_RESET"

definition set_oversample :: "'w kernel \<Rightarrow> bmp \<Rightarrow> oversampling \<Rightarrow> oversampling \<Rightarrow> 'w \<Rightarrow> 'w" where
  "set_oversample k b p t = bmp_write k b BMP390_REG_OSR
     (narrow (oversampling_code p OR push_bit 3 (oversampling_code t)))"

definition set_pressure_oversample :: "'w kernel \<Rightarrow> bmp \<Rightarrow> oversampling \<Rightarrow> 'w \<Rightarrow> 'w" where
  "set_pressure_oversample k b p = bmp_update k b BMP390_REG_OSR
     (\<lambda>v. (v AND NOT 0b00000111) OR oversampling_code p)"

definition set_temperature_oversample :: "'w kernel \<Rightarrow> bmp \<Rightarrow> oversampling \<Rightarrow> 'w \<Rightarrow> 'w" where
  "set_temperature_oversample k b t = bmp_update k b BMP390_REG_OSR
     (\<lambda>v. (v AND NOT 0b00111000) OR push_bit 3 (oversampling_code t))"

definition set_output_data_rate :: "'w kernel \<Rightarrow> bmp \<Rightarrow> output_data_rate \<Rightarrow> 'w \<Rightarrow> 'w" where
  "set_output_data_rate k b rate = bmp_write k b BMP390_REG_ODR (rate_code rate)"

definition set_pwr_mode :: "'w kernel \<Rightarrow> bmp \<Rightarrow> pwr \<Rightarrow> 'w \<Rightarrow> 'w" where
  "set_pwr_mode k b mode = bmp_update k b BMP390_REG_PWR_CTRL
     (\<lambda>v. (v AND NOT 0b00110000) OR push_bit 4 (pwr_code mode))"

definition set_enable_pressure :: "'w kernel \<Rightarrow> bmp \<Rightarrow> bool \<Rightarrow> 'w \<Rightarrow> 'w" where
  "set_enable_pressure k b en = bmp_update k b BMP390_REG_PWR_CTRL
     (\<lambda>v. (v AND NOT 0b00000001) OR bool_int en)"

definition set_enable_temperature :: "'w kernel \<Rightarrow> bmp \<Rightarrow> bool \<Rightarrow> 'w \<Rightarrow> 'w" where
  "set_enable_temperature k b en = bmp_update k b BMP390_REG_PWR_CTRL
     (\<lambda>v. (v AND NOT 0b00000010) OR push_bit 1 (bool_int en))"

definition set_enable :: "'w kernel \<Rightarrow> bmp \<Rightarrow> bool \<Rightarrow> bool \<Rightarrow> 'w \<Rightarrow> 'w" where
  "set_enable k b p t = bmp_update k b BMP390_REG_PWR_CTRL
     (\<lambda>v. (v AND NOT 0b00000011) OR push_bit 1 (bool_int t) OR bool_int p)"

definition set_iir_filter :: "'w kernel \<Rightarrow> bmp \<Rightarrow> iir_filter \<Rightarrow> 'w \<Rightarrow> 'w" where
  "set_iir_filter k b c = bmp_write k b BMP390_REG_CONFIG (narrow (push_bit 1 (iir_code c)))"

definition set_pwr_ctrl :: "'w kernel \<Rightarrow> bmp \<Rightarrow> int \<Rightarrow> 'w \<Rightarrow> 'w" where
  "set_pwr_ctrl k b v = bmp_write k b BMP390_REG_PWR_CTRL (word_of_int v)"

definition set_enable_fifo :: "'w kernel \<Rightarrow> bmp \<Rightarrow> bool \<Rightarrow> 'w \<Rightarrow> 'w" where
  "set_enable_fifo k b en = bmp_update k b BMP390_FIFO_CONFIG_1
     (\<lambda>v. (v AND NOT 0b00000001) OR bool_int en)"

definition set_enable_fifo2 :: "'w kernel \<Rightarrow> bmp \<Rightarrow> bool \<Rightarrow> bool \<Rightarrow> 'w \<Rightarrow> 'w" where
  "set_enable_fifo2 k b p t = bmp_update k b BMP390_FIFO_CONFIG_1
     (\<lambda>v. (v AND NOT 0b00011001) OR bool_int (p \<or> t) OR push_bit 3 (bool_int p) OR
        push_bit 4 (bool_int t))"

definition set_enable_fifo_time :: "'w kernel \<Rightarrow> bmp \<Rightarrow> bool \<Rightarrow> 'w \<Rightarrow> 'w" where
  "set_enable_fifo_time k b en = bmp_update k b BMP390_FIFO_CONFIG_1
     (\<lambda>v. (v AND NOT 0b00000101) OR bool_int en OR push_bit 2 (bool_int en))"

definition set_fifo_stop_on_full :: "'w kernel \<Rightarrow> bmp \<Rightarrow> bool \<Rightarrow> 'w \<Rightarrow> 'w" where
  "set_fifo_stop_on_full k b en = bmp_update k b BMP390_FIFO_CONFIG_1
     (\<lambda>v. (v AND NOT 0b00000010) OR push_bit 1 (bool_int en))"

definition flush_fifo :: "'w kernel \<Rightarrow> bmp \<Rightarrow> 'w \<Rightarrow> 'w" where
  "flush_fifo k b = bmp_write k b BMP390_REG_CMD BMP390_FIFO_FLUSH"

definition set_pressure_benchmark :: "real \<Rightarrow> bmp \<Rightarrow> bmp" where
  "set_pressure_benchmark p0 b = b\<lparr>bmp_p0 := p0\<rparr>"

section \<open>Readings\<close>

definition bmp_get_raw :: "'w kernel \<Rightarrow> bmp \<Rightarrow> u8 \<Rightarrow> 'w \<Rightarrow> int \<times> 'w" where
  "bmp_get_raw k b reg w =
     (let (data, w) = read_burst k (bmp_dev b) reg (uninit k 3 w) 3 w
      in (uint (bmp_combine24 (data ! 2) (data ! 1) (data ! 0)), w))"

definition get_raw_press :: "'w kernel \<Rightarrow> bmp \<Rightarrow> 'w \<Rightarrow> int \<times> 'w" where
  "get_raw_press k b = bmp_get_raw k b BMP390_REG_PRESS_7_0"

definition get_raw_temp :: "'w kernel \<Rightarrow> bmp \<Rightarrow> 'w \<Rightarrow> int \<times> 'w" where
  "get_raw_temp k b = bmp_get_raw k b BMP390_REG_TEMP_7_0"

definition get_temp :: "'w kernel \<Rightarrow> bmp \<Rightarrow> 'w \<Rightarrow> real \<times> 'w" where
  "get_temp k b w = (let (raw, w) = get_raw_temp k b w in (compensate_temp b raw, w))"

text \<open>
  \<^verbatim>\<open>compensate_pressure (get_raw_press (), compensate_temp ())\<close>: C++ leaves open which argument
  is read first; the flag is the compiler's choice.
\<close>

definition get_press0 :: "'w kernel \<Rightarrow> bool \<Rightarrow> bmp \<Rightarrow> 'w \<Rightarrow> real \<times> 'w" where
  "get_press0 k press_first b w =
     (if press_first then
        (let (raw, w) = get_raw_press k b w; (temp, w) = get_temp k b w
         in (compensate_pressure b raw temp, w))
      else
        (let (temp, w) = get_temp k b w; (raw, w) = get_raw_press k b w
         in (compensate_pressure b raw temp, w)))"

definition get_press1 :: "'w kernel \<Rightarrow> bmp \<Rightarrow> real \<Rightarrow> 'w \<Rightarrow> real \<times> 'w" where
  "get_press1 k b temp w =
     (let (raw, w) = get_raw_press k b w in (compensate_pressure b raw temp, w))"

definition get_height0 :: "'w kernel \<Rightarrow> bmp \<Rightarrow> 'w \<Rightarrow> real option \<times> 'w" where
  "get_height0 k b w =
     (let (temp_c, w) = get_temp k b w; (pressure_P, w) = get_press1 k b temp_c w
      in (height b temp_c pressure_P, w))"

definition get_data :: "'w kernel \<Rightarrow> bmp \<Rightarrow> 'w \<Rightarrow> (real \<times> real \<times> real option) \<times> 'w" where
  "get_data k b w =
     (let (t, w) = get_temp k b w; (p, w) = get_press1 k b t w in ((t, p, height b t p), w))"

section \<open>The FIFO\<close>

definition buf_get :: "bytes \<Rightarrow> nat \<Rightarrow> fault + u8" where
  "buf_get buf i = (if i < length buf then Inr (buf ! i) else Inl Undefined_behaviour)"

definition buf_get24 :: "bytes \<Rightarrow> nat \<Rightarrow> fault + int" where
  "buf_get24 buf i =
     (case (buf_get buf (i + 2), buf_get buf (i + 1), buf_get buf i) of
        (Inr h, Inr l, Inr xl) \<Rightarrow> Inr (uint (bmp_combine24 h l xl))
      | _ \<Rightarrow> Inl Undefined_behaviour)"

text \<open>
  The loop of both readers: the sums of the temperatures and of the pressures and the number of
  readings. \<open>stop\<close> is the \<^verbatim>\<open>break\<close> that \<^verbatim>\<open>FAST_FIFO\<close> compiles into the second reader.
\<close>

function fifo_loop :: "bool \<Rightarrow> bmp \<Rightarrow> bytes \<Rightarrow> nat \<Rightarrow> nat \<Rightarrow> real \<times> real \<times> nat \<Rightarrow> fault + real \<times> real \<times> nat" where
  "fifo_loop stop b buf len i s =
     (if len \<le> i then Inr s
      else case buf_get buf i of
        Inl e \<Rightarrow> Inl e
      | Inr hdr \<Rightarrow>
          if hdr AND 0b11000000 = 0b10000000 then
            if hdr AND 0b00111100 = 0b00010100 then
              (case buf_get24 buf (i + 1) of
                 Inl e \<Rightarrow> Inl e
               | Inr raw_temp \<Rightarrow>
                   (case buf_get24 buf (i + 4) of
                      Inl e \<Rightarrow> Inl e
                    | Inr raw_press \<Rightarrow>
                        (case s of (st, sp, n) \<Rightarrow>
                           let temp = compensate_temp b raw_temp;
                               s = (st + temp, sp + compensate_pressure b raw_press temp, n + 1)
                           in if stop then Inr s else fifo_loop stop b buf len (i + 7) s)))
            else if hdr AND 0b00111100 = 0b00100000 then
              (case buf_get24 buf (i + 1) of
                 Inl e \<Rightarrow> Inl e
               | Inr sensor_time \<Rightarrow> fifo_loop stop b buf len (i + 4) s)
            else fifo_loop stop b buf len (i + 1) s
          else fifo_loop stop b buf len (i + 2) s)"
  by pat_completeness auto
termination
  by (relation "measure (\<lambda>(stop, b, buf, len, i, s). len - i)") auto

declare fifo_loop.simps [simp del]

definition fifo_len :: "bytes \<Rightarrow> nat" where
  "fifo_len buf = unat (ucast (buf ! 0) OR push_bit 8 (ucast (buf ! 1)) :: u32) + 2"

text \<open>The averages: without a reading they are 0 divided by 0.\<close>

definition fifo_average :: "real \<times> real \<times> nat \<Rightarrow> (real \<times> real) option" where
  "fifo_average s = (case s of (st, sp, n) \<Rightarrow> if n = 0 then None else Some (st / real n, sp / real n))"

definition read_fifo :: "'w kernel \<Rightarrow> bmp \<Rightarrow> ('w, (real \<times> real \<times> real option) option) io" where
  "read_fifo k b w =
     (let (buf, w) = read_burst k (bmp_dev b) BMP390_FIFO_LENGTH_0 (uninit k 514 w) 514 w
      in io_bind (io_lift (fifo_loop False b buf (fifo_len buf) 2 (0, 0, 0)))
           (\<lambda>s. io_return (map_option (\<lambda>(t, p). (t, p, height b t p)) (fifo_average s))) w)"

definition read_fifo_wo_height :: "'w kernel \<Rightarrow> bmp \<Rightarrow> ('w, (real \<times> real \<times> real) option) io" where
  "read_fifo_wo_height k b w =
     (let (buf, w) = read_burst k (bmp_dev b) BMP390_FIFO_LENGTH_0 (uninit k 514 w) 514 w
      in io_bind (io_lift (fifo_loop True b buf (fifo_len buf) 2 (0, 0, 0)))
           (\<lambda>s. io_return (map_option (\<lambda>(t, p). (t, p, 0)) (fifo_average s))) w)"

section \<open>Three bytes\<close>

lemma uint_combine24: "uint (bmp_combine24 h l xl) = 65536 * uint h + 256 * uint l + uint xl"
proof -
  have "uint (bmp_combine24 h l xl) = concat_bit 8 (uint xl) (concat_bit 8 (uint l) (uint h))"
    unfolding bmp_combine24_def
    by (rule bit_eqI) (auto simp: bit_simps dest: bit_imp_le_length)
  then show ?thesis
    using uint_bounded [of xl] uint_ge_0 [of xl] uint_bounded [of l] uint_ge_0 [of l]
    by (simp add: concat_bit_eq push_bit_eq_mult take_bit_int_eq_self)
qed

definition le24 :: "int \<Rightarrow> bytes" where
  "le24 v = [word_of_int v, word_of_int (v div 256), word_of_int (v div 65536)]"

lemma le24_combine:
  assumes "0 \<le> v" "v < 2 ^ 24"
  shows "uint (bmp_combine24 (word_of_int (v div 65536)) (word_of_int (v div 256)) (word_of_int v)) = v"
proof -
  have lt: "v div 65536 < 256" using assms(2) by (simp add: div_less_bound)
  have ge: "0 \<le> v div 65536" using assms(1) by (simp add: pos_imp_zdiv_nonneg_iff)
  have q: "v div 65536 = v div 256 div 256" by (simp add: zdiv_zmult2_eq [symmetric])
  have m: "uint (word_of_int x :: u8) = x mod 256" for x by (simp add: uint_word_of_int)
  have "v div 65536 mod 256 = v div 65536" using lt ge by simp
  moreover have "256 * (v div 256) + v mod 256 = v" by simp
  moreover have "256 * (v div 256 div 256) + v div 256 mod 256 = v div 256" by simp
  ultimately show ?thesis
    unfolding uint_combine24 m q by linarith
qed

lemma fifo_len_value: "fifo_len (l0 # l1 # rest) = 256 * unat l1 + unat l0 + 2"
proof -
  let ?x = "ucast l0 OR push_bit 8 (ucast l1) :: u32"
  have "?x = bmp_combine24 0 l1 l0"
    by (simp add: bmp_combine24_def or.commute)
  then have "uint ?x = 65536 * uint (0 :: u8) + 256 * uint l1 + uint l0"
    by (simp only: uint_combine24)
  then have "uint ?x = 256 * uint l1 + uint l0" by simp
  then have "int (unat ?x) = int (256 * unat l1 + unat l0)"
    by (simp only: int_nat_eq uint_nat of_nat_add of_nat_mult of_nat_numeral)
  then show ?thesis by (simp only: fifo_len_def of_nat_eq_iff nth_Cons_0 nth_Cons_Suc One_nat_def)
qed

section \<open>FIFO frames\<close>

text \<open>
  The frames the parser tells apart. A frame with another parameter is one byte to it and a
  frame of another type is two.
\<close>

datatype frame = Sensor int int | Time int | Control u8 u8 | Empty u8

primrec encode_frame :: "frame \<Rightarrow> bytes" where
  "encode_frame (Sensor t p) = 0x94 # le24 t @ le24 p"
| "encode_frame (Time t) = 0xA0 # le24 t"
| "encode_frame (Control h x) = [h, x]"
| "encode_frame (Empty h) = [h]"

primrec frame_ok :: "frame \<Rightarrow> bool" where
  "frame_ok (Sensor t p) \<longleftrightarrow> 0 \<le> t \<and> t < 2 ^ 24 \<and> 0 \<le> p \<and> p < 2 ^ 24"
| "frame_ok (Time t) \<longleftrightarrow> 0 \<le> t \<and> t < 2 ^ 24"
| "frame_ok (Control h x) \<longleftrightarrow> h AND 0b11000000 \<noteq> 0b10000000"
| "frame_ok (Empty h) \<longleftrightarrow> h AND 0b11000000 = 0b10000000 \<and>
     h AND 0b00111100 \<noteq> 0b00010100 \<and> h AND 0b00111100 \<noteq> 0b00100000"

primrec readings :: "bmp \<Rightarrow> frame list \<Rightarrow> (real \<times> real) list" where
  "readings b [] = []"
| "readings b (f # fs) =
     (case f of
        Sensor t p \<Rightarrow> (compensate_temp b t, compensate_pressure b p (compensate_temp b t)) # readings b fs
      | _ \<Rightarrow> readings b fs)"

lemma length_le24 [simp]: "length (le24 v) = 3"
  by (simp add: le24_def)

lemma buf_get_at: "length pre = i \<Longrightarrow> buf_get (pre @ x # r) i = Inr x"
  by (auto simp: buf_get_def)

lemma buf_get24_at:
  assumes "length pre = i" "0 \<le> v" "v < 2 ^ 24"
  shows "buf_get24 (pre @ le24 v @ r) i = Inr v"
  using assms(1) le24_combine [OF assms(2,3)]
  by (auto simp: buf_get24_def buf_get_def le24_def nth_append)

text \<open>Parsing what has been encoded, from any position of the buffer.\<close>

lemma fifo_loop_frames:
  assumes "\<forall>f \<in> set fs. frame_ok f" "len = length pre + length (concat (map encode_frame fs))"
  shows "fifo_loop stop b (pre @ concat (map encode_frame fs) @ post) len (length pre) (st, sp, n) =
    Inr (let rs = (if stop then take 1 (readings b fs) else readings b fs)
         in (st + sum_list (map fst rs), sp + sum_list (map snd rs), n + length rs))"
  using assms
proof (induction fs arbitrary: pre st sp n)
  case Nil
  then show ?case by (simp add: fifo_loop.simps)
next
  case (Cons f fs)
  let ?tl = "concat (map encode_frame fs) @ post"
  have IH: "fifo_loop stop b (pre @ concat (map encode_frame (f # fs)) @ post) len
      (length (pre @ encode_frame f)) s =
    Inr (let rs = (if stop then take 1 (readings b fs) else readings b fs)
         in (fst s + sum_list (map fst rs), fst (snd s) + sum_list (map snd rs), snd (snd s) + length rs))" for s
    using Cons.IH [of "pre @ encode_frame f" "fst s" "fst (snd s)" "snd (snd s)"] Cons.prems by simp
  have lt: "\<not> len \<le> length pre" using Cons.prems(2) by (cases f) simp_all
  have buf: "pre @ concat (map encode_frame (f # fs)) @ post = pre @ encode_frame f @ ?tl" by simp
  show ?case
  proof (cases f)
    case (Sensor t p)
    have ok: "0 \<le> t" "t < 2 ^ 24" "0 \<le> p" "p < 2 ^ 24" using Cons.prems(1) Sensor by simp_all
    have 1: "buf_get24 (pre @ encode_frame f @ ?tl) (length pre + 1) = Inr t"
      using buf_get24_at [of "pre @ [0x94]" "length pre + 1" t "le24 p @ ?tl"] ok Sensor by simp
    have 2: "buf_get24 (pre @ encode_frame f @ ?tl) (length pre + 4) = Inr p"
      using buf_get24_at [of "pre @ 0x94 # le24 t" "length pre + 4" p ?tl] ok Sensor by simp
    have 0: "buf_get (pre @ encode_frame f @ ?tl) (length pre) = Inr 0x94"
      using Sensor by (simp add: buf_get_at)
    show ?thesis
    proof (cases stop)
      case True
      then show ?thesis
        using lt 0 1 2 Sensor unfolding buf by (subst fifo_loop.simps) (simp add: Let_def)
    next
      case False
      have 7: "length (pre @ encode_frame f) = length pre + 7" using Sensor by simp
      show ?thesis
        using IH [of "(st + compensate_temp b t, sp + compensate_pressure b p (compensate_temp b t), n + 1)",
            unfolded 7] lt 0 1 2 Sensor False unfolding buf
        by (subst fifo_loop.simps) (simp add: Let_def add.assoc)
    qed
  next
    case (Time t)
    have ok: "0 \<le> t" "t < 2 ^ 24" using Cons.prems(1) Time by simp_all
    have 1: "buf_get24 (pre @ encode_frame f @ ?tl) (length pre + 1) = Inr t"
      using buf_get24_at [of "pre @ [0xA0]" "length pre + 1" t ?tl] ok Time by simp
    have 0: "buf_get (pre @ encode_frame f @ ?tl) (length pre) = Inr 0xA0"
      using Time by (simp add: buf_get_at)
    show ?thesis
      using IH [of "(st, sp, n)"] lt 0 1 Time unfolding buf
      by (subst fifo_loop.simps) simp
  next
    case (Control h x)
    have 0: "buf_get (pre @ encode_frame f @ ?tl) (length pre) = Inr h"
      using Control by (simp add: buf_get_at)
    show ?thesis
      using IH [of "(st, sp, n)"] lt 0 Control Cons.prems(1) unfolding buf
      by (subst fifo_loop.simps) simp
  next
    case (Empty h)
    have 0: "buf_get (pre @ encode_frame f @ ?tl) (length pre) = Inr h"
      using Empty by (simp add: buf_get_at)
    show ?thesis
      using IH [of "(st, sp, n)"] lt 0 Empty Cons.prems(1) unfolding buf
      by (subst fifo_loop.simps) simp
  qed
qed

text \<open>
  How far the parser may look: a buffer with six spare bytes after the announced length is
  never overrun, and one that is two bytes too short always is.
\<close>

lemma buf_get24_ok: "i + 2 < length buf \<Longrightarrow> \<exists>v. buf_get24 buf i = Inr v"
  by (simp add: buf_get24_def buf_get_def)

lemma fifo_loop_safe:
  "len + 6 \<le> length buf \<Longrightarrow> \<exists>s'. fifo_loop stop b buf len i s = Inr s'"
proof (induction stop b buf len i s rule: fifo_loop.induct)
  case (1 stop b buf len i s)
  show ?case
  proof (cases "len \<le> i")
    case True
    then show ?thesis by (cases s) (simp add: fifo_loop.simps)
  next
    case False
    have g: "buf_get buf i = Inr (buf ! i)" using False 1(5) by (simp add: buf_get_def)
    obtain v1 where v1: "buf_get24 buf (i + 1) = Inr v1" using buf_get24_ok [of "i + 1" buf] False 1(5) by auto
    obtain v2 where v2: "buf_get24 buf (i + 4) = Inr v2" using buf_get24_ok [of "i + 4" buf] False 1(5) by auto
    obtain st sp n where s: "s = (st, sp, n)" by (cases s)
    show ?thesis
      using 1(1-4) [OF False g] 1(5) v1 v2 unfolding s
      by (subst fifo_loop.simps) (simp add: False g Let_def)
  qed
qed

lemma fifo_loop_overrun:
  "length buf + 2 \<le> len \<Longrightarrow> i < len \<Longrightarrow> fifo_loop False b buf len i s = Inl Undefined_behaviour"
proof (induction "False" b buf len i s rule: fifo_loop.induct)
  case (1 b buf len i s)
  show ?case
  proof (cases "i < length buf")
    case False
    then show ?thesis using 1(6) by (simp add: fifo_loop.simps buf_get_def)
  next
    case True
    have lt: "\<not> len \<le> i" using 1(6) by simp
    have g: "buf_get buf i = Inr (buf ! i)" using True by (simp add: buf_get_def)
    have t1: "buf_get24 buf (i + 1) = Inl Undefined_behaviour \<or> i + 4 < len"
      using 1(5) by (auto simp: buf_get24_def buf_get_def)
    have t2: "buf_get24 buf (i + 4) = Inl Undefined_behaviour \<or> i + 7 < len"
      using 1(5) by (auto simp: buf_get24_def buf_get_def)
    have e: "buf_get24 buf j = Inl e \<Longrightarrow> e = Undefined_behaviour" for j e
      by (auto simp: buf_get24_def buf_get_def split: if_splits)
    obtain st sp n where s: "s = (st, sp, n)" by (cases s)
    show ?thesis
      using 1(1-4) [OF lt g] 1(5,6) t1 t2 True unfolding s
      by (subst fifo_loop.simps) (auto simp: lt g Let_def dest: e split: sum.split)
  qed
qed

text \<open>The fast reader leaves the loop at its first sensor frame; without one it runs over as well.\<close>

lemma fifo_loop_fast_overrun:
  "length buf + 2 \<le> len \<Longrightarrow> i < len \<Longrightarrow> fifo_loop True b buf len i s = Inl Undefined_behaviour \<or>
    (\<exists>t p. fifo_loop True b buf len i s = Inr (t, p, Suc (snd (snd s))))"
proof (induction "True" b buf len i s rule: fifo_loop.induct)
  case (1 b buf len i s)
  show ?case
  proof (cases "i < length buf")
    case False
    then show ?thesis using 1(6) by (simp add: fifo_loop.simps buf_get_def)
  next
    case True
    have lt: "\<not> len \<le> i" using 1(6) by simp
    have g: "buf_get buf i = Inr (buf ! i)" using True by (simp add: buf_get_def)
    have t1: "buf_get24 buf (i + 1) = Inl Undefined_behaviour \<or> i + 4 < len"
      using 1(5) by (auto simp: buf_get24_def buf_get_def)
    have e: "buf_get24 buf j = Inl e \<Longrightarrow> e = Undefined_behaviour" for j e
      by (auto simp: buf_get24_def buf_get_def split: if_splits)
    obtain st sp n where s: "s = (st, sp, n)" by (cases s)
    show ?thesis
      using 1(1-4) [OF lt g] 1(5,6) t1 True unfolding s
      by (subst (1 2) fifo_loop.simps) (auto simp: lt g Let_def dest: e split: sum.split)
  qed
qed

section \<open>Configuration and calibration on a working bus\<close>

text \<open>The configuration calls, with the register each works on, the bits it owns and their value.\<close>

datatype bmp_op = Op_osr oversampling oversampling | Op_osr_p oversampling | Op_osr_t oversampling
  | Op_odr output_data_rate | Op_mode pwr | Op_en_p bool | Op_en_t bool | Op_en bool bool
  | Op_iir iir_filter | Op_fifo bool | Op_fifo2 bool bool | Op_fifo_time bool | Op_fifo_stop bool

fun bmp_exec :: "'w kernel \<Rightarrow> bmp \<Rightarrow> bmp_op \<Rightarrow> 'w \<Rightarrow> 'w" where
  "bmp_exec k b (Op_osr p t) = set_oversample k b p t"
| "bmp_exec k b (Op_osr_p p) = set_pressure_oversample k b p"
| "bmp_exec k b (Op_osr_t t) = set_temperature_oversample k b t"
| "bmp_exec k b (Op_odr r) = set_output_data_rate k b r"
| "bmp_exec k b (Op_mode m) = set_pwr_mode k b m"
| "bmp_exec k b (Op_en_p e) = set_enable_pressure k b e"
| "bmp_exec k b (Op_en_t e) = set_enable_temperature k b e"
| "bmp_exec k b (Op_en p t) = set_enable k b p t"
| "bmp_exec k b (Op_iir c) = set_iir_filter k b c"
| "bmp_exec k b (Op_fifo e) = set_enable_fifo k b e"
| "bmp_exec k b (Op_fifo2 p t) = set_enable_fifo2 k b p t"
| "bmp_exec k b (Op_fifo_time e) = set_enable_fifo_time k b e"
| "bmp_exec k b (Op_fifo_stop e) = set_fifo_stop_on_full k b e"

definition bit8 :: "bool \<Rightarrow> u8" where
  "bit8 x = (if x then 1 else 0)"

fun bmp_field :: "bmp_op \<Rightarrow> u8 \<times> u8 \<times> u8" where
  "bmp_field (Op_osr p t) = (0x1C, 0xFF, narrow (oversampling_code p) + 8 * narrow (oversampling_code t))"
| "bmp_field (Op_osr_p p) = (0x1C, 0x07, narrow (oversampling_code p))"
| "bmp_field (Op_osr_t t) = (0x1C, 0x38, 8 * narrow (oversampling_code t))"
| "bmp_field (Op_odr r) = (0x1D, 0xFF, rate_code r)"
| "bmp_field (Op_mode m) = (0x1B, 0x30, 16 * narrow (pwr_code m))"
| "bmp_field (Op_en_p e) = (0x1B, 0x01, bit8 e)"
| "bmp_field (Op_en_t e) = (0x1B, 0x02, 2 * bit8 e)"
| "bmp_field (Op_en p t) = (0x1B, 0x03, bit8 p + 2 * bit8 t)"
| "bmp_field (Op_iir c) = (0x1F, 0xFF, 2 * narrow (iir_code c))"
| "bmp_field (Op_fifo e) = (0x17, 0x01, bit8 e)"
| "bmp_field (Op_fifo2 p t) = (0x17, 0x19, bit8 (p \<or> t) + 8 * bit8 p + 16 * bit8 t)"
| "bmp_field (Op_fifo_time e) = (0x17, 0x05, bit8 e + 4 * bit8 e)"
| "bmp_field (Op_fifo_stop e) = (0x17, 0x02, 2 * bit8 e)"

lemma bmp_write_view:
  assumes "register_bus k regs" "0 \<le> fd (bmp_dev b)"
  shows "dev_regs regs (bmp_dev b) (bmp_write k b r v w) = (dev_regs regs (bmp_dev b) w)(r := v)"
  by (simp add: bmp_write_def dev_regs_def write_byte_regs [OF assms] fun_eq_iff)

lemma bmp_update_view:
  assumes "register_bus k regs" "0 \<le> fd (bmp_dev b)"
  shows "dev_regs regs (bmp_dev b) (bmp_update k b r f w) =
    (dev_regs regs (bmp_dev b) w)(r := narrow (f (promote (dev_regs regs (bmp_dev b) w r))))"
  using read_byte_val [OF assms]
  by (simp add: bmp_update_def case_prod_unfold Let_def bmp_write_view [OF assms]) (simp add: dev_regs_def)

lemma bmp_rmw_view:
  assumes "register_bus k regs" "0 \<le> fd (bmp_dev b)"
  shows "dev_regs regs (bmp_dev b) (bmp_update k b r (\<lambda>v. (v AND NOT m) OR x) w) =
    (dev_regs regs (bmp_dev b) w)(r := merge_bits (dev_regs regs (bmp_dev b) w r) (narrow m) (narrow x))"
  by (simp only: bmp_update_view [OF assms] narrow_rmw)

lemmas bmp_ops = set_oversample_def set_pressure_oversample_def set_temperature_oversample_def
  set_output_data_rate_def set_pwr_mode_def set_enable_pressure_def set_enable_temperature_def
  set_enable_def set_iir_filter_def set_enable_fifo_def set_enable_fifo2_def
  set_enable_fifo_time_def set_fifo_stop_on_full_def

lemmas bmp_regs = BMP390_REG_PWR_CTRL_def BMP390_REG_CONFIG_def BMP390_REG_OSR_def BMP390_REG_ODR_def
  BMP390_FIFO_CONFIG_1_def

lemma merge_full: "merge_bits old 0xFF v = v"
  unfolding merge_bits_def by (rule bit_word_eqI) (auto simp: bit_simps bit_numeral_rec less_Suc_eq numeral_eq_Suc)


lemma bmp_exec_view:
  assumes "register_bus k regs" "0 \<le> fd (bmp_dev b)" "bmp_field q = (r, msk, v)"
  shows "dev_regs regs (bmp_dev b) (bmp_exec k b q w) =
      (dev_regs regs (bmp_dev b) w)(r := merge_bits (dev_regs regs (bmp_dev b) w r) msk v)"
proof -
  note view = bmp_write_view [OF assms(1,2)] bmp_rmw_view [OF assms(1,2)]
  show ?thesis
    using assms(3)
  proof (cases q)
    case (Op_osr p t)
    then show ?thesis using assms(3)
      by (cases p; cases t) (auto simp: bmp_ops bmp_regs view merge_full narrow_def)
  next
    case (Op_odr x)
    then show ?thesis using assms(3) by (auto simp: bmp_ops bmp_regs view merge_full)
  next
    case (Op_iir c)
    then show ?thesis using assms(3)
      by (cases c) (auto simp: bmp_ops bmp_regs view merge_full narrow_def)
  next
    case (Op_osr_t t)
    with assms(3) show ?thesis
      by (simp only: bmp_exec.simps bmp_ops view) (cases t; auto simp: bmp_regs narrow_def)
  next
    case (Op_mode m)
    with assms(3) show ?thesis
      by (simp only: bmp_exec.simps bmp_ops view) (cases m; auto simp: bmp_regs narrow_def)
  qed (simp only: bmp_exec.simps bmp_ops view, auto simp: bmp_regs narrow_def bool_int_def bit8_def)+
qed

lemma bmp_field_inside:
  assumes "bmp_field q = (r, msk, v)"
  shows "v AND NOT msk = 0"
proof (cases q)
  case (Op_osr p t)
  then show ?thesis using assms by (cases p; cases t) (auto simp: narrow_def)
next
  case (Op_osr_p p)
  then show ?thesis using assms by (cases p) (auto simp: narrow_def)
next
  case (Op_osr_t t)
  then show ?thesis using assms by (cases t) (auto simp: narrow_def)
next
  case (Op_odr x)
  then show ?thesis using assms by (cases x) auto
next
  case (Op_mode m)
  then show ?thesis using assms by (cases m) (auto simp: narrow_def)
next
  case (Op_iir c)
  then show ?thesis using assms by (cases c) (auto simp: narrow_def)
qed (use assms in \<open>auto simp: bit8_def\<close>)

section \<open>Properties\<close>

text \<open>
  Every configuration call works on one register and one group of bits in it. After it, on
  a working bus, those bits hold the setting's code, the other bits of the register are what they
  were, and every other register of the chip keeps its value.
\<close>

theorem bmp_config_sets_field:
  assumes "register_bus k regs" "0 \<le> fd (bmp_dev b)" "bmp_field q = (r, msk, v)"
  shows "(let old = dev_regs regs (bmp_dev b) w; new = dev_regs regs (bmp_dev b) (bmp_exec k b q w)
     in new r AND msk = v \<and> new r AND NOT msk = old r AND NOT msk \<and> (\<forall>x. x \<noteq> r \<longrightarrow> new x = old x))"
  using bmp_field_inside [OF assms(3)] merge_bits_frame [of _ msk v]
  by (simp add: bmp_exec_view [OF assms] Let_def merge_bits_field)

theorem bmp_config_sets_field_witness:
  "dev_regs sim_regs \<lparr>fd = 3, addr = 0x77\<rparr>
     (bmp_exec sim_kernel (bmp_static\<lparr>bmp_dev := \<lparr>fd = 3, addr = 0x77\<rparr>\<rparr>) (Op_mode NORMAL) sim0) 0x1B AND 0x30 = 0x30"
  using bmp_config_sets_field [OF sim_bus, where b = "bmp_static\<lparr>bmp_dev := \<lparr>fd = 3, addr = 0x77\<rparr>\<rparr>" and q = "Op_mode NORMAL" and r = "0x1B" and msk = "0x30"
      and v = "0x30" and w = sim0]
  by (simp add: Let_def narrow_def)

text \<open>
  Reading the trimming memory of a chip on a working bus scales each parameter from the bytes
  that the header names for it, with the width and sign of the data sheet, and changes no
  register. The last parameter is the exception: it comes from whatever byte follows the array,
  whatever the chip holds for it.
\<close>

theorem calibration_from_nvm:
  assumes "register_bus k regs" "0 \<le> fd (bmp_dev b)" "acquire_calib_vars k (b, w) = (b', w')"
  shows "(let reg = (\<lambda>n. dev_regs regs (bmp_dev b) w (NVM_PAR n));
       u = (\<lambda>n. real_of_int (uint (reg n))); s = (\<lambda>n. real_of_int (sint (reg n)))
     in par_t1 b' = (256 * u T1_H + u T1_L) * 2 ^ 8 \<and>
        par_t2 b' = (256 * u T2_H + u T2_L) / 2 ^ 30 \<and>
        par_t3 b' = s T3 / 2 ^ 48 \<and>
        par_p1 b' = (256 * s P1_H + u P1_L - 2 ^ 14) / 2 ^ 20 \<and>
        par_p2 b' = (256 * s P2_H + u P2_L - 2 ^ 14) / 2 ^ 29 \<and>
        par_p3 b' = s P3 / 2 ^ 32 \<and>
        par_p4 b' = s P4 / 2 ^ 37 \<and>
        par_p5 b' = (256 * u P5_H + u P5_L) * 2 ^ 3 \<and>
        par_p6 b' = (256 * u P6_H + u P6_L) / 2 ^ 6 \<and>
        par_p7 b' = s P7 / 2 ^ 8 \<and>
        par_p8 b' = s P8 / 2 ^ 15 \<and>
        par_p9 b' = (256 * s P9_H + u P9_L) / 2 ^ 48 \<and>
        par_p10 b' = s P10 / 2 ^ 48 \<and>
        par_p11 b' = real_of_int (sint (hd (uninit k 1 w'))) / 2 ^ 65 \<and>
        bmp_dev b' = bmp_dev b \<and> bmp_p0 b' = bmp_p0 b \<and> regs w' = regs w)"
proof -
  note burst = read_burst_val [OF assms(1,2), of "uninit k 20 w" 20 "0x31" w]
  obtain d w1 where d: "read_burst k (bmp_dev b) 0x31 (uninit k 20 w) 20 w = (d, w1)" by fastforce
  have dv: "d = map (\<lambda>i. dev_regs regs (bmp_dev b) w (0x31 + of_nat i)) [0..<20]"
    and w1: "regs w1 = regs w" using burst by (simp_all add: d)
  have at: "d ! i = dev_regs regs (bmp_dev b) w (0x31 + of_nat i)" if "i < 20" for i
    using that by (simp add: dv)
  have b': "b' = set_calib d (hd (uninit k 1 w')) b" and w': "w' = w1"
    using assms(3) by (auto simp: acquire_calib_vars_def d)
  show ?thesis
    unfolding Let_def b' w' w1
    by (simp add: set_calib_def at concat_u16_def concat_s16_def uint_pair sint_pair)
qed

theorem calibration_from_nvm_witness:
  "\<exists>b' w'. acquire_calib_vars sim_kernel (bmp_static\<lparr>bmp_dev := \<lparr>fd = 3, addr = 0x77\<rparr>\<rparr>,
       sim0\<lparr>sim_regs := (\<lambda>_ r. if r = 0x31 then 5 else 0x80)\<rparr>) = (b', w') \<and>
     par_t1 b' = 8389888 \<and> par_p10 b' = - 128 / 2 ^ 48"
proof -
  let ?b = "bmp_static\<lparr>bmp_dev := \<lparr>fd = 3, addr = 0x77\<rparr>\<rparr>"
  let ?w = "sim0\<lparr>sim_regs := (\<lambda>_ r. if r = 0x31 then 5 else 0x80)\<rparr>"
  obtain b' w' where e: "acquire_calib_vars sim_kernel (?b, ?w) = (b', w')" by fastforce
  from calibration_from_nvm [OF sim_bus _ e] e show ?thesis by (simp add: Let_def dev_regs_def)
qed

text \<open>
  C24: Where the device delivers a buffer that announces exactly a sequence of frames, reading the
  FIFO gives the average of the compensated temperatures and of the compensated pressures of its
  sensor frames, with the height for these averages, whatever follows in the buffer; the fast
  reader gives the first reading alone. Without a sensor frame neither gives a number.
\<close>

theorem read_fifo_averages:
  assumes "read_burst k (bmp_dev b) BMP390_FIFO_LENGTH_0 (uninit k 514 w) 514 w =
      (l0 # l1 # concat (map encode_frame fs) @ rest, w')"
    and "\<forall>f \<in> set fs. frame_ok f"
    and "256 * unat l1 + unat l0 = length (concat (map encode_frame fs))"
  shows "(let rs = readings b fs; n = real (length rs);
            t = sum_list (map fst rs) / n; p = sum_list (map snd rs) / n
     in read_fifo k b w = (Inr (if rs = [] then None else Some (t, p, height b t p)), w') \<and>
        read_fifo_wo_height k b w = (Inr (if rs = [] then None else Some (fst (hd rs), snd (hd rs), 0)), w'))"
proof -
  let ?buf = "l0 # l1 # concat (map encode_frame fs) @ rest" and ?rs = "readings b fs"
  have len: "fifo_len ?buf = length [l0, l1] + length (concat (map encode_frame fs))"
    using assms(3) by (simp add: fifo_len_value)
  have two: "length [l0, l1] = 2" by simp
  have run: "fifo_loop stop b ?buf (fifo_len ?buf) 2 (0, 0, 0) =
      Inr (let rs = (if stop then take 1 ?rs else ?rs)
           in (0 + sum_list (map fst rs), 0 + sum_list (map snd rs), 0 + length rs))" for stop
    using fifo_loop_frames [OF assms(2) len, of stop b rest 0 0 0]
    by (simp only: two append_Cons append_Nil)
  show ?thesis
    unfolding Let_def read_fifo_def read_fifo_wo_height_def assms(1) prod.case run io_simps(4,6)
    by (cases ?rs) (auto simp: fifo_average_def split: prod.split)
qed

theorem read_fifo_averages_witness:
  "\<exists>b :: bmp. fst (read_fifo (sim_reader (11 # 0 # encode_frame (Time 5) @ encode_frame (Sensor 3 4) @ replicate 501 0)) b sim0) =
     Inr (Some (compensate_temp b 3, compensate_pressure b 4 (compensate_temp b 3),
       height b (compensate_temp b 3) (compensate_pressure b 4 (compensate_temp b 3))))"
proof -
  let ?fs = "[Time 5, Sensor 3 4]" and ?rest = "replicate 501 (0 :: u8)"
  let ?buf = "11 # 0 # concat (map encode_frame ?fs) @ ?rest"
  have "read_burst (sim_reader ?buf) (bmp_dev bmp_static) BMP390_FIFO_LENGTH_0
      (uninit (sim_reader ?buf) 514 sim0) 514 sim0 = (?buf, sim0)"
    by (rule sim_reader_burst) simp
  from read_fifo_averages [OF this] show ?thesis
    by (intro exI [of _ bmp_static]) (simp add: Let_def)
qed

text \<open>
  C25: A buffer of the 514 bytes the code reserves is never overrun by either reader when the device
  announces at most 506 bytes, whatever they are. When the device announces 514 bytes or more, the slow
  reader runs past the end of the array, again whatever they are, and the fast one does unless it meets a
  sensor frame first: nothing in the code bounds the length.
\<close>

theorem read_fifo_bounds:
  assumes "read_burst k (bmp_dev b) BMP390_FIFO_LENGTH_0 (uninit k 514 w) 514 w = (l0 # l1 # rest, w')"
    and "length rest = 512"
  shows "(256 * unat l1 + unat l0 \<le> 506 \<longrightarrow>
      (\<exists>x. read_fifo k b w = (Inr x, w')) \<and> (\<exists>x. read_fifo_wo_height k b w = (Inr x, w'))) \<and>
    (514 \<le> 256 * unat l1 + unat l0 \<longrightarrow> read_fifo k b w = (Inl Undefined_behaviour, w') \<and>
      (read_fifo_wo_height k b w = (Inl Undefined_behaviour, w') \<or>
       (\<exists>t p. read_fifo_wo_height k b w = (Inr (Some (t, p, 0)), w'))))"
proof -
  let ?buf = "l0 # l1 # rest"
  have len: "fifo_len ?buf = 256 * unat l1 + unat l0 + 2" by (simp add: fifo_len_value)
  have safe: "\<exists>s'. fifo_loop stop b ?buf (fifo_len ?buf) 2 (0, 0, 0) = Inr s'"
    if "256 * unat l1 + unat l0 \<le> 506" for stop
    using that assms(2) by (intro fifo_loop_safe) (simp add: len)
  have over: "fifo_loop False b ?buf (fifo_len ?buf) 2 (0, 0, 0) = Inl Undefined_behaviour"
      "fifo_loop True b ?buf (fifo_len ?buf) 2 (0, 0, 0) = Inl Undefined_behaviour \<or>
       (\<exists>t p. fifo_loop True b ?buf (fifo_len ?buf) 2 (0, 0, 0) = Inr (t, p, Suc (snd (snd (0 :: real, 0 :: real, 0 :: nat)))))"
    if "514 \<le> 256 * unat l1 + unat l0"
  proof -
    have l: "length ?buf + 2 \<le> fifo_len ?buf" using that assms(2) by (simp add: len)
    have l2: "2 < fifo_len ?buf" using that unfolding len by linarith
    show "fifo_loop False b ?buf (fifo_len ?buf) 2 (0, 0, 0) = Inl Undefined_behaviour" by (rule fifo_loop_overrun [OF l l2])
    show "fifo_loop True b ?buf (fifo_len ?buf) 2 (0, 0, 0) = Inl Undefined_behaviour \<or>
       (\<exists>t p. fifo_loop True b ?buf (fifo_len ?buf) 2 (0, 0, 0) = Inr (t, p, Suc (snd (snd (0 :: real, 0 :: real, 0 :: nat)))))"
      by (rule fifo_loop_fast_overrun [OF l l2])
  qed
  show ?thesis
    using safe [of False] safe [of True] over assms(1)
    by (auto simp: read_fifo_def read_fifo_wo_height_def io_lift_def io_bind_def io_return_def fifo_average_def)
qed

theorem read_fifo_bounds_witness:
  "(\<exists>x. fst (read_fifo (sim_reader (10 # 0 # replicate 512 0x94)) bmp_static sim0) = Inr x) \<and>
   fst (read_fifo (sim_reader (2 # 2 # replicate 512 0x94)) bmp_static sim0) = Inl Undefined_behaviour"
proof -
  let ?rest = "replicate 512 (0x94 :: u8)"
  have burst: "read_burst (sim_reader (l0 # l1 # ?rest)) (bmp_dev bmp_static) BMP390_FIFO_LENGTH_0
      (uninit (sim_reader (l0 # l1 # ?rest)) 514 sim0) 514 sim0 = (l0 # l1 # ?rest, sim0)" for l0 l1
    by (rule sim_reader_burst) simp
  show ?thesis
    using read_fifo_bounds [OF burst [of 10 0]] read_fifo_bounds [OF burst [of 2 2]]
    by auto
qed

text \<open>
  The height is that of the barometric formula as a function of the pressure: for a positive
  reference pressure and a temperature above absolute zero it is a number for every positive
  pressure, zero at the reference pressure, positive exactly below it, and strictly decreasing.
\<close>

theorem height_decreases:
  assumes "0 < bmp_p0 b" "- 273.15 < t" "0 < p" "p < q"
  shows "\<exists>h h'. height b t p = Some h \<and> height b t q = Some h' \<and> h' < h \<and>
    (0 < h \<longleftrightarrow> p < bmp_p0 b) \<and> height b t (bmp_p0 b) = Some 0"
proof -
  define f where "f x = ((bmp_p0 b / x) powr (1 / 5.255) - 1) * (t + 273.15) / 0.0065" for x
  have h: "height b t x = Some (f x)" if "0 < x" for x
  proof -
    have "0 < bmp_p0 b / x" using that assms(1) by simp
    then have "\<not> bmp_p0 b / x < 0" by linarith
    then show ?thesis using that by (simp only: height_def f_def Let_def) simp
  qed
  have less: "f y < f x" if "0 < x" "x < y" for x y
  proof -
    have "bmp_p0 b / y < bmp_p0 b / x" using that assms(1) by (simp add: divide_strict_left_mono)
    then have "(bmp_p0 b / y) powr (1 / 5.255) < (bmp_p0 b / x) powr (1 / 5.255)"
      using that assms(1) by (intro powr_less_mono2) simp_all
    then show ?thesis using assms(2) unfolding f_def
      by (intro divide_strict_right_mono mult_strict_right_mono) simp_all
  qed
  have zero: "f (bmp_p0 b) = 0" using assms(1) by (simp add: f_def)
  have "0 < f p \<longleftrightarrow> p < bmp_p0 b"
    using less [of p "bmp_p0 b"] less [of "bmp_p0 b" p] zero assms(1,3)
    by (cases p "bmp_p0 b" rule: linorder_cases) auto
  then show ?thesis
    using h assms zero less [of p q] by auto
qed

theorem height_decreases_witness:
  "\<exists>h h'. height bmp_static 15 90000 = Some h \<and> height bmp_static 15 95000 = Some h' \<and> h' < h \<and> 0 < h"
  using height_decreases [of bmp_static 15 90000 95000] by (auto simp: bmp_static_def)

end
