(* ===== verification/Qmc5883.thy ===== *)
theory Qmc5883
  imports I2c Sim
begin

text \<open>
  \<^verbatim>\<open>src/backend/qmc5883.cpp\<close>: the magnetometer. The state is the device and the scale \<^verbatim>\<open>rng\<close>
  of its static variables; the calibration constants of the file are not used by its code.
\<close>

section \<open>Registers and settings\<close>

definition DATA_OUTPUT_X_LSB :: u8 where "DATA_OUTPUT_X_LSB = 0x00"
definition STATUS_REG :: u8 where "STATUS_REG = 0x06"
definition CONTROL_REGISTER_1 :: u8 where "CONTROL_REGISTER_1 = 0x09"
definition QMC_I2C_ADDR :: int where "QMC_I2C_ADDR = 0x0d"

datatype qmc_mode = Continuous | Standby
datatype qmc_odr = Hz10 | Hz50 | Hz100 | Hz200
datatype qmc_range = G2 | G8
datatype qmc_osr = K512 | K256 | K128 | K64

primrec mode_code :: "qmc_mode \<Rightarrow> u32" where
  "mode_code Continuous = 0b01" | "mode_code Standby = 0b00"

primrec odr_code :: "qmc_odr \<Rightarrow> u32" where
  "odr_code Hz10 = 0b00" | "odr_code Hz50 = 0b01" | "odr_code Hz100 = 0b10" | "odr_code Hz200 = 0b11"

primrec range_code :: "qmc_range \<Rightarrow> u32" where
  "range_code G2 = 0b00" | "range_code G8 = 0b01"

primrec osr_code :: "qmc_osr \<Rightarrow> u32" where
  "osr_code K512 = 0b00" | "osr_code K256 = 0b01" | "osr_code K128 = 0b10" | "osr_code K64 = 0b11"

record qmc =
  qmc_dev :: device
  rng :: real

definition qmc_static :: qmc where
  "qmc_static = \<lparr>qmc_dev = device_static, rng = 2.0\<rparr>"

section \<open>Operations\<close>

definition qmc_init :: "'w kernel \<Rightarrow> qmc \<times> 'w \<Rightarrow> qmc \<times> 'w" where
  "qmc_init k = (\<lambda>(q, w). let (d, w) = device_new k QMC_I2C_ADDR w in (q\<lparr>qmc_dev := d\<rparr>, w))"

definition set_calibration_values :: "real list \<Rightarrow> qmc \<times> 'w \<Rightarrow> qmc \<times> 'w" where
  "set_calibration_values vs qw = qw"

definition qmc_combine :: "u8 \<Rightarrow> u8 \<Rightarrow> int" where
  "qmc_combine byte1 byte2 = sint (push_bit 8 (ucast byte1) OR ucast byte2 :: u16)"

definition qmc_get_raw_data :: "'w kernel \<Rightarrow> qmc \<Rightarrow> 'w \<Rightarrow> int list \<times> 'w" where
  "qmc_get_raw_data k q w =
     (let (raw, w) = read_burst k (qmc_dev q) DATA_OUTPUT_X_LSB (uninit k 6 w) 6 w
      in ([qmc_combine (raw ! 1) (raw ! 0), qmc_combine (raw ! 3) (raw ! 2),
           qmc_combine (raw ! 5) (raw ! 4)], w))"

definition qmc_get_data :: "'w kernel \<Rightarrow> qmc \<Rightarrow> 'w \<Rightarrow> real list \<times> 'w" where
  "qmc_get_data k q w =
     (let (raw, w) = qmc_get_raw_data k q w
      in ([real_of_int (raw ! 0) * rng q, real_of_int (raw ! 1) * rng q, real_of_int (raw ! 2) * rng q], w))"

primrec range_scale :: "qmc_range \<Rightarrow> real" where
  "range_scale G2 = 2 / 65536"
| "range_scale G8 = 8 / 65536"

definition set_control_register ::
  "'w kernel \<Rightarrow> qmc_mode \<Rightarrow> qmc_odr \<Rightarrow> qmc_range \<Rightarrow> qmc_osr \<Rightarrow> qmc \<times> 'w \<Rightarrow> qmc \<times> 'w" where
  "set_control_register k m od r os = (\<lambda>(q, w).
     (let w = write_byte k (qmc_dev q) CONTROL_REGISTER_1
                (narrow (mode_code m OR push_bit 2 (odr_code od) OR push_bit 4 (range_code r) OR
                         push_bit 6 (osr_code os))) w
      in (q\<lparr>rng := range_scale r\<rparr>, w)))"

definition is_data_ready :: "'w kernel \<Rightarrow> qmc \<Rightarrow> 'w \<Rightarrow> bool \<times> 'w" where
  "is_data_ready k q w =
     (let (a, w) = read_byte k (qmc_dev q) STATUS_REG w
      in (promote a AND 0b00000100 = 0b00000100, w))"

section \<open>Readings\<close>

text \<open>The 16-bit two's complement value that the chip holds at a register, little end first.\<close>

definition reg16_le :: "(u8 \<Rightarrow> u8) \<Rightarrow> u8 \<Rightarrow> int" where
  "reg16_le view r = 256 * sint (view (r + 1)) + uint (view r)"

lemma reg16_le_range: "-32768 \<le> reg16_le view r \<and> reg16_le view r \<le> 32767"
proof -
  have "-128 \<le> sint (view (r + 1))" "sint (view (r + 1)) \<le> 127" "0 \<le> uint (view r)" "uint (view r) \<le> 255"
    using sint_range_size [of "view (r + 1)"] uint_bounded [of "view r"] by (auto simp: word_size)
  then show ?thesis unfolding reg16_le_def by linarith
qed

lemma qmc_raw_val:
  assumes "register_bus k regs" "0 \<le> fd (qmc_dev q)"
  shows "fst (qmc_get_raw_data k q w) = map (reg16_le (dev_regs regs (qmc_dev q) w)) [0, 2, 4]"
    "regs (snd (qmc_get_raw_data k q w)) = regs w"
  using read_burst_val [OF assms, of "uninit k 6 w" 6]
  by (simp_all add: qmc_get_raw_data_def case_prod_unfold Let_def qmc_combine_def sint_pair
      reg16_le_def DATA_OUTPUT_X_LSB_def upt_rec)

text \<open>The control byte as a number, field by field.\<close>

definition control_byte :: "qmc_mode \<Rightarrow> qmc_odr \<Rightarrow> qmc_range \<Rightarrow> qmc_osr \<Rightarrow> int" where
  "control_byte m od r os =
     uint (mode_code m) + 4 * uint (odr_code od) + 16 * uint (range_code r) + 64 * uint (osr_code os)"

lemma control_byte_value:
  "uint (narrow (mode_code m OR push_bit 2 (odr_code od) OR push_bit 4 (range_code r) OR
     push_bit 6 (osr_code os))) = control_byte m od r os"
  by (cases m; cases od; cases r; cases os)
    (simp_all add: narrow_def control_byte_def)

section \<open>Properties\<close>

text \<open>
  After the control register has been set on a working bus it holds the four settings in
  separate bit fields, so that different settings give different bytes; no other register
  changes, and a reading is the chip's three little-endian values times the scale of the chosen
  range. The scale maps the 16-bit span to half of the range it is named after: no component
  exceeds 1 in the 2 gauss range and 4 in the 8 gauss range.
\<close>

theorem qmc_configured_reading:
  assumes "register_bus k regs" "0 \<le> fd (qmc_dev q)"
    and "set_control_register k m od r os (q, w) = (q', w')"
  shows "(let view = dev_regs regs (qmc_dev q) w'; b = uint (view CONTROL_REGISTER_1) in
      b mod 4 = uint (mode_code m) \<and> b div 4 mod 4 = uint (odr_code od) \<and>
      b div 16 mod 4 = uint (range_code r) \<and> b div 64 = uint (osr_code os) \<and>
      (\<forall>x. x \<noteq> CONTROL_REGISTER_1 \<longrightarrow> view x = dev_regs regs (qmc_dev q) w x) \<and>
      fst (qmc_get_data k q' w') = map (\<lambda>x. real_of_int (reg16_le view x) * range_scale r) [0, 2, 4] \<and>
      (\<forall>x \<in> set (fst (qmc_get_data k q' w')). \<bar>x\<bar> \<le> (case r of G2 \<Rightarrow> 1 | G8 \<Rightarrow> 4)))"
proof -
  have q': "q' = q\<lparr>rng := range_scale r\<rparr>"
    and w': "w' = write_byte k (qmc_dev q) CONTROL_REGISTER_1
      (narrow (mode_code m OR push_bit 2 (odr_code od) OR push_bit 4 (range_code r) OR
         push_bit 6 (osr_code os))) w"
    using assms(3) by (auto simp: set_control_register_def Let_def)
  have g: "bus_good (k, regs, qmc_dev q)" using assms(1,2) by (simp add: bus_good_def)
  define view where "view = dev_regs regs (qmc_dev q) w'"
  have b: "uint (view CONTROL_REGISTER_1) = control_byte m od r os"
    using i2c.wr_view [OF g] by (simp add: view_def w' control_byte_value)
  have frame: "view x = dev_regs regs (qmc_dev q) w x" if "x \<noteq> CONTROL_REGISTER_1" for x
    using i2c.wr_view [OF g] that by (simp add: view_def w')
  have fields: "control_byte m od r os mod 4 = uint (mode_code m) \<and>
      control_byte m od r os div 4 mod 4 = uint (odr_code od) \<and>
      control_byte m od r os div 16 mod 4 = uint (range_code r) \<and>
      control_byte m od r os div 64 = uint (osr_code os)"
    by (cases m; cases od; cases r; cases os) (simp_all add: control_byte_def)
  have data: "fst (qmc_get_data k q' w') = map (\<lambda>x. real_of_int (reg16_le view x) * range_scale r) [0, 2, 4]"
    using qmc_raw_val(1) [OF assms(1), of q' w'] assms(2)
    by (simp add: qmc_get_data_def case_prod_unfold Let_def q' view_def)
  have "\<bar>real_of_int (reg16_le view x) * range_scale r\<bar> \<le> (case r of G2 \<Rightarrow> 1 | G8 \<Rightarrow> 4)" for x
    using reg16_le_range [of view x] by (cases r) (auto simp: abs_if)
  then show ?thesis
    using b frame fields data by (auto simp: view_def [symmetric] Let_def)
qed

theorem qmc_configured_reading_witness:
  "\<exists>q' w'. set_control_register sim_kernel Continuous Hz200 G8 K256
       (qmc_static\<lparr>qmc_dev := \<lparr>fd = 3, addr = 13\<rparr>\<rparr>, sim0) = (q', w') \<and>
     uint (dev_regs sim_regs \<lparr>fd = 3, addr = 13\<rparr> w' CONTROL_REGISTER_1) div 4 mod 4 = 3"
proof -
  let ?q = "qmc_static\<lparr>qmc_dev := \<lparr>fd = 3, addr = 13\<rparr>\<rparr>"
  obtain q' w' where e: "set_control_register sim_kernel Continuous Hz200 G8 K256 (?q, sim0) = (q', w')"
    by fastforce
  from qmc_configured_reading [OF sim_bus _ e] e show ?thesis by (simp add: Let_def)
qed

end
