(* ===== verification/Gps.thy ===== *)
theory Gps
  imports StrUtils Sim
begin

text \<open>
  \<^verbatim>\<open>src/backend/gps.cpp\<close>: the NMEA line parser and the thread that feeds it from the serial port.
  The parser works on the result object in place and may throw half way, so it is an action on
  that object. The thread catches the exceptions of the standard library and nothing else.
\<close>

section \<open>The parser\<close>

record nmea_result =
  useful :: bool
  nr_fix :: bool
  lng :: real
  lat :: real
  n_sat :: int
  north :: bool
  east :: bool

definition set_lat :: "int \<Rightarrow> real \<Rightarrow> string \<Rightarrow> nmea_result \<Rightarrow> nmea_result" where
  "set_lat deg mins data r =
     (let r = r\<lparr>north := (str_first data = CHR ''N'')\<rparr>;
          r = r\<lparr>lat := real_of_int deg + mins / 60\<rparr>
      in if \<not> north r then r\<lparr>lat := lat r * -1\<rparr> else r)"

definition set_lng :: "int \<Rightarrow> real \<Rightarrow> string \<Rightarrow> nmea_result \<Rightarrow> nmea_result" where
  "set_lng deg mins data r =
     (let r = r\<lparr>east := (str_first data = CHR ''E'')\<rparr>;
          r = r\<lparr>lng := real_of_int deg + mins / 60\<rparr>
      in if \<not> east r then r\<lparr>lng := lng r * -1\<rparr> else r)"

text \<open>\<^verbatim>\<open>stoi (data.substr (0, n))\<close> and \<^verbatim>\<open>stod (data.substr (n))\<close>.\<close>

definition degrees :: "nat \<Rightarrow> string \<Rightarrow> fault + int \<times> real" where
  "degrees n data =
     (case str_substr data 0 n of
        Inl e \<Rightarrow> Inl e
      | Inr a \<Rightarrow>
          (case stoi a of
             Inl e \<Rightarrow> Inl e
           | Inr deg \<Rightarrow>
               (case str_substr data n npos of
                  Inl e \<Rightarrow> Inl e
                | Inr b \<Rightarrow> (case stod b of Inl e \<Rightarrow> Inl e | Inr mins \<Rightarrow> Inr (deg, mins)))))"

definition gga_lat :: "tokenizer \<Rightarrow> (nmea_result, tokenizer) io" where
  "gga_lat tk =
     io_bind (io_lift (next_token tk)) (\<lambda>(data, tk).
     io_bind (io_lift (degrees 2 data)) (\<lambda>(deg, mins).
     io_bind (io_lift (next_token tk)) (\<lambda>(data, tk).
     io_bind (io_act (set_lat deg mins data)) (\<lambda>_. io_return tk))))"

definition gga_lng :: "tokenizer \<Rightarrow> (nmea_result, tokenizer) io" where
  "gga_lng tk =
     io_bind (io_lift (next_token tk)) (\<lambda>(data, tk).
     io_bind (io_lift (degrees 3 data)) (\<lambda>(deg, mins).
     io_bind (io_lift (next_token tk)) (\<lambda>(data, tk).
     io_bind (io_act (set_lng deg mins data)) (\<lambda>_. io_return tk))))"

definition gga_quality :: "tokenizer \<Rightarrow> (nmea_result, tokenizer) io" where
  "gga_quality tk =
     io_bind (io_lift (next_token tk)) (\<lambda>(data, tk).
     io_bind (io_act (nr_fix_update (\<lambda>_. str_first data \<noteq> CHR ''0''))) (\<lambda>_.
     io_bind (io_lift (next_token tk)) (\<lambda>(data, tk).
     io_bind (io_lift (stoi data)) (\<lambda>n.
     io_bind (io_act (n_sat_update (\<lambda>_. short_of_int n))) (\<lambda>_. io_return tk)))))"

definition parse_gga :: "tokenizer \<Rightarrow> (nmea_result, unit) io" where
  "parse_gga tk =
     io_bind (io_lift (next_token tk)) (\<lambda>(data, tk).
     io_bind (gga_lat tk) (\<lambda>tk.
     io_bind (gga_lng tk) (\<lambda>tk.
     io_bind (gga_quality tk) (\<lambda>tk.
     io_bind (io_lift (next_token tk)) (\<lambda>(data, tk).
     io_bind (io_lift (next_token tk)) (\<lambda>(data, tk).
     io_act (useful_update (\<lambda>_. True))))))))"

definition process_nmea_line :: "string \<Rightarrow> (nmea_result, unit) io" where
  "process_nmea_line nmea_msg =
     io_bind (io_act (useful_update (\<lambda>_. False))) (\<lambda>_.
     io_bind (io_lift (next_token (tokenizer_new nmea_msg CHR '',''))) (\<lambda>(command, tk).
       if str_first command \<noteq> CHR ''$'' then io_return ()
       else if take 3 (drop 3 command) = ''GGA'' then parse_gga tk
       else io_return ()))"

section \<open>The device\<close>

definition GPS_INTERNAL_BUFFER :: nat where "GPS_INTERNAL_BUFFER = 1024"

record gps =
  gps_fd :: int
  new_data :: bool
  gps_fix :: bool
  last_useful :: nmea_result
  gps_lat :: real
  gps_lng :: real

definition gps_init :: "'w kernel \<Rightarrow> gps \<Rightarrow> 'w \<Rightarrow> gps \<times> 'w" where
  "gps_init k g w =
     (let (f, w) = ask k (Open ''/dev/serial0'') w; g = g\<lparr>gps_fd := f\<rparr>
      in if f = -1 then (g, w) else (g, call k (Start_thread ''gps_thread'') w))"

definition gps_read :: "'w kernel \<Rightarrow> gps \<Rightarrow> bytes \<Rightarrow> ('w, int \<times> bytes) io" where
  "gps_read k g buf w =
     (let (a, w) = k (Read (gps_fd g) GPS_INTERNAL_BUFFER) w
      in (Inr (rval a, store buf (take GPS_INTERNAL_BUFFER (rdata a))), w))"

definition put_nul :: "int \<Rightarrow> bytes \<Rightarrow> fault + bytes" where
  "put_nul i buf = (if 0 \<le> i \<and> i < int (length buf) then Inr (buf[nat i := 0]) else Inl Undefined_behaviour)"

text \<open>The text of a buffer up to its first NUL, which \<open>put_nul\<close> has put there.\<close>

definition buf_text :: "bytes \<Rightarrow> string" where
  "buf_text buf = map (\<lambda>b. char_of (unat b)) (takeWhile (\<lambda>b. b \<noteq> 0) buf)"

definition std_exception :: "fault \<Rightarrow> bool" where
  "std_exception e \<longleftrightarrow> e = Invalid_argument \<or> e = Out_of_range"

definition gps_take :: "nmea_result \<Rightarrow> gps \<Rightarrow> gps" where
  "gps_take r g =
     (if useful r
      then g\<lparr>last_useful := r, gps_lat := lat r, gps_lng := lng r, gps_fix := nr_fix r, new_data := True\<rparr>
      else g)"

definition gps_line :: "string \<Rightarrow> gps \<times> nmea_result \<Rightarrow> fault + gps \<times> nmea_result" where
  "gps_line s = (\<lambda>(g, r).
     case process_nmea_line s r of
       (Inl e, r) \<Rightarrow> if std_exception e then Inr (g, r) else Inl e
     | (Inr _, r) \<Rightarrow> Inr (gps_take r g, r))"

definition gps_round ::
  "'w kernel \<Rightarrow> gps \<times> nmea_result \<times> bytes \<Rightarrow> ('w, gps \<times> nmea_result \<times> bytes) io" where
  "gps_round k = (\<lambda>(g, r, buf).
     io_bind (gps_read k g buf) (\<lambda>(chg_len, buf).
     io_bind (if chg_len \<le> 2 then gps_read k g buf else io_return (chg_len, buf)) (\<lambda>(chg_len, buf).
     io_bind (io_lift (put_nul (chg_len - 1) buf)) (\<lambda>buf.
     io_bind (io_lift (gps_line (buf_text buf) (g, r))) (\<lambda>(g, r).
     io_return (g, r, buf))))))"

primrec gps_loop ::
  "nat \<Rightarrow> 'w kernel \<Rightarrow> gps \<times> nmea_result \<times> bytes \<Rightarrow> ('w, gps \<times> nmea_result \<times> bytes) io" where
  "gps_loop 0 k s = io_return s"
| "gps_loop (Suc n) k s = io_bind (gps_round k s) (gps_loop n k)"

text \<open>The first \<open>n\<close> rounds of the thread; \<open>r\<close> is what the unset result object holds.\<close>

definition gps_thread :: "nat \<Rightarrow> 'w kernel \<Rightarrow> nmea_result \<Rightarrow> gps \<Rightarrow> ('w, gps \<times> nmea_result \<times> bytes) io" where
  "gps_thread n k r g =
     io_bind (\<lambda>w. (Inr (uninit k (GPS_INTERNAL_BUFFER + 1) w), w)) (\<lambda>buf.
     io_bind (gps_read k g buf) (\<lambda>(chg_len, buf).
     io_bind (io_lift (put_nul chg_len buf)) (\<lambda>buf.
     gps_loop n k (g, r, buf))))"

section \<open>Fields of a sentence\<close>

lemma take_field:
  assumes "tk_ok t" "tk_delim t = d" "split_fields d (tk_rest t) = f # fs"
  obtains out t' where "next_token t = Inr (out, t')" "leading d out = f" "tk_ok t'" "tk_delim t' = d"
    "fs \<noteq> [] \<Longrightarrow> split_fields d (tk_rest t') = fs"
proof -
  obtain out t' where o: "next_token t = Inr (out, t')" using tk.take_ok [OF assms(1)] by blast
  note f = fields_of_rest [OF assms(1) o, unfolded assms(2,3)]
  show thesis using that [OF o] f by simp
qed

lemma str_first_leading: "c \<noteq> d \<Longrightarrow> c \<noteq> CHR 0x00 \<Longrightarrow> str_first out = c \<longleftrightarrow> str_first (leading d out) = c"
  by (cases out) (auto simp: str_first_def leading_def)

lemma leading_take: "n \<le> length (leading d out) \<Longrightarrow> take n out = take n (leading d out)"
proof -
  assume n: "n \<le> length (leading d out)"
  have "out = leading d out @ dropWhile (\<lambda>x. x \<noteq> d) out" by (simp add: leading_def)
  then have "take n out = take n (leading d out @ dropWhile (\<lambda>x. x \<noteq> d) out)" by metis
  then show ?thesis using n by simp
qed

lemma leading_drop: "n \<le> length (leading d out) \<Longrightarrow> leading d (drop n out) = drop n (leading d out)"
proof (induction out arbitrary: n)
  case (Cons c out)
  then show ?case by (cases n) (auto simp: leading_def split: if_splits)
qed (simp add: leading_def)

lemma length_leading: "length (leading d out) \<le> length out"
  by (simp add: leading_def length_takeWhile_le)

text \<open>The degrees and minutes of a token are those of the field it starts with.\<close>

lemma degrees_leading:
  assumes "num_stop d" "leading d out = f" "n \<le> length f" "dropWhile is_space (drop n f) \<noteq> []" "length out < npos"
    and "stoi (take n f) = Inr deg" "stod (drop n f) = Inr mins"
  shows "degrees n out = Inr (deg, mins)"
proof -
  have "take n out = take n f" using leading_take [of n d out] assms(2,3) by simp
  moreover have "leading d (drop n out) = drop n f" using leading_drop [of n d out] assms(2,3) by simp
  then have "stod (drop n out) = Inr mins"
    using stod_leading(1) [OF assms(1), of "drop n out"] assms(4,7) by simp
  moreover have "n \<le> length out" using length_leading [of d out] assms(2,3) by simp
  ultimately show ?thesis
    using assms(5,6) by (simp add: degrees_def str_substr_def)
qed

lemma next_token_length: "next_token t = Inr (out, t') \<Longrightarrow> length out \<le> length (tk_s t)"
  by (auto simp: next_token_def str_substr_def Let_def split: if_splits)

lemma stoi_nonblank: "stoi f = Inr n \<Longrightarrow> dropWhile is_space f \<noteq> []"
proof
  assume "stoi f = Inr n" "dropWhile is_space f = []"
  then show False by (simp only: stoi_def take_sign_def Let_def) simp
qed

lemma stod_nonblank: "stod f = Inr x \<Longrightarrow> dropWhile is_space f \<noteq> []"
proof
  assume "stod f = Inr x" "dropWhile is_space f = []"
  then show False
    by (simp only: stod_def take_sign_def Let_def) (simp add: lex_number_def frac_part_def special_number_def)
qed

lemma stoi_fault: "stoi s = Inl e \<Longrightarrow> std_exception e"
  by (auto simp: stoi_def std_exception_def Let_def split: prod.splits if_splits)

lemma degrees_fault: "degrees n s = Inl e \<Longrightarrow> std_exception e \<or> e = Not_modelled"
  by (auto simp: degrees_def str_substr_def std_exception_def dest!: stoi_fault stod_fault split: sum.splits if_splits)

text \<open>
  What a part of the parser does: it throws, leaving the mark alone, or its effect is one function
  of the result object, whatever the object holds.
\<close>

definition parse_fault :: "fault \<Rightarrow> bool" where
  "parse_fault e \<longleftrightarrow> std_exception e \<or> e = Not_modelled"

definition fills :: "(nmea_result, 'a) io \<Rightarrow> ((nmea_result \<Rightarrow> nmea_result) \<Rightarrow> bool) \<Rightarrow> bool" where
  "fills m Q \<longleftrightarrow>
     (\<exists>e. parse_fault e \<and> (\<forall>r. \<exists>r'. m r = (Inl e, r') \<and> useful r' = useful r)) \<or>
     (\<exists>x f. Q f \<and> (\<forall>r. m r = (Inr x, f r)))"

lemma fills_lift:
  assumes "\<And>e. v = Inl e \<Longrightarrow> parse_fault e" "\<And>x. v = Inr x \<Longrightarrow> fills (g x) Q"
  shows "fills (io_bind (io_lift v) g) Q"
  using assms by (cases v) (auto simp: fills_def io_bind_def io_lift_def)

lemma fills_bind:
  assumes "fills m P" "\<And>x f. P f \<Longrightarrow> (\<forall>r. useful (f r) = useful r) \<and> fills (g x) (\<lambda>f'. Q (\<lambda>r. f' (f r)))"
  shows "fills (io_bind m g) Q"
proof (cases "\<exists>x f. P f \<and> (\<forall>r. m r = (Inr x, f r))")
  case True
  then obtain x f where m: "P f" "\<And>r. m r = (Inr x, f r)" by blast
  have run: "io_bind m g r = g x (f r)" for r by (simp add: io_bind_def m(2))
  have u: "\<And>r. useful (f r) = useful r" and g: "fills (g x) (\<lambda>f'. Q (\<lambda>r. f' (f r)))"
    using assms(2) [OF m(1), of x] by simp_all
  from g [unfolded fills_def] show ?thesis
  proof (elim disjE exE conjE)
    fix e
    assume e: "parse_fault e" "\<forall>r. \<exists>r'. g x r = (Inl e, r') \<and> useful r' = useful r"
    have "\<exists>r'. io_bind m g r = (Inl e, r') \<and> useful r' = useful r" for r
      using e(2) [rule_format, of "f r"] u [of r] by (simp add: run)
    then show ?thesis using e(1) unfolding fills_def by blast
  next
    fix y f'
    assume "Q (\<lambda>r. f' (f r))" "\<forall>r. g x r = (Inr y, f' r)"
    then show ?thesis
      unfolding fills_def run by (intro disjI2 exI [of _ y] exI [of _ "\<lambda>r. f' (f r)"]) simp
  qed
next
  case False
  with assms(1) obtain e where e: "parse_fault e" "\<forall>r. \<exists>r'. m r = (Inl e, r') \<and> useful r' = useful r"
    unfolding fills_def by blast
  have "\<exists>r'. io_bind m g r = (Inl e, r') \<and> useful r' = useful r" for r
    using e(2) [rule_format, of r] by (auto simp: io_bind_def)
  then show ?thesis using e(1) unfolding fills_def by blast
qed

lemma fills_act: "Q h \<Longrightarrow> fills (io_act h) Q"
  by (auto simp: fills_def io_act_def)

lemma fills_act_bind:
  assumes "\<And>r. useful (h r) = useful r" "fills (g ()) (\<lambda>f'. Q (\<lambda>r. f' (h r)))"
  shows "fills (io_bind (io_act h) g) Q"
  by (rule fills_bind [where P = "\<lambda>f. f = h"]) (use assms in \<open>auto intro: fills_act\<close>)

lemma fills_return: "Q (\<lambda>r. r) \<Longrightarrow> fills (io_return x) Q"
  by (auto simp: fills_def io_return_def)

lemma gga_faults:
  "next_token t = Inl e \<Longrightarrow> parse_fault e" "stoi s = Inl e \<Longrightarrow> parse_fault e"
  "degrees n s = Inl e \<Longrightarrow> parse_fault e"
  using next_token_fault stoi_fault degrees_fault by (auto simp: parse_fault_def std_exception_def)

lemma keep_useful [simp]:
  "useful (set_lat d m s r) = useful r" "useful (set_lng d m s r) = useful r"
  by (simp_all add: set_lat_def set_lng_def Let_def)

text \<open>The whole parser: a result that is marked has every field from this sentence.\<close>

lemma parse_gga_fills: "fills (parse_gga t) (\<lambda>f. \<forall>r r2. useful (f r) \<and> f r = f r2)"
  unfolding parse_gga_def gga_lat_def gga_lng_def gga_quality_def io_bind_assoc case_prod_unfold io_simps(1)
  by (intro fills_lift fills_act_bind fills_act fills_return)
    (auto intro: gga_faults simp: set_lat_def set_lng_def Let_def intro!: nmea_result.equality)

lemma process_cases:
  obtains (throws) e r' where "process_nmea_line s r = (Inl e, r')" "parse_fault e" "\<not> useful r'"
  | (other) r' where "process_nmea_line s r = (Inr (), r')" "r' = r\<lparr>useful := False\<rparr>"
  | (sentence) r' where "\<And>r2. process_nmea_line s r2 = (Inr (), r')" "useful r'"
proof -
  obtain v where v: "next_token (tokenizer_new s CHR '','') = v" by blast
  show thesis
  proof (cases v)
    case (Inl e)
    then show thesis
      using v throws [of e "r\<lparr>useful := False\<rparr>"] gga_faults(1)
      by (auto simp: process_nmea_line_def io_bind_def io_act_def io_lift_def)
  next
    case (Inr ct)
    obtain command t where ct: "ct = (command, t)" by (cases ct)
    have run: "process_nmea_line s r2 =
        (if str_first command = CHR ''$'' \<and> take 3 (drop 3 command) = ''GGA'' then parse_gga t (r2\<lparr>useful := False\<rparr>)
         else (Inr (), r2\<lparr>useful := False\<rparr>))" for r2
      using v by (simp add: process_nmea_line_def io_bind_def io_act_def io_lift_def io_return_def Inr ct)
    show thesis
    proof (cases "str_first command = CHR ''$'' \<and> take 3 (drop 3 command) = ''GGA''")
      case False
      have "process_nmea_line s r = (Inr (), r\<lparr>useful := False\<rparr>)" by (simp only: run False if_False)
      then show thesis using other by blast
    next
      case True
      from parse_gga_fills [of t, unfolded fills_def] show thesis
      proof (elim disjE exE conjE)
        fix e
        assume "parse_fault e" "\<forall>r. \<exists>r'. parse_gga t r = (Inl e, r') \<and> useful r' = useful r"
        then show thesis using run [of r] True throws by (metis nmea_result.select_convs(1) nmea_result.update_convs(1) nmea_result.surjective)
      next
        fix x :: unit and f
        assume f: "\<forall>r r2. useful (f r) \<and> f r = f r2" "\<forall>r. parse_gga t r = (Inr x, f r)"
        have "process_nmea_line s r2 = (Inr (), f r)" for r2
          using run [of r2] True f by (simp only: if_True simp_thms) (metis old.unit.exhaust)
        then show thesis using f(1) sentence by blast
      qed
    qed
  qed
qed

lemma gga_parsed:
  assumes "length s < npos" "split_fields CHR '','' s = f0 # f1 # f2 # f3 # f4 # f5 # f6 # f7 # rest"
    and "str_first f0 = CHR ''$''" "take 3 (drop 3 f0) = ''GGA''"
    and "2 \<le> length f2" "stoi (take 2 f2) = Inr d1" "stod (drop 2 f2) = Inr m1"
    and "3 \<le> length f4" "stoi (take 3 f4) = Inr d2" "stod (drop 3 f4) = Inr m2"
    and "stoi f7 = Inr n"
  shows "process_nmea_line s r = (Inr (),
    \<lparr>useful = True, nr_fix = (str_first f6 \<noteq> CHR ''0''),
     lng = (if str_first f5 = CHR ''E'' then 1 else -1) * (real_of_int d2 + m2 / 60),
     lat = (if str_first f3 = CHR ''N'' then 1 else -1) * (real_of_int d1 + m1 / 60),
     n_sat = short_of_int n, north = (str_first f3 = CHR ''N''), east = (str_first f5 = CHR ''E'')\<rparr>)"
proof -
  let ?d = "CHR '',''"
  have stop: "num_stop ?d" by (simp add: num_stop_def)
  obtain o0 t0 where 0: "next_token (tokenizer_new s ?d) = Inr (o0, t0)" "leading ?d o0 = f0" "tk_ok t0" "tk_delim t0 = ?d"
      "split_fields ?d (tk_rest t0) = f1 # f2 # f3 # f4 # f5 # f6 # f7 # rest"
    by (rule take_field [of "tokenizer_new s ?d" ?d f0]) (use assms(1,2) in auto)
  obtain o1 t1 where 1: "next_token t0 = Inr (o1, t1)" "tk_ok t1" "tk_delim t1 = ?d"
      "split_fields ?d (tk_rest t1) = f2 # f3 # f4 # f5 # f6 # f7 # rest"
    by (rule take_field [OF 0(3-5)]) auto
  obtain o2 t2 where 2: "next_token t1 = Inr (o2, t2)" "leading ?d o2 = f2" "tk_ok t2" "tk_delim t2 = ?d"
      "split_fields ?d (tk_rest t2) = f3 # f4 # f5 # f6 # f7 # rest"
    by (rule take_field [OF 1(2-4)]) auto
  obtain o3 t3 where 3: "next_token t2 = Inr (o3, t3)" "leading ?d o3 = f3" "tk_ok t3" "tk_delim t3 = ?d"
      "split_fields ?d (tk_rest t3) = f4 # f5 # f6 # f7 # rest"
    by (rule take_field [OF 2(3-5)]) auto
  obtain o4 t4 where 4: "next_token t3 = Inr (o4, t4)" "leading ?d o4 = f4" "tk_ok t4" "tk_delim t4 = ?d"
      "split_fields ?d (tk_rest t4) = f5 # f6 # f7 # rest"
    by (rule take_field [OF 3(3-5)]) auto
  obtain o5 t5 where 5: "next_token t4 = Inr (o5, t5)" "leading ?d o5 = f5" "tk_ok t5" "tk_delim t5 = ?d"
      "split_fields ?d (tk_rest t5) = f6 # f7 # rest"
    by (rule take_field [OF 4(3-5)]) auto
  obtain o6 t6 where 6: "next_token t5 = Inr (o6, t6)" "leading ?d o6 = f6" "tk_ok t6" "tk_delim t6 = ?d"
      "split_fields ?d (tk_rest t6) = f7 # rest"
    by (rule take_field [OF 5(3-5)]) auto
  obtain o7 t7 where 7: "next_token t6 = Inr (o7, t7)" "leading ?d o7 = f7" "tk_ok t7"
    by (rule take_field [OF 6(3-5)]) auto
  obtain o8 t8 where 8: "next_token t7 = Inr (o8, t8)" "tk_ok t8" using tk.take_ok [OF 7(3)] tk.take_next [OF 7(3)] by blast
  obtain o9 t9 where 9: "next_token t8 = Inr (o9, t9)" using tk.take_ok [OF 8(2)] by blast
  have len: "length out < npos" if "next_token t = Inr (out, t')" "tk_ok t" for out t t'
    using next_token_length [OF that(1)] that(2) by (simp add: tk_ok_def)
  have lat: "degrees 2 o2 = Inr (d1, m1)"
    by (rule degrees_leading [OF stop 2(2) assms(5) stod_nonblank [OF assms(7)] len [OF 2(1) 1(2)] assms(6,7)])
  have lng: "degrees 3 o4 = Inr (d2, m2)"
    by (rule degrees_leading [OF stop 4(2) assms(8) stod_nonblank [OF assms(10)] len [OF 4(1) 3(3)] assms(9,10)])
  have sat: "stoi o7 = Inr n"
    using stod_leading(2) [OF stop, of o7] stoi_nonblank [OF assms(11)] assms(11) by (simp add: 7(2))
  have first: "str_first o0 = CHR ''$''" "(str_first o3 = CHR ''N'') = (str_first f3 = CHR ''N'')"
    "(str_first o5 = CHR ''E'') = (str_first f5 = CHR ''E'')" "(str_first o6 = CHR ''0'') = (str_first f6 = CHR ''0'')"
    using str_first_leading [of "CHR ''$''" ?d o0] str_first_leading [of "CHR ''N''" ?d o3]
      str_first_leading [of "CHR ''E''" ?d o5] str_first_leading [of "CHR ''0''" ?d o6] assms(3)
    by (simp_all add: 0(2) 3(2) 5(2) 6(2))
  have "length (take 3 (drop 3 f0)) = 3" using assms(4) by simp
  then have "6 \<le> length f0" by simp
  then have "take 3 (drop 3 o0) = ''GGA''"
    using leading_drop [of 3 ?d o0] leading_take [of 3 ?d "drop 3 o0"] assms(4) by (simp add: 0(2))
  then have command: "\<And>x y. (if str_first o0 \<noteq> CHR ''$'' then x else if take 3 (drop 3 o0) = ''GGA'' then y else x) = y"
    using first(1) by simp
  have "gga_lat t1 = io_bind (io_act (set_lat d1 m1 o3)) (\<lambda>_. io_return t3)"
    by (simp add: gga_lat_def io_simps(4) 2(1) 3(1) lat)
  moreover have "gga_lng t3 = io_bind (io_act (set_lng d2 m2 o5)) (\<lambda>_. io_return t5)"
    by (simp add: gga_lng_def io_simps(4) 4(1) 5(1) lng)
  moreover have "gga_quality t5 = io_bind (io_act (nr_fix_update (\<lambda>_. str_first o6 \<noteq> CHR ''0'')))
      (\<lambda>_. io_bind (io_act (n_sat_update (\<lambda>_. short_of_int n))) (\<lambda>_. io_return t7))"
    by (simp add: gga_quality_def io_simps(4) 6(1) 7(1) sat)
  ultimately have "parse_gga t0 = io_bind (io_act (set_lat d1 m1 o3)) (\<lambda>_. io_bind (io_act (set_lng d2 m2 o5))
      (\<lambda>_. io_bind (io_act (nr_fix_update (\<lambda>_. str_first o6 \<noteq> CHR ''0'')))
      (\<lambda>_. io_bind (io_act (n_sat_update (\<lambda>_. short_of_int n))) (\<lambda>_. io_act (useful_update (\<lambda>_. True))))))"
    by (simp add: parse_gga_def io_simps(1,4) io_bind_assoc 1(1) 8(1) 9)
  then have "process_nmea_line s r = (Inr (), useful_update (\<lambda>_. True) (n_sat_update (\<lambda>_. short_of_int n)
      (nr_fix_update (\<lambda>_. str_first o6 \<noteq> CHR ''0'') (set_lng d2 m2 o5 (set_lat d1 m1 o3 (r\<lparr>useful := False\<rparr>))))))"
    by (simp add: process_nmea_line_def io_simps(3,4,8) 0(1) command)
  then show ?thesis by (simp add: set_lat_def set_lng_def Let_def first)
qed

section \<open>Lines\<close>

definition gps_ok :: "gps \<Rightarrow> bool" where
  "gps_ok g \<longleftrightarrow> (new_data g \<longrightarrow>
     (\<exists>s. \<forall>r. process_nmea_line s r = (Inr (), last_useful g)) \<and> useful (last_useful g) \<and>
     gps_lat g = lat (last_useful g) \<and> gps_lng g = lng (last_useful g) \<and> gps_fix g = nr_fix (last_useful g))"

lemma gps_line_ok:
  assumes "gps_line s (g, r) = Inr (g', r')" "gps_ok g"
  shows "gps_ok g' \<and> gps_fd g' = gps_fd g \<and> (g' = g \<or> new_data g')"
proof (rule process_cases [of s r])
  fix r1
  assume 1: "\<And>r2. process_nmea_line s r2 = (Inr (), r1)" "useful r1"
  have g': "g' = gps_take r1 g" using assms(1) by (auto simp: gps_line_def 1(1))
  have "\<exists>s. \<forall>r. process_nmea_line s r = (Inr (), r1)" using 1(1) by blast
  then show ?thesis using 1(2) unfolding g' by (simp add: gps_ok_def gps_take_def)
qed (use assms in \<open>auto simp: gps_line_def gps_take_def split: if_splits\<close>)

lemma gps_line_fault: "gps_line s gr = Inl e \<Longrightarrow> e = Not_modelled"
  by (cases gr; rule process_cases [of s "snd gr"]) (auto simp: gps_line_def parse_fault_def split: if_splits)

lemma gps_round_ok:
  assumes "gps_round k (g, r, buf) w = (Inr (g', r', buf'), w')" "gps_ok g"
  shows "gps_ok g' \<and> gps_fd g' = gps_fd g \<and> (g' = g \<or> new_data g')"
proof -
  from assms(1) obtain s where "gps_line s (g, r) = Inr (g', r')"
    by (auto simp: gps_round_def io_bind_def io_lift_def io_return_def gps_read_def split: prod.splits sum.splits if_splits)
  then show ?thesis using assms(2) by (rule gps_line_ok)
qed

text \<open>The number of bytes of the read that counts in a round.\<close>

definition round_count :: "'w kernel \<Rightarrow> gps \<Rightarrow> 'w \<Rightarrow> int" where
  "round_count k g w =
     (case k (Read (gps_fd g) GPS_INTERNAL_BUFFER) w of (a, w1) \<Rightarrow>
        if rval a \<le> 2 then rval (fst (k (Read (gps_fd g) GPS_INTERNAL_BUFFER) w1)) else rval a)"

lemma length_gps_read: "gps_read k g buf w = (Inr (c, buf'), w') \<Longrightarrow> length buf' = length buf"
  by (auto simp: gps_read_def split: prod.splits)

lemma gps_round_read:
  obtains buf' w' where "length buf' = length buf"
    "gps_round k (g, r, buf) w = io_bind (io_lift (put_nul (round_count k g w - 1) buf'))
       (\<lambda>buf. io_bind (io_lift (gps_line (buf_text buf) (g, r))) (\<lambda>(g, r). io_return (g, r, buf))) w'"
proof -
  obtain a w1 where 1: "k (Read (gps_fd g) GPS_INTERNAL_BUFFER) w = (a, w1)" by fastforce
  obtain b w2 where 2: "k (Read (gps_fd g) GPS_INTERNAL_BUFFER) w1 = (b, w2)" by fastforce
  show thesis
    using that [of "store buf (take GPS_INTERNAL_BUFFER (rdata a))" w1]
      that [of "store (store buf (take GPS_INTERNAL_BUFFER (rdata a))) (take GPS_INTERNAL_BUFFER (rdata b))" w2] 1 2
    by (cases "rval a \<le> 2") (simp_all add: gps_round_def gps_read_def io_bind_def io_return_def round_count_def)
qed

section \<open>An example line\<close>

text \<open>A serial port that always delivers the same line.\<close>

definition line_kernel :: "string \<Rightarrow> sim kernel" where
  "line_kernel s q w = ((answer_of (int (length s)))\<lparr>rdata := map (\<lambda>c. of_nat (of_char c)) s\<rparr>, w)"

definition no_result :: nmea_result where
  "no_result = \<lparr>useful = True, nr_fix = False, lng = 1, lat = 2, n_sat = 3, north = False, east = False\<rparr>"

definition gps_new :: gps where
  "gps_new = \<lparr>gps_fd = 3, new_data = False, gps_fix = False, last_useful = no_result, gps_lat = 0, gps_lng = 0\<rparr>"

section \<open>Properties\<close>

text \<open>
  C20: A GGA sentence whose numeric fields parse gives the signed position in degrees (the minutes
  over sixty, south and west negative), the fix flag, the number of satellites and the mark,
  whatever the result object held and although the tokens run on past their fields. Anything but
  a zero counts as a fix, also an empty field.
\<close>

theorem gga_sentence_parsed:
  assumes "length s < npos" "split_fields CHR '','' s = f0 # f1 # f2 # f3 # f4 # f5 # f6 # f7 # rest"
    and "str_first f0 = CHR ''$''" "take 3 (drop 3 f0) = ''GGA''"
    and "2 \<le> length f2" "stoi (take 2 f2) = Inr d1" "stod (drop 2 f2) = Inr m1"
    and "3 \<le> length f4" "stoi (take 3 f4) = Inr d2" "stod (drop 3 f4) = Inr m2"
    and "stoi f7 = Inr n"
  shows "process_nmea_line s r = (Inr (),
    \<lparr>useful = True, nr_fix = (str_first f6 \<noteq> CHR ''0''),
     lng = (if str_first f5 = CHR ''E'' then 1 else -1) * (real_of_int d2 + m2 / 60),
     lat = (if str_first f3 = CHR ''N'' then 1 else -1) * (real_of_int d1 + m1 / 60),
     n_sat = short_of_int n, north = (str_first f3 = CHR ''N''), east = (str_first f5 = CHR ''E'')\<rparr>)"
  by (rule gga_parsed [OF assms])

theorem gga_sentence_parsed_witness:
  "process_nmea_line ''$GPGGA,123519,4807.038,N,01131.000,W,1,08,0.9,545.4,M'' no_result = (Inr (),
     \<lparr>useful = True, nr_fix = True, lng = - (11 + 31 / 60), lat = 48 + 7.038 / 60, n_sat = 8,
      north = True, east = False\<rparr>)"
proof -
  let ?s = "''$GPGGA,123519,4807.038,N,01131.000,W,1,08,0.9,545.4,M''"
  have f: "split_fields CHR '','' ?s = ''$GPGGA'' # ''123519'' # ''4807.038'' # ''N'' # ''01131.000'' # ''W'' # ''1'' # ''08'' #
      [''0.9'', ''545.4'', ''M'']" by simp
  have n: "length ?s < npos" by (simp add: npos_def)
  have i: "stoi (take 2 ''4807.038'') = Inr 48" "stoi (take 3 ''01131.000'') = Inr 11" "stoi ''08'' = Inr 8"
    by (simp_all add: stoi_def is_space_def is_digit_def take_sign_def dec_val_def int_ok_def)
  have d: "stod (drop 2 ''4807.038'') = Inr 7.038" "stod (drop 3 ''01131.000'') = Inr 31"
    by (simp_all add: stod_def is_space_def is_digit_def take_sign_def dec_val_def lex_number_def frac_part_def
        exp_part_def special_number_def lower_def ten_pow_def double_range_def)
  from gga_sentence_parsed [OF n f _ _ _ i(1) d(1) _ i(2) d(2) i(3), of no_result] show ?thesis
    by (simp add: str_first_def short_of_int_def)
qed

text \<open>
  C19: What the device publishes is always one whole sentence. Starting from a device without new
  data, after any number of rounds of the thread on any input, position, fix flag and last
  result are together the complete parse of a single sentence, which does not depend on earlier
  sentences; sentences that throw or are not useful change nothing.
\<close>

theorem gps_publishes_whole_sentences:
  assumes "gps_ok g" "gps_loop n k (g, r, buf) w = (Inr (g', r', buf'), w')"
  shows "(g' = g \<or> new_data g') \<and> gps_fd g' = gps_fd g \<and>
    (new_data g' \<longrightarrow> (\<exists>s q. (\<forall>r. process_nmea_line s r = (Inr (), q)) \<and> useful q \<and> last_useful g' = q \<and>
       gps_lat g' = lat q \<and> gps_lng g' = lng q \<and> gps_fix g' = nr_fix q))"
proof -
  have "gps_ok g' \<and> gps_fd g' = gps_fd g \<and> (g' = g \<or> new_data g')"
    using assms
  proof (induction n arbitrary: g r buf w)
    case 0
    then show ?case by (simp add: io_return_def)
  next
    case (Suc n)
    obtain x w1 where x: "gps_round k (g, r, buf) w = (x, w1)" by fastforce
    obtain g1 r1 buf1 where 1: "x = Inr (g1, r1, buf1)"
      using Suc.prems(2) x by (cases x) (auto simp: io_bind_def)
    have "gps_loop n k (g1, r1, buf1) w1 = (Inr (g', r', buf'), w')"
      using Suc.prems(2) x 1 by (simp add: io_bind_def)
    then show ?case using Suc.IH gps_round_ok [OF x [unfolded 1] Suc.prems(1)] by auto
  qed
  then show ?thesis unfolding gps_ok_def by blast
qed

theorem gps_publishes_whole_sentences_witness:
  "\<exists>g' r' buf' w'. gps_loop 1 (line_kernel ''$GPGGA,,0000,S,00000,E,0,04,,,x'') (gps_new, no_result, replicate 64 0) sim0 =
     (Inr (g', r', buf'), w') \<and> new_data g' \<and> useful (last_useful g')"
proof -
  let ?k = "line_kernel ''$GPGGA,,0000,S,00000,E,0,04,,,x''"
  have ok: "gps_ok gps_new" by (simp add: gps_ok_def gps_new_def)
  let ?s = "''$GPGGA,,0000,S,00000,E,0,04,,,''"
  have f: "split_fields CHR '','' ?s = ''$GPGGA'' # [] # ''0000'' # ''S'' # ''00000'' # ''E'' # ''0'' # ''04'' #
      [[], [], []]" by simp
  have n: "length ?s < npos" by (simp add: npos_def)
  have i: "stoi (take 2 ''0000'') = Inr 0" "stoi (take 3 ''00000'') = Inr 0" "stoi ''04'' = Inr 4"
    by (simp_all add: stoi_def is_space_def is_digit_def take_sign_def dec_val_def int_ok_def)
  have d: "stod (drop 2 ''0000'') = Inr 0" "stod (drop 3 ''00000'') = Inr 0"
    by (simp_all add: stod_def is_space_def is_digit_def take_sign_def dec_val_def lex_number_def frac_part_def
        exp_part_def special_number_def lower_def ten_pow_def double_range_def)
  obtain q where q: "process_nmea_line ?s no_result = (Inr (), q)" "useful q"
    using gga_parsed [OF n f _ _ _ i(1) d(1) _ i(2) d(2) i(3), of no_result] by (simp add: str_first_def)
  define buf where "buf = store (replicate 64 (0 :: u8)) (take GPS_INTERNAL_BUFFER (map (\<lambda>c. of_nat (of_char c)) (?s @ ''x'')))"
  have b: "put_nul (int (length (?s @ ''x'')) - 1) buf = Inr (buf[30 := 0])" "buf_text (buf[30 := 0]) = ?s"
    by (simp_all add: buf_def put_nul_def buf_text_def store_def GPS_INTERNAL_BUFFER_def char_of_def bit_0)
  have line: "gps_line ?s (gps_new, no_result) = Inr (gps_take q gps_new, q)"
    by (simp add: gps_line_def q(1))
  obtain g' r' buf' w' where run: "gps_loop 1 ?k (gps_new, no_result, replicate 64 0) sim0 = (Inr (g', r', buf'), w')"
    and g': "g' = gps_take q gps_new"
    using b line
    by (simp add: gps_round_def gps_read_def line_kernel_def io_bind_def io_lift_def io_return_def buf_def)
  then have "new_data g'" using q(2) by (simp add: gps_take_def)
  with run have run: "gps_loop 1 ?k (gps_new, no_result, replicate 64 0) sim0 = (Inr (g', r', buf'), w')" "new_data g'"
    by simp_all
  from gps_publishes_whole_sentences [OF ok run(1)] run show ?thesis by blast
qed

text \<open>
  A serial line that stays silent ends the process: where the reads never return more than
  was asked for, a round of the thread runs outside its buffer exactly when its counting read
  (the second one if the first brought at most two bytes) returns nothing or fails.
\<close>

theorem gps_round_overruns:
  assumes "length buf = GPS_INTERNAL_BUFFER + 1" "\<And>f n w. rval (fst (k (Read f n) w)) \<le> int n"
  shows "fst (gps_round k (g, r, buf) w) = Inl Undefined_behaviour \<longleftrightarrow> round_count k g w \<le> 0"
proof -
  obtain buf' w' where b: "length buf' = length buf"
    and run: "gps_round k (g, r, buf) w = io_bind (io_lift (put_nul (round_count k g w - 1) buf'))
       (\<lambda>buf. io_bind (io_lift (gps_line (buf_text buf) (g, r))) (\<lambda>(g, r). io_return (g, r, buf))) w'"
    by (rule gps_round_read [of buf k g r w])
  have "round_count k g w \<le> int GPS_INTERNAL_BUFFER"
    using assms(2) by (auto simp: round_count_def split: prod.split) (metis fst_conv)
  then have put: "put_nul (round_count k g w - 1) buf' =
      (if round_count k g w \<le> 0 then Inl Undefined_behaviour else Inr (buf'[nat (round_count k g w - 1) := 0]))"
    using b assms(1) by (auto simp: put_nul_def)
  show ?thesis
  proof (cases "round_count k g w \<le> 0")
    case True
    then show ?thesis by (simp add: run put io_simps)
  next
    case False
    let ?s = "buf_text (buf'[nat (round_count k g w - 1) := 0])"
    show ?thesis
      using gps_line_fault [of ?s "(g, r)"] False
      by (cases "gps_line ?s (g, r)") (auto simp: run put io_simps)
  qed
qed

theorem gps_round_overruns_witness:
  "fst (gps_round (line_kernel []) (gps_new, no_result, replicate 1025 0) sim0) = Inl Undefined_behaviour"
  by (subst gps_round_overruns) (simp_all add: GPS_INTERNAL_BUFFER_def line_kernel_def round_count_def)

end
