(* ===== verification/Server.thy ===== *)
theory Server
  imports Sim
begin

text \<open>
  \<^verbatim>\<open>src/util/server.cpp\<close>: the broadcast server. The data pointer of the class points into the
  caller's memory, so the bytes to send are an argument of \<open>broadcast\<close> and \<open>tick\<close>. The order in
  which an \<^verbatim>\<open>unordered_set\<close> is traversed is the argument \<open>ord\<close>. \<^verbatim>\<open>exit (-1)\<close> is the fault
  \<open>Exited (-1)\<close>; what the process does on its way out is not part of the class.
\<close>

section \<open>State and operations\<close>

record server =
  sun_path :: string
  server_fd :: int
  epoll_fd :: int
  listeners :: "int set"

definition broadcast_server0 :: server where
  "broadcast_server0 = \<lparr>sun_path = [], server_fd = -1, epoll_fd = -1, listeners = {}\<rparr>"

definition EPOLLIN :: int where "EPOLLIN = 0x001"
definition EPOLLHUP :: int where "EPOLLHUP = 0x010"
definition EPOLLRDHUP :: int where "EPOLLRDHUP = 0x2000"

definition chk_bit :: "u16 \<Rightarrow> u16 \<Rightarrow> bool" where
  "chk_bit chked msk \<longleftrightarrow> chked AND msk = msk"

text \<open>A call whose negative answer ends the process with a message of at most 511 characters.\<close>

definition or_exit :: "'w kernel \<Rightarrow> request \<Rightarrow> string \<Rightarrow> ('w, int) io" where
  "or_exit k q msg w =
     (let (r, w) = ask k q w
      in if r < 0 then (Inl (Exited (-1)), call k (Perror (take 511 msg)) w) else (Inr r, w))"

definition quoted :: "string \<Rightarrow> string" where
  "quoted path = CHR 0x22 # path @ [CHR 0x22]"

definition server_init :: "'w kernel \<Rightarrow> string \<Rightarrow> int \<Rightarrow> server \<Rightarrow> ('w, server) io" where
  "server_init k path backlog sv =
     (let sv = sv\<lparr>sun_path := take 108 path\<rparr>
      in io_bind (\<lambda>w. let (r, w) = ask k (Access path) w in (Inr r, w)) (\<lambda>r.
         io_bind (if r = 0 then io_bind (or_exit k (Unlink path)
                       (''Failed to unlink previous socket at '' @ quoted path @ '' : '')) (\<lambda>_. io_return ())
                  else io_return ()) (\<lambda>_.
         io_bind (or_exit k (Socket 1 5 0) (''Failed to create socket at '' @ quoted path @ '' : '')) (\<lambda>s.
         io_bind (or_exit k (Bind s (Sockaddr_un (sun_path sv)))
                    (''Failed to bind socket at '' @ quoted path @ '' : '')) (\<lambda>_.
         io_bind (or_exit k (Listen s backlog) (''Listen failed; Socket at '' @ quoted path @ '' : '')) (\<lambda>_.
         io_bind (or_exit k Epoll_create
                    (''Epoll struct creation failed; Socket at '' @ quoted path @ '' : '')) (\<lambda>e.
         io_bind (or_exit k (Epoll_add e s EPOLLIN)
                    (''Failed to add epoll event; Socket at '' @ quoted path @ '' : '')) (\<lambda>_.
         io_return (sv\<lparr>server_fd := s, epoll_fd := e\<rparr>)))))))))"

primrec close_all :: "'w kernel \<Rightarrow> int list \<Rightarrow> 'w \<Rightarrow> 'w" where
  "close_all k [] w = w"
| "close_all k (f # fs) w = close_all k fs (call k (Close f) w)"

definition clean_up :: "'w kernel \<Rightarrow> (int set \<Rightarrow> int list) \<Rightarrow> server \<Rightarrow> ('w, unit) io" where
  "clean_up k ord sv w =
     (let w = close_all k (ord (listeners sv)) w;
          w = (if epoll_fd sv \<ge> 0 then call k (Close (epoll_fd sv)) w else w);
          w = (if server_fd sv \<ge> 0 then call k (Close (server_fd sv)) w else w)
      in if length (sun_path sv) = 108 then (Inl Undefined_behaviour, w)
         else
           (let (r, w) = ask k (Access (sun_path sv)) w
            in if r = 0 then
                 (let (r, w) = ask k (Unlink (sun_path sv)) w
                  in (Inr (), if r < 0 then call k (Perror (take 511
                        (''Failed to unlink socket at '' @ quoted (sun_path sv) @ '' : ''))) w else w))
               else (Inr (), w)))"

primrec send_all :: "'w kernel \<Rightarrow> bytes \<Rightarrow> int list \<Rightarrow> ('w, unit) io" where
  "send_all k data [] = io_return ()"
| "send_all k data (f # fs) =
     io_bind (\<lambda>w. let (n_sent, w) = ask k (Send f data) w
                  in if n_sent \<noteq> int (length data)
                     then (Inl (Exited (-1)), call k (Perror ''Failed to send data : '') w)
                     else (Inr (), w)) (\<lambda>_. send_all k data fs)"

definition broadcast :: "'w kernel \<Rightarrow> (int set \<Rightarrow> int list) \<Rightarrow> bytes \<Rightarrow> server \<Rightarrow> ('w, unit) io" where
  "broadcast k ord data sv = send_all k data (ord (listeners sv))"

definition handle_event :: "'w kernel \<Rightarrow> int \<times> int \<Rightarrow> server \<Rightarrow> ('w, server) io" where
  "handle_event k ev sv =
     (case ev of (events, f) \<Rightarrow>
        if f = server_fd sv \<and> chk_bit (word_of_int events) (word_of_int EPOLLIN) then
          io_bind (or_exit k (Accept (server_fd sv)) ''Failed to accept client : '') (\<lambda>client_fd.
          let sv = sv\<lparr>listeners := insert client_fd (listeners sv)\<rparr>
          in io_bind (or_exit k (Epoll_add (epoll_fd sv) client_fd (EPOLLHUP OR EPOLLRDHUP))
                        ''Failed to add client to polling structure : '') (\<lambda>_.
             io_return sv))
        else
          (let sv = sv\<lparr>listeners := listeners sv - {f}\<rparr>
           in io_bind (or_exit k (Epoll_del (epoll_fd sv) f)
                         ''Failed to remove client from polling structure :'') (\<lambda>_.
              io_bind (io_act (call k (Close f))) (\<lambda>_.
              io_return sv))))"

primrec handle_list :: "'w kernel \<Rightarrow> (int \<times> int) list \<Rightarrow> server \<Rightarrow> ('w, server) io" where
  "handle_list k [] sv = io_return sv"
| "handle_list k (ev # evs) sv = io_bind (handle_event k ev sv) (handle_list k evs)"

text \<open>The polling call fills the first entries of the array; its answer is their number.\<close>

definition handle_events :: "'w kernel \<Rightarrow> server \<Rightarrow> ('w, server) io" where
  "handle_events k sv w =
     (let (a, w) = k (Epoll_wait (epoll_fd sv) 10) w
      in if rval a < 0 then (Inl (Exited (-1)), call k (Perror ''Failed to poll the polling structure :'') w)
         else handle_list k (take (nat (rval a)) (revents a)) sv w)"

definition server_tick :: "'w kernel \<Rightarrow> (int set \<Rightarrow> int list) \<Rightarrow> bytes \<Rightarrow> server \<Rightarrow> ('w, server) io" where
  "server_tick k ord data sv =
     io_bind (handle_events k sv) (\<lambda>sv. io_bind (broadcast k ord data sv) (\<lambda>_. io_return sv))"

text \<open>A server that is ticked once for each of the given contents of its buffer.\<close>

primrec server_run :: "'w kernel \<Rightarrow> (int set \<Rightarrow> int list) \<Rightarrow> bytes list \<Rightarrow> server \<Rightarrow> ('w, server) io" where
  "server_run k ord [] sv = io_return sv"
| "server_run k ord (d # ds) sv = io_bind (server_tick k ord d sv) (server_run k ord ds)"

section \<open>Descriptors\<close>

text \<open>
  The documented behaviour of the descriptor calls, over what can be seen of a world: the open
  descriptors, the descriptors each polling structure watches, and the packets delivered so far.
\<close>

record 'w fd_view =
  opn :: "'w \<Rightarrow> int set"
  lst :: "'w \<Rightarrow> int set"
  pol :: "'w \<Rightarrow> int \<Rightarrow> int set"
  sent :: "'w \<Rightarrow> (int \<times> bytes) list"

definition view_is :: "'w fd_view \<Rightarrow> 'w \<Rightarrow> int set \<Rightarrow> int set \<Rightarrow> (int \<Rightarrow> int set) \<Rightarrow> (int \<times> bytes) list \<Rightarrow> bool" where
  "view_is v w op li po se \<longleftrightarrow> opn v w = op \<and> lst v w = li \<and> pol v w = po \<and> sent v w = se"

definition fd_answer :: "'w fd_view \<Rightarrow> request \<Rightarrow> 'w \<Rightarrow> answer \<Rightarrow> 'w \<Rightarrow> bool" where
  "fd_answer v q w a w' =
     (let r = rval a; op = opn v w; li = lst v w; po = pol v w; se = sent v w;
          same = view_is v w' op li po se; fresh = r \<notin> op
      in case q of
        Open p \<Rightarrow> if r < 0 then same else fresh \<and> view_is v w' (insert r op) (li - {r}) po se
      | Socket d t p \<Rightarrow> if r < 0 then same else fresh \<and> view_is v w' (insert r op) (li - {r}) po se
      | Accept s \<Rightarrow> if r < 0 then same else fresh \<and> view_is v w' (insert r op) (li - {r}) po se
      | Epoll_create \<Rightarrow> if r < 0 then same else fresh \<and> view_is v w' (insert r op) (li - {r}) (po(r := {})) se
      | Listen s b \<Rightarrow> if r < 0 then same else view_is v w' op (insert s li) po se
      | Epoll_add e f m \<Rightarrow> if r < 0 then same else view_is v w' op li (po(e := insert f (po e))) se
      | Epoll_del e f \<Rightarrow> if r < 0 then same else view_is v w' op li (po(e := po e - {f})) se
      | Close f \<Rightarrow> view_is v w' (op - {f}) (li - {f}) (\<lambda>e. po e - {f}) se
      | Send f d \<Rightarrow> view_is v w' op li po (if r = int (length d) then se @ [(f, d)] else se)
      | Epoll_wait e n \<Rightarrow>
          same \<and> (0 \<le> r \<longrightarrow> distinct (map snd (revents a)) \<and> snd ` set (revents a) \<subseteq> po e \<and>
            (\<forall>(m, f) \<in> set (revents a). f \<in> li \<longrightarrow> chk_bit (word_of_int m) (word_of_int EPOLLIN)))
      | _ \<Rightarrow> same)"

definition fd_kernel :: "'w kernel \<Rightarrow> 'w fd_view \<Rightarrow> bool" where
  "fd_kernel k v \<longleftrightarrow> (\<forall>q w. fd_answer v q w (fst (k q w)) (snd (k q w)))"

lemma fd_kernelD: "fd_kernel k v \<Longrightarrow> k q w = (a, w') \<Longrightarrow> fd_answer v q w a w'"
  unfolding fd_kernel_def by (metis fst_conv snd_conv)

lemma or_exit_cases:
  assumes "or_exit k q msg w = (x, w')"
  obtains a where "k q w = (a, w')" "0 \<le> rval a" "x = Inr (rval a)"
  | a w1 where "k q w = (a, w1)" "rval a < 0" "x = Inl (Exited (-1))" "w' = call k (Perror (take 511 msg)) w1"
  using assms by (auto simp: or_exit_def ask_def Let_def split: prod.splits if_splits)

lemma or_exit_Inr:
  assumes "or_exit k q msg w = (Inr r, w')"
  obtains a where "k q w = (a, w')" "rval a = r" "0 \<le> r"
  using assms by (rule or_exit_cases) auto

section \<open>The invariant\<close>

text \<open>
  A running server: its two descriptors and those of its clients are open and different, the
  server socket listens, and the polling structure watches it and the clients and nothing else.
\<close>

definition server_ok :: "'w fd_view \<Rightarrow> server \<Rightarrow> 'w \<Rightarrow> bool" where
  "server_ok v sv w \<longleftrightarrow>
     finite (listeners sv) \<and> 0 \<le> server_fd sv \<and> 0 \<le> epoll_fd sv \<and> server_fd sv \<noteq> epoll_fd sv \<and>
     server_fd sv \<notin> listeners sv \<and> epoll_fd sv \<notin> listeners sv \<and>
     insert (server_fd sv) (insert (epoll_fd sv) (listeners sv)) \<subseteq> opn v w \<and>
     server_fd sv \<in> lst v w \<and> pol v w (epoll_fd sv) = insert (server_fd sv) (listeners sv)"

text \<open>What a step may not touch: the fixed fields and the descriptors of others.\<close>

definition server_frame :: "'w fd_view \<Rightarrow> server \<Rightarrow> 'w \<Rightarrow> server \<Rightarrow> 'w \<Rightarrow> bool" where
  "server_frame v sv w sv' w' \<longleftrightarrow>
     sun_path sv' = sun_path sv \<and> server_fd sv' = server_fd sv \<and> epoll_fd sv' = epoll_fd sv \<and>
     opn v w' - listeners sv' = opn v w - listeners sv"

lemma server_frame_trans:
  "server_frame v a w b w' \<Longrightarrow> server_frame v b w' c w'' \<Longrightarrow> server_frame v a w c w''"
  by (simp add: server_frame_def)

lemma handle_event_ok:
  assumes "fd_kernel k v" "server_ok v sv w" "f \<in> pol v w (epoll_fd sv)"
    and "f = server_fd sv \<longrightarrow> chk_bit (word_of_int m) (word_of_int EPOLLIN)"
    and "handle_event k (m, f) sv w = (Inr sv', w')"
  shows "server_ok v sv' w' \<and> server_frame v sv w sv' w' \<and> sent v w' = sent v w \<and>
    pol v w (epoll_fd sv) - {f} \<subseteq> pol v w' (epoll_fd sv')"
proof (cases "f = server_fd sv")
  case True
  with assms(4,5) obtain c w1 x w2
    where 1: "or_exit k (Accept (server_fd sv)) ''Failed to accept client : '' w = (Inr c, w1)"
      and 2: "or_exit k (Epoll_add (epoll_fd sv) c (EPOLLHUP OR EPOLLRDHUP))
        ''Failed to add client to polling structure : '' w1 = (Inr x, w2)"
      and e: "sv' = sv\<lparr>listeners := insert c (listeners sv)\<rparr>" "w' = w2"
    by (auto simp: handle_event_def Let_def io_return_def elim!: io_bind_InrE)
  obtain a where a: "k (Accept (server_fd sv)) w = (a, w1)" "rval a = c" "0 \<le> c"
    using 1 by (rule or_exit_Inr)
  obtain b where b: "k (Epoll_add (epoll_fd sv) c (EPOLLHUP OR EPOLLRDHUP)) w1 = (b, w2)" "rval b = x" "0 \<le> x"
    using 2 by (rule or_exit_Inr)
  show ?thesis
    using fd_kernelD [OF assms(1) a(1)] fd_kernelD [OF assms(1) b(1)] a(2,3) b(2,3) assms(2) e
    by (auto simp: fd_answer_def view_is_def Let_def server_ok_def server_frame_def)
next
  case False
  with assms(5) obtain x w1 where 1: "or_exit k (Epoll_del (epoll_fd sv) f) ''Failed to remove client from polling structure :'' w = (Inr x, w1)"
    and e: "sv' = sv\<lparr>listeners := listeners sv - {f}\<rparr>" "w' = call k (Close f) w1"
    by (auto simp: handle_event_def Let_def io_act_def io_return_def elim!: io_bind_InrE)
  obtain a where a: "k (Epoll_del (epoll_fd sv) f) w = (a, w1)" "rval a = x" "0 \<le> x"
    using 1 by (rule or_exit_Inr)
  obtain b where b: "k (Close f) w1 = (b, w')" using e(2) by (cases "k (Close f) w1") (simp add: call_def)
  have f: "f \<in> listeners sv" using assms(2,3) False by (simp add: server_ok_def)
  show ?thesis
    using fd_kernelD [OF assms(1) a(1)] fd_kernelD [OF assms(1) b(1)] a(2,3) assms(2) e(1) f False
    by (auto simp: fd_answer_def view_is_def Let_def server_ok_def server_frame_def)
qed

lemma handle_list_ok:
  assumes "fd_kernel k v" "server_ok v sv w" "snd ` set evs \<subseteq> pol v w (epoll_fd sv)" "distinct (map snd evs)"
    and "\<forall>(m, f) \<in> set evs. f = server_fd sv \<longrightarrow> chk_bit (word_of_int m) (word_of_int EPOLLIN)"
    and "handle_list k evs sv w = (Inr sv', w')"
  shows "server_ok v sv' w' \<and> server_frame v sv w sv' w' \<and> sent v w' = sent v w"
  using assms(2-6)
proof (induction evs arbitrary: sv w)
  case Nil
  then show ?case by (simp add: io_return_def server_frame_def)
next
  case (Cons ev evs)
  obtain m f where ev: "ev = (m, f)" by (cases ev)
  from Cons.prems(5) obtain sv1 w1 where 1: "handle_event k (m, f) sv w = (Inr sv1, w1)"
    and 2: "handle_list k evs sv1 w1 = (Inr sv', w')" by (auto simp: ev elim!: io_bind_InrE)
  have s: "server_ok v sv1 w1 \<and> server_frame v sv w sv1 w1 \<and> sent v w1 = sent v w \<and>
      pol v w (epoll_fd sv) - {f} \<subseteq> pol v w1 (epoll_fd sv1)"
    using Cons.prems(2,4) by (intro handle_event_ok [OF assms(1) Cons.prems(1) _ _ 1]) (auto simp: ev)
  have "f \<notin> snd ` set evs" using Cons.prems(3) by (simp add: ev)
  then have "snd ` set evs \<subseteq> pol v w (epoll_fd sv) - {f}" using Cons.prems(2) by (auto simp: ev)
  then have sub: "snd ` set evs \<subseteq> pol v w1 (epoll_fd sv1)" using s by blast
  have "server_ok v sv' w' \<and> server_frame v sv1 w1 sv' w' \<and> sent v w' = sent v w1"
    using s Cons.prems(3,4) by (intro Cons.IH [OF _ sub _ _ 2]) (auto simp: ev server_frame_def)
  then show ?case using s server_frame_trans by fastforce
qed

text \<open>Requests that change nothing that can be seen here.\<close>

lemma fd_call_same:
  assumes "fd_kernel k v" "case q of Perror m \<Rightarrow> True | Access p \<Rightarrow> True | Unlink p \<Rightarrow> True | Bind s a \<Rightarrow> True | _ \<Rightarrow> False"
    and "k q w = (a, w')"
  shows "view_is v w' (opn v w) (lst v w) (pol v w) (sent v w)"
  using fd_kernelD [OF assms(1,3)] assms(2) by (cases q) (simp_all add: fd_answer_def Let_def)

lemma fd_call_same':
  assumes "fd_kernel k v" "case q of Perror m \<Rightarrow> True | Access p \<Rightarrow> True | Unlink p \<Rightarrow> True | Bind s a \<Rightarrow> True | _ \<Rightarrow> False"
  shows "view_is v (call k q w) (opn v w) (lst v w) (pol v w) (sent v w)"
  using fd_call_same [OF assms, of w "fst (k q w)" "snd (k q w)"] by (simp add: call_def)

lemma handle_events_ok:
  assumes "fd_kernel k v" "server_ok v sv w" "handle_events k sv w = (Inr sv', w')"
  shows "server_ok v sv' w' \<and> server_frame v sv w sv' w' \<and> sent v w' = sent v w"
proof -
  obtain a w1 where a: "k (Epoll_wait (epoll_fd sv) 10) w = (a, w1)" by fastforce
  with assms(3) have r: "0 \<le> rval a" and l: "handle_list k (take (nat (rval a)) (revents a)) sv w1 = (Inr sv', w')"
    by (auto simp: handle_events_def split: if_splits)
  have v1: "view_is v w1 (opn v w) (lst v w) (pol v w) (sent v w)"
    and d: "distinct (map snd (revents a))" and sub: "snd ` set (revents a) \<subseteq> pol v w (epoll_fd sv)"
    and c: "\<forall>(m, f) \<in> set (revents a). f \<in> lst v w \<longrightarrow> chk_bit (word_of_int m) (word_of_int EPOLLIN)"
    using fd_kernelD [OF assms(1) a] r by (auto simp: fd_answer_def Let_def)
  have ok1: "server_ok v sv w1" using assms(2) v1 by (simp add: server_ok_def view_is_def)
  have "server_ok v sv' w' \<and> server_frame v sv w1 sv' w' \<and> sent v w' = sent v w1"
  proof (rule handle_list_ok [OF assms(1) ok1 _ _ _ l])
    show "snd ` set (take (nat (rval a)) (revents a)) \<subseteq> pol v w1 (epoll_fd sv)"
      using sub v1 by (auto simp: view_is_def dest!: in_set_takeD)
    show "distinct (map snd (take (nat (rval a)) (revents a)))"
      using d by (simp add: take_map [symmetric])
    show "\<forall>(m, f) \<in> set (take (nat (rval a)) (revents a)). f = server_fd sv \<longrightarrow>
        chk_bit (word_of_int m) (word_of_int EPOLLIN)"
      using c assms(2) by (auto simp: server_ok_def dest!: in_set_takeD)
  qed
  then show ?thesis using v1 by (simp add: view_is_def server_frame_def)
qed

lemma send_all_cases:
  assumes "fd_kernel k v" "send_all k data fs w = (x, w')"
  shows "opn v w' = opn v w \<and> lst v w' = lst v w \<and> pol v w' = pol v w \<and>
    (case x of
       Inr _ \<Rightarrow> sent v w' = sent v w @ map (\<lambda>f. (f, data)) fs
     | Inl e \<Rightarrow> e = Exited (-1) \<and> (\<exists>pre f post w1. fs = pre @ f # post \<and>
         rval (fst (k (Send f data) w1)) \<noteq> int (length data) \<and>
         sent v w' = sent v w @ map (\<lambda>f. (f, data)) pre))"
  using assms(2)
proof (induction fs arbitrary: w)
  case Nil
  then show ?case by (auto simp: io_return_def)
next
  case (Cons f fs)
  obtain a w1 where a: "k (Send f data) w = (a, w1)" by fastforce
  note v1 = fd_kernelD [OF assms(1) a]
  show ?case
  proof (cases "rval a = int (length data)")
    case True
    then have "send_all k data fs w1 = (x, w')"
      using Cons.prems a by (simp add: io_bind_def ask_def)
    from Cons.IH [OF this] show ?thesis
      using v1 True by (cases x) (auto simp: fd_answer_def view_is_def Let_def intro: exI [of _ "f # _"], metis append_Cons list.simps(9))
  next
    case False
    then have x: "x = Inl (Exited (-1))" "w' = call k (Perror ''Failed to send data : '') w1"
      using Cons.prems a by (simp_all add: io_bind_def ask_def)
    have "view_is v w' (opn v w1) (lst v w1) (pol v w1) (sent v w1)"
      unfolding x(2) by (rule fd_call_same' [OF assms(1)]) simp
    moreover have "\<exists>pre g post w1. f # fs = pre @ g # post \<and> rval (fst (k (Send g data) w1)) \<noteq> int (length data) \<and>
        sent v w = sent v w @ map (\<lambda>f. (f, data)) pre"
      using a False by (intro exI [of _ "[]"] exI [of _ f] exI [of _ fs] exI [of _ w]) simp
    ultimately show ?thesis
      using v1 False x(1) by (simp add: fd_answer_def view_is_def Let_def)
  qed
qed

definition iteration_order :: "(int set \<Rightarrow> int list) \<Rightarrow> bool" where
  "iteration_order ord \<longleftrightarrow> (\<forall>S. finite S \<longrightarrow> set (ord S) = S \<and> distinct (ord S))"

lemma server_tick_ok:
  assumes "fd_kernel k v" "iteration_order ord" "server_ok v sv w" "server_tick k ord data sv w = (Inr sv', w')"
  shows "server_ok v sv' w' \<and> server_frame v sv w sv' w' \<and>
    sent v w' = sent v w @ map (\<lambda>f. (f, data)) (ord (listeners sv'))"
proof -
  from assms(4) obtain w1 where 1: "handle_events k sv w = (Inr sv', w1)"
    and 2: "send_all k data (ord (listeners sv')) w1 = (Inr (), w')"
    by (auto simp: server_tick_def broadcast_def io_return_def elim!: io_bind_InrE)
  note h = handle_events_ok [OF assms(1,3) 1]
  from send_all_cases [OF assms(1) 2] h show ?thesis
    by (auto simp: server_ok_def server_frame_def)
qed

lemma server_run_ok:
  assumes "fd_kernel k v" "iteration_order ord" "server_ok v sv w" "server_run k ord ds sv w = (Inr sv', w')"
  shows "server_ok v sv' w' \<and> server_frame v sv w sv' w'"
  using assms(3,4)
proof (induction ds arbitrary: sv w)
  case Nil
  then show ?case by (simp add: io_return_def server_frame_def)
next
  case (Cons d ds)
  then obtain sv1 w1 where 1: "server_tick k ord d sv w = (Inr sv1, w1)" and 2: "server_run k ord ds sv1 w1 = (Inr sv', w')"
    by (auto elim!: io_bind_InrE)
  have t: "server_ok v sv1 w1" "server_frame v sv w sv1 w1"
    using server_tick_ok [OF assms(1,2) Cons.prems(1) 1] by simp_all
  show ?case
    using Cons.IH [OF t(1) 2] server_frame_trans [OF t(2)] by simp
qed

lemma server_init_ok:
  assumes "fd_kernel k v" "listeners sv = {}" "server_init k path bl sv w = (Inr sv', w')"
  shows "server_ok v sv' w' \<and> listeners sv' = {} \<and> sun_path sv' = take 108 path \<and> sent v w' = sent v w \<and>
    opn v w' = insert (server_fd sv') (insert (epoll_fd sv') (opn v w)) \<and>
    server_fd sv' \<notin> opn v w \<and> epoll_fd sv' \<notin> opn v w"
proof -
  let ?sv = "sv\<lparr>sun_path := take 108 path\<rparr>"
  from assms(3) obtain w1 w2 so w3 b w4 l w5 e w6 x w7 where
    1: "(\<lambda>w. let (r, w) = ask k (Access path) w in (Inr r, w)) w = (Inr (rval (fst (k (Access path) w))), w1)"
    and 2: "(if rval (fst (k (Access path) w)) = 0
        then io_bind (or_exit k (Unlink path) (''Failed to unlink previous socket at '' @ quoted path @ '' : '')) (\<lambda>_. io_return ())
        else io_return ()) w1 = (Inr (), w2)"
    and 3: "or_exit k (Socket 1 5 0) (''Failed to create socket at '' @ quoted path @ '' : '') w2 = (Inr so, w3)"
    and 4: "or_exit k (Bind so (Sockaddr_un (take 108 path))) (''Failed to bind socket at '' @ quoted path @ '' : '') w3 = (Inr b, w4)"
    and 5: "or_exit k (Listen so bl) (''Listen failed; Socket at '' @ quoted path @ '' : '') w4 = (Inr l, w5)"
    and 6: "or_exit k Epoll_create (''Epoll struct creation failed; Socket at '' @ quoted path @ '' : '') w5 = (Inr e, w6)"
    and 7: "or_exit k (Epoll_add e so EPOLLIN) (''Failed to add epoll event; Socket at '' @ quoted path @ '' : '') w6 = (Inr x, w7)"
    and 8: "sv' = ?sv\<lparr>server_fd := so, epoll_fd := e\<rparr>" "w' = w7"
    by (auto simp: server_init_def Let_def io_return_def ask_def case_prod_unfold elim!: io_bind_InrE)
  have v1: "view_is v w1 (opn v w) (lst v w) (pol v w) (sent v w)"
  proof -
    have "w1 = call k (Access path) w" using 1 by (simp add: ask_def case_prod_unfold Let_def call_def)
    then show ?thesis using fd_call_same' [OF assms(1), of "Access path" w] by simp
  qed
  have v2: "view_is v w2 (opn v w1) (lst v w1) (pol v w1) (sent v w1)"
  proof (cases "rval (fst (k (Access path) w)) = 0")
    case True
    with 2 obtain y where "or_exit k (Unlink path) (''Failed to unlink previous socket at '' @ quoted path @ '' : '') w1 = (Inr y, w2)"
      by (auto simp: io_return_def elim!: io_bind_InrE)
    then obtain a where "k (Unlink path) w1 = (a, w2)" by (rule or_exit_Inr)
    from fd_call_same [OF assms(1) _ this] show ?thesis by simp
  next
    case False
    with 2 show ?thesis by (simp add: io_return_def view_is_def)
  qed
  obtain a3 where a3: "k (Socket 1 5 0) w2 = (a3, w3)" "rval a3 = so" "0 \<le> so" using 3 by (rule or_exit_Inr)
  obtain a4 where a4: "k (Bind so (Sockaddr_un (take 108 path))) w3 = (a4, w4)" using 4 by (rule or_exit_Inr)
  obtain a5 where a5: "k (Listen so bl) w4 = (a5, w5)" "rval a5 = l" "0 \<le> l" using 5 by (rule or_exit_Inr)
  obtain a6 where a6: "k Epoll_create w5 = (a6, w6)" "rval a6 = e" "0 \<le> e" using 6 by (rule or_exit_Inr)
  obtain a7 where a7: "k (Epoll_add e so EPOLLIN) w6 = (a7, w7)" "rval a7 = x" "0 \<le> x" using 7 by (rule or_exit_Inr)
  have v4: "view_is v w4 (opn v w3) (lst v w3) (pol v w3) (sent v w3)"
    using fd_call_same [OF assms(1) _ a4] by simp
  note D = fd_kernelD [OF assms(1)]
  have v3: "so \<notin> opn v w2" "opn v w3 = insert so (opn v w2)" "sent v w3 = sent v w2"
    using D [OF a3(1)] a3(2,3) by (auto simp: fd_answer_def view_is_def Let_def)
  have v5: "opn v w5 = opn v w4" "lst v w5 = insert so (lst v w4)" "sent v w5 = sent v w4"
    using D [OF a5(1)] a5(2,3) by (auto simp: fd_answer_def view_is_def Let_def)
  have v6: "e \<notin> opn v w5" "opn v w6 = insert e (opn v w5)" "lst v w6 = lst v w5 - {e}" "pol v w6 e = {}" "sent v w6 = sent v w5"
    using D [OF a6(1)] a6(2,3) by (auto simp: fd_answer_def view_is_def Let_def)
  have v7: "opn v w7 = opn v w6" "lst v w7 = lst v w6" "pol v w7 e = insert so (pol v w6 e)" "sent v w7 = sent v w6"
    using D [OF a7(1)] a7(2,3) by (auto simp: fd_answer_def view_is_def Let_def)
  show ?thesis
    using v1 v2 v3 v4 v5 v6 v7 8 a3(3) a6(3) assms(2)
    by (auto simp: view_is_def server_ok_def)
qed

lemma close_all_view:
  assumes "fd_kernel k v"
  shows "opn v (close_all k fs w) = opn v w - set fs \<and> sent v (close_all k fs w) = sent v w"
proof (induction fs arbitrary: w)
  case (Cons f fs)
  then show ?case
    using fd_kernelD [OF assms, of "Close f" w "fst (k (Close f) w)" "snd (k (Close f) w)"]
    by (auto simp: call_def fd_answer_def view_is_def Let_def)
qed simp

lemma clean_up_ok:
  assumes "fd_kernel k v" "iteration_order ord" "server_ok v sv w" "length (sun_path sv) < 108"
  shows "\<exists>w'. clean_up k ord sv w = (Inr (), w') \<and> sent v w' = sent v w \<and>
    opn v w' = opn v w - insert (server_fd sv) (insert (epoll_fd sv) (listeners sv))"
proof -
  let ?w1 = "close_all k (ord (listeners sv)) w"
  let ?w2 = "call k (Close (epoll_fd sv)) ?w1"
  let ?w3 = "call k (Close (server_fd sv)) ?w2"
  have close: "opn v (call k (Close f) w) = opn v w - {f} \<and> sent v (call k (Close f) w) = sent v w" for f w
    using close_all_view [OF assms(1), of "[f]" w] by simp
  have ord: "set (ord (listeners sv)) = listeners sv"
    using assms(2,3) by (simp add: iteration_order_def server_ok_def)
  have w3: "opn v ?w3 = opn v w - insert (server_fd sv) (insert (epoll_fd sv) (listeners sv))" "sent v ?w3 = sent v w"
    using close close_all_view [OF assms(1), of "ord (listeners sv)" w] ord by auto
  obtain a w4 where a: "k (Access (sun_path sv)) ?w3 = (a, w4)" by fastforce
  have v4: "view_is v w4 (opn v ?w3) (lst v ?w3) (pol v ?w3) (sent v ?w3)"
    using fd_call_same [OF assms(1) _ a] by simp
  obtain b w5 where b: "k (Unlink (sun_path sv)) w4 = (b, w5)" by fastforce
  have v5: "view_is v w5 (opn v w4) (lst v w4) (pol v w4) (sent v w4)"
    using fd_call_same [OF assms(1) _ b] by simp
  have v6: "view_is v (call k (Perror m) w5) (opn v w5) (lst v w5) (pol v w5) (sent v w5)" for m
    by (rule fd_call_same' [OF assms(1)]) simp
  have "0 \<le> server_fd sv" "0 \<le> epoll_fd sv" using assms(3) by (simp_all add: server_ok_def)
  then have run: "clean_up k ord sv w = (Inr (), if rval a = 0 then
       (if rval b < 0 then call k (Perror (take 511 (''Failed to unlink socket at '' @ quoted (sun_path sv) @ '' : ''))) w5 else w5)
       else w4)"
    using assms(4) a b by (simp add: clean_up_def ask_def Let_def)
  show ?thesis
    using v4 v5 v6 w3 unfolding run by (auto simp: view_is_def)
qed

section \<open>An example world\<close>

text \<open>
  The documented behaviour can be had: a world that is the view itself, with a script of pending
  events, and new descriptors above every old one.
\<close>

record fds =
  f_opn :: "int set"
  f_lst :: "int set"
  f_pol :: "int \<Rightarrow> int set"
  f_sent :: "(int \<times> bytes) list"
  f_next :: int
  f_events :: "(int \<times> int) list list"

definition fds_fresh :: "fds \<Rightarrow> answer \<times> fds" where
  "fds_fresh w =
     (if f_next w \<in> f_opn w \<or> f_next w < 0 then (answer_of (-1), w)
      else (answer_of (f_next w), w\<lparr>f_opn := insert (f_next w) (f_opn w), f_lst := f_lst w - {f_next w},
              f_next := f_next w + 1\<rparr>))"

definition fds_ready :: "fds \<Rightarrow> int \<Rightarrow> (int \<times> int) list \<Rightarrow> bool" where
  "fds_ready w e evs \<longleftrightarrow> distinct (map snd evs) \<and> snd ` set evs \<subseteq> f_pol w e \<and>
     (\<forall>(m, f) \<in> set evs. f \<in> f_lst w \<longrightarrow> chk_bit (word_of_int m) (word_of_int EPOLLIN))"

fun fds_kernel :: "fds kernel" where
  "fds_kernel (Open p) w = fds_fresh w"
| "fds_kernel (Socket d t p) w = fds_fresh w"
| "fds_kernel (Accept s) w = fds_fresh w"
| "fds_kernel Epoll_create w =
     (case fds_fresh w of (a, w') \<Rightarrow>
        (a, if rval a < 0 then w' else w'\<lparr>f_pol := (f_pol w')(rval a := {})\<rparr>))"
| "fds_kernel (Listen s b) w = (answer_of 0, w\<lparr>f_lst := insert s (f_lst w)\<rparr>)"
| "fds_kernel (Epoll_add e f m) w = (answer_of 0, w\<lparr>f_pol := (f_pol w)(e := insert f (f_pol w e))\<rparr>)"
| "fds_kernel (Epoll_del e f) w = (answer_of 0, w\<lparr>f_pol := (f_pol w)(e := f_pol w e - {f})\<rparr>)"
| "fds_kernel (Close f) w =
     (answer_of 0, w\<lparr>f_opn := f_opn w - {f}, f_lst := f_lst w - {f}, f_pol := (\<lambda>e. f_pol w e - {f})\<rparr>)"
| "fds_kernel (Send f d) w = (answer_of (int (length d)), w\<lparr>f_sent := f_sent w @ [(f, d)]\<rparr>)"
| "fds_kernel (Epoll_wait e n) w =
     (case f_events w of
        [] \<Rightarrow> (answer_of 0, w)
      | evs # rest \<Rightarrow>
          if fds_ready w e evs
          then ((answer_of (int (length evs)))\<lparr>revents := evs\<rparr>, w\<lparr>f_events := rest\<rparr>)
          else (answer_of 0, w))"
| "fds_kernel q w = (answer_of 1, w)"

definition fds_view :: "fds fd_view" where
  "fds_view = \<lparr>opn = f_opn, lst = f_lst, pol = f_pol, sent = f_sent\<rparr>"

lemma fds_kernel_ok: "fd_kernel fds_kernel fds_view"
  unfolding fd_kernel_def
proof (intro allI)
  fix q w
  show "fd_answer fds_view q w (fst (fds_kernel q w)) (snd (fds_kernel q w))"
    by (cases q) (auto simp: fd_answer_def fds_view_def view_is_def fds_fresh_def fds_ready_def Let_def
        split: list.split)
qed

definition fds0 :: fds where
  "fds0 = \<lparr>f_opn = {0, 1, 2}, f_lst = {}, f_pol = (\<lambda>_. {}), f_sent = [], f_next = 3,
     f_events = [[(1, 3)], [(1, 3)], [(0x2010, 5)]]\<rparr>"

lemma ascending_order: "iteration_order sorted_list_of_set"
  by (simp add: iteration_order_def)

lemmas server_eval = server_init_def server_tick_def handle_events_def handle_event_def broadcast_def
  or_exit_def ask_def call_def io_bind_def io_return_def io_act_def Let_def broadcast_server0_def
  fds0_def fds_fresh_def fds_ready_def chk_bit_def EPOLLIN_def insert_Diff_if

section \<open>Properties\<close>

text \<open>
  C16: On an operating system that does as it is documented, a tick of a running server that does
  not end the process keeps the invariant: its own sockets stay open and listening, it watches
  exactly its clients, every descriptor it has accepted is a client or closed again and no other
  descriptor is touched. And it delivers exactly one copy of the buffer to every client that is
  connected after the events have been handled.
\<close>

theorem server_tick_serves:
  assumes "fd_kernel k v" "iteration_order ord" "server_ok v sv w"
    and "server_tick k ord data sv w = (Inr sv', w')"
  shows "server_ok v sv' w' \<and> opn v w' - listeners sv' = opn v w - listeners sv \<and>
    (\<exists>fs. distinct fs \<and> set fs = listeners sv' \<and> sent v w' = sent v w @ map (\<lambda>f. (f, data)) fs)"
proof -
  note t = server_tick_ok [OF assms]
  then have "finite (listeners sv')" by (simp add: server_ok_def)
  then have "set (ord (listeners sv')) = listeners sv' \<and> distinct (ord (listeners sv'))"
    using assms(2) by (simp add: iteration_order_def)
  then show ?thesis using t by (auto simp: server_frame_def intro: exI [of _ "ord (listeners sv')"])
qed

theorem server_tick_serves_witness:
  "\<exists>sv' w' fs. server_tick fds_kernel sorted_list_of_set [9]
       \<lparr>sun_path = ''/tmp/a'', server_fd = 3, epoll_fd = 4, listeners = {5}\<rparr>
       (fds0\<lparr>f_opn := {0, 3, 4, 5}, f_lst := {3}, f_pol := (\<lambda>_. {3, 5}), f_next := 6, f_events := [[(1, 3), (0x2010, 5)]]\<rparr>) = (Inr sv', w') \<and>
     listeners sv' = {6} \<and> distinct fs \<and> set fs = {6} \<and> f_sent w' = map (\<lambda>f. (f, [9])) fs \<and> f_opn w' = {0, 3, 4, 6}"
proof -
  let ?sv = "\<lparr>sun_path = ''/tmp/a'', server_fd = 3, epoll_fd = 4, listeners = {5}\<rparr>"
  let ?w = "fds0\<lparr>f_opn := {0, 3, 4, 5}, f_lst := {3}, f_pol := (\<lambda>_. {3, 5}), f_next := 6, f_events := [[(1, 3), (0x2010, 5)]]\<rparr>"
  have ok: "server_ok fds_view ?sv ?w" by (simp add: server_ok_def fds_view_def fds0_def)
  obtain sv' w' where run: "server_tick fds_kernel sorted_list_of_set [9] ?sv ?w = (Inr sv', w')"
    and l: "listeners sv' = {6}" "f_opn w' = {6, 0, 3, 4}"
    by (simp add: server_eval)
  from server_tick_serves [OF fds_kernel_ok ascending_order ok run] run l show ?thesis
    by (simp add: fds_view_def fds0_def) blast
qed

text \<open>
  C15: From start to end a server leaks no descriptor: after it has been initialised from scratch,
  ticked any number of times and cleaned up, exactly the descriptors are open that were open
  before, whoever has connected and hung up in between.
\<close>

theorem server_leaks_nothing:
  assumes "fd_kernel k v" "iteration_order ord" "length path < 108"
    and "server_init k path backlog broadcast_server0 w0 = (Inr sv, w1)"
    and "server_run k ord ds sv w1 = (Inr sv', w2)"
  shows "\<exists>w3. clean_up k ord sv' w2 = (Inr (), w3) \<and> opn v w3 = opn v w0 \<and> sent v w3 = sent v w2"
proof -
  have i: "server_ok v sv w1 \<and> listeners sv = {} \<and> sun_path sv = take 108 path \<and>
      opn v w1 = insert (server_fd sv) (insert (epoll_fd sv) (opn v w0)) \<and>
      server_fd sv \<notin> opn v w0 \<and> epoll_fd sv \<notin> opn v w0"
    using server_init_ok [OF assms(1) _ assms(4)] by (simp add: broadcast_server0_def)
  have r: "server_ok v sv' w2" "server_frame v sv w1 sv' w2"
    using server_run_ok [OF assms(1,2) _ assms(5)] i by blast+
  have len: "length (sun_path sv') < 108" using r(2) i assms(3) by (simp add: server_frame_def)
  obtain w3 where w3: "clean_up k ord sv' w2 = (Inr (), w3)" "sent v w3 = sent v w2"
    "opn v w3 = opn v w2 - insert (server_fd sv') (insert (epoll_fd sv') (listeners sv'))"
    using clean_up_ok [OF assms(1,2) r(1) len] by blast
  have "opn v w3 = opn v w0"
    using w3(3) r i by (auto simp: server_frame_def server_ok_def)
  with w3 show ?thesis by blast
qed

theorem server_leaks_nothing_witness:
  "\<exists>sv w1 sv' w2 w3. server_init fds_kernel ''/tmp/a'' 8 broadcast_server0 fds0 = (Inr sv, w1) \<and>
     server_run fds_kernel sorted_list_of_set [[7], [8], [9]] sv w1 = (Inr sv', w2) \<and> listeners sv' = {6} \<and>
     clean_up fds_kernel sorted_list_of_set sv' w2 = (Inr (), w3) \<and> f_opn w3 = {0, 1, 2}"
proof -
  obtain sv w1 sv' w2 where i: "server_init fds_kernel ''/tmp/a'' 8 broadcast_server0 fds0 = (Inr sv, w1)"
    and r: "server_run fds_kernel sorted_list_of_set [[7], [8], [9]] sv w1 = (Inr sv', w2)" "listeners sv' = {6}"
    by (simp add: server_eval)
  from server_leaks_nothing [OF fds_kernel_ok ascending_order _ i r(1)] i r show ?thesis
    by (simp add: fds_view_def fds0_def) blast
qed

text \<open>
  One client the buffer cannot be sent to in full ends the whole process: the copies already
  sent are those of the clients before it in the set's order, and the clients after it get
  nothing. This is the only way a broadcast fails.
\<close>

theorem broadcast_first_failure:
  assumes "fd_kernel k v" "broadcast k ord data sv w = (Inl e, w')"
  shows "e = Exited (-1) \<and> (\<exists>pre f post w1. ord (listeners sv) = pre @ f # post \<and>
    rval (fst (k (Send f data) w1)) \<noteq> int (length data) \<and>
    sent v w' = sent v w @ map (\<lambda>f. (f, data)) pre)"
  using send_all_cases [OF assms(1) assms(2) [unfolded broadcast_def]] by simp

theorem broadcast_first_failure_witness:
  "\<exists>w'. broadcast (fds_kernel(Send 6 [1, 2] := (\<lambda>w. (answer_of 1, w)))) sorted_list_of_set [1, 2]
       (broadcast_server0\<lparr>listeners := {5, 6, 7}\<rparr>) fds0 = (Inl (Exited (-1)), w') \<and> f_sent w' = [(5, [1, 2])]"
proof -
  let ?k = "fds_kernel(Send 6 [1, 2] := (\<lambda>w. (answer_of 1, w)))" and ?sv = "broadcast_server0\<lparr>listeners := {5, 6, 7}\<rparr>"
  have k: "fd_kernel ?k fds_view"
    using fds_kernel_ok by (auto simp: fd_kernel_def fd_answer_def view_is_def)
  obtain w' where run: "broadcast ?k sorted_list_of_set [1, 2] ?sv fds0 = (Inl (Exited (-1)), w')" "f_sent w' = [(5, [1, 2])]"
    by (simp add: server_eval)
  from broadcast_first_failure [OF k run(1)] run show ?thesis by simp
qed

end
