(* ===== verification/AdiruSocket.thy ===== *)
theory AdiruSocket
  imports Adiru Bmp390 Qmc5883 Gps Server
begin

text \<open>
  \<^verbatim>\<open>src/main/adiru-nosocket.cpp\<close>: the inertial unit that broadcasts over a local socket. Its block
  of 32 doubles is a list of cells: a cell holds a double, or the bytes of the greeting that is
  copied over the first two. \<open>rep\<close> is the memory representation of a double (\<^verbatim>\<open>None\<close> is one that
  is not finite), which the model leaves open. The GPS thread shares the receiver's object with
  the timer loop; how the two interleave is in \<open>UnitThreads\<close>.
\<close>

section \<open>The block of doubles\<close>

datatype cell = Double "real option" | Bytes bytes

fun cell_bytes :: "(real option \<Rightarrow> bytes) \<Rightarrow> cell \<Rightarrow> bytes" where
  "cell_bytes rep (Double x) = rep x"
| "cell_bytes rep (Bytes bs) = bs"

definition payload :: "(real option \<Rightarrow> bytes) \<Rightarrow> cell list \<Rightarrow> bytes" where
  "payload rep cs = concat (map (cell_bytes rep) cs)"

fun put_doubles :: "nat \<Rightarrow> real option list \<Rightarrow> cell list \<Rightarrow> cell list" where
  "put_doubles i [] cs = cs"
| "put_doubles i (x # xs) cs = put_doubles (Suc i) xs (cs[i := Double x])"

fun put_bytes :: "(real option \<Rightarrow> bytes) \<Rightarrow> bytes \<Rightarrow> cell list \<Rightarrow> cell list" where
  "put_bytes rep [] cs = cs"
| "put_bytes rep bs [] = []"
| "put_bytes rep bs (c # cs) =
     Bytes (take 8 bs @ drop (length bs) (cell_bytes rep c)) # put_bytes rep (drop 8 bs) cs"

section \<open>State\<close>

record unit_state =
  u_server :: server
  u_data :: "cell list"
  u_filters :: "filt list"
  u_orientation :: quarternion
  u_orientation_euler :: vector
  u_mpu :: mpu
  u_bmp :: bmp
  u_qmc :: qmc
  u_gps :: gps

definition gps_static :: gps where
  "gps_static = \<lparr>gps_fd = 0, new_data = False, gps_fix = False,
     last_useful = \<lparr>useful = False, nr_fix = False, lng = 0, lat = 0, n_sat = 0, north = False, east = False\<rparr>,
     gps_lat = 0, gps_lng = 0\<rparr>"

definition unit_globals :: unit_state where
  "unit_globals = \<lparr>u_server = broadcast_server0, u_data = replicate 32 (Double (Some 0)),
     u_filters = replicate 6 filter_default, u_orientation = quat0, u_orientation_euler = vector0,
     u_mpu = mpu_static, u_bmp = bmp_static, u_qmc = qmc_static, u_gps = gps_static\<rparr>"

section \<open>The tick\<close>

definition unit_sense :: "'w kernel \<Rightarrow> unit_state \<Rightarrow> 'w \<Rightarrow> real list \<times> unit_state \<times> 'w" where
  "unit_sense k s w =
     (let (d, w) = sense k (u_mpu s) w;
          s = s\<lparr>u_data := put_doubles 0 (map Some d) (u_data s)\<rparr>;
          ((t, p, h), w) = get_data k (u_bmp s) w
      in (d, s\<lparr>u_data := put_doubles 15 [Some t, Some p, h] (u_data s)\<rparr>, w))"

definition unit_attitude :: "real \<Rightarrow> real list \<Rightarrow> unit_state \<Rightarrow> unit_state" where
  "unit_attitude dt d s =
     (let (ys, fs) = filter_channels (u_filters s) d;
          s = s\<lparr>u_data := put_doubles 6 (map Some ys) (u_data s), u_filters := fs\<rparr>;
          (q, e) = attitude_step dt d ys (u_orientation s)
      in s\<lparr>u_data := put_doubles 12 [Some (tilt_roll d), Some (tilt_pitch d), Some 0] (u_data s),
           u_orientation := q, u_orientation_euler := e\<rparr>)"

definition unit_compass :: "'w kernel \<Rightarrow> unit_state \<Rightarrow> 'w \<Rightarrow> unit_state \<times> 'w" where
  "unit_compass k s w =
     (let (m, w) = qmc_get_data k (u_qmc s) w
      in (s\<lparr>u_data := put_doubles 18 (map Some m) (u_data s)\<rparr>, w))"

definition unit_position :: "unit_state \<Rightarrow> unit_state" where
  "unit_position s =
     (let g = u_gps s
      in if new_data g
         then s\<lparr>u_data := put_doubles 21 [Some (gps_lat g), Some (gps_lng g), Some (if gps_fix g then 1 else -1)] (u_data s),
                u_gps := g\<lparr>new_data := False\<rparr>\<rparr>
         else s)"

definition unit_instruments :: "'w kernel \<Rightarrow> real \<Rightarrow> unit_state \<Rightarrow> 'w \<Rightarrow> unit_state \<times> 'w" where
  "unit_instruments k dt s w =
     (let (d, s, w) = unit_sense k s w;
          s = unit_attitude dt d s;
          (s, w) = unit_compass k s w
      in (s\<lparr>u_data := put_doubles 24 [Some dt] (u_data s)\<rparr>, w))"

definition unit_measure :: "'w kernel \<Rightarrow> real \<Rightarrow> unit_state \<Rightarrow> 'w \<Rightarrow> unit_state \<times> 'w" where
  "unit_measure k dt s w = (let (s, w) = unit_instruments k dt s w in (unit_position s, w))"

definition unit_tick ::
  "'w kernel \<Rightarrow> (int set \<Rightarrow> int list) \<Rightarrow> (real option \<Rightarrow> bytes) \<Rightarrow> real \<Rightarrow> unit_state \<Rightarrow> ('w, unit_state) io" where
  "unit_tick k ord rep dt s w =
     (let (s, w) = unit_measure k dt s w
      in io_bind (server_tick k ord (payload rep (u_data s)) (u_server s)) (\<lambda>sv.
         io_return (s\<lparr>u_server := sv\<rparr>)) w)"

section \<open>Start-up\<close>

definition print_action :: "'w kernel \<Rightarrow> string \<Rightarrow> 'w \<Rightarrow> 'w" where
  "print_action k msg w = call k Flush (call k (Puts msg) w)"

definition print_success :: "'w kernel \<Rightarrow> string \<Rightarrow> 'w \<Rightarrow> 'w" where
  "print_success k msg w = call k (Puts (esc @ ''[1;32m'' @ msg @ esc @ ''[0m'' @ newline)) w"

definition print_fail :: "'w kernel \<Rightarrow> string \<Rightarrow> 'w \<Rightarrow> 'w" where
  "print_fail k msg w = call k (Puts (esc @ ''[1;31m'' @ msg @ esc @ ''[0m'' @ newline)) w"

text \<open>A part of the start-up between its two messages.\<close>

definition announced :: "'w kernel \<Rightarrow> string \<Rightarrow> ('w, 'a) io \<Rightarrow> ('w, 'a) io" where
  "announced k msg m =
     io_bind (io_act (print_action k msg)) (\<lambda>_.
     io_bind m (\<lambda>x.
     io_bind (io_act (print_success k ''DONE'')) (\<lambda>_. io_return x)))"

definition configure_bmp :: "'w kernel \<Rightarrow> bmp \<Rightarrow> ('w, bmp) io" where
  "configure_bmp k b =
     io_bind (io_dev (bmp_init k) b) (\<lambda>b.
     io_bind (io_act (soft_reset k b)) (\<lambda>_.
     io_bind (io_act (set_oversample k b STANDARD ULTRA_LOW_POWER)) (\<lambda>_.
     io_bind (io_act (set_iir_filter k b COEFF_3)) (\<lambda>_.
     io_bind (io_act (set_output_data_rate k b Odr_50)) (\<lambda>_.
     io_bind (io_act (set_enable k b True True)) (\<lambda>_.
     io_bind (io_act (set_enable_fifo2 k b True True)) (\<lambda>_.
     io_bind (io_act (set_fifo_stop_on_full k b False)) (\<lambda>_.
     io_bind (io_act (set_pwr_mode k b NORMAL)) (\<lambda>_. io_return b)))))))))"

definition configure_qmc :: "'w kernel \<Rightarrow> qmc \<Rightarrow> ('w, qmc) io" where
  "configure_qmc k q =
     io_bind (io_dev (qmc_init k) q) (io_dev (set_control_register k Continuous Hz200 G2 K512))"

definition greeting :: bytes where
  "greeting = map (\<lambda>c. of_nat (of_char c)) (''Hello world!'' @ newline) @ [0]"

definition ups :: real where "ups = 60"

definition unit_setup :: "'w kernel \<Rightarrow> (real option \<Rightarrow> bytes) \<Rightarrow> ('w, unit_state) io" where
  "unit_setup k rep =
     (let s = unit_globals
      in io_bind (announced k ''Initializing socket ... '' (server_init k ''/tmp/adiru.sock'' 8 (u_server s))) (\<lambda>sv.
         io_bind (announced k ''Configuring MPU6050 ... '' (configure_mpu k (u_mpu s))) (\<lambda>m.
         io_bind (announced k ''Configuring BMP390 ... '' (configure_bmp k (u_bmp s))) (\<lambda>b.
         io_bind (announced k ''Configuring qmc5883 ... '' (configure_qmc k (u_qmc s))) (\<lambda>q.
         io_bind (announced k ''Setting up GPS ... '' (io_dev (\<lambda>(g, w). gps_init k g w) (u_gps s))) (\<lambda>g.
         io_bind (io_lift (six_low_pass ups)) (\<lambda>fs.
         io_bind (io_act (call k (Puts (''ADIRU running...'' @ newline)))) (\<lambda>_.
         io_return (s\<lparr>u_server := sv, u_mpu := m, u_bmp := b, u_qmc := q, u_gps := g, u_filters := fs,
           u_data := put_bytes rep greeting (u_data s)\<rparr>)))))))))"

definition unit_main ::
  "nat \<Rightarrow> 'w kernel \<Rightarrow> (int set \<Rightarrow> int list) \<Rightarrow> (real option \<Rightarrow> bytes) \<Rightarrow> ('w, unit_state) io" where
  "unit_main n k ord rep =
     io_bind (unit_setup k rep) (\<lambda>s.
     create_timer_vd n k (unit_tick k ord rep) (word_of_int (c_trunc (1000 / ups))) s)"

section \<open>What the drivers leave alone\<close>

text \<open>Requests that are not about the sockets, and worlds reached by such requests alone.\<close>

definition quiet :: "request \<Rightarrow> bool" where
  "quiet q = (case q of Ioctl_rdwr _ _ \<Rightarrow> True | Ioctl_slave _ _ \<Rightarrow> True | Usleep _ \<Rightarrow> True | Puts _ \<Rightarrow> True
     | Perror _ \<Rightarrow> True | Open _ \<Rightarrow> True | Read _ _ \<Rightarrow> True | Flush \<Rightarrow> True | Start_thread _ \<Rightarrow> True | _ \<Rightarrow> False)"

inductive calm :: "'w kernel \<Rightarrow> 'w \<Rightarrow> 'w \<Rightarrow> bool" for k where
  calm_refl [intro, simp]: "calm k w w"
| calm_step: "calm k w w' \<Longrightarrow> quiet q \<Longrightarrow> calm k w (snd (k q w'))"

lemma calm_trans: "calm k b c \<Longrightarrow> calm k a b \<Longrightarrow> calm k a c"
  by (induction rule: calm.induct) (auto intro: calm.intros)

lemma calm_call: "quiet q \<Longrightarrow> calm k w (call k q w)"
  unfolding call_def by (rule calm_step [OF calm_refl])

named_theorems calm_intros

lemma calm_calls [calm_intros]:
  "calm k a w \<Longrightarrow> calm k a (snd (k (Ioctl_rdwr f ms) w))" "calm k a w \<Longrightarrow> calm k a (snd (k (Open p) w))"
  "calm k a w \<Longrightarrow> calm k a (snd (k (Read f n) w))"
  "calm k a w \<Longrightarrow> calm k a (call k (Ioctl_slave f x) w)" "calm k a w \<Longrightarrow> calm k a (call k (Usleep u) w)"
  "calm k a w \<Longrightarrow> calm k a (call k (Puts m) w)" "calm k a w \<Longrightarrow> calm k a (call k (Perror m) w)"
  "calm k a w \<Longrightarrow> calm k a (call k Flush w)" "calm k a w \<Longrightarrow> calm k a (call k (Start_thread m) w)"
  unfolding call_def by (simp_all add: calm_step quiet_def)

lemma calm_bus [calm_intros]:
  "calm k a w \<Longrightarrow> calm k a (snd (read_burst k d r b n w))"
  "calm k a w \<Longrightarrow> calm k a (snd (read_byte k d r w))"
  "calm k a w \<Longrightarrow> calm k a (write_byte k d r v w)"
  "calm k a w \<Longrightarrow> calm k a (snd (device_new k x w))"
  by (auto simp: read_burst_def read_byte_def write_byte_def device_new_def ask_def case_prod_unfold Let_def
      intro: calm_intros)

lemma calm_reads [calm_intros]:
  "calm k a w \<Longrightarrow> calm k a (snd (sense k m w))"
  "calm k a w \<Longrightarrow> calm k a (snd (get_data k b w))"
  "calm k a w \<Longrightarrow> calm k a (snd (qmc_get_data k q w))"
  by (auto simp: sense_def mpu_read_def read_raw_def get_data_def get_temp_def get_press1_def
      get_raw_temp_def get_raw_press_def bmp_get_raw_def qmc_get_data_def qmc_get_raw_data_def
      case_prod_unfold Let_def intro: calm_intros)

lemma calm_quiet:
  assumes "fd_kernel k v" "quiet q"
  shows "sent v (snd (k q w)) = sent v w \<and> (server_ok v sv w \<longrightarrow> server_ok v sv (snd (k q w)))"
  using fd_kernelD [OF assms(1) prod.collapse [symmetric], of q w] assms(2)
  by (cases q) (auto simp: fd_answer_def view_is_def server_ok_def Let_def quiet_def split: if_splits)

lemma calm_view:
  assumes "fd_kernel k v" "calm k w w'"
  shows "sent v w' = sent v w \<and> (server_ok v sv w \<longrightarrow> server_ok v sv w')"
  using assms(2) by (induction rule: calm.induct) (use calm_quiet [OF assms(1)] in auto)

section \<open>The layout of the block\<close>

lemma put_chunk:
  "length a = i \<Longrightarrow> length b = length xs \<Longrightarrow> put_doubles i xs (a @ b @ c) = a @ map Double xs @ c"
proof (induction xs arbitrary: i a b)
  case (Cons x xs)
  obtain y b' where b: "b = y # b'" "length b' = length xs" using Cons.prems(2) by (cases b) auto
  have "put_doubles (Suc i) xs ((a @ [Double x]) @ b' @ c) = (a @ [Double x]) @ map Double xs @ c"
    by (rule Cons.IH) (use Cons.prems(1) b in simp_all)
  then show ?case using Cons.prems(1) by (simp add: b list_update_append)
qed simp

lemma length_put_doubles [simp]: "length (put_doubles i xs cs) = length cs"
  by (induction xs arbitrary: i cs) simp_all

lemma length_filter_channels: "length (fst (filter_channels fs xs)) = min (length fs) (length xs)"
  by (induction fs xs rule: filter_channels.induct) (auto simp: Let_def split: prod.splits)

lemma length_filter_channels2: "length (snd (filter_channels fs xs)) = length fs"
  by (induction fs xs rule: filter_channels.induct) (auto simp: Let_def split: prod.splits)

lemma length_sense: "length (fst (sense k m w)) = 6"
  by (simp add: sense_def mpu_read_def Let_def case_prod_unfold)

lemma length_qmc: "length (fst (qmc_get_data k q w)) = 3"
  by (simp add: qmc_get_data_def Let_def case_prod_unfold)

text \<open>The position a block holds.\<close>

definition position_cells :: "cell list \<Rightarrow> cell list" where
  "position_cells cs = take 3 (drop 21 cs)"

definition fix_cells :: "gps \<Rightarrow> cell list" where
  "fix_cells g = [Double (Some (gps_lat g)), Double (Some (gps_lng g)), Double (Some (if gps_fix g then 1 else -1))]"

lemma unit_tick_layout:
  assumes "unit_tick k ord rep dt s w = (Inr s', w')" "length (u_data s) = 32" "length (u_filters s) = 6"
    and "sense k (u_mpu s) w = (d, w1)" "get_data k (u_bmp s) w1 = ((t, p, h), w2)"
    and "qmc_get_data k (u_qmc s) w2 = (m, w3)" "filter_channels (u_filters s) d = (ys, fs)"
  shows "u_data s' = map Double (map Some d @ map Some ys @ [Some (tilt_roll d), Some (tilt_pitch d), Some 0, Some t, Some p, h]
      @ map Some m) @ (if new_data (u_gps s) then fix_cells (u_gps s) else position_cells (u_data s)) @
      Double (Some dt) # drop 25 (u_data s)"
    "u_gps s' = (u_gps s)\<lparr>new_data := False\<rparr>" "u_filters s' = fs"
    "server_tick k ord (payload rep (u_data s')) (u_server s) w3 = (Inr (u_server s'), w')"
proof -
  define part where "part i n = take n (drop i (u_data s))" for i n
  have whole: "u_data s = part 0 6 @ part 6 6 @ part 12 3 @ part 15 3 @ part 18 3 @ part 21 3 @ part 24 1 @ drop 25 (u_data s)"
  proof -
    have "drop i (u_data s) = part i n @ drop (i + n) (u_data s)" for i n
      unfolding part_def by (metis append_take_drop_id drop_drop add.commute)
    from this [of 0 6] this [of 6 6] this [of 12 3] this [of 15 3] this [of 18 3] this [of 21 3] this [of 24 1]
    show ?thesis by simp
  qed
  have len: "length (part 0 6) = 6" "length (part 6 6) = 6" "length (part 12 3) = 3" "length (part 15 3) = 3"
    "length (part 18 3) = 3" "length (part 21 3) = 3" "length (part 24 1) = 1"
    using assms(2) by (simp_all add: part_def)
  have d: "length d = 6" using length_sense [of k "u_mpu s" w] by (simp add: assms(4))
  have ys: "length ys = 6" using length_filter_channels [of "u_filters s" d] assms(3) d by (simp add: assms(7))
  have m: "length m = 3" using length_qmc [of k "u_qmc s" w2] by (simp add: assms(6))
  let ?d = "map Some d" and ?y = "map Some ys" and ?m = "map Some m"
  let ?e = "[Some (tilt_roll d), Some (tilt_pitch d), Some 0]" and ?b = "[Some t, Some p, h]"
  let ?h = "drop 25 (u_data s)"
  have 1: "put_doubles 0 ?d (u_data s) = map Double ?d @ part 6 6 @ part 12 3 @ part 15 3 @ part 18 3 @ part 21 3 @ part 24 1 @ ?h"
    by (subst whole) (use put_chunk [of "[]" 0 "part 0 6" ?d] len d in simp)
  have 2: "put_doubles 15 ?b \<dots> = map Double ?d @ part 6 6 @ part 12 3 @ map Double ?b @ part 18 3 @ part 21 3 @ part 24 1 @ ?h"
    using put_chunk [of "map Double ?d @ part 6 6 @ part 12 3" 15 "part 15 3" ?b] len d by simp
  have 3: "put_doubles 6 ?y \<dots> = map Double ?d @ map Double ?y @ part 12 3 @ map Double ?b @ part 18 3 @ part 21 3 @ part 24 1 @ ?h"
    using put_chunk [of "map Double ?d" 6 "part 6 6" ?y] len d ys by simp
  have 4: "put_doubles 12 ?e \<dots> = map Double ?d @ map Double ?y @ map Double ?e @ map Double ?b @ part 18 3 @ part 21 3 @ part 24 1 @ ?h"
    using put_chunk [of "map Double ?d @ map Double ?y" 12 "part 12 3" ?e] len d ys by simp
  have 5: "put_doubles 18 ?m \<dots> = map Double ?d @ map Double ?y @ map Double ?e @ map Double ?b @ map Double ?m @ part 21 3 @ part 24 1 @ ?h"
    using put_chunk [of "map Double ?d @ map Double ?y @ map Double ?e @ map Double ?b" 18 "part 18 3" ?m] len d ys m by simp
  have 6: "put_doubles 24 [Some dt] \<dots> = map Double ?d @ map Double ?y @ map Double ?e @ map Double ?b @ map Double ?m @ part 21 3 @ [Double (Some dt)] @ ?h"
    using put_chunk [of "map Double ?d @ map Double ?y @ map Double ?e @ map Double ?b @ map Double ?m @ part 21 3" 24 "part 24 1" "[Some dt]"] len d ys m by simp
  let ?g = "u_gps s"
  have 7: "put_doubles 21 [Some (gps_lat ?g), Some (gps_lng ?g), Some (if gps_fix ?g then 1 else -1)] \<dots> =
      map Double ?d @ map Double ?y @ map Double ?e @ map Double ?b @ map Double ?m @ fix_cells ?g @ [Double (Some dt)] @ ?h"
    using put_chunk [of "map Double ?d @ map Double ?y @ map Double ?e @ map Double ?b @ map Double ?m" 21 "part 21 3"
        "[Some (gps_lat ?g), Some (gps_lng ?g), Some (if gps_fix ?g then 1 else -1)]"] len d ys m by (simp add: fix_cells_def)
  obtain q e where a: "attitude_step dt d ys (u_orientation s) = (q, e)" by fastforce
  let ?data = "map Double ?d @ map Double ?y @ map Double ?e @ map Double ?b @ map Double ?m @
      (if new_data ?g then fix_cells ?g else part 21 3) @ [Double (Some dt)] @ ?h"
  let ?D = "put_doubles 24 [Some dt] (put_doubles 18 ?m (put_doubles 12 ?e (put_doubles 6 ?y
      (put_doubles 15 ?b (put_doubles 0 ?d (u_data s))))))"
  have D: "(if new_data ?g then put_doubles 21 [Some (gps_lat ?g), Some (gps_lng ?g), Some (if gps_fix ?g then 1 else -1)] ?D else ?D) = ?data"
    unfolding 1 2 3 4 5 6 7 by (cases "new_data ?g") (simp_all only: if_True if_False simp_thms)
  have "u_data s' = (if new_data ?g then put_doubles 21 [Some (gps_lat ?g), Some (gps_lng ?g), Some (if gps_fix ?g then 1 else -1)] ?D else ?D) \<and>
      u_gps s' = ?g\<lparr>new_data := False\<rparr> \<and> u_filters s' = fs \<and>
      server_tick k ord (payload rep (u_data s')) (u_server s) w3 = (Inr (u_server s'), w')"
    using assms(1)
    by (cases "new_data ?g")
      (auto simp: Let_def unit_tick_def unit_measure_def unit_instruments_def unit_sense_def unit_attitude_def unit_compass_def unit_position_def assms(4-7) a
        io_return_def simp del: put_doubles.simps elim!: io_bind_InrE)
  note sv = this [unfolded D]
  have "u_data s' = ?data" by (rule conjunct1 [OF sv])
  then show "u_data s' = map Double (map Some d @ map Some ys @ [Some (tilt_roll d), Some (tilt_pitch d), Some 0, Some t, Some p, h]
      @ map Some m) @ (if new_data (u_gps s) then fix_cells (u_gps s) else position_cells (u_data s)) @
      Double (Some dt) # drop 25 (u_data s)"
    by (simp add: position_cells_def part_def)
  show "u_gps s' = (u_gps s)\<lparr>new_data := False\<rparr>" "u_filters s' = fs"
    "server_tick k ord (payload rep (u_data s')) (u_server s) w3 = (Inr (u_server s'), w')"
    using conjunct2 [OF sv] by blast+
qed

section \<open>The running unit\<close>

text \<open>
  The unit between two operations: the state both threads share, the GPS thread's own result
  object and buffer, and the world. The threads themselves are in \<open>UnitThreads\<close>.
\<close>

type_synonym 'w unit_config = "unit_state \<times> nmea_result \<times> bytes \<times> 'w"

text \<open>The position in the block: the initial one or that of one whole sentence.\<close>

definition sentence_cells :: "cell list \<Rightarrow> bool" where
  "sentence_cells cs \<longleftrightarrow> cs = replicate 3 (Double (Some 0)) \<or>
     (\<exists>line q. (\<forall>r. process_nmea_line line r = (Inr (), q)) \<and> useful q \<and>
        cs = [Double (Some (lat q)), Double (Some (lng q)), Double (Some (if nr_fix q then 1 else -1))])"

definition unit_ok :: "'w fd_view \<Rightarrow> 'w unit_config \<Rightarrow> bool" where
  "unit_ok v c \<longleftrightarrow> (case c of (s, r, buf, w) \<Rightarrow>
     server_ok v (u_server s) w \<and> length (u_data s) = 32 \<and> length (u_filters s) = 6 \<and>
     gps_ok (u_gps s) \<and> sentence_cells (position_cells (u_data s)) \<and>
     drop 25 (u_data s) = replicate 7 (Double (Some 0)))"

lemma fix_cells_ok: "gps_ok g \<Longrightarrow> new_data g \<Longrightarrow> sentence_cells (fix_cells g)"
  unfolding gps_ok_def sentence_cells_def fix_cells_def by auto

text \<open>One tick: its parts with the worlds between them.\<close>

lemma unit_tick_run:
  assumes "fd_kernel k v" "iteration_order ord" "unit_ok v (s, r, buf, w)"
    and "unit_tick k ord rep dt s w = (Inr s', w')"
  obtains d w1 t p h w2 m w3 ys fs where
    "sense k (u_mpu s) w = (d, w1)" "get_data k (u_bmp s) w1 = ((t, p, h), w2)"
    "qmc_get_data k (u_qmc s) w2 = (m, w3)" "filter_channels (u_filters s) d = (ys, fs)"
    "u_data s' = map Double (map Some d @ map Some ys @ [Some (tilt_roll d), Some (tilt_pitch d), Some 0, Some t, Some p, h]
      @ map Some m) @ (if new_data (u_gps s) then fix_cells (u_gps s) else position_cells (u_data s)) @
      Double (Some dt) # drop 25 (u_data s)"
    "length d = 6" "length ys = 6" "length m = 3" "unit_ok v (s', r, buf, w')"
    "sent v w' = sent v w @ map (\<lambda>f. (f, payload rep (u_data s'))) (ord (listeners (u_server s')))"
proof -
  obtain d w1 where 1: "sense k (u_mpu s) w = (d, w1)" by fastforce
  obtain t p h w2 where 2: "get_data k (u_bmp s) w1 = ((t, p, h), w2)" by (metis surj_pair)
  obtain m w3 where 3: "qmc_get_data k (u_qmc s) w2 = (m, w3)" by fastforce
  obtain ys fs where 4: "filter_channels (u_filters s) d = (ys, fs)" by fastforce
  have ok: "server_ok v (u_server s) w" "length (u_data s) = 32" "length (u_filters s) = 6" "gps_ok (u_gps s)"
    "sentence_cells (position_cells (u_data s))" "drop 25 (u_data s) = replicate 7 (Double (Some 0))"
    using assms(3) by (simp_all add: unit_ok_def)
  note lay = unit_tick_layout [OF assms(4) ok(2,3) 1 2 3 4]
  have d: "length d = 6" using length_sense [of k "u_mpu s" w] by (simp add: 1)
  have ys: "length ys = 6" using length_filter_channels [of "u_filters s" d] ok(3) d by (simp add: 4)
  have m: "length m = 3" using length_qmc [of k "u_qmc s" w2] by (simp add: 3)
  have "calm k w (snd (qmc_get_data k (u_qmc s) (snd (get_data k (u_bmp s) (snd (sense k (u_mpu s) w))))))"
    by (intro calm_intros calm_refl)
  then have "calm k w w3" by (simp add: 1 2 3)
  from calm_view [OF assms(1) this] have w3: "sent v w3 = sent v w" "server_ok v (u_server s) w3" using ok(1) by simp_all
  note t = server_tick_ok [OF assms(1,2) w3(2) lay(4)]
  have "sentence_cells (position_cells (u_data s'))"
    unfolding lay(1) using fix_cells_ok [OF ok(4)] ok(2,5) d ys m by (simp add: position_cells_def fix_cells_def)
  moreover have "length (u_data s') = 32"
    unfolding lay(1) using ok(2) d ys m by (simp add: position_cells_def fix_cells_def)
  moreover have "drop 25 (u_data s') = replicate 7 (Double (Some 0))"
    unfolding lay(1) using ok(2,6) d ys m by (simp add: position_cells_def fix_cells_def)
  moreover have "length fs = 6" using length_filter_channels2 [of "u_filters s" d] ok(3) by (simp add: 4)
  ultimately have "unit_ok v (s', r, buf, w')"
    using t lay(2,3) by (simp add: unit_ok_def gps_ok_def)
  then show thesis using that [OF 1 2 3 4 lay(1) d ys m] t w3(1) by simp
qed

section \<open>What start-up leaves\<close>

text \<open>Actions that end in a world reached by quiet requests, whatever their outcome.\<close>

definition quietly :: "'w kernel \<Rightarrow> ('w, 'a) io \<Rightarrow> bool" where
  "quietly k m \<longleftrightarrow> (\<forall>w. calm k w (snd (m w)))"

lemma quietly_bind: "quietly k m \<Longrightarrow> (\<And>x. quietly k (f x)) \<Longrightarrow> quietly k (io_bind m f)"
  unfolding quietly_def io_bind_def by (auto split: prod.splits sum.splits) (metis calm_trans snd_conv)+

lemma quietly_simps:
  "quietly k (io_return x)" "quietly k (io_lift v)"
  "quietly k (io_act g) \<longleftrightarrow> (\<forall>w. calm k w (g w))" "quietly k (io_dev f x) \<longleftrightarrow> (\<forall>w. calm k w (snd (f (x, w))))"
  by (auto simp: quietly_def io_return_def io_lift_def io_act_def io_dev_def case_prod_unfold Let_def)

lemma quietly_announced: "quietly k m \<Longrightarrow> quietly k (announced k a m)"
  unfolding announced_def print_action_def print_success_def
  by (intro quietly_bind) (auto simp: quietly_simps intro: calm_intros)

lemma calm_mpu_update: "calm k w (snd (mpu_update k r f (m, w)))"
  by (auto simp: mpu_update_def case_prod_unfold Let_def intro: calm_intros)

lemma calm_cal_samples:
  "case cal_samples j k x p i (errs, m, w) of Inl e \<Rightarrow> True | Inr (errs', m', w') \<Rightarrow> calm k w w'"
proof (induction j arbitrary: errs m w)
  case (Suc j)
  obtain raw w1 where raw: "read_raw k m w = (raw, w1)" by fastforce
  have "calm k w (snd (read_raw k m w))"
    by (auto simp: read_raw_def case_prod_unfold Let_def intro: calm_intros)
  then have c: "calm k w (call k (Usleep 1000) w1)" using raw by (auto intro: calm_intros)
  show ?case
  proof (cases "cal_axes x raw p i errs (offsets m)")
    case (Inr r)
    then show ?thesis
      using Suc.IH [where errs = "fst r" and m = "m\<lparr>offsets := snd r\<rparr>" and w = "call k (Usleep 1000) w1"] raw c
      by (auto simp: case_prod_unfold split: sum.splits intro: calm_trans)
  qed (simp add: raw)
qed simp

lemma calm_cal_rounds: "cal_rounds n k x p i (errs, m, w) = Inr (m', w') \<Longrightarrow> calm k w w'"
proof (induction n arbitrary: errs m w p i)
  case (Suc n)
  then obtain errs1 m1 w1 where c: "cal_samples 100 k x p i (errs, m, w) = Inr (errs1, m1, w1)"
    and r: "cal_rounds n k x (map ((*) 0.75) p) (map ((*) 0.75) i) (replicate 6 0, m1, w1) = Inr (m', w')"
    by (auto split: sum.splits)
  have "calm k w w1" using calm_cal_samples [where j = 100 and k = k and x = x and p = p and i = i and errs = errs and m = m and w = w]
    unfolding c sum.case prod.case .
  then show ?case by (rule calm_trans [OF Suc.IH [OF r]])
qed simp

lemma quietly_configure_mpu: "quietly k (configure_mpu k m)"
proof -
  have "quietly k (io_calibrate k n m)" for n m
    using calm_cal_rounds [of "nat n" k]
    by (auto simp: quietly_def io_calibrate_def calibrate_def split: sum.splits)
  moreover have "calm k w (snd (set_accl_set k a (m, w)))" "calm k w (snd (set_gyro_set k g (m, w)))" for a g m w
    by (auto simp: set_accl_set_def set_gyro_set_def case_prod_unfold Let_def calm_mpu_update intro: calm_intros)
  ultimately show ?thesis
    unfolding configure_mpu_def
    by (intro quietly_bind)
      (auto simp: quietly_simps set_clk_def set_fsync_def set_dlpf_bandwidth_def wake_up_def calm_mpu_update
        mpu_init_default_def mpu_init_def case_prod_unfold Let_def intro: calm_intros)
qed

lemma quietly_configure_bmp: "quietly k (configure_bmp k b)"
  unfolding configure_bmp_def
  by (intro quietly_bind)
    (auto simp: quietly_simps bmp_init_def acquire_calib_vars_def soft_reset_def set_oversample_def set_iir_filter_def
      set_output_data_rate_def set_enable_def set_enable_fifo2_def set_fifo_stop_on_full_def set_pwr_mode_def
      bmp_update_def bmp_write_def case_prod_unfold Let_def intro: calm_intros)

lemma quietly_configure_qmc: "quietly k (configure_qmc k q)"
  unfolding configure_qmc_def
  by (intro quietly_bind)
    (auto simp: quietly_simps qmc_init_def set_control_register_def case_prod_unfold Let_def intro: calm_intros)

lemma quietly_gps_init: "quietly k (io_dev (\<lambda>(g, w). gps_init k g w) g)"
  by (auto simp: quietly_simps gps_init_def ask_def case_prod_unfold Let_def intro: calm_intros)

lemma announcedE:
  assumes "announced k a m w = (Inr x, w')"
  obtains w1 w2 where "calm k w w1" "m w1 = (Inr x, w2)" "calm k w2 w'"
proof -
  from assms obtain w2 where "m (print_action k a w) = (Inr x, w2)" "w' = print_success k ''DONE'' w2"
    by (auto simp: announced_def io_act_def io_return_def elim!: io_bind_InrE)
  then show thesis
    using that [of "print_action k a w" w2] by (auto simp: print_action_def print_success_def intro: calm_intros)
qed

lemma quietlyD: "quietly k m \<Longrightarrow> m w = (x, w') \<Longrightarrow> calm k w w'"
  unfolding quietly_def by (metis snd_conv)

lemma greeted:
  "length (put_bytes rep greeting (u_data unit_globals)) = 32"
  "drop 2 (put_bytes rep greeting (u_data unit_globals)) = replicate 30 (Double (Some 0))"
  by (simp_all add: unit_globals_def greeting_def newline_def numeral_eq_Suc)

lemma unit_setup_ok:
  assumes "fd_kernel k v" "unit_setup k rep w = (Inr s, w')"
  shows "unit_ok v (s, r, buf, w') \<and> listeners (u_server s) = {} \<and> sent v w' = sent v w \<and>
    u_data s = put_bytes rep greeting (u_data unit_globals)"
proof -
  from assms(2) obtain sv m b q g fs w1 w2 w3 w4 w5 where
    1: "announced k ''Initializing socket ... '' (server_init k ''/tmp/adiru.sock'' 8 broadcast_server0) w = (Inr sv, w1)"
    and 2: "announced k ''Configuring MPU6050 ... '' (configure_mpu k mpu_static) w1 = (Inr m, w2)"
    and 3: "announced k ''Configuring BMP390 ... '' (configure_bmp k bmp_static) w2 = (Inr b, w3)"
    and 4: "announced k ''Configuring qmc5883 ... '' (configure_qmc k qmc_static) w3 = (Inr q, w4)"
    and 5: "announced k ''Setting up GPS ... '' (io_dev (\<lambda>(g, w). gps_init k g w) gps_static) w4 = (Inr g, w5)"
    and 6: "six_low_pass ups = Inr fs"
    and s: "s = unit_globals\<lparr>u_server := sv, u_mpu := m, u_bmp := b, u_qmc := q, u_gps := g, u_filters := fs,
           u_data := put_bytes rep greeting (u_data unit_globals)\<rparr>"
    and w': "w' = call k (Puts (''ADIRU running...'' @ newline)) w5"
    unfolding unit_setup_def Let_def
    by (auto simp: io_lift_def io_act_def io_return_def unit_globals_def elim!: io_bind_InrE)
  from 1 obtain v1 v2 where i: "calm k w v1" "server_init k ''/tmp/adiru.sock'' 8 broadcast_server0 v1 = (Inr sv, v2)"
    "calm k v2 w1" by (rule announcedE)
  have "calm k v2 w5"
    by (rule calm_trans [OF quietlyD [OF quietly_announced [OF quietly_gps_init] 5]
          calm_trans [OF quietlyD [OF quietly_announced [OF quietly_configure_qmc] 4]
          calm_trans [OF quietlyD [OF quietly_announced [OF quietly_configure_bmp] 3]
          calm_trans [OF quietlyD [OF quietly_announced [OF quietly_configure_mpu] 2] i(3)]]]])
  then have c: "calm k v2 w'" unfolding w' by (rule calm_calls(6))
  note ok = server_init_ok [OF assms(1) _ i(2)]
  note v1 = calm_view [OF assms(1) i(1)] and v2 = calm_view [OF assms(1) c]
  from 5 obtain v3 v4 where "io_dev (\<lambda>(g, w). gps_init k g w) gps_static v3 = (Inr g, v4)" by (rule announcedE)
  then have "\<not> new_data g"
    by (auto simp: io_dev_def gps_init_def ask_def gps_static_def Let_def split: prod.splits if_splits)
  then have g: "gps_ok g" by (simp add: gps_ok_def)
  have fs: "length fs = 6" using 6 by (auto simp: six_low_pass_def split: option.splits)
  let ?d = "put_bytes rep greeting (u_data unit_globals)"
  have "drop 21 ?d = replicate 11 (Double (Some 0))" "drop 25 ?d = replicate 7 (Double (Some 0))"
    using arg_cong [OF greeted(2) [of rep], of "drop 19"] arg_cong [OF greeted(2) [of rep], of "drop 23"] by simp_all
  then have "sentence_cells (position_cells ?d)" "drop 25 ?d = replicate 7 (Double (Some 0))"
    by (simp_all add: position_cells_def sentence_cells_def)
  then show ?thesis
    using ok v1 v2 g fs greeted(1) [of rep] by (simp add: unit_ok_def s broadcast_server0_def)
qed

section \<open>An example world\<close>

text \<open>
  The two contracts the properties rest on can be had at once: register files behind the bus, a
  descriptor counter, and connections that never report an event.
\<close>

record box =
  b_sim :: sim
  b_next :: nat
  b_closed :: "int set"
  b_lst :: "int set"
  b_pol :: "int \<Rightarrow> int set"
  b_sent :: "(int \<times> bytes) list"

definition b_opn :: "box \<Rightarrow> int set" where
  "b_opn w = {0..<int (b_next w)} - b_closed w"

definition box_fresh :: "box \<Rightarrow> answer \<times> box" where
  "box_fresh w = (answer_of (int (b_next w)),
     w\<lparr>b_next := Suc (b_next w), b_closed := b_closed w - {int (b_next w)}, b_lst := b_lst w - {int (b_next w)}\<rparr>)"

fun box_kernel :: "box kernel" where
  "box_kernel (Ioctl_rdwr f ms) w = (case sim_rdwr ms (b_sim w) of (a, s) \<Rightarrow> (a, w\<lparr>b_sim := s\<rparr>))"
| "box_kernel (Open p) w = box_fresh w"
| "box_kernel (Socket d t p) w = box_fresh w"
| "box_kernel (Accept s) w = box_fresh w"
| "box_kernel Epoll_create w =
     (case box_fresh w of (a, w') \<Rightarrow> (a, w'\<lparr>b_pol := (b_pol w')(rval a := {})\<rparr>))"
| "box_kernel (Listen s b) w = (answer_of 0, w\<lparr>b_lst := insert s (b_lst w)\<rparr>)"
| "box_kernel (Epoll_add e f m) w = (answer_of 0, w\<lparr>b_pol := (b_pol w)(e := insert f (b_pol w e))\<rparr>)"
| "box_kernel (Epoll_del e f) w = (answer_of 0, w\<lparr>b_pol := (b_pol w)(e := b_pol w e - {f})\<rparr>)"
| "box_kernel (Close f) w =
     (answer_of 0, w\<lparr>b_closed := insert f (b_closed w), b_lst := b_lst w - {f}, b_pol := (\<lambda>e. b_pol w e - {f})\<rparr>)"
| "box_kernel (Send f d) w = (answer_of (int (length d)), w\<lparr>b_sent := b_sent w @ [(f, d)]\<rparr>)"
| "box_kernel q w = (answer_of 0, w)"

definition box_view :: "box fd_view" where
  "box_view = \<lparr>opn = b_opn, lst = b_lst, pol = b_pol, sent = b_sent\<rparr>"

lemma box_fds: "fd_kernel box_kernel box_view"
  unfolding fd_kernel_def
proof (intro allI)
  fix q w
  show "fd_answer box_view q w (fst (box_kernel q w)) (snd (box_kernel q w))"
    by (cases q) (auto simp: fd_answer_def box_view_def view_is_def box_fresh_def b_opn_def Let_def split: prod.split)
qed

lemma box_bus: "register_bus box_kernel (\<lambda>w. sim_regs (b_sim w))"
proof -
  have "sim_regs (b_sim (snd (box_kernel q w))) = sim_regs (b_sim w)" if "\<not> is_transfer q" for q w
    using that by (cases q) (auto simp: is_transfer_def box_fresh_def)
  then show ?thesis
    by (simp add: register_bus_def bus_reads_def bus_writes_def bus_stable_def sim_rdwr_def box_fresh_def)
qed

definition box0 :: box where
  "box0 = \<lparr>b_sim = sim0\<lparr>sim_regs := (\<lambda>_. (\<lambda>_. 0)(0x3F := 0x40))\<rparr>, b_next = 3, b_closed = {}, b_lst = {}, b_pol = (\<lambda>_. {}), b_sent = []\<rparr>"

lemma box_tick: "\<exists>w'. server_tick box_kernel ord data sv w = (Inr sv, w')"
proof -
  have "\<exists>w'. send_all box_kernel data fs w = (Inr (), w')" for fs w
  proof (induction fs arbitrary: w)
    case (Cons f fs)
    then show ?case by (simp add: io_bind_def ask_def)
  qed (simp add: io_return_def)
  then obtain w' where "send_all box_kernel data (ord (listeners sv)) w = (Inr (), w')" by blast
  then show ?thesis
    by (simp add: server_tick_def handle_events_def broadcast_def io_bind_def io_return_def)
qed

lemma measure_server: "u_server (fst (unit_measure k dt s w)) = u_server s"
  by (simp add: unit_measure_def unit_instruments_def unit_sense_def unit_attitude_def unit_compass_def unit_position_def Let_def case_prod_unfold)

lemma box_unit_tick: "\<exists>s' w'. unit_tick box_kernel ord rep dt s w = (Inr s', w') \<and> u_server s' = u_server s"
proof -
  obtain s1 w1 where m: "unit_measure box_kernel dt s w = (s1, w1)" by fastforce
  obtain w' where "server_tick box_kernel ord (payload rep (u_data s1)) (u_server s1) w1 = (Inr (u_server s1), w')"
    using box_tick by blast
  then show ?thesis
    using measure_server [of box_kernel dt s w] by (simp add: unit_tick_def m io_bind_def io_return_def)
qed

lemma announced_ex: "\<exists>x w'. m (print_action k a w) = (Inr x, w') \<Longrightarrow> \<exists>x w'. announced k a m w = (Inr x, w')"
  by (auto simp: announced_def io_bind_def io_act_def io_return_def)

lemma box_setup: "\<exists>s w. unit_setup box_kernel rep box0 = (Inr s, w)"
proof -
  have act: "b_sim (print_action box_kernel a w) = b_sim w" "b_sim (print_success box_kernel a w) = b_sim w" for a w
    by (simp_all add: print_action_def print_success_def call_def)
  obtain sv w1 where 1: "announced box_kernel ''Initializing socket ... '' (server_init box_kernel ''/tmp/adiru.sock'' 8 broadcast_server0) box0 = (Inr sv, w1)"
    and r: "b_sim w1 = b_sim box0"
    by (simp add: announced_def server_init_def server_eval print_action_def print_success_def box0_def box_fresh_def)
  have "map (reg16 (sim_regs (b_sim (print_action box_kernel ''Configuring MPU6050 ... '' w1)) 0x68)) [0x3B, 0x3D, 0x3F, 0x43, 0x45, 0x47]
      = [0, 0, 16384, 0, 0, 0]"
    unfolding act r by (simp add: box0_def reg16_def)
  from configure_mpu_rest [where regs = "\<lambda>w. sim_regs (b_sim w)" and k = box_kernel and ?m0.0 = mpu_static, OF box_bus this] have "\<exists>m w'. configure_mpu box_kernel mpu_static
      (print_action box_kernel ''Configuring MPU6050 ... '' w1) = (Inr m, w')" by blast
  from announced_ex [where m = "configure_mpu box_kernel mpu_static", OF this] obtain m w2 where
    2: "announced box_kernel ''Configuring MPU6050 ... '' (configure_mpu box_kernel mpu_static) w1 = (Inr m, w2)" by blast
  obtain b w3 where 3: "announced box_kernel ''Configuring BMP390 ... '' (configure_bmp box_kernel bmp_static) w2 = (Inr b, w3)"
    using announced_ex [of "configure_bmp box_kernel bmp_static" box_kernel "''Configuring BMP390 ... ''" w2]
    by (auto simp: configure_bmp_def io_bind_def io_act_def io_dev_def io_return_def case_prod_unfold Let_def)
  obtain q w4 where 4: "announced box_kernel ''Configuring qmc5883 ... '' (configure_qmc box_kernel qmc_static) w3 = (Inr q, w4)"
    using announced_ex [of "configure_qmc box_kernel qmc_static" box_kernel "''Configuring qmc5883 ... ''" w3]
    by (auto simp: configure_qmc_def io_bind_def io_act_def io_dev_def io_return_def case_prod_unfold Let_def)
  obtain g w5 where 5: "announced box_kernel ''Setting up GPS ... '' (io_dev (\<lambda>(g, w). gps_init box_kernel g w) gps_static) w4 = (Inr g, w5)"
    using announced_ex [of "io_dev (\<lambda>(g, w). gps_init box_kernel g w) gps_static" box_kernel "''Setting up GPS ... ''" w4]
    by (auto simp: io_dev_def case_prod_unfold Let_def)
  obtain f where 6: "low_pass ups 10 = Some f" using low_pass_good [of 10 ups] by (auto simp: ups_def)
  show ?thesis
    unfolding unit_setup_def Let_def
    by (simp add: unit_globals_def io_bind_def 1 2 3 4 5 six_low_pass_def 6 io_lift_def io_act_def io_return_def)
qed

section \<open>Properties\<close>

text \<open>
  C6: What a tick of the running unit broadcasts: every client gets, once, the same 32 doubles.
  They are the inertial reading with the pitch rate negated, its filtered values, the roll and
  pitch of the accelerometer alone and a zero yaw (not the fused attitude the tick computes),
  the barometer and the compass, the position (the receiver's if it has a new one, otherwise the
  one of the tick before), the time step, and seven unused zeros.
\<close>

theorem unit_tick_publishes:
  assumes "fd_kernel k v" "iteration_order ord" "unit_ok v (s, r, buf, w)"
    and "unit_tick k ord rep dt s w = (Inr s', w')"
  shows "\<exists>d w1 t p h w2 m w3 fs.
    sense k (u_mpu s) w = (d, w1) \<and> get_data k (u_bmp s) w1 = ((t, p, h), w2) \<and> qmc_get_data k (u_qmc s) w2 = (m, w3) \<and>
    u_data s' = map (\<lambda>x. Double (Some x)) (d @ fst (filter_channels (u_filters s) d) @
        [atan2 (d ! 1) (d ! 2), atan2 (d ! 0) (sqrt (d ! 1 * d ! 1 + d ! 2 * d ! 2)), 0, t, p]) @
      Double h # map (\<lambda>x. Double (Some x)) m @
      (if new_data (u_gps s) then fix_cells (u_gps s) else position_cells (u_data s)) @
      Double (Some dt) # replicate 7 (Double (Some 0)) \<and>
    length d = 6 \<and> length m = 3 \<and> length (u_data s') = 32 \<and> unit_ok v (s', r, buf, w') \<and>
    distinct fs \<and> set fs = listeners (u_server s') \<and>
    sent v w' = sent v w @ map (\<lambda>f. (f, payload rep (u_data s'))) fs"
proof -
  from assms obtain d w1 t p h w2 m w3 ys gs where
    run: "sense k (u_mpu s) w = (d, w1)" "get_data k (u_bmp s) w1 = ((t, p, h), w2)"
    "qmc_get_data k (u_qmc s) w2 = (m, w3)" "filter_channels (u_filters s) d = (ys, gs)"
    and lay: "u_data s' = map Double (map Some d @ map Some ys @ [Some (tilt_roll d), Some (tilt_pitch d), Some 0, Some t, Some p, h]
      @ map Some m) @ (if new_data (u_gps s) then fix_cells (u_gps s) else position_cells (u_data s)) @
      Double (Some dt) # drop 25 (u_data s)"
    and len: "length d = 6" "length m = 3" "unit_ok v (s', r, buf, w')"
    and out: "sent v w' = sent v w @ map (\<lambda>f. (f, payload rep (u_data s'))) (ord (listeners (u_server s')))"
    by (rule unit_tick_run)
  have shape: "drop 25 (u_data s) = replicate 7 (Double (Some 0))" "length (u_data s') = 32"
    using assms(3) len(3) by (simp_all add: unit_ok_def)
  have fs: "distinct (ord (listeners (u_server s')))" "set (ord (listeners (u_server s'))) = listeners (u_server s')"
    using assms(2) len(3) by (simp_all add: iteration_order_def unit_ok_def server_ok_def)
  have data: "u_data s' = map (\<lambda>x. Double (Some x)) (d @ fst (filter_channels (u_filters s) d) @
        [atan2 (d ! 1) (d ! 2), atan2 (d ! 0) (sqrt (d ! 1 * d ! 1 + d ! 2 * d ! 2)), 0, t, p]) @
      Double h # map (\<lambda>x. Double (Some x)) m @
      (if new_data (u_gps s) then fix_cells (u_gps s) else position_cells (u_data s)) @
      Double (Some dt) # replicate 7 (Double (Some 0))"
    using lay by (simp add: run(4) tilt_roll_def tilt_pitch_def comp_def shape(1))
  from run(1-3) data len(1,2) shape(2) len(3) fs out show ?thesis by blast
qed

theorem unit_tick_publishes_witness:
  "\<exists>s' w'. unit_tick box_kernel sorted_list_of_set (\<lambda>_. replicate 8 0) 0.02
       (unit_globals\<lparr>u_server := \<lparr>sun_path = ''/tmp/a'', server_fd = 3, epoll_fd = 4, listeners = {5}\<rparr>\<rparr>)
       (box0\<lparr>b_next := 6, b_lst := {3}, b_pol := (\<lambda>_. {3, 5})\<rparr>) = (Inr s', w') \<and>
     b_sent w' = [(5, payload (\<lambda>_. replicate 8 0) (u_data s'))] \<and> u_data s' ! 14 = Double (Some 0)"
proof -
  let ?sv = "\<lparr>sun_path = ''/tmp/a'', server_fd = 3, epoll_fd = 4, listeners = {5}\<rparr>"
  let ?s = "unit_globals\<lparr>u_server := ?sv\<rparr>" and ?w = "box0\<lparr>b_next := 6, b_lst := {3}, b_pol := (\<lambda>_. {3, 5})\<rparr>"
  obtain s' w' where t: "unit_tick box_kernel sorted_list_of_set (\<lambda>_. replicate 8 0) 0.02 ?s ?w = (Inr s', w')"
    and l: "listeners (u_server s') = {5}"
    using box_unit_tick [of sorted_list_of_set "\<lambda>_. replicate 8 0" "0.02" ?s ?w] by auto
  have "server_ok box_view ?sv ?w" by (auto simp: server_ok_def box_view_def b_opn_def box0_def)
  then have "unit_ok box_view (?s, no_result, [], ?w)"
    by (simp add: unit_ok_def unit_globals_def gps_ok_def gps_static_def position_cells_def sentence_cells_def)
  from unit_tick_publishes [OF box_fds ascending_order this t] obtain d w1 t1 p h w2 m w3 fs where
    d: "u_data s' = map (\<lambda>x. Double (Some x)) (d @ fst (filter_channels (u_filters ?s) d) @
        [atan2 (d ! 1) (d ! 2), atan2 (d ! 0) (sqrt (d ! 1 * d ! 1 + d ! 2 * d ! 2)), 0, t1, p]) @
      Double h # map (\<lambda>x. Double (Some x)) m @
      (if new_data (u_gps ?s) then fix_cells (u_gps ?s) else position_cells (u_data ?s)) @
      Double (Some 0.02) # replicate 7 (Double (Some 0))"
    and len: "length d = 6" and fs: "distinct fs" "set fs = listeners (u_server s')"
    and out: "sent box_view w' = sent box_view ?w @ map (\<lambda>f. (f, payload (\<lambda>_. replicate 8 0) (u_data s'))) fs"
    by blast
  have "fs = [5]" using fs l by (cases fs; cases "tl fs") auto
  moreover have "u_data s' ! 14 = Double (Some 0)"
    unfolding d using len length_filter_channels [of "u_filters ?s" d] by (simp add: nth_append unit_globals_def)
  ultimately show ?thesis using t out by (auto simp: box_view_def box0_def)
qed

end
