(* ===== verification/UnitThreads.thy ===== *)
theory UnitThreads
  imports AdiruSocket
begin

text \<open>
  The two threads of \<^verbatim>\<open>src/main/adiru-nosocket.cpp\<close>: the timer loop with its ticks and the GPS
  thread of \<^verbatim>\<open>src/backend/gps.cpp\<close> write and read the fields of the receiver without a lock. Every
  assignment to one of the shared fields and every read of one is a step of its own here, so that
  the threads may alternate between any two of them. What a thread does on its own data or with the
  kernel alone (the instruments, the broadcast, the reading and parsing of a line) is one step,
  since the other thread sees nothing of it. A field is written and read whole, in program order.
  Taken without interruption the steps are the tick and the round of the sequential theories
  (\<open>unit_tick_steps\<close>, \<open>gps_round_steps\<close>).
\<close>

section \<open>The steps of the tick\<close>

text \<open>Where the tick is: before its instruments, at an access to the receiver, or before the broadcast.\<close>

datatype tick_pc = T_start | T_check | T_lat | T_lng | T_fix | T_clear | T_send

fun tick_access :: "tick_pc \<Rightarrow> unit_state \<Rightarrow> tick_pc \<times> unit_state" where
  "tick_access T_check s = (if new_data (u_gps s) then T_lat else T_send, s)"
| "tick_access T_lat s = (T_lng, s\<lparr>u_data := put_doubles 21 [Some (gps_lat (u_gps s))] (u_data s)\<rparr>)"
| "tick_access T_lng s = (T_fix, s\<lparr>u_data := put_doubles 22 [Some (gps_lng (u_gps s))] (u_data s)\<rparr>)"
| "tick_access T_fix s =
     (T_clear, s\<lparr>u_data := put_doubles 23 [Some (if gps_fix (u_gps s) then 1 else -1)] (u_data s)\<rparr>)"
| "tick_access T_clear s = (T_send, s\<lparr>u_gps := (u_gps s)\<lparr>new_data := False\<rparr>\<rparr>)"
| "tick_access T_start s = (T_start, s)"
| "tick_access T_send s = (T_send, s)"

section \<open>The steps of the GPS thread\<close>

text \<open>The part of a round before the parser: the reads and the NUL at the end of the line.\<close>

definition gps_receive :: "'w kernel \<Rightarrow> gps \<Rightarrow> bytes \<Rightarrow> ('w, bytes) io" where
  "gps_receive k g buf =
     io_bind (gps_read k g buf) (\<lambda>(chg_len, buf).
     io_bind (if chg_len \<le> 2 then gps_read k g buf else io_return (chg_len, buf)) (\<lambda>(chg_len, buf).
     io_lift (put_nul (chg_len - 1) buf)))"

text \<open>The parser on the thread's own result, and whether the device is to take it.\<close>

definition gps_parse :: "string \<Rightarrow> nmea_result \<Rightarrow> fault + bool \<times> nmea_result" where
  "gps_parse s r =
     (case process_nmea_line s r of
       (Inl e, r) \<Rightarrow> if std_exception e then Inr (False, r) else Inl e
     | (Inr _, r) \<Rightarrow> Inr (useful r, r))"

definition gps_listen :: "'w kernel \<Rightarrow> gps \<Rightarrow> nmea_result \<times> bytes \<Rightarrow> ('w, bool \<times> nmea_result \<times> bytes) io" where
  "gps_listen k g = (\<lambda>(r, buf).
     io_bind (gps_receive k g buf) (\<lambda>buf.
     io_bind (io_lift (gps_parse (buf_text buf) r)) (\<lambda>(taken, r).
     io_return (taken, r, buf))))"

text \<open>Where the thread is: before its reads, or before one of the five assignments to the device.\<close>

datatype gps_pc = G_read | G_last | G_lat | G_lng | G_fix | G_new

fun gps_store :: "gps_pc \<Rightarrow> nmea_result \<Rightarrow> gps \<Rightarrow> gps_pc \<times> gps" where
  "gps_store G_last r g = (G_lat, g\<lparr>last_useful := r\<rparr>)"
| "gps_store G_lat r g = (G_lng, g\<lparr>gps_lat := lat r\<rparr>)"
| "gps_store G_lng r g = (G_fix, g\<lparr>gps_lng := lng r\<rparr>)"
| "gps_store G_fix r g = (G_new, g\<lparr>gps_fix := nr_fix r\<rparr>)"
| "gps_store G_new r g = (G_read, g\<lparr>new_data := True\<rparr>)"
| "gps_store G_read r g = (G_read, g)"

section \<open>The two together\<close>

type_synonym 'w threads = "unit_state \<times> tick_pc \<times> gps_pc \<times> nmea_result \<times> bytes \<times> 'w"

inductive unit_step ::
  "'w kernel \<Rightarrow> (int set \<Rightarrow> int list) \<Rightarrow> (real option \<Rightarrow> bytes) \<Rightarrow> 'w threads \<Rightarrow> 'w threads \<Rightarrow> bool"
  for k ord rep where
  Instruments: "unit_instruments k dt s w = (s', w') \<Longrightarrow>
    unit_step k ord rep (s, T_start, gp, r, buf, w) (s', T_check, gp, r, buf, w')"
| Access: "tp \<noteq> T_start \<Longrightarrow> tp \<noteq> T_send \<Longrightarrow> tick_access tp s = (tp', s') \<Longrightarrow>
    unit_step k ord rep (s, tp, gp, r, buf, w) (s', tp', gp, r, buf, w)"
| Send: "server_tick k ord (payload rep (u_data s)) (u_server s) w = (Inr sv, w') \<Longrightarrow>
    unit_step k ord rep (s, T_send, gp, r, buf, w) (s\<lparr>u_server := sv\<rparr>, T_start, gp, r, buf, w')"
| Listen: "gps_listen k (u_gps s) (r, buf) w = (Inr (taken, r', buf'), w') \<Longrightarrow>
    unit_step k ord rep (s, tp, G_read, r, buf, w) (s, tp, if taken then G_last else G_read, r', buf', w')"
| Store: "gp \<noteq> G_read \<Longrightarrow> gps_store gp r (u_gps s) = (gp', g) \<Longrightarrow>
    unit_step k ord rep (s, tp, gp, r, buf, w) (s\<lparr>u_gps := g\<rparr>, tp, gp', r, buf, w)"

section \<open>Undisturbed threads\<close>

lemma five_steps: "R a b \<Longrightarrow> R b c \<Longrightarrow> R c d \<Longrightarrow> R d e \<Longrightarrow> R e f \<Longrightarrow> R\<^sup>*\<^sup>* a f"
  by (meson converse_rtranclp_into_rtranclp r_into_rtranclp)



text \<open>So is a round of the GPS thread.\<close>

lemma gps_round_split:
  "gps_round k (g, r, buf) =
     io_bind (gps_listen k g (r, buf)) (\<lambda>(taken, r, buf). io_return (if taken then gps_take r g else g, r, buf))"
proof -
  have line: "gps_line s (g, r) =
      (case gps_parse s r of Inl e \<Rightarrow> Inl e | Inr (taken, r) \<Rightarrow> Inr (if taken then gps_take r g else g, r))" for s
    by (auto simp: gps_line_def gps_parse_def gps_take_def split: prod.splits sum.splits)
  show ?thesis
    by (rule ext) (auto simp: gps_round_def gps_listen_def gps_receive_def line io_bind_def io_lift_def io_return_def
        split: prod.splits sum.splits)
qed

lemma gps_parse_taken: "gps_parse s r = Inr (True, r') \<Longrightarrow> useful r'"
  by (auto simp: gps_parse_def split: prod.splits sum.splits if_splits)

lemma gps_listen_taken: "gps_listen k g (r, buf) w = (Inr (True, r', buf'), w') \<Longrightarrow> useful r'"
  by (auto simp: gps_listen_def io_lift_def io_return_def dest: gps_parse_taken elim!: io_bind_InrE split: prod.splits)

lemma store_steps:
  assumes "useful r"
  shows "(unit_step k ord rep)\<^sup>*\<^sup>* (s, tp, G_last, r, buf, w) (s\<lparr>u_gps := gps_take r (u_gps s)\<rparr>, tp, G_read, r, buf, w)"
proof -
  have a: "gp \<noteq> G_read \<Longrightarrow> unit_step k ord rep (s\<lparr>u_gps := g\<rparr>, tp, gp, r, buf, w)
      (s\<lparr>u_gps := snd (gps_store gp r g)\<rparr>, tp, fst (gps_store gp r g), r, buf, w)" for gp g
    using Store [of gp r "s\<lparr>u_gps := g\<rparr>" "fst (gps_store gp r g)" "snd (gps_store gp r g)" k ord rep tp buf w] by simp
  define g1 where "g1 = snd (gps_store G_last r (u_gps s))"
  define g2 where "g2 = snd (gps_store G_lat r g1)"
  define g3 where "g3 = snd (gps_store G_lng r g2)"
  define g4 where "g4 = snd (gps_store G_fix r g3)"
  have g5: "snd (gps_store G_new r g4) = gps_take r (u_gps s)" by (simp add: gps_take_def assms g1_def g2_def g3_def g4_def)
  have 1: "unit_step k ord rep (s, tp, G_last, r, buf, w) (s\<lparr>u_gps := g1\<rparr>, tp, G_lat, r, buf, w)"
    using a [of G_last "u_gps s"] by (simp add: g1_def)
  have 2: "unit_step k ord rep (s\<lparr>u_gps := g1\<rparr>, tp, G_lat, r, buf, w) (s\<lparr>u_gps := g2\<rparr>, tp, G_lng, r, buf, w)"
    using a [of G_lat g1] by (simp add: g2_def)
  have 3: "unit_step k ord rep (s\<lparr>u_gps := g2\<rparr>, tp, G_lng, r, buf, w) (s\<lparr>u_gps := g3\<rparr>, tp, G_fix, r, buf, w)"
    using a [of G_lng g2] by (simp add: g3_def)
  have 4: "unit_step k ord rep (s\<lparr>u_gps := g3\<rparr>, tp, G_fix, r, buf, w) (s\<lparr>u_gps := g4\<rparr>, tp, G_new, r, buf, w)"
    using a [of G_fix g3] by (simp add: g4_def)
  have 5: "unit_step k ord rep (s\<lparr>u_gps := g4\<rparr>, tp, G_new, r, buf, w) (s\<lparr>u_gps := gps_take r (u_gps s)\<rparr>, tp, G_read, r, buf, w)"
    using a [of G_new g4] by (simp add: g5 [symmetric])
  show ?thesis using 1 2 3 4 5 by (rule five_steps)
qed

lemma listen_steps:
  assumes "gps_listen k (u_gps s) (r, buf) w = (Inr (taken, r', buf'), w')"
  shows "(unit_step k ord rep)\<^sup>*\<^sup>* (s, tp, G_read, r, buf, w)
    (s\<lparr>u_gps := if taken then gps_take r' (u_gps s) else u_gps s\<rparr>, tp, G_read, r', buf', w')"
proof (cases taken)
  case True
  then have "unit_step k ord rep (s, tp, G_read, r, buf, w) (s, tp, G_last, r', buf', w')" using Listen [OF assms] by simp
  moreover have "useful r'" using assms True by (auto dest: gps_listen_taken)
  ultimately have "(unit_step k ord rep)\<^sup>*\<^sup>* (s, tp, G_read, r, buf, w)
      (s\<lparr>u_gps := gps_take r' (u_gps s)\<rparr>, tp, G_read, r', buf', w')"
    by (rule converse_rtranclp_into_rtranclp [OF _ store_steps])
  then show ?thesis using True by simp
next
  case False
  then have "unit_step k ord rep (s, tp, G_read, r, buf, w) (s, tp, G_read, r', buf', w')" using Listen [OF assms] by simp
  then show ?thesis using False by simp
qed

lemma gps_round_steps:
  assumes "gps_round k (u_gps s, r, buf) w = (Inr (g, r', buf'), w')"
  shows "(unit_step k ord rep)\<^sup>*\<^sup>* (s, tp, G_read, r, buf, w) (s\<lparr>u_gps := g\<rparr>, tp, G_read, r', buf', w')"
proof -
  obtain taken where l: "gps_listen k (u_gps s) (r, buf) w = (Inr (taken, r', buf'), w')"
    and g: "g = (if taken then gps_take r' (u_gps s) else u_gps s)"
    using assms unfolding gps_round_split by (auto simp: io_return_def elim!: io_bind_InrE)
  show ?thesis using listen_steps [OF l, of ord rep tp] unfolding g .
qed

section \<open>The invariant\<close>


definition fix_sign :: "nmea_result \<Rightarrow> real" where
  "fix_sign q = (if nr_fix q then 1 else -1)"








subsection \<open>The instruments and the broadcast\<close>



subsection \<open>The other thread's line\<close>





subsection \<open>Every step keeps it\<close>










section \<open>What a tick copies\<close>



text \<open>
  A position can be mixed: when a line comes in after the tick has copied the latitude, the block
  gets the longitude and the fix of the new sentence beside the old latitude, and the tick then
  clears the mark of the new sentence, whose latitude is never copied.
\<close>

lemma position_mixed:
  assumes "gps_listen k (u_gps s) (r, buf) w = (Inr (True, q, buf'), w')" "length (u_data s) = 32"
  obtains s' where "(unit_step k ord rep)\<^sup>*\<^sup>* (s, T_lng, G_read, r, buf, w) (s', T_send, G_read, q, buf', w')"
    "position_cells (u_data s') = [u_data s ! 21, Double (Some (lng q)), Double (Some (fix_sign q))]"
    "\<not> new_data (u_gps s')"
proof -
  have u: "useful q" using assms(1) by (rule gps_listen_taken)
  define s1 where "s1 = s\<lparr>u_gps := gps_take q (u_gps s)\<rparr>"
  define s2 where "s2 = snd (tick_access T_lng s1)"
  define s3 where "s3 = snd (tick_access T_fix s2)"
  define s4 where "s4 = snd (tick_access T_clear s3)"
  have 1: "(unit_step k ord rep)\<^sup>*\<^sup>* (s, T_lng, G_read, r, buf, w) (s1, T_lng, G_read, q, buf', w')"
    using listen_steps [OF assms(1), of ord rep T_lng] by (simp add: s1_def)
  have 2: "unit_step k ord rep (s1, T_lng, G_read, q, buf', w') (s2, T_fix, G_read, q, buf', w')"
    "unit_step k ord rep (s2, T_fix, G_read, q, buf', w') (s3, T_clear, G_read, q, buf', w')"
    "unit_step k ord rep (s3, T_clear, G_read, q, buf', w') (s4, T_send, G_read, q, buf', w')"
    by (rule Access; simp add: s2_def s3_def s4_def)+
  have data: "u_data s4 = (u_data s)[22 := Double (Some (lng q)), 23 := Double (Some (fix_sign q))]"
    by (simp add: s1_def s2_def s3_def s4_def gps_take_def u fix_sign_def)
  have "position_cells cs = [cs ! 21, cs ! 22, cs ! 23]" if "length cs = 32" for cs
    using that by (simp add: position_cells_def list_eq_iff_nth_eq nth_Cons' less_Suc_eq numeral_eq_Suc)
  then have "position_cells (u_data s4) = [u_data s ! 21, Double (Some (lng q)), Double (Some (fix_sign q))]"
    using assms(2) by (simp add: data)
  moreover have "\<not> new_data (u_gps s4)" by (simp add: s4_def)
  ultimately show thesis
    using that rtranclp.rtrancl_into_rtrancl [OF rtranclp.rtrancl_into_rtrancl [OF rtranclp.rtrancl_into_rtrancl [OF 1 2(1)] 2(2)] 2(3)]
    by blast
qed

section \<open>Property\<close>



end
