(* ===== verification/Monitor.thy ===== *)
theory Monitor
  imports StdNum MathLib Timer
begin

text \<open>
  \<^verbatim>\<open>src/main/monitor.cpp\<close>: the terminal display of the broadcasting unit. Text is the bytes that
  are written, so the box-drawing characters are their three UTF-8 bytes. A table is a text
  buffer of 2048 bytes; a byte stored past its end is a fault. The object representation of a
  double is the argument \<open>val\<close>: \<^verbatim>\<open>None\<close> is a NaN.
\<close>

section \<open>Formatted text\<close>

text \<open>A \<^verbatim>\<open>size_t\<close> that \<^verbatim>\<open>%d\<close> reads as an \<^verbatim>\<open>int\<close>, and \<^verbatim>\<open>%w.pf\<close> of a double that may be a NaN.\<close>

definition int_arg :: "int \<Rightarrow> int" where
  "int_arg n = sint (word_of_int n :: u32)"

definition show_double :: "nat \<Rightarrow> nat \<Rightarrow> real option \<Rightarrow> string" where
  "show_double w p x = (case x of None \<Rightarrow> pad_left w ''nan'' | Some x \<Rightarrow> fmt_f w p x)"

definition goto_text :: "int \<Rightarrow> int \<Rightarrow> string" where
  "goto_text row col = esc @ ''['' @ fmt_d row @ '';'' @ fmt_d col @ ''H''"

primrec io_each :: "('a \<Rightarrow> ('w, unit) io) \<Rightarrow> 'a list \<Rightarrow> ('w, unit) io" where
  "io_each f [] = io_return ()"
| "io_each f (x # xs) = io_bind (f x) (\<lambda>_. io_each f xs)"

definition full_block :: string where "full_block = [CHR 0xE2, CHR 0x96, CHR 0x88]"

definition draw_power_bar :: "'w kernel \<Rightarrow> string \<Rightarrow> int \<Rightarrow> real \<Rightarrow> ('w, unit) io" where
  "draw_power_bar k title width pwr =
     io_bind (io_lift (int_of_double (pwr * real_of_int width))) (\<lambda>n.
     io_bind (io_act (call k (Puts (esc @ ''[2K'' @ pad_left 10 title @ '': '')))) (\<lambda>_.
     io_bind (io_each (\<lambda>i. io_act (call k (Puts (if i < n then full_block else '' '')))) [0..width - 1]) (\<lambda>_.
     io_act (call k (Puts (''   '' @ fmt_f 3 1 (pwr * 100) @ ''%'' @ newline))))))"

section \<open>Messages\<close>

record messages =
  msgs :: "string option list"
  updated :: bool

definition messages0 :: messages where
  "messages0 = \<lparr>msgs = replicate 20 None, updated = False\<rparr>"

definition messages_init :: "messages \<Rightarrow> messages" where
  "messages_init l = l\<lparr>msgs := map (\<lambda>_. None) (msgs l)\<rparr>"

definition log_message :: "string \<Rightarrow> messages \<Rightarrow> messages" where
  "log_message msg l = l\<lparr>msgs := tl (msgs l) @ [Some msg], updated := True\<rparr>"

primrec draw_messages :: "'w kernel \<Rightarrow> nat \<Rightarrow> string option list \<Rightarrow> 'w \<Rightarrow> 'w" where
  "draw_messages k i [] w = w"
| "draw_messages k i (m # ms) w =
     (case m of
        None \<Rightarrow> w
      | Some s \<Rightarrow> draw_messages k (Suc i) ms
          (call k (Puts (goto_text (int_arg (70 + int i)) 10 @ s)) w))"

definition messages_draw :: "'w kernel \<Rightarrow> messages \<times> 'w \<Rightarrow> messages \<times> 'w" where
  "messages_draw k = (\<lambda>(l, w).
     if \<not> updated l then (l, w)
     else (let l = l\<lparr>updated := False\<rparr> in (l, draw_messages k 0 (msgs l) w)))"

section \<open>Tables\<close>

record cli_table =
  buffer :: string
  tx :: int
  ty :: int
  ti :: nat

definition table0 :: cli_table where
  "table0 = \<lparr>buffer = replicate 2048 (CHR 0x00), tx = 0, ty = 1, ti = 0\<rparr>"

definition put_char :: "char \<Rightarrow> (cli_table, unit) io" where
  "put_char c t =
     (if ti t < length (buffer t) then (Inr (), t\<lparr>buffer := (buffer t)[ti t := c], ti := Suc (ti t)\<rparr>)
      else (Inl Undefined_behaviour, t))"

definition copy_text :: "string \<Rightarrow> (cli_table, unit) io" where
  "copy_text str = io_each put_char str"

definition copy_text_n :: "string \<Rightarrow> nat \<Rightarrow> (cli_table, unit) io" where
  "copy_text_n str n = io_each put_char (take n str)"

definition gen_row :: "nat \<Rightarrow> string \<Rightarrow> string \<Rightarrow> string \<Rightarrow> string \<Rightarrow> (cli_table, unit) io" where
  "gen_row n_c left mid mid_sep right =
     io_bind (copy_text left) (\<lambda>_.
     io_each (\<lambda>c. io_bind (io_each (\<lambda>_. copy_text mid) [0..<9]) (\<lambda>_.
                  copy_text (if c = n_c - 1 then right else mid_sep))) [0..<n_c])"

definition top_row :: "nat \<Rightarrow> (cli_table, unit) io" where
  "top_row n_c = gen_row n_c [CHR 0xE2, CHR 0x95, CHR 0x94] [CHR 0xE2, CHR 0x95, CHR 0x90]
     [CHR 0xE2, CHR 0x95, CHR 0xA4] [CHR 0xE2, CHR 0x95, CHR 0x97]"

definition mid_row :: "nat \<Rightarrow> (cli_table, unit) io" where
  "mid_row n_c = gen_row n_c [CHR 0xE2, CHR 0x95, CHR 0x9F] [CHR 0xE2, CHR 0x94, CHR 0x80]
     [CHR 0xE2, CHR 0x94, CHR 0xBC] [CHR 0xE2, CHR 0x95, CHR 0xA2]"

definition cell_row :: "nat \<Rightarrow> (cli_table, unit) io" where
  "cell_row n_c = gen_row n_c [CHR 0xE2, CHR 0x95, CHR 0x91] '' ''
     [CHR 0xE2, CHR 0x94, CHR 0x82] [CHR 0xE2, CHR 0x95, CHR 0x91]"

definition end_row :: "nat \<Rightarrow> (cli_table, unit) io" where
  "end_row n_c = gen_row n_c [CHR 0xE2, CHR 0x95, CHR 0x9A] [CHR 0xE2, CHR 0x95, CHR 0x90]
     [CHR 0xE2, CHR 0x95, CHR 0xA7] [CHR 0xE2, CHR 0x95, CHR 0x9D]"

text \<open>\<^verbatim>\<open>snprintf (fmt_buf, n, ...)\<close> and the copy of what it leaves.\<close>

definition copy_limited :: "nat \<Rightarrow> string \<Rightarrow> (cli_table, unit) io" where
  "copy_limited n str = copy_text (take (n - 1) str)"

definition row_start :: "nat \<Rightarrow> nat \<Rightarrow> (cli_table, unit) io" where
  "row_start r j t = copy_limited 16 (goto_text (int_arg (ty t + int r * 2 + int j)) (tx t)) t"

definition table_init :: "nat \<Rightarrow> nat \<Rightarrow> (cli_table, unit) io" where
  "table_init n_r n_c =
     io_each (\<lambda>r.
       io_bind (row_start r 0) (\<lambda>_.
       io_bind (if r = 0 then top_row n_c else mid_row n_c) (\<lambda>_.
       io_bind (row_start r 1) (\<lambda>_.
       io_bind (cell_row n_c) (\<lambda>_.
         if r = n_r - 1 then io_bind (row_start r 2) (\<lambda>_. end_row n_c) else io_return ()))))) [0..<n_r]"

definition set_fg_color :: "int \<Rightarrow> int \<Rightarrow> int \<Rightarrow> (cli_table, unit) io" where
  "set_fg_color r g b = copy_limited 32 (esc @ ''[38;2;'' @ fmt_d r @ '';'' @ fmt_d g @ '';'' @ fmt_d b @ ''m'')"

definition set_bg_color :: "int \<Rightarrow> int \<Rightarrow> int \<Rightarrow> (cli_table, unit) io" where
  "set_bg_color r g b = copy_limited 32 (esc @ ''[48;2;'' @ fmt_d r @ '';'' @ fmt_d g @ '';'' @ fmt_d b @ ''m'')"

definition set_color :: "int \<Rightarrow> (cli_table, unit) io" where
  "set_color color = io_return ()"

definition set_bold :: "(cli_table, unit) io" where "set_bold = copy_text (esc @ ''[1m'')"
definition set_faint :: "(cli_table, unit) io" where "set_faint = copy_text (esc @ ''[2m'')"
definition set_italic :: "(cli_table, unit) io" where "set_italic = copy_text (esc @ ''[3m'')"
definition set_underline :: "(cli_table, unit) io" where "set_underline = copy_text (esc @ ''[4m'')"
definition set_blinking :: "(cli_table, unit) io" where "set_blinking = copy_text (esc @ ''[5m'')"
definition set_inverse :: "(cli_table, unit) io" where "set_inverse = copy_text (esc @ ''[6m'')"
definition set_invisible :: "(cli_table, unit) io" where "set_invisible = copy_text (esc @ ''[7m'')"
definition set_strikethrough :: "(cli_table, unit) io" where "set_strikethrough = copy_text (esc @ ''[8m'')"
definition table_reset :: "(cli_table, unit) io" where "table_reset = copy_text (esc @ ''[0m'')"

definition cell_text :: "cli_table \<Rightarrow> nat \<Rightarrow> nat \<Rightarrow> string \<Rightarrow> string" where
  "cell_text t r c str =
     take 31 (goto_text (int_arg (ty t + int r * 2 + 1)) (int_arg (tx t + int c * 10 + 1)) @ str)"

definition write_string :: "nat \<Rightarrow> nat \<Rightarrow> string \<Rightarrow> (cli_table, unit) io" where
  "write_string r c str t = copy_text (cell_text t r c (pad_left 7 str)) t"

definition write_double :: "nat \<Rightarrow> nat \<Rightarrow> real option \<Rightarrow> (cli_table, unit) io" where
  "write_double r c d t = copy_text (cell_text t r c (show_double 7 3 d)) t"

text \<open>\<^verbatim>\<open>draw\<close>: the text up to the first NUL of the buffer.\<close>

definition table_draw :: "'w kernel \<Rightarrow> cli_table \<Rightarrow> ('w, cli_table) io" where
  "table_draw k t w =
     (if ti t = 0 then (Inr t, w)
      else (case table_reset t of
              (Inl e, t) \<Rightarrow> (Inl e, w)
            | (Inr _, t) \<Rightarrow>
                if ti t < length (buffer t) then
                  (let t = t\<lparr>buffer := (buffer t)[ti t := CHR 0x00]\<rparr>;
                       w = call k (Puts (takeWhile (\<lambda>c. c \<noteq> CHR 0x00) (buffer t))) w
                   in (Inr (t\<lparr>ti := 0\<rparr>), w))
                else (Inl Undefined_behaviour, w)))"

section \<open>The program\<close>

record monitor =
  acceleration_disp :: cli_table
  gyro_disp :: cli_table
  orientation_disp :: cli_table
  gps_disp :: cli_table
  press_disp :: cli_table
  magnet_disp :: cli_table
  mon_log :: messages
  mon_data :: bytes
  adiru_connected :: bool
  running :: bool
  last_char :: char
  last_n :: int
  old_terminal_settings :: int

definition monitor_globals :: monitor where
  "monitor_globals = \<lparr>acceleration_disp = table0, gyro_disp = table0, orientation_disp = table0,
     gps_disp = table0, press_disp = table0, magnet_disp = table0, mon_log = messages0,
     mon_data = replicate 256 0, adiru_connected = False, running = True, last_char = CHR ''?'', last_n = -1,
     old_terminal_settings = 0\<rparr>"

text \<open>The doubles of the block: 0 inertial, 6 filtered, 12 angles, 15 barometer, 18 compass, 21 position.\<close>

definition dbl :: "(bytes \<Rightarrow> real option) \<Rightarrow> monitor \<Rightarrow> nat \<Rightarrow> real option" where
  "dbl val s i = val (take 8 (drop (8 * i) (mon_data s)))"

definition in_degrees :: "real option \<Rightarrow> real option" where
  "in_degrees x = map_option (\<lambda>x. x * RAD_TO_DEG) x"

definition write_cells :: "(nat \<times> nat \<times> real option) list \<Rightarrow> (cli_table, unit) io" where
  "write_cells = io_each (\<lambda>(r, c, d). write_double r c d)"

definition acceleration_cells :: "(nat \<Rightarrow> real option) \<Rightarrow> (nat \<times> nat \<times> real option) list" where
  "acceleration_cells d = [(1, 1, d 0), (1, 2, d 1), (1, 3, d 2), (2, 1, d 6), (2, 2, d 7), (2, 3, d 8)]"

definition gyro_cells :: "(nat \<Rightarrow> real option) \<Rightarrow> (nat \<times> nat \<times> real option) list" where
  "gyro_cells d = [(1, 1, in_degrees (d 3)), (1, 2, in_degrees (d 4)), (1, 3, in_degrees (d 5)),
     (2, 1, in_degrees (d 9)), (2, 2, in_degrees (d 10)), (2, 3, in_degrees (d 11))]"

definition orientation_cells :: "(nat \<Rightarrow> real option) \<Rightarrow> (nat \<times> nat \<times> real option) list" where
  "orientation_cells d = [(1, 0, in_degrees (d 12)), (1, 1, in_degrees (d 13)), (1, 2, in_degrees (d 14))]"

definition gps_cells :: "(nat \<Rightarrow> real option) \<Rightarrow> (nat \<times> nat \<times> real option) list" where
  "gps_cells d = [(1, 0, d 21), (1, 1, d 22)]"

definition press_cells :: "(nat \<Rightarrow> real option) \<Rightarrow> (nat \<times> nat \<times> real option) list" where
  "press_cells d = [(1, 0, d 15), (1, 1, map_option (\<lambda>x. x / 1000) (d 16)), (1, 2, d 17)]"

definition magnet_cells :: "(nat \<Rightarrow> real option) \<Rightarrow> (nat \<times> nat \<times> real option) list" where
  "magnet_cells d = [(1, 0, d 18), (1, 1, d 19), (1, 2, d 20)]"

text \<open>An action on one table of the program, and all the writes of a tick.\<close>

definition on_table ::
  "(monitor \<Rightarrow> cli_table) \<Rightarrow> (cli_table \<Rightarrow> monitor \<Rightarrow> monitor) \<Rightarrow> (cli_table, unit) io \<Rightarrow> (monitor, unit) io" where
  "on_table get put m s = (case m (get s) of (x, t) \<Rightarrow> (x, put t s))"

definition on_acceleration where "on_acceleration = on_table acceleration_disp (\<lambda>t. acceleration_disp_update (\<lambda>_. t))"
definition on_gyro where "on_gyro = on_table gyro_disp (\<lambda>t. gyro_disp_update (\<lambda>_. t))"
definition on_orientation where "on_orientation = on_table orientation_disp (\<lambda>t. orientation_disp_update (\<lambda>_. t))"
definition on_gps where "on_gps = on_table gps_disp (\<lambda>t. gps_disp_update (\<lambda>_. t))"
definition on_press where "on_press = on_table press_disp (\<lambda>t. press_disp_update (\<lambda>_. t))"
definition on_magnet where "on_magnet = on_table magnet_disp (\<lambda>t. magnet_disp_update (\<lambda>_. t))"

definition write_tick :: "(nat \<Rightarrow> real option) \<Rightarrow> (monitor, unit) io" where
  "write_tick d =
     io_bind (on_acceleration (write_cells (acceleration_cells d))) (\<lambda>_.
     io_bind (on_gyro (write_cells (gyro_cells d))) (\<lambda>_.
     io_bind (on_orientation (write_cells (orientation_cells d))) (\<lambda>_.
     io_bind (on_gps (write_cells (gps_cells d))) (\<lambda>_.
     io_bind (on_press (write_cells (press_cells d))) (\<lambda>_.
     on_magnet (write_cells (magnet_cells d)))))))"

definition draw_tables :: "'w kernel \<Rightarrow> monitor \<Rightarrow> ('w, monitor) io" where
  "draw_tables k s =
     io_bind (table_draw k (acceleration_disp s)) (\<lambda>a.
     io_bind (table_draw k (gyro_disp s)) (\<lambda>g.
     io_bind (table_draw k (orientation_disp s)) (\<lambda>or.
     io_bind (table_draw k (gps_disp s)) (\<lambda>gp.
     io_bind (table_draw k (press_disp s)) (\<lambda>p.
     io_bind (table_draw k (magnet_disp s)) (\<lambda>m.
     io_return (s\<lparr>acceleration_disp := a, gyro_disp := g, orientation_disp := or, gps_disp := gp,
       press_disp := p, magnet_disp := m\<rparr>)))))))"

definition mon_print_action :: "'w kernel \<Rightarrow> string \<Rightarrow> 'w \<Rightarrow> 'w" where
  "mon_print_action k msg w = call k (Puts msg) w"

definition mon_print_success :: "'w kernel \<Rightarrow> string \<Rightarrow> 'w \<Rightarrow> 'w" where
  "mon_print_success k msg w = call k (Puts (esc @ ''[1;32m'' @ msg @ esc @ ''[0m'')) w"

definition mon_print_fail :: "'w kernel \<Rightarrow> string \<Rightarrow> 'w \<Rightarrow> 'w" where
  "mon_print_fail k msg w = call k (Puts (esc @ ''[1;31m'' @ msg @ esc @ ''[0m'')) w"

definition draw_status :: "'w kernel \<Rightarrow> bool \<Rightarrow> real option \<Rightarrow> 'w \<Rightarrow> 'w" where
  "draw_status k online fix w =
     (let w = mon_print_action k (esc @ ''[2;100HADIRU - '') w;
          w = (if online then mon_print_success k ''ONLINE '' w else mon_print_fail k ''OFFLINE'' w);
          w = mon_print_action k (esc @ ''[3;102HGPS - '') w;
          w = (case fix of Some x \<Rightarrow> (if x > 0 then mon_print_success k ''FIXED '' w else mon_print_fail k ''NO FIX'' w)
               | None \<Rightarrow> mon_print_fail k ''NO FIX'' w);
          w = call k (Puts (esc @ ''[H'')) w
      in call k Flush w)"

definition mon_tick :: "'w kernel \<Rightarrow> (bytes \<Rightarrow> real option) \<Rightarrow> monitor \<Rightarrow> ('w, monitor) io" where
  "mon_tick k val s =
     (case write_tick (dbl val s) s of
        (Inl e, s') \<Rightarrow> io_fail e
      | (Inr _, s') \<Rightarrow>
          io_bind (draw_tables k s') (\<lambda>s' w.
          let (l, w) = messages_draw k (mon_log s', w);
              w = draw_status k (adiru_connected s') (dbl val s' 23) w
          in (Inr (s'\<lparr>mon_log := l\<rparr>), w)))"

text \<open>The two other threads; \<open>n\<close> bounds the rounds that are looked at.\<close>

definition print_loop :: "nat \<Rightarrow> 'w kernel \<Rightarrow> (bytes \<Rightarrow> real option) \<Rightarrow> monitor \<Rightarrow> ('w, monitor) io" where
  "print_loop n k val s = create_timer_v n k (mon_tick k val) (word_of_int (1000 div 10)) s"

primrec input_thread :: "nat \<Rightarrow> 'w kernel \<Rightarrow> monitor \<Rightarrow> 'w \<Rightarrow> monitor \<times> 'w" where
  "input_thread 0 k s w = (s, w)"
| "input_thread (Suc n) k s w =
     (if running s then
        (let inp = uninit k 256 w; (a, w) = k (Read 0 256) w; inp = store inp (take 256 (rdata a))
         in input_thread n k (s\<lparr>last_char := char_of (unat (inp ! 0)), last_n := sint (word_of_int (rval a) :: u8)\<rparr>) w)
      else (s, w))"

section \<open>The terminal\<close>

definition disable_raw_mode :: "'w kernel \<Rightarrow> monitor \<Rightarrow> 'w \<Rightarrow> 'w" where
  "disable_raw_mode k s w =
     (let w = call k (Tcsetattr (old_terminal_settings s)) w;
          w = call k (Puts (esc @ ''[?1049l'')) w
      in call k Flush w)"

definition on_interrupt :: "'w kernel \<Rightarrow> monitor \<Rightarrow> ('w, unit) io" where
  "on_interrupt k s w = (Inl (Exited 1), disable_raw_mode k s w)"

text \<open>The answer of \<^verbatim>\<open>tcgetattr\<close> stands for the local flags, the part of the settings that changes.\<close>

definition TTY_ECHO :: u32 where "TTY_ECHO = 8"
definition TTY_ICANON :: u32 where "TTY_ICANON = 2"

definition enable_raw_mode :: "'w kernel \<Rightarrow> monitor \<Rightarrow> 'w \<Rightarrow> monitor \<times> 'w" where
  "enable_raw_mode k s w =
     (let (old, w) = ask k Tcgetattr w;
          s = s\<lparr>old_terminal_settings := old\<rparr>;
          raw = uint (word_of_int old AND NOT (TTY_ECHO OR TTY_ICANON))
      in (s, call k (Tcsetattr raw) w))"

section \<open>Connection\<close>

text \<open>The first \<open>n\<close> attempts to connect.\<close>

primrec connect_adiru :: "nat \<Rightarrow> 'w kernel \<Rightarrow> int \<Rightarrow> bool \<times> 'w \<Rightarrow> bool \<times> 'w" where
  "connect_adiru 0 k sock cw = cw"
| "connect_adiru (Suc n) k sock cw =
     (case cw of (online, w) \<Rightarrow>
        if online then (online, w)
        else
          (let (r, w) = ask k (Connect sock (Sockaddr_un ''/tmp/adiru.sock'')) w
           in if r < 0 then connect_adiru n k sock (False, call k (Usleep 100000) w)
              else connect_adiru n k sock (True, w)))"

definition mon_connect :: "nat \<Rightarrow> 'w kernel \<Rightarrow> int \<Rightarrow> monitor \<times> 'w \<Rightarrow> monitor \<times> 'w" where
  "mon_connect n k sock = (\<lambda>(s, w).
     let (c, w) = connect_adiru n k sock (adiru_connected s, w) in (s\<lparr>adiru_connected := c\<rparr>, w))"

text \<open>
  One turn of the receiving loop: a packet overwrites the front of the block; when none comes the
  connection is made anew. The second component says that the attempts looked at were enough.
\<close>

definition receive_round :: "nat \<Rightarrow> 'w kernel \<Rightarrow> int \<times> monitor \<times> 'w \<Rightarrow> int \<times> monitor \<times> 'w" where
  "receive_round n k = (\<lambda>(sock, s, w).
     let (a, w) = k (Recv sock 256) w;
         s = s\<lparr>mon_data := store (mon_data s) (take 256 (rdata a))\<rparr>
     in if rval a \<le> 0 then
          (let s = s\<lparr>mon_log := log_message ''Lost connection to the ADIRU'' (mon_log s), adiru_connected := False\<rparr>;
               w = call k (Close sock) w;
               (sock, w) = ask k (Socket 1 5 0) w;
               (s, w) = mon_connect n k sock (s, w)
           in (sock, s, w))
        else (sock, s, w))"

primrec receive_loop :: "nat \<Rightarrow> nat \<Rightarrow> 'w kernel \<Rightarrow> int \<times> monitor \<times> 'w \<Rightarrow> int \<times> monitor \<times> 'w" where
  "receive_loop 0 n k x = x"
| "receive_loop (Suc j) n k x =
     (let x = receive_round n k x
      in if adiru_connected (fst (snd x)) then receive_loop j n k x else x)"

section \<open>Start-up\<close>

definition place_tables :: "monitor \<Rightarrow> monitor" where
  "place_tables s = s\<lparr>
     acceleration_disp := (acceleration_disp s)\<lparr>tx := 10, ty := 2\<rparr>,
     gyro_disp := (gyro_disp s)\<lparr>tx := 54, ty := 2\<rparr>,
     orientation_disp := (orientation_disp s)\<lparr>tx := 45, ty := 12\<rparr>,
     press_disp := (press_disp s)\<lparr>tx := 10, ty := 12\<rparr>,
     gps_disp := (gps_disp s)\<lparr>tx := 10, ty := 24\<rparr>,
     magnet_disp := (magnet_disp s)\<lparr>tx := 10, ty := 18\<rparr>\<rparr>"

text \<open>The shape and the bold headings of one table.\<close>

definition lay_out :: "nat \<Rightarrow> nat \<Rightarrow> (nat \<times> nat \<times> string) list \<Rightarrow> (cli_table, unit) io" where
  "lay_out n_r n_c heads =
     io_bind (table_init n_r n_c) (\<lambda>_.
     io_bind set_bold (\<lambda>_.
     io_bind (io_each (\<lambda>(r, c, h). write_string r c h) heads) (\<lambda>_. table_reset)))"

definition acceleration_heads :: "(nat \<times> nat \<times> string) list" where
  "acceleration_heads = [(0, 1, ''ax''), (0, 2, ''ay''), (0, 3, ''az''), (1, 0, ''raw''), (2, 0, ''filter'')]"

definition gyro_heads :: "(nat \<times> nat \<times> string) list" where
  "gyro_heads = [(0, 1, ''vr''), (0, 2, ''vp''), (0, 3, ''vy''), (1, 0, ''raw''), (2, 0, ''filter'')]"

definition orientation_heads :: "(nat \<times> nat \<times> string) list" where
  "orientation_heads = [(0, 0, ''roll''), (0, 1, ''pitch''), (0, 2, ''yaw'')]"

definition press_heads :: "(nat \<times> nat \<times> string) list" where
  "press_heads = [(0, 0, ''temp''), (0, 1, ''press''), (0, 2, ''altitude'')]"

definition gps_heads :: "(nat \<times> nat \<times> string) list" where
  "gps_heads = [(0, 0, ''Lat''), (0, 1, ''Long''), (0, 2, ''disp x''), (0, 3, ''disp y'')]"

definition magnet_heads :: "(nat \<times> nat \<times> string) list" where
  "magnet_heads = [(0, 0, ''mag x''), (0, 1, ''mag y''), (0, 2, ''mag z'')]"

lemmas heads_defs = acceleration_heads_def gyro_heads_def orientation_heads_def press_heads_def
  gps_heads_def magnet_heads_def

definition fill_tables :: "(monitor, unit) io" where
  "fill_tables =
     io_bind (on_acceleration (lay_out 3 4 acceleration_heads)) (\<lambda>_.
     io_bind (on_gyro (lay_out 3 4 gyro_heads)) (\<lambda>_.
     io_bind (on_orientation (lay_out 2 3 orientation_heads)) (\<lambda>_.
     io_bind (on_press (lay_out 2 3 press_heads)) (\<lambda>_.
     io_bind (on_gps (lay_out 2 4 gps_heads)) (\<lambda>_.
     on_magnet (lay_out 2 3 magnet_heads))))))"

text \<open>\<^verbatim>\<open>main\<close> up to the receiving loop: the other two threads run from their requests on.\<close>

definition mon_setup :: "nat \<Rightarrow> 'w kernel \<Rightarrow> ('w, int \<times> monitor) io" where
  "mon_setup n k w =
     (let (s, w) = enable_raw_mode k monitor_globals w;
          w = call k (Puts (esc @ ''[?1049h'' @ esc @ ''[H'' @ esc @ ''[2J'')) w;
          w = call k Flush w
      in case fill_tables (place_tables s) of
           (Inl e, s) \<Rightarrow> (Inl e, w)
         | (Inr _, s) \<Rightarrow>
             (let w = call k (Start_thread ''print_loop'') w;
                  w = call k (Start_thread ''input_thread'') w;
                  (sock, w) = ask k (Socket 1 5 0) w;
                  (s, w) = mon_connect n k sock (s, w)
              in (Inr (sock, s), w)))"

definition mon_main :: "nat \<Rightarrow> nat \<Rightarrow> 'w kernel \<Rightarrow> ('w, monitor) io" where
  "mon_main j n k =
     io_bind (mon_setup n k) (\<lambda>(sock, s) w.
       if adiru_connected s then (case receive_loop j n k (sock, s, w) of (_, s, w) \<Rightarrow> (Inr s, w)) else (Inr s, w))"

section \<open>A table is its text\<close>

text \<open>The text a table holds, and what an action that only appends to it does.\<close>

definition text_of :: "cli_table \<Rightarrow> string" where
  "text_of t = take (ti t) (buffer t)"

definition table_ok :: "cli_table \<Rightarrow> bool" where
  "table_ok t \<longleftrightarrow> length (buffer t) = 2048 \<and> ti t \<le> 2048 \<and> CHR 0x00 \<notin> set (text_of t)"

definition added :: "cli_table \<Rightarrow> string \<Rightarrow> cli_table \<Rightarrow> bool" where
  "added t str t' \<longleftrightarrow> table_ok t' \<and> text_of t' = text_of t @ str \<and> tx t' = tx t \<and> ty t' = ty t"

definition appends :: "(cli_table, unit) io \<Rightarrow> (int \<Rightarrow> int \<Rightarrow> string) \<Rightarrow> bool" where
  "appends m f \<longleftrightarrow> (\<forall>x y. CHR 0x00 \<notin> set (f x y)) \<and>
     (\<forall>t. table_ok t \<longrightarrow> ti t + length (f (tx t) (ty t)) \<le> 2048 \<longrightarrow> (\<exists>t'. m t = (Inr (), t') \<and> added t (f (tx t) (ty t)) t'))"

lemma length_text: "table_ok t \<Longrightarrow> length (text_of t) = ti t"
  by (simp add: table_ok_def text_of_def)

lemma added_ti: "table_ok t \<Longrightarrow> added t str t' \<Longrightarrow> ti t' = ti t + length str"
  using length_text [of t] length_text [of t'] by (simp add: added_def)

lemma added_trans: "added a s b \<Longrightarrow> added b s' c \<Longrightarrow> added a (s @ s') c"
  by (simp add: added_def)

lemma appendsD:
  assumes "appends m f" "table_ok t" "ti t + length (f (tx t) (ty t)) \<le> 2048"
  obtains t' where "m t = (Inr (), t')" "added t (f (tx t) (ty t)) t'"
  using assms unfolding appends_def by blast

lemma appends_return: "appends (io_return ()) (\<lambda>_ _. [])"
  by (simp add: appends_def io_return_def added_def)

lemma appends_bind:
  assumes "appends m f" "appends (g ()) h"
  shows "appends (io_bind m g) (\<lambda>x y. f x y @ h x y)"
  unfolding appends_def
proof (intro conjI allI impI)
  fix t
  assume t: "table_ok t" "ti t + length (f (tx t) (ty t) @ h (tx t) (ty t)) \<le> 2048"
  then obtain t1 where 1: "m t = (Inr (), t1)" "added t (f (tx t) (ty t)) t1"
    by (auto elim: appendsD [OF assms(1)])
  have p: "tx t1 = tx t" "ty t1 = ty t" "table_ok t1" using 1(2) by (simp_all add: added_def)
  obtain t2 where 2: "g () t1 = (Inr (), t2)" "added t1 (h (tx t) (ty t)) t2"
    using appendsD [OF assms(2) p(3)] added_ti [OF t(1) 1(2)] t(2) by (auto simp: p(1,2))
  show "\<exists>t'. io_bind m g t = (Inr (), t') \<and> added t (f (tx t) (ty t) @ h (tx t) (ty t)) t'"
    using added_trans [OF 1(2) 2(2)] 1(1) 2(1) by (simp add: io_bind_def)
qed (use assms in \<open>auto simp: appends_def\<close>)

lemma appends_each:
  assumes "\<And>a. a \<in> set xs \<Longrightarrow> appends (m a) (f a)"
  shows "appends (io_each m xs) (\<lambda>x y. concat (map (\<lambda>a. f a x y) xs))"
  using assms by (induction xs) (auto intro: appends_return appends_bind)

lemma appends_char: "c \<noteq> CHR 0x00 \<Longrightarrow> appends (put_char c) (\<lambda>_ _. [c])"
proof -
  have "text_of (t\<lparr>buffer := (buffer t)[ti t := c], ti := Suc (ti t)\<rparr>) = text_of t @ [c]" if "ti t < length (buffer t)" for t
    using that by (simp add: text_of_def take_Suc_conv_app_nth)
  then show "c \<noteq> CHR 0x00 \<Longrightarrow> ?thesis"
    by (auto simp: appends_def put_char_def added_def table_ok_def)
qed

lemma appends_text:
  assumes "CHR 0x00 \<notin> set str"
  shows "appends (copy_text str) (\<lambda>_ _. str)"
proof -
  have "appends (io_each put_char str) (\<lambda>x y. concat (map (\<lambda>c. [c]) str))"
    by (rule appends_each, rule appends_char) (use assms in metis)
  then show ?thesis by (simp add: copy_text_def)
qed

text \<open>An action whose text depends on the place of the table.\<close>

lemma appends_placed:
  assumes "\<And>x y. CHR 0x00 \<notin> set (f x y)" "\<And>t. m t = copy_text (f (tx t) (ty t)) t"
  shows "appends m f"
  unfolding appends_def
proof (intro conjI allI impI)
  fix t
  assume "table_ok t" "ti t + length (f (tx t) (ty t)) \<le> 2048"
  then show "\<exists>t'. m t = (Inr (), t') \<and> added t (f (tx t) (ty t)) t'"
    unfolding assms(2) using appendsD [OF appends_text [OF assms(1)], of t "tx t" "ty t"] by metis
qed (use assms(1) in blast)

lemma show_nat_nul: "CHR 0x00 \<notin> set (show_nat n)"
  using show_nat_digits [of "CHR 0x00" n] by (auto simp: is_digit_def)

lemma show_fixed_nul: "CHR 0x00 \<notin> set (show_fixed k n)"
  using show_fixed_digits [of "CHR 0x00" k n] by (auto simp: is_digit_def)

lemma number_nul:
  "CHR 0x00 \<notin> set (fmt_d i)" "CHR 0x00 \<notin> set (show_double w p d)" "CHR 0x00 \<notin> set (goto_text a b)"
proof -
  show d: "CHR 0x00 \<notin> set (fmt_d i)" for i
    using show_nat_nul by (simp add: fmt_d_def)
  then show "CHR 0x00 \<notin> set (goto_text a b)" by (simp add: goto_text_def esc_def)
  show "CHR 0x00 \<notin> set (show_double w p d)"
    using show_nat_nul show_fixed_nul by (auto simp: show_double_def fmt_f_def pad_left_def Let_def split: option.split)
qed

section \<open>The texts of the program\<close>

definition row_text :: "nat \<Rightarrow> string \<Rightarrow> string \<Rightarrow> string \<Rightarrow> string \<Rightarrow> string" where
  "row_text n_c left mid mid_sep right =
     left @ concat (map (\<lambda>c. concat (map (\<lambda>_. mid) [0..<9]) @ (if c = n_c - 1 then right else mid_sep)) [0..<n_c])"

lemma appends_row:
  assumes "CHR 0x00 \<notin> set left" "CHR 0x00 \<notin> set mid" "CHR 0x00 \<notin> set mid_sep" "CHR 0x00 \<notin> set right"
  shows "appends (gen_row n_c left mid mid_sep right) (\<lambda>_ _. row_text n_c left mid mid_sep right)"
  unfolding gen_row_def row_text_def
  by (intro appends_bind appends_each appends_text) (use assms in simp_all)

lemma length_row: "length (row_text (Suc n) left mid mid_sep right) =
    length left + n * length mid_sep + length right + 9 * Suc n * length mid"
proof -
  have "length (concat (map (\<lambda>c. concat (map (\<lambda>_. mid) [0..<9]) @ (if c = n then right else mid_sep)) [0..<j])) =
      j * (9 * length mid + length mid_sep)" if "j \<le> n" for j
    using that by (induction j) (auto simp: length_concat sum_list_triv comp_def algebra_simps)
  from this [of n] show ?thesis
    by (simp add: row_text_def length_concat sum_list_triv comp_def algebra_simps)
qed

definition start_text :: "nat \<Rightarrow> nat \<Rightarrow> int \<Rightarrow> int \<Rightarrow> string" where
  "start_text r j x y = take 15 (goto_text (int_arg (y + int r * 2 + int j)) x)"

lemma appends_start: "appends (row_start r j) (start_text r j)"
  by (rule appends_placed)
    (use number_nul(3) in \<open>auto simp: start_text_def row_start_def copy_limited_def dest!: in_set_takeD\<close>)

definition frame_text :: "nat \<Rightarrow> nat \<Rightarrow> int \<Rightarrow> int \<Rightarrow> string" where
  "frame_text n_r n_c x y = concat (map (\<lambda>r.
     start_text r 0 x y @
     (if r = 0 then row_text n_c [CHR 0xE2, CHR 0x95, CHR 0x94] [CHR 0xE2, CHR 0x95, CHR 0x90]
                      [CHR 0xE2, CHR 0x95, CHR 0xA4] [CHR 0xE2, CHR 0x95, CHR 0x97]
      else row_text n_c [CHR 0xE2, CHR 0x95, CHR 0x9F] [CHR 0xE2, CHR 0x94, CHR 0x80]
             [CHR 0xE2, CHR 0x94, CHR 0xBC] [CHR 0xE2, CHR 0x95, CHR 0xA2]) @
     start_text r 1 x y @
     row_text n_c [CHR 0xE2, CHR 0x95, CHR 0x91] '' '' [CHR 0xE2, CHR 0x94, CHR 0x82] [CHR 0xE2, CHR 0x95, CHR 0x91] @
     (if r = n_r - 1 then start_text r 2 x y @ row_text n_c [CHR 0xE2, CHR 0x95, CHR 0x9A] [CHR 0xE2, CHR 0x95, CHR 0x90]
        [CHR 0xE2, CHR 0x95, CHR 0xA7] [CHR 0xE2, CHR 0x95, CHR 0x9D] else [])) [0..<n_r])"

lemma appends_if:
  "appends m f \<Longrightarrow> appends m' f' \<Longrightarrow> appends (if b then m else m') (\<lambda>x y. if b then f x y else f' x y)"
  by simp

lemma appends_init: "appends (table_init n_r n_c) (frame_text n_r n_c)"
  unfolding table_init_def frame_text_def [abs_def] top_row_def mid_row_def cell_row_def end_row_def
  by (intro appends_each appends_bind appends_if appends_start appends_row appends_return) simp_all

definition cell_at :: "nat \<Rightarrow> nat \<Rightarrow> string \<Rightarrow> int \<Rightarrow> int \<Rightarrow> string" where
  "cell_at r c str x y = take 31 (goto_text (int_arg (y + int r * 2 + 1)) (int_arg (x + int c * 10 + 1)) @ str)"

lemma appends_cell:
  "CHR 0x00 \<notin> set str \<Longrightarrow> appends (write_string r c str) (cell_at r c (pad_left 7 str))"
  "appends (write_double r c d) (cell_at r c (show_double 7 3 d))"
  by (rule appends_placed; use number_nul in
      \<open>fastforce simp: cell_at_def cell_text_def write_string_def write_double_def pad_left_def dest!: in_set_takeD\<close>)+

definition layout_text :: "nat \<Rightarrow> nat \<Rightarrow> (nat \<times> nat \<times> string) list \<Rightarrow> int \<Rightarrow> int \<Rightarrow> string" where
  "layout_text n_r n_c heads x y = frame_text n_r n_c x y @ (esc @ ''[1m'') @
     concat (map (\<lambda>(r, c, h). cell_at r c (pad_left 7 h) x y) heads) @ (esc @ ''[0m'')"

lemma appends_layout:
  assumes "\<forall>(r, c, h) \<in> set heads. CHR 0x00 \<notin> set h"
  shows "appends (lay_out n_r n_c heads) (layout_text n_r n_c heads)"
  unfolding lay_out_def layout_text_def [abs_def] set_bold_def table_reset_def case_prod_unfold
  by (intro appends_bind appends_init appends_text appends_each appends_cell)
    (use assms in \<open>auto simp: esc_def\<close>)

definition cells_text :: "(nat \<times> nat \<times> real option) list \<Rightarrow> int \<Rightarrow> int \<Rightarrow> string" where
  "cells_text cs x y = concat (map (\<lambda>(r, c, d). cell_at r c (show_double 7 3 d) x y) cs)"

lemma appends_cells: "appends (write_cells cs) (cells_text cs)"
  unfolding write_cells_def cells_text_def [abs_def] case_prod_unfold
  by (intro appends_each appends_cell)

lemma length_cells: "length (cells_text cs x y) \<le> 31 * length cs"
  by (induction cs) (auto simp: cells_text_def cell_at_def)

lemma length_heads: "length (concat (map (\<lambda>(r, c, h). cell_at r c (pad_left 7 h) x y) heads)) \<le> 31 * length heads"
  by (induction heads) (auto simp: cell_at_def)

lemma length_frame:
  "length (frame_text 3 4 x y) \<le> 750" "length (frame_text 2 3 x y) \<le> 750" "length (frame_text 2 4 x y) \<le> 750"
proof -
  have s: "length (start_text r j x y) \<le> 15" for r j by (simp add: start_text_def)
  have r: "length (row_text 3 a b c d) = length a + 2 * length c + length d + 27 * length b"
    "length (row_text 4 a b c d) = length a + 3 * length c + length d + 36 * length b" for a b c d
    using length_row [of 2 a b c d] length_row [of 3 a b c d] by simp_all
  note s = s [of 0 0] s [of 0 1] s [of 1 0] s [of 1 1] s [of 1 2] s [of 2 0] s [of 2 1] s [of 2 2]
  show "length (frame_text 3 4 x y) \<le> 750" "length (frame_text 2 3 x y) \<le> 750" "length (frame_text 2 4 x y) \<le> 750"
    using s by (simp_all add: frame_text_def upt_rec r numeral_2_eq_2)
qed

section \<open>The tables of the program\<close>

definition room :: "cli_table \<Rightarrow> bool" where
  "room t \<longleftrightarrow> table_ok t \<and> ti t \<le> 1000"

definition tables_ready :: "monitor \<Rightarrow> bool" where
  "tables_ready s \<longleftrightarrow> room (acceleration_disp s) \<and> room (gyro_disp s) \<and> room (orientation_disp s) \<and>
     room (gps_disp s) \<and> room (press_disp s) \<and> room (magnet_disp s)"

lemma lay_out_room:
  assumes "frame_text n_r n_c = frame_text 3 4 \<or> frame_text n_r n_c = frame_text 2 3 \<or> frame_text n_r n_c = frame_text 2 4"
    and "\<forall>(r, c, h) \<in> set heads. CHR 0x00 \<notin> set h" "length heads \<le> 5" "table_ok t" "ti t = 0"
  obtains t' where "lay_out n_r n_c heads t = (Inr (), t')" "room t'" "tx t' = tx t" "ty t' = ty t"
proof -
  have "length (layout_text n_r n_c heads (tx t) (ty t)) \<le> 1000"
    using assms(1) length_frame [of "tx t" "ty t"] length_heads [where heads = heads and x = "tx t" and y = "ty t"] assms(3)
    by (auto simp: layout_text_def esc_def)
  then obtain t' where t': "lay_out n_r n_c heads t = (Inr (), t')" "added t (layout_text n_r n_c heads (tx t) (ty t)) t'"
    and l: "length (layout_text n_r n_c heads (tx t) (ty t)) \<le> 1000"
    using appendsD [OF appends_layout [OF assms(2), of n_r n_c] assms(4)] assms(5) by auto
  then show thesis
    using that [OF t'(1)] added_ti [OF assms(4) t'(2)] assms(5) by (simp add: added_def room_def)
qed

lemma table0_ok: "table_ok (table0\<lparr>tx := x, ty := y\<rparr>)" "ti (table0\<lparr>tx := x, ty := y\<rparr>) = 0"
  by (simp_all add: table_ok_def table0_def text_of_def)

lemmas on_defs = on_acceleration_def on_gyro_def on_orientation_def on_gps_def on_press_def on_magnet_def

lemma fill_ready:
  assumes "s = place_tables (monitor_globals\<lparr>old_terminal_settings := x\<rparr>)"
  shows "\<exists>s'. fill_tables s = (Inr (), s') \<and> tables_ready s' \<and> mon_log s' = messages0 \<and> mon_data s' = replicate 256 0 \<and>
    \<not> adiru_connected s' \<and> old_terminal_settings s' = x"
proof -
  have t: "acceleration_disp s = table0\<lparr>tx := 10, ty := 2\<rparr>" "gyro_disp s = table0\<lparr>tx := 54, ty := 2\<rparr>"
    "orientation_disp s = table0\<lparr>tx := 45, ty := 12\<rparr>" "press_disp s = table0\<lparr>tx := 10, ty := 12\<rparr>"
    "gps_disp s = table0\<lparr>tx := 10, ty := 24\<rparr>" "magnet_disp s = table0\<lparr>tx := 10, ty := 18\<rparr>"
    by (simp_all add: assms place_tables_def monitor_globals_def)
  obtain a where a: "lay_out 3 4 acceleration_heads (acceleration_disp s) = (Inr (), a)" "room a"
    by (rule lay_out_room [of 3 4 _ "acceleration_disp s"]) (auto simp: t table0_ok heads_defs)
  obtain g where g: "lay_out 3 4 gyro_heads (gyro_disp s) = (Inr (), g)" "room g"
    by (rule lay_out_room [of 3 4 _ "gyro_disp s"]) (auto simp: t table0_ok heads_defs)
  obtain r where r: "lay_out 2 3 orientation_heads (orientation_disp s) = (Inr (), r)" "room r"
    by (rule lay_out_room [of 2 3 _ "orientation_disp s"]) (auto simp: t table0_ok heads_defs)
  obtain p where p: "lay_out 2 3 press_heads (press_disp s) = (Inr (), p)" "room p"
    by (rule lay_out_room [of 2 3 _ "press_disp s"]) (auto simp: t table0_ok heads_defs)
  obtain q where q: "lay_out 2 4 gps_heads (gps_disp s) = (Inr (), q)" "room q"
    by (rule lay_out_room [of 2 4 _ "gps_disp s"]) (auto simp: t table0_ok heads_defs)
  obtain m where m: "lay_out 2 3 magnet_heads (magnet_disp s) = (Inr (), m)" "room m"
    by (rule lay_out_room [of 2 3 _ "magnet_disp s"]) (auto simp: t table0_ok heads_defs)
  have "fill_tables s = (Inr (), s\<lparr>acceleration_disp := a, gyro_disp := g, orientation_disp := r, press_disp := p,
      gps_disp := q, magnet_disp := m\<rparr>)"
    by (simp add: fill_tables_def io_bind_def on_defs on_table_def a g r p q m)
  then show ?thesis
    using a g r p q m by (simp add: tables_ready_def) (simp add: assms place_tables_def monitor_globals_def)
qed

section \<open>A tick\<close>

lemma table_draw_text:
  assumes "table_ok t" "0 < ti t" "ti t < 2044"
  obtains t' where "\<And>w. table_draw k t w = (Inr t', call k (Puts (text_of t @ esc @ ''[0m'')) w)"
    "table_ok t'" "ti t' = 0" "tx t' = tx t" "ty t' = ty t"
proof -
  have "appends table_reset (\<lambda>_ _. esc @ ''[0m'')"
    unfolding table_reset_def by (rule appends_text) (simp add: esc_def)
  then obtain t1 where t1: "table_reset t = (Inr (), t1)" "added t (esc @ ''[0m'') t1"
    using appendsD [of table_reset "\<lambda>_ _. esc @ ''[0m''" t] assms by (auto simp: esc_def)
  have ti: "ti t1 < length (buffer t1)" and nul: "CHR 0x00 \<notin> set (take (ti t1) (buffer t1))" and len: "length (buffer t1) = 2048"
    using added_ti [OF assms(1) t1(2)] assms(3) t1(2) by (auto simp: added_def table_ok_def esc_def text_of_def)
  have "(buffer t1)[ti t1 := CHR 0x00] = take (ti t1) (buffer t1) @ CHR 0x00 # drop (Suc (ti t1)) (buffer t1)"
    using ti by (rule upd_conv_take_nth_drop)
  then have "takeWhile (\<lambda>c. c \<noteq> CHR 0x00) ((buffer t1)[ti t1 := CHR 0x00]) = text_of t1"
    using nul by (auto simp: takeWhile_append text_of_def)
  then have "table_draw k t w = (Inr (t1\<lparr>buffer := (buffer t1)[ti t1 := CHR 0x00], ti := 0\<rparr>), call k (Puts (text_of t @ esc @ ''[0m'')) w)" for w
    using assms(2) t1 ti by (simp add: table_draw_def added_def)
  moreover have "table_ok (t1\<lparr>buffer := (buffer t1)[ti t1 := CHR 0x00], ti := 0\<rparr>)"
    using len by (simp add: table_ok_def text_of_def)
  ultimately show thesis using that t1(2) by (simp add: added_def)
qed

text \<open>What a tick writes to the terminal.\<close>

definition table_frame :: "cli_table \<Rightarrow> (nat \<times> nat \<times> real option) list \<Rightarrow> request" where
  "table_frame t cs = Puts (text_of t @ cells_text cs (tx t) (ty t) @ esc @ ''[0m'')"

primrec message_frame :: "nat \<Rightarrow> string option list \<Rightarrow> request list" where
  "message_frame i [] = []"
| "message_frame i (m # ms) =
     (case m of None \<Rightarrow> [] | Some s \<Rightarrow> Puts (goto_text (int_arg (70 + int i)) 10 @ s) # message_frame (Suc i) ms)"

definition status_frame :: "bool \<Rightarrow> real option \<Rightarrow> request list" where
  "status_frame online fix =
     (let good = (\<lambda>m. Puts (esc @ ''[1;32m'' @ m @ esc @ ''[0m'')); bad = (\<lambda>m. Puts (esc @ ''[1;31m'' @ m @ esc @ ''[0m''))
      in [Puts (esc @ ''[2;100HADIRU - ''), if online then good ''ONLINE '' else bad ''OFFLINE'',
          Puts (esc @ ''[3;102HGPS - ''),
          if (case fix of None \<Rightarrow> False | Some x \<Rightarrow> 0 < x) then good ''FIXED '' else bad ''NO FIX'',
          Puts (esc @ ''[H''), Flush])"

definition tick_frame :: "(nat \<Rightarrow> real option) \<Rightarrow> monitor \<Rightarrow> request list" where
  "tick_frame d s =
     [table_frame (acceleration_disp s) (acceleration_cells d), table_frame (gyro_disp s) (gyro_cells d),
      table_frame (orientation_disp s) (orientation_cells d), table_frame (gps_disp s) (gps_cells d),
      table_frame (press_disp s) (press_cells d), table_frame (magnet_disp s) (magnet_cells d)] @
     (if updated (mon_log s) then message_frame 0 (msgs (mon_log s)) else []) @
     status_frame (adiru_connected s) (d 23)"

lemma draw_messages_frame: "draw_messages k i ms w = fold (call k) (message_frame i ms) w"
  by (induction ms arbitrary: i w) (auto split: option.split)

lemma draw_status_frame: "draw_status k online fix w = fold (call k) (status_frame online fix) w"
  by (simp add: draw_status_def status_frame_def mon_print_action_def mon_print_success_def mon_print_fail_def Let_def
      split: option.split)

text \<open>A table through a tick: cells written, drawn, empty again in the same place.\<close>

lemma table_through_tick:
  assumes "room t" "cs \<noteq> []" "length cs \<le> 6"
  obtains t1 t2 where "write_cells cs t = (Inr (), t1)"
    "\<And>w. table_draw k t1 w = (Inr t2, call k (table_frame t cs) w)"
    "table_ok t2" "ti t2 = 0" "tx t2 = tx t" "ty t2 = ty t"
proof -
  have ok: "table_ok t" and "ti t \<le> 1000" using assms(1) by (simp_all add: room_def)
  have "length (cells_text cs (tx t) (ty t)) \<le> 186"
    using length_cells [of cs "tx t" "ty t"] assms(3) by simp
  with \<open>ti t \<le> 1000\<close> have len: "ti t + length (cells_text cs (tx t) (ty t)) \<le> 1186" by simp
  then obtain t1 where t1: "write_cells cs t = (Inr (), t1)" "added t (cells_text cs (tx t) (ty t)) t1"
    using appendsD [OF appends_cells [of cs] ok] by auto
  have "cells_text cs x y \<noteq> []" for x y
    using assms(2) by (cases cs) (auto simp: cells_text_def cell_at_def goto_text_def esc_def)
  then have ti: "0 < ti t1" "ti t1 < 2044" using added_ti [OF ok t1(2)] len by auto
  have a: "table_ok t1" "tx t1 = tx t" "ty t1 = ty t" "text_of t1 = text_of t @ cells_text cs (tx t) (ty t)"
    using t1(2) by (simp_all add: added_def)
  obtain t2 where "\<And>w. table_draw k t1 w = (Inr t2, call k (Puts (text_of t1 @ esc @ ''[0m'')) w)"
    "table_ok t2" "ti t2 = 0" "tx t2 = tx t1" "ty t2 = ty t1"
    by (rule table_draw_text [OF a(1) ti, of k]) auto
  then show thesis using that [OF t1(1)] a by (simp add: table_frame_def)
qed

lemma mon_tick_frame:
  assumes "tables_ready s"
  obtains s' where "mon_tick k val s w = (Inr s', fold (call k) (tick_frame (dbl val s) s) w)" "tables_ready s'"
    "mon_log s' = (mon_log s)\<lparr>updated := False\<rparr>" "adiru_connected s' = adiru_connected s" "mon_data s' = mon_data s"
    "\<forall>t \<in> {acceleration_disp s', gyro_disp s', orientation_disp s', gps_disp s', press_disp s', magnet_disp s'}. ti t = 0"
    "map (\<lambda>f. (tx (f s'), ty (f s'))) [acceleration_disp, gyro_disp, orientation_disp, gps_disp, press_disp, magnet_disp] =
     map (\<lambda>f. (tx (f s), ty (f s))) [acceleration_disp, gyro_disp, orientation_disp, gps_disp, press_disp, magnet_disp]"
proof -
  let ?d = "dbl val s"
  have r: "room (acceleration_disp s)" "room (gyro_disp s)" "room (orientation_disp s)" "room (gps_disp s)"
    "room (press_disp s)" "room (magnet_disp s)" using assms by (simp_all add: tables_ready_def)
  obtain a a' where a: "write_cells (acceleration_cells ?d) (acceleration_disp s) = (Inr (), a)"
    "\<And>w. table_draw k a w = (Inr a', call k (table_frame (acceleration_disp s) (acceleration_cells ?d)) w)"
    "table_ok a'" "ti a' = 0" "tx a' = tx (acceleration_disp s)" "ty a' = ty (acceleration_disp s)"
    by (rule table_through_tick [OF r(1), where cs = "acceleration_cells ?d" and k = k]) (auto simp: acceleration_cells_def)
  obtain g g' where g: "write_cells (gyro_cells ?d) (gyro_disp s) = (Inr (), g)"
    "\<And>w. table_draw k g w = (Inr g', call k (table_frame (gyro_disp s) (gyro_cells ?d)) w)"
    "table_ok g'" "ti g' = 0" "tx g' = tx (gyro_disp s)" "ty g' = ty (gyro_disp s)"
    by (rule table_through_tick [OF r(2), where cs = "gyro_cells ?d" and k = k]) (auto simp: gyro_cells_def)
  obtain e e' where e: "write_cells (orientation_cells ?d) (orientation_disp s) = (Inr (), e)"
    "\<And>w. table_draw k e w = (Inr e', call k (table_frame (orientation_disp s) (orientation_cells ?d)) w)"
    "table_ok e'" "ti e' = 0" "tx e' = tx (orientation_disp s)" "ty e' = ty (orientation_disp s)"
    by (rule table_through_tick [OF r(3), where cs = "orientation_cells ?d" and k = k]) (auto simp: orientation_cells_def)
  obtain p p' where p: "write_cells (gps_cells ?d) (gps_disp s) = (Inr (), p)"
    "\<And>w. table_draw k p w = (Inr p', call k (table_frame (gps_disp s) (gps_cells ?d)) w)"
    "table_ok p'" "ti p' = 0" "tx p' = tx (gps_disp s)" "ty p' = ty (gps_disp s)"
    by (rule table_through_tick [OF r(4), where cs = "gps_cells ?d" and k = k]) (auto simp: gps_cells_def)
  obtain q q' where q: "write_cells (press_cells ?d) (press_disp s) = (Inr (), q)"
    "\<And>w. table_draw k q w = (Inr q', call k (table_frame (press_disp s) (press_cells ?d)) w)"
    "table_ok q'" "ti q' = 0" "tx q' = tx (press_disp s)" "ty q' = ty (press_disp s)"
    by (rule table_through_tick [OF r(5), where cs = "press_cells ?d" and k = k]) (auto simp: press_cells_def)
  obtain m m' where m: "write_cells (magnet_cells ?d) (magnet_disp s) = (Inr (), m)"
    "\<And>w. table_draw k m w = (Inr m', call k (table_frame (magnet_disp s) (magnet_cells ?d)) w)"
    "table_ok m'" "ti m' = 0" "tx m' = tx (magnet_disp s)" "ty m' = ty (magnet_disp s)"
    by (rule table_through_tick [OF r(6), where cs = "magnet_cells ?d" and k = k]) (auto simp: magnet_cells_def)
  let ?s1 = "s\<lparr>acceleration_disp := a, gyro_disp := g, orientation_disp := e, gps_disp := p, press_disp := q, magnet_disp := m\<rparr>"
  let ?s2 = "s\<lparr>acceleration_disp := a', gyro_disp := g', orientation_disp := e', gps_disp := p', press_disp := q', magnet_disp := m',
      mon_log := (mon_log s)\<lparr>updated := False\<rparr>\<rparr>"
  have w: "write_tick ?d s = (Inr (), ?s1)"
    by (simp add: write_tick_def io_bind_def on_defs on_table_def a(1) g(1) e(1) p(1) q(1) m(1))
  have l: "messages_draw k (mon_log s, w) = ((mon_log s)\<lparr>updated := False\<rparr>,
      fold (call k) (if updated (mon_log s) then message_frame 0 (msgs (mon_log s)) else []) w)" for w
    by (simp add: messages_draw_def draw_messages_frame)
  have "mon_tick k val s w = (Inr ?s2, fold (call k) (tick_frame ?d s) w)"
    by (simp add: mon_tick_def w draw_tables_def io_bind_def a(2) g(2) e(2) p(2) q(2) m(2) io_return_def l draw_status_frame
        tick_frame_def dbl_def)
  then show thesis
    using that [of ?s2] a(3-6) g(3-6) e(3-6) p(3-6) q(3-6) m(3-6) by (simp add: tables_ready_def room_def)
qed

section \<open>Runs\<close>

text \<open>
  A run of the printing thread: before every tick the receiving thread may have put anything into
  the block, changed the connection flag and logged messages.
\<close>

definition between :: "bytes \<times> bool \<times> string list \<Rightarrow> monitor \<Rightarrow> monitor" where
  "between e s = (case e of (d, online, ms) \<Rightarrow>
     s\<lparr>mon_data := d, adiru_connected := online, mon_log := fold log_message ms (mon_log s)\<rparr>)"

primrec mon_run ::
  "'w kernel \<Rightarrow> (bytes \<Rightarrow> real option) \<Rightarrow> (bytes \<times> bool \<times> string list) list \<Rightarrow> monitor \<Rightarrow> ('w, monitor) io" where
  "mon_run k val [] s = io_return s"
| "mon_run k val (e # es) s = io_bind (mon_tick k val (between e s)) (mon_run k val es)"

lemma between_ready [simp]: "tables_ready (between e s) = tables_ready s"
  by (simp add: between_def tables_ready_def split: prod.split)

lemma mon_run_ready: "tables_ready s \<Longrightarrow> \<exists>s' w'. mon_run k val es s w = (Inr s', w') \<and> tables_ready s'"
proof (induction es arbitrary: s w)
  case (Cons e es)
  obtain s1 where 1: "mon_tick k val (between e s) w = (Inr s1, fold (call k) (tick_frame (dbl val (between e s)) (between e s)) w)"
    and "tables_ready s1"
    by (rule mon_tick_frame [of "between e s" k val w]) (use Cons.prems in simp_all)
  then show ?case using Cons.IH by (simp add: io_bind_def)
qed (simp add: io_return_def)

lemma log_message_sel: "msgs (log_message m l) = tl (msgs l) @ [Some m]" "updated (log_message m l)"
  by (simp_all add: log_message_def)

lemma logged:
  "msgs (fold log_message ms messages0) = replicate (20 - length ms) None @ map Some (drop (length ms - 20) ms)"
  "updated (fold log_message ms messages0) \<longleftrightarrow> ms \<noteq> []"
proof (induction ms rule: rev_induct)
  case (snoc m ms)
  show "updated (fold log_message (ms @ [m]) messages0) \<longleftrightarrow> ms @ [m] \<noteq> []"
    by (simp add: log_message_sel)
  show "msgs (fold log_message (ms @ [m]) messages0) =
      replicate (20 - length (ms @ [m])) None @ map Some (drop (length (ms @ [m]) - 20) (ms @ [m]))"
  proof (cases "length ms < 20")
    case True
    then have "replicate (20 - length ms) (None :: string option) = None # replicate (20 - length (ms @ [m])) None"
      by (simp add: Suc_diff_Suc [symmetric])
    then show ?thesis using snoc(1) True by (simp add: log_message_sel)
  next
    case False
    then have "drop (length ms - 20) ms \<noteq> []" by simp
    then have "tl (drop (length ms - 20) ms) = drop (length (ms @ [m]) - 20) ms"
      using False by (metis Suc_diff_le drop_Suc length_append_singleton not_less tl_drop)
    then show ?thesis using snoc(1) False by (simp add: log_message_sel map_tl [symmetric])
  qed
qed (simp_all add: messages0_def)

lemma message_frame_None: "message_frame i (replicate (Suc n) None @ ms) = []"
  by simp

lemma message_frame_Some:
  "message_frame i (map Some ms) = map (\<lambda>(j, m). Puts (goto_text (int_arg (70 + int j)) 10 @ m)) (enumerate i ms)"
  by (induction ms arbitrary: i) simp_all

text \<open>The world after \<open>j\<close> refused attempts to connect.\<close>

primrec refused :: "'w kernel \<Rightarrow> int \<Rightarrow> nat \<Rightarrow> 'w \<Rightarrow> 'w" where
  "refused k sock 0 w = w"
| "refused k sock (Suc j) w =
     refused k sock j (call k (Usleep 100000) (call k (Connect sock (Sockaddr_un ''/tmp/adiru.sock'')) w))"

definition accepts :: "'w kernel \<Rightarrow> int \<Rightarrow> 'w \<Rightarrow> bool" where
  "accepts k sock w \<longleftrightarrow> 0 \<le> rval (fst (k (Connect sock (Sockaddr_un ''/tmp/adiru.sock'')) w))"

lemma connect_done: "connect_adiru n k sock (True, w) = (True, w)"
  by (cases n) simp_all

lemma connect_step: "connect_adiru (Suc n) k sock (False, w) =
    (if accepts k sock w then (True, call k (Connect sock (Sockaddr_un ''/tmp/adiru.sock'')) w)
     else connect_adiru n k sock (False, call k (Usleep 100000) (call k (Connect sock (Sockaddr_un ''/tmp/adiru.sock'')) w)))"
  by (auto simp: ask_def accepts_def call_def case_prod_unfold Let_def connect_done not_less)

section \<open>Properties\<close>

text \<open>
  C21: The display never leaves its buffers: \<^verbatim>\<open>main\<close> fills the six tables without a fault, and from
  then on every tick returns normally, whatever the blocks received hold, however the connection
  comes and goes and whatever is logged.
\<close>

theorem monitor_never_overflows:
  "\<exists>s0. fill_tables (place_tables (monitor_globals\<lparr>old_terminal_settings := x\<rparr>)) = (Inr (), s0) \<and>
     (\<forall>es w. \<exists>s w'. mon_run k val es s0 w = (Inr s, w'))"
  using fill_ready [OF refl, of x] mon_run_ready by metis

text \<open>
  Messages stay invisible until twenty of them have been logged; from then on a redraw shows
  the last twenty, the oldest first, from row 70 on.
\<close>

theorem messages_shown:
  "messages_draw k (fold log_message ms messages0, w) =
     ((fold log_message ms messages0)\<lparr>updated := False\<rparr>,
      fold (call k) (if length ms < 20 then [] else
        map (\<lambda>(j, m). Puts (goto_text (int_arg (70 + int j)) 10 @ m)) (enumerate 0 (drop (length ms - 20) ms))) w)"
proof (cases "length ms < 20")
  case True
  then obtain n where "20 - length ms = Suc n" by (metis Suc_diff_Suc)
  then have "message_frame 0 (msgs (fold log_message ms messages0)) = []" by (simp only: logged message_frame_None)
  then show ?thesis using True by (auto simp: messages_draw_def draw_messages_frame Let_def)
next
  case False
  then have "ms \<noteq> []" by auto
  with False show ?thesis
    by (simp add: messages_draw_def draw_messages_frame logged message_frame_Some)
qed

text \<open>
  Connecting succeeds with the first accepted attempt and sleeps once after each refusal:
  with the first accepted attempt after \<open>j\<close> refusals, looking at more than \<open>j\<close> attempts finds the
  connection, and looking at fewer finds none.
\<close>

theorem connect_first_accepted:
  assumes "\<And>i. i < j \<Longrightarrow> \<not> accepts k sock (refused k sock i w)" "accepts k sock (refused k sock j w)"
  shows "connect_adiru n k sock (False, w) =
    (if j < n then (True, call k (Connect sock (Sockaddr_un ''/tmp/adiru.sock'')) (refused k sock j w))
     else (False, refused k sock n w))"
  using assms
proof (induction n arbitrary: j w)
  case (Suc n)
  show ?case
  proof (cases j)
    case 0
    then show ?thesis using Suc.prems(2) by (simp add: connect_step del: connect_adiru.simps)
  next
    case j: (Suc i)
    let ?w = "call k (Usleep 100000) (call k (Connect sock (Sockaddr_un ''/tmp/adiru.sock'')) w)"
    have "\<not> accepts k sock w" using Suc.prems(1) [of 0] j by simp
    moreover have "connect_adiru n k sock (False, ?w) =
        (if i < n then (True, call k (Connect sock (Sockaddr_un ''/tmp/adiru.sock'')) (refused k sock i ?w)) else (False, refused k sock n ?w))"
      using Suc.prems(1) [of "Suc l" for l] Suc.prems(2) j by (intro Suc.IH) auto
    ultimately show ?thesis using j by (simp add: connect_step del: connect_adiru.simps)
  qed
qed simp

theorem connect_first_accepted_witness:
  "connect_adiru 5 sim_kernel 3 (False, sim0\<lparr>sim_script := [answer_of (-1), answer_of (-1), answer_of 0]\<rparr>) =
     (True, sim0\<lparr>sim_log := replicate 3 (Connect 3 (Sockaddr_un ''/tmp/adiru.sock''))\<rparr>)"
proof -
  let ?w = "sim0\<lparr>sim_script := [answer_of (-1), answer_of (-1), answer_of 0]\<rparr>"
  have r: "\<not> accepts sim_kernel 3 (refused sim_kernel 3 i ?w)" if "i < 2" for i
    using that by (auto simp: less_2_cases_iff accepts_def call_def sim_other_def sim0_def)
  have a: "accepts sim_kernel 3 (refused sim_kernel 3 2 ?w)"
    by (simp add: accepts_def call_def sim_other_def sim0_def numeral_2_eq_2)
  show ?thesis
    by (subst connect_first_accepted [OF r a]) (simp_all add: call_def sim_other_def sim0_def numeral_eq_Suc)
qed

end
