(* ===== verification/Sockets.thy ===== *)
theory Sockets
  imports Server
begin

text \<open>
  \<^verbatim>\<open>src/backend/socket.cpp\<close>: thin classes over the socket calls. A pointer to a socket object is
  its address (\<open>this\<close>); a connection made by \<open>un_connect\<close> leaves its pointer unset. The peer
  address that \<^verbatim>\<open>accept\<close> stores is never read by the code and is left out. Copying a path into the
  108 bytes of a socket address without room for its end is undefined behaviour.
\<close>

section \<open>State\<close>

datatype sock_domain = Unix | Inet
datatype sock_type = Tcp | Udp
datatype sock_opt = Reuse_addr | Reuse_port

primrec domain_code :: "sock_domain \<Rightarrow> int" where
  "domain_code Unix = 1" | "domain_code Inet = 2"

primrec type_code :: "sock_type \<Rightarrow> int" where
  "type_code Tcp = 1" | "type_code Udp = 2"

primrec opt_code :: "sock_opt \<Rightarrow> int" where
  "opt_code Reuse_addr = 2" | "opt_code Reuse_port = 15"

record sock =
  so_fd :: int
  so_addr :: int
  so_port :: int
  so_opened :: bool

record connection =
  co_s :: "int option"
  co_valid :: bool
  co_addr :: "sockaddr option"
  co_fd :: int

section \<open>Operations\<close>

definition sock_new :: "'w kernel \<Rightarrow> sock_domain \<Rightarrow> sock_type \<Rightarrow> 'w \<Rightarrow> sock \<times> 'w" where
  "sock_new k d t w =
     (let (f, w) = ask k (Socket (domain_code d) (type_code t) 0) w
      in (\<lparr>so_fd = f, so_addr = 0, so_port = 0, so_opened = False\<rparr>, w))"

text \<open>The eight bytes of a pointer in memory.\<close>

definition pointer_bytes :: "64 word \<Rightarrow> bytes" where
  "pointer_bytes p = map (\<lambda>i. ucast (drop_bit (8 * i) p)) [0..<8]"

definition set_socket_option ::
  "'w kernel \<Rightarrow> sock \<Rightarrow> int \<Rightarrow> int \<Rightarrow> 64 word \<Rightarrow> int \<Rightarrow> 'w \<Rightarrow> int \<times> 'w" where
  "set_socket_option k s lvl opt optval optlen w =
     ask k (Set_sock_opt (so_fd s) lvl opt (pointer_bytes optval)) w"

definition htons :: "u16 \<Rightarrow> u16" where
  "htons x = push_bit 8 x OR drop_bit 8 x"

definition in_address :: "int \<Rightarrow> int \<Rightarrow> sockaddr" where
  "in_address a p = Sockaddr_in (word_of_int a) (htons (word_of_int p))"

definition in_bind :: "'w kernel \<Rightarrow> sock \<Rightarrow> int \<Rightarrow> int \<Rightarrow> 'w \<Rightarrow> int \<times> 'w" where
  "in_bind k s a p w = ask k (Bind (so_fd s) (in_address a p)) w"

definition unix_bind :: "'w kernel \<Rightarrow> sock \<Rightarrow> string \<Rightarrow> ('w, int) io" where
  "unix_bind k s path w =
     (if 108 \<le> length path then (Inl Undefined_behaviour, w)
      else (let (e, w) = ask k (Bind (so_fd s) (Sockaddr_un path)) w in (Inr e, w)))"

definition sock_listen :: "'w kernel \<Rightarrow> sock \<Rightarrow> int \<Rightarrow> 'w \<Rightarrow> int \<times> 'w" where
  "sock_listen k s backlog w = ask k (Listen (so_fd s) backlog) w"

definition un_accept :: "'w kernel \<Rightarrow> int \<Rightarrow> sock \<Rightarrow> 'w \<Rightarrow> connection \<times> 'w" where
  "un_accept k this s w =
     (let (f, w) = ask k (Accept (so_fd s)) w
      in (\<lparr>co_s = Some this, co_valid = (f \<ge> 0), co_addr = None, co_fd = f\<rparr>, w))"

definition in_accept :: "'w kernel \<Rightarrow> int \<Rightarrow> sock \<Rightarrow> 'w \<Rightarrow> connection \<times> 'w" where
  "in_accept k this s w =
     (let (f, w) = ask k (Accept (so_fd s)) w
      in (\<lparr>co_s = Some this, co_valid = (f \<ge> 0), co_addr = None, co_fd = f\<rparr>, w))"

definition in_connect :: "'w kernel \<Rightarrow> int \<Rightarrow> sock \<Rightarrow> int \<Rightarrow> int \<Rightarrow> 'w \<Rightarrow> connection \<times> 'w" where
  "in_connect k this s a p w =
     (let (r, w) = ask k (Connect (so_fd s) (in_address a p)) w
      in (\<lparr>co_s = Some this, co_valid = (r \<ge> 0), co_addr = Some (in_address a p), co_fd = so_fd s\<rparr>, w))"

definition un_connect :: "'w kernel \<Rightarrow> sock \<Rightarrow> string \<Rightarrow> ('w, connection) io" where
  "un_connect k s path w =
     (if 108 \<le> length path then (Inl Undefined_behaviour, w)
      else
        (let (r, w) = ask k (Connect (so_fd s) (Sockaddr_un path)) w
         in (Inr \<lparr>co_s = None, co_valid = (r \<ge> 0), co_addr = Some (Sockaddr_un path), co_fd = so_fd s\<rparr>, w)))"

text \<open>Reading into a buffer: the answer is the buffer afterwards and the number returned.\<close>

definition co_read :: "'w kernel \<Rightarrow> connection \<Rightarrow> bytes \<Rightarrow> 'w \<Rightarrow> (int \<times> bytes) \<times> 'w" where
  "co_read k c buffer w =
     (let (a, w) = k (Read (co_fd c) (length buffer)) w in ((rval a, store buffer (rdata a)), w))"

definition co_send :: "'w kernel \<Rightarrow> connection \<Rightarrow> bytes \<Rightarrow> 'w \<Rightarrow> int \<times> 'w" where
  "co_send k c buffer w = ask k (Send (co_fd c) buffer) w"

definition O_NONBLOCK :: int where "O_NONBLOCK = 2048"

definition make_non_block :: "'w kernel \<Rightarrow> sock \<Rightarrow> 'w \<Rightarrow> 'w" where
  "make_non_block k s w =
     (let (flags, w) = ask k (Fcntl_getfl (so_fd s)) w
      in call k (Fcntl_setfl (so_fd s) (flags OR O_NONBLOCK)) w)"

definition can_read :: "'w kernel \<Rightarrow> connection \<Rightarrow> 'w \<Rightarrow> bool \<times> 'w" where
  "can_read k c w = (let (r, w) = ask k (Poll (co_fd c)) w in (r \<noteq> 0, w))"

definition co_close :: "'w kernel \<Rightarrow> connection \<Rightarrow> 'w \<Rightarrow> (int \<times> connection) \<times> 'w" where
  "co_close k c w =
     (let c = c\<lparr>co_valid := False\<rparr>; (r, w) = ask k (Close (co_fd c)) w in ((r, c), w))"

definition sock_close :: "'w kernel \<Rightarrow> sock \<Rightarrow> 'w \<Rightarrow> (int \<times> sock) \<times> 'w" where
  "sock_close k s w =
     (let s = s\<lparr>so_opened := False\<rparr>; (r, w) = ask k (Close (so_fd s)) w in ((r, s), w))"

section \<open>Properties\<close>

text \<open>The port in memory, high byte first, whatever the program was given.\<close>

lemma htons_bytes: "htons (push_bit 8 (ucast (h :: u8)) OR ucast (l :: u8)) = push_bit 8 (ucast l) OR ucast h"
  unfolding htons_def by (rule bit_word_eqI) (auto simp: bit_simps dest: bit_imp_le_length)

lemma htons_twice: "htons (htons x) = x"
  unfolding htons_def by (rule bit_word_eqI) (auto simp: bit_simps dest: bit_imp_le_length)

lemma pointer_bytes_of:
  "length (pointer_bytes p) = 8"
  "i < 8 \<Longrightarrow> bit (pointer_bytes p ! i) n \<longleftrightarrow> n < 8 \<and> bit p (8 * i + n)"
  by (simp_all add: pointer_bytes_def bit_simps)

text \<open>What the kernel is given as the value of an option does not depend on the option's value.\<close>

lemma option_value_is_pointer:
  "set_socket_option k s lvl opt optval optlen w = ask k (Set_sock_opt (so_fd s) lvl opt (pointer_bytes optval)) w"
  by (simp add: set_socket_option_def)

lemma close_view:
  assumes "fd_kernel k v"
  shows "opn v (snd (ask k (Close f) w)) = opn v w - {f}"
  using fd_kernelD [OF assms, of "Close f" w "fst (k (Close f) w)" "snd (k (Close f) w)"]
  by (simp add: ask_def case_prod_unfold Let_def fd_answer_def view_is_def)

text \<open>
  One session of a Unix socket, from creation over binding, listening and accepting to closing
  the connection and then the socket: the connection is marked valid exactly when it has an
  open descriptor of its own, the exchange leaves the set of open descriptors alone, both
  objects are marked closed, and the descriptors open at the end are those open before, also
  where a call has failed on the way.
\<close>

theorem socket_session:
  assumes "fd_kernel k v" "\<forall>f \<in> opn v w. 0 \<le> f" "length path < 108"
    and "sock_new k Unix t w = (s, w1)" "unix_bind k s path w1 = (b, w2)" "sock_listen k s n w2 = (l, w3)"
    and "un_accept k this s w3 = (c, w4)" "co_send k c out w4 = (r, w5)"
    and "co_close k c w5 = ((r1, c'), w6)" "sock_close k s w6 = ((r2, s'), w7)"
  shows "(co_valid c \<longleftrightarrow> co_fd c \<in> opn v w4) \<and> opn v w5 = opn v w4 \<and>
    (co_valid c \<longrightarrow> co_fd c \<noteq> so_fd s) \<and> \<not> co_valid c' \<and> \<not> so_opened s' \<and> opn v w7 = opn v w"
proof -
  note D = fd_kernelD [OF assms(1)]
  obtain a1 where a1: "k (Socket 1 (type_code t) 0) w = (a1, w1)" "so_fd s = rval a1"
    using assms(4) by (auto simp: sock_new_def ask_def split: prod.splits)
  obtain a2 where a2: "k (Bind (so_fd s) (Sockaddr_un path)) w1 = (a2, w2)"
    using assms(3,5) by (auto simp: unix_bind_def ask_def split: prod.splits)
  obtain a3 where a3: "k (Listen (so_fd s) n) w2 = (a3, w3)"
    using assms(6) by (auto simp: sock_listen_def ask_def split: prod.splits)
  obtain a4 where a4: "k (Accept (so_fd s)) w3 = (a4, w4)" "co_fd c = rval a4" "co_valid c = (0 \<le> rval a4)"
    using assms(7) by (auto simp: un_accept_def ask_def split: prod.splits)
  obtain a5 where a5: "k (Send (co_fd c) out) w4 = (a5, w5)"
    using assms(8) by (auto simp: co_send_def ask_def split: prod.splits)
  have 6: "opn v w6 = opn v w5 - {co_fd c}" "\<not> co_valid c'"
    using assms(9) close_view [OF assms(1), of "co_fd c" w5]
    by (cases "ask k (Close (co_fd c)) w5"; fastforce simp: co_close_def Let_def)+
  have 7: "opn v w7 = opn v w6 - {so_fd s}" "\<not> so_opened s'"
    using assms(10) close_view [OF assms(1), of "so_fd s" w6]
    by (cases "ask k (Close (so_fd s)) w6"; fastforce simp: sock_close_def Let_def)+
  have 1: "opn v w1 = (if rval a1 < 0 then opn v w else insert (so_fd s) (opn v w))" "\<not> rval a1 < 0 \<longrightarrow> so_fd s \<notin> opn v w"
    using D [OF a1(1)] a1(2) by (auto simp: fd_answer_def view_is_def Let_def split: if_splits)
  have 23: "opn v w3 = opn v w1"
    using D [OF a2] D [OF a3] by (auto simp: fd_answer_def view_is_def Let_def split: if_splits)
  have 4: "opn v w4 = (if rval a4 < 0 then opn v w3 else insert (co_fd c) (opn v w3))" "\<not> rval a4 < 0 \<longrightarrow> co_fd c \<notin> opn v w3"
    using D [OF a4(1)] a4(2) by (auto simp: fd_answer_def view_is_def Let_def split: if_splits)
  have 5: "opn v w5 = opn v w4" using D [OF a5] by (auto simp: fd_answer_def view_is_def Let_def)
  have pos: "\<forall>f \<in> opn v w3. 0 \<le> f" using 1 23 a1(2) assms(2) by (auto split: if_splits)
  have neg: "so_fd s \<notin> opn v w" using 1(2) a1(2) assms(2) by (cases "rval a1 < 0") auto
  have C: "co_fd c \<notin> opn v w3" using 4(2) a4(2) pos by (cases "rval a4 < 0") auto
  have valid: "co_valid c \<longleftrightarrow> co_fd c \<in> opn v w4" using 4(1) C a4(3) by (simp split: if_splits)
  have ne: "co_valid c \<longrightarrow> co_fd c \<noteq> so_fd s"
    using 1(1) 23 4(2) a1(2) a4(2,3) by (cases "rval a1 < 0") auto
  have "opn v w4 - {co_fd c} = opn v w3" using 4(1) C by (simp split: if_splits)
  moreover have "opn v w3 - {so_fd s} = opn v w" using 1(1) 23 neg by (simp split: if_splits)
  ultimately have "opn v w7 = opn v w" using 5 6(1) 7(1) by simp
  then show ?thesis using valid ne 5 6(2) 7(2) by simp
qed

theorem socket_session_witness:
  "\<exists>s w1 b w2 l w3 c w4 r w5 r1 c' w6 r2 s' w7.
     sock_new fds_kernel Unix Tcp fds0 = (s, w1) \<and> unix_bind fds_kernel s ''/tmp/b'' w1 = (b, w2) \<and>
     sock_listen fds_kernel s 8 w2 = (l, w3) \<and> un_accept fds_kernel 0 s w3 = (c, w4) \<and> co_valid c \<and>
     co_send fds_kernel c [7] w4 = (r, w5) \<and> co_close fds_kernel c w5 = ((r1, c'), w6) \<and>
     sock_close fds_kernel s w6 = ((r2, s'), w7) \<and> f_opn w7 = {0, 1, 2}"
proof -
  obtain s w1 b w2 l w3 c w4 r w5 r1 c' w6 r2 s' w7 where
    1: "sock_new fds_kernel Unix Tcp fds0 = (s, w1)" and 2: "unix_bind fds_kernel s ''/tmp/b'' w1 = (b, w2)" and
    3: "sock_listen fds_kernel s 8 w2 = (l, w3)" and 4: "un_accept fds_kernel 0 s w3 = (c, w4)" and 5: "co_valid c" and
    6: "co_send fds_kernel c [7] w4 = (r, w5)" and 7: "co_close fds_kernel c w5 = ((r1, c'), w6)" and
    8: "sock_close fds_kernel s w6 = ((r2, s'), w7)"
    by (simp add: sock_new_def unix_bind_def sock_listen_def un_accept_def co_send_def co_close_def
        sock_close_def ask_def Let_def fds0_def fds_fresh_def)
  have "\<forall>f \<in> opn fds_view fds0. 0 \<le> f" by (simp add: fds_view_def fds0_def)
  from socket_session [OF fds_kernel_ok this _ 1 2 3 4 6 7 8] have "f_opn w7 = {0, 1, 2}"
    by (simp add: fds_view_def fds0_def)
  with 1 2 3 4 5 6 7 8 show ?thesis by blast
qed

end
