(* ===== verification/TestPrograms.thy ===== *)
theory TestPrograms
  imports Bmp390 Qmc5883 Gps FilterMath StdNum
begin

text \<open>
  The small programs around the drivers: \<^verbatim>\<open>src/tests/pressure.cpp\<close>, \<^verbatim>\<open>src/tests/hello.cpp\<close>,
  \<^verbatim>\<open>src/main/gps_test.cpp\<close> and \<^verbatim>\<open>src/main/mag_test.cpp\<close>. Their endless loops are looked at for \<open>n\<close>
  rounds. The command line of the pressure test is its two numbers, what its uninitialised
  variables hold is an argument, and an altitude that is not finite is not followed further.
\<close>

section \<open>pressure.cpp\<close>

definition M_TO_FT :: real where "M_TO_FT = 3.28084"

definition pressure_configure :: "'w kernel \<Rightarrow> bmp \<times> 'w \<Rightarrow> bmp \<times> 'w" where
  "pressure_configure k = (\<lambda>bw.
     let bw = bmp_init k bw; (b, w) = bmp_init k bw;
         w = soft_reset k b w;
         w = set_oversample k b HIGH ULTRA_LOW_POWER w;
         w = set_iir_filter k b COEFF_15 w;
         w = set_output_data_rate k b Odr_50 w;
         w = set_enable k b True True w;
         w = set_fifo_stop_on_full k b False w;
         w = set_pwr_mode k b NORMAL w
     in (b, w))"

text \<open>One sample: the reading, with a finite altitude, and the filter's output.\<close>

definition pressure_sample :: "'w kernel \<Rightarrow> bmp \<Rightarrow> filt \<Rightarrow> ('w, real \<times> real \<times> real \<times> real \<times> filt) io" where
  "pressure_sample k b f w =
     (let ((t, p, h), w) = get_data k b w
      in case h of
           None \<Rightarrow> (Inl Not_modelled, w)
         | Some alt \<Rightarrow> (let (y, f) = filter_step f alt in (Inr (t, p, alt, y, f), w)))"

primrec pressure_warm_up :: "nat \<Rightarrow> 'w kernel \<Rightarrow> int \<Rightarrow> bmp \<Rightarrow> real \<times> filt \<Rightarrow> ('w, real \<times> filt) io" where
  "pressure_warm_up 0 k pause b af = io_return af"
| "pressure_warm_up (Suc i) k pause b af =
     io_bind (pressure_sample k b (snd af)) (\<lambda>(t, p, alt, y, f).
     io_bind (io_act (call k (Usleep pause))) (\<lambda>_.
     pressure_warm_up i k pause b (alt, f)))"

definition pressure_line :: "real \<Rightarrow> int \<Rightarrow> real list \<Rightarrow> string" where
  "pressure_line t kp fts =
     ''| '' @ fmt_f 3 1 t @ '' '' @ [CHR 0xC2, CHR 0xB0] @ ''C | '' @ pad_left 2 (fmt_d kp) @ '' kP | '' @
     fmt_f 5 2 (fts ! 0) @ '' ft | '' @ fmt_f 5 2 (fts ! 1) @ '' ft/s | '' @
     fmt_f 5 2 (fts ! 2) @ '' ft | '' @ fmt_f 5 2 (fts ! 3) @ '' ft/s |'' @ newline"

text \<open>The loop's variables are the two previous altitudes and the filter.\<close>

definition pressure_round ::
  "'w kernel \<Rightarrow> int \<Rightarrow> bmp \<Rightarrow> real \<Rightarrow> real \<times> real \<times> filt \<Rightarrow> ('w, real \<times> real \<times> filt) io" where
  "pressure_round k pause b init_alt = (\<lambda>(prev, fprev, f).
     io_bind (pressure_sample k b f) (\<lambda>(t, p, alt, filtered, f).
     let vs = (alt - prev) / 1.0; fvs = (filtered - fprev) / 1.0
     in io_bind (io_lift (int_of_double (p / 1000))) (\<lambda>kp.
        io_bind (io_act (call k (Puts (pressure_line t kp
          [(alt - init_alt) * M_TO_FT, vs * M_TO_FT, (filtered - init_alt) * M_TO_FT, fvs * M_TO_FT])))) (\<lambda>_.
        io_bind (io_act (call k (Usleep pause))) (\<lambda>_.
        io_return (alt, filtered, f))))))"

primrec pressure_loop ::
  "nat \<Rightarrow> 'w kernel \<Rightarrow> int \<Rightarrow> bmp \<Rightarrow> real \<Rightarrow> real \<times> real \<times> filt \<Rightarrow> ('w, real \<times> real \<times> filt) io" where
  "pressure_loop 0 k pause b init_alt s = io_return s"
| "pressure_loop (Suc n) k pause b init_alt s =
     io_bind (pressure_round k pause b init_alt s) (pressure_loop n k pause b init_alt)"

definition pressure_main ::
  "nat \<Rightarrow> 'w kernel \<Rightarrow> real \<times> real \<Rightarrow> real option \<Rightarrow> real option \<Rightarrow> ('w, real \<times> real \<times> filt) io" where
  "pressure_main n k unset arg1 arg2 =
     (let samp_rate = (case arg1 of None \<Rightarrow> 20.0 | Some x \<Rightarrow> x);
          cutoff = (case arg2 of None \<Rightarrow> 1.0 | Some x \<Rightarrow> x)
      in io_bind (\<lambda>w. let (b, w) = pressure_configure k (bmp_static, w) in (Inr b, w)) (\<lambda>b.
         io_bind (io_lift (case low_pass samp_rate cutoff of None \<Rightarrow> Inl Not_modelled | Some f \<Rightarrow> Inr f)) (\<lambda>f.
         io_bind (io_lift (int_of_double (1000000 / samp_rate))) (\<lambda>pause.
         io_bind (pressure_warm_up 50 k pause b (0, f)) (\<lambda>(init_alt, f).
         pressure_loop n k pause b init_alt (fst unset, snd unset, f))))))"

section \<open>hello.cpp, gps\_test.cpp, mag\_test.cpp\<close>

definition hello_main :: "'w kernel \<Rightarrow> 'w \<Rightarrow> 'w" where
  "hello_main k = call k (Puts (''Hello Best World!'' @ newline))"

definition gps_test_round :: "'w kernel \<Rightarrow> gps \<times> 'w \<Rightarrow> gps \<times> 'w" where
  "gps_test_round k = (\<lambda>(g, w).
     let (g, w) = (if new_data g
                   then (g\<lparr>new_data := False\<rparr>, call k (Puts (fmt_f 0 6 (gps_lat g) @ '', '' @ fmt_f 0 6 (gps_lng g) @ newline)) w)
                   else (g, w))
     in (g, call k (Usleep 100000) w))"

text \<open>
  The main thread's rounds, each after what the GPS thread has made of the device since the last.
\<close>

primrec gps_test_rounds :: "(gps \<Rightarrow> gps) list \<Rightarrow> 'w kernel \<Rightarrow> gps \<times> 'w \<Rightarrow> gps \<times> 'w" where
  "gps_test_rounds [] k gw = gw"
| "gps_test_rounds (u # us) k gw = gps_test_rounds us k (gps_test_round k (apfst u gw))"

definition gps_test_main :: "(gps \<Rightarrow> gps) list \<Rightarrow> 'w kernel \<Rightarrow> gps \<Rightarrow> 'w \<Rightarrow> gps \<times> 'w" where
  "gps_test_main us k device w = gps_test_rounds us k (gps_init k device w)"

text \<open>\<open>show\<close> is the stream's default notation for a double.\<close>

fun filter_three :: "filt list \<Rightarrow> real list \<Rightarrow> real list \<times> filt list" where
  "filter_three (f # fs) (x # xs) =
     (let (y, f) = filter_step f x; (ys, fs) = filter_three fs xs in (y # ys, f # fs))"
| "filter_three fs xs = ([], fs)"

definition mag_round :: "'w kernel \<Rightarrow> (real \<Rightarrow> string) \<Rightarrow> qmc \<Rightarrow> filt list \<times> 'w \<Rightarrow> filt list \<times> 'w" where
  "mag_round k show q = (\<lambda>(fs, w).
     let (data, w) = qmc_get_data k q w;
         (data, fs) = filter_three fs data;
         w = call k (Puts (show (data ! 0) @ '','' @ show (data ! 1) @ '','' @ show (data ! 2) @ newline)) w;
         w = call k Flush w
     in (fs, call k (Usleep (1000000 div 100)) w))"

primrec mag_loop :: "nat \<Rightarrow> 'w kernel \<Rightarrow> (real \<Rightarrow> string) \<Rightarrow> qmc \<Rightarrow> filt list \<times> 'w \<Rightarrow> filt list \<times> 'w" where
  "mag_loop 0 k show q x = x"
| "mag_loop (Suc n) k show q x = mag_loop n k show q (mag_round k show q x)"

definition mag_main :: "nat \<Rightarrow> 'w kernel \<Rightarrow> (real \<Rightarrow> string) \<Rightarrow> 'w \<Rightarrow> fault + filt list \<times> 'w" where
  "mag_main n k show w =
     (case low_pass 100 2 of
        None \<Rightarrow> Inl Not_modelled
      | Some f \<Rightarrow>
          (let w = call k (Open ''mag-data.csv'') w;
               (q, w) = qmc_init k (qmc_static, w);
               (q, w) = set_control_register k Continuous Hz200 G2 K64 (q, w)
           in Inr (mag_loop n k show q (replicate 3 f, w))))"

end
