(* ===== verification/ThreadQueue.thy ===== *)
theory ThreadQueue
  imports Main
begin

text \<open>
  \<^verbatim>\<open>src/include/mqtt/thread_queue.h\<close>: the blocking queue through which the MQTT client hands
  consumed messages over. An operation holds the lock from its start to the wait or to its end,
  so it is one atomic step; a call that waits is recorded until it is notified, and a notified
  call looks at the queue again.
\<close>

section \<open>The queue\<close>

definition MAX_CAPACITY :: nat where "MAX_CAPACITY = 2 ^ 64 - 1"

record 'a thread_queue =
  q_cap :: nat
  que :: "'a list"

definition thread_queue_new :: "'a thread_queue" where
  "thread_queue_new = \<lparr>q_cap = MAX_CAPACITY, que = []\<rparr>"

definition thread_queue_of :: "nat \<Rightarrow> 'a thread_queue" where
  "thread_queue_of cap = \<lparr>q_cap = max cap 1, que = []\<rparr>"

definition tq_empty :: "'a thread_queue \<Rightarrow> bool" where
  "tq_empty q \<longleftrightarrow> que q = []"

definition tq_capacity :: "'a thread_queue \<Rightarrow> nat" where
  "tq_capacity q = q_cap q"

definition tq_set_capacity :: "nat \<Rightarrow> 'a thread_queue \<Rightarrow> 'a thread_queue" where
  "tq_set_capacity cap q = q\<lparr>q_cap := cap\<rparr>"

definition tq_size :: "'a thread_queue \<Rightarrow> nat" where
  "tq_size q = length (que q)"

text \<open>
  The two bodies that the operations share, after the wait: they also say whether the condition
  is notified. The subtraction wraps around in the 64 bits of the size type.
\<close>

definition emplace :: "'a \<Rightarrow> 'a thread_queue \<Rightarrow> bool \<times> 'a thread_queue" where
  "emplace v q = (que q = [], q\<lparr>que := que q @ [v]\<rparr>)"

definition pop_front :: "'a thread_queue \<Rightarrow> bool \<times> 'a \<times> 'a thread_queue" where
  "pop_front q =
     (let v = hd (que q); q = q\<lparr>que := tl (que q)\<rparr>
      in (int (tq_size q) = (int (q_cap q) - 1) mod 2 ^ 64, v, q))"

definition tq_full :: "'a thread_queue \<Rightarrow> bool" where
  "tq_full q \<longleftrightarrow> tq_size q \<ge> q_cap q"

text \<open>The operations that do not wait, with the notification they send.\<close>

definition try_put :: "'a \<Rightarrow> 'a thread_queue \<Rightarrow> bool \<times> bool \<times> 'a thread_queue" where
  "try_put v q = (if tq_full q then (False, False, q) else (True, emplace v q))"

definition try_get :: "'a thread_queue \<Rightarrow> 'a option \<times> bool \<times> 'a thread_queue" where
  "try_get q = (if tq_empty q then (None, False, q) else (let (n, v, q) = pop_front q in (Some v, n, q)))"

section \<open>The threads around it\<close>

text \<open>
  \<open>putting\<close> and \<open>getting\<close> are the calls that wait, \<open>put_woken\<close> and \<open>get_woken\<close> those that have been
  notified and not run yet. \<open>accepted\<close> and \<open>got\<close> record what has gone in and come out.
\<close>

record 'a tq_sys =
  tq :: "'a thread_queue"
  putting :: "'a list"
  put_woken :: "'a list"
  getting :: nat
  get_woken :: nat
  accepted :: "'a list"
  got :: "'a list"

definition tq_start :: "'a thread_queue \<Rightarrow> 'a tq_sys" where
  "tq_start q = \<lparr>tq = q, putting = [], put_woken = [], getting = 0, get_woken = 0, accepted = [], got = []\<rparr>"

definition notify_get :: "'a tq_sys \<Rightarrow> 'a tq_sys" where
  "notify_get s = (if getting s = 0 then s else s\<lparr>getting := getting s - 1, get_woken := Suc (get_woken s)\<rparr>)"

inductive notify_put :: "'a tq_sys \<Rightarrow> 'a tq_sys \<Rightarrow> bool" where
  Nobody: "putting s = [] \<Longrightarrow> notify_put s s"
| Somebody: "putting s = xs @ v # ys \<Longrightarrow> notify_put s (s\<lparr>putting := xs @ ys, put_woken := put_woken s @ [v]\<rparr>)"

text \<open>
  The put after its wait. The two timed puts, which take a pointer, are here with the value it points to,
  as their comments promise; their bodies emplace the pointer itself (lines 194 and 223).
\<close>

definition put_in :: "'a \<Rightarrow> 'a tq_sys \<Rightarrow> 'a tq_sys" where
  "put_in v s =
     (let (n, q) = emplace v (tq s); s = s\<lparr>tq := q, accepted := accepted s @ [v]\<rparr>
      in if n then notify_get s else s)"

text \<open>The get after its wait; whom it notifies is the scheduler's choice.\<close>

definition take_out :: "'a tq_sys \<Rightarrow> 'a tq_sys \<Rightarrow> bool" where
  "take_out s s' \<longleftrightarrow>
     (case pop_front (tq s) of (n, v, q) \<Rightarrow>
        let s1 = s\<lparr>tq := q, got := got s @ [v]\<rparr> in if n then notify_put s1 s' else s' = s1)"

datatype 'a tq_label = Call_put 'a | Wake_put 'a | Give_up_put 'a | Call_try_put 'a
  | Call_get | Wake_get | Give_up_get | Call_try_get | Set_cap nat

inductive tq_step :: "'a tq_sys \<Rightarrow> 'a tq_label \<Rightarrow> 'a tq_sys \<Rightarrow> bool" where
  Put_waits: "tq_full (tq s) \<Longrightarrow> tq_step s (Call_put v) (s\<lparr>putting := putting s @ [v]\<rparr>)"
| Put_runs: "\<not> tq_full (tq s) \<Longrightarrow> tq_step s (Call_put v) (put_in v s)"
| Put_waits_again: "put_woken s = xs @ v # ys \<Longrightarrow> tq_full (tq s) \<Longrightarrow>
    tq_step s (Wake_put v) (s\<lparr>put_woken := xs @ ys, putting := putting s @ [v]\<rparr>)"
| Put_resumes: "put_woken s = xs @ v # ys \<Longrightarrow> \<not> tq_full (tq s) \<Longrightarrow>
    tq_step s (Wake_put v) (put_in v (s\<lparr>put_woken := xs @ ys\<rparr>))"
| Put_times_out: "putting s = xs @ v # ys \<Longrightarrow> tq_full (tq s) \<Longrightarrow>
    tq_step s (Give_up_put v) (s\<lparr>putting := xs @ ys\<rparr>)"
| Put_just_in_time: "putting s = xs @ v # ys \<Longrightarrow> \<not> tq_full (tq s) \<Longrightarrow>
    tq_step s (Give_up_put v) (put_in v (s\<lparr>putting := xs @ ys\<rparr>))"
| Put_refused: "tq_full (tq s) \<Longrightarrow> tq_step s (Call_try_put v) s"
| Put_tried: "\<not> tq_full (tq s) \<Longrightarrow> tq_step s (Call_try_put v) (put_in v s)"
| Get_waits: "tq_empty (tq s) \<Longrightarrow> tq_step s Call_get (s\<lparr>getting := Suc (getting s)\<rparr>)"
| Get_runs: "\<not> tq_empty (tq s) \<Longrightarrow> take_out s s' \<Longrightarrow> tq_step s Call_get s'"
| Get_waits_again: "get_woken s = Suc n \<Longrightarrow> tq_empty (tq s) \<Longrightarrow>
    tq_step s Wake_get (s\<lparr>get_woken := n, getting := Suc (getting s)\<rparr>)"
| Get_resumes: "get_woken s = Suc n \<Longrightarrow> \<not> tq_empty (tq s) \<Longrightarrow> take_out (s\<lparr>get_woken := n\<rparr>) s' \<Longrightarrow>
    tq_step s Wake_get s'"
| Get_times_out: "getting s = Suc n \<Longrightarrow> tq_empty (tq s) \<Longrightarrow> tq_step s Give_up_get (s\<lparr>getting := n\<rparr>)"
| Get_just_in_time: "getting s = Suc n \<Longrightarrow> \<not> tq_empty (tq s) \<Longrightarrow> take_out (s\<lparr>getting := n\<rparr>) s' \<Longrightarrow>
    tq_step s Give_up_get s'"
| Get_refused: "tq_empty (tq s) \<Longrightarrow> tq_step s Call_try_get s"
| Get_tried: "\<not> tq_empty (tq s) \<Longrightarrow> take_out s s' \<Longrightarrow> tq_step s Call_try_get s'"
| Capacity: "tq_step s (Set_cap c) (s\<lparr>tq := tq_set_capacity c (tq s)\<rparr>)"

inductive_cases tq_stepE: "tq_step s l s'"
inductive_cases notify_putE: "notify_put s s'"

inductive tq_run :: "'a tq_sys \<Rightarrow> 'a tq_label list \<Rightarrow> 'a tq_sys \<Rightarrow> bool" where
  Run_nil: "tq_run s [] s"
| Run_step: "tq_run s ls s' \<Longrightarrow> tq_step s' l s'' \<Longrightarrow> tq_run s (ls @ [l]) s''"

section \<open>The contract of a bounded queue\<close>

text \<open>Operations on a sequential queue, and what they report.\<close>

datatype 'a op = Op_put 'a | Op_get

primrec run_ops :: "('a \<Rightarrow> 'q \<Rightarrow> bool \<times> 'q) \<Rightarrow> ('q \<Rightarrow> 'a option \<times> 'q) \<Rightarrow> 'a op list \<Rightarrow> 'q \<Rightarrow> 'a list \<times> 'a list \<times> 'q" where
  "run_ops put get [] q = ([], [], q)"
| "run_ops put get (p # ps) q =
     (case p of
        Op_put v \<Rightarrow>
          (let (b, q) = put v q; (ins, outs, q) = run_ops put get ps q in (if b then v # ins else ins, outs, q))
      | Op_get \<Rightarrow>
          (let (r, q) = get q; (ins, outs, q) = run_ops put get ps q
           in (ins, case r of None \<Rightarrow> outs | Some v \<Rightarrow> v # outs, q)))"

locale bounded_queue =
  fixes put :: "'a \<Rightarrow> 'q \<Rightarrow> bool \<times> 'q" and get :: "'q \<Rightarrow> 'a option \<times> 'q"
    and items :: "'q \<Rightarrow> 'a list" and bound :: "'q \<Rightarrow> nat"
  assumes put_full: "bound q \<le> length (items q) \<Longrightarrow> put v q = (False, q)"
    and put_room: "length (items q) < bound q \<Longrightarrow>
      fst (put v q) \<and> items (snd (put v q)) = items q @ [v] \<and> bound (snd (put v q)) = bound q"
    and get_empty: "items q = [] \<Longrightarrow> get q = (None, q)"
    and get_item: "items q = v # vs \<Longrightarrow>
      fst (get q) = Some v \<and> items (snd (get q)) = vs \<and> bound (snd (get q)) = bound q"
begin

lemma run_fifo:
  assumes "run_ops put get ps q = (ins, outs, q')" "length (items q) \<le> bound q"
  shows "items q @ ins = outs @ items q' \<and> length (items q') \<le> bound q' \<and> bound q' = bound q"
  using assms
proof (induction ps arbitrary: q ins outs q')
  case (Cons p ps)
  show ?case
  proof (cases p)
    case p: (Op_put v)
    obtain b q1 where b: "put v q = (b, q1)" by fastforce
    obtain i1 o1 q2 where r: "run_ops put get ps q1 = (i1, o1, q2)" by (metis surj_pair)
    show ?thesis
    proof (cases "length (items q) < bound q")
      case True
      then have "b" "items q1 = items q @ [v]" "bound q1 = bound q" using put_room [of q v] b by simp_all
      then show ?thesis using Cons.IH [OF r] Cons.prems True b r p by auto
    next
      case False
      then have "\<not> b" "q1 = q" using put_full [of q v] b by simp_all
      then show ?thesis using Cons.IH [OF r] Cons.prems b r p by auto
    qed
  next
    case p: Op_get
    obtain x q1 where x: "get q = (x, q1)" by fastforce
    obtain i1 o1 q2 where r: "run_ops put get ps q1 = (i1, o1, q2)" by (metis surj_pair)
    show ?thesis
    proof (cases "items q")
      case Nil
      then have "x = None" "q1 = q" using get_empty [of q] x by simp_all
      then show ?thesis using Cons.IH [OF r] Cons.prems x r p by auto
    next
      case (Cons v vs)
      then have "x = Some v" "items q1 = vs" "bound q1 = bound q" using get_item [of q v vs] x by simp_all
      then show ?thesis using Cons.IH [OF r] Cons.prems x r p Cons by auto
    qed
  qed
qed simp

end

definition seq_put :: "'a \<Rightarrow> 'a thread_queue \<Rightarrow> bool \<times> 'a thread_queue" where
  "seq_put v q = (case try_put v q of (b, n, q) \<Rightarrow> (b, q))"

definition seq_get :: "'a thread_queue \<Rightarrow> 'a option \<times> 'a thread_queue" where
  "seq_get q = (case try_get q of (x, n, q) \<Rightarrow> (x, q))"

lemmas queue_defs = seq_put_def seq_get_def try_put_def try_get_def emplace_def pop_front_def tq_full_def
  tq_empty_def tq_size_def Let_def

interpretation tq: bounded_queue seq_put seq_get que q_cap
  by unfold_locales (auto simp: queue_defs)

section \<open>Invariants\<close>

lemma take_out_item:
  assumes "take_out s s'" "que (tq s) = v # vs"
  shows "tq s' = (tq s)\<lparr>que := vs\<rparr> \<and> got s' = got s @ [v] \<and> accepted s' = accepted s"
  using assms by (auto simp: take_out_def pop_front_def Let_def elim!: notify_putE split: if_splits)

lemma put_in_item:
  "tq (put_in v s) = (tq s)\<lparr>que := que (tq s) @ [v]\<rparr>" "got (put_in v s) = got s"
  "accepted (put_in v s) = accepted s @ [v]" "putting (put_in v s) = putting s"
  "getting (put_in v s) = (if que (tq s) = [] then getting s - 1 else getting s)"
  by (simp_all add: put_in_def emplace_def notify_get_def Let_def)

text \<open>Nothing is lost, doubled or overtaken between the threads.\<close>

definition fifo_ok :: "'a tq_sys \<Rightarrow> bool" where
  "fifo_ok s \<longleftrightarrow> accepted s = got s @ que (tq s)"

lemma step_fifo: "tq_step s l s' \<Longrightarrow> fifo_ok s \<Longrightarrow> fifo_ok s'"
proof (induction rule: tq_step.induct)
  case (Get_runs s s')
  then show ?case using take_out_item [of s s'] by (cases "que (tq s)") (auto simp: fifo_ok_def tq_empty_def)
next
  case (Get_resumes s n s')
  then show ?case using take_out_item [of "s\<lparr>get_woken := n\<rparr>" s'] by (cases "que (tq s)") (auto simp: fifo_ok_def tq_empty_def)
next
  case (Get_just_in_time s n s')
  then show ?case using take_out_item [of "s\<lparr>getting := n\<rparr>" s'] by (cases "que (tq s)") (auto simp: fifo_ok_def tq_empty_def)
next
  case (Get_tried s s')
  then show ?case using take_out_item [of s s'] by (cases "que (tq s)") (auto simp: fifo_ok_def tq_empty_def)
qed (auto simp: fifo_ok_def put_in_item tq_set_capacity_def)

text \<open>As long as the capacity is left alone the queue stays within it.\<close>

definition within :: "nat \<Rightarrow> 'a tq_sys \<Rightarrow> bool" where
  "within c s \<longleftrightarrow> q_cap (tq s) = c \<and> length (que (tq s)) \<le> c"

lemma take_out_within: "take_out s s' \<Longrightarrow> \<not> tq_empty (tq s) \<Longrightarrow> within c s \<Longrightarrow> within c s'"
  using take_out_item [of s s'] by (cases "que (tq s)") (auto simp: within_def tq_empty_def)

lemma step_within: "tq_step s l s' \<Longrightarrow> (\<forall>c. l \<noteq> Set_cap c) \<Longrightarrow> within c s \<Longrightarrow> within c s'"
proof (induction rule: tq_step.induct)
  case (Get_runs s s')
  then show ?case using take_out_within [of s s' c] by simp
next
  case (Get_resumes s n s')
  then show ?case using take_out_within [of "s\<lparr>get_woken := n\<rparr>" s' c] by (simp add: within_def)
next
  case (Get_just_in_time s n s')
  then show ?case using take_out_within [of "s\<lparr>getting := n\<rparr>" s' c] by (simp add: within_def)
next
  case (Get_tried s s')
  then show ?case using take_out_within [of s s' c] by simp
qed (auto simp: within_def put_in_item tq_full_def tq_size_def)

text \<open>
  No wake-up is missed: a put waits only on a full queue, a get only on an empty one. It takes
  a discipline: one thread that puts and one that gets.
\<close>

definition one_each :: "'a tq_sys \<Rightarrow> bool" where
  "one_each s \<longleftrightarrow> length (putting s) + length (put_woken s) \<le> 1 \<and> getting s + get_woken s \<le> 1"

definition awake :: "nat \<Rightarrow> 'a tq_sys \<Rightarrow> bool" where
  "awake c s \<longleftrightarrow> within c s \<and> (putting s \<noteq> [] \<longrightarrow> length (que (tq s)) = c) \<and> (getting s \<noteq> 0 \<longrightarrow> que (tq s) = [])"

lemma put_in_awake:
  assumes "awake c s" "\<not> tq_full (tq s)" "getting s \<le> 1"
  shows "awake c (put_in v s)"
  using assms
  by (auto simp: awake_def within_def put_in_item tq_full_def tq_size_def)

lemma take_out_awake:
  assumes "take_out s s'" "awake c s" "\<not> tq_empty (tq s)" "length (putting s) \<le> 1" "0 < c" "c < 2 ^ 64"
  shows "awake c s'"
  using assms
  by (cases "que (tq s)")
    (auto simp: awake_def within_def take_out_def pop_front_def tq_empty_def tq_size_def Let_def
      mod_pos_pos_trivial elim!: notify_putE split: if_splits)

lemma step_awake:
  assumes "tq_step s l s'" "\<forall>n. l \<noteq> Set_cap n" "awake c s" "one_each s" "0 < c" "c < 2 ^ 64"
  shows "awake c s'"
  using assms(1-4)
proof (cases rule: tq_step.cases)
  case (Put_resumes xs v ys)
  have "awake c (s\<lparr>put_woken := xs @ ys\<rparr>)" using assms(3) by (simp add: awake_def within_def)
  then show ?thesis using put_in_awake [of c "s\<lparr>put_woken := xs @ ys\<rparr>" v] Put_resumes assms(4) by (simp add: one_each_def)
next
  case (Put_just_in_time xs v ys)
  have "awake c (s\<lparr>putting := xs @ ys\<rparr>)" using assms(3) Put_just_in_time by (auto simp: awake_def within_def)
  then show ?thesis using put_in_awake [of c "s\<lparr>putting := xs @ ys\<rparr>" v] Put_just_in_time assms(4) by (simp add: one_each_def)
next
  case Get_runs
  then show ?thesis using take_out_awake [of s s' c] assms by (simp add: one_each_def)
next
  case (Get_resumes n)
  have "awake c (s\<lparr>get_woken := n\<rparr>)" using assms(3) by (simp add: awake_def within_def)
  then show ?thesis using take_out_awake [of "s\<lparr>get_woken := n\<rparr>" s' c] Get_resumes assms(4-6) by (simp add: one_each_def)
next
  case (Get_just_in_time n)
  have "awake c (s\<lparr>getting := n\<rparr>)" using assms(3) Get_just_in_time by (auto simp: awake_def within_def)
  then show ?thesis using take_out_awake [of "s\<lparr>getting := n\<rparr>" s' c] Get_just_in_time assms(4-6) by (simp add: one_each_def)
next
  case Get_tried
  then show ?thesis using take_out_awake [of s s' c] assms by (simp add: one_each_def)
next
  case (Put_runs v)
  then show ?thesis using put_in_awake [of c s v] assms(3,4) by (simp add: one_each_def)
next
  case (Put_tried v)
  then show ?thesis using put_in_awake [of c s v] assms(3,4) by (simp add: one_each_def)
qed (auto simp: awake_def within_def tq_full_def tq_size_def tq_empty_def)

inductive paired :: "nat \<Rightarrow> 'a tq_sys \<Rightarrow> bool" for c where
  Start: "paired c (tq_start \<lparr>q_cap = c, que = []\<rparr>)"
| Step: "paired c s \<Longrightarrow> tq_step s l s' \<Longrightarrow> \<forall>n. l \<noteq> Set_cap n \<Longrightarrow> one_each s' \<Longrightarrow> paired c s'"

lemma paired_awake: "paired c s \<Longrightarrow> 0 < c \<Longrightarrow> c < 2 ^ 64 \<Longrightarrow> awake c s \<and> one_each s"
proof (induction rule: paired.induct)
  case Start
  then show ?case by (simp add: tq_start_def awake_def within_def one_each_def)
next
  case (Step s l s')
  then show ?case using step_awake [OF Step.hyps(2,3)] by blast
qed

section \<open>Properties\<close>

text \<open>
  Used by one thread at a time the queue is a bounded first-in first-out queue: whatever the
  sequence of attempts to put and to get, what has come out followed by what is left is what was
  there followed by what was accepted, and the length never exceeds the capacity.
\<close>

theorem sequential_fifo:
  assumes "run_ops seq_put seq_get ps q = (ins, outs, q')" "tq_size q \<le> tq_capacity q"
  shows "que q @ ins = outs @ que q' \<and> tq_size q' \<le> tq_capacity q' \<and> tq_capacity q' = tq_capacity q"
  using tq.run_fifo [OF assms(1)] assms(2) by (simp add: tq_size_def tq_capacity_def)

theorem sequential_fifo_witness:
  "run_ops seq_put seq_get [Op_put 1, Op_put 2, Op_put 3, Op_get, Op_put 4] (thread_queue_of 2) =
     ([1, 2, 4 :: nat], [1], \<lparr>q_cap = 2, que = [2, 4]\<rparr>) \<and> [] @ [1, 2, 4 :: nat] = [1] @ [2, 4]"
proof -
  have r: "run_ops seq_put seq_get [Op_put 1, Op_put 2, Op_put 3, Op_get, Op_put 4] (thread_queue_of 2) =
     ([1, 2, 4 :: nat], [1], \<lparr>q_cap = 2, que = [2, 4]\<rparr>)"
    by (simp add: queue_defs thread_queue_of_def)
  from sequential_fifo [OF r] r show ?thesis by (simp add: thread_queue_of_def tq_size_def tq_capacity_def)
qed

text \<open>
  C17: With any number of threads that put, get, wait, time out and change the capacity in any
  order, nothing is lost, doubled or overtaken: the accepted values are those handed out,
  followed by those in the queue. While the capacity is left alone it is respected.
\<close>

theorem threads_fifo:
  assumes "tq_run (tq_start \<lparr>q_cap = c, que = []\<rparr>) ls s"
  shows "accepted s = got s @ que (tq s) \<and>
    ((\<forall>n. Set_cap n \<notin> set ls) \<longrightarrow> tq_capacity (tq s) = c \<and> tq_size (tq s) \<le> c)"
proof -
  have "fifo_ok s \<and> ((\<forall>n. Set_cap n \<notin> set ls) \<longrightarrow> within c s)"
    using assms
  proof (induction "tq_start \<lparr>q_cap = c, que = []\<rparr> :: 'a tq_sys" ls s rule: tq_run.induct)
    case Run_nil
    then show ?case by (simp add: tq_start_def fifo_ok_def within_def)
  next
    case (Run_step ls s' l s'')
    have "within c s''" if "\<forall>n. Set_cap n \<notin> set (ls @ [l])"
      using that Run_step.hyps by (intro step_within [of s' l s'']) auto
    then show ?case using step_fifo [OF Run_step.hyps(3)] Run_step.hyps(2) by blast
  qed
  then show ?thesis by (simp add: fifo_ok_def within_def tq_capacity_def tq_size_def)
qed

text \<open>
  C18: One thread that puts and one that gets never miss a wake-up: a put waits without having
  been notified only while the queue is full, a get only while it is empty.
\<close>

theorem pair_never_misses:
  assumes "paired c s" "0 < c" "c < 2 ^ 64"
  shows "(putting s \<noteq> [] \<longrightarrow> tq_full (tq s)) \<and> (getting s \<noteq> 0 \<longrightarrow> tq_empty (tq s))"
  using paired_awake [OF assms] by (simp add: awake_def within_def tq_full_def tq_size_def tq_empty_def)

text \<open>
  With two threads that get, or with a capacity that is raised, wake-ups are missed: two gets
  wait, two values arrive, only the first is announced, and after it is taken a get still waits
  next to a value with no notification on its way; and a put that waits for room is not told
  when the capacity grows.
\<close>

theorem wakeups_missed:
  "\<exists>s s'. tq_run (tq_start (thread_queue_of 8)) [Call_get, Call_get, Call_put a, Call_put b, Wake_get] s \<and>
     getting s = 1 \<and> get_woken s = 0 \<and> que (tq s) = [b] \<and>
     tq_run (tq_start (thread_queue_of 1)) [Call_put a, Call_put b, Set_cap 10] s' \<and>
     putting s' = [b] \<and> put_woken s' = [] \<and> \<not> tq_full (tq s')"
proof -
  let ?s0 = "tq_start (thread_queue_of 8) :: 'a tq_sys" and ?t0 = "tq_start (thread_queue_of 1) :: 'a tq_sys"
  let ?s2 = "?s0\<lparr>getting := 2\<rparr>"
  let ?s4 = "put_in b (put_in a ?s2)"
  let ?s5 = "(?s4\<lparr>get_woken := 0\<rparr>)\<lparr>tq := \<lparr>q_cap = 8, que = [b]\<rparr>, got := [a]\<rparr>"
  let ?t2 = "(put_in a ?t0)\<lparr>putting := [b]\<rparr>"
  note simps = tq_start_def thread_queue_of_def tq_empty_def tq_full_def tq_size_def put_in_def emplace_def notify_get_def
    take_out_def pop_front_def tq_set_capacity_def Let_def
  have s: "tq_step ?s0 Call_get (?s0\<lparr>getting := Suc (getting ?s0)\<rparr>)"
    "tq_step (?s0\<lparr>getting := Suc (getting ?s0)\<rparr>) Call_get ((?s0\<lparr>getting := Suc (getting ?s0)\<rparr>)\<lparr>getting := Suc (getting (?s0\<lparr>getting := Suc (getting ?s0)\<rparr>))\<rparr>)"
    by (rule Get_waits; simp add: simps)+
  have s2: "(?s0\<lparr>getting := Suc (getting ?s0)\<rparr>)\<lparr>getting := Suc (getting (?s0\<lparr>getting := Suc (getting ?s0)\<rparr>))\<rparr> = ?s2"
    by (simp add: simps)
  have p: "tq_step ?s2 (Call_put a) (put_in a ?s2)" "tq_step (put_in a ?s2) (Call_put b) ?s4"
    by (rule Put_runs; simp add: simps)+
  have g: "tq_step ?s4 Wake_get ?s5"
    by (rule Get_resumes [where n = 0]) (simp_all add: simps)
  have 1: "tq_run ?s0 [Call_get, Call_get, Call_put a, Call_put b, Wake_get] ?s5"
    using Run_step [OF Run_step [OF Run_step [OF Run_step [OF Run_step [OF Run_nil s(1)] s(2) [unfolded s2]] p(1)] p(2)] g]
    by simp
  have q: "tq_step ?t0 (Call_put a) (put_in a ?t0)" by (rule Put_runs) (simp add: simps)
  have r: "tq_step (put_in a ?t0) (Call_put b) ?t2"
    using Put_waits [of "put_in a ?t0" b] by (simp add: simps)
  have 2: "tq_run ?t0 [Call_put a, Call_put b, Set_cap 10] (?t2\<lparr>tq := tq_set_capacity 10 (tq ?t2)\<rparr>)"
    using Run_step [OF Run_step [OF Run_step [OF Run_nil q] r] Capacity [of ?t2 10]] by simp
  show ?thesis
    by (intro exI [of _ ?s5] exI [of _ "?t2\<lparr>tq := tq_set_capacity 10 (tq ?t2)\<rparr>"] conjI 1 2) (simp_all add: simps)
qed

theorem threads_fifo_witness:
  "\<exists>s. tq_run (tq_start \<lparr>q_cap = 1, que = []\<rparr>) [Call_put 7, Call_put 8] s \<and> accepted s = got s @ que (tq s) \<and>
     tq_size (tq s) \<le> 1 \<and> putting s = [8 :: nat]"
proof -
  let ?t0 = "tq_start \<lparr>q_cap = 1, que = []\<rparr> :: nat tq_sys"
  note simps = tq_start_def tq_full_def tq_size_def put_in_def emplace_def notify_get_def Let_def
  have "tq_step ?t0 (Call_put 7) (put_in 7 ?t0)" by (rule Put_runs) (simp add: simps)
  moreover have "tq_step (put_in 7 ?t0) (Call_put 8) ((put_in 7 ?t0)\<lparr>putting := putting (put_in 7 ?t0) @ [8]\<rparr>)"
    by (rule Put_waits) (simp add: simps)
  ultimately have r: "tq_run ?t0 [Call_put 7, Call_put 8] ((put_in 7 ?t0)\<lparr>putting := putting (put_in 7 ?t0) @ [8]\<rparr>)"
    using Run_step [OF Run_step [OF Run_nil]] by fastforce
  from threads_fifo [OF r] r show ?thesis
    by (intro exI [of _ "(put_in 7 ?t0)\<lparr>putting := putting (put_in 7 ?t0) @ [8]\<rparr>"]) (auto simp: simps)
qed

theorem pair_never_misses_witness:
  "\<exists>s. paired 1 s \<and> putting s = [8 :: nat] \<and> tq_full (tq s)"
proof -
  let ?t0 = "tq_start \<lparr>q_cap = 1, que = []\<rparr> :: nat tq_sys"
  let ?t2 = "(put_in 7 ?t0)\<lparr>putting := putting (put_in 7 ?t0) @ [8]\<rparr>"
  note simps = tq_start_def tq_full_def tq_size_def put_in_def emplace_def notify_get_def one_each_def Let_def
  have "tq_step ?t0 (Call_put 7) (put_in 7 ?t0)" by (rule Put_runs) (simp add: simps)
  then have "paired 1 (put_in 7 ?t0)" by (rule paired.Step [OF paired.Start]) (simp_all add: simps)
  moreover have "tq_step (put_in 7 ?t0) (Call_put 8) ?t2" by (rule Put_waits) (simp add: simps)
  ultimately have p: "paired 1 ?t2" by (rule paired.Step) (simp_all add: simps)
  have "putting ?t2 = [8]" by (simp add: simps)
  with pair_never_misses [OF p] p show ?thesis by fastforce
qed

end
