(* ===== verification/CxxValues.thy ===== *)
theory CxxValues
  imports StrUtils
begin

text \<open>
  The values of the option parser \<^verbatim>\<open>src/include/extern/cxxopts.hpp\<close>: its exceptions, the patterns
  that recognise numbers, truth values, option names and arguments, and the texts that become
  values. The regular expressions of the header are written out as the scanners they describe
  (full matches, the first alternative that fits, no line break under a dot). The template
  parameter of a value is the datatype \<open>kind\<close>, what it stores the datatype \<open>datum\<close>.
\<close>

section \<open>Exceptions\<close>

datatype cx_error =
    Option_already_exists string
  | Invalid_option_format string
  | Invalid_option_syntax string
  | No_such_option string
  | Missing_argument string
  | Option_requires_argument string
  | Gratuitous_argument string string
  | Option_not_present string
  | Option_has_no_value string
  | Incorrect_argument_type string
  | Bad_cast
  | Cx_not_modelled string

definition LQUOTE :: string where "LQUOTE = [CHR 0xE2, CHR 0x80, CHR 0x98]"

definition RQUOTE :: string where "RQUOTE = [CHR 0xE2, CHR 0x80, CHR 0x99]"

definition in_quotes :: "string \<Rightarrow> string" where "in_quotes s = LQUOTE @ s @ RQUOTE"

text \<open>The text of \<^verbatim>\<open>what()\<close>; the last two are not exceptions of the header.\<close>

fun cx_what :: "cx_error \<Rightarrow> string" where
  "cx_what (Option_already_exists s) = ''Option '' @ in_quotes s @ '' already exists''"
| "cx_what (Invalid_option_format s) = ''Invalid option format '' @ in_quotes s"
| "cx_what (Invalid_option_syntax s) = ''Argument '' @ in_quotes s @ '' starts with a - but has incorrect syntax''"
| "cx_what (No_such_option s) = ''Option '' @ in_quotes s @ '' does not exist''"
| "cx_what (Missing_argument s) = ''Option '' @ in_quotes s @ '' is missing an argument''"
| "cx_what (Option_requires_argument s) = ''Option '' @ in_quotes s @ '' requires an argument''"
| "cx_what (Gratuitous_argument s a) =
     ''Option '' @ in_quotes s @ '' does not take an argument, but argument '' @ in_quotes a @ '' given''"
| "cx_what (Option_not_present s) = ''Option '' @ in_quotes s @ '' not present''"
| "cx_what (Option_has_no_value s) =
     (if s \<noteq> [] then ''Option '' @ in_quotes s @ '' has no value'' else ''Option has no value'')"
| "cx_what (Incorrect_argument_type s) = ''Argument '' @ in_quotes s @ '' failed to parse''"
| "cx_what Bad_cast = ''std::bad_cast''"
| "cx_what (Cx_not_modelled s) = []"

type_synonym 'a cx = "cx_error + 'a"

definition cx_bind :: "'a cx \<Rightarrow> ('a \<Rightarrow> 'b cx) \<Rightarrow> 'b cx" where
  "cx_bind m f = (case m of Inl e \<Rightarrow> Inl e | Inr x \<Rightarrow> f x)"

lemma cx_bind_simps [simp]: "cx_bind (Inl e) f = Inl e" "cx_bind (Inr x) f = f x"
  by (simp_all add: cx_bind_def)

lemma cx_bind_assoc: "cx_bind (cx_bind m f) g = cx_bind m (\<lambda>x. cx_bind (f x) g)"
  by (simp add: cx_bind_def split: sum.splits)

lemma cx_bind_Inr: "cx_bind m f = Inr y \<longleftrightarrow> (\<exists>x. m = Inr x \<and> f x = Inr y)"
  by (simp add: cx_bind_def split: sum.splits)

lemma cx_bind_Inl: "cx_bind m f = Inl e \<longleftrightarrow> m = Inl e \<or> (\<exists>x. m = Inr x \<and> f x = Inl e)"
  by (auto simp: cx_bind_def split: sum.splits)

section \<open>Patterns\<close>

definition is_alnum :: "char \<Rightarrow> bool" where
  "is_alnum c \<longleftrightarrow> is_digit c \<or> 97 \<le> (of_char (lower c) :: nat) \<and> (of_char (lower c) :: nat) \<le> 122"

record integer_desc =
  int_negative :: string
  int_base :: string
  int_value :: string

text \<open>
  The integer pattern: a sign, a base and characters. The base is given up again when nothing
  is left for the characters. Its second alternative only describes texts that fit the first.
\<close>

definition split_integer :: "string \<Rightarrow> integer_desc cx" where
  "split_integer s =
     (let (neg, r) = (if take 1 s = ''-'' then (''-'', drop 1 s) else ([], s));
          (base, v) = (if take 2 r = ''0x'' \<and> drop 2 r \<noteq> [] then (''0x'', drop 2 r) else ([], r))
      in if v \<noteq> [] \<and> list_all is_alnum v
         then Inr \<lparr>int_negative = neg, int_base = base, int_value = v\<rparr>
         else Inl (Incorrect_argument_type s))"

definition is_true_text :: "string \<Rightarrow> bool" where
  "is_true_text s \<longleftrightarrow> s \<in> {''t'', ''T'', ''true'', ''True'', ''1''}"

definition is_false_text :: "string \<Rightarrow> bool" where
  "is_false_text s \<longleftrightarrow> s \<in> {''f'', ''F'', ''false'', ''False'', ''0''}"

text \<open>Names: the first name of a specifier and the names of arguments may have dots.\<close>

definition name_char :: "char \<Rightarrow> bool" where
  "name_char c \<longleftrightarrow> is_alnum c \<or> c = CHR ''-'' \<or> c = CHR ''_''"

definition dotted_char :: "char \<Rightarrow> bool" where
  "dotted_char c \<longleftrightarrow> name_char c \<or> c = CHR ''.''"

definition name_ok :: "(char \<Rightarrow> bool) \<Rightarrow> string \<Rightarrow> bool" where
  "name_ok p s = (case s of [] \<Rightarrow> False | c # r \<Rightarrow> is_alnum c \<and> list_all p r)"

definition split_option_names :: "string \<Rightarrow> string list cx" where
  "split_option_names s =
     (case split_fields CHR '','' s of
        [] \<Rightarrow> Inl (Invalid_option_format s)
      | f # fs \<Rightarrow>
          (let gs = List.map (dropWhile (\<lambda>c. c = CHR '' '')) fs
           in if name_ok dotted_char f \<and> list_all (name_ok name_char) gs then Inr (f # gs)
              else Inl (Invalid_option_format s)))"

record argu_desc =
  arg_name :: string
  arg_grouping :: bool
  set_value :: bool
  arg_value :: string

definition line_char :: "char \<Rightarrow> bool" where
  "line_char c \<longleftrightarrow> c \<noteq> CHR 0x0A \<and> c \<noteq> CHR 0x0D"

text \<open>The result is None where \<^verbatim>\<open>matched\<close> is false.\<close>

definition parse_argument :: "string \<Rightarrow> argu_desc option" where
  "parse_argument a =
     (if take 2 a = ''--'' then
        (let n = takeWhile dotted_char (drop 2 a); r = dropWhile dotted_char (drop 2 a)
         in if name_ok dotted_char n \<and> 2 \<le> length n \<and>
               (r = [] \<or> hd r = CHR ''='' \<and> list_all line_char (tl r))
            then Some \<lparr>arg_name = n, arg_grouping = False, set_value = r \<noteq> [], arg_value = tl r\<rparr>
            else None)
      else if take 1 a = ''-'' then
        (let n = drop 1 a
         in if n \<noteq> [] \<and> is_alnum (hd n) \<and> list_all line_char (tl n)
            then Some \<lparr>arg_name = n, arg_grouping = True, set_value = False, arg_value = []\<rparr>
            else None)
      else None)"

section \<open>Texts to values\<close>

datatype kind = K_bool | K_int | K_double | K_string | K_char | K_vector kind

datatype datum = D_bool bool | D_int int | D_double real | D_string string | D_char char
  | D_vector "datum list"

primrec initial :: "kind \<Rightarrow> datum" where
  "initial K_bool = D_bool False"
| "initial K_int = D_int 0"
| "initial K_double = D_double 0"
| "initial K_string = D_string []"
| "initial K_char = D_char CHR 0x00"
| "initial (K_vector k) = D_vector []"

text \<open>The digits are added up in the unsigned type of the value, which wraps around.\<close>

definition digit_of :: "nat \<Rightarrow> char \<Rightarrow> nat option" where
  "digit_of base c =
     (let n = of_char c
      in if 48 \<le> n \<and> n \<le> 57 then Some (n - 48)
         else if base = 16 \<and> 97 \<le> n \<and> n \<le> 102 then Some (n - 97 + 10)
         else if base = 16 \<and> 65 \<le> n \<and> n \<le> 70 then Some (n - 65 + 10)
         else None)"

primrec add_digits :: "nat \<Rightarrow> string \<Rightarrow> string \<Rightarrow> u32 \<Rightarrow> u32 cx" where
  "add_digits base whole [] result = Inr result"
| "add_digits base whole (c # cs) result =
     (case digit_of base c of
        None \<Rightarrow> Inl (Incorrect_argument_type whole)
      | Some d \<Rightarrow>
          (let nxt = result * of_nat base + of_nat d
           in if nxt < result then Inl (Incorrect_argument_type whole)
              else add_digits base whole cs nxt))"

definition check_signed_range :: "bool \<Rightarrow> u32 \<Rightarrow> string \<Rightarrow> unit cx" where
  "check_signed_range negative u s =
     (if negative
      then (if 0x80000000 < u then Inl (Incorrect_argument_type s) else Inr ())
      else (if 0x7FFFFFFF < u then Inl (Incorrect_argument_type s) else Inr ()))"

definition checked_negate :: "u32 \<Rightarrow> int" where
  "checked_negate t = - sint (t - 1) - 1"

definition integer_parser :: "string \<Rightarrow> int cx" where
  "integer_parser s =
     cx_bind (split_integer s) (\<lambda>d.
       let negative = int_negative d \<noteq> []; base = (if int_base d \<noteq> [] then 16 else 10)
       in cx_bind (add_digits base s (int_value d) 0) (\<lambda>result.
          cx_bind (check_signed_range negative result s) (\<lambda>_.
          Inr (if negative then checked_negate result else sint result))))"

text \<open>
  Extraction of a double from a stream: white space, a sign, digits with a point and an exponent.
  Without a digit, with an exponent that has none, or out of range the stream fails; what
  follows the number is left in the stream. A hexadecimal prefix is not modelled.
\<close>

definition dangling_exponent :: "string \<Rightarrow> bool" where
  "dangling_exponent s =
     (case s of [] \<Rightarrow> False | c # r \<Rightarrow> lower c = CHR ''e'' \<and> takeWhile is_digit (snd (take_sign r)) = [])"

definition stringstream_parser :: "string \<Rightarrow> real cx" where
  "stringstream_parser s =
     (let (neg, body) = take_sign (dropWhile is_space s);
          (i, f, e) = lex_number body;
          v = real (dec_val (i @ f)) * ten_pow (e - int (length f))
      in if List.map lower (take 2 body) = ''0x'' then Inl (Cx_not_modelled s)
         else if i = [] \<and> f = [] \<or> dangling_exponent (snd (frac_part (dropWhile is_digit body))) \<or>
                 2 ^ 1024 - 2 ^ 970 \<le> v
         then Inl (Incorrect_argument_type s)
         else Inr (if neg then - v else v))"

definition getline_tokens :: "string \<Rightarrow> string list" where
  "getline_tokens s =
     (let ts = split_fields CHR '','' s in if last ts = [] then butlast ts else ts)"

primrec parse_all :: "(string \<Rightarrow> datum cx) \<Rightarrow> string list \<Rightarrow> datum list cx" where
  "parse_all p [] = Inr []"
| "parse_all p (t # ts) = cx_bind (p t) (\<lambda>v. cx_bind (parse_all p ts) (\<lambda>vs. Inr (v # vs)))"

definition parse_char :: "string \<Rightarrow> datum cx" where
  "parse_char s = (case s of [c] \<Rightarrow> Inr (D_char c) | _ \<Rightarrow> Inl (Incorrect_argument_type s))"

primrec parse_value :: "kind \<Rightarrow> string \<Rightarrow> datum \<Rightarrow> datum cx" where
  "parse_value K_bool s old =
     (if is_true_text s then Inr (D_bool True)
      else if is_false_text s then Inr (D_bool False)
      else Inl (Incorrect_argument_type s))"
| "parse_value K_int s old = cx_bind (integer_parser s) (\<lambda>i. Inr (D_int i))"
| "parse_value K_double s old = cx_bind (stringstream_parser s) (\<lambda>x. Inr (D_double x))"
| "parse_value K_string s old = Inr (D_string s)"
| "parse_value K_char s old = parse_char s"
| "parse_value (K_vector k) s old =
     cx_bind (parse_all (\<lambda>t. parse_value k t (initial k)) (if s = [] then [[]] else getline_tokens s)) (\<lambda>vs.
       Inr (D_vector ((case old of D_vector ds \<Rightarrow> ds | _ \<Rightarrow> []) @ vs)))"

section \<open>Values\<close>

record cx_value =
  v_kind :: kind
  m_result :: datum
  m_default :: bool
  m_implicit :: bool
  m_default_value :: string
  m_implicit_value :: string

definition standard_value :: "kind \<Rightarrow> cx_value" where
  "standard_value k =
     (let v = \<lparr>v_kind = k, m_result = initial k, m_default = False, m_implicit = False,
               m_default_value = [], m_implicit_value = []\<rparr>
      in if k = K_bool
         then v\<lparr>m_default := True, m_default_value := ''false'', m_implicit := True, m_implicit_value := ''true''\<rparr>
         else v)"

definition clone :: "cx_value \<Rightarrow> cx_value" where
  "clone v = v\<lparr>m_result := initial (v_kind v)\<rparr>"

definition default_value :: "string \<Rightarrow> cx_value \<Rightarrow> cx_value" where
  "default_value s v = v\<lparr>m_default := True, m_default_value := s\<rparr>"

definition implicit_value :: "string \<Rightarrow> cx_value \<Rightarrow> cx_value" where
  "implicit_value s v = v\<lparr>m_implicit := True, m_implicit_value := s\<rparr>"

definition no_implicit_value :: "cx_value \<Rightarrow> cx_value" where
  "no_implicit_value v = v\<lparr>m_implicit := False\<rparr>"

definition value_parse :: "string \<Rightarrow> cx_value \<Rightarrow> cx_value cx" where
  "value_parse s v = cx_bind (parse_value (v_kind v) s (m_result v)) (\<lambda>d. Inr (v\<lparr>m_result := d\<rparr>))"

definition value_parse_default :: "cx_value \<Rightarrow> cx_value cx" where
  "value_parse_default v = value_parse (m_default_value v) v"

definition is_container :: "cx_value \<Rightarrow> bool" where
  "is_container v = (case v_kind v of K_vector k \<Rightarrow> True | _ \<Rightarrow> False)"

definition is_boolean :: "cx_value \<Rightarrow> bool" where
  "is_boolean v \<longleftrightarrow> v_kind v = K_bool"

end
