(* ===== verification/Cxxopts.thy ===== *)
theory Cxxopts
  imports CxxValues
begin

text \<open>
  The option parser of \<^verbatim>\<open>src/include/extern/cxxopts.hpp\<close>: the table of options that a program
  declares, the scan of its arguments, the defaults, and the result the program asks for its
  values. The two hash tables with string keys are maps; the table of parsed values is keyed by
  the hash of an option's names, so the hash function is an argument of the model, and so is
  the order \<open>ord\<close> in which an unordered map is traversed. The values own their storage, as all
  values of the programs do.
\<close>

section \<open>Declared options and parsed values\<close>

record option_details =
  od_short :: string
  od_long :: "string list"
  od_desc :: string
  od_value :: cx_value
  od_hash :: nat

definition first_or_empty :: "string list \<Rightarrow> string" where
  "first_or_empty l = (case l of [] \<Rightarrow> [] | n # _ \<Rightarrow> n)"

definition option_details_new ::
  "(string \<Rightarrow> nat) \<Rightarrow> string \<Rightarrow> string list \<Rightarrow> string \<Rightarrow> cx_value \<Rightarrow> option_details" where
  "option_details_new hash short long desc v =
     \<lparr>od_short = short, od_long = long, od_desc = desc, od_value = v, od_hash = hash (first_or_empty long @ short)\<rparr>"

definition essential_name :: "option_details \<Rightarrow> string" where
  "essential_name d = (if od_long d = [] then od_short d else hd (od_long d))"

definition make_storage :: "option_details \<Rightarrow> cx_value" where
  "make_storage d = clone (od_value d)"

record option_value =
  ov_names :: "string list option"
  ov_value :: "cx_value option"
  ov_count :: nat
  ov_default :: bool

definition option_value0 :: option_value where
  "option_value0 = \<lparr>ov_names = None, ov_value = None, ov_count = 0, ov_default = False\<rparr>"

definition ensure_value :: "option_details \<Rightarrow> option_value \<Rightarrow> option_value" where
  "ensure_value d ov = (if ov_value ov = None then ov\<lparr>ov_value := Some (make_storage d)\<rparr> else ov)"

definition ov_parse :: "option_details \<Rightarrow> string \<Rightarrow> option_value \<Rightarrow> option_value cx" where
  "ov_parse d s ov =
     (let ov = ensure_value d ov; ov = ov\<lparr>ov_count := Suc (ov_count ov)\<rparr>
      in cx_bind (value_parse s (the (ov_value ov))) (\<lambda>v.
         Inr (ov\<lparr>ov_value := Some v, ov_names := Some (od_long d)\<rparr>)))"

definition ov_parse_default :: "option_details \<Rightarrow> option_value \<Rightarrow> option_value cx" where
  "ov_parse_default d ov =
     (let ov = ensure_value d ov; ov = ov\<lparr>ov_default := True, ov_names := Some (od_long d)\<rparr>
      in cx_bind (value_parse_default (the (ov_value ov))) (\<lambda>v. Inr (ov\<lparr>ov_value := Some v\<rparr>)))"

definition ov_parse_no_value :: "option_details \<Rightarrow> option_value \<Rightarrow> option_value" where
  "ov_parse_no_value d ov = ov\<lparr>ov_names := Some (od_long d)\<rparr>"

definition ov_as :: "kind \<Rightarrow> option_value \<Rightarrow> datum cx" where
  "ov_as k ov =
     (case ov_value ov of
        None \<Rightarrow> Inl (Option_has_no_value (case ov_names ov of None \<Rightarrow> [] | Some l \<Rightarrow> first_or_empty l))
      | Some v \<Rightarrow> if v_kind v = k then Inr (m_result v) else Inl Bad_cast)"

type_synonym key_value = "string \<times> string"

definition kv_as :: "kind \<Rightarrow> key_value \<Rightarrow> datum cx" where
  "kv_as k kv = parse_value k (snd kv) (initial k)"

section \<open>The result of a parse\<close>

record parse_result =
  pr_keys :: "string \<rightharpoonup> nat"
  pr_values :: "nat \<rightharpoonup> option_value"
  pr_sequential :: "key_value list"
  pr_defaults :: "key_value list"
  pr_unmatched :: "string list"

definition pr_count :: "string \<Rightarrow> parse_result \<Rightarrow> nat" where
  "pr_count n r =
     (case pr_keys r n of
        None \<Rightarrow> 0
      | Some h \<Rightarrow> (case pr_values r h of None \<Rightarrow> 0 | Some ov \<Rightarrow> ov_count ov))"

definition pr_get :: "string \<Rightarrow> parse_result \<Rightarrow> option_value cx" where
  "pr_get n r =
     (case pr_keys r n of
        None \<Rightarrow> Inl (Option_not_present n)
      | Some h \<Rightarrow> (case pr_values r h of None \<Rightarrow> Inl (Option_not_present n) | Some ov \<Rightarrow> Inr ov))"

definition arguments_string :: "parse_result \<Rightarrow> string" where
  "arguments_string r =
     concat (List.map (\<lambda>(k, v). k @ '' = '' @ v @ [CHR 0x0A]) (pr_sequential r)) @
     concat (List.map (\<lambda>(k, v). k @ '' = '' @ v @ '' '' @ ''(default)'' @ [CHR 0x0A]) (pr_defaults r))"

section \<open>Declaring the options of a program\<close>

record help_option =
  ho_s :: string
  ho_l :: "string list"
  ho_desc :: string
  ho_has_default :: bool
  ho_default_value :: string
  ho_has_implicit :: bool
  ho_implicit_value :: string
  ho_arg_help :: string
  ho_is_container :: bool
  ho_is_boolean :: bool

record help_group =
  hg_name :: string
  hg_description :: string
  hg_options :: "help_option list"

record options =
  o_program :: string
  o_help_string :: string
  o_custom_help :: string
  o_positional_help :: string
  o_show_positional :: bool
  o_allow_unrecognised :: bool
  o_width :: nat
  o_tab_expansion :: bool
  o_options :: "string \<rightharpoonup> option_details"
  o_positional :: "string list"
  o_positional_set :: "string set"
  o_help :: "string \<rightharpoonup> help_group"

definition options_new :: "string \<Rightarrow> string \<Rightarrow> options" where
  "options_new program help_string =
     \<lparr>o_program = program, o_help_string = help_string, o_custom_help = ''[OPTION...]'',
      o_positional_help = ''positional parameters'', o_show_positional = False,
      o_allow_unrecognised = False, o_width = 76, o_tab_expansion = False, o_options = Map.empty,
      o_positional = [], o_positional_set = {}, o_help = Map.empty\<rparr>"

definition positional_help :: "string \<Rightarrow> options \<Rightarrow> options" where
  "positional_help s os = os\<lparr>o_positional_help := s\<rparr>"

definition custom_help :: "string \<Rightarrow> options \<Rightarrow> options" where
  "custom_help s os = os\<lparr>o_custom_help := s\<rparr>"

definition show_positional_help :: "options \<Rightarrow> options" where
  "show_positional_help os = os\<lparr>o_show_positional := True\<rparr>"

definition allow_unrecognised_options :: "options \<Rightarrow> options" where
  "allow_unrecognised_options os = os\<lparr>o_allow_unrecognised := True\<rparr>"

definition set_width :: "nat \<Rightarrow> options \<Rightarrow> options" where
  "set_width w os = os\<lparr>o_width := w\<rparr>"

definition set_tab_expansion :: "bool \<Rightarrow> options \<Rightarrow> options" where
  "set_tab_expansion b os = os\<lparr>o_tab_expansion := b\<rparr>"

definition add_one_option :: "string \<Rightarrow> option_details \<Rightarrow> options \<Rightarrow> options cx" where
  "add_one_option n d os =
     (if o_options os n = None then Inr (os\<lparr>o_options := (o_options os)(n \<mapsto> d)\<rparr>)
      else Inl (Option_already_exists n))"

primrec add_long_names :: "string list \<Rightarrow> option_details \<Rightarrow> options \<Rightarrow> options cx" where
  "add_long_names [] d os = Inr os"
| "add_long_names (n # ns) d os = cx_bind (add_one_option n d os) (add_long_names ns d)"

definition add_option ::
  "(string \<Rightarrow> nat) \<Rightarrow> string \<Rightarrow> string \<Rightarrow> string list \<Rightarrow> string \<Rightarrow> cx_value \<Rightarrow> string \<Rightarrow> options \<Rightarrow> options cx" where
  "add_option hash grp s l desc v arg_help os =
     (let d = option_details_new hash s l desc v
      in cx_bind (if s \<noteq> [] then add_one_option s d os else Inr os) (\<lambda>os.
         cx_bind (add_long_names l d os) (\<lambda>os.
           let g = (case o_help os grp of None \<Rightarrow> \<lparr>hg_name = [], hg_description = [], hg_options = []\<rparr> | Some g \<Rightarrow> g);
               h = \<lparr>ho_s = s, ho_l = l, ho_desc = desc, ho_has_default = m_default v,
                    ho_default_value = m_default_value v, ho_has_implicit = m_implicit v,
                    ho_implicit_value = m_implicit_value v, ho_arg_help = arg_help,
                    ho_is_container = is_container v, ho_is_boolean = is_boolean v\<rparr>
           in Inr (os\<lparr>o_help := (o_help os)(grp \<mapsto> g\<lparr>hg_options := hg_options g @ [h]\<rparr>)\<rparr>))))"

text \<open>
  One declaration. The library leaves the order in which the long names come out of
  \<^verbatim>\<open>std::partition\<close> open; here it is the order in which they were written.
\<close>

definition option_adder ::
  "(string \<Rightarrow> nat) \<Rightarrow> string \<Rightarrow> string \<times> string \<times> cx_value \<times> string \<Rightarrow> options \<Rightarrow> options cx" where
  "option_adder hash grp = (\<lambda>(opts, desc, v, arg_help) os.
     cx_bind (split_option_names opts) (\<lambda>names.
       let long = List.filter (\<lambda>n. 1 < length n) names; short = List.filter (\<lambda>n. \<not> 1 < length n) names
       in case short of
            [] \<Rightarrow> add_option hash grp [] long desc v arg_help os
          | [s] \<Rightarrow> add_option hash grp s long desc v arg_help os
          | _ \<Rightarrow> Inl (Invalid_option_format opts)))"

primrec add_options ::
  "(string \<Rightarrow> nat) \<Rightarrow> string \<Rightarrow> (string \<times> string \<times> cx_value \<times> string) list \<Rightarrow> options \<Rightarrow> options cx" where
  "add_options hash grp [] os = Inr os"
| "add_options hash grp (x # xs) os = cx_bind (option_adder hash grp x os) (add_options hash grp xs)"

definition parse_positional :: "string list \<Rightarrow> options \<Rightarrow> options" where
  "parse_positional ns os = os\<lparr>o_positional := ns, o_positional_set := o_positional_set os \<union> set ns\<rparr>"

section \<open>Parsing the arguments\<close>

text \<open>The members of the parser, and with them the two locals of \<^verbatim>\<open>parse\<close> its helpers change.\<close>

record option_parser =
  p_options :: "string \<rightharpoonup> option_details"
  p_allow :: bool
  p_sequential :: "key_value list"
  p_defaults :: "key_value list"
  p_parsed :: "nat \<rightharpoonup> option_value"
  p_keys :: "string \<rightharpoonup> nat"
  p_next :: "string list"
  p_unmatched :: "string list"

definition parser_new :: "options \<Rightarrow> option_parser" where
  "parser_new os =
     \<lparr>p_options = o_options os, p_allow = o_allow_unrecognised os, p_sequential = [], p_defaults = [],
      p_parsed = Map.empty, p_keys = Map.empty, p_next = o_positional os, p_unmatched = []\<rparr>"

text \<open>An access to the table of parsed values creates the entry it misses.\<close>

definition p_slot :: "nat \<Rightarrow> option_parser \<Rightarrow> option_value" where
  "p_slot h p = (case p_parsed p h of None \<Rightarrow> option_value0 | Some ov \<Rightarrow> ov)"

definition put_slot :: "nat \<Rightarrow> option_value \<Rightarrow> option_parser \<Rightarrow> option_parser" where
  "put_slot h ov p = p\<lparr>p_parsed := (p_parsed p)(h \<mapsto> ov)\<rparr>"

definition parse_default :: "option_details \<Rightarrow> option_parser \<Rightarrow> option_parser cx" where
  "parse_default d p =
     cx_bind (ov_parse_default d (p_slot (od_hash d) p)) (\<lambda>ov.
       let p = put_slot (od_hash d) ov p
       in Inr (p\<lparr>p_defaults := p_defaults p @ [(essential_name d, m_default_value (od_value d))]\<rparr>))"

definition parse_no_value :: "option_details \<Rightarrow> option_parser \<Rightarrow> option_parser" where
  "parse_no_value d p = put_slot (od_hash d) (ov_parse_no_value d (p_slot (od_hash d) p)) p"

definition parse_option :: "option_details \<Rightarrow> string \<Rightarrow> option_parser \<Rightarrow> option_parser cx" where
  "parse_option d arg p =
     cx_bind (ov_parse d arg (p_slot (od_hash d) p)) (\<lambda>ov.
       let p = put_slot (od_hash d) ov p
       in Inr (p\<lparr>p_sequential := p_sequential p @ [(essential_name d, arg)]\<rparr>))"

text \<open>The result says whether the next argument was taken too.\<close>

definition checked_parse_arg ::
  "string list \<Rightarrow> option_details \<Rightarrow> string \<Rightarrow> option_parser \<Rightarrow> (bool \<times> option_parser) cx" where
  "checked_parse_arg rest d name p =
     (case rest of
        [] \<Rightarrow>
          if m_implicit (od_value d)
          then cx_bind (parse_option d (m_implicit_value (od_value d)) p) (\<lambda>p. Inr (False, p))
          else Inl (Missing_argument name)
      | nxt # _ \<Rightarrow>
          if m_implicit (od_value d)
          then cx_bind (parse_option d (m_implicit_value (od_value d)) p) (\<lambda>p. Inr (False, p))
          else cx_bind (parse_option d nxt p) (\<lambda>p. Inr (True, p)))"

primrec consume :: "string \<Rightarrow> string list \<Rightarrow> option_parser \<Rightarrow> (bool \<times> option_parser) cx" where
  "consume a [] p = Inr (False, p\<lparr>p_next := []\<rparr>)"
| "consume a (n # ns) p =
     (case p_options p n of
        None \<Rightarrow> Inl (No_such_option n)
      | Some d \<Rightarrow>
          if \<not> is_container (od_value d) then
            (let p = put_slot (od_hash d) (p_slot (od_hash d) p) p
             in if ov_count (p_slot (od_hash d) p) = 0
                then cx_bind (parse_option d a p) (\<lambda>p. Inr (True, p\<lparr>p_next := ns\<rparr>))
                else consume a ns p)
          else cx_bind (parse_option d a p) (\<lambda>p. Inr (True, p\<lparr>p_next := n # ns\<rparr>)))"

definition consume_positional :: "string \<Rightarrow> option_parser \<Rightarrow> (bool \<times> option_parser) cx" where
  "consume_positional a p = consume a (p_next p) p"

text \<open>A group of short options; \<open>rest\<close> is what follows the argument.\<close>

primrec parse_group :: "string list \<Rightarrow> string \<Rightarrow> option_parser \<Rightarrow> (bool \<times> option_parser) cx" where
  "parse_group rest [] p = Inr (False, p)"
| "parse_group rest (c # cs) p =
     (case p_options p [c] of
        None \<Rightarrow>
          if p_allow p then parse_group rest cs (p\<lparr>p_unmatched := p_unmatched p @ [''-'' @ [c]]\<rparr>)
          else Inl (No_such_option [c])
      | Some d \<Rightarrow>
          if cs = [] then checked_parse_arg rest d [c] p
          else if m_implicit (od_value d) then
            cx_bind (parse_option d (m_implicit_value (od_value d)) p) (parse_group rest cs)
          else cx_bind (parse_option d cs p) (\<lambda>p. Inr (False, p)))"

definition parse_long :: "string list \<Rightarrow> string \<Rightarrow> argu_desc \<Rightarrow> option_parser \<Rightarrow> (bool \<times> option_parser) cx" where
  "parse_long rest a desc p =
     (let name = arg_name desc
      in case p_options p name of
           None \<Rightarrow>
             if p_allow p then Inr (False, p\<lparr>p_unmatched := p_unmatched p @ [a]\<rparr>)
             else Inl (No_such_option name)
         | Some d \<Rightarrow>
             if set_value desc then cx_bind (parse_option d (arg_value desc) p) (\<lambda>p. Inr (False, p))
             else checked_parse_arg rest d name p)"

definition parse_plain :: "string \<Rightarrow> option_parser \<Rightarrow> (bool \<times> option_parser) cx" where
  "parse_plain a p =
     (if take 1 a = ''-'' \<and> 1 < length a \<and> \<not> p_allow p then Inl (Invalid_option_syntax a)
      else cx_bind (consume_positional a p) (\<lambda>(taken, p).
           Inr (False, if taken then p else p\<lparr>p_unmatched := p_unmatched p @ [a]\<rparr>)))"

definition parse_arg :: "string \<Rightarrow> string list \<Rightarrow> option_parser \<Rightarrow> (bool \<times> option_parser) cx" where
  "parse_arg a rest p =
     (case parse_argument a of
        None \<Rightarrow> parse_plain a p
      | Some desc \<Rightarrow>
          if arg_grouping desc then parse_group rest (arg_name desc) p
          else if arg_name desc \<noteq> [] then parse_long rest a desc p
          else Inr (False, p))"

text \<open>The loop ends at the end of the arguments, or after a lone double dash with those left.\<close>

fun parse_loop :: "string list \<Rightarrow> option_parser \<Rightarrow> (string list option \<times> option_parser) cx" where
  "parse_loop [] p = Inr (None, p)"
| "parse_loop (a # as) p =
     (if a = ''--'' then Inr (Some as, p)
      else cx_bind (parse_arg a as p) (\<lambda>(taken, p). parse_loop (if taken then tl as else as) p))"

definition default_one :: "option_details \<Rightarrow> option_parser \<Rightarrow> option_parser cx" where
  "default_one d p =
     (let p = put_slot (od_hash d) (p_slot (od_hash d) p) p
      in if m_default (od_value d)
         then (if ov_count (p_slot (od_hash d) p) = 0 \<and> \<not> ov_default (p_slot (od_hash d) p)
               then parse_default d p else Inr p)
         else Inr (parse_no_value d p))"

primrec default_all :: "string list \<Rightarrow> option_parser \<Rightarrow> option_parser cx" where
  "default_all [] p = Inr p"
| "default_all (n # ns) p = cx_bind (default_one (the (p_options p n)) p) (default_all ns)"

primrec consume_rest :: "string list \<Rightarrow> option_parser \<Rightarrow> option_parser cx" where
  "consume_rest [] p = Inr p"
| "consume_rest (a # as) p =
     cx_bind (consume_positional a p) (\<lambda>(taken, p).
       if taken then consume_rest as p else Inr (p\<lparr>p_unmatched := p_unmatched p @ a # as\<rparr>))"

definition alias_one :: "option_details \<Rightarrow> option_parser \<Rightarrow> option_parser" where
  "alias_one d p =
     put_slot (od_hash d) (p_slot (od_hash d) p)
       (p\<lparr>p_keys := fold (\<lambda>l m. m(l \<mapsto> od_hash d)) (od_long d) ((p_keys p)(od_short d \<mapsto> od_hash d))\<rparr>)"

primrec finalise :: "string list \<Rightarrow> option_parser \<Rightarrow> option_parser" where
  "finalise [] p = p"
| "finalise (n # ns) p = finalise ns (alias_one (the (p_options p n)) p)"

definition finalise_aliases :: "(string set \<Rightarrow> string list) \<Rightarrow> option_parser \<Rightarrow> option_parser" where
  "finalise_aliases ord p = finalise (ord (dom (p_options p))) p"

definition parser_parse :: "(string set \<Rightarrow> string list) \<Rightarrow> string list \<Rightarrow> option_parser \<Rightarrow> parse_result cx" where
  "parser_parse ord args p =
     cx_bind (parse_loop args p) (\<lambda>(remaining, p).
     cx_bind (default_all (ord (dom (p_options p))) p) (\<lambda>p.
     cx_bind (case remaining of None \<Rightarrow> Inr p | Some as \<Rightarrow> consume_rest as p) (\<lambda>p.
       let p = finalise_aliases ord p
       in Inr \<lparr>pr_keys = p_keys p, pr_values = p_parsed p, pr_sequential = p_sequential p,
               pr_defaults = p_defaults p, pr_unmatched = p_unmatched p\<rparr>)))"

definition options_parse :: "(string set \<Rightarrow> string list) \<Rightarrow> string list \<Rightarrow> options \<Rightarrow> parse_result cx" where
  "options_parse ord argv os = parser_parse ord (tl argv) (parser_new os)"

end
