(* ===== verification/CxxSpec.thy ===== *)
theory CxxSpec
  imports Cxxopts
begin

text \<open>
  What the option parser promises. A command line is written down as a list of settings, each
  rendered in one of the forms the parser accepts; parsing the rendered arguments gives every
  option the text of its last setting, or its default. Then what numbers it reads, and which
  exception the first mistake on the command line ends in.
\<close>

section \<open>Integers\<close>

lemma digit_of_digit: "is_digit c \<Longrightarrow> digit_of b c = Some (of_char c - 48)"
  by (simp add: digit_of_def is_digit_def Let_def)

lemma alnum_digit: "is_digit c \<Longrightarrow> is_alnum c"
  by (simp add: is_alnum_def)

lemma dec_val_from: "foldl (\<lambda>a c. 10 * a + (of_char c - 48)) n ds = n * 10 ^ length ds + dec_val ds"
proof (induction ds arbitrary: n rule: rev_induct)
  case (snoc c ds)
  then show ?case by (simp add: algebra_simps)
qed simp

lemma dec_val_Cons: "dec_val (c # ds) = (of_char c - 48) * 10 ^ length ds + dec_val ds"
  using dec_val_from [of "of_char c - 48" ds] by (simp add: dec_val_def)

lemma unat32: "n < 2 ^ 32 \<Longrightarrow> unat (of_nat n :: u32) = n"
  by (simp add: unsigned_of_nat take_bit_nat_eq_self)

lemma add_decimal:
  assumes "list_all is_digit ds" "n * 10 ^ length ds + dec_val ds < 2 ^ 32"
  shows "add_digits 10 whole ds (of_nat n) = Inr (of_nat (n * 10 ^ length ds + dec_val ds))"
  using assms
proof (induction ds arbitrary: n)
  case (Cons c ds)
  let ?m = "10 * n + (of_char c - 48)"
  have v: "n * 10 ^ length (c # ds) + dec_val (c # ds) = ?m * 10 ^ length ds + dec_val ds"
    by (simp add: dec_val_Cons algebra_simps)
  have "?m \<le> ?m * 10 ^ length ds" by simp
  then have m: "?m < 2 ^ 32" using Cons.prems(2) unfolding v by linarith
  then have n: "n < 2 ^ 32" by simp
  have w: "of_nat n * 10 + of_nat (of_char c - 48) = (of_nat ?m :: u32)" by (simp add: algebra_simps)
  have "\<not> (of_nat ?m :: u32) < of_nat n"
    using m n by (simp add: word_less_nat_alt unat32 del: of_nat_add of_nat_mult)
  moreover have "add_digits 10 whole ds (of_nat ?m) = Inr (of_nat (?m * 10 ^ length ds + dec_val ds))"
    using Cons.IH [of ?m] Cons.prems v by (simp del: of_nat_add of_nat_mult)
  ultimately show ?case
    using Cons.prems(1) unfolding v by (simp add: digit_of_digit w Let_def del: of_nat_add of_nat_mult)
qed simp

lemma split_decimal:
  assumes "list_all is_digit ds" "ds \<noteq> []"
  shows "split_integer ds = Inr \<lparr>int_negative = [], int_base = [], int_value = ds\<rparr>"
    and "split_integer (CHR ''-'' # ds) = Inr \<lparr>int_negative = ''-'', int_base = [], int_value = ds\<rparr>"
proof -
  have s: "take 1 ds \<noteq> ''-''" using assms by (cases ds) (auto simp: is_digit_def)
  have x: "take 2 ds \<noteq> ''0x''"
  proof
    assume "take 2 ds = ''0x''"
    then have "CHR ''x'' \<in> set ds" by (metis in_set_takeD list.set_intros)
    then show False using assms(1) by (auto simp: list_all_iff is_digit_def)
  qed
  have a: "list_all is_alnum ds" using assms(1) by (auto simp: list_all_iff alnum_digit)
  show "split_integer ds = Inr \<lparr>int_negative = [], int_base = [], int_value = ds\<rparr>"
    using s x a assms(2) by (simp add: split_integer_def Let_def)
  show "split_integer (CHR ''-'' # ds) = Inr \<lparr>int_negative = ''-'', int_base = [], int_value = ds\<rparr>"
    using x a assms(2) by (simp add: split_integer_def Let_def)
qed

lemma integer_decimal:
  assumes "list_all is_digit ds" "ds \<noteq> []" "dec_val ds < 2 ^ 32"
  shows "integer_parser ds =
      (if dec_val ds < 2 ^ 31 then Inr (int (dec_val ds)) else Inl (Incorrect_argument_type ds))"
    and "integer_parser (CHR ''-'' # ds) =
      (if dec_val ds \<le> 2 ^ 31 then Inr (- int (dec_val ds)) else Inl (Incorrect_argument_type (CHR ''-'' # ds)))"
proof -
  have add: "add_digits 10 whole ds 0 = Inr (of_nat (dec_val ds))" for whole
    using add_decimal [OF assms(1), of 0 whole] assms(3) by simp
  let ?u = "of_nat (dec_val ds) :: u32"
  have u: "unat ?u = dec_val ds" using assms(3) by (simp add: unat32)
  have pos: "0x7FFFFFFF < ?u \<longleftrightarrow> \<not> dec_val ds < 2 ^ 31" by (simp add: word_less_nat_alt u) linarith
  have neg: "0x80000000 < ?u \<longleftrightarrow> \<not> dec_val ds \<le> 2 ^ 31" by (simp add: word_less_nat_alt u) linarith
  have sint: "sint ?u = int (dec_val ds)" if "dec_val ds < 2 ^ 31"
    using that by (simp add: sint_uint uint_nat u signed_take_bit_int_eq_self)
  show "integer_parser ds =
      (if dec_val ds < 2 ^ 31 then Inr (int (dec_val ds)) else Inl (Incorrect_argument_type ds))"
    using sint by (simp add: integer_parser_def split_decimal(1) [OF assms(1,2)] add check_signed_range_def pos Let_def)
  have "sint (?u - 1) = int (dec_val ds) - 1" if "dec_val ds \<le> 2 ^ 31"
  proof (cases "dec_val ds")
    case (Suc m)
    then have "?u - 1 = of_nat m" "m < 2 ^ 31" using that by simp_all
    then show ?thesis using Suc by (simp add: sint_uint uint_nat unat32 signed_take_bit_int_eq_self)
  qed simp
  then show "integer_parser (CHR ''-'' # ds) =
      (if dec_val ds \<le> 2 ^ 31 then Inr (- int (dec_val ds)) else Inl (Incorrect_argument_type (CHR ''-'' # ds)))"
    by (simp add: integer_parser_def split_decimal(2) [OF assms(1,2)] add check_signed_range_def neg
        checked_negate_def Let_def)
qed

lemma integer_of_fmt_d: "int_ok i \<Longrightarrow> integer_parser (fmt_d i) = Inr i"
proof -
  assume i: "int_ok i"
  let ?ds = "show_nat (nat \<bar>i\<bar>)"
  have ds: "list_all is_digit ?ds" "?ds \<noteq> []" using show_nat_digits by (auto simp: list_all_iff)
  have v: "dec_val ?ds < 2 ^ 32" using i by (auto simp: int_ok_def nat_less_iff)
  show ?thesis
    using i integer_decimal [OF ds v] by (auto simp: fmt_d_def int_ok_def)
qed

text \<open>The check for a wrapped sum misses sums that wrap far enough.\<close>

lemma wrapped_number_accepted: "integer_parser ''5000000000'' = Inr 705032704"
  by code_simp

lemma stream_reads_stod:
  assumes "stod s = Inr v" "\<not> dangling_exponent (snd (frac_part (dropWhile is_digit (snd (take_sign (dropWhile is_space s))))))"
  shows "stringstream_parser s = Inr v"
proof -
  obtain neg body where b: "take_sign (dropWhile is_space s) = (neg, body)" by fastforce
  obtain i f e where l: "lex_number body = (i, f, e)" by (metis prod_cases3)
  define u where "u = real (dec_val (i @ f)) * ten_pow (e - int (length f))"
  have "\<not> special_number body" "\<not> (i = [] \<and> f = [])" "double_range (if neg then - u else u)" "v = (if neg then - u else u)"
    using assms(1) unfolding stod_def b l prod.case Let_def u_def [symmetric] by (simp_all split: if_splits)
  moreover from this have "u < 2 ^ 1024 - 2 ^ 970"
    unfolding double_range_def by (cases neg) (auto simp: abs_if split: if_splits)
  ultimately show ?thesis
    using assms(2) unfolding stringstream_parser_def b l prod.case Let_def u_def [symmetric] snd_conv
    by (auto simp: special_number_def)
qed

section \<open>Command lines\<close>

datatype setting = Long_eq string string | Long_next string string | Long_flag string
  | Short_next char string | Short_glued char string | Short_flag char

fun render :: "setting \<Rightarrow> string list" where
  "render (Long_eq n v) = [''--'' @ n @ ''='' @ v]"
| "render (Long_next n v) = [''--'' @ n, v]"
| "render (Long_flag n) = [''--'' @ n]"
| "render (Short_next c v) = [''-'' @ [c], v]"
| "render (Short_glued c v) = [''-'' @ [c] @ v]"
| "render (Short_flag c) = [''-'' @ [c]]"

fun setting_name :: "setting \<Rightarrow> string" where
  "setting_name (Long_eq n v) = n"
| "setting_name (Long_next n v) = n"
| "setting_name (Long_flag n) = n"
| "setting_name (Short_next c v) = [c]"
| "setting_name (Short_glued c v) = [c]"
| "setting_name (Short_flag c) = [c]"

type_synonym table = "string \<rightharpoonup> option_details"

fun setting_text :: "option_details \<Rightarrow> setting \<Rightarrow> string" where
  "setting_text d (Long_eq n v) = v"
| "setting_text d (Long_next n v) = v"
| "setting_text d (Long_flag n) = m_implicit_value (od_value d)"
| "setting_text d (Short_next c v) = v"
| "setting_text d (Short_glued c v) = v"
| "setting_text d (Short_flag c) = m_implicit_value (od_value d)"

definition long_name :: "string \<Rightarrow> bool" where
  "long_name n \<longleftrightarrow> name_ok dotted_char n \<and> 2 \<le> length n"

text \<open>Which forms an option can be set in: a separate or glued value needs an option without implicit value.\<close>

fun form_ok :: "option_details \<Rightarrow> setting \<Rightarrow> bool" where
  "form_ok d (Long_eq n v) \<longleftrightarrow> long_name n \<and> list_all line_char v"
| "form_ok d (Long_next n v) \<longleftrightarrow> long_name n \<and> \<not> m_implicit (od_value d)"
| "form_ok d (Long_flag n) \<longleftrightarrow> long_name n \<and> m_implicit (od_value d)"
| "form_ok d (Short_next c v) \<longleftrightarrow> is_alnum c \<and> \<not> m_implicit (od_value d)"
| "form_ok d (Short_glued c v) \<longleftrightarrow> is_alnum c \<and> \<not> m_implicit (od_value d) \<and> v \<noteq> [] \<and> list_all line_char v"
| "form_ok d (Short_flag c) \<longleftrightarrow> is_alnum c \<and> m_implicit (od_value d)"

definition reads :: "option_details \<Rightarrow> string \<Rightarrow> datum cx" where
  "reads d t = parse_value (v_kind (od_value d)) t (initial (v_kind (od_value d)))"

definition setting_ok :: "table \<Rightarrow> setting \<Rightarrow> bool" where
  "setting_ok T s \<longleftrightarrow>
     (\<exists>d x. T (setting_name s) = Some d \<and> form_ok d s \<and> reads d (setting_text d s) = Inr x)"

definition target :: "table \<Rightarrow> setting \<Rightarrow> option_details" where
  "target T s = the (T (setting_name s))"

definition given :: "table \<Rightarrow> option_details \<Rightarrow> setting list \<Rightarrow> string list" where
  "given T d ss = List.map (setting_text d) (List.filter (\<lambda>s. T (setting_name s) = Some d) ss)"

definition names_of :: "option_details \<Rightarrow> string set" where
  "names_of d = (if od_short d = [] then {} else {od_short d}) \<union> set (od_long d)"

definition table_ok :: "table \<Rightarrow> bool" where
  "table_ok T \<longleftrightarrow> finite (dom T) \<and> T [] = None \<and>
     (\<forall>n d. T n = Some d \<longrightarrow> n \<in> names_of d \<and> (\<forall>m \<in> names_of d. T m = Some d) \<and> \<not> is_container (od_value d) \<and>
        (m_default (od_value d) \<longrightarrow> (\<exists>x. reads d (m_default_value (od_value d)) = Inr x))) \<and>
     (\<forall>n m d e. T n = Some d \<longrightarrow> T m = Some e \<longrightarrow> od_hash d = od_hash e \<longrightarrow> d = e)"

section \<open>One argument\<close>

lemma not_dotted: "\<not> dotted_char CHR ''=''"
  by (simp add: dotted_char_def name_char_def is_alnum_def is_digit_def lower_def)

lemma not_alnum: "\<not> is_alnum CHR ''-''"
  by (simp add: is_alnum_def is_digit_def lower_def)

lemma alnum_dotted: "is_alnum c \<Longrightarrow> dotted_char c"
  by (simp add: dotted_char_def name_char_def)

lemma long_name_dotted: "long_name n \<Longrightarrow> list_all dotted_char n"
  by (cases n) (auto simp: long_name_def name_ok_def alnum_dotted)

lemma long_argument:
  assumes "long_name n"
  shows "parse_argument (''--'' @ n) = Some \<lparr>arg_name = n, arg_grouping = False, set_value = False, arg_value = []\<rparr>"
    and "list_all line_char v \<Longrightarrow> parse_argument (''--'' @ n @ ''='' @ v) =
      Some \<lparr>arg_name = n, arg_grouping = False, set_value = True, arg_value = v\<rparr>"
proof -
  have d: "\<And>c. c \<in> set n \<Longrightarrow> dotted_char c" using long_name_dotted [OF assms] by (simp add: list_all_iff)
  have n: "name_ok dotted_char n" "2 \<le> length n" using assms by (simp_all add: long_name_def)
  have t: "takeWhile dotted_char n = n" "dropWhile dotted_char n = []" using d by (simp_all add: dropWhile_eq_Nil_conv)
  have e: "takeWhile dotted_char (n @ CHR ''='' # v) = n" "dropWhile dotted_char (n @ CHR ''='' # v) = CHR ''='' # v"
    using d not_dotted by (simp_all add: takeWhile_append2 dropWhile_append2)
  show "parse_argument (''--'' @ n) = Some \<lparr>arg_name = n, arg_grouping = False, set_value = False, arg_value = []\<rparr>"
    by (simp add: parse_argument_def t n)
  show "parse_argument (''--'' @ n @ ''='' @ v) =
      Some \<lparr>arg_name = n, arg_grouping = False, set_value = True, arg_value = v\<rparr>" if "list_all line_char v"
    using that by (simp add: parse_argument_def e n)
qed

lemma short_argument:
  assumes "is_alnum c" "list_all line_char v"
  shows "parse_argument (''-'' @ [c] @ v) = Some \<lparr>arg_name = c # v, arg_grouping = True, set_value = False, arg_value = []\<rparr>"
  using assms not_alnum by (auto simp: parse_argument_def Let_def)

lemma long_name_nonempty: "long_name n \<Longrightarrow> n \<noteq> []"
  by (auto simp: long_name_def)

lemma rendered_dash: "form_ok d s \<Longrightarrow> hd (render s) \<noteq> ''--''"
  using not_alnum by (cases s) (auto simp: long_name_def name_ok_def)

lemma arg_rendered:
  assumes "p_options p (setting_name s) = Some d" "form_ok d s"
  shows "parse_arg (hd (render s)) (tl (render s) @ rest) p =
    cx_bind (parse_option d (setting_text d s) p) (\<lambda>p. Inr (tl (render s) \<noteq> [], p))"
  using assms
  by (cases s)
    (auto simp: parse_arg_def long_argument [simplified] short_argument [where v = "[]", simplified] short_argument [simplified]
      parse_long_def checked_parse_arg_def long_name_nonempty Let_def split: list.splits)

lemma parse_rendered:
  assumes "p_options p (setting_name s) = Some d" "form_ok d s"
  shows "parse_loop (render s @ rest) p = cx_bind (parse_option d (setting_text d s) p) (parse_loop rest)"
proof -
  obtain a as where r: "render s = a # as" "as = [] \<or> (\<exists>v. as = [v])" by (cases s) auto
  have "parse_loop (a # as @ rest) p = cx_bind (parse_arg a (as @ rest) p)
      (\<lambda>(taken, p). parse_loop (if taken then tl (as @ rest) else as @ rest) p)"
    using rendered_dash [OF assms(2)] r(1) by simp
  also have "parse_arg a (as @ rest) p = cx_bind (parse_option d (setting_text d s) p) (\<lambda>p. Inr (as \<noteq> [], p))"
    using arg_rendered [OF assms, of rest] r(1) by simp
  finally show ?thesis
    using r by (auto simp: cx_bind_assoc)
qed

section \<open>All settings\<close>

definition held :: "option_details \<Rightarrow> string \<Rightarrow> cx_value" where
  "held d t = (clone (od_value d))\<lparr>m_result := (case reads d t of Inl e \<Rightarrow> initial (v_kind (od_value d)) | Inr x \<Rightarrow> x)\<rparr>"

text \<open>The entry of an option after the texts it was given, and once the defaults have been filled in.\<close>

definition slot_after :: "option_details \<Rightarrow> string list \<Rightarrow> option_value" where
  "slot_after d ts =
     (if ts = [] then option_value0
      else \<lparr>ov_names = Some (od_long d), ov_value = Some (held d (last ts)), ov_count = length ts, ov_default = False\<rparr>)"

definition slot_final :: "option_details \<Rightarrow> string list \<Rightarrow> option_value" where
  "slot_final d ts =
     (if ts \<noteq> [] then slot_after d ts
      else if m_default (od_value d)
      then \<lparr>ov_names = Some (od_long d), ov_value = Some (held d (m_default_value (od_value d))), ov_count = 0, ov_default = True\<rparr>
      else option_value0\<lparr>ov_names := Some (od_long d)\<rparr>)"

lemma clone_sel [simp]: "v_kind (clone v) = v_kind v" "m_result (clone v) = initial (v_kind v)"
  "m_default_value (clone v) = m_default_value v"
  by (simp_all add: clone_def)

lemma held_sel [simp]: "v_kind (held d t) = v_kind (od_value d)" "reads d t = Inr x \<Longrightarrow> m_result (held d t) = x"
  by (simp_all add: held_def)

lemma parse_value_anew:
  assumes "\<not> is_container (od_value d)" "reads d t = Inr x" "v_kind v = v_kind (od_value d)"
    "v\<lparr>m_result := x\<rparr> = held d t"
  shows "value_parse t v = Inr (held d t)"
proof -
  have "parse_value (v_kind v) t (m_result v) = reads d t"
    using assms(1) unfolding reads_def is_container_def assms(3) by (cases "v_kind (od_value d)") simp_all
  then show ?thesis using assms by (simp add: value_parse_def)
qed

lemma ov_parse_slot:
  assumes "\<not> is_container (od_value d)" "reads d t = Inr x"
  shows "ov_parse d t (slot_after d ts) = Inr (slot_after d (ts @ [t]))"
proof -
  have "value_parse t (clone (od_value d)) = Inr (held d t)"
    using assms by (intro parse_value_anew [OF assms]) (simp_all add: held_def)
  moreover have "value_parse t (held d t') = Inr (held d t)" for t'
    using assms by (intro parse_value_anew [OF assms]) (simp_all add: held_def)
  ultimately show ?thesis
    by (simp add: ov_parse_def slot_after_def ensure_value_def make_storage_def option_value0_def)
qed

lemma ov_parse_default_slot:
  assumes "\<not> is_container (od_value d)" "reads d (m_default_value (od_value d)) = Inr x" "m_default (od_value d)"
  shows "ov_parse_default d option_value0 = Inr (slot_final d [])"
proof -
  have "value_parse (m_default_value (od_value d)) (clone (od_value d)) = Inr (held d (m_default_value (od_value d)))"
    using assms by (intro parse_value_anew [OF assms(1,2)]) (simp_all add: held_def)
  then show ?thesis
    using assms(3) by (simp add: ov_parse_default_def value_parse_default_def slot_final_def slot_after_def
        ensure_value_def make_storage_def option_value0_def)
qed

lemma p_slot_put: "p_slot h (put_slot h' ov p) = (if h = h' then ov else p_slot h p)"
  by (simp add: p_slot_def put_slot_def)

lemma put_slot_sel [simp]:
  "p_options (put_slot h ov p) = p_options p" "p_allow (put_slot h ov p) = p_allow p"
  "p_sequential (put_slot h ov p) = p_sequential p" "p_defaults (put_slot h ov p) = p_defaults p"
  "p_keys (put_slot h ov p) = p_keys p" "p_next (put_slot h ov p) = p_next p"
  "p_unmatched (put_slot h ov p) = p_unmatched p"
  by (simp_all add: put_slot_def)

lemma p_slot_fields [simp]:
  "p_slot h (p\<lparr>p_sequential := x\<rparr>) = p_slot h p" "p_slot h (p\<lparr>p_defaults := y\<rparr>) = p_slot h p"
  "p_slot h (p\<lparr>p_keys := z\<rparr>) = p_slot h p" "p_slot h (p\<lparr>p_next := ns\<rparr>) = p_slot h p"
  "p_slot h (p\<lparr>p_unmatched := ns\<rparr>) = p_slot h p"
  by (simp_all add: p_slot_def)

text \<open>The parser after a list of settings: every entry holds what the settings say.\<close>

definition parsed_so_far :: "table \<Rightarrow> setting list \<Rightarrow> option_parser \<Rightarrow> bool" where
  "parsed_so_far T ss p \<longleftrightarrow> p_options p = T \<and>
     p_sequential p = List.map (\<lambda>s. (essential_name (target T s), setting_text (target T s) s)) ss \<and>
     (\<forall>n d. T n = Some d \<longrightarrow> p_slot (od_hash d) p = slot_after d (given T d ss))"

definition same_locals :: "option_parser \<Rightarrow> option_parser \<Rightarrow> bool" where
  "same_locals p q \<longleftrightarrow> p_allow q = p_allow p \<and> p_keys q = p_keys p \<and> p_next q = p_next p \<and> p_unmatched q = p_unmatched p"

lemma same_locals_trans: "same_locals p q \<Longrightarrow> same_locals q r \<Longrightarrow> same_locals p r"
  by (simp add: same_locals_def)

lemma table_okD:
  assumes "table_ok T" "T n = Some d"
  shows "\<not> is_container (od_value d)" "n \<in> names_of d" "m \<in> names_of d \<Longrightarrow> T m = Some d"
    "m_default (od_value d) \<Longrightarrow> \<exists>x. reads d (m_default_value (od_value d)) = Inr x"
    "T k = Some e \<Longrightarrow> od_hash d = od_hash e \<Longrightarrow> d = e"
  using assms unfolding table_ok_def by blast+

lemma given_snoc: "given T d (ss @ [s]) = given T d ss @ (if T (setting_name s) = Some d then [setting_text d s] else [])"
  by (simp add: given_def)

lemma parse_option_setting:
  assumes "table_ok T" "parsed_so_far T ss p" "setting_ok T s"
  shows "\<exists>q. parse_option (target T s) (setting_text (target T s) s) p = Inr q \<and> parsed_so_far T (ss @ [s]) q \<and>
    same_locals p q \<and> p_defaults q = p_defaults p"
proof -
  obtain d x where d: "T (setting_name s) = Some d" "reads d (setting_text d s) = Inr x"
    using assms(3) by (auto simp: setting_ok_def)
  let ?ts = "given T d ss"
  have t: "target T s = d" using d(1) by (simp add: target_def)
  have slot: "p_slot (od_hash d) p = slot_after d ?ts" using assms(2) d(1) by (simp add: parsed_so_far_def)
  note ov = ov_parse_slot [OF table_okD(1) [OF assms(1) d(1)] d(2), of ?ts]
  let ?q = "(put_slot (od_hash d) (slot_after d (?ts @ [setting_text d s])) p)
      \<lparr>p_sequential := p_sequential p @ [(essential_name d, setting_text d s)]\<rparr>"
  have "parse_option d (setting_text d s) p = Inr ?q"
    by (simp add: parse_option_def slot ov Let_def)
  moreover have "parsed_so_far T (ss @ [s]) ?q"
    using assms(2) d(1) t table_okD(5) [OF assms(1) d(1)]
    by (auto simp: parsed_so_far_def given_snoc p_slot_put)
  ultimately show ?thesis unfolding t by (auto simp: same_locals_def)
qed

lemma parse_settings:
  assumes "table_ok T" "\<forall>s \<in> set ss. setting_ok T s" "parsed_so_far T [] p"
  shows "\<exists>q. (\<forall>rest. parse_loop (concat (List.map render ss) @ rest) p = parse_loop rest q) \<and>
    parsed_so_far T ss q \<and> same_locals p q \<and> p_defaults q = p_defaults p"
  using assms(2)
proof (induction ss rule: rev_induct)
  case Nil
  then show ?case using assms(3) by (auto simp: same_locals_def)
next
  case (snoc s ss)
  then obtain q where q: "\<And>rest. parse_loop (concat (List.map render ss) @ rest) p = parse_loop rest q"
    "parsed_so_far T ss q" "same_locals p q" "p_defaults q = p_defaults p" by auto
  have s: "setting_ok T s" using snoc.prems by simp
  then obtain d where d: "T (setting_name s) = Some d" "form_ok d s" by (auto simp: setting_ok_def)
  then have t: "target T s = d" by (simp add: target_def)
  obtain r where r: "parse_option d (setting_text d s) q = Inr r" "parsed_so_far T (ss @ [s]) r"
    "same_locals q r" "p_defaults r = p_defaults q"
    using parse_option_setting [OF assms(1) q(2) s] unfolding t by blast
  have "p_options q (setting_name s) = Some d" using q(2) d(1) by (simp add: parsed_so_far_def)
  from parse_rendered [OF this d(2)]
  have "parse_loop (concat (List.map render (ss @ [s])) @ rest) p = parse_loop rest r" for rest
    using q(1) [of "render s @ rest"] r(1) by simp
  then show ?case using r q same_locals_trans by metis
qed

section \<open>The defaults and the result\<close>

lemma default_one_slot:
  assumes "\<not> is_container (od_value d)" "m_default (od_value d) \<Longrightarrow> \<exists>x. reads d (m_default_value (od_value d)) = Inr x"
    and "p_slot (od_hash d) p \<in> {slot_after d ts, slot_final d ts}"
  shows "\<exists>q. default_one d p = Inr q \<and> p_options q = p_options p \<and> same_locals p q \<and> p_sequential q = p_sequential p \<and>
    (\<forall>h. p_slot h q = (if h = od_hash d then slot_final d ts else p_slot h p))"
proof -
  define p1 where "p1 = put_slot (od_hash d) (p_slot (od_hash d) p) p"
  have p1: "p_slot h p1 = p_slot h p" "p_options p1 = p_options p" "same_locals p p1" "p_sequential p1 = p_sequential p" for h
    by (simp_all add: p1_def p_slot_put same_locals_def)
  note one = default_one_def [of d p, unfolded p1_def [symmetric] Let_def p1(1)]
  show ?thesis
  proof (cases "m_default (od_value d) \<and> p_slot (od_hash d) p = option_value0")
    case True
    then obtain x where x: "reads d (m_default_value (od_value d)) = Inr x" using assms(2) by blast
    have g: "ts = []" using assms(3) True by (auto simp: slot_after_def slot_final_def option_value0_def split: if_splits)
    have "ov_count option_value0 = 0 \<and> \<not> ov_default option_value0" by (simp add: option_value0_def)
    then have "default_one d p = parse_default d p1" using True one by simp
    then show ?thesis
      using True ov_parse_default_slot [OF assms(1) x] p1
      by (simp add: parse_default_def g p_slot_put same_locals_def Let_def)
  next
    case False
    show ?thesis
    proof (cases "m_default (od_value d)")
      case True
      then have f: "p_slot (od_hash d) p = slot_final d ts"
        using assms(3) False by (auto simp: slot_after_def slot_final_def split: if_splits)
      have "\<not> (ov_count (slot_final d ts) = 0 \<and> \<not> ov_default (slot_final d ts))"
        using True by (simp add: slot_final_def slot_after_def)
      then have "default_one d p = Inr p1" using one f True by (simp only: if_P if_not_P if_False)
      then show ?thesis using f p1 by simp
    next
      case no: False
      have "ov_parse_no_value d (p_slot (od_hash d) p) = slot_final d ts"
        using assms(3) no by (auto simp: ov_parse_no_value_def slot_after_def slot_final_def option_value0_def split: if_splits)
      then show ?thesis using no one p1 by (simp add: parse_no_value_def p_slot_put same_locals_def)
    qed
  qed
qed

lemma default_all_slots:
  assumes "table_ok T" "p_options p = T" "set ns \<subseteq> dom T"
    and "\<forall>n d. T n = Some d \<longrightarrow> p_slot (od_hash d) p \<in> {slot_after d (G d), slot_final d (G d)}"
  shows "\<exists>q. default_all ns p = Inr q \<and> p_options q = T \<and> same_locals p q \<and> p_sequential q = p_sequential p \<and>
    (\<forall>n d. T n = Some d \<longrightarrow> p_slot (od_hash d) q = (if \<exists>m \<in> set ns. T m = Some d then slot_final d (G d) else p_slot (od_hash d) p))"
  using assms(2-4)
proof (induction ns arbitrary: p)
  case Nil
  then show ?case by (simp add: same_locals_def)
next
  case (Cons n ns)
  then obtain d where d: "T n = Some d" by auto
  note t = table_okD [OF assms(1) d]
  have "p_slot (od_hash d) p \<in> {slot_after d (G d), slot_final d (G d)}" using Cons.prems(3) d by blast
  from default_one_slot [OF t(1,4) this] obtain q where
    q: "default_one d p = Inr q" "p_options q = T" "same_locals p q" "p_sequential q = p_sequential p"
    "\<And>h. p_slot h q = (if h = od_hash d then slot_final d (G d) else p_slot h p)"
    using Cons.prems(1) by auto
  have s: "p_slot (od_hash e) q = (if e = d then slot_final d (G d) else p_slot (od_hash e) p)" if "T m = Some e" for m e
    using q(5) [of "od_hash e"] t(5) [OF that] by auto
  have "\<forall>m e. T m = Some e \<longrightarrow> p_slot (od_hash e) q \<in> {slot_after e (G e), slot_final e (G e)}"
    using Cons.prems(3) s by (metis insertCI)
  from Cons.IH [OF q(2) _ this] Cons.prems(2) obtain r where
    r: "default_all ns q = Inr r" "p_options r = T" "same_locals q r" "p_sequential r = p_sequential q"
    "\<forall>m e. T m = Some e \<longrightarrow> p_slot (od_hash e) r = (if \<exists>k \<in> set ns. T k = Some e then slot_final e (G e) else p_slot (od_hash e) q)"
    by auto
  have "\<forall>m e. T m = Some e \<longrightarrow>
      p_slot (od_hash e) r = (if \<exists>k \<in> set (n # ns). T k = Some e then slot_final e (G e) else p_slot (od_hash e) p)"
    using r(5) s d by auto
  moreover have "default_all (n # ns) p = Inr r" using q(1) r(1) d Cons.prems(1) by simp
  moreover have "same_locals p r" by (rule same_locals_trans [OF q(3) r(3)])
  ultimately show ?case using r(2,4) q(4) by auto
qed

lemma keys_fold: "fold (\<lambda>l m. m(l \<mapsto> h)) ls m k = (if k \<in> set ls then Some h else m k)"
  by (induction ls arbitrary: m) auto

lemma alias_one_sel:
  "p_options (alias_one d p) = p_options p" "p_unmatched (alias_one d p) = p_unmatched p"
  "p_sequential (alias_one d p) = p_sequential p" "p_defaults (alias_one d p) = p_defaults p"
  "p_slot h (alias_one d p) = p_slot h p"
  "k \<noteq> [] \<Longrightarrow> p_keys (alias_one d p) k = (if k \<in> names_of d then Some (od_hash d) else p_keys p k)"
  by (auto simp: alias_one_def p_slot_put keys_fold names_of_def)

lemma finalise_slots:
  assumes "table_ok T" "p_options p = T" "set ns \<subseteq> dom T"
  shows "p_unmatched (finalise ns p) = p_unmatched p \<and> p_sequential (finalise ns p) = p_sequential p \<and>
    p_defaults (finalise ns p) = p_defaults p \<and> (\<forall>h. p_slot h (finalise ns p) = p_slot h p) \<and>
    (\<forall>n d. T n = Some d \<longrightarrow> p_keys (finalise ns p) n = (if \<exists>m \<in> set ns. T m = Some d then Some (od_hash d) else p_keys p n))"
  using assms(2,3)
proof (induction ns arbitrary: p)
  case (Cons n ns)
  then obtain d where d: "T n = Some d" by auto
  define q where "q = alias_one d p"
  have q: "p_options q = T" "p_unmatched q = p_unmatched p" "p_sequential q = p_sequential p" "p_defaults q = p_defaults p"
    "\<forall>h. p_slot h q = p_slot h p" using Cons.prems(1) by (simp_all add: q_def alias_one_sel)
  have k: "p_keys q m = (if d = e then Some (od_hash e) else p_keys p m)" if "T m = Some e" for m e
  proof -
    have "T [] = None" using assms(1) unfolding table_ok_def by blast
    then have "m \<noteq> []" using that by auto
    moreover have "m \<in> names_of d \<longleftrightarrow> d = e"
    proof
      assume "m \<in> names_of d"
      then have "T m = Some d" by (rule table_okD(3) [OF assms(1) d])
      then show "d = e" using that by simp
    next
      assume "d = e"
      then show "m \<in> names_of d" using table_okD(2) [OF assms(1) that] by simp
    qed
    ultimately show ?thesis by (auto simp: q_def alias_one_sel)
  qed
  have fin: "finalise (n # ns) p = finalise ns q" using Cons.prems(1) d by (simp add: q_def)
  have sub: "set ns \<subseteq> dom T" using Cons.prems(2) by simp
  note IH = Cons.IH [OF q(1) this]
  have keys: "p_keys (finalise ns q) m = (if \<exists>j \<in> set (n # ns). T j = Some e then Some (od_hash e) else p_keys p m)"
    if "T m = Some e" for m e
  proof -
    have "p_keys (finalise ns q) m = (if \<exists>j \<in> set ns. T j = Some e then Some (od_hash e) else p_keys q m)"
      using IH that by blast
    then show ?thesis using k [OF that] d by (cases "d = e") simp_all
  qed
  show ?case
    unfolding fin by (intro conjI allI impI keys) (use IH q in simp_all)
qed simp

text \<open>What the parse ends in when the arguments said \<open>ss\<close>, and that a list of settings says itself.\<close>

lemma parse_result:
  assumes "table_ok (o_options os)" "\<And>S. finite S \<Longrightarrow> set (ord S) = S"
    and "parse_loop args (parser_new os) = Inr (None, q)" "parsed_so_far (o_options os) ss q"
  shows "\<exists>r. options_parse ord (prog # args) os = Inr r \<and> pr_unmatched r = p_unmatched q \<and>
    pr_sequential r = List.map (\<lambda>s. (essential_name (target (o_options os) s), setting_text (target (o_options os) s) s)) ss \<and>
    (\<forall>n d. o_options os n = Some d \<longrightarrow> pr_get n r = Inr (slot_final d (given (o_options os) d ss)))"
proof -
  let ?T = "o_options os"
  have fin: "set (ord (dom ?T)) = dom ?T" using assms(1,2) by (simp add: table_ok_def)
  let ?G = "\<lambda>d. given ?T d ss"
  have o: "p_options q = ?T" and i: "\<forall>n d. ?T n = Some d \<longrightarrow> p_slot (od_hash d) q \<in> {slot_after d (?G d), slot_final d (?G d)}"
    using assms(4) by (auto simp: parsed_so_far_def)
  have sub: "set (ord (dom ?T)) \<subseteq> dom ?T" using fin by simp
  from default_all_slots [OF assms(1) o sub i] obtain r where
    r: "default_all (ord (dom ?T)) q = Inr r" "p_options r = ?T" "same_locals q r" "p_sequential r = p_sequential q"
    "\<forall>n d. ?T n = Some d \<longrightarrow> p_slot (od_hash d) r =
      (if \<exists>m \<in> set (ord (dom ?T)). ?T m = Some d then slot_final d (?G d) else p_slot (od_hash d) q)"
    by blast
  let ?f = "finalise (ord (dom ?T)) r"
  note f = finalise_slots [OF assms(1) r(2) sub]
  have there: "\<exists>m \<in> set (ord (dom ?T)). ?T m = Some d" if "?T n = Some d" for n d using that fin by blast
  have keys: "p_keys ?f n = Some (od_hash d)" if "?T n = Some d" for n d
    using f that there [OF that] by simp
  have vals: "p_parsed ?f (od_hash d) = Some (slot_final d (?G d))" if "?T n = Some d" for n d
  proof -
    have "p_slot (od_hash d) ?f = slot_final d (?G d)" using f r(5) that there [OF that] by simp
    moreover have "slot_final d (?G d) \<noteq> option_value0" by (simp add: slot_final_def slot_after_def option_value0_def)
    ultimately show ?thesis by (auto simp: p_slot_def split: option.splits)
  qed
  have "p_unmatched ?f = p_unmatched q" "p_sequential ?f = p_sequential q" "p_options r = ?T"
    using f r(2,3,4) by (simp_all add: same_locals_def)
  then have "options_parse ord (prog # args) os =
      Inr \<lparr>pr_keys = p_keys ?f, pr_values = p_parsed ?f, pr_sequential = p_sequential q, pr_defaults = p_defaults ?f,
        pr_unmatched = p_unmatched q\<rparr>"
    using r(1) o assms(3) by (simp add: options_parse_def parser_parse_def finalise_aliases_def Let_def)
  then show ?thesis
    using keys vals assms(4) by (auto simp: pr_get_def parsed_so_far_def)
qed

lemma parsed_at_start: "parsed_so_far (o_options os) [] (parser_new os)"
  by (auto simp: parsed_so_far_def parser_new_def given_def slot_after_def p_slot_def)

lemma settings_loop:
  assumes "table_ok (o_options os)" "\<forall>s \<in> set ss. setting_ok (o_options os) s"
  obtains q where "\<And>rest. parse_loop (concat (List.map render ss) @ rest) (parser_new os) = parse_loop rest q"
    "parsed_so_far (o_options os) ss q" "p_unmatched q = []" "p_next q = o_positional os" "p_allow q = o_allow_unrecognised os"
proof -
  from parse_settings [OF assms parsed_at_start] obtain q where
    "\<And>rest. parse_loop (concat (List.map render ss) @ rest) (parser_new os) = parse_loop rest q"
    "parsed_so_far (o_options os) ss q" "same_locals (parser_new os) q" by blast
  then show ?thesis using that [of q] by (simp add: same_locals_def parser_new_def)
qed

lemma settings_result:
  assumes "table_ok (o_options os)" "\<And>S. finite S \<Longrightarrow> set (ord S) = S"
    and "\<forall>s \<in> set ss. setting_ok (o_options os) s"
  shows "\<exists>r. options_parse ord (prog # concat (List.map render ss)) os = Inr r \<and> pr_unmatched r = [] \<and>
    pr_sequential r = List.map (\<lambda>s. (essential_name (target (o_options os) s), setting_text (target (o_options os) s) s)) ss \<and>
    (\<forall>n d. o_options os n = Some d \<longrightarrow> pr_get n r = Inr (slot_final d (given (o_options os) d ss)))"
proof -
  obtain q where q: "\<And>args. parse_loop (concat (List.map render ss) @ args) (parser_new os) = parse_loop args q"
    "parsed_so_far (o_options os) ss q" "p_unmatched q = []"
    using settings_loop [OF assms(1,3)] by blast
  have "parse_loop (concat (List.map render ss)) (parser_new os) = Inr (None, q)" using q(1) [of "[]"] by simp
  from parse_result [OF assms(1,2) this q(2), of prog] show ?thesis unfolding q(3) .
qed

text \<open>The text an option ends up with, and reading it back.\<close>

definition last_text :: "table \<Rightarrow> string \<Rightarrow> setting list \<Rightarrow> string" where
  "last_text T n ss =
     (let d = the (T n); ts = given T d ss in if ts = [] then m_default_value (od_value d) else last ts)"

definition readable :: "option_details \<Rightarrow> string list \<Rightarrow> bool" where
  "readable d ts \<longleftrightarrow> (\<forall>t \<in> set ts. \<exists>x. reads d t = Inr x)"

lemma given_readable: "\<forall>s \<in> set ss. setting_ok T s \<Longrightarrow> readable d (given T d ss)"
  by (auto simp: given_def setting_ok_def readable_def)

lemma last_text_reads:
  assumes "table_ok T" "readable d (given T d ss)" "T n = Some d" "given T d ss \<noteq> [] \<or> m_default (od_value d)"
  shows "\<exists>x. reads d (last_text T n ss) = Inr x \<and> ov_as (v_kind (od_value d)) (slot_final d (given T d ss)) = Inr x"
proof -
  have "\<exists>x. reads d (last_text T n ss) = Inr x"
    using assms(2,3,4) last_in_set [of "given T d ss"] table_okD(4) [OF assms(1,3)]
    by (cases "given T d ss = []") (auto simp: last_text_def readable_def Let_def)
  then show ?thesis
    using assms(3,4) by (auto simp: last_text_def Let_def ov_as_def slot_final_def slot_after_def split: if_splits)
qed

section \<open>Mistakes\<close>

datatype mistake = Unknown_long string string | Unknown_short char string | Unreadable setting
  | Value_missing string | Malformed string

fun render_mistake :: "mistake \<Rightarrow> string list" where
  "render_mistake (Unknown_long n v) = [''--'' @ n @ ''='' @ v]"
| "render_mistake (Unknown_short c v) = [''-'' @ [c] @ v]"
| "render_mistake (Unreadable s) = render s"
| "render_mistake (Value_missing n) = [''--'' @ n]"
| "render_mistake (Malformed a) = [a]"

text \<open>\<open>mistake_error T rest m e\<close>: before the arguments \<open>rest\<close> the mistake ends in the exception \<open>e\<close>.\<close>

fun mistake_error :: "table \<Rightarrow> string list \<Rightarrow> mistake \<Rightarrow> cx_error \<Rightarrow> bool" where
  "mistake_error T rest (Unknown_long n v) e \<longleftrightarrow>
     long_name n \<and> list_all line_char v \<and> T n = None \<and> e = No_such_option n"
| "mistake_error T rest (Unknown_short c v) e \<longleftrightarrow>
     is_alnum c \<and> list_all line_char v \<and> T [c] = None \<and> e = No_such_option [c]"
| "mistake_error T rest (Unreadable s) e \<longleftrightarrow>
     (\<exists>d. T (setting_name s) = Some d \<and> form_ok d s \<and> reads d (setting_text d s) = Inl e)"
| "mistake_error T rest (Value_missing n) e \<longleftrightarrow>
     long_name n \<and> rest = [] \<and> (\<exists>d. T n = Some d \<and> \<not> m_implicit (od_value d)) \<and> e = Missing_argument n"
| "mistake_error T rest (Malformed a) e \<longleftrightarrow>
     parse_argument a = None \<and> a \<noteq> ''--'' \<and> take 1 a = ''-'' \<and> 1 < length a \<and> e = Invalid_option_syntax a"

lemma parse_option_unreadable:
  assumes "table_ok T" "parsed_so_far T ss p" "T n = Some d" "reads d t = Inl e"
  shows "parse_option d t p = Inl e"
proof -
  have slot: "p_slot (od_hash d) p = slot_after d (given T d ss)" using assms(2,3) by (auto simp: parsed_so_far_def)
  have "value_parse t v = Inl e" if "v_kind v = v_kind (od_value d)" for v
  proof -
    have "parse_value (v_kind v) t (m_result v) = reads d t"
      using table_okD(1) [OF assms(1,3)] unfolding reads_def is_container_def that by (cases "v_kind (od_value d)") simp_all
    then show ?thesis using assms(4) by (simp add: value_parse_def)
  qed
  then show ?thesis
    unfolding parse_option_def slot
    by (simp add: ov_parse_def slot_after_def ensure_value_def make_storage_def option_value0_def)
qed

lemma mistake_parsed:
  assumes "table_ok T" "parsed_so_far T ss p" "\<not> p_allow p" "mistake_error T rest m e"
  shows "parse_loop (render_mistake m @ rest) p = Inl e"
proof -
  have o: "p_options p = T" using assms(2) by (simp add: parsed_so_far_def)
  show ?thesis
  proof (cases m)
    case (Unreadable s)
    then obtain d where d: "T (setting_name s) = Some d" "form_ok d s" "reads d (setting_text d s) = Inl e"
      using assms(4) by auto
    have "p_options p (setting_name s) = Some d" using o d(1) by simp
    from parse_rendered [OF this d(2)] parse_option_unreadable [OF assms(1,2) d(1,3)] show ?thesis
      by (simp add: Unreadable)
  next
    case (Unknown_long n v)
    then show ?thesis
      using assms(3,4) o long_argument [simplified]
      by (auto simp: parse_arg_def parse_long_def long_name_nonempty)
  next
    case (Unknown_short c v)
    then show ?thesis
      using assms(3,4) o short_argument [simplified] not_alnum by (auto simp: parse_arg_def)
  next
    case (Value_missing n)
    then show ?thesis
      using assms(4) o long_argument [simplified]
      by (auto simp: parse_arg_def parse_long_def checked_parse_arg_def long_name_nonempty)
  next
    case (Malformed a)
    then show ?thesis using assms(3,4) by (auto simp: parse_arg_def parse_plain_def)
  qed
qed

lemma loop_error:
  assumes "parse_loop args (parser_new os) = Inl e"
  shows "options_parse ord (prog # args) os = Inl e"
  using assms by (simp add: options_parse_def parser_parse_def)

text \<open>Plain arguments go to the positional options, and the first of these that does not exist refuses them.\<close>

lemma plain_unmatched: "take 1 a \<noteq> ''-'' \<Longrightarrow> parse_argument a = None"
  by (cases a; cases "tl a") (auto simp: parse_argument_def)

lemma plain_refused:
  assumes "take 1 a \<noteq> ''-''" "p_next p = n # ns" "p_options p n = None"
  shows "parse_loop (a # rest) p = Inl (No_such_option n)"
  using assms plain_unmatched [OF assms(1)]
  by (auto simp: parse_arg_def parse_plain_def consume_positional_def)

lemma plain_taken:
  assumes "table_ok T" "parsed_so_far T ss p" "take 1 a \<noteq> ''-''" "p_next p = n # ns" "T n = Some d"
    and "given T d ss = []" "reads d a = Inr x"
  shows "\<exists>q. parse_loop [a] p = Inr (None, q) \<and> parsed_so_far T (ss @ [Long_eq n a]) q \<and> p_unmatched q = p_unmatched p"
proof -
  have o: "p_options p = T" and slot: "p_slot (od_hash d) p = slot_after d []"
    using assms(2,5,6) by (auto simp: parsed_so_far_def)
  define p1 where "p1 = put_slot (od_hash d) (p_slot (od_hash d) p) p"
  have p1: "p_slot h p1 = p_slot h p" "p_options p1 = T" "p_sequential p1 = p_sequential p" "p_unmatched p1 = p_unmatched p" for h
    using o by (simp_all add: p1_def p_slot_put)
  define q where "q = (put_slot (od_hash d) (slot_after d [a]) p1)\<lparr>p_sequential := p_sequential p @ [(essential_name d, a)]\<rparr>"
  have "parse_option d a p1 = Inr q"
    using ov_parse_slot [OF table_okD(1) [OF assms(1,5)] assms(7), of "[]"]
    by (simp add: parse_option_def p1 slot q_def Let_def)
  moreover have "ov_count (p_slot (od_hash d) p1) = 0" by (simp add: p1 slot slot_after_def option_value0_def)
  ultimately have "parse_loop [a] p = Inr (None, q\<lparr>p_next := ns\<rparr>)"
    using assms(3,4,5) o table_okD(1) [OF assms(1,5)] plain_unmatched [OF assms(3)]
    by (auto simp: parse_arg_def parse_plain_def consume_positional_def Let_def p1_def [symmetric])
  moreover have "parsed_so_far T (ss @ [Long_eq n a]) (q\<lparr>p_next := ns\<rparr>)"
    using assms(2,5,6) table_okD(5) [OF assms(1,5)] p1(2)
    by (auto simp: parsed_so_far_def given_snoc q_def p_slot_put p1 target_def)
  ultimately show ?thesis by (auto simp: q_def p1)
qed

end
