(* ===== verification/CxxTypes.thy ===== *)
theory CxxTypes
  imports CxxSpec
begin

text \<open>
  The types of parsed values. Whatever the arguments, a value that a parse leaves behind holds a
  datum of the type its option was declared with, so asking for that type never fails in the cast.
\<close>

primrec has_kind :: "kind \<Rightarrow> datum \<Rightarrow> bool" where
  "has_kind K_bool x \<longleftrightarrow> (\<exists>b. x = D_bool b)"
| "has_kind K_int x \<longleftrightarrow> (\<exists>i. x = D_int i)"
| "has_kind K_double x \<longleftrightarrow> (\<exists>r. x = D_double r)"
| "has_kind K_string x \<longleftrightarrow> (\<exists>s. x = D_string s)"
| "has_kind K_char x \<longleftrightarrow> (\<exists>c. x = D_char c)"
| "has_kind (K_vector k) x \<longleftrightarrow> (\<exists>ds. x = D_vector ds \<and> (\<forall>d \<in> set ds. has_kind k d))"

lemma has_kind_initial: "has_kind k (initial k)"
  by (cases k) auto

lemma parse_all_kind:
  assumes "parse_all p ts = Inr vs" "\<And>t v. p t = Inr v \<Longrightarrow> P v"
  shows "\<forall>v \<in> set vs. P v"
  using assms(1)
proof (induction ts arbitrary: vs)
  case (Cons t ts)
  then obtain v ws where "p t = Inr v" "parse_all p ts = Inr ws" "vs = v # ws" by (auto simp: cx_bind_Inr)
  then show ?case using Cons.IH assms(2) by auto
qed simp

lemma parse_value_kind: "has_kind k old \<Longrightarrow> parse_value k s old = Inr x \<Longrightarrow> has_kind k x"
proof (induction k arbitrary: s old x)
  case (K_vector k)
  from K_vector.prems obtain ds vs where x: "old = D_vector ds" "\<forall>d \<in> set ds. has_kind k d" "x = D_vector (ds @ vs)"
    and "parse_all (\<lambda>t. parse_value k t (initial k)) (if s = [] then [[]] else getline_tokens s) = Inr vs"
    by (auto simp: cx_bind_Inr)
  then have "\<forall>v \<in> set vs. has_kind k v"
    using K_vector.IH [OF has_kind_initial] by (auto elim!: parse_all_kind)
  then show ?case using x by auto
qed (auto simp: cx_bind_Inr parse_char_def split: if_splits list.splits)

definition typed_value :: "cx_value \<Rightarrow> bool" where
  "typed_value v \<longleftrightarrow> has_kind (v_kind v) (m_result v)"

lemma typed_parse: "typed_value v \<Longrightarrow> value_parse s v = Inr w \<Longrightarrow> typed_value w \<and> v_kind w = v_kind v"
  by (auto simp: value_parse_def typed_value_def cx_bind_Inr intro: parse_value_kind)

text \<open>The invariant of the parser: every entry is empty or of the type of an option with its hash.\<close>

definition typed_slot :: "table \<Rightarrow> nat \<Rightarrow> option_value \<Rightarrow> bool" where
  "typed_slot T h ov \<longleftrightarrow>
     (\<forall>v. ov_value ov = Some v \<longrightarrow> typed_value v \<and> (\<exists>n d. T n = Some d \<and> od_hash d = h \<and> v_kind v = v_kind (od_value d)))"

definition typed :: "table \<Rightarrow> option_parser \<Rightarrow> bool" where
  "typed T p \<longleftrightarrow> p_options p = T \<and> (\<forall>h. typed_slot T h (p_slot h p))"

lemma typed_put: "typed T p \<Longrightarrow> typed_slot T h ov \<Longrightarrow> typed T (put_slot h ov p)"
  by (simp add: typed_def p_slot_put)

lemma typed_touch: "typed T p \<Longrightarrow> typed T (put_slot h (p_slot h p) p)"
  by (simp add: typed_def p_slot_put)

lemma typed_locals [simp]:
  "typed T (p\<lparr>p_sequential := xs\<rparr>) = typed T p" "typed T (p\<lparr>p_defaults := xs\<rparr>) = typed T p"
  "typed T (p\<lparr>p_next := ns\<rparr>) = typed T p" "typed T (p\<lparr>p_unmatched := ns\<rparr>) = typed T p"
  "typed T (p\<lparr>p_keys := m\<rparr>) = typed T p"
  by (simp_all add: typed_def)

lemma typed_ensure:
  assumes "typed_slot T (od_hash d) ov" "T n = Some d"
  obtains v where "ov_value (ensure_value d ov) = Some v" "typed_value v"
    "\<exists>n e. T n = Some e \<and> od_hash e = od_hash d \<and> v_kind v = v_kind (od_value e)"
proof (cases "ov_value ov")
  case None
  then show ?thesis
    using that [of "make_storage d"] assms(2)
    by (auto simp: ensure_value_def make_storage_def typed_value_def has_kind_initial)
next
  case (Some v)
  then show ?thesis using that [of v] assms(1) by (auto simp: ensure_value_def typed_slot_def)
qed

lemma typed_parse_option:
  assumes "typed T p" "T n = Some d" "parse_option d s p = Inr q"
  shows "typed T q"
proof -
  have slot: "typed_slot T (od_hash d) (p_slot (od_hash d) p)" using assms(1) by (simp add: typed_def)
  obtain v where v: "ov_value (ensure_value d (p_slot (od_hash d) p)) = Some v" "typed_value v"
    "\<exists>n e. T n = Some e \<and> od_hash e = od_hash d \<and> v_kind v = v_kind (od_value e)"
    using typed_ensure [OF slot assms(2)] .
  obtain ov where ov: "ov_parse d s (p_slot (od_hash d) p) = Inr ov"
    "q = (put_slot (od_hash d) ov p)\<lparr>p_sequential := p_sequential p @ [(essential_name d, s)]\<rparr>"
    using assms(3) by (auto simp: parse_option_def cx_bind_Inr Let_def)
  then obtain w where "value_parse s v = Inr w" "ov_value ov = Some w"
    using v(1) by (auto simp: ov_parse_def cx_bind_Inr Let_def)
  then have "typed_slot T (od_hash d) ov" using typed_parse [OF v(2)] v(3) by (auto simp: typed_slot_def)
  then show ?thesis unfolding ov(2) using typed_put [OF assms(1)] by simp
qed

lemma typed_parse_default:
  assumes "typed T p" "T n = Some d" "parse_default d p = Inr q"
  shows "typed T q"
proof -
  have slot: "typed_slot T (od_hash d) (p_slot (od_hash d) p)" using assms(1) by (simp add: typed_def)
  obtain v where v: "ov_value (ensure_value d (p_slot (od_hash d) p)) = Some v" "typed_value v"
    "\<exists>n e. T n = Some e \<and> od_hash e = od_hash d \<and> v_kind v = v_kind (od_value e)"
    using typed_ensure [OF slot assms(2)] .
  obtain ov where ov: "ov_parse_default d (p_slot (od_hash d) p) = Inr ov"
    "typed T (put_slot (od_hash d) ov p) \<longrightarrow> typed T q"
    using assms(3) by (auto simp: parse_default_def cx_bind_Inr Let_def)
  then obtain w where "value_parse_default v = Inr w" "ov_value ov = Some w"
    using v(1) by (auto simp: ov_parse_default_def cx_bind_Inr Let_def)
  then have "typed_slot T (od_hash d) ov"
    using typed_parse [OF v(2)] v(3) unfolding value_parse_default_def by (auto simp: typed_slot_def)
  then show ?thesis using ov(2) typed_put [OF assms(1)] by blast
qed

lemma typed_checked:
  "typed T p \<Longrightarrow> T n = Some d \<Longrightarrow> checked_parse_arg args d name p = Inr (b, q) \<Longrightarrow> typed T q"
  by (auto simp: checked_parse_arg_def cx_bind_Inr split: list.splits if_splits intro: typed_parse_option)

lemma typed_options: "typed T p \<Longrightarrow> p_options p = T"
  by (simp add: typed_def)

lemma typed_consume: "typed T p \<Longrightarrow> consume a ns p = Inr (b, q) \<Longrightarrow> typed T q"
proof (induction ns arbitrary: p)
  case (Cons n ns)
  note o = typed_options [OF Cons.prems(1)]
  obtain d where d: "T n = Some d" using Cons.prems(2) o by (auto split: option.splits)
  let ?p = "put_slot (od_hash d) (p_slot (od_hash d) p) p"
  have t: "typed T ?p" by (rule typed_touch [OF Cons.prems(1)])
  show ?case
    using Cons.prems(2) d o Cons.IH [OF t] typed_parse_option [OF t d] typed_parse_option [OF Cons.prems(1) d]
    by (auto simp: cx_bind_Inr Let_def split: if_splits)
qed auto

lemma typed_group: "typed T p \<Longrightarrow> parse_group args s p = Inr (b, q) \<Longrightarrow> typed T q"
proof (induction s arbitrary: p)
  case (Cons c cs)
  note o = typed_options [OF Cons.prems(1)]
  show ?case
  proof (cases "T [c]")
    case None
    then show ?thesis
      using Cons.prems o Cons.IH [of "p\<lparr>p_unmatched := p_unmatched p @ [''-'' @ [c]]\<rparr>"] by (simp split: if_splits)
  next
    case (Some d)
    then show ?thesis
      using Cons.prems(2) o Cons.IH typed_parse_option [OF Cons.prems(1) Some] typed_checked [OF Cons.prems(1) Some]
      by (auto simp: cx_bind_Inr split: if_splits)
  qed
qed auto

lemma typed_arg: "typed T p \<Longrightarrow> parse_arg a args p = Inr (b, q) \<Longrightarrow> typed T q"
proof -
  assume t: "typed T p" and a: "parse_arg a args p = Inr (b, q)"
  note o = typed_options [OF t]
  show "typed T q"
  proof (cases "parse_argument a")
    case None
    then show ?thesis
      using a typed_consume [OF t, of a "p_next p"]
      by (auto simp: parse_arg_def parse_plain_def consume_positional_def cx_bind_Inr split: if_splits)
  next
    case (Some desc)
    have "typed T q" if "parse_long args a desc p = Inr (b, q)"
    proof (cases "T (arg_name desc)")
      case None
      then show ?thesis using that t o by (auto simp: parse_long_def Let_def split: if_splits)
    next
      case (Some d)
      then show ?thesis
        using that o typed_parse_option [OF t Some] typed_checked [OF t Some]
        by (auto simp: parse_long_def Let_def cx_bind_Inr split: if_splits)
    qed
    then show ?thesis using a t Some typed_group [OF t] by (auto simp: parse_arg_def split: if_splits)
  qed
qed

lemma typed_loop: "typed T p \<Longrightarrow> parse_loop args p = Inr (remaining, q) \<Longrightarrow> typed T q"
proof (induction args arbitrary: p rule: length_induct)
  case (1 args)
  show ?case
  proof (cases args)
    case (Cons a as)
    show ?thesis
    proof (cases "a = ''--''")
      case False
      then obtain b r where r: "parse_arg a as p = Inr (b, r)" "parse_loop (if b then tl as else as) r = Inr (remaining, q)"
        using "1.prems"(2) Cons by (auto simp: cx_bind_Inr)
      have "length (if b then tl as else as) < length args" using Cons by auto
      then show ?thesis using "1.IH" typed_arg [OF "1.prems"(1) r(1)] r(2) by blast
    qed (use 1 Cons in simp)
  qed (use 1 in simp)
qed

lemma typed_default_one: "typed T p \<Longrightarrow> T n = Some d \<Longrightarrow> default_one d p = Inr q \<Longrightarrow> typed T q"
proof -
  assume t: "typed T p" and d: "T n = Some d" and q: "default_one d p = Inr q"
  let ?p = "put_slot (od_hash d) (p_slot (od_hash d) p) p"
  have t': "typed T ?p" by (rule typed_touch [OF t])
  have "typed_slot T (od_hash d) (ov_parse_no_value d (p_slot (od_hash d) ?p))"
    using t' by (simp add: typed_def typed_slot_def ov_parse_no_value_def)
  then have "typed T (parse_no_value d ?p)" unfolding parse_no_value_def by (rule typed_put [OF t'])
  then show "typed T q"
    using q t' typed_parse_default [OF t' d] by (auto simp: default_one_def Let_def split: if_splits)
qed

lemma typed_defaults: "typed T p \<Longrightarrow> set ns \<subseteq> dom T \<Longrightarrow> default_all ns p = Inr q \<Longrightarrow> typed T q"
proof (induction ns arbitrary: p)
  case (Cons n ns)
  then obtain d where d: "T n = Some d" by auto
  then show ?case
    using Cons typed_default_one [OF Cons.prems(1) d] typed_options [OF Cons.prems(1)] by (auto simp: cx_bind_Inr)
qed simp

lemma typed_rest: "typed T p \<Longrightarrow> consume_rest as p = Inr q \<Longrightarrow> typed T q"
proof (induction as arbitrary: p)
  case (Cons a as)
  then obtain b r where r: "consume_positional a p = Inr (b, r)" by (auto simp: cx_bind_Inr)
  then have "typed T r" using typed_consume [OF Cons.prems(1)] by (simp add: consume_positional_def)
  then show ?case using Cons r by (auto split: if_splits)
qed simp

text \<open>In the end every declared option has an entry.\<close>

lemma alias_one_present: "p_parsed p h \<noteq> None \<or> h = od_hash d \<Longrightarrow> p_parsed (alias_one d p) h \<noteq> None"
  by (auto simp: alias_one_def put_slot_def)

lemma finalise_kept: "p_parsed p h \<noteq> None \<Longrightarrow> p_parsed (finalise ns p) h \<noteq> None"
proof (induction ns arbitrary: p)
  case (Cons n ns)
  have "p_parsed (alias_one (the (p_options p n)) p) h \<noteq> None" using Cons.prems by (intro alias_one_present) blast
  from Cons.IH [OF this] show ?case by simp
qed simp

lemma finalise_present:
  "p_options p = T \<Longrightarrow> m \<in> set ns \<Longrightarrow> T m = Some d \<Longrightarrow> p_parsed (finalise ns p) (od_hash d) \<noteq> None"
proof (induction ns arbitrary: p)
  case (Cons n ns)
  show ?case
  proof (cases "m = n")
    case True
    then have "the (p_options p n) = d" using Cons.prems by simp
    then show ?thesis using finalise_kept [OF alias_one_present [of p "od_hash d" d]] by simp
  next
    case False
    then show ?thesis using Cons.IH [of "alias_one (the (p_options p n)) p"] Cons.prems by (simp add: alias_one_sel)
  qed
qed simp

end
