(* ===== verification/CommandLine.thy ===== *)
theory CommandLine
  imports CxxTypes MotorController Guidance Adiru "HOL-Library.List_Lexorder" "HOL-Library.Char_ord"
begin

text \<open>
  The command lines of the three MQTT processes: the options that
  \<^verbatim>\<open>src/guidance/auto_com.cpp\<close>, \<^verbatim>\<open>src/main/motor_controller.cpp\<close> and \<^verbatim>\<open>src/main/adiru.cpp\<close> declare, what
  they ask the parser for, and the processes started on their arguments. An exception of the
  parser is not caught: it ends the process.
\<close>

section \<open>The options of the processes\<close>

definition guidance_declared :: "(string \<Rightarrow> nat) \<Rightarrow> options cx" where
  "guidance_declared hash =
     cx_bind (add_options hash []
        [(''m,maxthrust'', ''Maximum thrust allowed'', default_value ''0.3'' (standard_value K_double), []),
         (''t,interval'', ''The interval between ramp ups'', default_value ''5'' (standard_value K_int), []),
         (''r,rampthrust'', ''The amount of thrust to ramp up by'', default_value ''0.01'' (standard_value K_double), [])]
        (options_new ''Auto Center of Mass'' ''dw abt it'')) (\<lambda>os.
     Inr (parse_positional [''maxthrust''] os))"

definition motor_declared :: "(string \<Rightarrow> nat) \<Rightarrow> options cx" where
  "motor_declared hash =
     cx_bind (add_options hash []
        [(''arm'', ''Whether or not to arm the craft'', default_value ''false'' (standard_value K_bool), [])]
        (options_new ''Motor Controller'' ''This system controls the motors and led powers.'')) (\<lambda>os.
     Inr (parse_positional [''ups''] os))"

definition adiru_declared :: "(string \<Rightarrow> nat) \<Rightarrow> options cx" where
  "adiru_declared hash =
     cx_bind (add_options hash []
        [(''ups'', ''The update rate for this unit'', default_value ''60'' (standard_value K_double), []),
         (''l'', ''Low pass filter cutoff'', default_value ''10'' (standard_value K_double), [])]
        (options_new ''ADIRU'' (''Air mpu6050_data Inertial Reference Unit (ADIRU) provides '' @
           ''position and attitude information to the craft.''))) (\<lambda>os.
     Inr (parse_positional [''ups''] os))"

section \<open>What they ask for\<close>

definition as_double :: "string \<Rightarrow> parse_result \<Rightarrow> real cx" where
  "as_double n r = cx_bind (pr_get n r) (\<lambda>ov. cx_bind (ov_as K_double ov) (\<lambda>x.
     case x of D_double d \<Rightarrow> Inr d | _ \<Rightarrow> Inl Bad_cast))"

definition as_int :: "string \<Rightarrow> parse_result \<Rightarrow> int cx" where
  "as_int n r = cx_bind (pr_get n r) (\<lambda>ov. cx_bind (ov_as K_int ov) (\<lambda>x.
     case x of D_int i \<Rightarrow> Inr i | _ \<Rightarrow> Inl Bad_cast))"

definition as_bool :: "string \<Rightarrow> parse_result \<Rightarrow> bool cx" where
  "as_bool n r = cx_bind (pr_get n r) (\<lambda>ov. cx_bind (ov_as K_bool ov) (\<lambda>x.
     case x of D_bool b \<Rightarrow> Inr b | _ \<Rightarrow> Inl Bad_cast))"

definition guidance_params :: "(string \<Rightarrow> nat) \<Rightarrow> (string set \<Rightarrow> string list) \<Rightarrow> string list \<Rightarrow> gparams cx" where
  "guidance_params hash ord argv =
     cx_bind (guidance_declared hash) (\<lambda>os.
     cx_bind (options_parse ord argv os) (\<lambda>r.
     cx_bind (as_double ''maxthrust'' r) (\<lambda>maxthrust.
     cx_bind (as_double ''rampthrust'' r) (\<lambda>rampthrust.
     cx_bind (as_int ''interval'' r) (\<lambda>interval.
     Inr \<lparr>max_thrust = maxthrust, ramp_thrust = rampthrust, ramp_interval = interval\<rparr>)))))"

definition motor_should_arm :: "(string \<Rightarrow> nat) \<Rightarrow> (string set \<Rightarrow> string list) \<Rightarrow> string list \<Rightarrow> bool cx" where
  "motor_should_arm hash ord argv =
     cx_bind (motor_declared hash) (\<lambda>os.
     cx_bind (options_parse ord argv os) (as_bool ''arm''))"

definition adiru_ups :: "(string \<Rightarrow> nat) \<Rightarrow> (string set \<Rightarrow> string list) \<Rightarrow> string list \<Rightarrow> real cx" where
  "adiru_ups hash ord argv =
     cx_bind (adiru_declared hash) (\<lambda>os.
     cx_bind (options_parse ord argv os) (as_double ''ups''))"

section \<open>The processes\<close>

definition uncaught :: "'a cx \<Rightarrow> fault + 'a" where
  "uncaught m =
     (case m of
        Inl e \<Rightarrow> Inl (case e of Cx_not_modelled s \<Rightarrow> Not_modelled | _ \<Rightarrow> Option_error (cx_what e))
      | Inr x \<Rightarrow> Inr x)"

definition guidance_program ::
  "nat \<Rightarrow> (string \<Rightarrow> nat) \<Rightarrow> (string set \<Rightarrow> string list) \<Rightarrow> 'w kernel \<Rightarrow> string list \<Rightarrow> ('w, bool \<times> guidance) io" where
  "guidance_program fuel hash ord k argv =
     io_bind (mqtt_connect k) (\<lambda>_.
     io_bind (mqtt_subscribe k ''adiru/full'') (\<lambda>_.
     io_bind (io_lift (uncaught (guidance_params hash ord argv))) (guidance_run fuel k)))"

definition motor_program ::
  "nat \<Rightarrow> (string \<Rightarrow> nat) \<Rightarrow> (string set \<Rightarrow> string list) \<Rightarrow> 'w kernel \<Rightarrow> string list \<Rightarrow> ('w, unit) io" where
  "motor_program n hash ord k argv =
     io_bind (io_lift (uncaught (motor_should_arm hash ord argv))) (motor_main n k)"

definition adiru_program ::
  "nat \<Rightarrow> (string \<Rightarrow> nat) \<Rightarrow> (string set \<Rightarrow> string list) \<Rightarrow> 'w kernel \<Rightarrow> string list \<Rightarrow> ('w, adiru) io" where
  "adiru_program n hash ord k argv =
     io_bind (io_lift (uncaught (adiru_ups hash ord argv))) (adiru_main n k)"

section \<open>Their tables\<close>

definition own_details :: "(string \<Rightarrow> nat) \<Rightarrow> string \<Rightarrow> string list \<Rightarrow> string \<Rightarrow> string \<Rightarrow> kind \<Rightarrow> option_details" where
  "own_details hash s l desc dflt kd = option_details_new hash s l desc (default_value dflt (standard_value kd))"

lemma own_details_sel [simp]:
  "od_short (own_details hash s l desc dflt kd) = s" "od_long (own_details hash s l desc dflt kd) = l"
  "v_kind (od_value (own_details hash s l desc dflt kd)) = kd"
  "m_default (od_value (own_details hash s l desc dflt kd))"
  "m_default_value (od_value (own_details hash s l desc dflt kd)) = dflt"
  "od_hash (own_details hash s l desc dflt kd) = hash (first_or_empty l @ s)"
  "m_implicit (od_value (own_details hash s l desc dflt kd)) \<longleftrightarrow> kd = K_bool"
  "kd = K_bool \<Longrightarrow> m_implicit_value (od_value (own_details hash s l desc dflt kd)) = ''true''"
  "is_container (od_value (own_details hash s l desc dflt kd)) \<longleftrightarrow> (\<exists>k. kd = K_vector k)"
  by (auto simp: own_details_def option_details_new_def default_value_def standard_value_def is_container_def Let_def
      split: kind.splits)

definition guidance_table :: "(string \<Rightarrow> nat) \<Rightarrow> table" where
  "guidance_table hash =
     (let m = own_details hash ''m'' [''maxthrust''] ''Maximum thrust allowed'' ''0.3'' K_double;
          t = own_details hash ''t'' [''interval''] ''The interval between ramp ups'' ''5'' K_int;
          r = own_details hash ''r'' [''rampthrust''] ''The amount of thrust to ramp up by'' ''0.01'' K_double
      in [''m'' \<mapsto> m, ''maxthrust'' \<mapsto> m, ''t'' \<mapsto> t, ''interval'' \<mapsto> t, ''r'' \<mapsto> r, ''rampthrust'' \<mapsto> r])"

definition motor_table :: "(string \<Rightarrow> nat) \<Rightarrow> table" where
  "motor_table hash = [''arm'' \<mapsto> own_details hash [] [''arm''] ''Whether or not to arm the craft'' ''false'' K_bool]"

definition adiru_table :: "(string \<Rightarrow> nat) \<Rightarrow> table" where
  "adiru_table hash =
     [''ups'' \<mapsto> own_details hash [] [''ups''] ''The update rate for this unit'' ''60'' K_double,
      ''l'' \<mapsto> own_details hash ''l'' [] ''Low pass filter cutoff'' ''10'' K_double]"

lemma names_split:
  "split_option_names ''m,maxthrust'' = Inr [''m'', ''maxthrust'']"
  "split_option_names ''t,interval'' = Inr [''t'', ''interval'']"
  "split_option_names ''r,rampthrust'' = Inr [''r'', ''rampthrust'']"
  "split_option_names ''arm'' = Inr [''arm'']" "split_option_names ''ups'' = Inr [''ups'']"
  "split_option_names ''l'' = Inr [''l'']"
  by code_simp+

lemma guidance_declared_ok:
  "\<exists>os. guidance_declared hash = Inr os \<and> o_options os = guidance_table hash \<and>
     o_positional os = [''maxthrust''] \<and> \<not> o_allow_unrecognised os"
  by (simp add: guidance_declared_def option_adder_def names_split add_option_def add_one_option_def options_new_def
      parse_positional_def Let_def guidance_table_def own_details_def)

lemma motor_declared_ok:
  "\<exists>os. motor_declared hash = Inr os \<and> o_options os = motor_table hash \<and>
     o_positional os = [''ups''] \<and> \<not> o_allow_unrecognised os"
  by (simp add: motor_declared_def option_adder_def names_split add_option_def add_one_option_def options_new_def
      parse_positional_def Let_def motor_table_def own_details_def)

lemma adiru_declared_ok:
  "\<exists>os. adiru_declared hash = Inr os \<and> o_options os = adiru_table hash \<and>
     o_positional os = [''ups''] \<and> \<not> o_allow_unrecognised os"
  by (simp add: adiru_declared_def option_adder_def names_split add_option_def add_one_option_def options_new_def
      parse_positional_def Let_def adiru_table_def own_details_def)

text \<open>The defaults are readable, and with hashes that tell the options apart the tables are in order.\<close>

lemmas number_defs = stringstream_parser_def dangling_exponent_def lex_number_def frac_part_def exp_part_def
  take_sign_def is_digit_def is_space_def lower_def dec_val_def ten_pow_def

lemma default_texts:
  "stringstream_parser ''0.3'' = Inr 0.3" "stringstream_parser ''0.01'' = Inr 0.01"
  "stringstream_parser ''60'' = Inr 60" "stringstream_parser ''10'' = Inr 10" "integer_parser ''5'' = Inr 5"
proof -
  show "integer_parser ''5'' = Inr 5" by code_simp
qed (simp_all add: number_defs)

lemma own_reads:
  "reads (own_details hash s l desc dflt kd) t = parse_value kd t (initial kd)"
  by (simp add: reads_def)

lemma own_names: "names_of (own_details hash s l desc dflt kd) = (if s = [] then {} else {s}) \<union> set l"
  by (simp add: names_of_def)

lemma guidance_table_ok:
  assumes "distinct [hash ''maxthrustm'', hash ''intervalt'', hash ''rampthrustr'']"
  shows "table_ok (guidance_table hash)"
  using assms
  by (auto simp: table_ok_def guidance_table_def Let_def own_names own_reads default_texts first_or_empty_def split: if_splits)

lemma motor_table_ok: "table_ok (motor_table hash)"
  by (auto simp: table_ok_def motor_table_def own_names own_reads is_true_text_def is_false_text_def split: if_splits)

lemma adiru_table_ok:
  assumes "hash ''ups'' \<noteq> hash ''l''"
  shows "table_ok (adiru_table hash)"
  using assms
  by (auto simp: table_ok_def adiru_table_def own_names own_reads default_texts first_or_empty_def split: if_splits)

lemma double_value: "parse_value K_double t old = Inr x \<Longrightarrow> \<exists>r. x = D_double r"
  by (auto simp: cx_bind_Inr)

lemma int_value: "parse_value K_int t old = Inr x \<Longrightarrow> \<exists>i. x = D_int i"
  by (auto simp: cx_bind_Inr)

lemma bool_value: "parse_value K_bool t old = Inr x \<Longrightarrow> \<exists>b. x = D_bool b"
  by (auto split: if_splits)

lemma as_read:
  assumes "T n = Some d" "pr_get n r = Inr (slot_final d (given T d ss))"
    and "ov_as (v_kind (od_value d)) (slot_final d (given T d ss)) = Inr x"
  shows "v_kind (od_value d) = K_double \<Longrightarrow> x = D_double y \<Longrightarrow> as_double n r = Inr y"
    and "v_kind (od_value d) = K_int \<Longrightarrow> x = D_int i \<Longrightarrow> as_int n r = Inr i"
    and "v_kind (od_value d) = K_bool \<Longrightarrow> x = D_bool b \<Longrightarrow> as_bool n r = Inr b"
  using assms by (simp_all add: as_double_def as_int_def as_bool_def)

lemma read_double:
  assumes "table_ok T" "\<forall>n d. T n = Some d \<longrightarrow> pr_get n r = Inr (slot_final d (given T d ss))"
    and "T n = Some d" "readable d (given T d ss)" "m_default (od_value d)" "v_kind (od_value d) = K_double"
  shows "\<exists>y. as_double n r = Inr y \<and> stringstream_parser (last_text T n ss) = Inr y"
proof -
  obtain x where x: "reads d (last_text T n ss) = Inr x" "ov_as (v_kind (od_value d)) (slot_final d (given T d ss)) = Inr x"
    using last_text_reads [OF assms(1,4,3)] assms(5) by blast
  then obtain y where "x = D_double y" "stringstream_parser (last_text T n ss) = Inr y"
    using assms(6) by (auto simp: reads_def cx_bind_Inr)
  then show ?thesis using as_read(1) [OF assms(3) _ x(2)] assms(2,3,6) by auto
qed

lemma read_int:
  assumes "table_ok T" "\<forall>n d. T n = Some d \<longrightarrow> pr_get n r = Inr (slot_final d (given T d ss))"
    and "T n = Some d" "readable d (given T d ss)" "m_default (od_value d)" "v_kind (od_value d) = K_int"
  shows "\<exists>i. as_int n r = Inr i \<and> integer_parser (last_text T n ss) = Inr i"
proof -
  obtain x where x: "reads d (last_text T n ss) = Inr x" "ov_as (v_kind (od_value d)) (slot_final d (given T d ss)) = Inr x"
    using last_text_reads [OF assms(1,4,3)] assms(5) by blast
  then obtain i where "x = D_int i" "integer_parser (last_text T n ss) = Inr i"
    using assms(6) by (auto simp: reads_def cx_bind_Inr)
  then show ?thesis using as_read(2) [OF assms(3) _ x(2)] assms(2,3,6) by auto
qed

lemma read_bool:
  assumes "table_ok T" "\<forall>n d. T n = Some d \<longrightarrow> pr_get n r = Inr (slot_final d (given T d ss))"
    and "T n = Some d" "readable d (given T d ss)" "m_default (od_value d)" "v_kind (od_value d) = K_bool"
  shows "as_bool n r = Inr (is_true_text (last_text T n ss))"
proof -
  obtain x where x: "reads d (last_text T n ss) = Inr x" "ov_as (v_kind (od_value d)) (slot_final d (given T d ss)) = Inr x"
    using last_text_reads [OF assms(1,4,3)] assms(5) by blast
  then have "x = D_bool (is_true_text (last_text T n ss))"
    using assms(6) by (auto simp: reads_def split: if_splits)
  then show ?thesis using as_read(3) [OF assms(3) _ x(2)] assms(2,3,6) by auto
qed

lemma uncaught_Inr [simp]: "uncaught (Inr x) = Inr x"
  by (simp add: uncaught_def)

text \<open>For the witnesses: the length as hash, ascending order, and two command lines.\<close>

lemmas form_defs = long_name_def name_ok_def dotted_char_def name_char_def is_alnum_def is_digit_def lower_def line_char_def

lemma ascending_names: "finite S \<Longrightarrow> set (sorted_list_of_set S) = (S :: string set)"
  by simp

definition guidance_line :: "setting list" where
  "guidance_line = [Short_next CHR ''t'' ''5'', Long_eq ''maxthrust'' ''0.3'', Short_glued CHR ''t'' ''5'']"

lemma guidance_line_ok: "\<forall>s \<in> set guidance_line. setting_ok (guidance_table length) s"
  by (simp add: guidance_line_def setting_ok_def guidance_table_def own_reads default_texts form_defs Let_def)

lemma arm_line_ok: "\<forall>s \<in> set [Long_flag ''arm'']. setting_ok (motor_table hash) s"
  by (simp add: setting_ok_def motor_table_def own_reads form_defs is_true_text_def)

lemma rate_line_ok: "\<forall>s \<in> set [Short_next CHR ''l'' ''10'']. setting_ok (adiru_table hash) s"
  by (simp add: setting_ok_def adiru_table_def own_reads default_texts form_defs)

section \<open>What the parser promises\<close>



text \<open>
  C10: Values have the types their options were declared with. Whatever the arguments of a
  program and the order of its tables, a parse that succeeds finds every declared option again
  under each of its names, what it holds has the declared type, and asking for that type gives
  the value or says that there is none; it never fails in the cast.
\<close>

theorem values_typed:
  assumes "table_ok (o_options os)" "\<And>S. finite S \<Longrightarrow> set (ord S) = S"
    and "options_parse ord argv os = Inr r" "o_options os n = Some d"
  shows "\<exists>ov. pr_get n r = Inr ov \<and>
    (case ov_as (v_kind (od_value d)) ov of Inl e \<Rightarrow> \<exists>m. e = Option_has_no_value m | Inr x \<Rightarrow> has_kind (v_kind (od_value d)) x)"
proof -
  let ?T = "o_options os"
  have fin: "set (ord (dom ?T)) = dom ?T" using assms(1,2) by (simp add: table_ok_def)
  then have sub: "set (ord (dom ?T)) \<subseteq> dom ?T" by simp
  have "typed ?T (parser_new os)"
    by (simp add: typed_def parser_new_def p_slot_def typed_slot_def option_value0_def)
  with assms(3) obtain rem p1 p2 p3 where p: "parse_loop (tl argv) (parser_new os) = Inr (rem, p1)" "typed ?T p1"
    "default_all (ord (dom ?T)) p1 = Inr p2" "(case rem of None \<Rightarrow> Inr p2 | Some as \<Rightarrow> consume_rest as p2) = Inr p3"
    "r = \<lparr>pr_keys = p_keys (finalise (ord (dom (p_options p3))) p3), pr_values = p_parsed (finalise (ord (dom (p_options p3))) p3),
       pr_sequential = p_sequential (finalise (ord (dom (p_options p3))) p3),
       pr_defaults = p_defaults (finalise (ord (dom (p_options p3))) p3),
       pr_unmatched = p_unmatched (finalise (ord (dom (p_options p3))) p3)\<rparr>"
    by (auto simp: options_parse_def parser_parse_def finalise_aliases_def cx_bind_Inr Let_def typed_options dest: typed_loop)
  have t2: "typed ?T p2" by (rule typed_defaults [OF p(2) sub p(3)])
  then have t3: "typed ?T p3" using p(4) typed_rest [OF t2] by (auto split: option.splits)
  note o = typed_options [OF t3]
  let ?f = "finalise (ord (dom ?T)) p3"
  note f = finalise_slots [OF assms(1) o sub]
  have key: "pr_keys r n = Some (od_hash d)"
    using f assms(4) fin unfolding p(5) o by auto
  have slot: "typed_slot ?T (od_hash d) (p_slot (od_hash d) ?f)"
    using f t3 by (simp add: typed_def)
  have "p_parsed ?f (od_hash d) \<noteq> None"
    using finalise_present [OF o _ assms(4), of "ord (dom ?T)"] fin assms(4) by auto
  then have get: "pr_get n r = Inr (p_slot (od_hash d) ?f)"
    using key unfolding p(5) o by (auto simp: pr_get_def p_slot_def)
  have "v_kind v = v_kind (od_value d) \<and> has_kind (v_kind v) (m_result v)" if v: "ov_value (p_slot (od_hash d) ?f) = Some v" for v
  proof -
    obtain m e where e: "?T m = Some e" "od_hash e = od_hash d" "v_kind v = v_kind (od_value e)" "typed_value v"
      using slot v unfolding typed_slot_def by blast
    then have "d = e" using table_okD(5) [OF assms(1,4) e(1)] by simp
    then show ?thesis using e by (simp add: typed_value_def)
  qed
  then show ?thesis
    using get by (cases "ov_value (p_slot (od_hash d) ?f)") (auto simp: ov_as_def)
qed

theorem values_typed_witness:
  "\<exists>os r. guidance_declared length = Inr os \<and>
     options_parse sorted_list_of_set (''auto_com'' # concat (List.map render guidance_line)) os = Inr r \<and>
     (\<exists>ov. pr_get ''t'' r = Inr ov \<and> ov_as K_int ov \<noteq> Inl Bad_cast)"
proof -
  obtain os where os: "guidance_declared length = Inr os" "o_options os = guidance_table length" using guidance_declared_ok by blast
  have ok: "table_ok (guidance_table length)" by (rule guidance_table_ok) simp
  obtain r where r: "options_parse sorted_list_of_set (''auto_com'' # concat (List.map render guidance_line)) os = Inr r"
    using settings_result [of os sorted_list_of_set guidance_line, unfolded os(2), OF ok ascending_names guidance_line_ok] by blast
  have t: "guidance_table length ''t'' =
      Some (own_details length ''t'' [''interval''] ''The interval between ramp ups'' ''5'' K_int)"
    by (simp add: guidance_table_def Let_def)
  from values_typed [of os sorted_list_of_set, unfolded os(2), OF ok ascending_names r t, unfolded own_details_sel]
  obtain ov where "pr_get ''t'' r = Inr ov"
    "case ov_as K_int ov of Inl e \<Rightarrow> \<exists>m. e = Option_has_no_value m | Inr x \<Rightarrow> has_kind K_int x"
    by blast
  then have "pr_get ''t'' r = Inr ov \<and> ov_as K_int ov \<noteq> Inl Bad_cast" by auto
  then show ?thesis using os(1) r by blast
qed



text \<open>
  C27: Numbers on the command line. The decimal text of every 32-bit integer is read as that
  integer, and a string of digits up to 4294967295 either as its value or, from 2147483648 on,
  refused; beyond that the check for a wrapped sum misses some.
\<close>

theorem integers_read_back:
  "(int_ok i \<longrightarrow> integer_parser (fmt_d i) = Inr i) \<and>
   (list_all is_digit ds \<and> ds \<noteq> [] \<and> dec_val ds < 2 ^ 32 \<longrightarrow>
      integer_parser ds = (if dec_val ds < 2 ^ 31 then Inr (int (dec_val ds)) else Inl (Incorrect_argument_type ds))) \<and>
   integer_parser ''5000000000'' = Inr 705032704"
  using integer_of_fmt_d integer_decimal(1) wrapped_number_accepted by blast

theorem integers_read_back_witness:
  "integer_parser (fmt_d (- 2147483648)) = Inr (- 2147483648) \<and>
   integer_parser ''2147483648'' = Inl (Incorrect_argument_type ''2147483648'')"
proof -
  have d: "list_all is_digit ''2147483648''" by (simp add: is_digit_def)
  have v: "dec_val ''2147483648'' = 2147483648" by (simp add: dec_val_def)
  have i: "int_ok (- 2147483648)" by (simp add: int_ok_def)
  have "dec_val ''2147483648'' < 2 ^ 32" "\<not> dec_val ''2147483648'' < 2 ^ 31" unfolding v by simp_all
  then show ?thesis using integers_read_back [of "- 2147483648" "''2147483648''"] d i by (simp only: if_False) blast
qed

section \<open>The processes on their command lines\<close>

lemma distinct_guidance: "guidance_table hash ''maxthrust'' = Some (own_details hash ''m'' [''maxthrust''] ''Maximum thrust allowed'' ''0.3'' K_double)"
  "guidance_table hash ''interval'' = Some (own_details hash ''t'' [''interval''] ''The interval between ramp ups'' ''5'' K_int)"
  "guidance_table hash ''rampthrust'' = Some (own_details hash ''r'' [''rampthrust''] ''The amount of thrust to ramp up by'' ''0.01'' K_double)"
  by (simp_all add: guidance_table_def Let_def)

text \<open>
  The guidance process on its command line. With settings of its three options it runs
  exactly as it does with the parameters that the last text of each option reads as, 0.3, 0.01
  and 5 where an option is not set.
\<close>

theorem guidance_command_line:
  assumes "distinct [hash ''maxthrustm'', hash ''intervalt'', hash ''rampthrustr'']" "\<And>S. finite S \<Longrightarrow> set (ord S) = S"
    and "\<forall>s \<in> set ss. setting_ok (guidance_table hash) s"
  shows "\<exists>P. guidance_program fuel hash ord k (prog # concat (List.map render ss)) = guidance_main fuel k P \<and>
    stringstream_parser (last_text (guidance_table hash) ''maxthrust'' ss) = Inr (max_thrust P) \<and>
    stringstream_parser (last_text (guidance_table hash) ''rampthrust'' ss) = Inr (ramp_thrust P) \<and>
    integer_parser (last_text (guidance_table hash) ''interval'' ss) = Inr (ramp_interval P)"
proof -
  let ?T = "guidance_table hash"
  note ok = guidance_table_ok [OF assms(1)]
  obtain os where os: "guidance_declared hash = Inr os" "o_options os = ?T" using guidance_declared_ok by blast
  obtain r where r: "options_parse ord (prog # concat (List.map render ss)) os = Inr r"
    "\<forall>n d. ?T n = Some d \<longrightarrow> pr_get n r = Inr (slot_final d (given ?T d ss))"
    using settings_result [of os ord ss prog, unfolded os(2), OF ok assms(2,3)] by blast
  note read = read_double [OF ok r(2) _ given_readable [OF assms(3)]] read_int [OF ok r(2) _ given_readable [OF assms(3)]]
  obtain a b c where abc: "as_double ''maxthrust'' r = Inr a" "stringstream_parser (last_text ?T ''maxthrust'' ss) = Inr a"
    "as_double ''rampthrust'' r = Inr b" "stringstream_parser (last_text ?T ''rampthrust'' ss) = Inr b"
    "as_int ''interval'' r = Inr c" "integer_parser (last_text ?T ''interval'' ss) = Inr c"
    using read(1) [OF distinct_guidance(1)] read(1) [OF distinct_guidance(3)] read(2) [OF distinct_guidance(2)] by auto
  let ?P = "\<lparr>max_thrust = a, ramp_thrust = b, ramp_interval = c\<rparr>"
  have "guidance_params hash ord (prog # concat (List.map render ss)) = Inr ?P"
    by (simp add: guidance_params_def os(1) r(1) abc)
  then have "guidance_program fuel hash ord k (prog # concat (List.map render ss)) = guidance_main fuel k ?P"
    by (simp add: guidance_program_def guidance_main_def io_bind_def io_lift_def fun_eq_iff split: sum.splits prod.splits)
  then show ?thesis using abc by (intro exI [of _ ?P]) simp
qed

theorem guidance_command_line_witness:
  "\<exists>P. guidance_program 1 length sorted_list_of_set seesaw (''auto_com'' # concat (List.map render guidance_line)) =
      guidance_main 1 seesaw P \<and> max_thrust P = 0.3 \<and> ramp_thrust P = 0.01 \<and> ramp_interval P = 5"
proof -
  have d: "distinct [length ''maxthrustm'', length ''intervalt'', length ''rampthrustr'']" by simp
  have t: "last_text (guidance_table length) ''maxthrust'' guidance_line = ''0.3''"
    "last_text (guidance_table length) ''rampthrust'' guidance_line = ''0.01''"
    "last_text (guidance_table length) ''interval'' guidance_line = ''5''"
    by (simp_all add: last_text_def given_def guidance_line_def guidance_table_def own_details_def option_details_new_def
        default_value_def Let_def)
  from guidance_command_line [OF d ascending_names guidance_line_ok, of 1 seesaw "''auto_com''", unfolded t default_texts]
  show ?thesis by auto
qed

text \<open>
  C12: The motor controller on its command line. With settings of its option it runs as it does
  armed or not, as the last text of the option says, not armed without one. Any plain argument
  ends it with the exception on the option it names as positional and does not have, before
  anything has been asked of the system.
\<close>

theorem motor_command_line:
  assumes "\<And>S. finite S \<Longrightarrow> set (ord S) = S" "\<forall>s \<in> set ss. setting_ok (motor_table hash) s"
  shows "motor_program n hash ord k (prog # concat (List.map render ss)) =
      motor_main n k (is_true_text (last_text (motor_table hash) ''arm'' ss)) \<and>
    (take 1 a \<noteq> ''-'' \<longrightarrow> motor_program n hash ord k (prog # concat (List.map render ss) @ a # args) w =
      (Inl (Option_error (cx_what (No_such_option ''ups''))), w))"
proof -
  let ?T = "motor_table hash"
  note ok = motor_table_ok [of hash]
  obtain os where os: "motor_declared hash = Inr os" "o_options os = ?T" "o_positional os = [''ups'']"
    using motor_declared_ok by blast
  obtain q where q: "\<And>args. parse_loop (concat (List.map render ss) @ args) (parser_new os) = parse_loop args q"
    "parsed_so_far ?T ss q" "p_next q = [''ups'']"
    using settings_loop [of os ss] ok assms(2) unfolding os(2,3) by metis
  have "parse_loop (concat (List.map render ss)) (parser_new os) = Inr (None, q)" using q(1) [of "[]"] by simp
  from parse_result [of os ord, unfolded os(2), OF ok assms(1) this q(2)] obtain r where
    r: "options_parse ord (prog # concat (List.map render ss)) os = Inr r"
    "\<forall>n d. ?T n = Some d \<longrightarrow> pr_get n r = Inr (slot_final d (given ?T d ss))" by blast
  have "?T ''arm'' = Some (own_details hash [] [''arm''] ''Whether or not to arm the craft'' ''false'' K_bool)"
    by (simp add: motor_table_def)
  from read_bool [OF ok r(2) this given_readable [OF assms(2)]]
  have "motor_should_arm hash ord (prog # concat (List.map render ss)) = Inr (is_true_text (last_text ?T ''arm'' ss))"
    by (simp add: motor_should_arm_def os(1) r(1))
  moreover have "motor_should_arm hash ord (prog # concat (List.map render ss) @ a # args) = Inl (No_such_option ''ups'')"
    if "take 1 a \<noteq> ''-''"
  proof -
    have "p_options q ''ups'' = None" using q(2) by (simp add: parsed_so_far_def motor_table_def)
    from plain_refused [OF that q(3) this] q(1) [of "a # args"]
    have "options_parse ord (prog # concat (List.map render ss) @ a # args) os = Inl (No_such_option ''ups'')"
      by (intro loop_error) simp
    then show ?thesis by (simp add: motor_should_arm_def os(1))
  qed
  ultimately show ?thesis
    by (auto simp: motor_program_def io_bind_def io_lift_def uncaught_def fun_eq_iff)
qed

theorem motor_command_line_witness:
  "motor_program 0 length sorted_list_of_set sim_up [''motor'', ''--arm''] = motor_main 0 sim_up True \<and>
   motor_program 0 length sorted_list_of_set sim_up [''motor'', ''--arm'', ''50''] sim0 =
     (Inl (Option_error (cx_what (No_such_option ''ups''))), sim0)"
proof -
  have "last_text (motor_table length) ''arm'' [Long_flag ''arm''] = ''true''"
    by (simp add: last_text_def given_def motor_table_def Let_def)
  then show ?thesis
    using motor_command_line [OF ascending_names arm_line_ok, of 0 length sim_up "''motor''" "''50''" "[]" sim0]
    by (simp add: is_true_text_def)
qed

text \<open>
  The inertial unit on its command line. Its rate is the last text given to \<^verbatim>\<open>--ups\<close>, or the
  plain argument if the option is not set, 60 without either; the cut-off option is read and
  has no effect.
\<close>

theorem adiru_command_line:
  assumes "hash ''ups'' \<noteq> hash ''l''" "\<And>S. finite S \<Longrightarrow> set (ord S) = S"
    and "\<forall>s \<in> set ss. setting_ok (adiru_table hash) s"
  shows "(\<exists>ups. stringstream_parser (last_text (adiru_table hash) ''ups'' ss) = Inr ups \<and>
      adiru_program n hash ord k (prog # concat (List.map render ss)) = adiru_main n k ups) \<and>
    (take 1 a \<noteq> ''-'' \<and> (\<forall>s \<in> set ss. setting_name s \<noteq> ''ups'') \<and> stringstream_parser a = Inr u \<longrightarrow>
      adiru_program n hash ord k (prog # concat (List.map render ss) @ [a]) = adiru_main n k u)"
proof -
  let ?T = "adiru_table hash"
  note ok = adiru_table_ok [OF assms(1)]
  let ?u = "own_details hash [] [''ups''] ''The update rate for this unit'' ''60'' K_double"
  have u: "?T ''ups'' = Some ?u" by (simp add: adiru_table_def)
  obtain os where os: "adiru_declared hash = Inr os" "o_options os = ?T" "o_positional os = [''ups'']"
    using adiru_declared_ok by blast
  obtain q where q: "\<And>args. parse_loop (concat (List.map render ss) @ args) (parser_new os) = parse_loop args q"
    "parsed_so_far ?T ss q" "p_next q = [''ups'']"
    using settings_loop [of os ss] ok assms(3) unfolding os(2,3) by metis
  have run: "\<exists>x. stringstream_parser (last_text ?T ''ups'' xs) = Inr x \<and> adiru_program n hash ord k (prog # args) = adiru_main n k x"
    if l: "parse_loop args (parser_new os) = Inr (None, q')" "parsed_so_far ?T xs q'" and d: "readable ?u (given ?T ?u xs)"
    for args q' xs
  proof -
    from parse_result [of os ord, unfolded os(2), OF ok assms(2) l] obtain r where
      r: "options_parse ord (prog # args) os = Inr r" "\<forall>n d. ?T n = Some d \<longrightarrow> pr_get n r = Inr (slot_final d (given ?T d xs))"
      by blast
    have "\<exists>y. as_double ''ups'' r = Inr y \<and> stringstream_parser (last_text ?T ''ups'' xs) = Inr y"
      using d by (intro read_double [OF ok r(2) u]) simp_all
    then show ?thesis
      by (auto simp: adiru_program_def adiru_ups_def os(1) r(1) io_bind_def io_lift_def fun_eq_iff)
  qed
  have "\<exists>x. stringstream_parser (last_text ?T ''ups'' ss) = Inr x \<and>
      adiru_program n hash ord k (prog # concat (List.map render ss)) = adiru_main n k x"
    using q(1) [of "[]"] by (intro run [OF _ q(2) given_readable [OF assms(3)]]) simp
  moreover have "adiru_program n hash ord k (prog # concat (List.map render ss) @ [a]) = adiru_main n k u"
    if a: "take 1 a \<noteq> ''-''" and none: "\<forall>s \<in> set ss. setting_name s \<noteq> ''ups''" and x: "stringstream_parser a = Inr u"
  proof -
    have only: "m = ''ups''" if "?T m = Some ?u" for m
      using that assms(1) by (auto simp: adiru_table_def own_details_def option_details_new_def split: if_splits)
    have g: "given ?T ?u ss = []" using none only by (auto simp: given_def filter_empty_conv)
    obtain q' where q': "parse_loop [a] q = Inr (None, q')" "parsed_so_far ?T (ss @ [Long_eq ''ups'' a]) q'"
      using plain_taken [OF ok q(2) a q(3) u g] x by (auto simp: own_reads)
    have l: "parse_loop (concat (List.map render ss) @ [a]) (parser_new os) = Inr (None, q')" using q(1) q'(1) by simp
    have "readable ?u (given ?T ?u (ss @ [Long_eq ''ups'' a]))" using g x by (simp add: given_snoc u readable_def own_reads)
    note run [OF l q'(2) this]
    moreover have "last_text ?T ''ups'' (ss @ [Long_eq ''ups'' a]) = a"
      by (simp add: last_text_def u given_snoc Let_def)
    ultimately show ?thesis using x by auto
  qed
  ultimately show ?thesis by blast
qed

theorem adiru_command_line_witness:
  "adiru_program 0 length sorted_list_of_set sim_up [''adiru'', ''-l'', ''10''] = adiru_main 0 sim_up 60 \<and>
   adiru_program 0 length sorted_list_of_set sim_up [''adiru'', ''-l'', ''10'', ''10''] = adiru_main 0 sim_up 10"
proof -
  have "last_text (adiru_table length) ''ups'' [Short_next CHR ''l'' ''10''] = ''60''"
    by (simp add: last_text_def given_def adiru_table_def own_details_def option_details_new_def default_value_def Let_def)
  moreover have "length ''ups'' \<noteq> length ''l''" by simp
  ultimately show ?thesis
    using adiru_command_line [OF _ ascending_names rate_line_ok, of length 0 sim_up "''adiru''" "''10''" 10]
    by (auto simp: default_texts)
qed

end
