(* ===== verification/CxxHelp.thy ===== *)
theory CxxHelp
  imports Cxxopts "HOL-Library.List_Lexorder" "HOL-Library.Char_ord"
begin

text \<open>
  The help text of \<^verbatim>\<open>src/include/extern/cxxopts.hpp\<close>: the left column of an option, its description
  broken into lines, and the groups put together. The iterators of the line breaker are
  positions in the description, and its loop takes fuel, of which the square of the length is
  enough.
\<close>

definition OPTION_LONGEST :: nat where "OPTION_LONGEST = 30"

definition OPTION_DESC_GAP :: nat where "OPTION_DESC_GAP = 2"

definition format_option :: "help_option \<Rightarrow> string" where
  "format_option h =
     (let s = ho_s h; l = first_or_empty (ho_l h);
          arg = (if ho_arg_help h \<noteq> [] then ho_arg_help h else ''arg'')
      in ''  '' @ (if s \<noteq> [] then ''-'' @ s @ (if l \<noteq> [] then '','' else []) else ''   '') @
         (if l \<noteq> [] then '' --'' @ l else []) @
         (if ho_is_boolean h then []
          else if ho_has_implicit h then '' [='' @ arg @ ''(='' @ ho_implicit_value h @ '')]''
          else '' '' @ arg))"

section \<open>Breaking lines\<close>

fun expand_tabs :: "nat \<Rightarrow> string \<Rightarrow> string" where
  "expand_tabs col [] = []"
| "expand_tabs col (c # cs) =
     (if c = CHR 0x0A then c # expand_tabs 0 cs
      else if c = CHR 0x09
      then (let skip = 8 - col mod 8 in replicate skip CHR '' '' @ expand_tabs (col + skip) cs)
      else c # expand_tabs (col + 1) cs)"

record wrap_state =
  w_current :: nat
  w_previous :: nat
  w_start :: nat
  w_space :: nat
  w_size :: nat
  w_white :: bool
  w_result :: string

definition w_blank :: "char \<Rightarrow> bool" where "w_blank c \<longleftrightarrow> c = CHR '' '' \<or> c = CHR 0x09"

definition text_between :: "nat \<Rightarrow> nat \<Rightarrow> string \<Rightarrow> string" where
  "text_between i j s = take (j - i) (drop i s)"

definition wrap_look :: "string \<Rightarrow> wrap_state \<Rightarrow> wrap_state" where
  "wrap_look desc s =
     (let s = (if w_blank (desc ! w_previous s) then s\<lparr>w_space := w_current s\<rparr> else s)
      in if \<not> w_blank (desc ! w_current s) then s\<lparr>w_white := False\<rparr> else s)"

text \<open>The line breaks of the description itself, and whether there were any.\<close>

definition wrap_newlines :: "string \<Rightarrow> wrap_state \<Rightarrow> bool \<times> wrap_state" where
  "wrap_newlines desc s =
     (let k = length (takeWhile (\<lambda>c. c = CHR 0x0A) (drop (w_current s) desc))
      in if k = 0 then (False, s)
         else (True, s\<lparr>w_previous := w_current s + k - 1, w_current := w_current s + k\<rparr>))"

definition wrap_full :: "nat \<Rightarrow> bool \<times> wrap_state \<Rightarrow> bool \<times> wrap_state" where
  "wrap_full allowed = (\<lambda>(append, s).
     if \<not> append \<and> w_size s \<ge> allowed
     then (True, if w_space s \<noteq> w_start s then s\<lparr>w_current := w_space s, w_previous := w_space s\<rparr> else s)
     else (append, s))"

definition wrap_line :: "nat \<Rightarrow> string \<Rightarrow> bool \<times> wrap_state \<Rightarrow> wrap_state" where
  "wrap_line start desc = (\<lambda>(append, s).
     if append then
       (let r = w_result s @ text_between (w_start s) (w_current s) desc;
            s = s\<lparr>w_start := w_current s, w_space := w_current s\<rparr>;
            r = (if desc ! w_previous s \<noteq> CHR 0x0A then r @ [CHR 0x0A] else r);
            r = r @ replicate start CHR '' '';
            r = (if desc ! w_previous s \<noteq> CHR 0x0A then r @ text_between (w_space s) (w_current s) desc else r)
        in s\<lparr>w_result := r, w_white := True, w_size := 0\<rparr>)
     else s)"

definition wrap_step :: "nat \<Rightarrow> nat \<Rightarrow> string \<Rightarrow> wrap_state \<Rightarrow> wrap_state" where
  "wrap_step start allowed desc s =
     (let s = wrap_line start desc (wrap_full allowed (wrap_newlines desc (wrap_look desc s)))
      in s\<lparr>w_previous := w_current s, w_current := w_current s + 1, w_size := w_size s + 1\<rparr>)"

primrec wrap_loop :: "nat \<Rightarrow> nat \<Rightarrow> nat \<Rightarrow> string \<Rightarrow> wrap_state \<Rightarrow> wrap_state option" where
  "wrap_loop 0 start allowed desc s = None"
| "wrap_loop (Suc n) start allowed desc s =
     (if w_current s = length desc then Some s else wrap_loop n start allowed desc (wrap_step start allowed desc s))"

definition wrap_begin :: wrap_state where
  "wrap_begin = \<lparr>w_current = 0, w_previous = 0, w_start = 0, w_space = 0, w_size = 0, w_white = True, w_result = []\<rparr>"

definition wrap_fuel :: "string \<Rightarrow> nat" where
  "wrap_fuel desc = (length desc + 2) * (length desc + 2)"

definition full_description :: "bool \<Rightarrow> help_option \<Rightarrow> string" where
  "full_description tabs h =
     (let desc = ho_desc h @
          (if ho_has_default h \<and> (\<not> ho_is_boolean h \<or> ho_default_value h \<noteq> ''false'')
           then (if ho_default_value h \<noteq> [] then '' (default: '' @ ho_default_value h @ '')''
                 else '' (default: '' @ [CHR 0x22, CHR 0x22] @ '')'')
           else [])
      in (if tabs then expand_tabs 0 desc else desc) @ '' '')"

definition format_description :: "help_option \<Rightarrow> nat \<Rightarrow> nat \<Rightarrow> bool \<Rightarrow> string option" where
  "format_description h start allowed tabs =
     (let desc = full_description tabs h
      in map_option (\<lambda>s. w_result s @ (if \<not> w_white s then text_between (w_start s) (w_previous s) desc else []))
           (wrap_loop (wrap_fuel desc) start allowed desc wrap_begin))"

section \<open>The groups\<close>

definition option_shown :: "options \<Rightarrow> help_option \<Rightarrow> bool" where
  "option_shown os h \<longleftrightarrow> \<not> (ho_l h \<noteq> [] \<and> hd (ho_l h) \<in> o_positional_set os \<and> \<not> o_show_positional os)"

definition help_line :: "options \<Rightarrow> nat \<Rightarrow> nat \<Rightarrow> help_option \<Rightarrow> string option" where
  "help_line os longest allowed h =
     map_option (\<lambda>d.
       let f = format_option h
       in f @ (if longest < length f then [CHR 0x0A] @ replicate (longest + OPTION_DESC_GAP) CHR '' ''
               else replicate (longest + OPTION_DESC_GAP - length f) CHR '' '') @ d @ [CHR 0x0A])
       (format_description h (longest + OPTION_DESC_GAP) allowed (o_tab_expansion os))"

primrec opt_concat :: "string option list \<Rightarrow> string option" where
  "opt_concat [] = Some []"
| "opt_concat (x # xs) = (case x of None \<Rightarrow> None | Some s \<Rightarrow> map_option (\<lambda>r. s @ r) (opt_concat xs))"

definition help_one_group :: "string \<Rightarrow> options \<Rightarrow> string option" where
  "help_one_group g os =
     (case o_help os g of
        None \<Rightarrow> Some []
      | Some grp \<Rightarrow>
          (let hs = List.filter (option_shown os) (hg_options grp);
               longest = min (fold max (List.map (\<lambda>h. length (format_option h)) hs) 0) OPTION_LONGEST;
               allowed = (if 10 + longest + OPTION_DESC_GAP < o_width os then o_width os - longest - OPTION_DESC_GAP else 10)
           in map_option (\<lambda>r. (if g \<noteq> [] then '' '' @ g @ '' options:'' @ [CHR 0x0A] else []) @ r)
                (opt_concat (List.map (help_line os longest allowed) hs))))"

primrec generate_group_help :: "string list \<Rightarrow> options \<Rightarrow> string \<Rightarrow> string option" where
  "generate_group_help [] os result = Some result"
| "generate_group_help (g # gs) os result =
     (case help_one_group g os of
        None \<Rightarrow> None
      | Some t \<Rightarrow>
          if t = [] then generate_group_help gs os result
          else generate_group_help gs os (result @ t @ (if gs \<noteq> [] then [CHR 0x0A] else [])))"

definition help_groups :: "options \<Rightarrow> string list" where
  "help_groups os = sorted_list_of_set (dom (o_help os))"

definition help_text :: "string list \<Rightarrow> bool \<Rightarrow> options \<Rightarrow> string option" where
  "help_text groups print_usage os =
     (let result = o_help_string os @
            (if print_usage then [CHR 0x0A] @ ''Usage:'' @ [CHR 0x0A] @ ''  '' @ o_program os else []) @
            (if o_custom_help os \<noteq> [] then '' '' @ o_custom_help os else []) @
            (if o_positional os \<noteq> [] \<and> o_positional_help os \<noteq> [] then '' '' @ o_positional_help os else []) @
            [CHR 0x0A, CHR 0x0A]
      in generate_group_help (if groups = [] then help_groups os else groups) os result)"

section \<open>The line breaker ends\<close>

definition wrap_ok :: "string \<Rightarrow> wrap_state \<Rightarrow> bool" where
  "wrap_ok desc s \<longleftrightarrow> w_start s \<le> w_space s \<and> w_space s \<le> w_current s \<and> w_current s \<le> length desc"

definition wrap_left :: "string \<Rightarrow> wrap_state \<Rightarrow> nat" where
  "wrap_left desc s = (length desc - w_start s) * (length desc + 2) + (length desc - w_current s)"

lemma wrap_left_less:
  assumes "w_start s < w_start t" "w_start s < length desc"
  shows "wrap_left desc t < wrap_left desc s"
proof -
  let ?n = "length desc"
  have "?n - w_start t + 1 \<le> ?n - w_start s" using assms by linarith
  then have "(?n - w_start t + 1) * (?n + 2) \<le> (?n - w_start s) * (?n + 2)" by (rule mult_le_mono1)
  then show ?thesis unfolding wrap_left_def by (simp add: algebra_simps)
qed

lemma newline_run:
  assumes "i < length desc" "last desc \<noteq> CHR 0x0A"
  shows "i + length (takeWhile (\<lambda>c. c = CHR 0x0A) (drop i desc)) < length desc"
proof -
  have "takeWhile (\<lambda>c. c = CHR 0x0A) (drop i desc) \<noteq> drop i desc"
  proof
    assume a: "takeWhile (\<lambda>c. c = CHR 0x0A) (drop i desc) = drop i desc"
    have "last (drop i desc) \<in> set (takeWhile (\<lambda>c. c = CHR 0x0A) (drop i desc))"
      unfolding a using assms(1) by (intro last_in_set) simp
    then show False using assms set_takeWhileD by fastforce
  qed
  then have "length (takeWhile (\<lambda>c. c = CHR 0x0A) (drop i desc)) < length (drop i desc)"
    by (metis length_takeWhile_le nat_less_le takeWhile_eq_take take_all_iff)
  then show ?thesis by simp
qed

lemma wrap_step_progress:
  assumes "wrap_ok desc s" "w_current s < length desc" "last desc \<noteq> CHR 0x0A"
  shows "wrap_ok desc (wrap_step start allowed desc s) \<and>
    wrap_left desc (wrap_step start allowed desc s) < wrap_left desc s"
proof -
  define t where "t = wrap_look desc s"
  have t: "wrap_ok desc t" "w_current t = w_current s" "w_start t = w_start s"
    using assms(1) by (auto simp: t_def wrap_look_def wrap_ok_def Let_def)
  obtain b u where bu: "wrap_full allowed (wrap_newlines desc t) = (b, u)" by fastforce
  define k where "k = length (takeWhile (\<lambda>c. c = CHR 0x0A) (drop (w_current t) desc))"
  have run: "w_current t + k < length desc"
    using newline_run [of "w_current t" desc] assms(2,3) t(2) by (simp add: k_def)
  have u: "wrap_ok desc u" "w_start u = w_start s" "w_current u < length desc"
    "b \<and> w_start s < w_current u \<or> w_current u = w_current s"
    using bu t run assms(2) unfolding wrap_newlines_def k_def [symmetric]
    by (auto simp: wrap_full_def wrap_ok_def Let_def split: if_splits)
  define v where "v = wrap_line start desc (b, u)"
  have v: "w_current v = w_current u" "w_start v = (if b then w_current u else w_start u)"
    "w_space v = (if b then w_current u else w_space u)"
    by (simp_all add: v_def wrap_line_def Let_def)
  have step: "wrap_step start allowed desc s = v\<lparr>w_previous := w_current v, w_current := w_current v + 1, w_size := w_size v + 1\<rparr>"
    by (simp add: wrap_step_def v_def bu [symmetric] t_def Let_def)
  have ok: "wrap_ok desc (wrap_step start allowed desc s)"
    using u unfolding step by (auto simp: wrap_ok_def v)
  show ?thesis
  proof (cases "b \<and> w_start s < w_current u")
    case True
    then have "w_start s < w_start (wrap_step start allowed desc s)" by (simp add: step v)
    moreover have "w_start s < length desc" using True u(3) by linarith
    ultimately show ?thesis using ok wrap_left_less by blast
  next
    case False
    then have c: "w_current u = w_current s" using u(4) by blast
    have "w_start s \<le> w_current s" using assms(1) by (simp add: wrap_ok_def)
    then have "w_start (wrap_step start allowed desc s) = w_start s"
      using False c u(2) by (auto simp: step v)
    then show ?thesis
      using ok c assms(2) by (simp add: wrap_left_def step v)
  qed
qed

lemma wrap_loop_ends:
  assumes "wrap_ok desc s" "last desc \<noteq> CHR 0x0A" "wrap_left desc s < n"
  shows "\<exists>t. wrap_loop n start allowed desc s = Some t"
  using assms(1,3)
proof (induction n arbitrary: s)
  case (Suc n)
  show ?case
  proof (cases "w_current s = length desc")
    case False
    then have "w_current s < length desc" using Suc.prems(1) by (simp add: wrap_ok_def)
    from wrap_step_progress [OF Suc.prems(1) this assms(2)] Suc.prems(2) Suc.IH show ?thesis
      using False by (metis (no_types, lifting) less_trans_Suc not_less_eq wrap_loop.simps(2))
  qed simp
qed simp

lemma description_formatted: "\<exists>t. format_description h start allowed tabs = Some t"
proof -
  let ?d = "full_description tabs h"
  have "last ?d \<noteq> CHR 0x0A" by (simp add: full_description_def Let_def)
  moreover have "wrap_ok ?d wrap_begin" by (simp add: wrap_ok_def wrap_begin_def)
  moreover have "wrap_left ?d wrap_begin < wrap_fuel ?d" by (simp add: wrap_left_def wrap_begin_def wrap_fuel_def)
  ultimately show ?thesis
    using wrap_loop_ends [of ?d wrap_begin "wrap_fuel ?d" start allowed] by (auto simp: format_description_def Let_def)
qed

lemma opt_concat_Some: "\<forall>x \<in> set xs. x \<noteq> None \<Longrightarrow> opt_concat xs \<noteq> None"
  by (induction xs) auto

lemma help_group_written: "help_one_group g os \<noteq> None"
proof -
  have "help_line os longest allowed h \<noteq> None" for longest allowed h
    using description_formatted [of h] by (simp add: help_line_def)
  then have "opt_concat (List.map (help_line os longest allowed) hs) \<noteq> None" for longest allowed hs
    by (intro opt_concat_Some) simp
  then show ?thesis by (auto simp: help_one_group_def Let_def split: option.splits)
qed

text \<open>
  C28: The help text of any options, in any width, is finished: the line breaker, which goes
  back to the last blank when a line is full, always gets on, with the square of the length of
  a description as bound on its steps.
\<close>

theorem help_always_written: "\<exists>t. help_text groups print_usage os = Some t"
proof -
  have "\<exists>t. generate_group_help gs os r = Some t" for gs r
    using help_group_written by (induction gs arbitrary: r) (auto split: option.splits)
  then show ?thesis by (simp add: help_text_def Let_def)
qed

text \<open>A last word of one letter that would start a new line is lost.\<close>

lemma last_letter_lost:
  "format_description \<lparr>ho_s = [], ho_l = [], ho_desc = ''plan b'', ho_has_default = False, ho_default_value = [],
     ho_has_implicit = False, ho_implicit_value = [], ho_arg_help = [], ho_is_container = False, ho_is_boolean = False\<rparr>
     2 5 False = Some (''plan '' @ [CHR 0x0A] @ ''  '')"
  by code_simp

end
