(* ===== verification/FmtIntegers.thy ===== *)
theory FmtIntegers
  imports FmtWrite
begin

text \<open>
  What the integer writers of the formatting library put out: the sign, the base prefix, zeros and
  digits whose value is the absolute value of the argument, padded to the width, with as many
  characters reserved as are written.
\<close>

section \<open>The prefix word\<close>

definition sign_text :: "bool \<Rightarrow> fmt_sign \<Rightarrow> string" where
  "sign_text neg s =
     (if neg then ''-'' else case s of Sign_plus \<Rightarrow> ''+'' | Sign_space \<Rightarrow> '' '' | _ \<Rightarrow> [])"

lemma prefix_chars_0 [simp]: "prefix_chars 0 = []"
  by (simp add: prefix_chars.simps)

lemma prefix_chars_numeral [simp]:
  "prefix_chars (numeral n) = char_of ((numeral n :: nat) mod 256) # prefix_chars (numeral n div 256)"
  by (subst prefix_chars.simps) simp

lemma char_of_prefix [simp]:
  "char_of (45 :: nat) = CHR ''-''" "char_of (43 :: nat) = CHR ''+''" "char_of (32 :: nat) = CHR '' ''"
  "char_of (48 :: nat) = CHR ''0''" "char_of (120 :: nat) = CHR ''x''" "char_of (88 :: nat) = CHR ''X''"
  "char_of (98 :: nat) = CHR ''b''" "char_of (66 :: nat) = CHR ''B''"
  by code_simp+

lemma sign_prefix_text:
  "prefix_text (sign_prefix neg s) = sign_text neg s \<and> prefix_size (sign_prefix neg s) = length (sign_text neg s)"
  by (cases neg; cases s) (simp_all add: prefix_text_def prefix_size_def sign_prefix_def sign_text_def drop_bit_eq_div)

lemma base_prefix_text:
  assumes "c \<in> {0x78, 0x58, 0x62, 0x42}"
  shows "prefix_text (prefix_append (sign_prefix neg s) (push_bit 8 c OR 0x30)) = sign_text neg s @ [CHR ''0'', char_of (unat c)] \<and>
     prefix_size (prefix_append (sign_prefix neg s) (push_bit 8 c OR 0x30)) = length (sign_text neg s) + 2"
  using assms
  by (elim insertE emptyE; cases neg; cases s)
    (simp_all add: prefix_text_def prefix_size_def prefix_append_def sign_prefix_def sign_text_def drop_bit_eq_div)

lemma octal_prefix_text:
  "prefix_text (prefix_append (sign_prefix neg s) 0x30) = sign_text neg s @ ''0'' \<and>
   prefix_size (prefix_append (sign_prefix neg s) 0x30) = length (sign_text neg s) + 1"
  by (cases neg; cases s)
    (simp_all add: prefix_text_def prefix_size_def prefix_append_def sign_prefix_def sign_text_def drop_bit_eq_div)

section \<open>Integers as they should be written\<close>

definition int_presentation :: "presentation \<Rightarrow> bool" where
  "int_presentation t \<longleftrightarrow> t \<in> {P_none, P_dec, P_hex_lower, P_hex_upper, P_bin_lower, P_bin_upper, P_oct}"

definition int_digits :: "presentation \<Rightarrow> nat \<Rightarrow> string" where
  "int_digits t v =
     (case t of P_hex_lower \<Rightarrow> show_base 4 False v | P_hex_upper \<Rightarrow> show_base 4 True v
      | P_bin_lower \<Rightarrow> show_base 1 False v | P_bin_upper \<Rightarrow> show_base 1 False v
      | P_oct \<Rightarrow> show_base 3 False v | _ \<Rightarrow> show_nat v)"

definition digits_value :: "presentation \<Rightarrow> string \<Rightarrow> nat" where
  "digits_value t ds =
     (case t of P_hex_lower \<Rightarrow> base_val 4 (map digit_value ds) | P_hex_upper \<Rightarrow> base_val 4 (map digit_value ds)
      | P_bin_lower \<Rightarrow> base_val 1 (map digit_value ds) | P_bin_upper \<Rightarrow> base_val 1 (map digit_value ds)
      | P_oct \<Rightarrow> base_val 3 (map digit_value ds) | _ \<Rightarrow> dec_val ds)"

definition alt_text :: "'a fmt_specs_scheme \<Rightarrow> nat \<Rightarrow> string" where
  "alt_text specs v =
     (if \<not> sp_alt specs then []
      else case sp_type specs of P_hex_lower \<Rightarrow> ''0x'' | P_hex_upper \<Rightarrow> ''0X'' | P_bin_lower \<Rightarrow> ''0b''
        | P_bin_upper \<Rightarrow> ''0B''
        | P_oct \<Rightarrow> if sp_precision specs \<le> int (length (show_base 3 False v)) \<and> v \<noteq> 0 then ''0'' else []
        | _ \<Rightarrow> [])"

definition int_zeros :: "'a fmt_specs_scheme \<Rightarrow> nat \<Rightarrow> nat \<Rightarrow> nat" where
  "int_zeros specs front digits =
     (if sp_align specs = Align_numeric then nat (sp_width specs) - (front + digits)
      else nat (sp_precision specs) - digits)"

definition int_body :: "'a fmt_specs_scheme \<Rightarrow> bool \<Rightarrow> nat \<Rightarrow> string" where
  "int_body specs neg v =
     (let front = sign_text neg (sp_sign specs) @ alt_text specs v; ds = int_digits (sp_type specs) v
      in front @ replicate (int_zeros specs (length front) (length ds)) (CHR ''0'') @ ds)"

lemma digits_value_digits: "digits_value t (int_digits t v) = v"
  by (cases t) (simp_all add: digits_value_def int_digits_def base_val_show)

lemma uint_bits: "uint_nat x < 2 ^ num_bits x"
proof (cases x)
  case (U32 n) then show ?thesis using unsigned_less [of n] by simp
next
  case (U64 n) then show ?thesis using unsigned_less [of n] by simp
next
  case (U128 n) then show ?thesis using unsigned_less [of n] by simp
qed

lemma decimal_text_digits: "decimal_text x (count_digits x) = Some (show_nat (uint_nat x))"
proof -
  have "uint_nat x < 10 ^ Suc (digits10 x)" using uint_bits [of x] by (cases x) simp_all
  then have "count_digits x \<le> digits10 x + 1"
    using digits_le_iff [of "uint_nat x" "digits10 x"] by (simp add: count_digits_decimal)
  then show ?thesis by (simp add: decimal_text_def format_decimal_text count_digits_decimal)
qed

lemma show_base_fits:
  assumes "0 < b" "v < 2 ^ w"
  shows "length (show_base b u v) \<le> w div b + 1"
proof (cases "v = 0")
  case True
  then show ?thesis by (subst length_show_base) simp
next
  case False
  then have "2 ^ (bit_length v - 1) \<le> v \<and> v < 2 ^ Suc (bit_length v - 1)"
    using bit_length_bounds [of v] by simp
  then have "length (show_base b u v) = (bit_length v - 1) div b + 1"
    using length_show_base_bits [OF assms(1)] by simp
  moreover have "bit_length v - 1 \<le> w" using bit_length_le [OF assms(2)] by simp
  ultimately show ?thesis by (simp add: div_le_mono)
qed

lemma base_text_digits:
  "0 < b \<Longrightarrow> base_text b x (count_digits_base b x) u = Some (show_base b u (uint_nat x))"
proof -
  assume b: "0 < b"
  have n: "count_digits_base b x = length (show_base b u (uint_nat x))" by (rule count_digits_base [OF b])
  then have "count_digits_base b x \<le> num_bits x div b + 1"
    using show_base_fits [OF b uint_bits] by simp
  then show ?thesis using format_uint_text [OF b refl, of x _ u] by (simp add: base_text_def n)
qed

lemma decimal_text_length [simp]: "decimal_text x (length (show_nat (uint_nat x))) = Some (show_nat (uint_nat x))"
  using decimal_text_digits [of x] by (simp add: count_digits_decimal)

lemma base_text_length:
  "0 < b \<Longrightarrow> n = length (show_base b u (uint_nat x)) \<Longrightarrow> base_text b x n u = Some (show_base b u (uint_nat x))"
  using base_text_digits [of b x u] count_digits_base [of b x u] by simp

lemma prefix_text_0 [simp]: "prefix_text 0 = []" "prefix_size 0 = 0"
  by (simp_all add: prefix_text_def prefix_size_def)

lemma write_int_digits_padded:
  assumes "0 \<le> sp_width specs" "-1 \<le> sp_precision specs" "prefix_size p = length (prefix_text p)" "n = length ds"
  defines "body \<equiv> prefix_text p @ replicate (int_zeros specs (length (prefix_text p)) n) (CHR ''0'') @ ds"
  shows "write_int_digits n p specs ds = write_padded Align_right specs (length body) (length body) body"
proof (cases "sp_width specs OR (sp_precision specs + 1) = 0")
  case True
  then have w: "sp_width specs = 0" "sp_precision specs = -1" by (simp_all add: or_eq_0_iff)
  have "length (prefix_text p) + n = length body" using w by (simp add: body_def assms(4) int_zeros_def)
  moreover have "body = prefix_text p @ ds" using w by (simp add: body_def int_zeros_def)
  ultimately show ?thesis using w assms(3)
    by (cases "p = 0") (simp_all add: write_int_digits_def write_padded_def Let_def fill_text_def)
next
  case False
  have d: "write_int_data n p specs = (length body, int_zeros specs (length (prefix_text p)) n)"
    using assms(1,2) by (auto simp: write_int_data_def int_zeros_def body_def assms(3,4) Let_def)
  then show ?thesis using False by (simp add: write_int_digits_def d body_def)
qed

lemma write_int_value_body:
  fixes specs :: "'a fmt_specs_scheme" and x :: fmt_uint
  defines "p0 \<equiv> \<lambda>neg. sign_prefix neg (sp_sign specs)"
  assumes "int_presentation (sp_type specs)" "0 \<le> sp_width specs" "-1 \<le> sp_precision specs"
  shows "write_int_value x (p0 neg) specs =
    Inr (write_padded Align_right specs (length (int_body specs neg (uint_nat x)))
      (length (int_body specs neg (uint_nat x))) (int_body specs neg (uint_nat x)))"
proof -
  have b: "write_int_digits n p specs ds =
      write_padded Align_right specs (length (int_body specs neg (uint_nat x)))
        (length (int_body specs neg (uint_nat x))) (int_body specs neg (uint_nat x))"
    if "prefix_text p = sign_text neg (sp_sign specs) @ alt_text specs (uint_nat x)"
      "prefix_size p = length (prefix_text p)" "ds = int_digits (sp_type specs) (uint_nat x)" "n = length ds" for p ds n
    using write_int_digits_padded [OF assms(3,4) that(2,4)] that by (simp add: int_body_def Let_def)
  note t = sign_prefix_text [of neg "sp_sign specs"] octal_prefix_text [of neg "sp_sign specs"]
    base_prefix_text [of "0x78" neg "sp_sign specs"] base_prefix_text [of "0x58" neg "sp_sign specs"]
    base_prefix_text [of "0x62" neg "sp_sign specs"] base_prefix_text [of "0x42" neg "sp_sign specs"]
  show ?thesis
    using assms(2) t
    by (cases "sp_type specs")
      (auto simp: write_int_value_def p0_def Let_def int_presentation_def from_option_def decimal_text_digits
        base_text_digits base_text_length count_digits_decimal alt_text_def int_digits_def count_digits_base [where b = 3 and u = False] intro!: b count_digits_base)
qed

section \<open>Width\<close>

lemma length_fill: "length (fill_text n f) = n * length f"
  by (auto simp: fill_text_def length_concat sum_list_replicate)

lemma write_padded_length:
  "length (snd (write_padded a specs sz w t)) =
     length t + (nat (sp_width specs) - w) * length (sp_fill specs)"
proof -
  have "drop_bit k p \<le> p" for k p :: nat by (simp add: drop_bit_eq_div)
  then show ?thesis
    by (simp add: write_padded_def Let_def length_fill flip: add_mult_distrib)
qed

lemma write_padded_reserved:
  "sz = length t \<Longrightarrow> fst (write_padded a specs sz w t) = length (snd (write_padded a specs sz w t))"
  by (subst write_padded_length) (simp add: write_padded_def Let_def)

lemma write_padded_parts:
  obtains l r where "snd (write_padded a specs sz w t) = fill_text l (sp_fill specs) @ t @ fill_text r (sp_fill specs)"
  using that by (auto simp: write_padded_def Let_def)

text \<open>How much of the padding stands left of a text that is aligned right by default.\<close>

definition left_share :: "fmt_align \<Rightarrow> nat \<Rightarrow> nat" where
  "left_share a n = (case a of Align_left \<Rightarrow> 0 | Align_center \<Rightarrow> n div 2 | _ \<Rightarrow> n)"

lemma write_padded_right:
  assumes "sp_width specs < 2 ^ 31"
  shows "write_padded Align_right specs (length t) (length t) t =
    (let pad = nat (sp_width specs) - length t; l = left_share (sp_align specs) pad;
         u = fill_text l (sp_fill specs) @ t @ fill_text (pad - l) (sp_fill specs)
     in (length u, u))"
proof -
  define pad where "pad = nat (sp_width specs) - length t"
  have p: "(if length t < nat (sp_width specs) then nat (sp_width specs) - length t else 0) = pad" by (simp add: pad_def)
  have "pad < 2 ^ 31" using assms by (simp add: pad_def)
  then have "drop_bit 31 pad = 0" "drop_bit 1 pad = pad div 2" by (simp_all add: drop_bit_eq_div)
  then have l: "drop_bit (padding_shifts Align_right ! align_code (sp_align specs)) pad = left_share (sp_align specs) pad"
    by (cases "sp_align specs") (simp_all add: padding_shifts_def left_share_def)
  have "left_share (sp_align specs) pad \<le> pad" by (cases "sp_align specs") (simp_all add: left_share_def)
  then have "left_share (sp_align specs) pad * k + (pad - left_share (sp_align specs) pad) * k = pad * k" for k
    by (simp flip: add_mult_distrib)
  then show ?thesis
    unfolding write_padded_def Let_def p l by (simp add: length_fill pad_def)
qed

section \<open>Numerals\<close>

text \<open>The digits of a presentation.\<close>

definition digit_chars :: "presentation \<Rightarrow> string" where
  "digit_chars t =
     (case t of P_hex_lower \<Rightarrow> ''0123456789abcdef'' | P_hex_upper \<Rightarrow> ''0123456789ABCDEF''
      | P_bin_lower \<Rightarrow> ''01'' | P_bin_upper \<Rightarrow> ''01'' | P_oct \<Rightarrow> ''01234567'' | _ \<Rightarrow> ''0123456789'')"

lemma show_base_chars: "0 < b \<Longrightarrow> set (show_base b u v) \<subseteq> base_digit b u ` {..<2 ^ b}"
  by (induction b u v rule: show_base.induct) (subst show_base.simps, auto)

lemma base_digit_chars:
  "base_digit 4 False ` {..<2 ^ 4} \<subseteq> set ''0123456789abcdef''" "base_digit 4 True ` {..<2 ^ 4} \<subseteq> set ''0123456789ABCDEF''"
  "base_digit 3 False ` {..<2 ^ 3} \<subseteq> set ''01234567''" "base_digit 1 False ` {..<2 ^ 1} \<subseteq> set ''01''"
  by code_simp+

lemma is_digit_chars: "is_digit c \<Longrightarrow> c \<in> set ''0123456789''"
proof -
  assume "is_digit c"
  then have "(of_char c :: nat) \<in> {48..<58}" by (simp add: is_digit_def)
  moreover have "list_all (\<lambda>n. char_of (n :: nat) \<in> set ''0123456789'') [48..<58]" by code_simp
  then have "\<forall>n \<in> {48..<58}. char_of (n :: nat) \<in> set ''0123456789''" by (simp only: list_all_iff set_upt)
  ultimately have "char_of (of_char c :: nat) \<in> set ''0123456789''" by (rule bspec [rotated])
  then show ?thesis by (simp only: char_of_char)
qed

lemma int_digits_chars: "set (int_digits t v) \<subseteq> set (digit_chars t)"
  using show_base_chars [of 4 False v] show_base_chars [of 4 True v] show_base_chars [of 3 False v] show_base_chars [of 1 False v]
    base_digit_chars is_digit_chars show_nat_digits [of _ v]
  by (cases t) (auto simp: int_digits_def digit_chars_def simp del: set_simps)

lemma show_base_lead:
  assumes "0 < b" "b \<le> 4"
  shows "show_base b u v \<noteq> [] \<and> (hd (show_base b u v) = CHR ''0'' \<longrightarrow> show_base b u v = ''0'')"
  using assms
proof (induction b u v rule: show_base.induct)
  case (1 b u v)
  show ?case
  proof (cases "v < 2 ^ b")
    case True
    then show ?thesis by (subst (1 2 3) show_base.simps) simp
  next
    case False
    have s: "show_base b u v = show_base b u (v div 2 ^ b) @ [base_digit b u (v mod 2 ^ b)]"
      using False "1.prems"(1) by (subst show_base.simps) simp
    have "v div 2 ^ b \<noteq> 0" using False by (simp add: div_eq_0_iff)
    then have "show_base b u (v div 2 ^ b) \<noteq> ''0''"
      using base_val_show [OF "1.prems", of u "v div 2 ^ b"] by (auto simp: base_val_def digit_value_def)
    then show ?thesis using 1 False unfolding s by simp
  qed
qed

lemma show_nat_lead: "hd (show_nat v) = CHR ''0'' \<longrightarrow> show_nat v = ''0''"
proof (induction v rule: show_nat.induct)
  case (1 n)
  show ?case
  proof (cases "n < 10")
    case True
    then show ?thesis by (subst (1 2) show_nat.simps) simp
  next
    case False
    have s: "show_nat n = show_nat (n div 10) @ [digit_char n]" using False by (subst show_nat.simps) simp
    have "n div 10 \<noteq> 0" using False by (simp add: div_eq_0_iff)
    then have "show_nat (n div 10) \<noteq> ''0''"
      using dec_val_show_nat [of "n div 10"] by (auto simp: dec_val_def)
    then show ?thesis using 1 False unfolding s by simp
  qed
qed

lemma int_digits_lead: "int_digits t v \<noteq> [] \<and> (hd (int_digits t v) = CHR ''0'' \<longrightarrow> int_digits t v = ''0'')"
  using show_nat_lead [of v] by (cases t) (simp_all add: int_digits_def show_base_lead)

section \<open>Integer arguments\<close>

text \<open>The value of an integer argument of a kind.\<close>

fun arg_value :: "'f fmt_arg \<Rightarrow> int" where
  "arg_value (Arg_int w) = sint w"
| "arg_value (Arg_uint w) = uint w"
| "arg_value (Arg_long_long w) = sint w"
| "arg_value (Arg_ulong_long w) = uint w"
| "arg_value (Arg_int128 w) = sint w"
| "arg_value (Arg_uint128 w) = uint w"
| "arg_value _ = 0"

lemma uint_sint: "uint w = take_bit LENGTH('a) (sint w)" for w :: "'a :: len word"
  using uint_word_of_int_eq [of "sint w", where 'a = 'a] by simp

lemma length_pow: "(2 :: int) ^ (LENGTH('a :: len) - 1) < 2 ^ LENGTH('a)"
  by (intro power_strict_increasing) simp_all

lemma neg_parts: "sint w < 0 \<Longrightarrow> uint (- w) = - sint w" for w :: "'a :: len word"
proof -
  assume n: "sint w < 0"
  have "- w = word_of_int (- sint w)" by simp
  then have "uint (- w) = take_bit LENGTH('a) (- sint w)" by (metis uint_word_of_int_eq)
  also have "\<dots> = - sint w"
    using n sint_ge [of w] length_pow [where 'a = 'a] by (intro take_bit_int_eq_self) linarith+
  finally show ?thesis .
qed

lemma nonneg_parts: "\<not> sint w < 0 \<Longrightarrow> uint w = sint w" for w :: "'a :: len word"
proof -
  assume n: "\<not> sint w < 0"
  show "uint w = sint w"
    using n sint_lt [of w] length_pow [where 'a = 'a] unfolding uint_sint
    by (intro take_bit_int_eq_self) linarith+
qed

lemma int_parts_value:
  "int_parts a = Some (x, neg) \<Longrightarrow> arg_value a = (if neg then - int (uint_nat x) else int (uint_nat x)) \<and> (neg \<longleftrightarrow> arg_value a < 0)"
  by (cases a) (auto simp: neg_parts nonneg_parts split: if_splits)

lemma int_parts_arg:
  "int_parts a = Some (x, neg) \<Longrightarrow> write_arg fl g a specs = write_integer g x neg specs"
  "int_parts a = Some (x, neg) \<Longrightarrow> write_default fl g a = write_default_int x neg"
  by (cases a; simp)+

section \<open>Properties\<close>

text \<open>
  The digit counts the library takes from tables and bit tricks are right for every value of
  32, 64 and 128 bits: they are the lengths of the decimal numerals.
\<close>

theorem digits_counted: "count_digits x = length (show_nat (uint_nat x))"
  by (rule count_digits_decimal)

text \<open>
  C34: An integer argument of any kind, written with specifiers an integer takes, comes out as its
  sign, the base prefix, zeros and the numeral of its absolute value, the digits of the base alone and
  no zero in front; the zeros fill up the precision, or the width where it is to be filled with zeros; the
  fill characters make up exactly what this lacks of the width and stand before it, behind it or on both
  sides as the alignment says. The space reserved in the output is what is written.
\<close>

theorem integers_written:
  assumes "int_parts a = Some (x, neg)" "\<not> sp_localized specs" "int_presentation (sp_type specs)"
    "0 \<le> sp_width specs" "sp_width specs < 2 ^ 31" "-1 \<le> sp_precision specs"
  shows "\<exists>ds. let front = sign_text (arg_value a < 0) (sp_sign specs) @ alt_text specs (nat \<bar>arg_value a\<bar>);
      body = front @ replicate (int_zeros specs (length front) (length ds)) (CHR ''0'') @ ds;
      pad = nat (sp_width specs) - length body;
      t = fill_text (left_share (sp_align specs) pad) (sp_fill specs) @ body @
        fill_text (pad - left_share (sp_align specs) pad) (sp_fill specs)
    in write_arg fl g a specs = Inr (length t, t) \<and>
      digits_value (sp_type specs) ds = nat \<bar>arg_value a\<bar> \<and> set ds \<subseteq> set (digit_chars (sp_type specs)) \<and>
      ds \<noteq> [] \<and> (hd ds = CHR ''0'' \<longrightarrow> ds = ''0'')"
proof -
  note iv = int_parts_value [OF assms(1)]
  have "arg_value a = (if neg then - int (uint_nat x) else int (uint_nat x))" by (rule conjunct1 [OF iv])
  then have v: "neg \<longleftrightarrow> arg_value a < 0" "nat \<bar>arg_value a\<bar> = uint_nat x"
    by (rule_tac conjunct2 [OF iv], cases neg) simp_all
  let ?b = "int_body specs neg (uint_nat x)"
  have "write_arg fl g a specs = Inr (write_padded Align_right specs (length ?b) (length ?b) ?b)"
    using assms write_int_value_body [of specs x neg]
    by (simp add: int_parts_arg(1) [OF assms(1)] write_integer_def Let_def)
  then have w: "write_arg fl g a specs =
      Inr (let pad = nat (sp_width specs) - length ?b; l = left_share (sp_align specs) pad;
             u = fill_text l (sp_fill specs) @ ?b @ fill_text (pad - l) (sp_fill specs) in (length u, u))"
    unfolding write_padded_right [OF assms(5)] .
  note ds = digits_value_digits [of "sp_type specs" "uint_nat x"] int_digits_chars [of "sp_type specs" "uint_nat x"]
      int_digits_lead [of "sp_type specs" "uint_nat x", THEN conjunct1] int_digits_lead [of "sp_type specs" "uint_nat x", THEN conjunct2]
  show ?thesis
    unfolding v(1) [symmetric] v(2)
    using w ds by (intro exI [of _ "int_digits (sp_type specs) (uint_nat x)"]) (simp only: int_body_def Let_def simp_thms)
qed

theorem integers_written_witness:
  "\<exists>ds. write_arg (\<lambda>v s. Inl Fmt_undefined) \<lparr>dg_grouping = [], dg_thousands_sep = []\<rparr>
      (Arg_int (- 26) :: unit fmt_arg) (specs0\<lparr>sp_width := 8, sp_type := P_hex_lower, sp_alt := True\<rparr>) =
        Inr (length (replicate (5 - length ds) (CHR '' '') @ ''-0x'' @ ds), replicate (5 - length ds) (CHR '' '') @ ''-0x'' @ ds) \<and>
    digits_value P_hex_lower ds = 26"
  using integers_written [of "Arg_int (- 26) :: unit fmt_arg" "U32 26" True
      "specs0\<lparr>sp_width := 8, sp_type := P_hex_lower, sp_alt := True\<rparr>" "\<lambda>v s. Inl Fmt_undefined"
      "\<lparr>dg_grouping = [], dg_thousands_sep = []\<rparr>"]
  by (auto simp: int_presentation_def sign_text_def alt_text_def Let_def int_zeros_def left_share_def fill_text_def)

end
