(* ===== verification/FmtCheck.thy ===== *)
theory FmtCheck
  imports Fmt FmtIntegers
begin

text \<open>
  The check of a format string is sound: a string it accepts for the kinds of the arguments is
  formatted, unless the value of an argument used as a width or a precision does not do, a
  reference by name inside the specifiers finds nothing, or the writer of floating-point values
  refuses. The parser does the same with and without the kinds; specifiers it accepts for a kind
  fit an argument of the kind; and the writer of an argument the specifiers fit never fails.
\<close>

section \<open>Numbers are read exactly\<close>

lemma dec_val_less: "\<forall>c \<in> set ds. is_digit c \<Longrightarrow> dec_val ds < 10 ^ length ds"
proof (induction ds rule: rev_induct)
  case (snoc c ds)
  then have "of_char c - 48 \<le> (9 :: nat)" "dec_val ds < 10 ^ length ds" by (auto simp: is_digit_def)
  then show ?case by simp
qed simp

lemma nonnegative_loop_digits:
  assumes "\<forall>c \<in> set ds. is_digit c"
  shows "nonnegative_loop (rev (rev ds) @ s) (word_of_nat v) p n d =
    nonnegative_loop s (word_of_nat (foldl (\<lambda>a c. 10 * a + (of_char c - 48)) v ds))
      (if ds = [] then p else word_of_nat (foldl (\<lambda>a c. 10 * a + (of_char c - 48)) v (butlast ds)))
      (n + length ds) (if ds = [] then d else of_char (last ds) - 48)"
  using assms
proof (induction ds arbitrary: v p n d)
  case (Cons c ds)
  have e: "word_of_nat v * 10 + word_of_nat (of_char c - 48) = (word_of_nat (10 * v + (of_char c - 48)) :: u32)"
    by simp
  show ?case
    using Cons by (auto simp: e byte_of_def simp del: of_nat_add of_nat_mult)
qed simp

lemma nonnegative_loop_stop: "s = [] \<or> \<not> is_digit (hd s) \<Longrightarrow> nonnegative_loop s v p n d = (v, p, n, d, s)"
  by (cases s) auto

text \<open>
  A run of digits gives its value when that is at most \<^verbatim>\<open>INT_MAX\<close> and the run, leading zeros
  counted, has at most ten digits, and the error value otherwise.
\<close>

lemma parse_nonnegative_int_exact:
  "parse_nonnegative_int s e =
     (let ds = takeWhile is_digit s
      in (if length ds \<le> 10 \<and> dec_val ds \<le> INT_MAX then int (dec_val ds) else e, dropWhile is_digit s))"
proof -
  let ?ds = "takeWhile is_digit s" and ?r = "dropWhile is_digit s"
  let ?v = "\<lambda>ds. foldl (\<lambda>a c. 10 * a + (of_char c - 48)) (0 :: nat) ds"
  have dg: "\<forall>c \<in> set ?ds. is_digit c" by (auto dest: set_takeWhileD)
  have "nonnegative_loop (?ds @ ?r) 0 0 0 0 =
      nonnegative_loop ?r (word_of_nat (?v ?ds)) (if ?ds = [] then 0 else word_of_nat (?v (butlast ?ds)))
        (length ?ds) (if ?ds = [] then 0 else of_char (last ?ds) - 48)"
    using nonnegative_loop_digits [OF dg, of ?r 0 0 0 0] by simp
  also have "?ds @ ?r = s" by simp
  finally have l: "nonnegative_loop s 0 0 0 0 =
      (word_of_nat (dec_val ?ds), if ?ds = [] then 0 else word_of_nat (dec_val (butlast ?ds)),
       length ?ds, if ?ds = [] then 0 else of_char (last ?ds) - 48, ?r)"
    using hd_dropWhile [of is_digit s] by (subst (asm) nonnegative_loop_stop) (auto simp: dec_val_def)
  have small: "sint (word_of_nat n :: u32) = int n" if "n \<le> INT_MAX" for n
    using that by (simp add: INT_MAX_def signed_of_nat signed_take_bit_int_eq_self)
  consider "length ?ds \<le> 9" | "length ?ds = 10" | "10 < length ?ds" by linarith
  then show ?thesis
  proof cases
    case 1
    have "dec_val ?ds < 10 ^ length ?ds" by (rule dec_val_less [OF dg])
    also have "(10 :: nat) ^ length ?ds \<le> 10 ^ 9" using 1 by (rule power_increasing) simp
    finally have "dec_val ?ds \<le> INT_MAX" by (simp add: INT_MAX_def)
    then show ?thesis using 1 by (simp add: parse_nonnegative_int_def l small Let_def)
  next
    case 2
    then obtain b c where bc: "?ds = b @ [c]" by (metis append_butlast_last_id list.size(3) zero_neq_numeral)
    have b9: "length b = 9" "\<forall>c \<in> set b. is_digit c" "is_digit c" using 2 dg unfolding bc by simp_all
    have b: "dec_val b < 10 ^ 9" using dec_val_less [OF b9(2)] b9(1) by simp
    have c: "(of_char c :: nat) - 48 \<le> 9" using b9(3) unfolding is_digit_def by arith
    have p: "(ucast (word_of_nat (dec_val b) :: u32) :: 64 word) = word_of_nat (dec_val b)"
      by (rule word_unat_eq_iff [THEN iffD2]) (use b in \<open>simp add: unsigned_ucast_eq unsigned_of_nat take_bit_nat_eq_self\<close>)
    have "((ucast (word_of_nat (dec_val b) :: u32) :: 64 word) * 10 + word_of_nat (of_char c - 48) \<le> word_of_nat INT_MAX) \<longleftrightarrow>
        (word_of_nat (dec_val ?ds) :: 64 word) \<le> word_of_nat INT_MAX"
      unfolding p bc by (simp add: mult.commute del: of_nat_diff)
    also have "\<dots> \<longleftrightarrow> dec_val ?ds \<le> INT_MAX"
    proof -
      have "dec_val ?ds < 2 ^ 64" using b c by (simp add: bc)
      then show ?thesis by (simp add: word_le_nat_alt INT_MAX_def unat_of_nat take_bit_nat_eq_self)
    qed
    finally have f: "((ucast (word_of_nat (dec_val b) :: u32) :: 64 word) * 10 + word_of_nat (of_char c - 48) \<le> word_of_nat INT_MAX) \<longleftrightarrow>
        dec_val ?ds \<le> INT_MAX" .
    have bl: "butlast ?ds = b" "last ?ds = c" "?ds \<noteq> []" by (simp_all add: bc)
    show ?thesis using 2 small [of "dec_val ?ds"]
      unfolding parse_nonnegative_int_def l bl Let_def prod.case if_not_P [OF bl(3)] f by simp
  next
    case 3
    then show ?thesis by (simp add: parse_nonnegative_int_def l Let_def)
  qed
qed

lemma parse_nonnegative_int_range:
  assumes "parse_nonnegative_int s e = (v, r)"
  shows "v = e \<or> 0 \<le> v \<and> v \<le> int INT_MAX" "r = dropWhile is_digit s"
  using assms by (auto simp: parse_nonnegative_int_exact Let_def)

section \<open>The writers never fail\<close>

lemma write_codepoint_total:
  assumes "cp < 16 ^ w" "0 < w"
  shows "\<exists>t. write_codepoint w p cp = Some t"
proof -
  have "length (show_base 4 False cp) \<le> w"
    using assms
  proof (induction w arbitrary: cp)
    case (Suc w)
    show ?case
    proof (cases "cp < 16")
      case False
      then have "0 < w" using Suc.prems by (cases w) auto
      moreover have "cp div 16 < 16 ^ w" using Suc.prems(1) by (simp add: less_mult_imp_div_less mult.commute)
      ultimately show ?thesis using Suc.IH [of "cp div 16"] False by (subst length_show_base) simp
    qed (subst length_show_base, simp)
  qed simp
  then show ?thesis
    using uint_loop_text [of 4 False cp w "replicate w (CHR ''0'')"] by (simp add: write_codepoint_def format_uint_def)
qed

lemma byte_bound: "byte_of c < 256"
  by (simp add: byte_of_def)

lemma write_bytes_escaped_total: "\<exists>t. write_bytes_escaped s = Some t"
proof (induction s)
  case (Cons c s)
  have "byte_of c AND 255 < 16 ^ 2"
  proof -
    have m: "(255 :: nat) = mask 8" by (simp add: mask_eq_exp_minus_1)
    show ?thesis unfolding m take_bit_eq_mask [symmetric] using take_bit_nat_less_exp [of 8 "byte_of c"] by simp
  qed
  then obtain t where "write_codepoint 2 (CHR ''x'') (byte_of c AND 255) = Some t"
    using write_codepoint_total [of "byte_of c AND 255" 2] by auto
  then show ?case using Cons by auto
qed simp

lemma write_escaped_cp_total: "\<exists>t. write_escaped_cp cp bs = Some t"
  using write_codepoint_total [of cp 2 "CHR ''x''"] write_codepoint_total [of cp 4 "CHR ''u''"]
    write_codepoint_total [of cp 8 "CHR ''U''"] write_bytes_escaped_total [of bs]
  by (auto simp: write_escaped_cp_def)

lemma escape_loop_total: "\<exists>t. escape_loop s = Some t"
proof (induction s rule: escape_loop.induct)
  case (1 s)
  show ?case
  proof (cases "find_escape s")
    case (fields i j cp)
    show ?thesis
    proof (cases j)
      case (Some e)
      obtain t where "write_escaped_cp cp (take (e - i) (drop i s)) = Some t" using write_escaped_cp_total by blast
      then show ?thesis using 1 [OF fields [symmetric]] fields Some by (subst escape_loop.simps) auto
    qed (use fields in \<open>subst escape_loop.simps, simp\<close>)
  qed
qed

lemma write_escaped_total: "\<exists>t. write_escaped_string s = Some t" "\<exists>t. write_escaped_char c = Some t"
  using escape_loop_total [of s] write_escaped_cp_total [of "byte_of c" "[c]"]
  by (auto simp: write_escaped_string_def write_escaped_char_def)

lemma write_view_total: "\<exists>t. write_view s specs = Inr t"
  using write_escaped_total(1) [of s] by (auto simp: write_view_def Let_def from_option_def)

lemma write_ptr_total: "\<exists>t. write_ptr v specs = Inr t"
  using base_text_digits [of 4 "U64 v" False] by (auto simp: write_ptr_def Let_def from_option_def)

lemma write_char_total: "\<exists>t. write_char c specs = Inr t"
  using write_escaped_total(2) [of c] by (auto simp: write_char_def from_option_def)

lemma write_grouped_total: "\<exists>t. write_grouped x p specs g = Inr t"
proof -
  have "uint_nat (widen x) < 10 ^ 40"
    using uint_bits [of "widen x"] by (rule less_le_trans) (cases x; simp)
  then have "length (show_nat (uint_nat (widen x))) \<le> 40" using digits_le_iff [of "uint_nat (widen x)" 39] by simp
  then show ?thesis
    using format_decimal_text [of "uint_nat (widen x)" "count_digits (widen x)" "replicate 40 (CHR 0x00)"]
    by (simp add: write_grouped_def Let_def from_option_def count_digits_decimal)
qed

lemma write_int_value_total:
  assumes "int_presentation (sp_type specs) \<or> sp_type specs = P_chr"
  shows "\<exists>t. write_int_value x p specs = Inr t"
  using assms write_char_total [of "char_of (uint_nat x mod 256)" specs]
  by (cases "sp_type specs")
    (auto simp: write_int_value_def Let_def int_presentation_def from_option_def decimal_text_digits base_text_digits)

lemma write_integer_total:
  assumes "int_presentation (sp_type specs) \<or> sp_type specs = P_chr"
  shows "\<exists>t. write_integer g x neg specs = Inr t"
  using write_int_value_total [OF assms, of x "sign_prefix neg (sp_sign specs)"]
    write_grouped_total [of x "sign_prefix neg (sp_sign specs)" specs g] by (simp add: write_integer_def Let_def)

section \<open>The parser with and without the kinds\<close>

definition erase :: "parse_ctx \<Rightarrow> parse_ctx" where
  "erase ctx = ctx\<lparr>pc_types := None\<rparr>"

definition ref_ok :: "fmt_type list \<Rightarrow> arg_ref \<Rightarrow> bool" where
  "ref_ok ts ref =
     (case ref of Ref_index i \<Rightarrow> 0 \<le> i \<and> i < int (length ts) \<and> is_integral_type (ts ! nat i) | _ \<Rightarrow> True)"

definition refs_ok :: "fmt_type list \<Rightarrow> dynamic_specs \<Rightarrow> bool" where
  "refs_ok ts specs \<longleftrightarrow> ref_ok ts (sp_width_ref specs) \<and> ref_ok ts (sp_precision_ref specs)"

definition specs_fit :: "fmt_type \<Rightarrow> presentation \<Rightarrow> bool" where
  "specs_fit ty p \<longleftrightarrow> p = P_none \<or> (\<exists>c kinds. presentation_of c = Some (p, kinds) \<and> in_set ty kinds)"

definition tail_of :: "string \<Rightarrow> string \<Rightarrow> bool" where
  "tail_of r s \<longleftrightarrow> drop (length s - length r) s = r"

lemma tail_of_append [simp]: "tail_of r (a @ r)"
  by (simp add: tail_of_def)

lemma tail_ofE: "tail_of r s \<Longrightarrow> (\<And>a. s = a @ r \<Longrightarrow> P) \<Longrightarrow> P"
  by (metis append_take_drop_id tail_of_def)

lemma tail_of_trans: "tail_of r s \<Longrightarrow> tail_of s t \<Longrightarrow> tail_of r t"
  by (elim tail_ofE) (metis append_assoc tail_of_append)

lemma tail_of_parts [simp]: "tail_of s s" "tail_of (tl s) s" "tail_of (drop n s) s" "tail_of (dropWhile P s) s"
proof -
  show "tail_of s s" by (simp add: tail_of_def)
  show "tail_of (tl s) s" by (cases s) (simp_all add: tail_of_def Suc_diff_le)
  show "tail_of (drop n s) s" by (metis append_take_drop_id tail_of_append)
  show "tail_of (dropWhile P s) s" by (metis takeWhile_dropWhile_id tail_of_append)
qed

lemma tail_of_tl: "tail_of r s \<Longrightarrow> tail_of (tl r) s"
  using tail_of_trans tail_of_parts(2) by blast

lemma erase_simps [simp]: "pc_next (erase ctx) = pc_next ctx" "pc_types (erase ctx) = None"
  "(erase ctx)\<lparr>pc_next := n\<rparr> = erase (ctx\<lparr>pc_next := n\<rparr>)"
  by (simp_all add: erase_def)

lemma next_arg_id_sim:
  assumes "next_arg_id ctx = Inr (k, ctx')" "pc_types ctx = Some ts"
  shows "next_arg_id (erase ctx) = Inr (k, erase ctx') \<and> pc_types ctx' = Some ts \<and> 0 \<le> k \<and> k < int (length ts)"
  using assms by (auto simp: next_arg_id_def do_check_arg_id_def fmt_bind_Inr_iff split: if_splits)

lemma check_arg_id_sim:
  assumes "check_arg_id ctx k = Inr ctx'" "pc_types ctx = Some ts"
  shows "check_arg_id (erase ctx) k = Inr (erase ctx') \<and> pc_types ctx' = Some ts \<and> k < int (length ts)"
  using assms by (auto simp: check_arg_id_def do_check_arg_id_def fmt_bind_Inr_iff split: if_splits)

lemma parse_arg_id_index:
  assumes "parse_arg_id s = Inr (a, r)"
  shows "tail_of r s" "a = Id_index k \<Longrightarrow> 0 \<le> k"
proof -
  have p: "snd (parse_nonnegative_int s e) = dropWhile is_digit s" "0 \<le> e \<Longrightarrow> 0 \<le> fst (parse_nonnegative_int s e)" for e
    by (simp_all add: parse_nonnegative_int_exact Let_def)
  show "tail_of r s" "a = Id_index k \<Longrightarrow> 0 \<le> k"
    using assms p [of "int INT_MAX"] tail_of_trans [OF tail_of_parts(4) tail_of_parts(2)]
    by (auto simp: parse_arg_id_def do_parse_arg_id_def Let_def split: if_splits prod.splits)
qed

lemma dynamic_spec_id_sim:
  assumes "dynamic_spec_id ctx a = Inr (ref, ctx')" "pc_types ctx = Some ts" "\<And>k. a = Id_index k \<Longrightarrow> 0 \<le> k"
  shows "dynamic_spec_id (erase ctx) a = Inr (ref, erase ctx') \<and> pc_types ctx' = Some ts \<and> ref_ok ts ref"
  using assms next_arg_id_sim [of ctx] check_arg_id_sim [of ctx]
  by (cases a) (fastforce simp: dynamic_spec_id_def fmt_bind_Inr_iff check_dynamic_spec_def ref_ok_def)+

lemma parse_dynamic_spec_sim:
  assumes "parse_dynamic_spec s v ref ctx = Inr (v', ref', ctx', r)" "pc_types ctx = Some ts" "ref_ok ts ref"
  shows "parse_dynamic_spec s v ref (erase ctx) = Inr (v', ref', erase ctx', r) \<and> pc_types ctx' = Some ts \<and>
    ref_ok ts ref' \<and> tail_of r s"
proof -
  consider "is_digit (hd s)" | "\<not> is_digit (hd s)" "hd s = LBRACE" | "\<not> is_digit (hd s)" "hd s \<noteq> LBRACE" by blast
  then show ?thesis
  proof cases
    case 1
    then show ?thesis using assms
      by (auto simp: parse_dynamic_spec_def parse_nonnegative_int_exact Let_def split: if_splits)
  next
    case 2
    then obtain a q where q: "tl s \<noteq> []" "parse_arg_id (tl s) = Inr (a, q)" "dynamic_spec_id ctx a = Inr (ref', ctx')"
      "q \<noteq> []" "hd q = RBRACE" "v' = v" "r = tl q"
      using assms(1) by (auto simp: parse_dynamic_spec_def fmt_bind_Inr_iff split: if_splits)
    have "tail_of r s"
      using parse_arg_id_index(1) [OF q(2)] tail_of_trans [OF tail_of_tl tail_of_parts(2)] by (simp add: q(7))
    then show ?thesis
      using 2 q dynamic_spec_id_sim [OF q(3) assms(2)] parse_arg_id_index(2) [OF q(2)] by (simp add: parse_dynamic_spec_def)
  qed (use assms in \<open>simp add: parse_dynamic_spec_def\<close>)
qed

lemma parse_precision_sim:
  assumes "parse_precision s v ref ctx = Inr (v', ref', ctx', r)" "pc_types ctx = Some ts" "ref_ok ts ref"
  shows "parse_precision s v ref (erase ctx) = Inr (v', ref', erase ctx', r) \<and> pc_types ctx' = Some ts \<and>
    ref_ok ts ref' \<and> tail_of r s"
  using assms parse_dynamic_spec_sim [of "tl s" v ref ctx v' ref' ctx' r ts] tail_of_trans [OF _ tail_of_parts(2)]
  by (auto simp: parse_precision_def split: if_splits)

fun step_erase :: "spec_step \<Rightarrow> spec_step" where
  "step_erase (Spec_done specs ctx r) = Spec_done specs (erase ctx) r"
| "step_erase (Spec_more st specs ctx r) = Spec_more st specs (erase ctx) r"

fun step_ok :: "fmt_type list \<Rightarrow> fmt_type \<Rightarrow> string \<Rightarrow> spec_step \<Rightarrow> bool" where
  "step_ok ts ty s (Spec_done specs ctx r) \<longleftrightarrow>
     pc_types ctx = Some ts \<and> refs_ok ts specs \<and> specs_fit ty (sp_type specs) \<and> tail_of r s"
| "step_ok ts ty s (Spec_more st specs ctx r) \<longleftrightarrow>
     pc_types ctx = Some ts \<and> refs_ok ts specs \<and> sp_type specs = P_none \<and> tail_of r s"

lemma marks_not_digits [simp]:
  "\<not> is_digit (CHR ''<'')" "\<not> is_digit (CHR ''>'')" "\<not> is_digit (CHR ''^'')" "\<not> is_digit (CHR ''+'')"
  "\<not> is_digit (CHR ''-'')" "\<not> is_digit (CHR '' '')" "\<not> is_digit (CHR ''#'')" "\<not> is_digit (CHR ''.'')"
  by (simp_all add: is_digit_def)

lemma spec_round_sim:
  assumes "spec_round ty st specs ctx c s = Inr x" "pc_types ctx = Some ts" "refs_ok ts specs" "sp_type specs = P_none"
  shows "spec_round ty st specs (erase ctx) c s = Inr (step_erase x) \<and> step_ok ts ty s x"
proof -
  consider "is_digit c \<and> c \<noteq> CHR ''0'' \<or> c = LBRACE"
    | "c = CHR ''.''" | "\<not> (is_digit c \<or> c = LBRACE) \<or> c = CHR ''0''" "c \<noteq> CHR ''.''"
    by (metis marks_not_digits(8))
  then show ?thesis
  proof cases
    case 1
    then have "c \<noteq> CHR ''<'' \<and> c \<noteq> CHR ''>'' \<and> c \<noteq> CHR ''^'' \<and> c \<noteq> CHR ''+'' \<and> c \<noteq> CHR ''-'' \<and> c \<noteq> CHR '' '' \<and>
        c \<noteq> CHR ''#'' \<and> c \<noteq> CHR ''0''"
      using marks_not_digits by (auto simp: LBRACE_def simp del: marks_not_digits)
    then show ?thesis using 1 assms parse_dynamic_spec_sim [of s "sp_width specs" "sp_width_ref specs" ctx _ _ _ _ ts]
      by (fastforce simp: spec_round_def fmt_bind_Inr_iff refs_ok_def)
  next
    case 2
    then show ?thesis using assms parse_precision_sim [of s "sp_precision specs" "sp_precision_ref specs" ctx _ _ _ _ ts]
      by (fastforce simp: spec_round_def fmt_bind_Inr_iff refs_ok_def is_digit_def LBRACE_def)
  next
    case 3
    consider "c = CHR ''<'' \<or> c = CHR ''>'' \<or> c = CHR ''^''" | "c = CHR ''+'' \<or> c = CHR ''-'' \<or> c = CHR '' ''"
      | "c = CHR ''#''" | "c = CHR ''0''" | "c = CHR ''L''"
      | (other) "c \<noteq> CHR ''<''" "c \<noteq> CHR ''>''" "c \<noteq> CHR ''^''" "c \<noteq> CHR ''+''" "c \<noteq> CHR ''-''" "c \<noteq> CHR '' ''"
        "c \<noteq> CHR ''#''" "c \<noteq> CHR ''0''" "c \<noteq> CHR ''L''" by blast
    then show ?thesis
    proof cases
      case other
      then have r: "spec_round ty st specs ctx c s = (case presentation_of c of
          Some (p, kinds) \<Rightarrow>
            fmt_bind (guard (in_set ty kinds) Invalid_specifier) (\<lambda>_. Inr (Spec_done (specs\<lparr>sp_type := p\<rparr>) ctx (tl s)))
        | None \<Rightarrow> if c = RBRACE then Inr (Spec_done specs ctx s) else fill_step st specs ctx s)" for ctx
        using 3 by (simp add: spec_round_def)
      show ?thesis
      proof (cases "presentation_of c")
        case (Some pk)
        then show ?thesis using assms unfolding r
          by (cases pk) (auto simp: fmt_bind_Inr_iff refs_ok_def specs_fit_def)
      next
        case None
        then show ?thesis using assms unfolding r
          by (auto simp: fill_step_def fmt_bind_Inr_iff refs_ok_def specs_fit_def Let_def split: if_splits)
      qed
    qed (use assms in \<open>auto simp: spec_round_def fmt_bind_Inr_iff refs_ok_def LBRACE_def is_digit_def split: if_splits\<close>)
  qed
qed

lemma spec_loop_sim:
  assumes "spec_loop ty st specs ctx c s = Inr (specs', ctx', r)" "pc_types ctx = Some ts" "refs_ok ts specs"
    "sp_type specs = P_none"
  shows "spec_loop ty st specs (erase ctx) c s = Inr (specs', erase ctx', r) \<and> pc_types ctx' = Some ts \<and>
    refs_ok ts specs' \<and> specs_fit ty (sp_type specs') \<and> tail_of r s"
  using assms
proof (induction ty st specs ctx c s rule: spec_loop.induct)
  case (1 ty st specs ctx c s)
  obtain x where x: "spec_round ty st specs ctx c s = Inr x"
    using "1.prems"(1) by (subst (asm) spec_loop.simps) (auto simp: fmt_bind_Inr_iff)
  note sim = spec_round_sim [OF x "1.prems"(2-4)]
  show ?case
  proof (cases x)
    case (Spec_done a b d)
    then show ?thesis using x "1.prems"(1) sim by (subst spec_loop.simps, subst (asm) spec_loop.simps) simp
  next
    case (Spec_more st' specs1 ctx1 s1)
    note ok = sim [unfolded Spec_more step_ok.simps step_erase.simps]
    show ?thesis
    proof (cases "s1 = []")
      case True
      then show ?thesis using x "1.prems"(1) ok Spec_more
        by (subst spec_loop.simps, subst (asm) spec_loop.simps) (simp add: specs_fit_def)
    next
      case False
      have l: "spec_loop ty st' specs1 ctx1 (hd s1) s1 = Inr (specs', ctx', r)"
        using x "1.prems"(1) False Spec_more by (subst (asm) spec_loop.simps) simp
      show ?thesis
        using "1.IH" [OF x Spec_more False l] ok False tail_of_trans [of r s1 s]
        by (subst spec_loop.simps) simp
    qed
  qed
qed

lemma parse_format_specs_sim:
  assumes "parse_format_specs ty ctx s = Inr (specs, ctx', r)" "pc_types ctx = Some ts"
  shows "parse_format_specs ty (erase ctx) s = Inr (specs, erase ctx', r) \<and> pc_types ctx' = Some ts \<and>
    refs_ok ts specs \<and> specs_fit ty (sp_type specs) \<and> tail_of r s"
proof -
  have "refs_ok ts dynamic0" by (simp add: refs_ok_def ref_ok_def)
  then show ?thesis
    using assms spec_loop_sim [of ty At_start dynamic0 ctx _ s specs ctx' r ts]
    by (fastforce simp: parse_format_specs_def specs_fit_def split: if_splits)
qed

text \<open>
  A brace directly before a letter or an underscore: without one no specifier refers to an argument by
  its name.
\<close>

definition names_field :: "string \<Rightarrow> bool" where
  "names_field s \<longleftrightarrow> (\<exists>a c b. s = a @ LBRACE # c # b \<and> is_name_start c)"

definition named_ref :: "arg_ref \<Rightarrow> bool" where
  "named_ref ref \<longleftrightarrow> (case ref of Ref_name n \<Rightarrow> True | _ \<Rightarrow> False)"

definition named_specs :: "dynamic_specs \<Rightarrow> bool" where
  "named_specs specs \<longleftrightarrow> named_ref (sp_width_ref specs) \<or> named_ref (sp_precision_ref specs)"

lemma names_field_tail: "tail_of r s \<Longrightarrow> names_field r \<Longrightarrow> names_field s"
  by (elim tail_ofE) (auto simp: names_field_def, metis append_assoc)

lemma names_field_Cons: "names_field s \<Longrightarrow> names_field (c # s)"
  by (rule names_field_tail [of s]) (use tail_of_parts(2) [of "c # s"] in simp)

lemma parse_dynamic_spec_named:
  assumes "parse_dynamic_spec s v ref ctx = Inr (v', ref', ctx', r)" "named_ref ref'"
  shows "named_ref ref \<or> names_field s"
proof (cases "\<not> is_digit (hd s) \<and> hd s = LBRACE")
  case True
  then obtain a q where q: "tl s \<noteq> []" "parse_arg_id (tl s) = Inr (a, q)" "dynamic_spec_id ctx a = Inr (ref', ctx')"
    using assms(1) by (auto simp: parse_dynamic_spec_def fmt_bind_Inr_iff split: if_splits)
  obtain n where "a = Id_name n"
    using q(3) assms(2) by (cases a) (auto simp: dynamic_spec_id_def named_ref_def fmt_bind_Inr_iff)
  then have "is_name_start (hd (tl s))"
    using q(2) by (auto simp: parse_arg_id_def do_parse_arg_id_def Let_def split: if_splits prod.splits)
  moreover have "s = [] @ LBRACE # hd (tl s) # tl (tl s)" using True q(1) by (cases s; cases "tl s") auto
  ultimately show ?thesis unfolding names_field_def by blast
qed (use assms in \<open>auto simp: parse_dynamic_spec_def split: if_splits prod.splits\<close>)

lemma parse_precision_named:
  assumes "parse_precision s v ref ctx = Inr (v', ref', ctx', r)" "named_ref ref'"
  shows "named_ref ref \<or> names_field s"
  using assms parse_dynamic_spec_named [of "tl s" v ref ctx v' ref' ctx' r] names_field_tail [OF tail_of_parts(2)]
  by (auto simp: parse_precision_def split: if_splits)

fun step_specs :: "spec_step \<Rightarrow> dynamic_specs" where
  "step_specs (Spec_done specs ctx r) = specs" | "step_specs (Spec_more st specs ctx r) = specs"

lemma spec_round_named:
  assumes "spec_round ty st specs ctx c s = Inr x" "named_specs (step_specs x)"
  shows "named_specs specs \<or> names_field s"
  using assms parse_dynamic_spec_named [of s "sp_width specs" "sp_width_ref specs" ctx]
    parse_precision_named [of s "sp_precision specs" "sp_precision_ref specs" ctx]
  unfolding spec_round_def
  by (auto simp: fill_step_def fmt_bind_Inr_iff named_specs_def Let_def split: if_splits option.splits prod.splits)

lemma spec_loop_named:
  assumes "spec_loop ty st specs ctx c s = Inr (specs', ctx', r)" "pc_types ctx = Some ts" "refs_ok ts specs"
    "sp_type specs = P_none" "named_specs specs'"
  shows "named_specs specs \<or> names_field s"
  using assms
proof (induction ty st specs ctx c s rule: spec_loop.induct)
  case (1 ty st specs ctx c s)
  obtain x where x: "spec_round ty st specs ctx c s = Inr x"
    using "1.prems"(1) by (subst (asm) spec_loop.simps) (auto simp: fmt_bind_Inr_iff)
  note sim = spec_round_sim [OF x "1.prems"(2-4)] and named = spec_round_named [OF x]
  show ?case
  proof (cases x)
    case (Spec_done a b d)
    then show ?thesis using x "1.prems"(1,5) named by (subst (asm) spec_loop.simps) simp
  next
    case (Spec_more st' specs1 ctx1 s1)
    note ok = sim [unfolded Spec_more step_ok.simps step_erase.simps]
    show ?thesis
    proof (cases "s1 = []")
      case True
      then show ?thesis using x "1.prems"(1,5) named Spec_more by (subst (asm) spec_loop.simps) simp
    next
      case False
      have l: "spec_loop ty st' specs1 ctx1 (hd s1) s1 = Inr (specs', ctx', r)"
        using x "1.prems"(1) False Spec_more by (subst (asm) spec_loop.simps) simp
      show ?thesis
        using "1.IH" [OF x Spec_more False l] ok named Spec_more names_field_tail [of s1 s] "1.prems"(5) by auto
    qed
  qed
qed

lemma parse_format_specs_named:
  assumes "parse_format_specs ty ctx s = Inr (specs, ctx', r)" "pc_types ctx = Some ts" "named_specs specs"
  shows "names_field s"
proof -
  have d: "refs_ok ts dynamic0" "\<not> named_specs dynamic0" "sp_type dynamic0 = P_none"
    by (simp_all add: refs_ok_def ref_ok_def named_specs_def named_ref_def dynamic0_def specs0_def fmt_specs.extend_def)
  then show ?thesis
    using assms spec_loop_named [of ty At_start dynamic0 ctx _ s specs ctx' r ts]
    by (fastforce simp: parse_format_specs_def split: if_splits)
qed

section \<open>Specifiers that fit an argument\<close>

lemma presentation_kinds:
  assumes "presentation_of c = Some (p, kinds)"
  shows "kinds = integral_set \<and> (int_presentation p \<or> p = P_chr) \<or>
    kinds = float_set \<and> p \<in> {P_hexfloat_lower, P_hexfloat_upper, P_exp_lower, P_exp_upper, P_fixed_lower, P_fixed_upper,
      P_general_lower, P_general_upper} \<or>
    kinds = bool_set OR string_set OR cstring_set \<and> p = P_string \<or>
    kinds = pointer_set OR cstring_set \<and> p = P_pointer \<or>
    kinds = char_set OR string_set OR cstring_set \<and> p = P_debug"
  using assms unfolding presentation_of_def int_presentation_def by (auto split: if_splits)

lemma fit_integral: "specs_fit ty p \<Longrightarrow> in_set ty (sint_set OR uint_set) \<Longrightarrow> int_presentation p \<or> p = P_chr"
  by (auto simp: specs_fit_def kind_sets int_presentation_def dest!: presentation_kinds)

lemma fit_bool: "specs_fit Bool_type p \<Longrightarrow> int_presentation p \<or> p = P_chr \<or> p = P_string"
  by (auto simp: specs_fit_def kind_sets int_presentation_def dest!: presentation_kinds)

lemma fit_char: "specs_fit Char_type p \<Longrightarrow> int_presentation p \<or> p = P_chr \<or> p = P_debug"
  by (auto simp: specs_fit_def kind_sets int_presentation_def dest!: presentation_kinds)

lemma fit_float:
  assumes "specs_fit ty (sp_type specs)" "in_set ty float_set"
  shows "\<exists>fs. parse_float_type_spec specs = Inr fs"
  using assms by (auto simp: specs_fit_def kind_sets parse_float_type_spec_def Let_def dest!: presentation_kinds)

text \<open>What may still be refused: a C string that is null, and what the writer \<open>fl\<close> refuses.\<close>

fun arg_ready :: "'f fmt_arg \<Rightarrow> bool" where
  "arg_ready No_arg = False"
| "arg_ready (Arg_cstring a s) = (a \<noteq> 0)"
| "arg_ready _ = True"

definition fl_error :: "'f float_writer \<Rightarrow> fmt_error \<Rightarrow> bool" where
  "fl_error fl e \<longleftrightarrow> (\<exists>v how. fl v how = Inl e)"

lemma write_float_result:
  assumes "\<exists>fs. parse_float_type_spec specs = Inr fs"
  shows "(\<exists>t. write_float fl v specs = Inr t) \<or> (\<exists>e. write_float fl v specs = Inl e \<and> fl_error fl e)"
proof -
  obtain fs where fs: "parse_float_type_spec specs = Inr fs" using assms ..
  show ?thesis unfolding write_float_def fs fmt_bind_simps fl_error_def
    by (cases "fl v (Some (fmt_specs.truncate specs, fs))") blast+
qed

lemma write_arg_result:
  assumes "specs_fit (arg_type x) (sp_type specs)" "arg_ready x"
    "arg_type x = Char_type \<Longrightarrow> \<exists>b. check_char_specs specs = Inr b"
  shows "(\<exists>t. write_arg fl g x specs = Inr t) \<or> (\<exists>e. write_arg fl g x specs = Inl e \<and> fl_error fl e)"
proof (cases x)
  case (Arg_bool b)
  then have "int_presentation (sp_type specs) \<or> sp_type specs = P_chr \<or> sp_type specs = P_string"
    using fit_bool assms(1) by simp
  then show ?thesis using write_integer_total [of specs g "U32 (if b then 1 else 0)" False]
    by (auto simp: Arg_bool write_bool_def)
next
  case (Arg_char c)
  have p: "int_presentation (sp_type specs) \<or> sp_type specs = P_chr \<or> sp_type specs = P_debug"
    using fit_char assms(1) by (simp add: Arg_char)
  obtain b where b: "check_char_specs specs = Inr b" using assms(3) by (auto simp: Arg_char)
  have "int_presentation (sp_type specs) \<or> sp_type specs = P_chr" if "\<not> b"
    using p b that by (auto simp: check_char_specs_def split: if_splits)
  then show ?thesis
    using b write_char_total [of c specs] write_integer_total [of specs g "U32 (word_of_nat (byte_of c))" False]
    by (cases b) (auto simp: Arg_char write_char_arg_def)
next
  case (Arg_cstring a s)
  then show ?thesis using assms(2) write_view_total [of s specs] write_ptr_total [of a specs] by simp
next
  case (Arg_string s)
  then show ?thesis using write_view_total [of s specs] by simp
next
  case (Arg_pointer a)
  then show ?thesis using write_ptr_total [of a specs] by simp
next
  case (Arg_float v)
  then show ?thesis using write_float_result [OF fit_float [OF assms(1)], of fl v] by (simp add: kind_sets)
next
  case (Arg_double v)
  then show ?thesis using write_float_result [OF fit_float [OF assms(1)], of fl v] by (simp add: kind_sets)
next
  case (Arg_long_double v)
  then show ?thesis using write_float_result [OF fit_float [OF assms(1)], of fl v] by (simp add: kind_sets)
qed (use assms fit_integral [of "arg_type x" "sp_type specs"] write_integer_total [of specs g] in \<open>auto simp: kind_sets\<close>)

lemma write_default_result:
  assumes "arg_ready x"
  shows "(\<exists>t. write_default fl g x = Inr t) \<or> (\<exists>e. write_default fl g x = Inl e \<and> fl_error fl e)"
proof -
  have i: "\<exists>t. write_default_int v neg = Inr t" for v neg
    using decimal_text_digits [of v] by (simp add: write_default_int_def Let_def from_option_def)
  have f: "(\<exists>t. fl v None = Inr t) \<or> (\<exists>e. fl v None = Inl e \<and> fl_error fl e)" for v
    by (cases "fl v None") (auto simp: fl_error_def)
  show ?thesis
  proof (cases x)
    case (Arg_bool b)
    then show ?thesis by (simp add: write_bool_def)
  next
    case (Arg_pointer a)
    then show ?thesis using write_ptr_total [of a specs0] by simp
  qed (use assms i f in auto)
qed

section \<open>Formatting follows the check\<close>

text \<open>
  The errors that remain: a reference by name among the specifiers, the writer \<open>fl\<close>, and an
  integer (a truth value and a character count as such here) that is no width or precision.
\<close>

definition late_error :: "bool \<Rightarrow> 'f float_writer \<Rightarrow> 'f fmt_arg list \<Rightarrow> fmt_error \<Rightarrow> bool" where
  "late_error nm fl xs e \<longleftrightarrow> nm \<and> e = Argument_not_found \<or> fl_error fl e \<or>
     (\<exists>x \<in> set xs. is_integral_type (arg_type x) \<and>
        (get_dynamic_spec width_checker x = Inl e \<or> get_dynamic_spec precision_checker x = Inl e))"

definition outcome :: "bool \<Rightarrow> 'f float_writer \<Rightarrow> 'f fmt_arg list \<Rightarrow> 'a fmt \<Rightarrow> ('a \<Rightarrow> bool) \<Rightarrow> bool" where
  "outcome nm fl xs r P \<longleftrightarrow> (case r of Inr y \<Rightarrow> P y | Inl e \<Rightarrow> late_error nm fl xs e)"

lemma outcome_simps [simp]:
  "outcome nm fl xs (Inr y) P \<longleftrightarrow> P y" "outcome nm fl xs (Inl e) P \<longleftrightarrow> late_error nm fl xs e"
  by (simp_all add: outcome_def)

lemma outcome_bind:
  assumes "outcome nm fl xs r P" "\<And>y. P y \<Longrightarrow> outcome nm fl xs (f y) Q"
  shows "outcome nm fl xs (fmt_bind r f) Q"
  using assms by (cases r) simp_all

lemma outcome_written:
  assumes "(\<exists>t. r = Inr t) \<or> (\<exists>e. r = Inl e \<and> fl_error fl e)"
  shows "outcome nm fl xs r (\<lambda>_. True)"
  using assms by (auto simp: late_error_def)

definition plain_args :: "'f fmt_arg list \<Rightarrow> 'f format_args" where
  "plain_args xs = make_format_args (map (Pair None) xs)"

definition args_ready :: "'f fmt_arg list \<Rightarrow> bool" where
  "args_ready xs \<longleftrightarrow> length xs < 2 ^ 31 \<and> (\<forall>x \<in> set xs. arg_ready x)"

lemma ready_arg: "args_ready xs \<Longrightarrow> 0 \<le> i \<Longrightarrow> i < int (length xs) \<Longrightarrow> arg_ready (xs ! nat i)"
  by (simp add: args_ready_def nat_less_iff)

lemma ready_type: "arg_ready x \<Longrightarrow> arg_type x \<noteq> None_type"
  by (cases x) auto

lemma get_plain_arg:
  assumes "args_ready xs" "0 \<le> i" "i < int (length xs)"
  shows "get_arg (plain_args xs) i = Inr (xs ! nat i)"
  using args_get [of "map (Pair None) xs" "nat i"] ready_type [OF ready_arg [OF assms]] assms
  by (simp add: get_arg_def plain_args_def args_ready_def from_option_def nat_less_iff)

lemma get_plain_name: "args_ready xs \<Longrightarrow> get_id (plain_args xs) n = -1"
proof -
  assume "args_ready xs"
  then have "length (map (Pair (None :: string option)) xs) < 2 ^ 31" by (simp add: args_ready_def)
  moreover have "init_named_args (map (Pair None) xs) = []"
    by (auto simp: init_named_args_def in_set_enumerate_eq split: prod.splits)
  ultimately have "\<not> has_named_args (plain_args xs)" using has_named_args_iff plain_args_def by metis
  then show ?thesis by (simp add: get_id_def)
qed

lemma dynamic_outcome:
  assumes "args_ready xs" "ref_ok (map arg_type xs) ref" "checker = width_checker \<or> checker = precision_checker"
    "named_ref ref \<Longrightarrow> nm"
  shows "outcome nm fl xs (handle_dynamic_spec checker (plain_args xs) v ref) (\<lambda>_. True)"
proof (cases ref)
  case (Ref_index i)
  then have i: "0 \<le> i" "i < int (length xs)" "is_integral_type (arg_type (xs ! nat i))"
    using assms(2) by (auto simp: ref_ok_def nat_less_iff)
  then have x: "xs ! nat i \<in> set xs" by (simp add: nat_less_iff)
  show ?thesis using i(3) x assms(3)
    by (cases "get_dynamic_spec checker (xs ! nat i)")
      (auto simp: Ref_index handle_dynamic_spec_def get_plain_arg [OF assms(1) i(1,2)] late_error_def)
next
  case (Ref_name n)
  then show ?thesis using get_plain_name [OF assms(1)] assms(4)
    by (simp add: named_ref_def handle_dynamic_spec_def get_named_arg_def late_error_def)
qed (simp add: handle_dynamic_spec_def)

lemma arg_id_sim:
  assumes "check_arg i ctx = Inr (k, ctx')" "pc_types ctx = Some ts" "\<And>j. i = Id_index j \<Longrightarrow> 0 \<le> j" "rs_ctx st = erase ctx"
  shows "run_arg_id a i st = Inr (k, st\<lparr>rs_ctx := erase ctx'\<rparr>) \<and> pc_types ctx' = Some ts \<and> 0 \<le> k \<and> k < int (length ts)"
  using assms next_arg_id_sim [of ctx k ctx' ts] check_arg_id_sim [of ctx k ctx' ts]
  by (cases i) (auto simp: check_arg_def run_arg_id_def fmt_bind_Inr_iff)

lemma field_outcome:
  assumes "args_ready xs" "0 \<le> k" "k < int (length xs)"
  shows "outcome nm fl xs (run_field fl g (plain_args xs) k st) (\<lambda>st'. rs_ctx st' = rs_ctx st)"
  unfolding run_field_def get_plain_arg [OF assms] fmt_bind_simps
  by (rule outcome_bind [OF outcome_written [OF write_default_result [OF ready_arg [OF assms]]]]) simp

lemma specs_outcome:
  assumes "check_specs (map arg_type xs) k s ctx = Inr (n, ctx')" "pc_types ctx = Some (map arg_type xs)"
    "args_ready xs" "0 \<le> k" "k < int (length xs)" "drop n s \<noteq> []" "hd (drop n s) = RBRACE" "rs_ctx st = erase ctx"
    "names_field s \<Longrightarrow> nm"
  shows "pc_types ctx' = Some (map arg_type xs) \<and>
    outcome nm fl xs (run_specs fl g (plain_args xs) k s st) (\<lambda>(n', st'). n' = n \<and> rs_ctx st' = erase ctx')"
proof -
  let ?x = "xs ! nat k"
  have kx: "nat k < length xs" using assms(4,5) by simp
  obtain specs r where p: "parse_format_specs (arg_type ?x) ctx s = Inr (specs, ctx', r)" "n = length s - length r"
      "arg_type ?x = Char_type \<Longrightarrow> \<exists>b. check_char_specs specs = Inr b"
    using assms(1,4,5) kx by (auto simp: check_specs_def fmt_bind_Inr_iff split: if_splits)
  note sim = parse_format_specs_sim [OF p(1) assms(2)]
  have r: "r \<noteq> []" "hd r = RBRACE" using sim assms(6,7) p(2) by (auto simp: tail_of_def)
  have refs: "ref_ok (map arg_type xs) (sp_width_ref specs)" "ref_ok (map arg_type xs) (sp_precision_ref specs)"
    using sim by (auto simp: refs_ok_def)
  have names: "named_ref (sp_width_ref specs) \<Longrightarrow> nm" "named_ref (sp_precision_ref specs) \<Longrightarrow> nm"
    using parse_format_specs_named [OF p(1) assms(2)] assms(9) by (auto simp: named_specs_def)
  have w: "outcome nm fl xs (write_arg fl g ?x (specs\<lparr>sp_width := v, sp_precision := q\<rparr>)) (\<lambda>_. True)" for v q
    using sim p(3) ready_arg [OF assms(3-5)]
    by (intro outcome_written write_arg_result) (auto simp: check_char_specs_def)
  have "outcome nm fl xs (run_specs fl g (plain_args xs) k s st) (\<lambda>(n', st'). n' = n \<and> rs_ctx st' = erase ctx')"
    unfolding run_specs_def get_plain_arg [OF assms(3-5)] fmt_bind_simps assms(8) conjunct1 [OF sim] prod.case
    by (intro outcome_bind [OF dynamic_outcome [OF assms(3) refs(1) _ names(1)]] outcome_bind [OF dynamic_outcome [OF assms(3) refs(2) _ names(2)]])
      (use r w in \<open>auto intro!: outcome_bind [OF w] simp: p(2)\<close>)
  then show ?thesis using sim by simp
qed

lemma replacement_tail: "parse_replacement_field h s st = Inr (r, st') \<Longrightarrow> tail_of r s"
proof -
  assume p: "parse_replacement_field h s st = Inr (r, st')"
  have "tail_of (tl q) s \<and> tail_of (tl (drop n (tl q))) s" if "parse_arg_id s = Inr (a, q)" for a q n
  proof -
    have "tail_of (tl q) s" using parse_arg_id_index(1) [OF that] by (rule tail_of_tl)
    then show ?thesis using tail_of_tl [OF tail_of_trans [OF tail_of_parts(3)]] by blast
  qed
  then show ?thesis using p tail_of_parts(2) [of s]
    unfolding parse_replacement_field_def by (fastforce simp: fmt_bind_Inr_iff Let_def split: if_splits)
qed

lemma replacement_outcome:
  assumes "parse_replacement_field (check_handler (map arg_type xs)) s ctx = Inr (r, ctx')"
    "pc_types ctx = Some (map arg_type xs)" "args_ready xs" "rs_ctx st = erase ctx" "names_field s \<Longrightarrow> nm"
  shows "pc_types ctx' = Some (map arg_type xs) \<and>
    outcome nm fl xs (parse_replacement_field (run_handler fl g (plain_args xs)) s st) (\<lambda>(r', st'). r' = r \<and> rs_ctx st' = erase ctx')"
proof -
  have s: "s \<noteq> []" using assms(1) by (auto simp: parse_replacement_field_def)
  consider (auto) "hd s = RBRACE" | (brace) "hd s = LBRACE" | (id) "hd s \<noteq> RBRACE" "hd s \<noteq> LBRACE" by blast
  then show ?thesis
  proof cases
    case auto
    then obtain k where k: "check_arg Id_auto ctx = Inr (k, ctx')" "r = tl s"
      using assms(1) s by (auto simp: parse_replacement_field_def fmt_bind_Inr_iff)
    note sim = arg_id_sim [OF k(1) assms(2) _ assms(4), of "plain_args xs"]
    show ?thesis using s auto sim k(2)
      by (auto simp: parse_replacement_field_def intro!: outcome_bind [OF field_outcome [OF assms(3)]])
  next
    case brace
    then show ?thesis using assms s by (auto simp: parse_replacement_field_def)
  next
    case id
    then obtain a q k ctx1 where q: "parse_arg_id s = Inr (a, q)" "check_arg a ctx = Inr (k, ctx1)"
      using assms(1) s by (auto simp: parse_replacement_field_def fmt_bind_Inr_iff)
    note sim = arg_id_sim [OF q(2) assms(2) parse_arg_id_index(2) [OF q(1)] assms(4), of "plain_args xs"]
    show ?thesis
    proof (cases "q \<noteq> [] \<and> hd q = RBRACE")
      case True
      then show ?thesis using id s q sim assms(1)
        by (auto simp: parse_replacement_field_def intro!: outcome_bind [OF field_outcome [OF assms(3)]])
    next
      case False
      then have m: "(if q \<noteq> [] \<and> hd q = CHR '':'' then fmt_bind (check_specs (map arg_type xs) k (tl q) ctx1) (\<lambda>(n, st).
          let r' = drop n (tl q) in if r' = [] \<or> hd r' \<noteq> RBRACE then Inl Unknown_specifier else Inr (tl r', st))
          else Inl Missing_brace) = Inr (r, ctx')"
        using assms(1) unfolding parse_replacement_field_def
        by (simp only: s id q fmt_bind_simps prod.case check_handler_simps if_False if_True simp_thms)
      then have qc: "q \<noteq> []" "hd q = CHR '':''" by (auto split: if_splits)
      then obtain n where n: "q \<noteq> []" "hd q = CHR '':''" "check_specs (map arg_type xs) k (tl q) ctx1 = Inr (n, ctx')"
          "drop n (tl q) \<noteq> []" "hd (drop n (tl q)) = RBRACE" "r = tl (drop n (tl q))"
        using m by (cases "check_specs (map arg_type xs) k (tl q) ctx1") (auto simp: Let_def split: if_splits)
      have nq: "names_field (tl q) \<Longrightarrow> nm"
        using names_field_tail [OF tail_of_tl [OF parse_arg_id_index(1) [OF q(1)]]] assms(5) by blast
      have "rs_ctx (st\<lparr>rs_ctx := erase ctx1\<rparr>) = erase ctx1" by simp
      from specs_outcome [OF n(3) _ assms(3) _ _ n(4,5) this nq, of fl g]
      have o: "pc_types ctx' = Some (map arg_type xs)"
        "outcome nm fl xs (run_specs fl g (plain_args xs) k (tl q) (st\<lparr>rs_ctx := erase ctx1\<rparr>)) (\<lambda>(n', st'). n' = n \<and> rs_ctx st' = erase ctx')"
        using sim by auto
      have c: "CHR '':'' \<noteq> RBRACE" by (simp add: RBRACE_def)
      have e: "parse_replacement_field (run_handler fl g (plain_args xs)) s st =
          fmt_bind (run_specs fl g (plain_args xs) k (tl q) (st\<lparr>rs_ctx := erase ctx1\<rparr>)) (\<lambda>(n, st).
            let r' = drop n (tl q) in if r' = [] \<or> hd r' \<noteq> RBRACE then Inl Unknown_specifier else Inr (tl r', st))"
        unfolding parse_replacement_field_def using s id n(1,2) c by (simp add: q(1) conjunct1 [OF sim])
      have "outcome nm fl xs (parse_replacement_field (run_handler fl g (plain_args xs)) s st)
          (\<lambda>(r', st'). r' = r \<and> rs_ctx st' = erase ctx')"
        unfolding e by (rule outcome_bind [OF o(2)]) (use n(4-6) in \<open>auto simp: Let_def\<close>)
      then show ?thesis using o(1) by simp
    qed
  qed
qed

lemma small_loop_outcome:
  assumes "small_loop (check_handler (map arg_type xs)) t s ctx = Inr ctx'" "pc_types ctx = Some (map arg_type xs)"
    "args_ready xs" "rs_ctx st = erase ctx" "names_field s \<Longrightarrow> nm"
  shows "outcome nm fl xs (small_loop (run_handler fl g (plain_args xs)) t s st) (\<lambda>_. True)"
  using assms
proof (induction "length s" arbitrary: t s ctx st rule: less_induct)
  case less
  show ?case
  proof (cases s)
    case (Cons c s')
    consider "c = LBRACE" | "c = RBRACE" | "c \<noteq> LBRACE" "c \<noteq> RBRACE" by blast
    then show ?thesis
    proof cases
      case 1
      then obtain r ctx1 where r: "parse_replacement_field (check_handler (map arg_type xs)) s' ctx = Inr (r, ctx1)"
          "small_loop (check_handler (map arg_type xs)) [] r ctx1 = Inr ctx'"
        using less.prems(1) by (auto simp: Cons fmt_bind_Inr_iff)
      have l: "length r < length s" using parse_replacement_field_shorter [OF r(1)] by (simp add: Cons)
      have st: "rs_ctx (st\<lparr>rs_out := rs_out st @ t\<rparr>) = erase ctx" using less.prems(4) by simp
      have nm: "names_field s' \<Longrightarrow> nm" "names_field r \<Longrightarrow> nm"
        using less.prems(5) names_field_tail [OF replacement_tail [OF r(1)]] names_field_Cons [of s' c] by (auto simp: Cons)
      note f = replacement_outcome [OF r(1) less.prems(2,3) st nm(1), of fl g]
      have "outcome nm fl xs (small_loop (run_handler fl g (plain_args xs)) [] r st') (\<lambda>_. True)" if "rs_ctx st' = erase ctx1" for st'
        using less.hyps [OF l r(2) _ less.prems(3) that nm(2)] f by blast
      then show ?thesis using f 1 by (auto simp: Cons intro: outcome_bind [OF conjunct2 [OF f]])
    next
      case 2
      then show ?thesis using less.prems less.hyps [of "tl s'" "[]" ctx "st\<lparr>rs_out := rs_out st @ t @ [c]\<rparr>"]
          names_field_tail [OF tail_of_parts(2), of s'] names_field_Cons [of s' c]
        by (auto simp: Cons split: if_splits)
    next
      case 3
      then show ?thesis using less.prems less.hyps [of s' "t @ [c]" ctx st] names_field_Cons [of s' c] by (simp add: Cons)
    qed
  qed simp
qed

lemma checked_format:
  assumes "check_format_string (map arg_type xs) s = Inr ()" "args_ready xs"
  shows "outcome (names_field s) fl xs (fmt_format fl g s (map (Pair None) xs)) (\<lambda>_. True)"
proof -
  obtain ctx where c: "small_loop (check_handler (map arg_type xs)) [] s (start_ctx (Some (map arg_type xs))) = Inr ctx"
    using assms(1) by (auto simp: check_format_string_def check.parse_format_string_plain fmt_bind_Inr_iff)
  have "outcome (names_field s) fl xs (small_loop (run_handler fl g (plain_args xs)) [] s \<lparr>rs_ctx = start_ctx None, rs_out = []\<rparr>) (\<lambda>_. True)"
    by (rule small_loop_outcome [OF c _ assms(2)]) (simp_all add: start_ctx_def erase_def)
  then show ?thesis
    by (auto simp: fmt_format_def vformat_plain run_plain_def plain_args_def intro: outcome_bind)
qed

section \<open>Properties\<close>

text \<open>
  C30: A format string the check accepts for the kinds of the arguments is formatted for all
  arguments of these kinds (no null C string, fewer than \<open>2\<^sup>3\<^sup>1\<close>), with these exceptions alone: an
  argument used as a width or a precision has a value that is none, the writer of floating-point
  values refuses, or, in a string with a brace directly before a letter or an underscore, a reference by
  name inside the specifiers finds nothing. No error of the parser, of the numbered and the automatic
  argument ids, of a presentation that does not fit its argument, and no write outside a digit buffer is
  left for run time.
\<close>

theorem checked_strings_format:
  assumes "check_format_string (map arg_type xs) s = Inr ()" "length xs < 2 ^ 31" "\<forall>x \<in> set xs. arg_ready x"
  shows "case fmt_format fl g s (map (Pair None) xs) of
      Inr t \<Rightarrow> True
    | Inl e \<Rightarrow> e = Argument_not_found \<and> names_field s \<or> (\<exists>v how. fl v how = Inl e) \<or>
        (\<exists>x \<in> set xs. is_integral_type (arg_type x) \<and>
           (get_dynamic_spec width_checker x = Inl e \<or> get_dynamic_spec precision_checker x = Inl e))"
proof -
  have "args_ready xs" using assms(2,3) by (simp add: args_ready_def)
  from checked_format [OF assms(1) this, of fl g] show ?thesis
    by (cases "fmt_format fl g s (map (Pair None) xs)") (auto simp: late_error_def fl_error_def)
qed

lemma example_check:
  "check_format_string [Int_type, Uint_type] (LBRACE # '':'' @ [LBRACE, RBRACE, CHR ''x'', RBRACE]) = Inr ()"
  by (simp add: check_format_string_def check.parse_format_string_plain parse_replacement_field_def parse_arg_id_def
      check_arg_def next_arg_id_def do_check_arg_id_def start_ctx_def check_specs_def parse_format_specs_def
      spec_loop.simps spec_round_def presentation_of_def kind_sets LBRACE_def RBRACE_def parse_align_def is_digit_def
      enter_state_def parse_dynamic_spec_def dynamic_spec_id_def check_dynamic_spec_def is_integral_type_def)

lemma example_names: "\<not> names_field (LBRACE # '':'' @ [LBRACE, RBRACE, CHR ''x'', RBRACE])"
proof -
  have "\<not> is_name_start (CHR '':'')" "\<not> is_name_start RBRACE" "CHR '':'' \<noteq> LBRACE" "RBRACE \<noteq> LBRACE" "CHR ''x'' \<noteq> LBRACE"
    by code_simp+
  then show ?thesis by (auto simp: names_field_def Cons_eq_append_conv)
qed

theorem checked_strings_format_witness:
  "case fmt_format (\<lambda>(v :: unit) how. Inr (1, ''1'')) \<lparr>dg_grouping = [], dg_thousands_sep = []\<rparr>
       (LBRACE # '':'' @ [LBRACE, RBRACE, CHR ''x'', RBRACE]) (map (Pair None) [Arg_int 26, Arg_uint 5]) of
     Inr t \<Rightarrow> True | Inl e \<Rightarrow> False"
proof -
  have d: "get_dynamic_spec c (Arg_int 26 :: unit fmt_arg) = Inr 26" "get_dynamic_spec c (Arg_uint 5 :: unit fmt_arg) = Inr 5"
    if "c = width_checker \<or> c = precision_checker" for c
    using that by (auto simp: get_dynamic_spec_def width_checker_def precision_checker_def dynamic_checker_def INT_MAX_def)
  show ?thesis
    using checked_strings_format [of "[Arg_int 26, Arg_uint 5] :: unit fmt_arg list" "LBRACE # '':'' @ [LBRACE, RBRACE, CHR ''x'', RBRACE]"
        "\<lambda>v how. Inr (1, ''1'')" "\<lparr>dg_grouping = [], dg_thousands_sep = []\<rparr>"]
      example_names
    by (simp only: list.map arg_type.simps example_check list.set) (auto simp: d split: sum.splits)
qed

text \<open>
  C33: A width, a precision or an argument id is read exactly: a run of digits gives its value
  when that fits an \<^verbatim>\<open>int\<close> and the run has at most ten digits, leading zeros counted, and the error
  value of the caller otherwise, although the value is accumulated in 32 bits that wrap.
\<close>

theorem numbers_read_exactly:
  "parse_nonnegative_int s e =
     (let ds = takeWhile is_digit s
      in (if length ds \<le> 10 \<and> dec_val ds \<le> INT_MAX then int (dec_val ds) else e, dropWhile is_digit s))"
  by (rule parse_nonnegative_int_exact)

end
