(* ===== verification/FmtFloat.thy ===== *)
theory FmtFloat
  imports FmtCheck
begin

text \<open>
  Writing a floating-point value whose decimal digits are known (\<^verbatim>\<open>do_write_float\<close>, \<^verbatim>\<open>write_significand\<close>,
  \<^verbatim>\<open>write_exponent\<close>, \<^verbatim>\<open>write_nonfinite\<close>, \<^verbatim>\<open>write_float\<close> of \<^verbatim>\<open>src/include/fmt/format.h\<close>): the choice between
  fixed and exponent notation, the decimal point, zeros before and behind, sign and padding. How
  the digits are computed is an argument, the record \<open>float_ops\<close>. The main property is that the text
  means the digits times the power of ten they came with: the model of \<^verbatim>\<open>std::stod\<close> reads it back.
\<close>

section \<open>Parts of the text\<close>

fun sign_char :: "fmt_sign \<Rightarrow> char" where
  "sign_char Sign_none = CHR 0x00"
| "sign_char Sign_minus = CHR ''-''"
| "sign_char Sign_plus = CHR ''+''"
| "sign_char Sign_space = CHR '' ''"

definition sign_prefix_text_of :: "fmt_sign \<Rightarrow> string" where
  "sign_prefix_text_of s = (if s = Sign_none then [] else [sign_char s])"

definition write_exponent :: "int \<Rightarrow> string" where
  "write_exponent e =
     (let n = nat \<bar>e\<bar>; top = n div 100; low = if 100 \<le> n then n mod 100 else n
      in (if e < 0 then ''-'' else ''+'') @
         (if 100 \<le> n then (if 1000 \<le> n then [digits2_table ! (2 * top)] else []) @ [digits2_table ! Suc (2 * top)] else []) @
         [digits2_table ! (2 * low), digits2_table ! Suc (2 * low)])"

text \<open>
  A decimal number is digits and an exponent of ten; the digits are a text or an integer of the
  shortest representation.
\<close>

datatype decimal_fp = Big_decimal string int | Short_decimal fmt_uint int

fun df_exponent :: "decimal_fp \<Rightarrow> int" where
  "df_exponent (Big_decimal ds e) = e" | "df_exponent (Short_decimal u e) = e"

fun significand_size :: "decimal_fp \<Rightarrow> nat" where
  "significand_size (Big_decimal ds e) = length ds" | "significand_size (Short_decimal u e) = count_digits u"

fun write_significand :: "decimal_fp \<Rightarrow> string fmt" where
  "write_significand (Big_decimal ds e) = Inr ds"
| "write_significand (Short_decimal u e) = from_option (decimal_text u (count_digits u))"

definition write_significand_zeros :: "decimal_fp \<Rightarrow> int \<Rightarrow> digit_grouping \<Rightarrow> string fmt" where
  "write_significand_zeros f exponent g =
     fmt_bind (write_significand f) (\<lambda>ds.
       let t = ds @ replicate (nat exponent) (CHR ''0'')
       in Inr (if dg_thousands_sep g = [] then t else apply_grouping g t))"

text \<open>
  The digits of an integer around the decimal point, into a buffer from the right: pairs of
  fractional digits, the odd one, the point, the integral part. \<open>p\<close> is the position of the output.
\<close>

fun pairs_loop :: "nat \<Rightarrow> nat \<Rightarrow> nat \<Rightarrow> string \<Rightarrow> (nat \<times> nat \<times> string) option" where
  "pairs_loop 0 v p buf = Some (v, p, buf)"
| "pairs_loop (Suc i) v p buf =
     (if p < 2 then None else pairs_loop i (v div 100) (p - 2) (copy2 buf (p - 2) (v mod 100)))"

definition write_point_uint :: "string \<Rightarrow> nat \<Rightarrow> nat \<Rightarrow> nat \<Rightarrow> char \<Rightarrow> (nat \<times> string) option" where
  "write_point_uint buf v count integral point =
     (if point = CHR 0x00 then map_option (\<lambda>r. (count, snd r)) (format_decimal buf v count)
      else if length buf < count + 1 then None
      else case pairs_loop ((count - integral) div 2) v (count + 1) buf of None \<Rightarrow> None
        | Some (v, p, buf) \<Rightarrow>
            (let odd = (count - integral) mod 2 \<noteq> 0;
                 v' = (if odd then v div 10 else v);
                 p' = (if odd then p - 1 else p);
                 buf' = (if odd then buf[p - 1 := char_of (48 + v mod 10)] else buf)
             in if p' < 1 \<or> p' - 1 < integral then None
                else map_option (\<lambda>r. (count + 1, take (p' - 1 - integral) buf' @ snd r))
                  (format_decimal (drop (p' - 1 - integral) (buf'[p' - 1 := point])) v' integral)))"

fun write_significand_point :: "decimal_fp \<Rightarrow> nat \<Rightarrow> char \<Rightarrow> string fmt" where
  "write_significand_point (Big_decimal ds e) integral point =
     Inr (take integral ds @ (if point = CHR 0x00 then [] else point # drop integral ds))"
| "write_significand_point (Short_decimal u e) integral point =
     from_option (map_option (\<lambda>(n, buf). take n buf)
       (write_point_uint (replicate (digits10 u + 2) (CHR 0x00)) (uint_nat u) (count_digits u) integral point))"

definition write_significand_grouped :: "decimal_fp \<Rightarrow> nat \<Rightarrow> char \<Rightarrow> digit_grouping \<Rightarrow> string fmt" where
  "write_significand_grouped f integral point g =
     fmt_bind (write_significand_point f integral point) (\<lambda>t.
       Inr (if dg_thousands_sep g = [] then t else apply_grouping g (take integral t) @ drop integral t))"

section \<open>The layout\<close>

definition output_exp :: "decimal_fp \<Rightarrow> int" where
  "output_exp f = df_exponent f + int (significand_size f) - 1"

definition use_exp_format :: "decimal_fp \<Rightarrow> float_specs \<Rightarrow> bool" where
  "use_exp_format f fs =
     (if fs_format fs = Float_exp then True
      else if fs_format fs \<noteq> Float_general then False
      else output_exp f < -4 \<or> (if 0 < fs_precision fs then fs_precision fs else 16) \<le> output_exp f)"

definition exp_layout :: "decimal_fp \<Rightarrow> 'a fmt_specs_scheme \<Rightarrow> float_specs \<Rightarrow> char \<Rightarrow> piece fmt" where
  "exp_layout f specs fs point =
     (let n = significand_size f;
          zeros = (if fs_showpoint fs \<and> int n < fs_precision fs then nat (fs_precision fs - int n) else 0);
          point' = (if \<not> fs_showpoint fs \<and> n = 1 then CHR 0x00 else point);
          ae = nat \<bar>output_exp f\<bar>;
          exp_digits = (if 100 \<le> ae then (if 1000 \<le> ae then 4 else 3) else 2);
          sz = n + length (sign_prefix_text_of (fs_sign fs)) + zeros + (if point' = CHR 0x00 then 0 else 1) + 2 + exp_digits
      in fmt_bind (write_significand_point f 1 point') (\<lambda>ds.
           let t = sign_prefix_text_of (fs_sign fs) @ ds @ replicate zeros (CHR ''0'') @
                 (if fs_upper fs then ''E'' else ''e'') @ write_exponent (output_exp f)
           in Inr (if 0 < sp_width specs then write_padded Align_right specs sz sz t else (sz, t))))"

definition no_grouping :: digit_grouping where
  "no_grouping = \<lparr>dg_grouping = [], dg_thousands_sep = []\<rparr>"

definition fixed_layout ::
    "decimal_fp \<Rightarrow> 'a fmt_specs_scheme \<Rightarrow> float_specs \<Rightarrow> char \<Rightarrow> digit_grouping \<Rightarrow> piece fmt" where
  "fixed_layout f specs fs point g =
     (let n = significand_size f; e = df_exponent f + int n; s = sign_prefix_text_of (fs_sign fs);
          sz = n + length s;
          padded = (\<lambda>sz t. write_padded Align_right specs sz sz (s @ t))
      in if 0 \<le> df_exponent f then
           (let zeros = (if \<not> fs_showpoint fs then 0
                         else if fs_precision fs - e \<le> 0 \<and> fs_format fs \<noteq> Float_fixed then 1
                         else nat (fs_precision fs - e));
                sz = sz + nat (df_exponent f) + (if fs_showpoint fs then 1 else 0) + zeros + count_separators g (nat e)
            in fmt_bind (write_significand_zeros f (df_exponent f) g) (\<lambda>ds.
               Inr (padded sz (ds @ (if fs_showpoint fs then point # replicate zeros (CHR ''0'') else [])))))
         else if 0 < e then
           (let zeros = (if fs_showpoint fs then nat (fs_precision fs - int n) else 0);
                sz = sz + 1 + zeros + count_separators g (nat e)
            in fmt_bind (write_significand_grouped f (nat e) point g) (\<lambda>ds.
               Inr (padded sz (ds @ replicate zeros (CHR ''0'')))))
         else
           (let zeros = (if n = 0 \<and> 0 \<le> fs_precision fs \<and> fs_precision fs < - e then nat (fs_precision fs) else nat (- e));
                pointy = (zeros \<noteq> 0 \<or> n \<noteq> 0 \<or> fs_showpoint fs)
            in fmt_bind (write_significand f) (\<lambda>ds.
               Inr (padded (sz + 1 + (if pointy then 1 else 0) + zeros)
                 (''0'' @ (if pointy then point # replicate zeros (CHR ''0'') @ ds else []))))))"

definition do_write_float ::
    "char \<Rightarrow> digit_grouping \<Rightarrow> decimal_fp \<Rightarrow> 'a fmt_specs_scheme \<Rightarrow> float_specs \<Rightarrow> piece fmt" where
  "do_write_float locale_point g f specs fs =
     (let point = (if fs_locale fs then locale_point else CHR ''.'')
      in if use_exp_format f fs then exp_layout f specs fs point
         else fixed_layout f specs fs point (if fs_locale fs then g else no_grouping))"

definition write_nonfinite :: "bool \<Rightarrow> 'a fmt_specs_scheme \<Rightarrow> float_specs \<Rightarrow> piece" where
  "write_nonfinite is_nan specs fs =
     (let str = (if is_nan then (if fs_upper fs then ''NAN'' else ''nan'') else (if fs_upper fs then ''INF'' else ''inf''));
          sz = 3 + length (sign_prefix_text_of (fs_sign fs));
          fill = (if length (sp_fill specs) = 1 \<and> hd (sp_fill specs) = CHR ''0'' then '' '' else sp_fill specs)
      in write_padded Align_left (specs\<lparr>sp_fill := fill\<rparr>) sz sz (sign_prefix_text_of (fs_sign fs) @ str))"

section \<open>Values\<close>

text \<open>
  What is asked of a value: its sign, its kind, and of its absolute value the digits to a
  precision, the shortest digits, and the hexadecimal text. \<open>fo_fast\<close> says whether the type is one
  the shortest digits are computed for, \<open>fo_single\<close> whether it is \<^verbatim>\<open>float\<close>.
\<close>

record 'f float_ops =
  fo_negative :: "'f \<Rightarrow> bool"
  fo_finite :: "'f \<Rightarrow> bool"
  fo_nan :: "'f \<Rightarrow> bool"
  fo_single :: "'f \<Rightarrow> bool"
  fo_fast :: "'f \<Rightarrow> bool"
  fo_digits :: "'f \<Rightarrow> int \<Rightarrow> float_specs \<Rightarrow> string \<times> int"
  fo_shortest :: "'f \<Rightarrow> fmt_uint \<times> int"
  fo_hex :: "'f \<Rightarrow> int \<Rightarrow> float_specs \<Rightarrow> string"
  fo_point :: char

text \<open>
  With numeric alignment the sign goes first and the width left is one less. The precision is six
  by default, one digit more in exponent notation, and no digit means one otherwise.
\<close>

definition float_precision :: "'a fmt_specs_scheme \<Rightarrow> float_specs \<Rightarrow> int fmt" where
  "float_precision specs fs =
     (let p = (if 0 \<le> sp_precision specs \<or> sp_type specs = P_none then sp_precision specs else 6)
      in if fs_format fs = Float_exp then (if p = int INT_MAX then Inl Number_too_big else Inr (p + 1))
         else if fs_format fs \<noteq> Float_fixed \<and> p = 0 then Inr 1 else Inr p)"

definition write_float_value ::
    "'f float_ops \<Rightarrow> digit_grouping \<Rightarrow> 'f \<Rightarrow> 'a fmt_specs_scheme \<Rightarrow> float_specs \<Rightarrow> piece fmt" where
  "write_float_value ops g v specs fs =
     (let fs = fs\<lparr>fs_sign := if fo_negative ops v then Sign_minus
                             else if sp_sign specs = Sign_minus then Sign_none else sp_sign specs\<rparr>
      in if \<not> fo_finite ops v then Inr (write_nonfinite (fo_nan ops v) specs fs)
         else
           (let early = (sp_align specs = Align_numeric \<and> fs_sign fs \<noteq> Sign_none);
                front = (if early then [sign_char (fs_sign fs)] else []);
                specs = (if early \<and> sp_width specs \<noteq> 0 then specs\<lparr>sp_width := sp_width specs - 1\<rparr> else specs);
                fs = (if early then fs\<lparr>fs_sign := Sign_none\<rparr> else fs)
            in fmt_bind
                 (if fs_format fs = Float_hex then
                    Inr (write_bytes Align_right
                      (sign_prefix_text_of (fs_sign fs) @ fo_hex ops v (sp_precision specs) fs) specs)
                  else fmt_bind (float_precision specs fs) (\<lambda>p.
                    let fs = (if fo_single ops v then fs\<lparr>fs_binary32 := True\<rparr> else fs);
                        (ds, e) = fo_digits ops v p fs
                    in do_write_float (fo_point ops) g (Big_decimal ds e) specs (fs\<lparr>fs_precision := p\<rparr>)))
                 (\<lambda>(n, t). Inr (length front + n, front @ t))))"

definition write_float_default :: "'f float_ops \<Rightarrow> digit_grouping \<Rightarrow> 'f \<Rightarrow> piece fmt" where
  "write_float_default ops g v =
     (if fo_fast ops v then
        (let fs = (if fo_negative ops v then float_specs0\<lparr>fs_sign := Sign_minus\<rparr> else float_specs0)
         in if \<not> fo_finite ops v then Inr (write_nonfinite (fo_nan ops v) specs0 fs)
            else case fo_shortest ops v of (u, e) \<Rightarrow> do_write_float (fo_point ops) g (Short_decimal u e) specs0 fs)
      else fmt_bind (parse_float_type_spec specs0) (write_float_value ops g v specs0))"

text \<open>The writer the formatter takes.\<close>

definition float_writer_of :: "'f float_ops \<Rightarrow> digit_grouping \<Rightarrow> 'f float_writer" where
  "float_writer_of ops g v how =
     (case how of None \<Rightarrow> write_float_default ops g v
      | Some (specs, fs) \<Rightarrow> write_float_value ops g v specs fs)"

section \<open>An integer of digits is its numeral\<close>

lemma show_nat_fixed: "k < length (show_nat v) \<Longrightarrow> show_nat v = show_nat (v div 10 ^ k) @ show_fixed k v"
proof (induction k arbitrary: v)
  case (Suc k)
  have v: "10 \<le> v" using Suc.prems by (cases "v < 10") (simp_all add: show_nat_single)
  then show ?case using Suc.prems Suc.IH [of "v div 10"] by (simp add: show_nat_snoc [OF v] div_mult2_eq)
qed simp

lemma show_nat_length_div: "k < length (show_nat v) \<Longrightarrow> length (show_nat (v div 10 ^ k)) = length (show_nat v) - k"
  using arg_cong [OF show_nat_fixed, of k v length] by simp

lemma show_fixed_two: "show_fixed (Suc (Suc k)) v = show_fixed k (v div 100) @ [digit_char (v div 10), digit_char v]"
  by (simp add: div_mult2_eq [symmetric])

lemma digits_mod_100: "digit_char (v mod 100 div 10) = digit_char (v div 10)" "digit_char (v mod 100) = digit_char v"
proof -
  have "v mod 100 = 10 * (v div 10 mod 10) + v mod 10" using mod_mult2_eq [of v 10 10] by simp
  then have "v mod 100 div 10 = v div 10 mod 10" "v mod 100 mod 10 = v mod 10" by simp_all
  then show "digit_char (v mod 100 div 10) = digit_char (v div 10)" "digit_char (v mod 100) = digit_char v"
    by (simp_all add: digit_char_def)
qed

lemma pairs_loop_text:
  "2 * i \<le> p \<Longrightarrow> p \<le> length buf \<Longrightarrow>
   pairs_loop i v p buf = Some (v div 100 ^ i, p - 2 * i, take (p - 2 * i) buf @ show_fixed (2 * i) v @ drop p buf)"
proof (induction i arbitrary: v p buf)
  case (Suc i)
  let ?b = "copy2 buf (p - 2) (v mod 100)"
  have b: "?b = take (p - 2) buf @ [digit_char (v div 10), digit_char v] @ drop p buf"
    using copy2_text [of "v mod 100" p buf] Suc.prems digits_mod_100 [of v] by simp
  have "pairs_loop (Suc i) v p buf = pairs_loop i (v div 100) (p - 2) ?b" using Suc.prems by simp
  also have "\<dots> = Some (v div 100 div 100 ^ i, p - 2 - 2 * i, take (p - 2 - 2 * i) ?b @ show_fixed (2 * i) (v div 100) @ drop (p - 2) ?b)"
    using Suc.prems by (intro Suc.IH) (simp_all add: b)
  also have "v div 100 div 100 ^ i = v div 100 ^ Suc i" by (simp add: div_mult2_eq)
  also have "take (p - 2 - 2 * i) ?b @ show_fixed (2 * i) (v div 100) @ drop (p - 2) ?b =
      take (p - 2 * Suc i) buf @ show_fixed (2 * Suc i) v @ drop p buf"
    using Suc.prems show_fixed_two [of "2 * i" v] by (simp add: b)
  finally show ?case by simp
qed simp

lemma write_point_uint_text:
  assumes "n = length (show_nat v)" "1 \<le> i" "i \<le> n" "n + 1 \<le> length buf" "point \<noteq> CHR 0x00"
  shows "\<exists>r. write_point_uint buf v n i point = Some (n + 1, take i (show_nat v) @ point # drop i (show_nat v) @ r)"
proof -
  let ?k = "n - i"
  have k: "?k < n" using assms by simp
  have s: "show_nat v = show_nat (v div 10 ^ ?k) @ show_fixed ?k v" using show_nat_fixed k assms(1) by blast
  have l: "length (show_nat (v div 10 ^ ?k)) = i" using show_nat_length_div [of ?k v] k assms(1,3) by simp
  have ti: "take i (show_nat v) = show_nat (v div 10 ^ ?k)" "drop i (show_nat v) = show_fixed ?k v"
    using l by (subst s, simp)+
  let ?h = "?k div 2"
  have kh: "?k = 2 * ?h + ?k mod 2" by simp
  let ?p = "n + 1 - 2 * ?h"
  let ?b = "take ?p buf @ show_fixed (2 * ?h) v @ drop (n + 1) buf"
  have pl: "pairs_loop ?h v (n + 1) buf = Some (v div 100 ^ ?h, ?p, ?b)"
    using assms by (intro pairs_loop_text) auto
  define v' p' b' where "v' = (if ?k mod 2 \<noteq> 0 then v div 100 ^ ?h div 10 else v div 100 ^ ?h)"
    and "p' = (if ?k mod 2 \<noteq> 0 then ?p - 1 else ?p)"
    and "b' = (if ?k mod 2 \<noteq> 0 then ?b[?p - 1 := char_of (48 + v div 100 ^ ?h mod 10)] else ?b)"
  have pow: "(100 :: nat) ^ ?h = 10 ^ (2 * ?h)" by (simp add: power_mult)
  have r: "v' = v div 10 ^ ?k \<and> p' = i + 1 \<and> length b' = length buf \<and> drop (i + 1) b' = show_fixed ?k v @ drop (n + 1) buf"
  proof (cases "?k mod 2 = 0")
    case True
    then have h: "2 * ?h = ?k" by presburger
    have "v div 100 ^ ?h = v div 10 ^ ?k" unfolding pow h ..
    moreover have "?p = i + 1" using h assms(3) by simp
    ultimately show ?thesis using True h assms(3,4) by (simp add: v'_def p'_def b'_def)
  next
    case False
    then have h: "2 * ?h = ?k - 1" "1 \<le> ?k" by presburger+
    have p: "?p = i + 2" using h assms by simp
    have ib: "i + 2 \<le> length buf" using h(2) assms(3,4) by arith
    have v: "v div 100 ^ ?h div 10 = v div 10 ^ ?k"
    proof -
      have "(10 :: nat) ^ ?k = 10 ^ (?k - 1) * 10" using h(2) by (cases ?k) simp_all
      then show ?thesis by (simp only: pow h(1) div_mult2_eq [symmetric])
    qed
    have sf: "show_fixed ?k v = digit_char (v div 100 ^ ?h) # show_fixed (2 * ?h) v"
    proof -
      have "show_fixed (Suc j) v = digit_char (v div 10 ^ j) # show_fixed j v" for j v
        by (induction j arbitrary: v) (simp_all add: div_mult2_eq)
      from this [of "?k - 1" v] h(2) have "show_fixed ?k v = digit_char (v div 10 ^ (?k - 1)) # show_fixed (?k - 1) v"
        by (cases ?k) simp_all
      then show ?thesis unfolding pow h(1) .
    qed
    have "b' = take (i + 1) buf @ digit_char (v div 100 ^ ?h) # show_fixed (2 * ?h) v @ drop (n + 1) buf"
      using ib False unfolding b'_def p
      by (simp add: list_update_append upd_conv_take_nth_drop digit_char_def min_def)
    note b' = this
    have k1: "i + 1 + Suc (2 * ?h) = n + 1" using h by arith
    have "length b' = length buf" unfolding b' using k1 assms(4) ib by simp
    moreover have "drop (i + 1) b' = show_fixed ?k v @ drop (n + 1) buf" unfolding b' sf using ib by simp
    moreover have "v' = v div 10 ^ ?k" "p' = i + 1" using False v p by (simp_all add: v'_def p'_def)
    ultimately show ?thesis by blast
  qed
  let ?c = "b'[i := point]"
  have fd: "format_decimal ?c (v div 10 ^ ?k) i = Some (0, show_nat (v div 10 ^ ?k) @ drop i ?c)"
    using l r assms by (subst format_decimal_text) auto
  have di: "drop i ?c = point # show_fixed ?k v @ drop (n + 1) buf"
    using r assms by (simp add: drop_update_swap [symmetric] Cons_nth_drop_Suc [symmetric] drop_Suc_Cons)
  have ne: "(point = CHR 0x00) = False" "(length buf < n + 1) = False" using assms by auto
  have "write_point_uint buf v n i point =
      (if p' < 1 \<or> p' - 1 < i then None
       else map_option (\<lambda>r. (n + 1, take (p' - 1 - i) b' @ snd r)) (format_decimal (drop (p' - 1 - i) (b'[p' - 1 := point])) v' i))"
    unfolding write_point_uint_def ne if_False pl option.case prod.case Let_def v'_def p'_def b'_def by (rule refl)
  also have "\<dots> = Some (n + 1, show_nat (v div 10 ^ ?k) @ drop i ?c)" using r fd by simp
  finally have "write_point_uint buf v n i point = Some (n + 1, show_nat (v div 10 ^ ?k) @ drop i ?c)" .
  then show ?thesis unfolding di ti by auto
qed

fun df_digits :: "decimal_fp \<Rightarrow> string" where
  "df_digits (Big_decimal ds e) = ds" | "df_digits (Short_decimal u e) = show_nat (uint_nat u)"

lemma significand_size_digits: "significand_size f = length (df_digits f)"
  by (cases f) (simp_all add: count_digits_decimal)

lemma write_significand_digits: "write_significand f = Inr (df_digits f)"
  by (cases f) (simp_all add: from_option_def decimal_text_digits)

lemma write_significand_point_digits:
  assumes "1 \<le> i" "i \<le> length (df_digits f)" "point = CHR 0x00 \<Longrightarrow> i = length (df_digits f)"
  shows "write_significand_point f i point =
    Inr (take i (df_digits f) @ (if point = CHR 0x00 then [] else point # drop i (df_digits f)))"
proof (cases f)
  case (Short_decimal u e)
  have n: "count_digits u = length (show_nat (uint_nat u))" by (rule count_digits_decimal)
  have "uint_nat u < 10 ^ Suc (digits10 u)" using uint_bits [of u] by (cases u) simp_all
  then have l: "length (show_nat (uint_nat u)) \<le> Suc (digits10 u)" using digits_le_iff by simp
  show ?thesis
  proof (cases "point = CHR 0x00")
    case True
    then show ?thesis using assms l
      by (simp add: Short_decimal write_point_uint_def n format_decimal_text from_option_def)
  next
    case False
    let ?ds = "show_nat (uint_nat u)"
    from write_point_uint_text [OF n, of i "replicate (digits10 u + 2) (CHR 0x00)" point] assms l False
    obtain r where w: "write_point_uint (replicate (digits10 u + 2) (CHR 0x00)) (uint_nat u) (count_digits u) i point =
        Some (count_digits u + 1, take i ?ds @ point # drop i ?ds @ r)"
      by (auto simp: Short_decimal n)
    have taken: "take (length a) (a @ r) = a" for a r :: string by simp
    have "count_digits u + 1 = length (take i ?ds @ point # drop i ?ds)" using assms(2) by (simp add: Short_decimal n)
    then have "take (count_digits u + 1) ((take i ?ds @ point # drop i ?ds) @ r) = take i ?ds @ point # drop i ?ds"
      by (simp only: taken)
    then show ?thesis using False
      unfolding Short_decimal write_significand_point.simps w option.map prod.case append.simps append_assoc
      by (simp only: from_option_def option.case df_digits.simps if_False)
  qed
qed simp

section \<open>Reading the text\<close>

lemma dec_val_zeros: "dec_val (ds @ replicate z (CHR ''0'')) = dec_val ds * 10 ^ z"
proof (induction z)
  case (Suc z)
  then show ?case by (simp add: replicate_append_same [symmetric] flip: append_assoc)
qed simp

lemma dec_val_leading: "dec_val (replicate a (CHR ''0'') @ ds) = dec_val ds"
  by (induction ds rule: rev_induct) (simp_all add: dec_val_zeros [of "[]", simplified] flip: append_assoc)

lemma ten_pow_shift: "10 ^ z * ten_pow (e - int z) = ten_pow e"
proof (cases "int z \<le> e")
  case True
  then have "nat e = z + nat (e - int z)" by simp
  then show ?thesis using True by (simp add: ten_pow_def power_add)
next
  case False
  show ?thesis
  proof (cases "0 \<le> e")
    case True
    then have "z = nat e + nat (int z - e)" using False by simp
    then have "(10 :: real) ^ z = 10 ^ nat e * 10 ^ nat (int z - e)" by (metis power_add)
    then show ?thesis using True False by (simp add: ten_pow_def)
  next
    case f: False
    then have "nat (int z - e) = z + nat (- e)" by simp
    then show ?thesis using f False by (simp add: ten_pow_def power_add)
  qed
qed

lemma padded_value:
  "real (dec_val (replicate a (CHR ''0'') @ ds @ replicate z (CHR ''0''))) * ten_pow (e - int z) = real (dec_val ds) * ten_pow e"
  using ten_pow_shift [of z e] by (simp add: dec_val_leading dec_val_zeros)

text \<open>A number as the writer lays it out: digits, a point with digits, an exponent.\<close>

definition number_text :: "string \<Rightarrow> bool \<Rightarrow> string \<Rightarrow> string \<Rightarrow> string" where
  "number_text i dot f x = i @ (if dot then CHR ''.'' # f else []) @ x"

definition exponent_text :: "string \<Rightarrow> bool" where
  "exponent_text x \<longleftrightarrow> x = [] \<or> hd x = CHR ''e'' \<or> hd x = CHR ''E''"

lemma dot_e_no_digit [simp]: "\<not> is_digit (CHR ''.'')" "\<not> is_digit (CHR ''e'')" "\<not> is_digit (CHR ''E'')"
  by (simp_all add: is_digit_def)

lemma lex_number_text:
  assumes "\<forall>c \<in> set i. is_digit c" "\<forall>c \<in> set f. is_digit c" "\<not> dot \<Longrightarrow> f = []" "exponent_text x"
  shows "lex_number (number_text i dot f x) = (i, f, exp_part x)"
proof -
  have stop: "x = [] \<or> \<not> is_digit (hd x)" using assms(4) by (auto simp: exponent_text_def)
  have td: "takeWhile is_digit (u @ r) = u" "dropWhile is_digit (u @ r) = r"
    if "\<forall>c \<in> set u. is_digit c" "r = [] \<or> \<not> is_digit (hd r)" for u r
    using that by (cases r; simp add: takeWhile_append2 dropWhile_append2)+
  show ?thesis
  proof (cases dot)
    case True
    have "takeWhile is_digit (number_text i dot f x) = i" "dropWhile is_digit (number_text i dot f x) = CHR ''.'' # f @ x"
      using td [OF assms(1), of "CHR ''.'' # f @ x"] by (simp_all add: number_text_def True)
    then show ?thesis using td [OF assms(2) stop] by (simp add: lex_number_def frac_part_def)
  next
    case False
    have "takeWhile is_digit (number_text i dot f x) = i" "dropWhile is_digit (number_text i dot f x) = x"
      using td [OF assms(1) stop] by (simp_all add: number_text_def False)
    moreover have "frac_part x = ([], x)"
      using assms(4) by (cases x) (auto simp: frac_part_def exponent_text_def)
    ultimately show ?thesis using assms(3) [OF False] by (simp only: lex_number_def Let_def prod.case)
  qed
qed

lemma lower_marks: "lower CHR ''.'' = CHR ''.''" "lower CHR ''e'' = CHR ''e''" "lower CHR ''E'' = CHR ''e''"
  by code_simp+

lemma not_special_text:
  assumes "i \<noteq> []" "\<forall>c \<in> set i. is_digit c" "exponent_text x"
  shows "\<not> special_number (number_text i dot f x)"
proof -
  obtain c r where i: "i = c # r" "is_digit c" using assms(1,2) by (cases i) auto
  have n: "lower d \<noteq> CHR ''x''" if "s = r @ (if dot then CHR ''.'' # f else []) @ x" "s = d # s'" for s d s'
  proof (cases r)
    case Nil
    then have "d = CHR ''.'' \<or> d = CHR ''e'' \<or> d = CHR ''E''"
      using that assms(3) by (cases dot) (auto simp: exponent_text_def)
    then show ?thesis using lower_marks by auto
  next
    case (Cons d' r')
    then have "is_digit d" using that assms(2) i by simp
    then show ?thesis using digit_simps by simp
  qed
  show ?thesis
  proof (cases "r @ (if dot then CHR ''.'' # f else []) @ x")
    case Nil
    then show ?thesis using digit_simps [OF i(2)] by (simp add: special_number_def number_text_def i(1))
  next
    case (Cons d s')
    then show ?thesis using n [OF refl Cons] digit_simps [OF i(2)]
      by (simp add: special_number_def number_text_def i(1) numeral_eq_Suc)
  qed
qed

lemma stod_number_text:
  assumes "i \<noteq> []" "\<forall>c \<in> set i. is_digit c" "\<forall>c \<in> set f. is_digit c" "\<not> dot \<Longrightarrow> f = []" "exponent_text x"
    "v = real (dec_val (i @ f)) * ten_pow (exp_part x - int (length f))" "double_range v"
  shows "stod (sign_prefix_text_of s @ number_text i dot f x) = Inr (if s = Sign_minus then - v else v)"
proof -
  obtain c r where i: "i = c # r" "is_digit c" using assms(1,2) by (cases i) auto
  have sp: "\<not> is_space (CHR ''-'')" "\<not> is_space (CHR ''+'')" "is_space (CHR '' '')" by (simp_all add: is_space_def)
  have sign: "take_sign (dropWhile is_space (sign_prefix_text_of s @ number_text i dot f x)) = (s = Sign_minus, number_text i dot f x)"
    using digit_simps [OF i(2)] sp by (cases s) (simp_all add: sign_prefix_text_of_def number_text_def i(1) take_sign_def)
  have "double_range (- v)" using assms(7) by (simp add: double_range_def)
  then show ?thesis
    using lex_number_text [OF assms(2-5)] not_special_text [OF assms(1,2,5)] assms(1,6,7)
    by (simp add: stod_def sign Let_def)
qed

lemma exp_part_written:
  assumes "\<bar>e\<bar> < 10000"
  shows "exp_part ((if u then ''E'' else ''e'') @ write_exponent e) = e"
    "exponent_text ((if u then ''E'' else ''e'') @ write_exponent e)"
    "length (write_exponent e) = 1 + (if 100 \<le> nat \<bar>e\<bar> then (if 1000 \<le> nat \<bar>e\<bar> then 4 else 3) else 2)"
proof -
  let ?n = "nat \<bar>e\<bar>"
  have n: "?n < 10000" using assms by simp
  define ds where "ds = (if 100 \<le> ?n then (if 1000 \<le> ?n then [digit_char (?n div 100 div 10)] else []) @ [digit_char (?n div 100)] else []) @
      [digit_char ((if 100 \<le> ?n then ?n mod 100 else ?n) div 10), digit_char (if 100 \<le> ?n then ?n mod 100 else ?n)]"
  have lo: "(if 100 \<le> ?n then ?n mod 100 else ?n) < 100" by simp
  have hi: "?n div 100 < 100" using n by simp
  have w: "write_exponent e = (if e < 0 then ''-'' else ''+'') @ ds"
    using digits2_rows [OF lo] digits2_rows [OF hi] by (simp add: write_exponent_def Let_def ds_def)
  have d: "\<forall>c \<in> set ds. is_digit c" by (auto simp: ds_def)
  have two: "dec_val (xs @ [digit_char a, digit_char b]) = 100 * dec_val xs + 10 * (a mod 10) + b mod 10" for xs a b
    using dec_val_snoc [of "xs @ [digit_char a]" "digit_char b"] by simp
  have m: "10 * (k div 10 mod 10) + k mod 10 = k" if "k < 100" for k :: nat
  proof -
    have "k div 10 < 10" using that by simp
    then show ?thesis using div_mult_mod_eq [of k 10] by simp
  qed
  have "dec_val ds = ?n"
  proof (cases "100 \<le> ?n")
    case True
    have h: "dec_val ((if 1000 \<le> ?n then [digit_char (?n div 100 div 10)] else []) @ [digit_char (?n div 100)]) = ?n div 100"
    proof (cases "1000 \<le> ?n")
      case True
      then show ?thesis using two [of "[]"] m [OF hi] by simp
    next
      case False
      then have "?n div 100 < 10" by simp
      then show ?thesis using False dec_val_snoc [of "[]"] by simp
    qed
    have "?n mod 100 < 100" by simp
    from m [OF this] show ?thesis
      unfolding ds_def if_P [OF True] two h by (simp add: add.assoc)
  next
    case False
    then show ?thesis using two [of "[]" "?n div 10" ?n] m [of ?n] by (simp add: ds_def)
  qed
  moreover have "takeWhile is_digit ds = ds" using d by simp
  ultimately show "exp_part ((if u then ''E'' else ''e'') @ write_exponent e) = e"
    unfolding w by (cases "e < 0"; cases u) (simp_all add: exp_part_def take_sign_def Let_def lower_marks del: takeWhile_eq_all_conv)
  show "exponent_text ((if u then ''E'' else ''e'') @ write_exponent e)" by (simp add: exponent_text_def)
  show "length (write_exponent e) = 1 + (if 100 \<le> ?n then (if 1000 \<le> ?n then 4 else 3) else 2)"
    unfolding w ds_def by simp
qed

section \<open>The layout means the number\<close>

text \<open>\<open>number_layout v s t\<close>: behind the sign, \<open>t\<close> is a number whose digits and exponent make \<open>v\<close>.\<close>

definition number_layout :: "real \<Rightarrow> fmt_sign \<Rightarrow> string \<Rightarrow> bool" where
  "number_layout v s t \<longleftrightarrow> (\<exists>i dot f x. t = sign_prefix_text_of s @ number_text i dot f x \<and>
     i \<noteq> [] \<and> (\<forall>c \<in> set i. is_digit c) \<and> (\<forall>c \<in> set f. is_digit c) \<and> (dot \<or> f = []) \<and> exponent_text x \<and>
     v = real (dec_val (i @ f)) * ten_pow (exp_part x - int (length f)))"

definition df_value :: "decimal_fp \<Rightarrow> real" where
  "df_value f = real (dec_val (df_digits f)) * ten_pow (df_exponent f)"

lemma number_layout_stod:
  "number_layout v s t \<Longrightarrow> double_range v \<Longrightarrow> stod t = Inr (if s = Sign_minus then - v else v)"
  unfolding number_layout_def by (elim exE conjE) (rule ssubst, assumption, rule stod_number_text; blast)

lemma number_layoutI:
  assumes "i @ f = replicate a (CHR ''0'') @ df_digits d @ replicate z (CHR ''0'')" "exp_part x - int (length f) = df_exponent d - int z"
    "\<forall>c \<in> set (df_digits d). is_digit c" "i \<noteq> []" "dot \<or> f = []" "exponent_text x"
  shows "number_layout (df_value d) s (sign_prefix_text_of s @ number_text i dot f x)"
proof -
  have "\<forall>c \<in> set (i @ f). is_digit c" unfolding assms(1) using assms(3) by (auto simp: is_digit_def)
  then show ?thesis
    using assms(4,5,6) padded_value [of a "df_digits d" z "df_exponent d"]
    unfolding number_layout_def df_value_def assms(1) [symmetric] assms(2) [symmetric] set_append ball_Un
    by metis
qed

lemma exp_layout_text:
  assumes "df_digits f \<noteq> []" "\<forall>c \<in> set (df_digits f). is_digit c" "\<bar>output_exp f\<bar> < 10000"
  shows "\<exists>t. number_layout (df_value f) (fs_sign fs) t \<and>
    exp_layout f specs fs (CHR ''.'') =
      Inr (if 0 < sp_width specs then write_padded Align_right specs (length t) (length t) t else (length t, t))"
proof -
  let ?ds = "df_digits f" and ?s = "sign_prefix_text_of (fs_sign fs)"
  let ?x = "(if fs_upper fs then ''E'' else ''e'') @ write_exponent (output_exp f)"
  define zeros where "zeros = (if fs_showpoint fs \<and> int (length ?ds) < fs_precision fs then nat (fs_precision fs - int (length ?ds)) else 0)"
  define dot where "dot = (fs_showpoint fs \<or> length ?ds \<noteq> 1)"
  define t where "t = ?s @ number_text (take 1 ?ds) dot (drop 1 ?ds @ replicate zeros (CHR ''0'')) ?x"
  note x = exp_part_written(1,2) [OF assms(3), of "fs_upper fs"] exp_part_written(3) [OF assms(3)]
  have n: "1 \<le> length ?ds" using assms(1) by (cases ?ds) auto
  have z: "dot \<or> drop 1 ?ds @ replicate zeros (CHR ''0'') = []" by (auto simp: dot_def zeros_def)
  have l: "number_layout (df_value f) (fs_sign fs) t" unfolding t_def
    using x n z assms(1,2) by (intro number_layoutI [where a = 0 and z = zeros]) (auto simp: output_exp_def significand_size_digits of_nat_diff)
  have w: "write_significand_point f 1 (if dot then CHR ''.'' else CHR 0x00) =
      Inr (take 1 ?ds @ (if dot then CHR ''.'' # drop 1 ?ds else []))"
    using n by (subst write_significand_point_digits) (auto simp: dot_def split: if_splits)
  have p: "(if \<not> fs_showpoint fs \<and> significand_size f = 1 then CHR 0x00 else CHR ''.'') = (if dot then CHR ''.'' else CHR 0x00)"
    by (simp add: dot_def significand_size_digits)
  have e: "?s @ (take 1 ?ds @ (if dot then CHR ''.'' # drop 1 ?ds else [])) @ replicate zeros (CHR ''0'') @ ?x = t"
    using z by (cases dot) (auto simp: t_def number_text_def)
  have sz: "significand_size f + length ?s + zeros + (if dot then 1 else 0) + 2 +
      (if 100 \<le> nat \<bar>output_exp f\<bar> then (if 1000 \<le> nat \<bar>output_exp f\<bar> then 4 else 3) else 2) = length t"
    using n z unfolding e [symmetric] by (simp add: x(3) significand_size_digits) (simp add: dot_def)
  have c: "(if (if dot then CHR ''.'' else CHR 0x00) = CHR 0x00 then 0 else 1) = (if dot then 1 else 0 :: nat)" by simp
  have "exp_layout f specs fs (CHR ''.'') =
      Inr (if 0 < sp_width specs then write_padded Align_right specs (length t) (length t) t else (length t, t))"
    unfolding exp_layout_def Let_def p w fmt_bind_simps c zeros_def [unfolded significand_size_digits [symmetric], symmetric] sz e ..
  with l show ?thesis by blast
qed

lemma no_separators [simp]: "count_separators no_grouping n = 0" "dg_thousands_sep no_grouping = []"
  by (simp_all add: count_separators_def no_grouping_def sep_positions.simps [of _ "([], 0)"] next_sep_def)

lemma exponent_text_Nil [simp]: "exponent_text []" "exp_part [] = 0"
  by (simp_all add: exponent_text_def exp_part_def)

lemma number_layout_plain:
  assumes "i @ f = replicate a (CHR ''0'') @ df_digits d @ replicate z (CHR ''0'')" "int (length f) = int z - df_exponent d"
    "\<forall>c \<in> set (df_digits d). is_digit c" "i \<noteq> []"
  shows "number_layout (df_value d) s (sign_prefix_text_of s @ i @ CHR ''.'' # f)"
    "f = [] \<Longrightarrow> number_layout (df_value d) s (sign_prefix_text_of s @ i)"
  using number_layoutI [OF assms(1) _ assms(3,4), of "[]" True s] number_layoutI [OF assms(1) _ assms(3,4), of "[]" False s] assms(2)
  by (simp_all add: number_text_def)

lemma fixed_layout_text:
  assumes "df_digits f \<noteq> [] \<or> df_exponent f < 0" "\<forall>c \<in> set (df_digits f). is_digit c"
  shows "\<exists>t. number_layout (df_value f) (fs_sign fs) t \<and>
    fixed_layout f specs fs (CHR ''.'') no_grouping = Inr (write_padded Align_right specs (length t) (length t) t)"
proof -
  let ?ds = "df_digits f" and ?s = "sign_prefix_text_of (fs_sign fs)" and ?e = "df_exponent f + int (length (df_digits f))"
  note layout = number_layout_plain [OF _ _ assms(2), where s = "fs_sign fs"]
  note sizes = fixed_layout_def Let_def significand_size_digits write_significand_digits
  consider (whole) "0 \<le> df_exponent f" | (split) "df_exponent f < 0" "0 < ?e" | (small) "df_exponent f < 0" "?e \<le> 0" by linarith
  then show ?thesis
  proof cases
    case whole
    define z where "z = (if \<not> fs_showpoint fs then 0 else if fs_precision fs - ?e \<le> 0 \<and> fs_format fs \<noteq> Float_fixed then 1
      else nat (fs_precision fs - ?e))"
    let ?i = "?ds @ replicate (nat (df_exponent f)) (CHR ''0'')"
    let ?t = "?s @ ?i @ (if fs_showpoint fs then CHR ''.'' # replicate z (CHR ''0'') else [])"
    have i: "?i \<noteq> []" using whole assms(1) by auto
    have "number_layout (df_value f) (fs_sign fs) ?t"
    proof (cases "fs_showpoint fs")
      case True
      then show ?thesis
        using layout(1) [of ?i "replicate z (CHR ''0'')" 0 "nat (df_exponent f) + z", OF _ _ i] whole
        by (simp add: replicate_add)
    next
      case False
      then show ?thesis using layout(2) [of ?i "[]" 0 "nat (df_exponent f)", OF _ _ i] whole by simp
    qed
    moreover have "fixed_layout f specs fs (CHR ''.'') no_grouping = Inr (write_padded Align_right specs (length ?t) (length ?t) ?t)"
      using whole unfolding sizes z_def [symmetric]
      by (cases "fs_showpoint fs")
        (simp_all add: write_significand_zeros_def write_significand_digits Let_def ac_simps z_def [THEN trans, OF if_P])
    ultimately show ?thesis by blast
  next
    case split
    define z where "z = (if fs_showpoint fs then nat (fs_precision fs - int (length ?ds)) else 0)"
    let ?f = "drop (nat ?e) ?ds @ replicate z (CHR ''0'')"
    let ?t = "?s @ take (nat ?e) ?ds @ CHR ''.'' # ?f"
    have e: "1 \<le> nat ?e" "nat ?e \<le> length ?ds" using split by auto
    have i: "take (nat ?e) ?ds \<noteq> []" using e by (cases ?ds) (auto simp: nat_eq_iff2)
    have "int (length ?f) = int z - df_exponent f" using e split by (simp add: of_nat_diff)
    then have "number_layout (df_value f) (fs_sign fs) ?t"
      using layout(1) [of "take (nat ?e) ?ds" ?f 0 z, OF _ _ i] by simp
    moreover have "write_significand_grouped f (nat ?e) (CHR ''.'') no_grouping =
        Inr (take (nat ?e) ?ds @ CHR ''.'' # drop (nat ?e) ?ds)"
      using write_significand_point_digits [OF e, of "CHR ''.''"] by (simp add: write_significand_grouped_def)
    moreover have "length ?ds + length ?s + 1 + z = length ?t" using e by simp
    ultimately show ?thesis
      using split unfolding sizes z_def [symmetric] by (intro exI [of _ ?t]) (simp add: ac_simps)
  next
    case small
    define z where "z = (if length ?ds = 0 \<and> 0 \<le> fs_precision fs \<and> fs_precision fs < - ?e then nat (fs_precision fs) else nat (- ?e))"
    let ?t = "?s @ ''0'' @ (if z \<noteq> 0 \<or> ?ds \<noteq> [] \<or> fs_showpoint fs then CHR ''.'' # replicate z (CHR ''0'') @ ?ds else [])"
    have "number_layout (df_value f) (fs_sign fs) ?t"
    proof (cases "?ds = []")
      case True
      have "df_value f = df_value (Big_decimal [] (- int z))" using True by (simp add: df_value_def)
      moreover have "CHR ''0'' # replicate z (CHR ''0'') = replicate (Suc z) (CHR ''0'')" by simp
      ultimately show ?thesis
        using number_layout_plain [of "''0''" "replicate z (CHR ''0'')" "Suc z" "Big_decimal [] (- int z)" 0 "fs_sign fs"] True
        by (cases z) auto
    next
      case False
      then have "z = nat (- ?e)" by (simp add: z_def)
      then show ?thesis using layout(1) [of "''0''" "replicate z (CHR ''0'') @ ?ds" "Suc z" 0] small False by simp
    qed
    moreover have "fixed_layout f specs fs (CHR ''.'') no_grouping = Inr (write_padded Align_right specs (length ?t) (length ?t) ?t)"
      using small unfolding sizes z_def [symmetric] by (cases "?ds = []") (auto simp: ac_simps)
    ultimately show ?thesis by blast
  qed
qed

section \<open>The written text\<close>

lemma write_padded_text:
  "\<exists>l r t'. write_padded a specs (length t) (length t) t = (length t', t') \<and>
    t' = fill_text l (sp_fill specs) @ t @ fill_text r (sp_fill specs) \<and> (sp_width specs \<le> 0 \<longrightarrow> l = 0 \<and> r = 0)"
proof -
  let ?p = "nat (sp_width specs) - length t"
  let ?l = "drop_bit (padding_shifts a ! align_code (sp_align specs)) ?p"
  have "length (snd (write_padded a specs (length t) (length t) t)) = fst (write_padded a specs (length t) (length t) t)"
    by (rule write_padded_reserved [symmetric]) (rule refl)
  moreover have "snd (write_padded a specs (length t) (length t) t) =
      fill_text ?l (sp_fill specs) @ t @ fill_text (?p - ?l) (sp_fill specs)"
    by (auto simp: write_padded_def Let_def)
  ultimately show ?thesis
    by (intro exI [of _ ?l] exI [of _ "?p - ?l"] exI [of _ "snd (write_padded a specs (length t) (length t) t)"])
      (simp add: prod_eq_iff)
qed

lemma do_write_float_text:
  assumes "\<forall>c \<in> set (df_digits f). is_digit c"
    "df_digits f \<noteq> [] \<or> fs_format fs = Float_fixed \<and> df_exponent f < 0" "\<bar>output_exp f\<bar> < 10000" "\<not> fs_locale fs"
  shows "\<exists>l r core t. do_write_float pt g f specs fs = Inr (length t, t) \<and>
    t = fill_text l (sp_fill specs) @ core @ fill_text r (sp_fill specs) \<and>
    number_layout (df_value f) (fs_sign fs) core \<and> (sp_width specs \<le> 0 \<longrightarrow> t = core)"
proof -
  have nil: "fill_text 0 s = []" for s by (simp add: fill_text_def)
  have padded: ?thesis if n: "number_layout (df_value f) (fs_sign fs) core"
    and d: "do_write_float pt g f specs fs = Inr (write_padded Align_right specs (length core) (length core) core)" for core
  proof -
    from write_padded_text [of Align_right specs core] obtain l r t' where
      t: "write_padded Align_right specs (length core) (length core) core = (length t', t')"
      "t' = fill_text l (sp_fill specs) @ core @ fill_text r (sp_fill specs)" "sp_width specs \<le> 0 \<longrightarrow> l = 0 \<and> r = 0" by blast
    then have "sp_width specs \<le> 0 \<longrightarrow> t' = core" by (auto simp: nil)
    with n d t show ?thesis by (intro exI [of _ l] exI [of _ r] exI [of _ core] exI [of _ t']) simp
  qed
  show ?thesis
  proof (cases "use_exp_format f fs")
    case True
    then have "df_digits f \<noteq> []" using assms(2) by (auto simp: use_exp_format_def)
    from exp_layout_text [OF this assms(1,3)] obtain t where t: "number_layout (df_value f) (fs_sign fs) t"
      "exp_layout f specs fs (CHR ''.'') =
        Inr (if 0 < sp_width specs then write_padded Align_right specs (length t) (length t) t else (length t, t))" by blast
    show ?thesis
    proof (cases "0 < sp_width specs")
      case w: True
      then show ?thesis using padded [OF t(1)] t(2) True assms(4) by (simp add: do_write_float_def)
    next
      case False
      then show ?thesis using t True assms(4) nil
        by (intro exI [of _ 0] exI [of _ t]) (simp add: do_write_float_def)
    qed
  next
    case False
    have "df_digits f \<noteq> [] \<or> df_exponent f < 0" using assms(2) by blast
    from fixed_layout_text [OF this assms(1)] obtain t where "number_layout (df_value f) (fs_sign fs) t"
      "fixed_layout f specs fs (CHR ''.'') no_grouping = Inr (write_padded Align_right specs (length t) (length t) t)" by blast
    then show ?thesis using padded [of t] False assms(4) by (simp add: do_write_float_def)
  qed
qed

text \<open>
  C38: floating-point numbers read back. Whatever notation, precision, sign and padding the
  specifiers ask for, the text written for decimal digits and an exponent of ten (not localized, the
  exponent of at most four digits) is a core between fill characters, of the size announced, and
  \<^verbatim>\<open>std::stod\<close> reads the core as the digits times the power of ten, negated when the sign is.
\<close>

theorem floats_read_back:
  assumes "\<forall>c \<in> set (df_digits f). is_digit c"
    "df_digits f \<noteq> [] \<or> fs_format fs = Float_fixed \<and> df_exponent f < 0"
    "\<bar>output_exp f\<bar> < 10000" "\<not> fs_locale fs" "double_range (df_value f)"
  shows "\<exists>l r core t. do_write_float pt g f specs fs = Inr (length t, t) \<and>
    t = fill_text l (sp_fill specs) @ core @ fill_text r (sp_fill specs) \<and>
    stod core = Inr (if fs_sign fs = Sign_minus then - df_value f else df_value f) \<and>
    (sp_width specs \<le> 0 \<longrightarrow> t = core)"
  using do_write_float_text [OF assms(1-4), of pt g specs] number_layout_stod [OF _ assms(5)] by blast

theorem floats_read_back_witness:
  "\<exists>l r core t. do_write_float (CHR '','') no_grouping (Short_decimal (U64 1234) (-2))
       (specs0\<lparr>sp_width := 8\<rparr>) (float_specs0\<lparr>fs_sign := Sign_minus\<rparr>) = Inr (length t, t) \<and>
     t = fill_text l '' '' @ core @ fill_text r '' '' \<and> stod core = Inr (- (1234 / 100)) \<and>
     (8 \<le> (0 :: int) \<longrightarrow> t = core)"
proof -
  let ?f = "Short_decimal (U64 1234) (-2)" and ?specs = "specs0\<lparr>sp_width := 8\<rparr>" and ?fs = "float_specs0\<lparr>fs_sign := Sign_minus\<rparr>"
  have d: "df_digits ?f = ''1234''" by code_simp
  have v: "df_value ?f = 1234 / 100" by (simp add: df_value_def d ten_pow_def)
  have "double_range (1234 / 100)" by (simp add: double_range_def)
  moreover have "\<bar>output_exp ?f\<bar> < 10000" unfolding output_exp_def significand_size_digits d by simp
  moreover have "\<forall>c \<in> set (df_digits ?f). is_digit c" unfolding d by code_simp
  ultimately show ?thesis
    using floats_read_back [of ?f ?fs "CHR '',''" no_grouping ?specs]
    by (simp add: d v float_specs0_def)
qed

end
