(* ===== verification/FmtBigint.thy ===== *)
theory FmtBigint
  imports FmtCore
begin

text \<open>
  The big integers of \<^verbatim>\<open>src/include/fmt/format.h\<close> (class \<^verbatim>\<open>bigint\<close>): 32-bit digits, the least
  significant first, and an exponent that counts zero digits below them. Each operation on digits
  is translated with the widths of its intermediate words; \<open>None\<close> stands for a failed assertion or
  an access outside the digits. The lemmas give the value of every result, so that no carry is
  lost, and say what the two comparisons really decide.
\<close>

type_synonym u64 = "64 word"
type_synonym u128 = "128 word"

section \<open>Digits\<close>

record bigint =
  bi_bigits :: "u32 list"
  bi_exp :: nat

definition subtract_bigits :: "u32 \<Rightarrow> u32 \<Rightarrow> u32 \<Rightarrow> u32 \<times> u32" where
  "subtract_bigits x y borrow =
     (let result = (ucast x :: u64) - ucast y - ucast borrow
      in (ucast result, ucast (drop_bit 63 result)))"

text \<open>The leading zeros are at the end; one digit stays.\<close>

fun drop_leading :: "u32 list \<Rightarrow> u32 list" where
  "drop_leading (x # y # r) = (if x = 0 then drop_leading (y # r) else x # y # r)"
| "drop_leading s = s"

definition remove_leading_zeros :: "u32 list \<Rightarrow> u32 list" where
  "remove_leading_zeros s = rev (drop_leading (rev s))"

fun borrow_loop :: "u32 list \<Rightarrow> u32 \<Rightarrow> u32 list option" where
  "borrow_loop s borrow =
     (if borrow = 0 then Some s
      else case s of [] \<Rightarrow> None
        | x # r \<Rightarrow> (case subtract_bigits x 0 borrow of (y, b) \<Rightarrow> map_option (Cons y) (borrow_loop r b)))"

declare borrow_loop.simps [simp del]

fun subtract_loop :: "u32 list \<Rightarrow> u32 list \<Rightarrow> u32 \<Rightarrow> u32 list option" where
  "subtract_loop s [] borrow = borrow_loop s borrow"
| "subtract_loop [] (y # t) borrow = None"
| "subtract_loop (x # s) (y # t) borrow =
     (case subtract_bigits x y borrow of (z, b) \<Rightarrow> map_option (Cons z) (subtract_loop s t b))"

fun multiply_loop :: "u32 list \<Rightarrow> u32 \<Rightarrow> u32 \<Rightarrow> u32 list" where
  "multiply_loop [] v carry = (if carry \<noteq> 0 then [carry] else [])"
| "multiply_loop (x # s) v carry =
     (let result = (ucast x :: u64) * ucast v + ucast carry
      in ucast result # multiply_loop s v (ucast (drop_bit 32 result)))"

text \<open>The digits of a wide word: a carry is pushed until nothing is left.\<close>

function carry_bigits :: "'a::len word \<Rightarrow> u32 list" where
  "carry_bigits c = (if c = 0 then [] else ucast c # carry_bigits (drop_bit 32 c))"
  by pat_completeness auto

termination
proof (relation "measure unat")
  fix c :: "'a::len word"
  assume "c \<noteq> 0"
  then have "0 < unat c" using unat_eq_zero by auto
  then have "unat c div 2 ^ 32 < unat c" by (intro div_less_dividend) simp_all
  then show "(drop_bit 32 c, c) \<in> measure unat" by (simp only: in_measure unat_drop_bit_eq drop_bit_eq_div [where 'a = nat])
qed simp

declare carry_bigits.simps [simp del]

text \<open>A multiplier of two halves of \<open>h\<close> bits, \<open>h\<close> being half the width of the word.\<close>

fun multiply_wide_loop :: "nat \<Rightarrow> u32 list \<Rightarrow> 'a::len word \<Rightarrow> 'a word \<Rightarrow> 'a word \<Rightarrow> u32 list" where
  "multiply_wide_loop h [] low high carry = carry_bigits carry"
| "multiply_wide_loop h (x # s) low high carry =
     (let result = low * ucast x + ucast (ucast carry :: u32);
          carry = push_bit (h - 32) (high * ucast x) + drop_bit 32 result + drop_bit 32 carry
      in ucast result # multiply_wide_loop h s low high carry)"

fun shift_loop :: "u32 list \<Rightarrow> nat \<Rightarrow> u32 \<Rightarrow> u32 list" where
  "shift_loop [] n carry = (if carry \<noteq> 0 then [carry] else [])"
| "shift_loop (x # s) n carry = (push_bit n x + carry) # shift_loop s n (drop_bit (32 - n) x)"

text \<open>The digits at the same places, the most significant first; then the number of digits decides.\<close>

fun compare_loop :: "u32 list \<Rightarrow> u32 list \<Rightarrow> int" where
  "compare_loop (x # s) (y # t) = (if x \<noteq> y then (if y < x then 1 else -1) else compare_loop s t)"
| "compare_loop [] [] = 0"
| "compare_loop (x # s) [] = 1"
| "compare_loop [] (y # t) = -1"

section \<open>Operations\<close>

definition bi_zero :: bigint where
  "bi_zero = \<lparr>bi_bigits = [], bi_exp = 0\<rparr>"

definition bi_assign :: "'a::len word \<Rightarrow> bigint" where
  "bi_assign n = \<lparr>bi_bigits = ucast n # carry_bigits (drop_bit 32 n), bi_exp = 0\<rparr>"

definition num_bigits :: "bigint \<Rightarrow> nat" where
  "num_bigits b = length (bi_bigits b) + bi_exp b"

definition bi_compare :: "bigint \<Rightarrow> bigint \<Rightarrow> int" where
  "bi_compare l r =
     (if num_bigits l \<noteq> num_bigits r then (if num_bigits r < num_bigits l then 1 else -1)
      else compare_loop (rev (bi_bigits l)) (rev (bi_bigits r)))"

definition subtract_aligned :: "bigint \<Rightarrow> bigint \<Rightarrow> bigint option" where
  "subtract_aligned a b =
     (if bi_exp b < bi_exp a \<or> bi_compare a b < 0 then None
      else let i = bi_exp b - bi_exp a
           in if length (bi_bigits a) < i then None
              else map_option (\<lambda>s. a\<lparr>bi_bigits := remove_leading_zeros (take i (bi_bigits a) @ s)\<rparr>)
                (subtract_loop (drop i (bi_bigits a)) (bi_bigits b) 0))"

definition multiply32 :: "bigint \<Rightarrow> u32 \<Rightarrow> bigint" where
  "multiply32 b v = b\<lparr>bi_bigits := multiply_loop (bi_bigits b) v 0\<rparr>"

definition multiply_wide :: "bigint \<Rightarrow> 'a::len word \<Rightarrow> bigint" where
  "multiply_wide b v =
     (let h = LENGTH('a) div 2
      in b\<lparr>bi_bigits := multiply_wide_loop h (bi_bigits b) (take_bit h v) (drop_bit h v) 0\<rparr>)"

definition bi_shift :: "bigint \<Rightarrow> nat \<Rightarrow> bigint" where
  "bi_shift b n =
     (let b = b\<lparr>bi_exp := bi_exp b + n div 32\<rparr>; n = n mod 32
      in if n = 0 then b else b\<lparr>bi_bigits := shift_loop (bi_bigits b) n 0\<rparr>)"

text \<open>\<^verbatim>\<open>*=\<close> asserts a positive factor.\<close>

definition bi_times :: "bigint \<Rightarrow> u32 \<Rightarrow> bigint option" where
  "bi_times b v = (if v = 0 then None else Some (multiply32 b v))"

definition get_bigit :: "bigint \<Rightarrow> nat \<Rightarrow> u32" where
  "get_bigit n i = (if bi_exp n \<le> i \<and> i < num_bigits n then bi_bigits n ! (i - bi_exp n) else 0)"

text \<open>The places below \<open>lo + k\<close> are left, \<open>borrow\<close> is what the places above leave for them.\<close>

fun add_compare_loop :: "bigint \<Rightarrow> bigint \<Rightarrow> bigint \<Rightarrow> nat \<Rightarrow> nat \<Rightarrow> u64 \<Rightarrow> int" where
  "add_compare_loop l1 l2 r lo 0 borrow = (if borrow \<noteq> 0 then -1 else 0)"
| "add_compare_loop l1 l2 r lo (Suc k) borrow =
     (let i = lo + k;
          sum = ucast (get_bigit l1 i) + ucast (get_bigit l2 i);
          rhs = ucast (get_bigit r i)
      in if rhs + borrow < sum then 1
         else let borrow = rhs + borrow - sum
              in if 1 < borrow then -1 else add_compare_loop l1 l2 r lo k (push_bit 32 borrow))"

definition add_compare :: "bigint \<Rightarrow> bigint \<Rightarrow> bigint \<Rightarrow> int" where
  "add_compare l1 l2 r =
     (let max_lhs = max (num_bigits l1) (num_bigits l2); n = num_bigits r
      in if max_lhs + 1 < n then -1
         else if n < max_lhs then 1
         else let lo = min (min (bi_exp l1) (bi_exp l2)) (bi_exp r)
              in add_compare_loop l1 l2 r lo (n - lo) 0)"

text \<open>
  The terms of a digit of a square: \<open>n[i] * n[k - i]\<close>, below the number of digits from \<open>i = 0\<close> on, above
  it as long as both indices are digits.
\<close>

definition cross_terms :: "u32 list \<Rightarrow> nat \<Rightarrow> u64 list" where
  "cross_terms ns k =
     List.map (\<lambda>i. ucast (ns ! i) * ucast (ns ! (k - i)))
       (if k < length ns then [0..<Suc k] else [k - (length ns - 1)..<length ns])"

fun square_loop :: "u32 list \<Rightarrow> nat list \<Rightarrow> u128 \<Rightarrow> u32 list" where
  "square_loop ns [] s = []"
| "square_loop ns (k # ks) s =
     (let s = foldl (\<lambda>s t. s + ucast t) s (cross_terms ns k)
      in ucast s # square_loop ns ks (drop_bit 32 s))"

definition bi_square :: "bigint \<Rightarrow> bigint" where
  "bi_square b =
     \<lparr>bi_bigits = remove_leading_zeros (square_loop (bi_bigits b) [0..<2 * length (bi_bigits b)] 0),
      bi_exp = 2 * bi_exp b\<rparr>"

definition bi_align :: "bigint \<Rightarrow> bigint \<Rightarrow> bigint" where
  "bi_align a b =
     (if bi_exp a \<le> bi_exp b then a
      else \<lparr>bi_bigits = replicate (bi_exp a - bi_exp b) 0 @ bi_bigits a, bi_exp = bi_exp b\<rparr>)"

text \<open>Powers of ten: the top bit of the exponent, powers of five by squaring, and a shift.\<close>

function top_mask :: "nat \<Rightarrow> nat \<Rightarrow> nat" where
  "top_mask e bm = (if bm \<noteq> 0 \<and> bm \<le> e then top_mask e (2 * bm) else bm)"
  by pat_completeness auto

termination by (relation "measure (\<lambda>(e, bm). Suc e - bm)") auto

declare top_mask.simps [simp del]

fun pow5_loop :: "nat \<Rightarrow> nat \<Rightarrow> bigint \<Rightarrow> bigint" where
  "pow5_loop e bm b =
     (if bm = 0 then b
      else pow5_loop e (bm div 2)
        (if (e div bm) mod 2 \<noteq> 0 then multiply32 (bi_square b) 5 else bi_square b))"

declare pow5_loop.simps [simp del]

definition bi_pow10 :: "nat \<Rightarrow> bigint" where
  "bi_pow10 e =
     (if e = 0 then bi_assign (1 :: u64)
      else bi_shift (pow5_loop e (top_mask e 1 div 2 div 2) (bi_assign (5 :: u64))) e)"

text \<open>The quotient is counted by subtracting.\<close>

partial_function (option) divmod_loop :: "bigint \<Rightarrow> bigint \<Rightarrow> nat \<Rightarrow> (nat \<times> bigint) option" where
  "divmod_loop a d q =
     (case subtract_aligned a d of None \<Rightarrow> None
      | Some a' \<Rightarrow> if bi_compare a' d \<ge> 0 then divmod_loop a' d (q + 1) else Some (q + 1, a'))"

definition divmod_assign :: "bigint \<Rightarrow> bigint \<Rightarrow> (nat \<times> bigint) option" where
  "divmod_assign a d =
     (if bi_compare a d < 0 then Some (0, a)
      else if bi_bigits d = [] \<or> last (bi_bigits d) = 0 then None
      else divmod_loop (bi_align a d) d 0)"

section \<open>Values\<close>

definition radix :: nat where "radix = 2 ^ 32"

fun bval :: "u32 list \<Rightarrow> nat" where
  "bval [] = 0"
| "bval (x # s) = unat x + radix * bval s"

definition bi_value :: "bigint \<Rightarrow> nat" where
  "bi_value b = bval (bi_bigits b) * radix ^ bi_exp b"

lemma radix_pos [simp]: "0 < radix" "radix \<noteq> 0" "1 < radix" "Suc 0 < radix" "1 \<le> radix" "Suc 0 \<le> radix"
  by (simp_all add: radix_def)

lemma bigit_bound [simp]: "unat (x :: u32) < radix"
  using unsigned_less [of x] by (simp add: radix_def)

lemma bigit_le: "unat (x :: u32) \<le> radix - 1"
  using bigit_bound [of x] by linarith

lemma unat_low: "32 \<le> LENGTH('a) \<Longrightarrow> unat (ucast (x :: 'a::len word) :: u32) = unat x mod radix"
  by (simp add: unsigned_ucast_eq radix_def take_bit_eq_mod)

lemma unat_high: "unat (drop_bit 32 (x :: 'a::len word)) = unat x div radix"
  by (simp only: unat_drop_bit_eq drop_bit_eq_div [where 'a = nat] radix_def)

lemma unat_wide: "32 \<le> LENGTH('a) \<Longrightarrow> unat (ucast (x :: u32) :: 'a::len word) = unat x"
proof -
  assume "32 \<le> LENGTH('a)"
  then have "(2 :: nat) ^ 32 \<le> 2 ^ LENGTH('a)" by (intro power_increasing) simp_all
  moreover have "unat x < 2 ^ 32" using bigit_bound [of x] by (simp add: radix_def)
  ultimately have "unat x < 2 ^ LENGTH('a)" by (rule order.strict_trans2 [rotated])
  then show ?thesis by (simp only: unsigned_ucast_eq take_bit_nat_eq_self)
qed

lemma split_radix: "n mod radix + radix * (n div radix) = n"
  by simp

lemma bval_append: "bval (s @ t) = bval s + radix ^ length s * bval t"
  by (induction s) (simp_all add: algebra_simps)

lemma bval_zeros [simp]: "bval (replicate n 0) = 0"
  by (induction n) simp_all

lemma bval_bound: "bval s < radix ^ length s"
proof (induction s)
  case (Cons x s)
  then have "bval s + 1 \<le> radix ^ length s" by simp
  then have "radix * (bval s + 1) \<le> radix * radix ^ length s" by (rule mult_le_mono2)
  moreover have "unat x + radix * bval s < radix * (bval s + 1)" by simp
  ultimately have "unat x + radix * bval s < radix * radix ^ length s" by (rule order.strict_trans2 [rotated])
  then show ?case by simp
qed simp

lemma bval_lower: "s \<noteq> [] \<Longrightarrow> last s \<noteq> 0 \<Longrightarrow> radix ^ (length s - 1) \<le> bval s"
proof (induction s rule: rev_induct)
  case (snoc x s)
  then have "1 \<le> unat x" using unat_eq_zero [of x] by (simp add: Suc_le_eq)
  then have "radix ^ length s * 1 \<le> radix ^ length s * unat x" by (rule mult_le_mono2)
  then show ?case by (simp add: bval_append trans_le_add2)
qed simp

text \<open>Zeros at the end do not count.\<close>

lemma drop_leading_value: "bval (rev (drop_leading s)) = bval (rev s)"
  by (induction s rule: drop_leading.induct) (auto simp: bval_append)

lemma drop_leading_head: "drop_leading s = x # r \<Longrightarrow> x = 0 \<Longrightarrow> r = []"
  by (induction s rule: drop_leading.induct) (auto split: if_splits)

lemma drop_leading_Nil: "drop_leading s = [] \<longleftrightarrow> s = []"
  by (induction s rule: drop_leading.induct) auto

definition stripped :: "u32 list \<Rightarrow> bool" where
  "stripped s \<longleftrightarrow> s \<noteq> [] \<and> (last s = 0 \<longrightarrow> s = [0])"

lemma remove_leading_value [simp]: "bval (remove_leading_zeros s) = bval s"
  by (simp add: remove_leading_zeros_def drop_leading_value)

lemma remove_leading_stripped: "s \<noteq> [] \<Longrightarrow> stripped (remove_leading_zeros s)"
proof -
  assume "s \<noteq> []"
  then obtain x r where x: "drop_leading (rev s) = x # r" using drop_leading_Nil [of "rev s"] by (cases "drop_leading (rev s)") auto
  then show ?thesis using drop_leading_head [OF x] by (auto simp: stripped_def remove_leading_zeros_def)
qed

lemma stripped_lower: "stripped s \<Longrightarrow> bval s \<noteq> 0 \<Longrightarrow> radix ^ (length s - 1) \<le> bval s"
  using bval_lower by (fastforce simp: stripped_def)

section \<open>Carries\<close>

lemma multiply_loop_value: "bval (multiply_loop s v c) = bval s * unat v + unat c"
proof (induction s arbitrary: c)
  case (Cons x s)
  define R where "R = (ucast x :: u64) * ucast v + ucast c"
  have le: "unat x * unat v + unat c \<le> (radix - 1) * (radix - 1) + (radix - 1)"
    by (intro add_mono mult_mono bigit_le) simp_all
  then have lt: "unat x * unat v + unat c < 2 ^ 64" by (rule order.strict_trans1) (simp add: radix_def)
  have "unat ((ucast x :: u64) * ucast v) = unat x * unat v"
    using lt by (subst unat_mult_lem [THEN iffD1]) (simp_all add: unat_wide)
  then have r: "unat R = unat x * unat v + unat c"
    unfolding R_def using lt by (subst unat_add_lem [THEN iffD1]) (simp_all add: unat_wide)
  have h: "unat R div radix < radix"
    using lt unfolding r by (intro less_mult_imp_div_less) (simp add: radix_def)
  have "unat (ucast (drop_bit 32 R) :: u32) = unat R div radix" using h by (simp add: unat_low unat_high)
  then have "bval (multiply_loop (x # s) v c) = unat R mod radix + radix * (bval s * unat v + unat R div radix)"
    by (simp add: Let_def Cons R_def [symmetric] unat_low)
  also have "\<dots> = bval (x # s) * unat v + unat c"
    using split_radix [of "unat R"] unfolding r by (simp add: algebra_simps)
  finally show ?case .
qed simp

text \<open>A borrow is zero or one.\<close>

lemma subtract_bigits_value:
  assumes "subtract_bigits x y b = (z, b')" "unat b \<le> 1"
  shows "unat z + unat y + unat b = unat x + radix * unat b' \<and> unat b' \<le> 1"
proof -
  define R where "R = (ucast x :: u64) - ucast y - ucast b"
  have z: "z = ucast R" "b' = ucast (drop_bit 63 R)" using assms(1) by (simp_all add: subtract_bigits_def Let_def R_def)
  have u: "uint (ucast w :: u64) = int (unat w)" for w :: u32 unfolding uint_nat by (subst unat_wide) simp_all
  have bx: "int (unat w) < 4294967296" for w :: u32 using unsigned_less [of w, where 'a = int] by simp
  let ?d = "int (unat x) - int (unat y) - int (unat b)"
  have R: "uint R = ?d mod 2 ^ 64" unfolding R_def by (simp add: uint_word_ariths u mod_diff_left_eq)
  have um: "uint R mod 2 ^ 64 = uint R"
    using unsigned_less [of R, where 'a = int] by (intro mod_pos_pos_trivial) simp_all
  have un: "int (unat z) = uint R mod 2 ^ 32" "int (unat b') = uint R div 2 ^ 63 mod 2 ^ 32"
    unfolding z uint_nat [symmetric] using um
    by (simp_all only: unsigned_ucast_eq unsigned_drop_bit_eq take_bit_eq_mod [where 'a = int] drop_bit_eq_div [where 'a = int]) simp_all
  have x: "int (unat x) < 4294967296" "int (unat y) < 4294967296" "0 \<le> int (unat x)" "0 \<le> int (unat y)" using bx [of x] bx [of y] by simp_all
  have b: "int (unat b) \<le> 1" "0 \<le> int (unat b)" using assms(2) by linarith+
  show ?thesis
  proof (cases "0 \<le> ?d")
    case True
    moreover have "?d < 18446744073709551616" using x b by linarith
    ultimately have "uint R = ?d" unfolding R by (intro mod_pos_pos_trivial) simp_all
    moreover have "k mod 2 ^ 32 = k \<and> k div 2 ^ 63 mod 2 ^ 32 = 0" if "0 \<le> k" "k < 4294967296" for k :: int using that by simp
    moreover have "?d < 4294967296" using x b by linarith
    ultimately have "int (unat z) = ?d" "int (unat b') = 0" unfolding un using True by metis+
    then have z: "unat z + unat y + unat b = unat x" "unat b' = 0" by linarith+
    then show ?thesis by (simp only: z) simp
  next
    case False
    have "0 \<le> ?d + 18446744073709551616" "?d + 18446744073709551616 < 18446744073709551616" using False x b by linarith+
    then have "uint R = ?d + 2 ^ 64"
      unfolding R by (subst mod_add_self2 [symmetric], intro mod_pos_pos_trivial) simp_all
    moreover have "(k + 2 ^ 64) mod 2 ^ 32 = k + 2 ^ 32 \<and> (k + 2 ^ 64) div 2 ^ 63 mod 2 ^ 32 = 1" if "- 4294967296 \<le> k" "k < 0" for k :: int
    proof -
      have "k + 2 ^ 64 = (k + 2 ^ 32) + 2 ^ 32 * (2 ^ 32 - 1)" by simp
      then have "(k + 2 ^ 64) mod 2 ^ 32 = (k + 2 ^ 32) mod 2 ^ 32" by (simp only: mod_mult_self2)
      also have "\<dots> = k + 2 ^ 32" using that by (intro mod_pos_pos_trivial) simp_all
      finally have "(k + 2 ^ 64) mod 2 ^ 32 = k + 2 ^ 32" .
      moreover have "(k + 2 ^ 64) div 2 ^ 63 = 1" using that by simp
      ultimately show ?thesis by simp
    qed
    moreover have "- 4294967296 \<le> ?d" "?d < 0" using False x b by linarith+
    ultimately have "int (unat z) = ?d + 2 ^ 32" "int (unat b') = 1" unfolding un by metis+
    moreover have "int radix = 2 ^ 32" by (simp add: radix_def)
    ultimately have z: "unat z + unat y + unat b = unat x + radix" "unat b' = 1" by linarith+
    then show ?thesis by (simp only: z) simp
  qed
qed

lemma borrow_step:
  fixes R S T x y z b c :: nat
  assumes "z + y + b = x + R * c" "y + R * T + b \<le> x + R * S" "z < R"
  shows "T + c \<le> S"
proof -
  have "R * (T + c) \<le> R * S + z" using assms(1,2) by (simp add: algebra_simps)
  also have "\<dots> < R * (S + 1)" using assms(3) by simp
  finally have "T + c < S + 1" by (simp only: mult_less_cancel1)
  then show ?thesis by simp
qed

lemma borrow_loop_value:
  "unat b \<le> 1 \<Longrightarrow> unat b \<le> bval s \<Longrightarrow>
   \<exists>u. borrow_loop s b = Some u \<and> length u = length s \<and> bval u + unat b = bval s"
proof (induction s arbitrary: b)
  case Nil
  then show ?case using unat_eq_zero [of b] by (simp add: borrow_loop.simps)
next
  case (Cons x s)
  show ?case
  proof (cases "b = 0")
    case False
    obtain z b' where z: "subtract_bigits x 0 b = (z, b')" by fastforce
    note v = subtract_bigits_value [OF z Cons.prems(1)]
    have "unat b' \<le> bval s"
      using borrow_step [of "unat z" 0 "unat b" "unat x" radix "unat b'" 0 "bval s"] v Cons.prems(2) by simp
    with Cons.IH [of b'] v obtain u where u: "borrow_loop s b' = Some u" "length u = length s" "bval u + unat b' = bval s" by blast
    have "radix * bval s = radix * bval u + radix * unat b'" unfolding u(3) [symmetric] by (simp add: algebra_simps)
    then show ?thesis using u v False by (simp add: borrow_loop.simps [of "x # s"] z)
  qed (simp add: borrow_loop.simps)
qed

lemma subtract_loop_value:
  "unat b \<le> 1 \<Longrightarrow> bval t + unat b \<le> bval s \<Longrightarrow> length t \<le> length s \<Longrightarrow>
   \<exists>u. subtract_loop s t b = Some u \<and> length u = length s \<and> bval u + bval t + unat b = bval s"
proof (induction s t b rule: subtract_loop.induct)
  case (1 s b)
  then show ?case using borrow_loop_value by auto
next
  case (3 x s y t b)
  obtain z b' where z: "subtract_bigits x y b = (z, b')" by fastforce
  note v = subtract_bigits_value [OF z "3.prems"(1)]
  have "bval t + unat b' \<le> bval s"
    using borrow_step [of "unat z" "unat y" "unat b" "unat x" radix "unat b'" "bval t" "bval s"] v "3.prems"(2)
    by (simp add: algebra_simps)
  with "3.IH" [OF z [symmetric]] v "3.prems"(3) obtain u where
    u: "subtract_loop s t b' = Some u" "length u = length s" "bval u + bval t + unat b' = bval s" by auto
  have "radix * bval s = radix * bval u + radix * bval t + radix * unat b'" unfolding u(3) [symmetric] by (simp add: algebra_simps)
  then show ?case using u v by (simp add: z)
qed simp

lemma shift_loop_value:
  assumes "0 < n" "n < 32"
  shows "unat c < 2 ^ n \<Longrightarrow> bval (shift_loop s n c) = bval s * 2 ^ n + unat c"
proof (induction s arbitrary: c)
  case (Cons x s)
  define m :: nat where "m = 2 ^ (32 - n)"
  have R: "radix = 2 ^ n * m" using assms(2) by (simp add: radix_def m_def flip: power_add)
  have hi: "unat (drop_bit (32 - n) x) = unat x div m"
    by (simp only: unat_drop_bit_eq drop_bit_eq_div [where 'a = nat] m_def)
  have "unat x < m * 2 ^ n" using bigit_bound [of x] by (simp add: R mult.commute)
  then have lt: "unat x div m < 2 ^ n" by (rule less_mult_imp_div_less [of _ _ m, unfolded mult.commute [of _ m]])
  have "unat (push_bit n x) = unat x * 2 ^ n mod radix"
    by (simp only: unsigned_push_bit_eq take_bit_eq_mod [where 'a = nat] push_bit_eq_mult [where 'a = nat] radix_def)
      simp
  also have "\<dots> = (unat x mod m) * 2 ^ n" unfolding R by (simp add: mult.commute mod_mult_mult1)
  finally have p: "unat (push_bit n x) = (unat x mod m) * 2 ^ n" .
  have "(unat x mod m) + 1 \<le> m" by (simp add: m_def Suc_le_eq)
  then have "(unat x mod m + 1) * 2 ^ n \<le> m * 2 ^ n" by (rule mult_le_mono1)
  then have "(unat x mod m) * 2 ^ n + unat c < radix" using Cons.prems unfolding R by (simp add: algebra_simps)
  then have lo: "unat (push_bit n x + c) = (unat x mod m) * 2 ^ n + unat c"
    by (subst unat_add_lem [THEN iffD1]) (simp_all add: p radix_def)
  have "bval (shift_loop (x # s) n c) = (unat x mod m) * 2 ^ n + unat c + radix * (bval s * 2 ^ n + unat x div m)"
    using Cons.IH [of "drop_bit (32 - n) x"] lt by (simp add: lo hi)
  also have "\<dots> = 2 ^ n * (unat x mod m + m * (unat x div m)) + unat c + radix * (bval s * 2 ^ n)"
    unfolding R by (simp only: algebra_simps)
  also have "unat x mod m + m * (unat x div m) = unat x" by (rule mod_mult_div_eq)
  finally show ?case by (simp add: algebra_simps)
qed simp

lemma carry_bigits_value: "32 \<le> LENGTH('a) \<Longrightarrow> bval (carry_bigits (c :: 'a::len word)) = unat c"
proof (induction c rule: carry_bigits.induct)
  case (1 c)
  then show ?case
    by (subst carry_bigits.simps) (simp add: unat_low unat_high)
qed

lemma wide_no_overflow:
  fixes P R l h x c :: nat
  assumes "l \<le> P * R - 1" "h \<le> P * R - 1" "x \<le> R - 1" "c < P * R * (P * R)" "0 < P" "1 < R"
  shows "l * x + c mod R < P * R * R" "P * (h * x) + (l * x + c mod R) div R + c div R < P * R * (P * R)"
    "h * x < P * R * R" "l * x \<le> l * x + c mod R"
proof -
  have x: "x + 1 \<le> R" using assms(3,6) by simp
  have PR: "0 < P * R" using assms(5,6) by simp
  have l: "l * x \<le> (P * R - 1) * (R - 1)" and h: "h * x \<le> (P * R - 1) * (R - 1)" using assms(1-3) by (simp_all add: mult_mono)
  have e: "(P * R - 1) * (R - 1) + (R - 1) = P * R * (R - 1)"
    using PR by (cases "P * R") simp_all
  have c: "c mod R \<le> R - 1" using assms(6) by (simp add: less_Suc_eq_le [symmetric])
  have s: "l * x + c mod R \<le> P * R * (R - 1)" using l c e by linarith
  also have "\<dots> < P * R * R" using PR assms(6) by simp
  finally show "l * x + c mod R < P * R * R" .
  show "h * x < P * R * R" using h e PR assms(6) by (intro order.strict_trans1 [OF h]) (simp add: algebra_simps)
  have "(l * x + c mod R) div R \<le> P * R * (R - 1) div R" using s by (rule div_le_mono)
  also have "\<dots> = P * (R - 1)" using assms(6) by simp
  finally have d: "(l * x + c mod R) div R \<le> P * (R - 1)" .
  have "c < R * (P * (P * R))" using assms(4) by (simp add: algebra_simps)
  then have "c div R < P * (P * R)" using assms(6) by (simp add: less_mult_imp_div_less mult.commute)
  moreover have "P * (h * x) \<le> P * ((P * R - 1) * (R - 1))" using h by simp
  moreover have "P * ((P * R - 1) * (R - 1)) + P * (R - 1) = P * (P * R * (R - 1))"
    unfolding e [symmetric] by (simp add: algebra_simps)
  moreover have "P * (P * R * (R - 1)) + P * (P * R) = P * R * (P * R)"
    using assms(6) by (cases R) (simp_all add: algebra_simps)
  ultimately show "P * (h * x) + (l * x + c mod R) div R + c div R < P * R * (P * R)" using d by linarith
qed simp

lemma multiply_wide_loop_value:
  fixes lo hi c :: "'a::len word"
  assumes "LENGTH('a) = 2 * h" "32 \<le> h" "unat lo < 2 ^ h" "unat hi < 2 ^ h"
  shows "bval (multiply_wide_loop h s lo hi c) = bval s * (unat lo + 2 ^ h * unat hi) + unat c"
proof (induction s arbitrary: c)
  case Nil
  then show ?case using assms by (simp add: carry_bigits_value)
next
  case (Cons x s)
  define P :: nat where "P = 2 ^ (h - 32)"
  have PR: "2 ^ h = P * radix" using assms(2) by (simp only: P_def radix_def power_add [symmetric]) simp
  have L: "2 ^ LENGTH('a) = P * radix * (P * radix)" using assms(1) by (simp add: PR [symmetric] mult_2 power_add)
  have P: "0 < P" by (simp add: P_def)
  have len: "32 \<le> LENGTH('a)" using assms by simp
  have "unat lo \<le> P * radix - 1" "unat hi \<le> P * radix - 1" using assms(3,4) unfolding PR by linarith+
  note b = wide_no_overflow [OF this bigit_le [of x] _ P, of "unat c"]
  have c: "unat c < P * radix * (P * radix)" using unsigned_less [of c] unfolding L [symmetric] by simp
  have PRR: "P * radix * radix \<le> 2 ^ LENGTH('a)"
  proof -
    have "radix * 1 \<le> radix * P" using P by (intro mult_le_mono2) simp
    then have "P * radix * radix \<le> P * radix * (radix * P)" by (intro mult_le_mono2) simp
    then show ?thesis unfolding L by (simp add: mult.commute)
  qed
  define res where "res = lo * ucast x + ucast (ucast c :: u32)"
  have m1: "unat (lo * ucast x :: 'a word) = unat lo * unat x"
    using b(1,4) [OF c] PRR by (subst unat_mult_lem [THEN iffD1]) (simp_all add: unat_wide len)
  have res: "unat res = unat lo * unat x + unat c mod radix"
    unfolding res_def using b(1) [OF c] PRR
    by (subst unat_add_lem [THEN iffD1]) (simp_all add: unat_wide unat_low len m1)
  have m2: "unat (hi * ucast x :: 'a word) = unat hi * unat x"
    using b(3) [OF c] PRR by (subst unat_mult_lem [THEN iffD1]) (simp_all add: unat_wide len)
  let ?k = "P * (unat hi * unat x) + (unat lo * unat x + unat c mod radix) div radix + unat c div radix"
  have k: "?k < 2 ^ LENGTH('a)" using b(2) [OF c] by (simp add: L)
  have sh: "unat (push_bit (h - 32) (hi * ucast x :: 'a word)) = P * (unat hi * unat x)"
  proof -
    have "unat (push_bit (h - 32) (hi * ucast x :: 'a word)) = (unat hi * unat x) * 2 ^ (h - 32) mod 2 ^ LENGTH('a)"
      by (simp only: unsigned_push_bit_eq take_bit_eq_mod [where 'a = nat] push_bit_eq_mult [where 'a = nat] m2)
    then show ?thesis using k by (simp add: P_def mult.commute)
  qed
  define car where "car = push_bit (h - 32) (hi * ucast x) + drop_bit 32 res + drop_bit 32 c"
  have "unat (push_bit (h - 32) (hi * ucast x :: 'a word) + drop_bit 32 res) = P * (unat hi * unat x) + unat res div radix"
    using k by (subst unat_add_lem [THEN iffD1]) (simp_all add: sh unat_high res)
  then have car: "unat car = ?k"
    unfolding car_def using k by (subst unat_add_lem [THEN iffD1]) (simp_all add: unat_high res)
  have "bval (multiply_wide_loop h (x # s) lo hi c) =
      unat res mod radix + radix * (bval s * (unat lo + 2 ^ h * unat hi) + unat car)"
    using Cons.IH [of car] len by (simp add: Let_def res_def [symmetric] car_def [symmetric] unat_low)
  also have "\<dots> = (unat res mod radix + radix * (unat res div radix)) + radix * P * (unat hi * unat x) +
      radix * (unat c div radix) + radix * (bval s * (unat lo + 2 ^ h * unat hi))"
    unfolding car res [symmetric] by (simp add: algebra_simps)
  also have "\<dots> = unat lo * unat x + (unat c mod radix + radix * (unat c div radix)) + radix * P * (unat hi * unat x) +
      radix * (bval s * (unat lo + 2 ^ h * unat hi))"
    unfolding split_radix res by simp
  also have "\<dots> = bval (x # s) * (unat lo + 2 ^ h * unat hi) + unat c"
    unfolding split_radix PR by (simp add: algebra_simps)
  finally show ?case .
qed

section \<open>Comparisons\<close>

definition bi_ok :: "bigint \<Rightarrow> bool" where
  "bi_ok b \<longleftrightarrow> stripped (bi_bigits b)"

lemma bi_value_bound: "bi_value b < radix ^ num_bigits b"
  using bval_bound [of "bi_bigits b"] by (simp add: bi_value_def num_bigits_def power_add)

lemma bi_value_lower: "bi_ok b \<Longrightarrow> bi_value b \<noteq> 0 \<Longrightarrow> radix ^ (num_bigits b - 1) \<le> bi_value b"
proof -
  assume b: "bi_ok b" "bi_value b \<noteq> 0"
  then have "radix ^ (length (bi_bigits b) - 1) \<le> bval (bi_bigits b)"
    by (intro stripped_lower) (simp_all add: bi_ok_def bi_value_def)
  moreover have "num_bigits b - 1 = length (bi_bigits b) - 1 + bi_exp b"
    using b by (cases "bi_bigits b") (simp_all add: bi_ok_def stripped_def num_bigits_def)
  ultimately show ?thesis by (simp add: bi_value_def power_add)
qed

text \<open>Most significant digit first.\<close>

abbreviation mval :: "u32 list \<Rightarrow> nat" where "mval s \<equiv> bval (rev s)"

lemma mval_Cons: "mval (x # s) = mval s + radix ^ length s * unat x"
  by (simp add: bval_append)

lemma mval_above:
  assumes "unat y < unat x"
  shows "mval (y # t) * radix ^ length (x # s) < mval (x # s) * radix ^ length (y # t)"
proof -
  have "mval t + radix ^ length t * unat y < radix ^ length t * (unat y + 1)" using bval_bound [of "rev t"] by simp
  also have "\<dots> \<le> radix ^ length t * unat x" using assms by (intro mult_le_mono2) simp
  finally have "mval (y # t) * radix ^ length (x # s) < (radix ^ length t * unat x) * radix ^ length (x # s)"
    unfolding mval_Cons by (intro mult_strict_right_mono) simp_all
  also have "\<dots> \<le> mval (x # s) * radix ^ length (y # t)" unfolding mval_Cons by (simp add: algebra_simps)
  finally show ?thesis .
qed

lemma compare_loop_cases:
  "s = t \<and> compare_loop s t = 0 \<or>
   (\<exists>u. u \<noteq> [] \<and> s = t @ u \<and> compare_loop s t = 1) \<or>
   (\<exists>u. u \<noteq> [] \<and> t = s @ u \<and> compare_loop s t = -1) \<or>
   mval t * radix ^ length s < mval s * radix ^ length t \<and> compare_loop s t = 1 \<or>
   mval s * radix ^ length t < mval t * radix ^ length s \<and> compare_loop s t = -1"
proof (induction s t rule: compare_loop.induct)
  case (1 x s y t)
  show ?case
  proof (cases "x = y")
    case True
    have up: "mval (y # v) * radix ^ length (y # u) < mval (y # u) * radix ^ length (y # v)"
      if "mval v * radix ^ length u < mval u * radix ^ length v" for u v
    proof -
      have "mval v * radix ^ length u * radix < mval u * radix ^ length v * radix" using that by simp
      then show ?thesis unfolding mval_Cons by (simp add: algebra_simps)
    qed
    show ?thesis using 1 [OF _] True up [of t s] up [of s t] by (simp only: compare_loop.simps) auto
  next
    case False
    then have "unat x \<noteq> unat y" by (simp add: word_unat_eq_iff)
    then show ?thesis using mval_above [of y x t s] mval_above [of x y s t] False by (auto simp: word_less_nat_alt)
  qed
qed simp_all

lemma bi_compare_cases:
  assumes "num_bigits l = num_bigits r"
  shows "bi_compare l r = 0 \<and> bi_value l = bi_value r \<and> bi_exp l = bi_exp r \<or>
    bi_compare l r = 1 \<and> bi_value r < bi_value l \<or> bi_compare l r = -1 \<and> bi_value l < bi_value r \<or>
    bi_compare l r = 1 \<and> bi_value r \<le> bi_value l \<and> bi_exp l < bi_exp r \<or>
    bi_compare l r = -1 \<and> bi_value l \<le> bi_value r \<and> bi_exp r < bi_exp l"
proof -
  have c: "bi_compare l r = compare_loop (rev (bi_bigits l)) (rev (bi_bigits r))"
    using assms by (simp add: bi_compare_def)
  have longer: "bi_value y \<le> bi_value x \<and> bi_exp x < bi_exp y"
    if "u \<noteq> []" "rev (bi_bigits x) = rev (bi_bigits y) @ u" "num_bigits x = num_bigits y" for x y u
  proof -
    have b: "bi_bigits x = rev u @ bi_bigits y" using arg_cong [OF that(2), of rev] by simp
    have e: "bi_exp y = bi_exp x + length u" using that(3) unfolding num_bigits_def b by simp
    have "0 < length u" using that(1) by simp
    then show ?thesis unfolding bi_value_def b e bval_append by (simp add: power_add algebra_simps)
  qed
  have above: "bi_value y < bi_value x"
    if "bval (bi_bigits y) * radix ^ length (bi_bigits x) < bval (bi_bigits x) * radix ^ length (bi_bigits y)"
      "num_bigits x = num_bigits y" for x y
  proof -
    let ?p = "radix ^ (length (bi_bigits x) + length (bi_bigits y))"
    have "bi_value z * ?p = bval (bi_bigits z) * radix ^ length (bi_bigits w) * radix ^ num_bigits z"
      if "length (bi_bigits z) + length (bi_bigits w) = length (bi_bigits x) + length (bi_bigits y)" for z w
      unfolding that [symmetric] bi_value_def num_bigits_def by (simp add: power_add algebra_simps)
    from this [of y x] this [of x y] that have "bi_value y * ?p < bi_value x * ?p" by simp
    then show ?thesis by simp
  qed
  have "bi_value l = bi_value r \<and> bi_exp l = bi_exp r" if "rev (bi_bigits l) = rev (bi_bigits r)"
    using that assms by (simp add: bi_value_def num_bigits_def)
  then show ?thesis
    using compare_loop_cases [of "rev (bi_bigits l)" "rev (bi_bigits r)"] longer [of _ l r] longer [of _ r l]
      above [of l r] above [of r l] assms unfolding c length_rev rev_rev_ident by metis
qed

text \<open>\<open>x\<close> is not longer than \<open>r\<close> unless its leading digit says so.\<close>

definition placed :: "bigint \<Rightarrow> bigint \<Rightarrow> bool" where
  "placed x r \<longleftrightarrow> bi_ok x \<and> (bi_value x = 0 \<longrightarrow> num_bigits x \<le> num_bigits r)"

lemma longer_greater:
  assumes "placed x r" "num_bigits r < num_bigits x"
  shows "bi_value r < bi_value x"
proof -
  have "bi_value r < radix ^ num_bigits r" by (rule bi_value_bound)
  also have "\<dots> \<le> radix ^ (num_bigits x - 1)" using assms(2) by (intro power_increasing) simp_all
  also have "\<dots> \<le> bi_value x" using assms by (intro bi_value_lower) (auto simp: placed_def)
  finally show ?thesis .
qed

text \<open>
  The comparison is right but on equal numbers: there the one with more digits counts as greater,
  even if these are zeros. It decides \<open>\<ge>\<close> when the right side has no smaller exponent or its last
  digit is not zero.
\<close>

lemma equal_larger_exp:
  assumes "bi_value a = bi_value d" "bi_exp d < bi_exp a" "bi_bigits d \<noteq> []"
  shows "hd (bi_bigits d) = 0"
proof -
  obtain x s where d: "bi_bigits d = x # s" using assms(3) by (cases "bi_bigits d") auto
  let ?k = "bi_exp a - bi_exp d"
  have "bval (bi_bigits a) * radix ^ ?k * radix ^ bi_exp d = bval (bi_bigits d) * radix ^ bi_exp d"
    using assms(1,2) by (simp add: bi_value_def mult.assoc flip: power_add)
  then have "unat x + radix * bval s = bval (bi_bigits a) * radix ^ ?k" by (simp add: d)
  moreover have "radix dvd radix ^ ?k" using assms(2) by (intro dvd_power) simp
  ultimately have "radix dvd unat x + radix * bval s" by simp
  then have "radix dvd unat x" by (simp add: dvd_add_left_iff)
  then have "x = 0" using bigit_bound [of x] nat_dvd_not_less [of "unat x" radix] by (cases "unat x = 0") (simp_all add: unat_eq_zero)
  then show ?thesis by (simp add: d)
qed

lemma bi_compare_less:
  assumes "placed a d" "placed d a" "bi_exp a \<le> bi_exp d \<or> hd (bi_bigits d) \<noteq> 0 \<or> bi_value a \<noteq> bi_value d"
  shows "bi_compare a d < 0 \<longleftrightarrow> bi_value a < bi_value d"
proof (cases "num_bigits a = num_bigits d")
  case False
  then show ?thesis
    using longer_greater [OF assms(1)] longer_greater [OF assms(2)] by (auto simp: bi_compare_def)
next
  case True
  show ?thesis
  proof (cases "bi_compare a d = -1 \<and> bi_value a = bi_value d \<and> bi_exp d < bi_exp a")
    case False
    then show ?thesis using bi_compare_cases [OF True] by auto
  next
    case c: True
    then have "hd (bi_bigits d) = 0"
      using equal_larger_exp [of a d] assms(2) by (auto simp: placed_def bi_ok_def stripped_def)
    then show ?thesis using c assms(3) by simp
  qed
qed

section \<open>The comparison with a sum\<close>

lemma bval_nth: "i < length s \<Longrightarrow> bval s div radix ^ i mod radix = unat (s ! i)"
proof (induction s arbitrary: i)
  case (Cons x s)
  show ?case
  proof (cases i)
    case (Suc j)
    have "(unat x + radix * bval s) div radix ^ Suc j = bval s div radix ^ j" by (simp add: div_mult2_eq)
    then show ?thesis using Cons Suc by simp
  qed simp
qed simp

lemma get_bigit_value: "unat (get_bigit b i) = bi_value b div radix ^ i mod radix"
proof -
  consider "i < bi_exp b" | "bi_exp b \<le> i" "i < num_bigits b" | "num_bigits b \<le> i" by linarith
  then show ?thesis
  proof cases
    case 1
    then have "bi_exp b = i + Suc (bi_exp b - i - 1)" by simp
    then have "radix ^ bi_exp b = radix ^ i * (radix * radix ^ (bi_exp b - i - 1))" by (metis power_add power_Suc)
    then show ?thesis using 1 by (simp add: get_bigit_def bi_value_def)
  next
    case 2
    have "radix ^ i = radix ^ bi_exp b * radix ^ (i - bi_exp b)" using 2(1) by (simp flip: power_add)
    then have "bi_value b div radix ^ i = bval (bi_bigits b) div radix ^ (i - bi_exp b)"
      by (simp add: bi_value_def div_mult2_eq)
    then show ?thesis using 2 by (simp add: get_bigit_def bval_nth num_bigits_def)
  next
    case 3
    have "bi_value b < radix ^ i" using bi_value_bound [of b] power_increasing [OF 3, of radix] by (simp add: order.strict_trans2)
    then show ?thesis using 3 by (simp add: get_bigit_def)
  qed
qed

lemma div_radix_step: "v div radix ^ i = radix * (v div radix ^ Suc i) + v div radix ^ i mod radix"
  by (simp add: div_mult2_eq mult.commute [of radix "radix ^ i"])

definition int_sgn :: "nat \<Rightarrow> nat \<Rightarrow> int" where
  "int_sgn a b = (if b < a then 1 else if a < b then -1 else 0)"

lemma quotients_decide:
  fixes a b c m :: nat
  assumes "0 < m"
  shows "c div m < a div m + b div m \<Longrightarrow> c < a + b" "a div m + b div m + 1 < c div m \<Longrightarrow> a + b < c"
proof -
  have low: "x div m * m \<le> x" and high: "x < (x div m + 1) * m" for x
    using div_mult_mod_eq [of x m] mod_less_divisor [OF assms, of x] unfolding add_mult_distrib by linarith+
  show "c < a + b" if "c div m < a div m + b div m"
  proof -
    have "c < (c div m + 1) * m" by (rule high)
    also have "\<dots> \<le> (a div m + b div m) * m" using that by (intro mult_le_mono1) simp
    also have "\<dots> \<le> a + b" using low [of a] low [of b] by (simp only: add_mult_distrib add_mono)
    finally show ?thesis .
  qed
  show "a + b < c" if "a div m + b div m + 1 < c div m"
  proof -
    have "a + b < (a div m + 1) * m + (b div m + 1) * m" by (intro add_strict_mono high)
    also have "\<dots> = (a div m + b div m + 2) * m" by (simp add: algebra_simps)
    also have "\<dots> \<le> c div m * m" using that by (intro mult_le_mono1) simp
    also have "\<dots> \<le> c" by (rule low)
    finally show ?thesis .
  qed
qed

lemma add_compare_loop_value:
  assumes "radix ^ lo dvd bi_value l1" "radix ^ lo dvd bi_value l2" "radix ^ lo dvd bi_value r"
  shows "unat borrow = radix * d \<Longrightarrow> d \<le> 1 \<Longrightarrow>
    bi_value r div radix ^ (lo + k) = bi_value l1 div radix ^ (lo + k) + bi_value l2 div radix ^ (lo + k) + d \<Longrightarrow>
    add_compare_loop l1 l2 r lo k borrow = int_sgn (bi_value l1 + bi_value l2) (bi_value r)"
proof (induction k arbitrary: borrow d)
  case 0
  have e: "v = v div radix ^ lo * radix ^ lo" if "radix ^ lo dvd v" for v using that by simp
  have "bi_value r = bi_value l1 + bi_value l2 + d * radix ^ lo"
    by (subst (1 2 3) e) (use 0(3) assms in \<open>simp_all add: algebra_simps\<close>)
  moreover have "borrow = 0 \<longleftrightarrow> d = 0" using 0(1) unat_eq_zero [of borrow] by auto
  ultimately show ?case using 0(2) by (auto simp: int_sgn_def)
next
  case (Suc k)
  let ?i = "lo + k"
  define g1 g2 gr where "g1 = get_bigit l1 ?i" and "g2 = get_bigit l2 ?i" and "gr = get_bigit r ?i"
  note g = g1_def g2_def gr_def
  have q: "bi_value x div radix ^ ?i = radix * (bi_value x div radix ^ Suc ?i) + unat (get_bigit x ?i)" for x
    unfolding get_bigit_value by (rule div_radix_step)
  have "radix * (bi_value r div radix ^ Suc ?i) =
      radix * (bi_value l1 div radix ^ Suc ?i) + radix * (bi_value l2 div radix ^ Suc ?i) + radix * d"
    using Suc.prems(3) by (simp add: algebra_simps)
  then have rel: "bi_value r div radix ^ ?i + unat g1 + unat g2 =
      bi_value l1 div radix ^ ?i + bi_value l2 div radix ^ ?i + unat gr + unat borrow"
    using q [of l1] q [of l2] q [of r] Suc.prems(1) by (simp add: g)
  have rd: "radix = 4294967296" by (simp add: radix_def)
  have bb: "unat borrow \<le> radix" using Suc.prems(1,2) by (cases d) simp_all
  have b: "unat g1 < radix" "unat g2 < radix" "unat gr < radix" by simp_all
  have s: "unat (ucast g1 + ucast g2 :: u64) = unat g1 + unat g2"
    using b by (subst unat_add_lem [THEN iffD1]) (simp_all add: unat_wide rd)
  have t: "unat (ucast gr + borrow :: u64) = unat gr + unat borrow"
    using b bb by (subst unat_add_lem [THEN iffD1]) (simp_all add: unat_wide rd)
  let ?sum = "ucast g1 + ucast g2 :: u64" and ?t = "ucast gr + borrow :: u64"
  have m: "0 < radix ^ ?i" by simp
  have loop: "add_compare_loop l1 l2 r lo (Suc k) borrow =
      (if ?t < ?sum then 1 else if 1 < ?t - ?sum then -1 else add_compare_loop l1 l2 r lo k (push_bit 32 (?t - ?sum)))"
    by (simp add: Let_def g)
  show ?case
  proof (cases "?t < ?sum")
    case True
    then have "unat gr + unat borrow < unat g1 + unat g2" by (simp add: word_less_nat_alt s t)
    then have "bi_value r div radix ^ ?i < bi_value l1 div radix ^ ?i + bi_value l2 div radix ^ ?i" using rel by linarith
    from quotients_decide(1) [OF m this] show ?thesis unfolding loop using True by (simp add: int_sgn_def)
  next
    case False
    then have le: "unat g1 + unat g2 \<le> unat gr + unat borrow" by (simp add: word_less_nat_alt s t)
    have d: "unat (?t - ?sum) = unat gr + unat borrow - (unat g1 + unat g2)"
      using False by (subst unat_sub) (simp_all add: s t)
    show ?thesis
    proof (cases "1 < ?t - ?sum")
      case True
      then have "1 < unat gr + unat borrow - (unat g1 + unat g2)" unfolding word_less_nat_alt d by simp
      then have "bi_value l1 div radix ^ ?i + bi_value l2 div radix ^ ?i + 1 < bi_value r div radix ^ ?i" using rel le by linarith
      from quotients_decide(2) [OF m this] show ?thesis unfolding loop using True False by (simp add: int_sgn_def)
    next
      case small: False
      let ?d = "unat (?t - ?sum)"
      have d1: "?d \<le> 1" using small by (simp add: word_less_nat_alt)
      have "unat (push_bit 32 (?t - ?sum)) = ?d * 2 ^ 32 mod 2 ^ 64"
        by (simp only: unsigned_push_bit_eq take_bit_eq_mod [where 'a = nat] push_bit_eq_mult [where 'a = nat]) simp
      also have "\<dots> = radix * ?d" using d1 by (simp add: rd)
      finally have "unat (push_bit 32 (?t - ?sum)) = radix * ?d" .
      moreover have "bi_value r div radix ^ ?i = bi_value l1 div radix ^ ?i + bi_value l2 div radix ^ ?i + ?d"
        using rel le unfolding d by linarith
      ultimately show ?thesis unfolding loop if_not_P [OF False] if_not_P [OF small] using d1 by (intro Suc.IH) 
    qed
  qed
qed

lemma add_compare_value:
  assumes "placed l1 r" "placed l2 r" "bi_ok r" "bi_value r \<noteq> 0"
  shows "add_compare l1 l2 r = int_sgn (bi_value l1 + bi_value l2) (bi_value r)"
proof -
  let ?m = "max (num_bigits l1) (num_bigits l2)" and ?n = "num_bigits r"
  let ?lo = "min (min (bi_exp l1) (bi_exp l2)) (bi_exp r)"
  consider "?m + 1 < ?n" | "?n < ?m" | "?m \<le> ?n" "\<not> ?m + 1 < ?n" by linarith
  then show ?thesis
  proof cases
    case 1
    have p: "radix ^ num_bigits x \<le> radix ^ (?n - 2)" if "num_bigits x \<le> ?m" for x
      using that 1 by (intro power_increasing) simp_all
    have "bi_value l1 + bi_value l2 < 2 * radix ^ (?n - 2)"
      using bi_value_bound [of l1] bi_value_bound [of l2] p [OF max.cobounded1] p [OF max.cobounded2] by linarith
    also have "\<dots> \<le> radix * radix ^ (?n - 2)" by (simp add: radix_def)
    also have "\<dots> = radix ^ (?n - 1)" using 1 by (simp flip: power_Suc)
    also have "\<dots> \<le> bi_value r" using assms(3,4) by (rule bi_value_lower)
    finally show ?thesis using 1 by (simp add: add_compare_def Let_def int_sgn_def)
  next
    case 2
    then have "?n < num_bigits l1 \<or> ?n < num_bigits l2" by (auto simp: max_def split: if_splits)
    then have "bi_value r < bi_value l1 + bi_value l2"
      using longer_greater [OF assms(1)] longer_greater [OF assms(2)] by auto
    then show ?thesis using 2 by (simp add: add_compare_def Let_def int_sgn_def)
  next
    case 3
    have dv: "radix ^ ?lo dvd bi_value x" if "?lo \<le> bi_exp x" for x
      using that by (simp add: bi_value_def le_imp_power_dvd)
    have "bi_exp r \<le> ?n" by (simp add: num_bigits_def)
    then have lo: "?lo + (?n - ?lo) = ?n" by simp
    have z: "bi_value x div radix ^ ?n = 0" if "num_bigits x \<le> ?n" for x
      using bi_value_bound [of x] power_increasing [OF that, of radix] by (simp add: order.strict_trans2)
    have "add_compare_loop l1 l2 r ?lo (?n - ?lo) 0 = int_sgn (bi_value l1 + bi_value l2) (bi_value r)"
      using 3 by (intro add_compare_loop_value [where d = 0]) (simp_all only: lo z dv, simp_all)
    moreover have "\<not> ?n < ?m" using 3 by linarith
    ultimately show ?thesis unfolding add_compare_def Let_def if_not_P [OF 3(2)] by (simp only: if_False)
  qed
qed

section \<open>Squares\<close>

definition bigit_at :: "u32 list \<Rightarrow> nat \<Rightarrow> nat" where
  "bigit_at s i = (if i < length s then unat (s ! i) else 0)"

lemma bval_sum: "bval s = (\<Sum>i<length s. bigit_at s i * radix ^ i)"
proof (induction s rule: rev_induct)
  case (snoc x s)
  have "(\<Sum>i<length s. bigit_at (s @ [x]) i * radix ^ i) = (\<Sum>i<length s. bigit_at s i * radix ^ i)"
    by (intro sum.cong) (simp_all add: bigit_at_def nth_append)
  then show ?case using snoc by (simp add: bval_append bigit_at_def)
qed simp

definition cross_sum :: "u32 list \<Rightarrow> nat \<Rightarrow> nat" where
  "cross_sum s k = (\<Sum>i\<le>k. bigit_at s i * bigit_at s (k - i))"

lemma square_sum: "s \<noteq> [] \<Longrightarrow> bval s * bval s = (\<Sum>k<2 * length s. cross_sum s k * radix ^ k)"
proof -
  assume s: "s \<noteq> []"
  define m where "m = length s - 1"
  have n: "length s = Suc m" using s by (simp add: m_def)
  have z: "bigit_at s i = 0" if "m < i" for i using that n by (simp add: bigit_at_def)
  have "int (bval s) = (\<Sum>i\<le>m. int (bigit_at s i) * int radix ^ i)"
    by (subst bval_sum) (simp add: n lessThan_Suc_atMost)
  then have "int (bval s * bval s) =
      (\<Sum>k\<le>m + m. (\<Sum>i\<le>k. int (bigit_at s i) * int (bigit_at s (k - i))) * int radix ^ k)"
    using polynomial_product [of m "\<lambda>i. int (bigit_at s i)" m "\<lambda>i. int (bigit_at s i)" "int radix"] z by simp
  also have "\<dots> = int (\<Sum>k\<le>m + m. cross_sum s k * radix ^ k)" by (simp add: cross_sum_def)
  finally have "bval s * bval s = (\<Sum>k\<le>m + m. cross_sum s k * radix ^ k)" by (simp only: of_nat_eq_iff)
  also have "\<dots> = (\<Sum>k<Suc (Suc (m + m)). cross_sum s k * radix ^ k)"
  proof -
    have "bigit_at s i * bigit_at s (Suc (m + m) - i) = 0" for i
      using z [of i] z [of "Suc (m + m) - i"] by (cases "m < i") simp_all
    then have "cross_sum s (Suc (m + m)) = 0" unfolding cross_sum_def by (intro sum.neutral) blast
    then show ?thesis by (simp only: lessThan_Suc_atMost [symmetric]) simp
  qed
  also have "Suc (Suc (m + m)) = 2 * length s" using n by simp
  finally show ?thesis .
qed

lemma cross_terms_sum: "s \<noteq> [] \<Longrightarrow> sum_list (List.map unat (cross_terms s k)) = cross_sum s k"
proof -
  assume s: "s \<noteq> []"
  let ?t = "\<lambda>i. unat (s ! i) * unat (s ! (k - i))" and ?n = "length s"
  have p: "unat ((ucast x :: u64) * ucast y) = unat x * unat y" for x y :: u32
  proof -
    have "unat x * unat y \<le> (radix - 1) * (radix - 1)" by (intro mult_mono bigit_le) simp_all
    also have "\<dots> < 2 ^ 64" by (simp add: radix_def)
    finally show ?thesis by (subst unat_mult_lem [THEN iffD1]) (simp_all add: unat_wide)
  qed
  show ?thesis
  proof (cases "k < ?n")
    case True
    have "sum_list (List.map unat (cross_terms s k)) = (\<Sum>i\<leftarrow>[0..<Suc k]. ?t i)"
      using True by (simp add: cross_terms_def comp_def p del: upt_Suc)
    also have "\<dots> = (\<Sum>i\<le>k. ?t i)" by (simp only: sum_set_upt_conv_sum_list_nat [symmetric] set_upt atLeast0LessThan lessThan_Suc_atMost)
    also have "\<dots> = cross_sum s k" unfolding cross_sum_def using True by (intro sum.cong) (auto simp: bigit_at_def)
    finally show ?thesis .
  next
    case False
    have "sum_list (List.map unat (cross_terms s k)) = (\<Sum>i\<leftarrow>[k - (?n - 1)..<?n]. ?t i)"
      using False by (simp add: cross_terms_def comp_def p)
    also have "\<dots> = (\<Sum>i\<in>{k - (?n - 1)..<?n}. ?t i)" by (simp only: sum_set_upt_conv_sum_list_nat [symmetric] set_upt)
    also have "\<dots> = (\<Sum>i\<in>{k - (?n - 1)..<?n}. bigit_at s i * bigit_at s (k - i))"
      using False s by (intro sum.cong) (auto simp: bigit_at_def)
    also have "\<dots> = cross_sum s k"
      unfolding cross_sum_def using False s by (intro sum.mono_neutral_left) (auto simp: bigit_at_def not_less)
    finally show ?thesis .
  qed
qed

lemma cross_sum_bound: "cross_sum s k \<le> length s * (radix * radix)"
proof -
  have "cross_sum s k = (\<Sum>i\<in>{..k} \<inter> {..<length s}. bigit_at s i * bigit_at s (k - i))"
    unfolding cross_sum_def by (intro sum.mono_neutral_right) (auto simp: bigit_at_def)
  also have "\<dots> \<le> of_nat (card ({..k} \<inter> {..<length s})) * (radix * radix)"
  proof (rule sum_bounded_above)
    fix i
    have "bigit_at s j \<le> radix" for j using bigit_bound [of "s ! j"] by (simp add: bigit_at_def less_imp_le)
    then show "bigit_at s i * bigit_at s (k - i) \<le> radix * radix" by (simp add: mult_mono)
  qed
  also have "\<dots> \<le> length s * (radix * radix)"
    using card_mono [of "{..<length s}" "{..k} \<inter> {..<length s}"] by (intro mult_le_mono1) simp
  finally show ?thesis .
qed

lemma foldl_terms:
  fixes ts :: "u64 list" and v :: u128
  shows "unat v + sum_list (List.map unat ts) < 2 ^ 128 \<Longrightarrow> unat (foldl (\<lambda>s t. s + ucast t) v ts) = unat v + sum_list (List.map unat ts)"
proof (induction ts arbitrary: v)
  case (Cons t ts)
  have t: "unat (ucast t :: u128) = unat t"
    using unsigned_less [of t, where 'a = nat] by (simp add: unsigned_ucast_eq take_bit_nat_eq_self)
  have "unat (v + ucast t) = unat v + unat t" using Cons.prems by (subst unat_add_lem [THEN iffD1]) (simp_all add: t)
  then show ?case using Cons.IH [of "v + ucast t"] Cons.prems by (simp add: add.assoc)
qed simp

lemma square_loop_value:
  assumes "s \<noteq> []" "length s < 2 ^ 32"
  shows "unat v < radix * 2 ^ 64 \<Longrightarrow>
    bval (square_loop s [k..<k + j] v) = ((\<Sum>i<j. cross_sum s (k + i) * radix ^ i) + unat v) mod radix ^ j \<and>
    length (square_loop s [k..<k + j] v) = j"
proof (induction j arbitrary: k v)
  case (Suc j)
  define w where "w = foldl (\<lambda>s t. s + ucast t) v (cross_terms s k)"
  have "cross_sum s k \<le> (2 ^ 32 - 1) * (radix * radix)"
    using cross_sum_bound [of s k] assms(2) by (elim order.trans) (intro mult_le_mono1, simp)
  then have le: "unat v + cross_sum s k < 2 ^ 128" using Suc.prems by (simp add: radix_def)
  then have w: "unat w = unat v + cross_sum s k"
    unfolding w_def using cross_terms_sum [OF assms(1), of k] by (subst foldl_terms) simp_all
  have "unat w div radix < radix * 2 ^ 64"
    using le unfolding w by (intro less_mult_imp_div_less) (simp add: radix_def)
  then have IH: "bval (square_loop s [Suc k..<Suc k + j] (drop_bit 32 w)) =
      ((\<Sum>i<j. cross_sum s (Suc k + i) * radix ^ i) + unat w div radix) mod radix ^ j"
    "length (square_loop s [Suc k..<Suc k + j] (drop_bit 32 w)) = j"
    using Suc.IH [of "drop_bit 32 w" "Suc k"] by (simp_all add: unat_high)
  let ?S = "\<Sum>i<j. cross_sum s (Suc k + i) * radix ^ i"
  have u: "[k..<k + Suc j] = k # [Suc k..<Suc k + j]" by (simp add: upt_rec)
  have "(\<Sum>i<Suc j. cross_sum s (k + i) * radix ^ i) = cross_sum s k + radix * ?S"
    by (subst sum.lessThan_Suc_shift) (simp add: sum_distrib_left mult.left_commute)
  then have "(\<Sum>i<Suc j. cross_sum s (k + i) * radix ^ i) + unat v = unat w mod radix + radix * (?S + unat w div radix)"
    using split_radix [of "unat w"] by (simp add: w algebra_simps)
  moreover have "(a + radix * b) mod radix ^ Suc j = a + radix * (b mod radix ^ j)" if "a < radix" for a b
    using that mod_mult2_eq [of "a + radix * b" radix "radix ^ j"] by simp
  ultimately show ?case
    unfolding u using IH by (simp add: Let_def w_def [symmetric] unat_low del: sum.lessThan_Suc upt_Suc)
qed simp

lemma square_value:
  assumes "bi_ok b" "length (bi_bigits b) < 2 ^ 32"
  shows "bi_value (bi_square b) = bi_value b * bi_value b \<and> bi_ok (bi_square b)"
proof -
  let ?s = "bi_bigits b" and ?n = "length (bi_bigits b)"
  have s: "?s \<noteq> []" using assms(1) by (simp add: bi_ok_def stripped_def)
  have v: "bval (square_loop ?s [0..<2 * ?n] 0) = bval ?s * bval ?s" "length (square_loop ?s [0..<2 * ?n] 0) = 2 * ?n"
  proof -
    have "bval ?s * bval ?s < radix ^ (2 * ?n)"
      using mult_strict_mono [OF bval_bound bval_bound, of ?s ?s] by (simp add: mult_2 power_add)
    then show "bval (square_loop ?s [0..<2 * ?n] 0) = bval ?s * bval ?s" "length (square_loop ?s [0..<2 * ?n] 0) = 2 * ?n"
      using square_loop_value [OF s assms(2), of 0 0 "2 * ?n"] square_sum [OF s] by simp_all
  qed
  have "square_loop ?s [0..<2 * ?n] 0 \<noteq> []" using v(2) s by auto
  then show ?thesis
    unfolding bi_square_def bi_value_def bi_ok_def bigint.simps remove_leading_value v(1)
    by (simp add: remove_leading_stripped power_add mult_2)
qed

section \<open>The operations\<close>

lemma multiply32_value: "bi_value (multiply32 b v) = bi_value b * unat v"
  by (simp add: multiply32_def bi_value_def multiply_loop_value)

lemma multiply_wide_value:
  fixes v :: "'a::len word"
  assumes "even (LENGTH('a))" "64 \<le> LENGTH('a)"
  shows "bi_value (multiply_wide b v) = bi_value b * unat v"
proof -
  define h where "h = LENGTH('a) div 2"
  have h: "LENGTH('a) = 2 * h" "32 \<le> h" using assms by (auto simp: h_def)
  have lo: "unat (take_bit h v) = unat v mod 2 ^ h"
    by (simp only: unsigned_take_bit_eq take_bit_eq_mod [where 'a = nat])
  have hi: "unat (drop_bit h v) = unat v div 2 ^ h" by (simp only: unat_drop_bit_eq drop_bit_eq_div [where 'a = nat])
  have "unat v < 2 ^ h * 2 ^ h" using unsigned_less [of v, where 'a = nat] by (simp add: h(1) mult_2 power_add)
  then have "unat v div 2 ^ h < 2 ^ h" by (rule less_mult_imp_div_less)
  then have "bval (multiply_wide_loop h (bi_bigits b) (take_bit h v) (drop_bit h v) 0) =
      bval (bi_bigits b) * (unat v mod 2 ^ h + 2 ^ h * (unat v div 2 ^ h))"
    using multiply_wide_loop_value [OF h, of "take_bit h v" "drop_bit h v" "bi_bigits b" 0] by (simp add: lo hi)
  then show ?thesis by (simp add: multiply_wide_def h_def [symmetric] Let_def bi_value_def)
qed

lemma shift_value: "bi_value (bi_shift b n) = bi_value b * 2 ^ n"
proof -
  have e: "2 ^ n = radix ^ (n div 32) * 2 ^ (n mod 32)"
    by (simp only: radix_def power_mult [symmetric] power_add [symmetric]) simp
  have "n mod 32 \<noteq> 0 \<Longrightarrow> bval (shift_loop (bi_bigits b) (n mod 32) 0) = bval (bi_bigits b) * 2 ^ (n mod 32)"
    using shift_loop_value [of "n mod 32" 0 "bi_bigits b"] by simp
  then show ?thesis unfolding e by (auto simp: bi_shift_def Let_def bi_value_def power_add)
qed

lemma assign_value: "32 \<le> LENGTH('a) \<Longrightarrow> bi_value (bi_assign (n :: 'a::len word)) = unat n"
  by (simp add: bi_assign_def bi_value_def carry_bigits_value unat_low unat_high)

lemma align_value: "bi_value (bi_align a b) = bi_value a"
  by (simp add: bi_align_def bi_value_def bval_append flip: power_add)

text \<open>No operation leaves a zero as the leading digit.\<close>

lemma grown_stripped:
  assumes "stripped s" "t \<noteq> []" "length t = length s \<or> last t \<noteq> 0" "bval s \<le> bval t"
  shows "stripped t"
proof (cases "last t = 0")
  case True
  then have n: "length t = length s" using assms(3) by blast
  have l: "bval t < radix ^ (length t - 1)"
    using assms(2) True bval_bound [of "butlast t"] by (cases t rule: rev_exhaust) (simp_all add: bval_append)
  have "bval s = 0"
  proof (rule ccontr)
    assume "bval s \<noteq> 0"
    from stripped_lower [OF assms(1) this] show False using l assms(4) unfolding n by linarith
  qed
  then have "length s = 1"
    using assms(1) bval_lower [of s] radix_pos(2) by (cases "last s = 0") (auto simp: stripped_def)
  then show ?thesis using n True assms(2) by (cases t) (auto simp: stripped_def)
qed (use assms(2) in \<open>simp add: stripped_def\<close>)

lemma carry_bigits_last: "32 \<le> LENGTH('a) \<Longrightarrow> (c :: 'a::len word) \<noteq> 0 \<Longrightarrow> last (carry_bigits c) \<noteq> 0"
proof (induction c rule: carry_bigits.induct)
  case (1 c)
  show ?case
  proof (cases "drop_bit 32 c = 0")
    case True
    have "unat c div radix = 0" using True unat_high [of c] by simp
    then have "unat (ucast c :: u32) = unat c" using 1(2) by (simp add: unat_low div_eq_0_iff)
    then have "(ucast c :: u32) \<noteq> 0" using 1(3) unat_eq_zero [of c] by (metis unat_0)
    then show ?thesis using 1(3) True by (simp add: carry_bigits.simps)
  next
    case False
    then show ?thesis using 1 by (subst carry_bigits.simps) (simp add: carry_bigits.simps [of "drop_bit 32 c"])
  qed
qed

lemma loops_not_Nil:
  "s \<noteq> [] \<Longrightarrow> multiply_loop s v c \<noteq> []" "s \<noteq> [] \<Longrightarrow> shift_loop s n c \<noteq> []" "s \<noteq> [] \<Longrightarrow> multiply_wide_loop h s lo hi d \<noteq> []"
  by (cases s; simp add: Let_def)+

lemma multiply_loop_grows: "length (multiply_loop s v c) = length s \<or> last (multiply_loop s v c) \<noteq> 0"
  by (induction s arbitrary: c) (auto simp: Let_def dest: loops_not_Nil)

lemma shift_loop_grows: "length (shift_loop s n c) = length s \<or> last (shift_loop s n c) \<noteq> 0"
  by (induction s arbitrary: c) (auto dest: loops_not_Nil)

lemma multiply_wide_loop_grows:
  "32 \<le> LENGTH('a) \<Longrightarrow> length (multiply_wide_loop h s lo hi c) = length s \<or> last (multiply_wide_loop h s lo hi (c :: 'a::len word)) \<noteq> 0"
proof (induction s arbitrary: c)
  case Nil
  then show ?case using carry_bigits_last [of c] by (cases "c = 0") (simp_all add: carry_bigits.simps [of 0])
qed (auto simp: Let_def dest: loops_not_Nil)

lemma assign_ok: "32 \<le> LENGTH('a) \<Longrightarrow> bi_ok (bi_assign (n :: 'a::len word))"
  using carry_bigits_last [of "drop_bit 32 n"]
  by (cases "drop_bit 32 n = 0") (auto simp: bi_ok_def bi_assign_def stripped_def carry_bigits.simps [of 0] carry_bigits.simps [of "drop_bit 32 n"])

lemma multiply32_ok:
  assumes "bi_ok b" "v \<noteq> 0"
  shows "bi_ok (multiply32 b v)"
proof -
  have "1 \<le> unat v" using assms(2) unat_eq_zero [of v] by (simp add: Suc_le_eq)
  then have "bval (bi_bigits b) * 1 \<le> bval (bi_bigits b) * unat v" by (rule mult_le_mono2)
  then show ?thesis
    using assms(1) grown_stripped [OF _ _ multiply_loop_grows] loops_not_Nil(1)
    by (simp add: bi_ok_def multiply32_def multiply_loop_value stripped_def)
qed

lemma shift_ok: "bi_ok b \<Longrightarrow> bi_ok (bi_shift b n)"
proof -
  assume b: "bi_ok b"
  then have "n mod 32 \<noteq> 0 \<Longrightarrow> stripped (shift_loop (bi_bigits b) (n mod 32) 0)"
    using shift_loop_value [of "n mod 32" 0 "bi_bigits b"]
    by (intro grown_stripped [OF _ _ shift_loop_grows]) (auto simp: bi_ok_def stripped_def loops_not_Nil(2))
  then show ?thesis using b by (auto simp: bi_shift_def Let_def bi_ok_def)
qed

lemma num_bigits_le: "bi_ok b \<Longrightarrow> bi_value b < radix ^ k \<Longrightarrow> bi_value b \<noteq> 0 \<Longrightarrow> num_bigits b \<le> k"
proof -
  assume "bi_ok b" "bi_value b < radix ^ k" "bi_value b \<noteq> 0"
  then have "radix ^ (num_bigits b - 1) < radix ^ k" using bi_value_lower [of b] by linarith
  then have "num_bigits b - 1 < k" by (simp add: power_strict_increasing_iff)
  then show ?thesis by simp
qed

lemma pow5_loop_value:
  "e < 2 ^ 32 \<Longrightarrow> bi_ok b \<Longrightarrow> bi_value b = 5 ^ (e div 2 ^ j) \<Longrightarrow> bi_exp b = 0 \<Longrightarrow>
   bi_value (pow5_loop e (2 ^ j div 2) b) = 5 ^ e \<and> bi_ok (pow5_loop e (2 ^ j div 2) b) \<and>
   bi_exp (pow5_loop e (2 ^ j div 2) b) = 0"
proof (induction j arbitrary: b)
  case 0
  then show ?case by (simp add: pow5_loop.simps)
next
  case (Suc j)
  let ?q = "e div 2 ^ Suc j"
  have "bi_value b < radix ^ Suc ?q"
  proof -
    have "(5 :: nat) ^ ?q \<le> radix ^ ?q" by (intro power_mono) (simp_all add: radix_def)
    also have "\<dots> < radix ^ Suc ?q" by (simp add: power_strict_increasing_iff)
    finally show ?thesis using Suc.prems(3) by simp
  qed
  then have "num_bigits b \<le> Suc ?q" using Suc.prems by (intro num_bigits_le) simp_all
  moreover have "Suc ?q < 2 ^ 32"
  proof -
    have "?q \<le> e div 2" by (simp add: div_mult2_eq mult.commute div_le_mono2)
    then show ?thesis using Suc.prems(1) by simp
  qed
  ultimately have "length (bi_bigits b) < 2 ^ 32" by (simp add: num_bigits_def)
  note sq = square_value [OF Suc.prems(2) this]
  have q: "e div 2 ^ j = 2 * ?q + (e div 2 ^ j) mod 2" by (simp add: div_mult2_eq mult.commute [of 2])
  define c where "c = (if (e div 2 ^ j) mod 2 \<noteq> 0 then multiply32 (bi_square b) 5 else bi_square b)"
  have "bi_value (bi_square b) = 5 ^ (2 * ?q)" using sq Suc.prems(3) by (simp add: mult_2 power_add)
  then have v: "bi_value c = 5 ^ (e div 2 ^ j)"
    using q by (cases "(e div 2 ^ j) mod 2 = 0") (simp_all add: c_def multiply32_value)
  have c: "bi_ok c" "bi_exp c = 0" using sq multiply32_ok [of "bi_square b" 5] Suc.prems(4)
    by (simp_all add: c_def bi_square_def multiply32_def)
  have "pow5_loop e (2 ^ Suc j div 2) b = pow5_loop e (2 ^ j div 2) c"
    by (subst pow5_loop.simps) (simp add: c_def)
  then show ?case using Suc.IH [OF Suc.prems(1) c(1) v c(2)] by simp
qed

lemma top_mask_power: "2 ^ k \<le> e \<Longrightarrow> \<exists>j. k \<le> j \<and> top_mask e (2 ^ k) = 2 ^ Suc j \<and> 2 ^ j \<le> e \<and> e < 2 ^ Suc j"
proof (induction "e - 2 ^ k" arbitrary: k rule: less_induct)
  case less
  have t: "top_mask e (2 ^ k) = top_mask e (2 ^ Suc k)" using less.prems by (subst top_mask.simps) simp
  show ?case
  proof (cases "2 ^ Suc k \<le> e")
    case True
    have "e - 2 ^ Suc k < e - 2 ^ k" using True zero_less_power [of "2 :: nat" k] by (simp only: power_Suc) linarith
    from less.hyps [OF this True] show ?thesis unfolding t by (metis Suc_leD)
  next
    case False
    then show ?thesis unfolding t using less.prems by (subst top_mask.simps) (auto intro: exI [of _ k])
  qed
qed

lemma pow10_value:
  assumes "e < 2 ^ 31"
  shows "bi_value (bi_pow10 e) = 10 ^ e \<and> bi_ok (bi_pow10 e) \<and> bi_exp (bi_pow10 e) = e div 32"
proof (cases "e = 0")
  case True
  then show ?thesis using assign_ok [of "1 :: u64"] assign_value [of "1 :: u64"]
    by (simp add: bi_pow10_def bi_assign_def)
next
  case False
  then obtain j where j: "top_mask e 1 = 2 ^ Suc j" "2 ^ j \<le> e" "e < 2 ^ Suc j"
    using top_mask_power [of 0 e] by auto
  then have q: "e div 2 ^ j = 1" by (intro div_nat_eqI) simp_all
  let ?b = "pow5_loop e (2 ^ j div 2) (bi_assign (5 :: u64))"
  have "bi_value ?b = 5 ^ e \<and> bi_ok ?b \<and> bi_exp ?b = 0"
    using assms assign_ok [of "5 :: u64"] assign_value [of "5 :: u64"] by (intro pow5_loop_value) (simp_all add: q bi_assign_def)
  then show ?thesis using False j(1) shift_ok [of ?b e]
    by (simp add: bi_pow10_def shift_value power_mult_distrib [symmetric]) (simp add: bi_shift_def Let_def)
qed

lemma zero_placed: "bi_ok a \<Longrightarrow> bi_ok d \<Longrightarrow> bi_exp a \<le> bi_exp d \<Longrightarrow> placed a d"
proof -
  assume a: "bi_ok a" "bi_ok d" "bi_exp a \<le> bi_exp d"
  have "num_bigits a = Suc (bi_exp a)" if "bi_value a = 0"
  proof -
    have "bval (bi_bigits a) = 0" using that by (simp add: bi_value_def)
    then have "last (bi_bigits a) = 0"
      using a(1) bval_lower [of "bi_bigits a"] by (fastforce simp: bi_ok_def stripped_def)
    then show ?thesis using a(1) by (simp add: bi_ok_def stripped_def num_bigits_def)
  qed
  moreover have "Suc (bi_exp d) \<le> num_bigits d" using a(2) by (cases "bi_bigits d") (simp_all add: bi_ok_def stripped_def num_bigits_def)
  ultimately show ?thesis using a by (auto simp: placed_def)
qed

lemma subtract_aligned_value:
  assumes "bi_ok a" "bi_ok d" "bi_value d \<noteq> 0" "bi_exp a \<le> bi_exp d" "bi_value d \<le> bi_value a"
  shows "\<exists>c. subtract_aligned a d = Some c \<and> bi_value c = bi_value a - bi_value d \<and> bi_ok c \<and> bi_exp c = bi_exp a"
proof -
  let ?i = "bi_exp d - bi_exp a"
  have p: "placed a d" "placed d a" using assms zero_placed by (auto simp: placed_def)
  have c: "\<not> bi_compare a d < 0" using bi_compare_less [OF p] assms(4,5) by simp
  have "num_bigits d \<le> num_bigits a"
    using longer_greater [OF p(2)] assms(5) by (cases "num_bigits a < num_bigits d") auto
  then have len: "length (bi_bigits d) + ?i \<le> length (bi_bigits a)" using assms(4) by (simp add: num_bigits_def)
  let ?lo = "take ?i (bi_bigits a)" and ?hi = "drop ?i (bi_bigits a)"
  have a: "bval (bi_bigits a) = bval ?lo + radix ^ ?i * bval ?hi"
    using len bval_append [of ?lo ?hi] by simp
  have e: "radix ^ bi_exp d = radix ^ bi_exp a * radix ^ ?i" using assms(4) by (simp flip: power_add)
  have "bval (bi_bigits d) * radix ^ ?i \<le> bval (bi_bigits a)" using assms(5) unfolding bi_value_def e by simp
  also have "\<dots> < radix ^ ?i * (bval ?hi + 1)" using bval_bound [of ?lo] len by (simp add: a)
  finally have "radix ^ ?i * bval (bi_bigits d) < radix ^ ?i * (bval ?hi + 1)" by (simp only: mult.commute)
  then have "bval (bi_bigits d) < bval ?hi + 1" by (simp only: mult_less_cancel1)
  then have "bval (bi_bigits d) \<le> bval ?hi" by simp
  moreover have "length (bi_bigits d) \<le> length ?hi" using len by simp
  ultimately have lens: "bval (bi_bigits d) + unat (0 :: u32) \<le> bval ?hi" "length (bi_bigits d) \<le> length ?hi" by simp_all
  then obtain u where u: "subtract_loop ?hi (bi_bigits d) 0 = Some u" "length u = length ?hi" "bval u + bval (bi_bigits d) = bval ?hi"
    using subtract_loop_value [of 0 "bi_bigits d" ?hi] lens by auto
  let ?c = "a\<lparr>bi_bigits := remove_leading_zeros (?lo @ u)\<rparr>"
  have s: "subtract_aligned a d = Some ?c"
    using assms(4) c len u(1) by (simp add: subtract_aligned_def Let_def)
  have "length (?lo @ u) = length (bi_bigits a)" using u(2) by simp
  then have "?lo @ u \<noteq> []" using assms(1) by (auto simp: bi_ok_def stripped_def)
  then have ok: "bi_ok ?c" unfolding bi_ok_def using remove_leading_stripped by simp
  have "bval (?lo @ u) + bval (bi_bigits d) * radix ^ ?i = bval (bi_bigits a)"
    unfolding a u(3) [symmetric] using len by (simp add: bval_append algebra_simps)
  note sum = this
  have "bi_value ?c + bi_value d = (bval (?lo @ u) + bval (bi_bigits d) * radix ^ ?i) * radix ^ bi_exp a"
    unfolding bi_value_def e by (simp add: algebra_simps)
  then have "bi_value ?c + bi_value d = bi_value a" unfolding sum by (simp add: bi_value_def)
  then show ?thesis using s ok by auto
qed

declare divmod_loop.simps [code]

lemma divmod_loop_value:
  assumes "bi_ok d" "bi_value d \<noteq> 0"
  shows "bi_ok a \<Longrightarrow> bi_exp a \<le> bi_exp d \<Longrightarrow> bi_value d \<le> bi_value a \<Longrightarrow>
    \<exists>c. divmod_loop a d q = Some (q + bi_value a div bi_value d, c) \<and> bi_value c = bi_value a mod bi_value d \<and>
      bi_ok c \<and> bi_exp c = bi_exp a"
proof (induction "bi_value a" arbitrary: a q rule: less_induct)
  case less
  obtain c where c: "subtract_aligned a d = Some c" "bi_value c = bi_value a - bi_value d" "bi_ok c" "bi_exp c = bi_exp a"
    using subtract_aligned_value [OF less.prems(1) assms less.prems(2,3)] by blast
  have cmp: "bi_compare c d < 0 \<longleftrightarrow> bi_value c < bi_value d"
    using c less.prems(2) assms zero_placed [of c d] by (intro bi_compare_less) (auto simp: placed_def)
  have dv: "bi_value a div bi_value d = Suc ((bi_value a - bi_value d) div bi_value d)"
    "bi_value a mod bi_value d = (bi_value a - bi_value d) mod bi_value d"
    using less.prems(3) assms(2) by (simp_all add: le_div_geq le_mod_geq)
  show ?case
  proof (cases "bi_value c < bi_value d")
    case True
    then have "divmod_loop a d q = Some (q + 1, c)" using c(1) cmp by (subst divmod_loop.simps) simp
    then show ?thesis using True c by (simp add: dv)
  next
    case False
    have "bi_value c < bi_value a" using c(2) less.prems(3) assms(2) by simp
    from less.hyps [OF this c(3), of "q + 1"] c False less.prems(2) obtain c' where
      c': "divmod_loop c d (q + 1) = Some (q + 1 + bi_value c div bi_value d, c')"
        "bi_value c' = bi_value c mod bi_value d" "bi_ok c'" "bi_exp c' = bi_exp c" by auto
    have "divmod_loop a d q = divmod_loop c d (q + 1)" using c(1) cmp False by (subst divmod_loop.simps) simp
    then show ?thesis using c' c by (simp add: dv)
  qed
qed

lemma align_ok: "bi_ok a \<Longrightarrow> bi_value a \<noteq> 0 \<Longrightarrow> bi_ok (bi_align a b)"
proof -
  assume a: "bi_ok a" "bi_value a \<noteq> 0"
  then have "last (bi_bigits a) \<noteq> 0" "bi_bigits a \<noteq> []" by (auto simp: bi_ok_def stripped_def bi_value_def)
  then show ?thesis using a by (simp add: bi_align_def bi_ok_def stripped_def)
qed

lemma divmod_assign_value:
  assumes "placed a d" "bi_ok d" "bi_value d \<noteq> 0"
    "bi_exp a \<le> bi_exp d \<or> hd (bi_bigits d) \<noteq> 0 \<or> bi_value a \<noteq> bi_value d"
  shows "\<exists>c. divmod_assign a d = Some (bi_value a div bi_value d, c) \<and> bi_value c = bi_value a mod bi_value d \<and>
    bi_ok c \<and> placed c d \<and> bi_exp c \<le> bi_exp a \<and>
    (bi_value d \<le> bi_value a \<or> bi_exp a \<le> bi_exp d \<longrightarrow> bi_exp c \<le> bi_exp d)"
proof -
  have cmp: "bi_compare a d < 0 \<longleftrightarrow> bi_value a < bi_value d"
    using assms by (intro bi_compare_less) (auto simp: placed_def)
  show ?thesis
  proof (cases "bi_value a < bi_value d")
    case True
    then show ?thesis using cmp assms(1) by (intro exI [of _ a]) (auto simp: divmod_assign_def placed_def)
  next
    case False
    have last: "bi_bigits d \<noteq> [] \<and> last (bi_bigits d) \<noteq> 0"
      using assms(2,3) by (auto simp: bi_ok_def stripped_def bi_value_def)
    have a: "bi_ok (bi_align a d)" using False assms(1,3) by (intro align_ok) (auto simp: placed_def)
    have e: "bi_exp (bi_align a d) \<le> bi_exp d" "bi_exp (bi_align a d) \<le> bi_exp a" by (simp_all add: bi_align_def)
    obtain c where c: "divmod_loop (bi_align a d) d 0 = Some (bi_value a div bi_value d, c)"
      "bi_value c = bi_value a mod bi_value d" "bi_ok c" "bi_exp c = bi_exp (bi_align a d)"
      using divmod_loop_value [OF assms(2,3) a e(1), of 0] False by (auto simp: align_value)
    moreover have "divmod_assign a d = divmod_loop (bi_align a d) d 0"
      using cmp False last by (simp add: divmod_assign_def)
    ultimately show ?thesis using e assms(2) zero_placed [of c d] by (intro exI [of _ c]) simp
  qed
qed

lemma multiply_wide_ok:
  fixes v :: "'a::len word"
  assumes "bi_ok b" "v \<noteq> 0" "even (LENGTH('a))" "64 \<le> LENGTH('a)"
  shows "bi_ok (multiply_wide b v)"
proof -
  have "1 \<le> unat v" using assms(2) unat_eq_zero [of v] by (simp add: Suc_le_eq)
  then have "bi_value b * 1 \<le> bi_value b * unat v" by (rule mult_le_mono2)
  then have "bi_value b \<le> bi_value (multiply_wide b v)" using multiply_wide_value [OF assms(3,4), of b v] by simp
  then have "bval (bi_bigits b) \<le> bval (bi_bigits (multiply_wide b v))"
    by (simp add: bi_value_def multiply_wide_def Let_def)
  moreover have "32 \<le> LENGTH('a)" using assms(4) by simp
  ultimately show ?thesis
    using assms(1) unfolding bi_ok_def multiply_wide_def Let_def
    by (simp, intro grown_stripped [OF _ _ multiply_wide_loop_grows]) (simp_all add: loops_not_Nil(3) stripped_def)
qed

text \<open>What the comparison says of unequal numbers is right.\<close>

lemma bi_compare_sound:
  assumes "placed a d" "placed d a"
  shows "bi_compare a d \<le> 0 \<Longrightarrow> bi_value a \<le> bi_value d" "bi_value a < bi_value d \<Longrightarrow> bi_compare a d < 0"
proof -
  show "bi_compare a d < 0" if "bi_value a < bi_value d" using bi_compare_less [OF assms] that by simp
  show "bi_value a \<le> bi_value d" if "bi_compare a d \<le> 0"
  proof (cases "num_bigits a = num_bigits d")
    case True
    then show ?thesis using bi_compare_cases [OF True] that by auto
  next
    case False
    then show ?thesis using that longer_greater [OF assms(2)] by (auto simp: bi_compare_def split: if_splits)
  qed
qed

lemma num_bigits_times: "num_bigits b \<le> num_bigits (multiply32 b v)"
proof -
  have "length s \<le> length (multiply_loop s v c)" for s c by (induction s arbitrary: c) (simp_all add: Let_def)
  then show ?thesis by (simp add: num_bigits_def multiply32_def)
qed

lemma num_bigits_zero: "bi_ok b \<Longrightarrow> bi_value b = 0 \<Longrightarrow> num_bigits b = Suc (bi_exp b)"
proof -
  assume b: "bi_ok b" "bi_value b = 0"
  then have "last (bi_bigits b) = 0"
    using bval_lower [of "bi_bigits b"] by (fastforce simp: bi_ok_def stripped_def bi_value_def)
  then show ?thesis using b(1) by (simp add: bi_ok_def stripped_def num_bigits_def)
qed

text \<open>The comparison exactly: on equal numbers it compares the exponents, the wrong way round.\<close>

lemma bi_compare_exact:
  assumes "bi_ok a" "bi_ok d" "bi_value a \<noteq> 0" "bi_value d \<noteq> 0"
  shows "bi_compare a d =
    (if bi_value a = bi_value d then int_sgn (bi_exp d) (bi_exp a) else int_sgn (bi_value a) (bi_value d))"
proof (cases "num_bigits a = num_bigits d")
  case True
  show ?thesis using bi_compare_cases [OF True] by (auto simp: int_sgn_def)
next
  case False
  have p: "placed a d" "placed d a" using assms by (simp_all add: placed_def)
  show ?thesis
    using False longer_greater [OF p(1)] longer_greater [OF p(2)] by (auto simp: bi_compare_def int_sgn_def)
qed

text \<open>Two representations of one number that the comparison tells apart.\<close>

lemma compare_equal_numbers:
  "bi_value \<lparr>bi_bigits = [0, 5], bi_exp = 0\<rparr> = bi_value \<lparr>bi_bigits = [5], bi_exp = 1\<rparr>"
  "bi_compare \<lparr>bi_bigits = [0, 5], bi_exp = 0\<rparr> \<lparr>bi_bigits = [5], bi_exp = 1\<rparr> = 1"
  by (simp_all add: bi_value_def bi_compare_def num_bigits_def)

text \<open>
  C37: the big integers compute. Assigning a word, products with 32-bit and 128-bit factors, shifts,
  squares and powers of ten have exactly the values of the operations on natural numbers and leave
  no zero as leading digit, for positive factors and below the sizes an \<^verbatim>\<open>int\<close> counts. For operands
  that are not zero the comparison with a sum gives the sign of the difference; the plain comparison
  gives it for different numbers, but of two forms of one number the one with the smaller exponent
  counts as greater; the aligned subtraction gives the difference; and the division gives quotient and
  remainder, unless it meets two such forms: a divisor equal to the dividend, with a smaller exponent
  and a zero as last digit.
\<close>

theorem bigint_refines_nat:
  fixes v :: u32 and w :: u128
  assumes "bi_ok a" "bi_ok b" "bi_ok d"
  shows "bi_value (bi_assign w) = unat w \<and> bi_ok (bi_assign w) \<and>
    bi_value (multiply32 a v) = bi_value a * unat v \<and> (v \<noteq> 0 \<longrightarrow> bi_ok (multiply32 a v)) \<and>
    bi_value (multiply_wide a w) = bi_value a * unat w \<and> (w \<noteq> 0 \<longrightarrow> bi_ok (multiply_wide a w)) \<and>
    bi_value (bi_shift a n) = bi_value a * 2 ^ n \<and> bi_ok (bi_shift a n) \<and>
    (length (bi_bigits a) < 2 ^ 32 \<longrightarrow> bi_value (bi_square a) = bi_value a * bi_value a \<and> bi_ok (bi_square a)) \<and>
    (e < 2 ^ 31 \<longrightarrow> bi_value (bi_pow10 e) = 10 ^ e \<and> bi_ok (bi_pow10 e)) \<and>
    (bi_value a \<noteq> 0 \<and> bi_value b \<noteq> 0 \<and> bi_value d \<noteq> 0 \<longrightarrow>
      add_compare a b d = int_sgn (bi_value a + bi_value b) (bi_value d) \<and>
      bi_compare a d =
        (if bi_value a = bi_value d then int_sgn (bi_exp d) (bi_exp a) else int_sgn (bi_value a) (bi_value d)) \<and>
      (bi_exp a \<le> bi_exp d \<and> bi_value d \<le> bi_value a \<longrightarrow>
        (\<exists>c. subtract_aligned a d = Some c \<and> bi_value c = bi_value a - bi_value d \<and> bi_ok c)) \<and>
      (bi_exp a \<le> bi_exp d \<or> hd (bi_bigits d) \<noteq> 0 \<or> bi_value a \<noteq> bi_value d \<longrightarrow>
        (\<exists>c. divmod_assign a d = Some (bi_value a div bi_value d, c) \<and> bi_value c = bi_value a mod bi_value d \<and> bi_ok c)))"
proof -
  have sums: "add_compare a b d = int_sgn (bi_value a + bi_value b) (bi_value d)"
    "bi_exp a \<le> bi_exp d \<or> hd (bi_bigits d) \<noteq> 0 \<or> bi_value a \<noteq> bi_value d \<Longrightarrow>
      \<exists>c. divmod_assign a d = Some (bi_value a div bi_value d, c) \<and> bi_value c = bi_value a mod bi_value d \<and> bi_ok c"
    if "bi_value a \<noteq> 0" "bi_value b \<noteq> 0" "bi_value d \<noteq> 0"
  proof -
    have p: "placed a d" "placed b d" using assms(1,2) that by (auto simp: placed_def)
    show "add_compare a b d = int_sgn (bi_value a + bi_value b) (bi_value d)" by (rule add_compare_value [OF p assms(3) that(3)])
    show "bi_exp a \<le> bi_exp d \<or> hd (bi_bigits d) \<noteq> 0 \<or> bi_value a \<noteq> bi_value d \<Longrightarrow>
      \<exists>c. divmod_assign a d = Some (bi_value a div bi_value d, c) \<and> bi_value c = bi_value a mod bi_value d \<and> bi_ok c"
      using divmod_assign_value [OF p(1) assms(3) that(3)] by blast
  qed
  have diff: "\<exists>c. subtract_aligned a d = Some c \<and> bi_value c = bi_value a - bi_value d \<and> bi_ok c"
    if "bi_value d \<noteq> 0" "bi_exp a \<le> bi_exp d" "bi_value d \<le> bi_value a"
    using subtract_aligned_value [OF assms(1,3) that] by blast
  show ?thesis
    by (intro conjI impI; (elim conjE)?)
      (simp_all add: assign_value assign_ok multiply32_value multiply32_ok [OF assms(1)] multiply_wide_value multiply_wide_ok [OF assms(1)]
        shift_value shift_ok [OF assms(1)] square_value [OF assms(1)] pow10_value sums diff bi_compare_exact [OF assms(1,3)])
qed

theorem bigint_refines_nat_witness:
  "add_compare (bi_assign (7 :: u64)) (bi_assign (7 :: u64)) (bi_assign (2 :: u64)) = 1 \<and>
   bi_compare (bi_assign (7 :: u64)) (bi_assign (2 :: u64)) = 1 \<and>
   (\<exists>c. divmod_assign (bi_assign (7 :: u64)) (bi_assign (2 :: u64)) = Some (3, c) \<and> bi_value c = 1)"
  using bigint_refines_nat [of "bi_assign (7 :: u64)" "bi_assign (7 :: u64)" "bi_assign (2 :: u64)" 1 1 0 0]
    assign_ok [of "7 :: u64"] assign_ok [of "2 :: u64"] assign_value [of "7 :: u64"] assign_value [of "2 :: u64"]
  by (auto simp: int_sgn_def bi_assign_def carry_bigits.simps [of 0])

end
