(* ===== verification/FmtDragon.thy ===== *)
theory FmtDragon
  imports FmtFloat FmtBigint
begin

text \<open>
  The digits of a floating-point value to a precision (\<^verbatim>\<open>format_dragon\<close> and \<^verbatim>\<open>adjust_precision\<close> of
  \<^verbatim>\<open>src/include/fmt/format.h\<close>): a value \<^verbatim>\<open>f * 2^e\<close> as a fraction of big integers, its decimal digits by
  repeated division, the last one rounded, the carry propagated. The shortest representation, the
  other mode of the same function, generates digits until the rest is inside the interval of the
  numbers that read as the value. The lemmas show that with a precision the digits are those of
  the value rounded half to even.
\<close>

section \<open>The fraction\<close>

definition adjust_precision :: "int \<Rightarrow> int \<Rightarrow> int fmt" where
  "adjust_precision precision exp10 =
     (if 0 < exp10 \<and> int INT_MAX - exp10 < precision then Inl Number_too_big else Inr (precision + exp10))"

text \<open>\<^verbatim>\<open>lower\<close>, and \<^verbatim>\<open>upper\<close> if it is a number of its own.\<close>

record dragon =
  dr_numerator :: bigint
  dr_denominator :: bigint
  dr_low :: bigint
  dr_high :: "bigint option"

definition dr_upper :: "dragon \<Rightarrow> bigint" where
  "dr_upper d = (case dr_high d of None \<Rightarrow> dr_low d | Some u \<Rightarrow> u)"

definition bi_of :: "'a::len word \<Rightarrow> bigint option" where
  "bi_of n = (if n = 0 then None else Some (bi_assign n))"

definition pow10_of :: "int \<Rightarrow> bigint option" where
  "pow10_of e = (if e < 0 then None else Some (bi_pow10 (nat e)))"

definition dragon_setup :: "u128 \<Rightarrow> int \<Rightarrow> bool \<Rightarrow> int \<Rightarrow> dragon option" where
  "dragon_setup f e closer exp10 =
     (let shift = (if closer then 2 else 1); one = bi_assign (1 :: u64)
      in if 0 \<le> e then
           Option.bind (bi_of f) (\<lambda>n. Option.bind (pow10_of exp10) (\<lambda>d.
             Some \<lparr>dr_numerator = bi_shift n (nat e + shift), dr_denominator = bi_shift d shift,
               dr_low = bi_shift one (nat e),
               dr_high = (if closer then Some (bi_shift one (nat e + 1)) else None)\<rparr>))
         else if exp10 < 0 then
           Option.bind (pow10_of (- exp10)) (\<lambda>p.
             if f = 0 then None
             else Some \<lparr>dr_numerator = bi_shift (multiply_wide p f) shift,
               dr_denominator = bi_shift one (nat (int shift - e)),
               dr_low = p, dr_high = (if closer then Some (bi_shift p 1) else None)\<rparr>)
         else
           Option.bind (bi_of f) (\<lambda>n. Option.bind (pow10_of exp10) (\<lambda>d.
             Some \<lparr>dr_numerator = bi_shift n shift, dr_denominator = bi_shift d (nat (int shift - e)),
               dr_low = one, dr_high = (if closer then Some (bi_assign (2 :: u64)) else None)\<rparr>)))"

section \<open>Digits\<close>

text \<open>The estimate of the exponent may be one too high; a fixed precision counts from the point.\<close>

definition dragon_fixup :: "bool \<Rightarrow> bool \<Rightarrow> dragon \<Rightarrow> int \<Rightarrow> int \<Rightarrow> (dragon \<times> int \<times> int) fmt" where
  "dragon_fixup is_even fixed_point d num_digits exp10 =
     (let small = add_compare (dr_numerator d) (dr_upper d) (dr_denominator d) + of_bool is_even \<le> 0;
          x = (if small then exp10 - 1 else exp10);
          d = (if small then d\<lparr>dr_numerator := multiply32 (dr_numerator d) 10\<rparr> else d);
          d = (if small \<and> num_digits < 0
               then d\<lparr>dr_low := multiply32 (dr_low d) 10, dr_high := map_option (\<lambda>u. multiply32 u 10) (dr_high d)\<rparr> else d)
      in fmt_bind (if fixed_point then adjust_precision num_digits (x + 1) else Inr num_digits) (\<lambda>n. Inr (d, n, x)))"

text \<open>The digits so far are in reverse.\<close>

fun bump :: "string \<Rightarrow> string" where
  "bump [] = []" | "bump (c # r) = char_of ((of_char c :: nat) + 1) # r"

partial_function (option) shortest_loop :: "bool \<Rightarrow> dragon \<Rightarrow> string \<Rightarrow> string option" where
  "shortest_loop is_even d acc =
     (case divmod_assign (dr_numerator d) (dr_denominator d) of None \<Rightarrow> None
      | Some (digit, num) \<Rightarrow>
          (let low = bi_compare num (dr_low d) - of_bool is_even < 0;
               high = 0 < add_compare num (dr_upper d) (dr_denominator d) + of_bool is_even;
               acc = char_of (48 + digit) # acc
           in if low \<or> high then
                (let result = add_compare num num (dr_denominator d)
                 in Some (rev (if \<not> low \<or> high \<and> (0 < result \<or> result = 0 \<and> odd digit) then bump acc else acc)))
              else shortest_loop is_even
                (d\<lparr>dr_numerator := multiply32 num 10, dr_low := multiply32 (dr_low d) 10,
                   dr_high := map_option (\<lambda>u. multiply32 u 10) (dr_high d)\<rparr>) acc))"

fun digits_loop :: "bigint \<Rightarrow> nat \<Rightarrow> bigint \<Rightarrow> (string \<times> bigint) option" where
  "digits_loop den 0 num = Some ([], num)"
| "digits_loop den (Suc k) num =
     (case divmod_assign num den of None \<Rightarrow> None
      | Some (digit, r) \<Rightarrow> map_option (\<lambda>(ds, n). (char_of (48 + digit) # ds, n)) (digits_loop den k (multiply32 r 10)))"

text \<open>A digit ten (a colon) is carried, from the last digit on; the digits are in reverse.\<close>

fun carry_back :: "string \<Rightarrow> string" where
  "carry_back (c # d # r) =
     (if c = CHR '':'' then CHR ''0'' # carry_back (char_of ((of_char d :: nat) + 1) # r) else c # d # r)"
| "carry_back s = s"

definition digits_mode :: "dragon \<Rightarrow> nat \<Rightarrow> int \<Rightarrow> (string \<times> int) option" where
  "digits_mode d n exp10 =
     (let exp10 = exp10 - (int n - 1); num = dr_numerator d; den = dr_denominator d
      in if n = 0 then
           Some ((if 0 < add_compare num num (multiply32 den 10) then ''1'' else ''0''), exp10)
         else Option.bind (digits_loop den (n - 1) num) (\<lambda>(ds, num).
           Option.bind (divmod_assign num den) (\<lambda>(digit, num).
             (let result = add_compare num num den
              in if 0 < result \<or> result = 0 \<and> odd digit then
                   if digit = 9 then
                     (let buf = rev (carry_back (CHR '':'' # rev ds))
                      in Some (if hd buf = CHR '':'' then (CHR ''1'' # tl buf, exp10 + 1) else (buf, exp10)))
                   else Some (ds @ [char_of (48 + (digit + 1))], exp10)
                 else Some (ds @ [char_of (48 + digit)], exp10)))))"

definition format_dragon :: "u128 \<Rightarrow> int \<Rightarrow> bool \<Rightarrow> bool \<Rightarrow> bool \<Rightarrow> int \<Rightarrow> int \<Rightarrow> (string \<times> int) fmt" where
  "format_dragon f e closer fixup fixed_point num_digits exp10 =
     fmt_bind (from_option (dragon_setup f e closer exp10)) (\<lambda>d.
       fmt_bind (if fixup then dragon_fixup (and f 1 = 0) fixed_point d num_digits exp10 else Inr (d, num_digits, exp10))
         (\<lambda>(d, n, exp10).
            if n < 0 then
              from_option (map_option (\<lambda>ds. (ds, exp10 - (int (length ds) - 1))) (shortest_loop (and f 1 = 0) d []))
            else from_option (digits_mode d (nat n) exp10)))"

section \<open>Values\<close>

definition two_pow :: "int \<Rightarrow> real" where
  "two_pow e = (if 0 \<le> e then 2 ^ nat e else 1 / 2 ^ nat (- e))"

definition dragon_value :: "u128 \<Rightarrow> int \<Rightarrow> real" where
  "dragon_value f e = real (unat f) * two_pow e"

text \<open>The comparison with the denominator cannot go wrong on equal numbers.\<close>

definition ready :: "bigint \<Rightarrow> bigint \<Rightarrow> bool" where
  "ready num den \<longleftrightarrow> bi_ok num \<and> bi_ok den \<and> bi_value den \<noteq> 0 \<and> placed num den \<and>
     (bi_exp num \<le> bi_exp den \<or> bi_value den \<le> bi_value num \<and> (hd (bi_bigits den) \<noteq> 0 \<or> bi_value num \<noteq> bi_value den))"

lemma hd_not_zero: "\<not> radix dvd bval s \<Longrightarrow> hd s \<noteq> 0"
  by (cases s) auto

lemma not_radix_dvd: "\<not> radix dvd 5 ^ x * 2 ^ k" if "k < 32"
proof
  assume "radix dvd 5 ^ x * 2 ^ k"
  moreover have "coprime (2 ^ 32) (5 ^ x :: nat)" unfolding coprime_power_left_iff coprime_power_right_iff by simp
  then have "coprime radix (5 ^ x)" unfolding radix_def .
  ultimately have "radix dvd 2 ^ k" by (simp add: coprime_dvd_mult_right_iff)
  then have "radix \<le> 2 ^ k" by (rule dvd_imp_le) simp
  moreover have "(2 :: nat) ^ k < 2 ^ 32" using that by (intro power_strict_increasing) simp_all
  ultimately show False by (simp add: radix_def)
qed

lemma shifted_one:
  "bi_value (bi_shift (bi_assign (1 :: u64)) k) = 2 ^ k" "hd (bi_bigits (bi_shift (bi_assign (1 :: u64)) k)) \<noteq> 0"
proof -
  show v: "bi_value (bi_shift (bi_assign (1 :: u64)) k) = 2 ^ k" by (simp add: shift_value assign_value)
  have "bi_exp (bi_shift (bi_assign (1 :: u64)) k) = k div 32" by (simp add: bi_shift_def bi_assign_def Let_def)
  moreover have "2 ^ k = 2 ^ (k mod 32) * radix ^ (k div 32)"
    by (simp only: radix_def power_mult [symmetric] power_add [symmetric]) simp
  ultimately have "bval (bi_bigits (bi_shift (bi_assign (1 :: u64)) k)) = 2 ^ (k mod 32)" using v by (simp add: bi_value_def)
  then show "hd (bi_bigits (bi_shift (bi_assign (1 :: u64)) k)) \<noteq> 0"
    using not_radix_dvd [of "k mod 32" 0] by (intro hd_not_zero) simp
qed

lemma two_pow_shift: "0 \<le> int s - e \<Longrightarrow> two_pow e = 2 ^ s / 2 ^ nat (int s - e)"
proof -
  assume "0 \<le> int s - e"
  then have "(2 :: real) ^ s * (if e < 0 then 2 ^ nat (- e) else 1) = 2 ^ nat (int s - e) * (if 0 \<le> e then 2 ^ nat e else 1)"
    by (auto simp: power_add [symmetric] nat_add_distrib [symmetric])
  then show ?thesis by (auto simp: two_pow_def field_simps split: if_splits)
qed

text \<open>The fraction is the value over the power of ten.\<close>

lemma dragon_setup_value:
  assumes "f \<noteq> 0" "unat f < 2 ^ 64" "\<bar>exp10\<bar> < 2 ^ 31" "0 \<le> e \<Longrightarrow> 0 \<le> exp10"
  shows "\<exists>d. dragon_setup f e closer exp10 = Some d \<and> bi_ok (dr_numerator d) \<and> bi_ok (dr_denominator d) \<and>
    bi_value (dr_numerator d) \<noteq> 0 \<and> bi_value (dr_denominator d) \<noteq> 0 \<and>
    real (bi_value (dr_numerator d)) / real (bi_value (dr_denominator d)) = dragon_value f e / ten_pow exp10 \<and>
    (bi_exp (dr_numerator d) \<le> bi_exp (dr_denominator d) \<or> hd (bi_bigits (dr_denominator d)) \<noteq> 0 \<or>
     bi_value (dr_numerator d) \<noteq> bi_value (dr_denominator d) \<and> 10 * bi_value (dr_numerator d) \<noteq> bi_value (dr_denominator d)) \<and>
    bi_ok (dr_low d) \<and> bi_value (dr_low d) \<noteq> 0 \<and> bi_ok (dr_upper d) \<and> bi_value (dr_upper d) \<noteq> 0 \<and>
    real (bi_value (dr_low d)) / real (bi_value (dr_denominator d)) = two_pow e / (if closer then 4 else 2) / ten_pow exp10 \<and>
    real (bi_value (dr_upper d)) / real (bi_value (dr_denominator d)) = two_pow e / 2 / ten_pow exp10 \<and>
    (Suc (bi_exp (dr_numerator d)) \<le> num_bigits (dr_low d) \<or>
     0 \<le> e \<and> bi_exp (dr_denominator d) = nat exp10 div 32 \<and> Suc (nat e div 32) \<le> num_bigits (dr_low d))"
proof -
  define s where "s = (if closer then 2 else 1 :: nat)"
  have s: "0 < s" "s < 3" "s < 32" "2 ^ s = (if closer then 4 else 2 :: real)" by (simp_all add: s_def)
  have bits: "Suc (bi_exp b) \<le> num_bigits b" if "bi_ok b" for b
    using that by (cases "bi_bigits b") (simp_all add: bi_ok_def stripped_def num_bigits_def)
  have one: "bi_ok (bi_shift (bi_assign (1 :: u64)) k)" "bi_exp (bi_shift (bi_assign (1 :: u64)) k) = k div 32" for k
    by (simp_all add: shift_ok assign_ok) (simp add: bi_shift_def bi_assign_def Let_def)
  have f: "bi_of f = Some (bi_assign f)" "bi_value (bi_assign f) = unat f" "bi_ok (bi_assign f)" "bi_exp (bi_assign f) = 0" "0 < unat f"
    using assms(1) unat_eq_zero [of f] by (simp_all add: bi_of_def assign_value assign_ok) (simp add: bi_assign_def)
  note p10 = pow10_value [of "nat \<bar>exp10\<bar>"]
  have x: "nat \<bar>exp10\<bar> < 2 ^ 31" using assms(3) by simp
  note defs = dragon_setup_def s_def [symmetric] Let_def
  consider (big) "0 \<le> e" | (small) "e < 0" "exp10 < 0" | (mid) "e < 0" "0 \<le> exp10" by linarith
  then show ?thesis
  proof cases
    case big
    let ?n = "bi_shift (bi_assign f) (nat e + s)" and ?d = "bi_shift (bi_pow10 (nat exp10)) s"
    have x0: "0 \<le> exp10" "nat \<bar>exp10\<bar> = nat exp10" using assms(4) big by simp_all
    have v: "bi_value ?n = unat f * 2 ^ (nat e + s)" "bi_value ?d = 10 ^ nat exp10 * 2 ^ s"
      using p10 x x0 by (simp_all add: shift_value f(2))
    have eq: "hd (bi_bigits ?d) \<noteq> 0" if "k * bi_value ?n = bi_value ?d" "k = 1 \<or> k = 10" for k
    proof -
      let ?x = "nat exp10"
      have "k * (unat f * 2 ^ nat e) * 2 ^ s = 10 ^ ?x * 2 ^ s" using that(1) unfolding v by (simp add: power_add mult.assoc)
      then have "k * (unat f * 2 ^ nat e) = 10 ^ ?x" by simp
      moreover have "k * (unat f * 2 ^ nat e) dvd (unat f * 5) * (2 * 2 ^ nat e)" using that(2) by (auto simp: ac_simps)
      moreover have "(5 :: nat) ^ ?x dvd 10 ^ ?x" by (simp add: dvd_power_same)
      ultimately have "5 ^ ?x dvd (unat f * 5) * (2 * 2 ^ nat e)" by (metis dvd_trans)
      moreover have "coprime (5 ^ ?x) (2 * 2 ^ nat e :: nat)" by simp
      ultimately have "5 ^ ?x dvd unat f * 5" by (simp only: coprime_dvd_mult_left_iff)
      then have "5 ^ ?x \<le> unat f * 5" using f(5) by (intro dvd_imp_le) simp_all
      also have "unat f * 5 < 2 ^ 64 * 5" using assms(2) by simp
      also have "\<dots> \<le> (5 :: nat) ^ 29" by simp
      finally have "(5 :: nat) ^ ?x < 5 ^ 29" .
      then have x28: "?x < 29" by (simp only: power_strict_increasing_iff)
      then have "bi_exp ?d = 0" using p10 x x0 s by (simp add: bi_shift_def Let_def)
      then have "bval (bi_bigits ?d) = 5 ^ ?x * 2 ^ (?x + s)"
        using v(2) by (simp add: bi_value_def power_add power_mult_distrib [symmetric])
      then show ?thesis using not_radix_dvd [of "?x + s" ?x] x28 s by (intro hd_not_zero) simp
    qed
    have "real (bi_value ?n) / real (bi_value ?d) = dragon_value f e / ten_pow exp10"
      using big x0 by (simp add: v dragon_value_def two_pow_def ten_pow_def power_add)
    moreover have "bi_ok ?n" "bi_ok ?d" "bi_value ?n \<noteq> 0" "bi_value ?d \<noteq> 0"
      using f p10 x x0 by (simp_all add: v) (simp_all add: shift_ok)
    moreover have "hd (bi_bigits ?d) \<noteq> 0 \<or> bi_value ?n \<noteq> bi_value ?d \<and> 10 * bi_value ?n \<noteq> bi_value ?d"
      using eq [of 1] eq [of 10] by auto
    moreover have "real (2 ^ nat e) / real (bi_value ?d) = two_pow e / (if closer then 4 else 2) / ten_pow exp10"
      using big x0 unfolding v two_pow_def ten_pow_def by (simp flip: s(4))
    moreover have "closer \<Longrightarrow> real (2 ^ (nat e + 1)) / real (bi_value ?d) = two_pow e / 2 / ten_pow exp10"
      using big x0 unfolding v two_pow_def ten_pow_def by (simp add: s(4))
    moreover have "bi_exp ?d = nat exp10 div 32" using p10 x x0 s by (simp add: bi_shift_def Let_def)
    moreover have "Suc (nat e div 32) \<le> num_bigits (bi_shift (bi_assign (1 :: u64)) (nat e))" using bits [OF one(1)] unfolding one(2) .
    ultimately show ?thesis using big f(1) x0 one(1) unfolding defs
      by (cases closer) (simp_all add: pow10_of_def dr_upper_def shifted_one(1))
  next
    case small
    let ?p = "bi_pow10 (nat (- exp10))"
    let ?n = "bi_shift (multiply_wide ?p f) s" and ?d = "bi_shift (bi_assign (1 :: u64)) (nat (int s - e))"
    have x0: "nat \<bar>exp10\<bar> = nat (- exp10)" using small by simp
    have p: "bi_value ?p = 10 ^ nat (- exp10)" "bi_ok ?p" using p10 x x0 by simp_all
    have v: "bi_value ?n = 10 ^ nat (- exp10) * unat f * 2 ^ s" by (simp add: shift_value multiply_wide_value p(1))
    have tp: "two_pow e = 2 ^ s / 2 ^ nat (int s - e)" using small by (intro two_pow_shift) simp
    then have "real (bi_value ?n) / real (bi_value ?d) = dragon_value f e / ten_pow exp10"
      using small unfolding v shifted_one by (simp add: dragon_value_def ten_pow_def)
    moreover have "bi_ok ?n" "bi_ok ?d" using p(2) assms(1) by (simp_all add: shift_ok multiply_wide_ok assign_ok)
    moreover have "bi_value ?n \<noteq> 0" "bi_value ?d \<noteq> 0" using f(5) by (simp_all add: v shifted_one)
    moreover have "real (bi_value ?p) / real (bi_value ?d) = two_pow e / (if closer then 4 else 2) / ten_pow exp10"
      using small tp unfolding shifted_one p(1) by (simp add: ten_pow_def flip: s(4))
    moreover have "closer \<Longrightarrow> real (bi_value (bi_shift ?p 1)) / real (bi_value ?d) = two_pow e / 2 / ten_pow exp10"
      using small tp unfolding shifted_one by (simp add: ten_pow_def p(1) shift_value s(4))
    moreover have "bi_exp ?n = bi_exp ?p" using s by (simp add: bi_shift_def multiply_wide_def Let_def)
    then have "Suc (bi_exp ?n) \<le> num_bigits ?p" using bits [OF p(2)] by simp
    ultimately show ?thesis using small assms(1) shifted_one(2) p unfolding defs
      by (cases closer) (simp_all add: pow10_of_def dr_upper_def shift_ok shift_value)
  next
    case mid
    let ?n = "bi_shift (bi_assign f) s" and ?d = "bi_shift (bi_pow10 (nat exp10)) (nat (int s - e))"
    have x0: "nat \<bar>exp10\<bar> = nat exp10" using mid by simp
    have v: "bi_value ?n = unat f * 2 ^ s" "bi_value ?d = 10 ^ nat exp10 * 2 ^ nat (int s - e)"
      using p10 x x0 by (simp_all add: shift_value f(2))
    have tp: "two_pow e = 2 ^ s / 2 ^ nat (int s - e)" using mid by (intro two_pow_shift) simp
    then have "real (bi_value ?n) / real (bi_value ?d) = dragon_value f e / ten_pow exp10"
      using mid by (simp add: v dragon_value_def ten_pow_def)
    moreover have "bi_exp ?n = 0" using s(3) f(4) by (simp add: bi_shift_def Let_def)
    moreover have "bi_ok ?n" "bi_ok ?d" "bi_value ?n \<noteq> 0" "bi_value ?d \<noteq> 0"
      using f p10 x x0 by (simp_all add: v) (simp_all add: shift_ok)
    moreover have "1 / real (bi_value ?d) = two_pow e / (if closer then 4 else 2) / ten_pow exp10"
      using mid tp unfolding v by (simp add: ten_pow_def flip: s(4))
    moreover have "closer \<Longrightarrow> 2 / real (bi_value ?d) = two_pow e / 2 / ten_pow exp10"
      using mid tp unfolding v by (simp add: ten_pow_def s(4))
    moreover have "bi_ok (bi_assign (1 :: u64))" "bi_ok (bi_assign (2 :: u64))" by (simp_all add: assign_ok)
    moreover have "Suc 0 \<le> num_bigits (bi_assign (1 :: u64))" by (simp add: num_bigits_def bi_assign_def)
    ultimately show ?thesis using mid f(1) unfolding defs
      by (cases closer) (simp_all add: pow10_of_def dr_upper_def assign_value)
  qed
qed

lemma digit_step: "q < 10 \<Longrightarrow> (char_of (48 + q :: nat) :: char) = digit_char q"
  by (simp add: digit_char_def)

lemma dec_val_digit_Cons: "q < 10 \<Longrightarrow> dec_val (digit_char q # ds) = q * 10 ^ length ds + dec_val ds"
  by (induction ds rule: rev_induct) (simp_all add: dec_val_snoc [of "[]", simplified] dec_val_snoc [of "_ # _", simplified])

lemma times_ten: "bi_ok b \<Longrightarrow> bi_ok (multiply32 b 10)" "bi_value (multiply32 b 10) = bi_value b * 10"
  "bi_exp (multiply32 b 10) = bi_exp b"
  by (simp_all add: multiply32_ok multiply32_value) (simp add: multiply32_def)

lemma ready_divmod:
  assumes "ready num den"
  obtains c where "divmod_assign num den = Some (bi_value num div bi_value den, c)"
    "bi_value c = bi_value num mod bi_value den" "bi_ok c" "bi_exp c \<le> bi_exp den"
  using divmod_assign_value [of num den] assms by (auto simp: ready_def)

lemma readyI: "bi_ok c \<Longrightarrow> bi_ok den \<Longrightarrow> bi_value den \<noteq> 0 \<Longrightarrow> bi_exp c \<le> bi_exp den \<Longrightarrow> ready c den"
  by (simp add: ready_def zero_placed)

lemma digits_loop_value:
  "ready num den \<Longrightarrow> bi_value num < 10 * bi_value den \<Longrightarrow>
   \<exists>ds c. digits_loop den k num = Some (ds, c) \<and> length ds = k \<and> (\<forall>x \<in> set ds. is_digit x) \<and> ready c den \<and>
     bi_value num * 10 ^ k = dec_val ds * 10 * bi_value den + bi_value c \<and> bi_value c < 10 * bi_value den"
proof (induction k arbitrary: num)
  case (Suc k)
  let ?N = "bi_value num" and ?D = "bi_value den"
  from Suc.prems(1) obtain c where c: "divmod_assign num den = Some (?N div ?D, c)" "bi_value c = ?N mod ?D" "bi_ok c" "bi_exp c \<le> bi_exp den"
    by (rule ready_divmod)
  have den: "bi_ok den" "?D \<noteq> 0" using Suc.prems(1) by (simp_all add: ready_def)
  let ?c = "multiply32 c 10"
  have "ready ?c den" using c den by (intro readyI) (simp_all add: times_ten)
  moreover have "bi_value ?c < 10 * ?D" using den by (simp add: times_ten c(2))
  ultimately obtain ds c' where IH: "digits_loop den k ?c = Some (ds, c')" "length ds = k" "\<forall>x \<in> set ds. is_digit x"
    "ready c' den" "bi_value ?c * 10 ^ k = dec_val ds * 10 * ?D + bi_value c'" "bi_value c' < 10 * ?D"
    using Suc.IH [of ?c] by blast
  let ?q = "?N div ?D"
  have step: "(q * D + r) * 10 ^ Suc k = q * 10 ^ k * 10 * D + r * 10 * 10 ^ k" for q r D :: nat by (simp add: algebra_simps)
  have q: "?q < 10" using Suc.prems(2) by (intro less_mult_imp_div_less)
  have "?N * 10 ^ Suc k = (?q * ?D + ?N mod ?D) * 10 ^ Suc k" by (simp only: div_mult_mod_eq)
  also have "\<dots> = ?q * 10 ^ k * 10 * ?D + bi_value ?c * 10 ^ k" unfolding times_ten c(2) by (rule step)
  also have "\<dots> = dec_val (digit_char ?q # ds) * 10 * ?D + bi_value c'"
    unfolding IH(5) dec_val_digit_Cons [OF q] IH(2) by (simp add: algebra_simps)
  finally have "?N * 10 ^ Suc k = dec_val (digit_char ?q # ds) * 10 * ?D + bi_value c'" .
  then show ?case using c(1) IH q by (intro exI [of _ "digit_char ?q # ds"] exI [of _ c']) (simp add: digit_step)
qed simp

lemma add_compare_half:
  assumes "bi_ok c" "bi_ok den" "bi_value den \<noteq> 0" "placed c den"
  shows "add_compare c c den = int_sgn (2 * bi_value c) (bi_value den)"
  using add_compare_value [OF assms(4,4,2,3)] by (simp add: mult_2)

text \<open>Rounding a quotient: the quotient, or one more when the rest is above a half, or a half of an odd one.\<close>

lemma round_quotient:
  assumes "0 < d"
  shows "round_half_even (real n / real d) =
    int (if 2 * (n mod d) < d \<or> 2 * (n mod d) = d \<and> even (n div d) then n div d else n div d + 1)"
proof -
  have fl: "\<lfloor>real n / real d\<rfloor> = int (n div d)" by (rule floor_divide_of_nat_eq)
  have "real n = real (n div d) * real d + real (n mod d)" by (simp flip: of_nat_mult of_nat_add)
  then have r: "real n / real d - real_of_int (int (n div d)) = real (n mod d) / real d"
    using assms by (simp add: field_simps)
  have "real (n mod d) / real d < 1/2 \<longleftrightarrow> real (2 * (n mod d)) < real d" using assms by (simp add: field_simps)
  then have "real (n mod d) / real d < 1/2 \<longleftrightarrow> 2 * (n mod d) < d" by (simp only: of_nat_less_iff)
  moreover have "real (n mod d) / real d = 1/2 \<longleftrightarrow> real (2 * (n mod d)) = real d" using assms by (auto simp: field_simps)
  then have "real (n mod d) / real d = 1/2 \<longleftrightarrow> 2 * (n mod d) = d" by (simp only: of_nat_eq_iff)
  ultimately show ?thesis unfolding round_half_even_def Let_def fl r by simp
qed

section \<open>The carry\<close>

lemma dec_val_pair [simp]: "dec_val (ds @ [d, c]) = 10 * (10 * dec_val ds + (of_char d - 48)) + (of_char c - 48)"
  using dec_val_snoc [of "ds @ [d]" c] by simp

definition colon_or_digit :: "char \<Rightarrow> bool" where
  "colon_or_digit c \<longleftrightarrow> is_digit c \<or> c = CHR '':''"

lemma colon: "of_char CHR '':'' = (58 :: nat)" "\<not> is_digit CHR '':''" by code_simp+

lemma digit_code: "is_digit c \<Longrightarrow> 48 \<le> (of_char c :: nat) \<and> (of_char c :: nat) \<le> 57"
  by (simp add: is_digit_def)

text \<open>The carry keeps the value; a colon is left at the front only when all other digits are zero.\<close>

lemma carry_back_value:
  assumes "\<forall>c \<in> set s. is_digit c" "s0 = c # s" "colon_or_digit c"
  shows "length (carry_back s0) = length s0 \<and> dec_val (rev (carry_back s0)) = dec_val (rev s0) \<and>
    ((\<forall>x \<in> set (carry_back s0). is_digit x) \<or> (\<exists>k. carry_back s0 = replicate k (CHR ''0'') @ [CHR '':'']))"
  using assms
proof (induction s0 arbitrary: c s rule: carry_back.induct)
  case (1 x d r)
  show ?case
  proof (cases "x = CHR '':''")
    case False
    then show ?thesis using 1 by (auto simp: colon_or_digit_def)
  next
    case True
    have d: "is_digit d" "\<forall>c \<in> set r. is_digit c" using 1 by auto
    let ?d = "char_of ((of_char d :: nat) + 1)"
    have od: "(of_char ?d :: nat) = of_char d + 1" using digit_code [OF d(1)] by simp
    have "colon_or_digit ?d"
    proof (cases "(of_char d :: nat) = 57")
      case True
      have "(char_of (58 :: nat) :: char) = CHR '':''" by code_simp
      then show ?thesis by (simp add: colon_or_digit_def True)
    next
      case False
      then show ?thesis using digit_code [OF d(1)] od by (simp add: colon_or_digit_def is_digit_def)
    qed
    note IH = "1.IH" [OF True d(2) refl this]
    have v: "dec_val (rev (carry_back (?d # r)) @ ''0'') = dec_val (rev (?d # r)) * 10" using IH by simp
    have "dec_val (rev (x # d # r)) = dec_val (rev (?d # r)) * 10"
      using digit_code [OF d(1)] by (simp add: True colon od) arith
    moreover have "carry_back (x # d # r) = CHR ''0'' # carry_back (?d # r)" using True by simp
    moreover have "(\<exists>k. carry_back (?d # r) = replicate k (CHR ''0'') @ [CHR '':'']) \<Longrightarrow>
        \<exists>k. CHR ''0'' # carry_back (?d # r) = replicate k (CHR ''0'') @ [CHR '':'']"
      by (elim exE) (rule_tac x = "Suc k" in exI, simp)
    moreover have "is_digit (CHR ''0'')" by (simp add: is_digit_def)
    ultimately show ?thesis using IH v by auto
  qed
next
  case "2_2"
  then show ?case by (auto simp: colon_or_digit_def intro: exI [of _ 0])
qed simp

lemma digits_mode_value:
  assumes "ready (dr_numerator d) (dr_denominator d)" "bi_value (dr_numerator d) < 10 * bi_value (dr_denominator d)"
  shows "\<exists>ds x. digits_mode d n e = Some (ds, x) \<and> length ds = max 1 n \<and> x - (e - (int n - 1)) \<in> {0, 1} \<and> (\<forall>c \<in> set ds. is_digit c) \<and>
    real (dec_val ds) * ten_pow x =
      real_of_int (round_half_even (real (bi_value (dr_numerator d)) / real (bi_value (dr_denominator d)) * ten_pow (int n - 1))) *
      ten_pow (e - (int n - 1))"
proof (cases n)
  case 0
  let ?N = "bi_value (dr_numerator d)" and ?D = "bi_value (dr_denominator d)" and ?den = "multiply32 (dr_denominator d) 10"
  have r: "bi_ok (dr_numerator d)" "bi_ok ?den" "bi_value ?den = 10 * ?D" "0 < ?D" "placed (dr_numerator d) ?den"
    using assms(1) zero_placed [of "dr_numerator d" ?den] by (auto simp: ready_def times_ten) (auto simp: placed_def)
  have "add_compare (dr_numerator d) (dr_numerator d) ?den = int_sgn (2 * ?N) (10 * ?D)"
    using add_compare_half [OF r(1,2) _ r(5)] r(3,4) by simp
  moreover have "round_half_even (real ?N / real ?D * ten_pow (-1)) = (if 10 * ?D < 2 * ?N then 1 else 0)"
    using round_quotient [of "10 * ?D" ?N] r(4) assms(2) by (auto simp: ten_pow_def mult.commute)
  ultimately show ?thesis using 0 by (auto simp: digits_mode_def int_sgn_def dec_val_def is_digit_def)
next
  case (Suc k)
  let ?num = "dr_numerator d" and ?den = "dr_denominator d"
  let ?N = "bi_value ?num" and ?D = "bi_value ?den"
  have D: "0 < ?D" using assms(1) by (simp add: ready_def)
  obtain ds c where loop: "digits_loop ?den k ?num = Some (ds, c)" "length ds = k" "\<forall>x \<in> set ds. is_digit x" "ready c ?den"
    "?N * 10 ^ k = dec_val ds * 10 * ?D + bi_value c" "bi_value c < 10 * ?D"
    using digits_loop_value [OF assms] by blast
  let ?q = "bi_value c div ?D" and ?r = "bi_value c mod ?D"
  obtain c' where c': "divmod_assign c ?den = Some (?q, c')" "bi_value c' = ?r" "bi_ok c'" "bi_exp c' \<le> bi_exp ?den"
    using loop(4) by (rule ready_divmod)
  have q: "?q < 10" using loop(6) by (intro less_mult_imp_div_less)
  let ?M = "10 * dec_val ds + ?q"
  have M: "?N * 10 ^ k = ?M * ?D + ?r"
  proof -
    have "?M * ?D + ?r = dec_val ds * 10 * ?D + (?q * ?D + ?r)" by (simp add: add_mult_distrib del: div_mult_mod_eq)
    then show ?thesis unfolding loop(5) div_mult_mod_eq by simp
  qed
  have dm: "?N * 10 ^ k div ?D = ?M" "?N * 10 ^ k mod ?D = ?r" unfolding M using D by simp_all
  have cmp: "add_compare c' c' ?den = int_sgn (2 * ?r) ?D"
    using add_compare_half [of c' ?den] c' loop(4) zero_placed [of c' ?den] D by (simp add: ready_def)
  let ?up = "\<not> (2 * ?r < ?D \<or> 2 * ?r = ?D \<and> even ?M)"
  have rnd: "round_half_even (real ?N / real ?D * ten_pow (int n - 1)) = int (if ?up then ?M + 1 else ?M)"
    using round_quotient [OF D, of "?N * 10 ^ k"] by (simp add: dm Suc ten_pow_def if_distrib)
  have up: "?up \<longleftrightarrow> 0 < add_compare c' c' ?den \<or> add_compare c' c' ?den = 0 \<and> odd ?q"
    unfolding cmp by (auto simp: int_sgn_def)
  let ?e = "e - int k"
  have mode: "digits_mode d n e =
      (if ?up then
         if ?q = 9 then
           (let buf = rev (carry_back (CHR '':'' # rev ds))
            in Some (if hd buf = CHR '':'' then (CHR ''1'' # tl buf, ?e + 1) else (buf, ?e)))
         else Some (ds @ [char_of (48 + (?q + 1))], ?e)
       else Some (ds @ [char_of (48 + ?q)], ?e))"
    unfolding up using loop(1) c'(1) by (simp add: digits_mode_def Suc Let_def)
  consider (down) "\<not> ?up" | (one) "?up" "?q \<noteq> 9" | (carry) "?up" "?q = 9" by blast
  then show ?thesis
  proof cases
    case down
    then have "digits_mode d n e = Some (ds @ [digit_char ?q], ?e)" unfolding mode using q by (simp add: digit_step)
    then show ?thesis unfolding rnd if_not_P [OF down] using loop(2,3) q
      by (intro exI [of _ "ds @ [digit_char ?q]"] exI [of _ ?e]) (simp add: Suc)
  next
    case one
    then have q9: "?q + 1 < 10" using q by simp
    have "digits_mode d n e = Some (ds @ [digit_char (?q + 1)], ?e)"
      unfolding mode if_P [OF one(1)] if_not_P [OF one(2)] digit_step [OF q9] ..
    then show ?thesis unfolding rnd if_P [OF one(1)] using loop(2,3) q9
      by (intro exI [of _ "ds @ [digit_char (?q + 1)]"] exI [of _ ?e]) (simp add: Suc)
  next
    case carry
    let ?s = "CHR '':'' # rev ds"
    have cb: "length (carry_back ?s) = n" "dec_val (rev (carry_back ?s)) = ?M + 1"
      "(\<forall>x \<in> set (carry_back ?s). is_digit x) \<or> (\<exists>k. carry_back ?s = replicate k (CHR ''0'') @ [CHR '':''])"
      using carry_back_value [of "rev ds" ?s "CHR '':''"] loop(2,3) carry(2) by (simp_all add: Suc colon colon_or_digit_def)
    have m: "digits_mode d n e = (let buf = rev (carry_back ?s)
            in Some (if hd buf = CHR '':'' then (CHR ''1'' # tl buf, ?e + 1) else (buf, ?e)))"
      unfolding mode if_P [OF carry(1)] if_P [OF carry(2)] ..
    show ?thesis
    proof (cases "\<forall>x \<in> set (carry_back ?s). is_digit x")
      case True
      have "rev (carry_back ?s) \<noteq> []" using cb(1) Suc by auto
      then have "hd (rev (carry_back ?s)) \<noteq> CHR '':''" using True colon(2) hd_in_set by fastforce
      then have "digits_mode d n e = Some (rev (carry_back ?s), ?e)" unfolding m Let_def by simp
      then show ?thesis unfolding rnd if_P [OF carry(1)] using cb True
        by (intro exI [of _ "rev (carry_back ?s)"] exI [of _ ?e]) (simp add: Suc)
    next
      case False
      then obtain j where j: "carry_back ?s = replicate j (CHR ''0'') @ [CHR '':'']" using cb(3) by blast
      then have "j = k" using cb(1) Suc by simp
      note j = j [unfolded this]
      let ?t = "CHR ''1'' # replicate k (CHR ''0'')"
      have "digits_mode d n e = Some (?t, ?e + 1)" unfolding m Let_def j by simp
      moreover have "dec_val ?t = 10 ^ k"
        using dec_val_zeros [of "''1''" k] by (simp add: dec_val_def)
      moreover have "?M + 1 = 10 * 10 ^ k"
        using cb(2) dec_val_zeros [of "'':''" k] unfolding j by (simp add: colon dec_val_def)
      moreover have "10 * ten_pow ?e = ten_pow (?e + 1)" using ten_pow_shift [of 1 "?e + 1"] by simp
      moreover have "is_digit (CHR ''1'')" "is_digit (CHR ''0'')" by (simp_all add: is_digit_def)
      ultimately show ?thesis unfolding rnd if_P [OF carry(1)]
        by (intro exI [of _ ?t] exI [of _ "?e + 1"]) (simp add: Suc)
    qed
  qed
qed

section \<open>The whole function\<close>

lemma ten_pow_powi: "ten_pow e = 10 powi e"
  by (simp add: ten_pow_def power_int_def power_inverse inverse_eq_divide power_one_over)

lemma ten_pow_add: "ten_pow (a + b) = ten_pow a * ten_pow b"
  by (simp add: ten_pow_powi power_int_add)

lemma ten_pow_pos [simp]: "0 < ten_pow e" "ten_pow e \<noteq> 0"
  by (simp_all add: ten_pow_def)

definition rounded_at :: "int \<Rightarrow> real \<Rightarrow> real" where
  "rounded_at y v = real_of_int (round_half_even (v / ten_pow y)) * ten_pow y"

lemma format_dragon_value:
  assumes "f \<noteq> 0" "unat f < 2 ^ 64" "\<bar>exp10\<bar> < 2 ^ 31" "0 \<le> n"
    "ten_pow exp10 \<le> dragon_value f e" "dragon_value f e < ten_pow (exp10 + 1)"
  shows "\<exists>ds x. format_dragon f e closer False fixed_point n exp10 = Inr (ds, x) \<and>
    int (length ds) = max 1 n \<and> x - (exp10 - n + 1) \<in> {0, 1} \<and> (\<forall>c \<in> set ds. is_digit c) \<and>
    real (dec_val ds) * ten_pow x = rounded_at (exp10 - n + 1) (dragon_value f e)"
proof -
  have "0 \<le> exp10" if "0 \<le> e"
  proof (rule ccontr)
    assume neg: "\<not> 0 \<le> exp10"
    have "1 \<le> unat f" using assms(1) unat_eq_zero [of f] by (simp add: Suc_le_eq)
    then have "1 \<le> real (unat f)" by linarith
    then have "1 * 1 \<le> real (unat f) * 2 ^ nat e" by (intro mult_mono) simp_all
    then have "1 \<le> dragon_value f e" using that by (simp add: dragon_value_def two_pow_def)
    moreover have "ten_pow (exp10 + 1) \<le> 1" using neg by (auto simp: ten_pow_def)
    ultimately show False using assms(6) by linarith
  qed
  from dragon_setup_value [OF assms(1,2,3) this] obtain d where d:
    "dragon_setup f e closer exp10 = Some d" "bi_ok (dr_numerator d)" "bi_ok (dr_denominator d)"
    "bi_value (dr_numerator d) \<noteq> 0" "bi_value (dr_denominator d) \<noteq> 0"
    "real (bi_value (dr_numerator d)) / real (bi_value (dr_denominator d)) = dragon_value f e / ten_pow exp10"
    "bi_exp (dr_numerator d) \<le> bi_exp (dr_denominator d) \<or> hd (bi_bigits (dr_denominator d)) \<noteq> 0 \<or>
     bi_value (dr_numerator d) \<noteq> bi_value (dr_denominator d)" by metis
  let ?N = "bi_value (dr_numerator d)" and ?D = "bi_value (dr_denominator d)"
  have D: "0 < real ?D" using d(5) by simp
  have q: "1 \<le> real ?N / real ?D" "real ?N / real ?D < 10"
    using assms(5,6) ten_pow_add [of exp10 1] unfolding d(6) by (simp_all add: field_simps) (simp add: ten_pow_def)
  then have "real ?D \<le> real ?N" "real ?N < real (10 * ?D)" using D by (simp_all add: field_simps)
  then have "?D \<le> ?N" "?N < 10 * ?D" by (simp_all only: of_nat_le_iff of_nat_less_iff)
  then have "ready (dr_numerator d) (dr_denominator d)" using d by (auto simp: ready_def placed_def)
  from digits_mode_value [OF this \<open>?N < 10 * ?D\<close>, of "nat n" exp10] obtain ds x where
    m: "digits_mode d (nat n) exp10 = Some (ds, x)" "length ds = max 1 (nat n)" "x - (exp10 - (int (nat n) - 1)) \<in> {0, 1}"
      "\<forall>c \<in> set ds. is_digit c"
      "real (dec_val ds) * ten_pow x =
        real_of_int (round_half_even (real ?N / real ?D * ten_pow (int (nat n) - 1))) * ten_pow (exp10 - (int (nat n) - 1))"
    by blast
  have "ten_pow exp10 = ten_pow (exp10 - n + 1) * ten_pow (n - 1)" by (simp flip: ten_pow_add)
  then have "real ?N / real ?D * ten_pow (n - 1) = dragon_value f e / ten_pow (exp10 - n + 1)"
    unfolding d(6) by (simp add: field_simps)
  then have "real (dec_val ds) * ten_pow x = rounded_at (exp10 - n + 1) (dragon_value f e)"
    using m(5) assms(4) by (simp add: rounded_at_def algebra_simps)
  moreover have "format_dragon f e closer False fixed_point n exp10 = Inr (ds, x)"
    using d(1) m(1) assms(4) by (simp add: format_dragon_def from_option_def)
  ultimately show ?thesis using m(2,3,4) assms(4) by (intro exI [of _ ds] exI [of _ x]) auto
qed

section \<open>From the value to the text\<close>

text \<open>Unless the point is fixed or asked for, zeros at the end go into the exponent.\<close>

fun trim_back :: "string \<Rightarrow> int \<Rightarrow> string \<times> int" where
  "trim_back (c # r) e = (if c = CHR ''0'' then trim_back r (e + 1) else (c # r, e))"
| "trim_back [] e = ([], e)"

definition trim_zeros :: "float_specs \<Rightarrow> string \<Rightarrow> int \<Rightarrow> string \<times> int" where
  "trim_zeros fs ds e =
     (if fs_format fs \<noteq> Float_fixed \<and> \<not> fs_showpoint fs
      then case trim_back (rev ds) e of (r, e') \<Rightarrow> (rev r, e') else (ds, e))"

lemma trim_back_value:
  "trim_back s e = (r, e') \<Longrightarrow> real (dec_val (rev r)) * ten_pow e' = real (dec_val (rev s)) * ten_pow e \<and>
     set r \<subseteq> set s \<and> e' + int (length r) = e + int (length s)"
proof (induction s e rule: trim_back.induct)
  case (1 c s e)
  show ?case
  proof (cases "c = CHR ''0''")
    case True
    have "ten_pow (e + 1) = 10 * ten_pow e" unfolding ten_pow_add by (simp add: ten_pow_def)
    then show ?thesis using 1 True by auto
  qed (use 1 in auto)
qed simp

lemma trim_back_Nil: "trim_back s e = ([], e') \<Longrightarrow> dec_val (rev s) = 0"
  by (induction s e rule: trim_back.induct) (auto split: if_splits)

lemma trim_zeros_value:
  assumes "trim_zeros fs ds e = (r, e')"
  shows "real (dec_val r) * ten_pow e' = real (dec_val ds) * ten_pow e" "set r \<subseteq> set ds"
    "e' + int (length r) = e + int (length ds)" "r = [] \<Longrightarrow> ds = [] \<or> dec_val ds = 0"
  using assms trim_back_value [of "rev ds" e "rev r" e'] trim_back_Nil [of "rev ds" e e']
  by (auto simp: trim_zeros_def split: if_splits prod.splits)

text \<open>
  Digits to a precision are correctly rounded. For a finite value \<^verbatim>\<open>f * 2^e\<close> with its decimal
  exponent, \<^verbatim>\<open>format_dragon\<close> returns the asked number of digits (at least one) and an exponent that
  stand for the value rounded, half to even, at the last of these digits, exactly and for every
  precision; the arithmetic of the big integers loses nothing.
\<close>

theorem dragon_rounds:
  assumes "f \<noteq> 0" "unat f < 2 ^ 64" "\<bar>exp10\<bar> < 2 ^ 31" "0 \<le> n"
    "ten_pow exp10 \<le> dragon_value f e" "dragon_value f e < ten_pow (exp10 + 1)"
  shows "\<exists>ds x. format_dragon f e closer False fixed_point n exp10 = Inr (ds, x) \<and>
    int (length ds) = max 1 n \<and> (\<forall>c \<in> set ds. is_digit c) \<and>
    real (dec_val ds) * ten_pow x =
      real_of_int (round_half_even (dragon_value f e / ten_pow (exp10 - n + 1))) * ten_pow (exp10 - n + 1)"
  using format_dragon_value [OF assms, of closer fixed_point] unfolding rounded_at_def by blast

theorem dragon_rounds_witness:
  "\<exists>ds x. format_dragon 7 (-1) False False False 1 0 = Inr (ds, x) \<and> int (length ds) = 1 \<and> (\<forall>c \<in> set ds. is_digit c) \<and>
    real (dec_val ds) * ten_pow x = 4"
proof -
  have v: "dragon_value 7 (-1) = 7 / 2" by (simp add: dragon_value_def two_pow_def)
  have "\<lfloor>7 / 2 :: real\<rfloor> = 3" by (rule floor_unique) simp_all
  then have r: "round_half_even (7 / 2) = 4" by (simp add: round_half_even_def Let_def)
  show ?thesis
    using dragon_rounds [of 7 0 1 "-1" False False] by (simp add: v r ten_pow_def)
qed

lemma round_half_even_ge_1: "1 \<le> v \<Longrightarrow> 1 \<le> round_half_even v"
proof -
  assume "1 \<le> v"
  then have "1 \<le> \<lfloor>v\<rfloor>" by (simp add: le_floor_iff)
  then show ?thesis by (auto simp: round_half_even_def Let_def)
qed

text \<open>
  C35: printing to a precision is correct from the bits to the text. The digits of a finite value of
  either sign, with its zeros trimmed and laid out by the specifiers, are read by \<^verbatim>\<open>std::stod\<close> as the
  value rounded half to even at the last digit asked for.
\<close>

theorem precision_printed:
  assumes "f \<noteq> 0" "unat f < 2 ^ 64" "\<bar>exp10\<bar> < 9000" "1 \<le> n"
    "ten_pow exp10 \<le> dragon_value f e" "dragon_value f e < ten_pow (exp10 + 1)"
    "double_range (rounded_at (exp10 - n + 1) (dragon_value f e))" "\<not> fs_locale fs"
  shows "\<exists>ds x l r core t. format_dragon f e closer False fixed_point n exp10 = Inr (ds, x) \<and>
    do_write_float pt g (case trim_zeros fs ds x of (s, y) \<Rightarrow> Big_decimal s y) specs fs = Inr (length t, t) \<and>
    t = fill_text l (sp_fill specs) @ core @ fill_text r (sp_fill specs) \<and>
    stod core = Inr (if fs_sign fs = Sign_minus then - rounded_at (exp10 - n + 1) (dragon_value f e)
                     else rounded_at (exp10 - n + 1) (dragon_value f e))"
proof -
  let ?v = "rounded_at (exp10 - n + 1) (dragon_value f e)"
  have "\<bar>exp10\<bar> < 2 ^ 31" "0 \<le> n" using assms(3,4) by simp_all
  from format_dragon_value [OF assms(1,2) this assms(5,6), of closer fixed_point] obtain ds x where
    d: "format_dragon f e closer False fixed_point n exp10 = Inr (ds, x)" "int (length ds) = max 1 n" "x - (exp10 - n + 1) \<in> {0, 1}"
      "\<forall>c \<in> set ds. is_digit c" "real (dec_val ds) * ten_pow x = ?v" by blast
  obtain s y where t: "trim_zeros fs ds x = (s, y)" by fastforce
  note tv = trim_zeros_value [OF t]
  let ?f = "Big_decimal s y"
  have val: "df_value ?f = ?v" using tv(1) d(5) by (simp add: df_value_def)
  have digits: "\<forall>c \<in> set (df_digits ?f). is_digit c" using tv(2) d(4) by auto
  have "dec_val ds \<noteq> 0"
  proof
    assume "dec_val ds = 0"
    then have "round_half_even (dragon_value f e / ten_pow (exp10 - n + 1)) = 0" using d(5) by (simp add: rounded_at_def)
    moreover have "1 \<le> dragon_value f e / ten_pow (exp10 - n + 1)"
    proof -
      have "1 \<le> ten_pow (n - 1)" using assms(4) by (simp add: ten_pow_def)
      then have "ten_pow (exp10 - n + 1) * 1 \<le> ten_pow (exp10 - n + 1) * ten_pow (n - 1)"
        by (intro mult_left_mono) (simp_all add: less_imp_le)
      also have "\<dots> = ten_pow exp10" by (simp flip: ten_pow_add)
      also have "\<dots> \<le> dragon_value f e" by (rule assms(5))
      finally have "ten_pow (exp10 - n + 1) \<le> dragon_value f e" by simp
      then show ?thesis by (simp add: field_simps)
    qed
    ultimately show False using round_half_even_ge_1 by fastforce
  qed
  then have "s \<noteq> []" using tv(4) by (auto simp: dec_val_def)
  moreover have "\<bar>output_exp ?f\<bar> < 10000" using tv(3) d(2,3) assms(3,4) by (auto simp: output_exp_def)
  ultimately obtain l r core w where
    "do_write_float pt g ?f specs fs = Inr (length w, w)" "w = fill_text l (sp_fill specs) @ core @ fill_text r (sp_fill specs)"
    "number_layout (df_value ?f) (fs_sign fs) core"
    using do_write_float_text [of ?f fs pt g specs] digits assms(8) by auto
  then show ?thesis
    using d(1) number_layout_stod [of ?v "fs_sign fs" core] assms(7) unfolding val
    by (intro exI [of _ ds] exI [of _ x] exI [of _ l] exI [of _ r] exI [of _ core] exI [of _ w]) (simp add: t)
qed

theorem precision_printed_witness:
  "\<exists>ds x l r core t. format_dragon 7 (-1) False False False 1 0 = Inr (ds, x) \<and>
    do_write_float (CHR ''.'') no_grouping (case trim_zeros float_specs0 ds x of (s, y) \<Rightarrow> Big_decimal s y) specs0 float_specs0 =
      Inr (length t, t) \<and>
    t = fill_text l '' '' @ core @ fill_text r '' '' \<and> stod core = Inr 4"
proof -
  have v: "dragon_value 7 (-1) = 7 / 2" by (simp add: dragon_value_def two_pow_def)
  have "\<lfloor>7 / 2 :: real\<rfloor> = 3" by (rule floor_unique) simp_all
  then have r: "rounded_at 0 (7 / 2) = 4" by (simp add: rounded_at_def round_half_even_def Let_def ten_pow_def)
  have "double_range 4" by (simp add: double_range_def)
  then show ?thesis
    using precision_printed [of 7 0 1 "-1" float_specs0 False False "CHR ''.''" no_grouping specs0]
    by (simp add: v r ten_pow_def float_specs0_def)
qed

end
