(* ===== verification/FmtShortest.thy ===== *)
theory FmtShortest
  imports FmtDragon
begin

text \<open>
  The shortest representation (\<^verbatim>\<open>format_dragon\<close> without a precision, with the correction of an
  exponent estimated one too high) and the values it is for: how an IEEE number is taken apart
  (\<^verbatim>\<open>basic_fp::assign\<close> of \<^verbatim>\<open>src/include/fmt/format.h\<close>). The loop ends, and its digits lie between the
  midpoints to the neighbouring numbers.
\<close>

section \<open>The loop\<close>

text \<open>\<open>reaches\<close>: the number with \<open>u\<close> added is at least \<open>d\<close>, equality counting for even numbers.\<close>

definition reaches :: "bool \<Rightarrow> nat \<Rightarrow> nat \<Rightarrow> nat \<Rightarrow> bool" where
  "reaches is_even n u d \<longleftrightarrow> d < n + u \<or> n + u = d \<and> is_even"

lemma reaches_scale: "0 < k \<Longrightarrow> reaches ev (k * n) (k * u) (k * d) \<longleftrightarrow> reaches ev n u d"
  by (simp add: reaches_def flip: distrib_left)

definition loop_ready :: "bool \<Rightarrow> dragon \<Rightarrow> bool" where
  "loop_ready ev d \<longleftrightarrow>
     (let num = dr_numerator d; den = dr_denominator d; lo = dr_low d; up = dr_upper d
      in bi_ok num \<and> bi_value num \<noteq> 0 \<and> bi_ok den \<and> bi_value den \<noteq> 0 \<and> bi_ok lo \<and> bi_value lo \<noteq> 0 \<and>
         bi_ok up \<and> bi_value up \<noteq> 0 \<and> Suc (min (bi_exp num) (bi_exp den)) \<le> num_bigits lo \<and>
         (bi_exp num \<le> bi_exp den \<or>
          (hd (bi_bigits den) \<noteq> 0 \<or> bi_value num \<noteq> bi_value den) \<and>
          (bi_value den \<le> bi_value num \<or> reaches ev (bi_value num) (bi_value up) (bi_value den))))"

lemma dr_upper_times:
  "dr_upper (d\<lparr>dr_numerator := n, dr_low := multiply32 (dr_low d) 10, dr_high := map_option (\<lambda>u. multiply32 u 10) (dr_high d)\<rparr>) =
     multiply32 (dr_upper d) 10"
  by (cases "dr_high d") (simp_all add: dr_upper_def)

lemma next_digit:
  fixes n q d r l u a p :: nat
  assumes "n = q * d + r" "r * 10 * p \<le> a * d + l * 10 * p" "a * d \<le> r * 10 * p + u * 10 * p"
  shows "n * (10 * p) \<le> (q * (10 * p) + a) * d + l * (10 * p)" "(q * (10 * p) + a) * d \<le> n * (10 * p) + u * (10 * p)"
proof -
  have e: "n * (10 * p) = q * (10 * p) * d + r * (10 * p)" unfolding assms(1) by (simp add: algebra_simps)
  show "n * (10 * p) \<le> (q * (10 * p) + a) * d + l * (10 * p)" "(q * (10 * p) + a) * d \<le> n * (10 * p) + u * (10 * p)"
    using assms(2,3) unfolding e add_mult_distrib mult.assoc by linarith+
qed

lemma shortest_loop_value:
  "loop_ready ev d \<Longrightarrow> \<not> reaches ev (bi_value (dr_numerator d)) (bi_value (dr_upper d)) (10 * bi_value (dr_denominator d)) \<Longrightarrow>
   \<exists>ds k. shortest_loop ev d acc = Some (rev acc @ ds) \<and> length ds = Suc k \<and> (\<forall>c \<in> set ds. is_digit c) \<and>
     bi_value (dr_numerator d) * 10 ^ k \<le> dec_val ds * bi_value (dr_denominator d) + bi_value (dr_low d) * 10 ^ k \<and>
     dec_val ds * bi_value (dr_denominator d) \<le> bi_value (dr_numerator d) * 10 ^ k + bi_value (dr_upper d) * 10 ^ k"
proof (induction "bi_value (dr_denominator d) - bi_value (dr_low d)" arbitrary: d acc rule: less_induct)
  case less
  let ?num = "dr_numerator d" and ?den = "dr_denominator d" and ?lo = "dr_low d" and ?up = "dr_upper d"
  let ?N = "bi_value ?num" and ?D = "bi_value ?den" and ?L = "bi_value ?lo" and ?U = "bi_value ?up"
  have ok: "bi_ok ?num" "?N \<noteq> 0" "bi_ok ?den" "?D \<noteq> 0" "bi_ok ?lo" "?L \<noteq> 0" "bi_ok ?up" "?U \<noteq> 0"
    and ex: "Suc (min (bi_exp ?num) (bi_exp ?den)) \<le> num_bigits ?lo"
    and cond: "bi_exp ?num \<le> bi_exp ?den \<or> (hd (bi_bigits ?den) \<noteq> 0 \<or> ?N \<noteq> ?D) \<and> (?D \<le> ?N \<or> reaches ev ?N ?U ?D)"
    using less.prems(1) by (simp_all add: loop_ready_def Let_def)
  obtain c where c: "divmod_assign ?num ?den = Some (?N div ?D, c)" "bi_value c = ?N mod ?D" "bi_ok c" "placed c ?den"
    "bi_exp c \<le> bi_exp ?num" "?D \<le> ?N \<or> bi_exp ?num \<le> bi_exp ?den \<longrightarrow> bi_exp c \<le> bi_exp ?den"
    using divmod_assign_value [of ?num ?den] ok cond by (auto simp: placed_def)
  let ?q = "?N div ?D" and ?r = "?N mod ?D"
  have split: "?N = ?q * ?D + ?r" by simp
  have "?N < 10 * ?D" using less.prems(2) ok(8) by (auto simp: reaches_def)
  then have q: "?q < 10" by (intro less_mult_imp_div_less)
  have pc: "placed c ?lo" "placed ?lo c"
  proof -
    have "bi_exp c \<le> min (bi_exp ?num) (bi_exp ?den)" if "?r = 0"
    proof -
      have "?D \<le> ?N" using that ok(2,4) by (metis mod_less not_less)
      then show ?thesis using c(5,6) by simp
    qed
    then show "placed c ?lo" "placed ?lo c" using c(2,3) ok(5,6) ex num_bigits_zero [OF c(3)] by (auto simp: placed_def)
  qed
  let ?low = "bi_compare c ?lo - of_bool ev < 0"
  have low: "?low \<Longrightarrow> ?r \<le> ?L" "?r < ?L \<Longrightarrow> ?low"
    using bi_compare_sound [OF pc] unfolding c(2) by (cases ev; force)+
  let ?high = "0 < add_compare c ?up ?den + of_bool ev"
  have "add_compare c ?up ?den = int_sgn (?r + ?U) ?D"
    using add_compare_value [of c ?den ?up] c(2,4) ok by (simp add: placed_def)
  then have high: "?high \<longleftrightarrow> reaches ev ?r ?U ?D" by (auto simp: int_sgn_def reaches_def)
  have nine: "\<not> ?high" if "?q = 9"
  proof -
    have "?r + 9 * ?D = ?N" using split that by simp
    then show ?thesis using less.prems(2) unfolding high reaches_def by auto
  qed
  let ?bump = "\<not> ?low \<or> ?high \<and> (0 < add_compare c c ?den \<or> add_compare c c ?den = 0 \<and> odd ?q)"
  let ?d = "d\<lparr>dr_numerator := multiply32 c 10, dr_low := multiply32 ?lo 10, dr_high := map_option (\<lambda>u. multiply32 u 10) (dr_high d)\<rparr>"
  have dq: "(char_of (48 + ?q) :: char) = digit_char ?q" by (rule digit_step [OF q])
  have loop: "shortest_loop ev d acc =
      (if ?low \<or> ?high then Some (rev (if ?bump then bump (digit_char ?q # acc) else digit_char ?q # acc))
       else shortest_loop ev ?d (digit_char ?q # acc))"
    by (subst shortest_loop.simps) (simp only: c(1) option.case prod.case Let_def dq)
  show ?case
  proof (cases "?low \<or> ?high")
    case True
    show ?thesis
    proof (cases ?bump)
      case b: True
      then have h: "?high" using True by blast
      then have "?q \<noteq> 9" using nine by blast
      then have q1: "?q + 1 < 10" using q by simp
      have "bump (digit_char ?q # acc) = digit_char (?q + 1) # acc"
        using q digit_step [OF q1] by simp
      then have s: "shortest_loop ev d acc = Some (rev acc @ [digit_char (?q + 1)])" unfolding loop if_P [OF True] if_P [OF b] by simp
      have v: "dec_val [digit_char (?q + 1)] = ?q + 1" using q1 by (simp add: dec_val_def)
      have "?N \<le> (?q + 1) * ?D" "(?q + 1) * ?D \<le> ?N + ?U"
        using h split ok(4) mod_less_divisor [of ?D ?N] unfolding high reaches_def add_mult_distrib by linarith+
      then show ?thesis using s v by (intro exI [of _ "[digit_char (?q + 1)]"] exI [of _ 0]) simp
    next
      case b: False
      then have l: "?low" by blast
      have s: "shortest_loop ev d acc = Some (rev acc @ [digit_char ?q])" unfolding loop if_P [OF True] if_not_P [OF b] by simp
      have v: "dec_val [digit_char ?q] = ?q" using q by (simp add: dec_val_def)
      have "?N \<le> ?q * ?D + ?L" "?q * ?D \<le> ?N + ?U" using low(1) [OF l] split by linarith+
      then show ?thesis using s v by (intro exI [of _ "[digit_char ?q]"] exI [of _ 0]) simp
    qed
  next
    case False
    then have lr: "?L \<le> ?r" "\<not> reaches ev ?r ?U ?D" using low(2) high by (blast intro: leI)+
    have r0: "?r \<noteq> 0" using lr(1) ok(6) by simp
    have rD: "?r < ?D" using ok(4) by simp
    have ec: "bi_exp c \<le> bi_exp ?den"
    proof (cases "bi_exp ?num \<le> bi_exp ?den \<or> ?D \<le> ?N")
      case True
      then show ?thesis using c(6) by blast
    next
      case f: False
      then have "reaches ev ?N ?U ?D" "?r = ?N" using cond by auto
      then show ?thesis using lr(2) by simp
    qed
    have ready: "loop_ready ev ?d"
    proof -
      have "Suc (min (bi_exp c) (bi_exp ?den)) \<le> num_bigits (multiply32 ?lo 10)"
        using ex c(5) num_bigits_times [of ?lo 10] by (auto simp: min_def split: if_splits)
      then show ?thesis
        unfolding loop_ready_def Let_def dr_upper_times using ok r0 c(2,3) ec by (simp add: times_ten)
    qed
    have nr: "\<not> reaches ev (bi_value (dr_numerator ?d)) (bi_value (dr_upper ?d)) (10 * bi_value (dr_denominator ?d))"
      unfolding dr_upper_times using lr(2) reaches_scale [of 10 ev ?r ?U ?D] by (simp add: times_ten c(2) mult.commute)
    have dec: "bi_value (dr_denominator ?d) - bi_value (dr_low ?d) < ?D - ?L"
      using ok(6) lr(1) rD by (simp add: times_ten)
    obtain ds k where IH: "shortest_loop ev ?d (digit_char ?q # acc) = Some (rev (digit_char ?q # acc) @ ds)" "length ds = Suc k"
      "\<forall>c \<in> set ds. is_digit c" "?r * 10 * 10 ^ k \<le> dec_val ds * ?D + ?L * 10 * 10 ^ k"
      "dec_val ds * ?D \<le> ?r * 10 * 10 ^ k + ?U * 10 * 10 ^ k"
      using less.hyps [OF dec ready nr, of "digit_char ?q # acc"] unfolding dr_upper_times
      by (auto simp: times_ten c(2))
    have dv: "dec_val (digit_char ?q # ds) = ?q * 10 ^ Suc k + dec_val ds" using dec_val_digit_Cons [OF q] IH(2) by simp
    have "?N * 10 ^ Suc k \<le> dec_val (digit_char ?q # ds) * ?D + ?L * 10 ^ Suc k"
      "dec_val (digit_char ?q # ds) * ?D \<le> ?N * 10 ^ Suc k + ?U * 10 ^ Suc k"
      using next_digit [OF split IH(4,5)] unfolding dv power_Suc by simp_all
    then show ?thesis
      using IH(1,2,3) False unfolding loop if_not_P [OF False]
      by (intro exI [of _ "digit_char ?q # ds"] exI [of _ "Suc k"]) simp
  qed
qed

section \<open>Within the interval\<close>

lemma shortest_between:
  assumes "loop_ready ev d" "\<not> reaches ev (bi_value (dr_numerator d)) (bi_value (dr_upper d)) (10 * bi_value (dr_denominator d))"
    "real (bi_value (dr_numerator d)) / real (bi_value (dr_denominator d)) = v / ten_pow y"
    "real (bi_value (dr_low d)) / real (bi_value (dr_denominator d)) = a / ten_pow y"
    "real (bi_value (dr_upper d)) / real (bi_value (dr_denominator d)) = b / ten_pow y"
  shows "\<exists>ds. shortest_loop ev d [] = Some ds \<and> ds \<noteq> [] \<and> (\<forall>c \<in> set ds. is_digit c) \<and>
    v - a \<le> real (dec_val ds) * ten_pow (y - (int (length ds) - 1)) \<and>
    real (dec_val ds) * ten_pow (y - (int (length ds) - 1)) \<le> v + b"
proof -
  let ?N = "bi_value (dr_numerator d)" and ?D = "bi_value (dr_denominator d)" and ?L = "bi_value (dr_low d)" and ?U = "bi_value (dr_upper d)"
  obtain ds k where ds: "shortest_loop ev d [] = Some ds" "length ds = Suc k" "\<forall>c \<in> set ds. is_digit c"
    "?N * 10 ^ k \<le> dec_val ds * ?D + ?L * 10 ^ k" "dec_val ds * ?D \<le> ?N * 10 ^ k + ?U * 10 ^ k"
    using shortest_loop_value [OF assms(1,2), of "[]"] by auto
  have D: "0 < real ?D" using assms(1) by (simp add: loop_ready_def Let_def)
  let ?A = "real (dec_val ds)" and ?p = "10 ^ k :: real"
  have "real (?N * 10 ^ k) \<le> real (dec_val ds * ?D + ?L * 10 ^ k)" "real (dec_val ds * ?D) \<le> real (?N * 10 ^ k + ?U * 10 ^ k)"
    using ds(4,5) by (simp_all only: of_nat_le_iff)
  then have "real ?N / real ?D * ?p \<le> ?A + real ?L / real ?D * ?p" "?A \<le> real ?N / real ?D * ?p + real ?U / real ?D * ?p"
    using D by (simp_all add: field_simps)
  then have "v / ten_pow y * ?p \<le> ?A + a / ten_pow y * ?p" "?A \<le> v / ten_pow y * ?p + b / ten_pow y * ?p"
    unfolding assms(3,4,5) .
  then have "v \<le> ?A * (ten_pow y / ?p) + a" "?A * (ten_pow y / ?p) \<le> v + b"
    using ten_pow_pos [of y] by (simp_all add: field_simps)
  moreover have "ten_pow y / ?p = ten_pow (y - (int (length ds) - 1))"
    using ten_pow_shift [of k y] ds(2) by (simp add: field_simps)
  ultimately show ?thesis using ds by auto
qed

lemma exponents_close:
  assumes "unat f < 2 ^ 64" "0 \<le> e" "0 \<le> exp10" "ten_pow (exp10 - 1) \<le> dragon_value f e"
  shows "nat exp10 div 32 \<le> nat e div 32"
proof (rule ccontr)
  assume "\<not> ?thesis"
  then obtain m where m: "m = Suc (nat e div 32)" "m \<le> nat exp10 div 32" by simp
  have big: "(2 :: nat) ^ (63 + 32 * Suc k) \<le> 10 ^ (31 + 32 * k)" for k
  proof (induction k)
    case (Suc k)
    have "(2 :: nat) ^ (63 + 32 * Suc k) * 2 ^ 32 \<le> 10 ^ (31 + 32 * k) * 10 ^ 32" using Suc by (intro mult_mono) simp_all
    then show ?case by (simp only: power_add [symmetric]) (simp add: algebra_simps)
  qed simp
  have e: "nat e \<le> 31 + 32 * (nat e div 32)" using mult_div_mod_eq [of 32 "nat e"] mod_less_divisor [of 32 "nat e"] by linarith
  have x: "31 + 32 * (nat e div 32) \<le> nat (exp10 - 1)" using m assms(3) by linarith
  have "dragon_value f e < 2 ^ 64 * 2 ^ nat e"
  proof -
    have "real (unat f) < real (2 ^ 64)" using assms(1) by (simp only: of_nat_less_iff)
    then show ?thesis using assms(2) by (simp add: dragon_value_def two_pow_def)
  qed
  also have "\<dots> = 2 ^ (64 + nat e)" by (simp add: power_add)
  also have "\<dots> \<le> (2 :: real) ^ (63 + 32 * Suc (nat e div 32))" using e by (intro power_increasing) simp_all
  also have "\<dots> \<le> 10 ^ (31 + 32 * (nat e div 32))"
    using big [of "nat e div 32"] by (simp only: of_nat_le_iff [symmetric, where 'a = real] of_nat_power of_nat_numeral)
  also have "\<dots> \<le> 10 ^ nat (exp10 - 1)" using x by (intro power_increasing) simp_all
  also have "\<dots> = ten_pow (exp10 - 1)" using x by (simp add: ten_pow_def)
  finally show False using assms(4) by simp
qed

lemma format_dragon_shortest:
  assumes "f \<noteq> 0" "unat f < 2 ^ 64" "\<bar>exp10\<bar> < 2 ^ 31"
    "ten_pow (exp10 - 1) \<le> dragon_value f e" "dragon_value f e + two_pow e / 2 < ten_pow (exp10 + 1)"
  shows "\<exists>ds x. format_dragon f e closer True False (-1) exp10 = Inr (ds, x) \<and> ds \<noteq> [] \<and> (\<forall>c \<in> set ds. is_digit c) \<and>
    dragon_value f e - two_pow e / (if closer then 4 else 2) \<le> real (dec_val ds) * ten_pow x \<and>
    real (dec_val ds) * ten_pow x \<le> dragon_value f e + two_pow e / 2"
proof -
  let ?v = "dragon_value f e" and ?a = "two_pow e / (if closer then 4 else 2)" and ?b = "two_pow e / 2"
  have x0: "0 \<le> exp10" if "0 \<le> e"
  proof (rule ccontr)
    assume neg: "\<not> 0 \<le> exp10"
    have "1 \<le> unat f" using assms(1) unat_eq_zero [of f] by (simp add: Suc_le_eq)
    then have "1 \<le> real (unat f)" by linarith
    then have "1 * 1 \<le> real (unat f) * 2 ^ nat e" by (intro mult_mono) simp_all
    then have "1 \<le> ?v" using that by (simp add: dragon_value_def two_pow_def)
    moreover have "ten_pow (exp10 + 1) \<le> 1" using neg by (auto simp: ten_pow_def)
    moreover have "0 < two_pow e" by (simp add: two_pow_def)
    ultimately show False using assms(5) by linarith
  qed
  from dragon_setup_value [OF assms(1,2,3) x0, where closer = closer] obtain d where start: "dragon_setup f e closer exp10 = Some d"
    and ok: "bi_ok (dr_numerator d)" "bi_ok (dr_denominator d)" "bi_value (dr_numerator d) \<noteq> 0" "bi_value (dr_denominator d) \<noteq> 0"
      "bi_ok (dr_low d)" "bi_value (dr_low d) \<noteq> 0" "bi_ok (dr_upper d)" "bi_value (dr_upper d) \<noteq> 0"
    and nd: "real (bi_value (dr_numerator d)) / real (bi_value (dr_denominator d)) = ?v / ten_pow exp10"
      "real (bi_value (dr_low d)) / real (bi_value (dr_denominator d)) = ?a / ten_pow exp10"
      "real (bi_value (dr_upper d)) / real (bi_value (dr_denominator d)) = ?b / ten_pow exp10"
    and eq: "bi_exp (dr_numerator d) \<le> bi_exp (dr_denominator d) \<or> hd (bi_bigits (dr_denominator d)) \<noteq> 0 \<or>
      bi_value (dr_numerator d) \<noteq> bi_value (dr_denominator d) \<and> 10 * bi_value (dr_numerator d) \<noteq> bi_value (dr_denominator d)"
    and ex: "Suc (bi_exp (dr_numerator d)) \<le> num_bigits (dr_low d) \<or>
      0 \<le> e \<and> bi_exp (dr_denominator d) = nat exp10 div 32 \<and> Suc (nat e div 32) \<le> num_bigits (dr_low d)"
    by metis
  let ?N = "bi_value (dr_numerator d)" and ?D = "bi_value (dr_denominator d)" and ?L = "bi_value (dr_low d)" and ?U = "bi_value (dr_upper d)"
  have D: "0 < real ?D" using ok(4) by simp
  have m: "Suc (min (bi_exp (dr_numerator d)) (bi_exp (dr_denominator d))) \<le> num_bigits (dr_low d)"
    using ex exponents_close [OF assms(2) _ _ assms(4)] x0 by (auto simp: min_def)
  have small: "add_compare (dr_numerator d) (dr_upper d) (dr_denominator d) + of_bool (and f 1 = 0) \<le> 0 \<longleftrightarrow> \<not> reaches (and f 1 = 0) ?N ?U ?D"
    using add_compare_value [of "dr_numerator d" "dr_denominator d" "dr_upper d"] ok by (auto simp: placed_def int_sgn_def reaches_def)
  show ?thesis
  proof (cases "reaches (and f 1 = 0) ?N ?U ?D")
    case True
    have "loop_ready (and f 1 = 0) d" using ok m eq True by (auto simp: loop_ready_def Let_def)
    moreover have "\<not> reaches (and f 1 = 0) ?N ?U (10 * ?D)"
    proof -
      have "ten_pow (exp10 + 1) = 10 * ten_pow exp10" unfolding ten_pow_add by (simp add: ten_pow_def)
      then have "?v / ten_pow exp10 + ?b / ten_pow exp10 < 10"
        using assms(5) ten_pow_pos [of exp10] by (simp add: field_simps)
      then have "real ?N + real ?U < 10 * real ?D" using D unfolding nd [symmetric] by (simp add: field_simps)
      then have "real (?N + ?U) < real (10 * ?D)" by simp
      then have "?N + ?U < 10 * ?D" by (simp only: of_nat_less_iff)
      then show ?thesis by (simp add: reaches_def)
    qed
    ultimately obtain ds where ds: "shortest_loop (and f 1 = 0) d [] = Some ds" "ds \<noteq> []" "\<forall>c \<in> set ds. is_digit c"
      "?v - ?a \<le> real (dec_val ds) * ten_pow (exp10 - (int (length ds) - 1))"
      "real (dec_val ds) * ten_pow (exp10 - (int (length ds) - 1)) \<le> ?v + ?b"
      using shortest_between [OF _ _ nd] by blast
    have "format_dragon f e closer True False (-1) exp10 = Inr (ds, exp10 - (int (length ds) - 1))"
      using True small start ds(1) by (simp add: format_dragon_def dragon_fixup_def Let_def from_option_def)
    then show ?thesis using ds by blast
  next
    case False
    let ?d = "d\<lparr>dr_numerator := multiply32 (dr_numerator d) 10, dr_low := multiply32 (dr_low d) 10,
      dr_high := map_option (\<lambda>u. multiply32 u 10) (dr_high d)\<rparr>"
    have scale: "real (n * 10) / real k = y / z" if "real n / real k = y / (10 * z)" for n k :: nat and y z :: real
    proof -
      have "real (n * 10) / real k = 10 * (real n / real k)" by simp
      then show ?thesis unfolding that by simp
    qed
    have t: "ten_pow exp10 = 10 * ten_pow (exp10 - 1)" using ten_pow_shift [of 1 exp10] by simp
    have "real ?D \<le> real (10 * ?N)"
    proof -
      have "1 \<le> ?v / ten_pow (exp10 - 1)" using assms(4) ten_pow_pos [of "exp10 - 1"] by (simp add: field_simps)
      also have "\<dots> = 10 * (?v / ten_pow exp10)" unfolding t by simp
      finally show ?thesis using D unfolding nd(1) [symmetric] by (simp add: field_simps)
    qed
    then have "?D \<le> 10 * ?N" by (simp only: of_nat_le_iff)
    moreover have "Suc (min (bi_exp (dr_numerator d)) (bi_exp (dr_denominator d))) \<le> num_bigits (multiply32 (dr_low d) 10)"
      using m num_bigits_times [of "dr_low d" 10] by simp
    ultimately have "loop_ready (and f 1 = 0) ?d"
      unfolding loop_ready_def Let_def dr_upper_times using ok eq by (auto simp: times_ten mult.commute)
    moreover have "\<not> reaches (and f 1 = 0) (bi_value (dr_numerator ?d)) (bi_value (dr_upper ?d)) (10 * bi_value (dr_denominator ?d))"
      unfolding dr_upper_times using False reaches_scale [of 10 "and f 1 = 0" ?N ?U ?D] by (simp add: times_ten mult.commute)
    moreover have sel: "dr_denominator ?d = dr_denominator d" "dr_numerator ?d = multiply32 (dr_numerator d) 10"
      "dr_low ?d = multiply32 (dr_low d) 10" by simp_all
    have "real (bi_value (dr_numerator ?d)) / real (bi_value (dr_denominator ?d)) = ?v / ten_pow (exp10 - 1)"
      "real (bi_value (dr_low ?d)) / real (bi_value (dr_denominator ?d)) = ?a / ten_pow (exp10 - 1)"
      "real (bi_value (dr_upper ?d)) / real (bi_value (dr_denominator ?d)) = ?b / ten_pow (exp10 - 1)"
      unfolding dr_upper_times using nd [unfolded t] by (simp_all only: sel times_ten scale)
    ultimately obtain ds where ds: "shortest_loop (and f 1 = 0) ?d [] = Some ds" "ds \<noteq> []" "\<forall>c \<in> set ds. is_digit c"
      "?v - ?a \<le> real (dec_val ds) * ten_pow (exp10 - 1 - (int (length ds) - 1))"
      "real (dec_val ds) * ten_pow (exp10 - 1 - (int (length ds) - 1)) \<le> ?v + ?b"
      using shortest_between [of "and f 1 = 0" ?d ?v "exp10 - 1" ?a ?b] by blast
    have "format_dragon f e closer True False (-1) exp10 = Inr (ds, exp10 - 1 - (int (length ds) - 1))"
      using False small start ds(1) by (simp add: format_dragon_def dragon_fixup_def Let_def from_option_def)
    then show ?thesis using ds by blast
  qed
qed

section \<open>Numbers taken apart\<close>

text \<open>
  \<^verbatim>\<open>basic_fp::assign\<close> for a format with \<open>sig\<close> stored bits of significand, \<open>eb\<close> bits of exponent and its bias;
  \<open>implicit\<close> tells whether the leading bit is left out. The flag of the result tells that the predecessor is
  closer than the successor.
\<close>

definition exponent_mask :: "nat \<Rightarrow> nat \<Rightarrow> 'w::len word" where
  "exponent_mask sig eb = push_bit sig (push_bit eb 1 - 1)"

definition fp_assign :: "bool \<Rightarrow> nat \<Rightarrow> nat \<Rightarrow> int \<Rightarrow> 'w::len word \<Rightarrow> u128 \<times> int \<times> bool" where
  "fp_assign implicit sig eb bias u =
     (let implicit_bit = push_bit sig 1;
          f = ucast (and u (implicit_bit - 1));
          biased = uint (drop_bit sig (and u (exponent_mask sig eb)));
          closer = (f = 0 \<and> 1 < biased);
          f = (if biased \<noteq> 0 \<and> implicit then f + ucast implicit_bit else f);
          biased = (if biased = 0 then 1 else biased);
          e = biased - bias - int sig
      in (f, if implicit then e else e + 1, closer))"

definition assign_float :: "u32 \<Rightarrow> u128 \<times> int \<times> bool" where
  "assign_float u = fp_assign True 23 8 127 u"

definition assign_double :: "u64 \<Rightarrow> u128 \<times> int \<times> bool" where
  "assign_double u = fp_assign True 52 11 1023 u"

definition assign_extended :: "u128 \<Rightarrow> u128 \<times> int \<times> bool" where
  "assign_extended u = fp_assign False 64 15 16383 u"

text \<open>The value the bits of a number without sign stand for.\<close>

definition ieee_value :: "nat \<Rightarrow> int \<Rightarrow> nat \<Rightarrow> real" where
  "ieee_value sig bias n =
     (let b = n div 2 ^ sig; m = n mod 2 ^ sig
      in if b = 0 then real m * two_pow (1 - bias - int sig) else real (2 ^ sig + m) * two_pow (int b - bias - int sig))"

definition ieee_ulp :: "nat \<Rightarrow> int \<Rightarrow> nat \<Rightarrow> real" where
  "ieee_ulp sig bias n = two_pow (int (max 1 (n div 2 ^ sig)) - bias - int sig)"

lemma two_pow_pos [simp]: "0 < two_pow e"
  by (simp add: two_pow_def)

lemma two_pow_powi: "two_pow e = 2 powi e"
  by (simp add: two_pow_def power_int_def field_simps)

lemma two_pow_Suc: "two_pow (1 + e) = 2 * two_pow e" "two_pow (e + 1) = 2 * two_pow e"
  by (simp_all add: two_pow_powi power_int_add)

lemma ieee_next: "ieee_value sig bias (Suc n) = ieee_value sig bias n + ieee_ulp sig bias n"
proof (cases "Suc (n mod 2 ^ sig) = 2 ^ sig")
  case True
  then have m: "Suc n mod 2 ^ sig = 0" "Suc n div 2 ^ sig = Suc (n div 2 ^ sig)" by (simp_all add: mod_Suc div_Suc)
  have r: "real (n mod 2 ^ sig) = 2 ^ sig - 1" using True by (metis add_diff_cancel_left' of_nat_Suc of_nat_numeral of_nat_power)
  have "two_pow (1 + int (n div 2 ^ sig) - bias - int sig) = 2 * two_pow (int (n div 2 ^ sig) - bias - int sig)"
    using two_pow_Suc(1) [of "int (n div 2 ^ sig) - bias - int sig"] by (simp add: algebra_simps)
  then show ?thesis by (auto simp: ieee_value_def ieee_ulp_def Let_def m r algebra_simps max_def)
next
  case False
  then have m: "Suc n mod 2 ^ sig = Suc (n mod 2 ^ sig)" "Suc n div 2 ^ sig = n div 2 ^ sig" by (simp_all add: mod_Suc div_Suc)
  show ?thesis by (auto simp: ieee_value_def ieee_ulp_def Let_def m algebra_simps max_def)
qed

lemma ieee_mono: "i \<le> j \<Longrightarrow> ieee_value sig bias i \<le> ieee_value sig bias j"
  by (rule lift_Suc_mono_le) (simp_all add: ieee_next ieee_ulp_def less_imp_le)

text \<open>A value between the midpoints to the neighbours is nearest to the number.\<close>

lemma midpoints_nearest:
  assumes "0 < n" "ieee_value sig bias n - ieee_ulp sig bias (n - 1) / 2 \<le> x" "x \<le> ieee_value sig bias n + ieee_ulp sig bias n / 2"
  shows "\<bar>x - ieee_value sig bias n\<bar> \<le> \<bar>x - ieee_value sig bias k\<bar>"
proof -
  let ?v = "ieee_value sig bias"
  have b: "?v n = ?v (n - 1) + ieee_ulp sig bias (n - 1)" "?v (Suc n) = ?v n + ieee_ulp sig bias n"
    using ieee_next [of sig bias "n - 1"] ieee_next [of sig bias n] assms(1) by simp_all
  have p: "0 < ieee_ulp sig bias (n - 1)" "0 < ieee_ulp sig bias n" by (simp_all add: ieee_ulp_def)
  consider "k \<le> n - 1" | "k = n" | "Suc n \<le> k" using assms(1) by linarith
  then show ?thesis
  proof cases
    case 1
    then have "?v k \<le> ?v (n - 1)" by (rule ieee_mono)
    then show ?thesis using assms(2,3) b p by linarith
  next
    case 3
    then have "?v (Suc n) \<le> ?v k" by (rule ieee_mono)
    then show ?thesis using assms(2,3) b p by linarith
  qed simp
qed

lemma ulp_before:
  assumes "0 < n"
  shows "ieee_ulp sig bias (n - 1) =
    (if n mod 2 ^ sig = 0 \<and> 1 < n div 2 ^ sig then ieee_ulp sig bias n / 2 else ieee_ulp sig bias n)"
proof -
  obtain k where k: "n = Suc k" using assms by (cases n) simp_all
  show ?thesis
  proof (cases "Suc (k mod 2 ^ sig) = 2 ^ sig")
    case True
    then have m: "n mod 2 ^ sig = 0" "n div 2 ^ sig = Suc (k div 2 ^ sig)" by (simp_all add: mod_Suc div_Suc k)
    have "two_pow (1 + int (k div 2 ^ sig) - bias - int sig) = 2 * two_pow (int (k div 2 ^ sig) - bias - int sig)"
      using two_pow_Suc(1) [of "int (k div 2 ^ sig) - bias - int sig"] by (simp add: algebra_simps)
    then show ?thesis using m by (auto simp: ieee_ulp_def k max_def)
  next
    case False
    then have m: "n mod 2 ^ sig \<noteq> 0" "n div 2 ^ sig = k div 2 ^ sig" by (simp_all add: mod_Suc div_Suc k)
    then show ?thesis by (simp add: ieee_ulp_def k)
  qed
qed

lemma low_mask: "push_bit n 1 - 1 = (mask n :: 'w::len word)"
  by (simp add: mask_eq_exp_minus_1 push_bit_of_1)

lemma biased_exponent:
  assumes "sig + eb \<le> LENGTH('w)" "unat u < 2 ^ (sig + eb)"
  shows "uint (drop_bit sig (and (u :: 'w::len word) (exponent_mask sig eb))) = int (unat u div 2 ^ sig)"
proof -
  have "drop_bit sig (and u (exponent_mask sig eb)) = drop_bit sig (take_bit (sig + eb) u)"
    unfolding exponent_mask_def low_mask using assms(1) by (intro bit_eqI) (auto simp: bit_simps)
  moreover have "take_bit (sig + eb) u = u"
    using assms(2) by (simp add: word_unat_eq_iff unsigned_take_bit_eq take_bit_nat_eq_self)
  moreover have "take_bit LENGTH('w) (unat u) = unat u" by (simp add: take_bit_nat_eq_self)
  ultimately have "unat (drop_bit sig (and u (exponent_mask sig eb))) = unat u div 2 ^ sig"
    by (simp only: unsigned_drop_bit_eq drop_bit_eq_div [where 'a = nat])
  then show ?thesis by (simp only: Word.uint_nat)
qed

lemma fp_assign_value:
  fixes u :: "'w::len word"
  assumes "sig + eb \<le> LENGTH('w)" "unat u < 2 ^ (sig + eb)" "sig < LENGTH('w)" "sig \<le> 63" "fp_assign True sig eb bias u = (f, e, c)"
  shows "unat f < 2 ^ 64" "dragon_value f e = ieee_value sig bias (unat u)" "two_pow e = ieee_ulp sig bias (unat u)"
    "c \<longleftrightarrow> unat u mod 2 ^ sig = 0 \<and> 1 < unat u div 2 ^ sig" "unat f \<noteq> 0 \<longleftrightarrow> unat u \<noteq> 0"
proof -
  let ?m = "unat u mod 2 ^ sig" and ?b = "unat u div 2 ^ sig"
  have m: "?m < 2 ^ sig" by simp
  have p: "(2 :: nat) ^ sig \<le> 2 ^ 63" using assms(4) by (intro power_increasing) simp_all
  have t: "and u (push_bit sig 1 - 1) = take_bit sig u" unfolding low_mask by (simp add: take_bit_eq_mask)
  have "unat (ucast (and u (push_bit sig 1 - 1)) :: u128) = ?m mod 2 ^ 128"
    unfolding t unsigned_ucast_eq unfolding unsigned_take_bit_eq take_bit_eq_mod [where 'a = nat] by simp
  also have "\<dots> = ?m" by (intro mod_less less_trans [OF less_le_trans [OF m p]]) simp
  finally have f0: "unat (ucast (and u (push_bit sig 1 - 1)) :: u128) = ?m" .
  have "(2 :: nat) ^ sig < 2 ^ LENGTH('w)" using assms(3) by (intro power_strict_increasing) simp_all
  then have "unat (push_bit sig 1 :: 'w word) = 2 ^ sig"
    unfolding unsigned_push_bit_eq by (simp add: take_bit_eq_mod [where 'a = nat])
  moreover have "2 ^ sig < (2 :: nat) ^ 128" by (rule le_less_trans [OF p]) simp
  ultimately have one: "unat (ucast (push_bit sig 1 :: 'w word) :: u128) = 2 ^ sig"
    unfolding unsigned_ucast_eq by (simp add: take_bit_eq_mod [where 'a = nat])
  have f1: "unat ((ucast (and u (push_bit sig 1 - 1)) :: u128) + ucast (push_bit sig 1 :: 'w word)) = 2 ^ sig + ?m"
  proof -
    have "2 ^ sig + ?m < 2 ^ 63 + 2 ^ 63" by (rule add_le_less_mono [OF p less_le_trans [OF m p]])
    also have "\<dots> < (2 :: nat) ^ 128" by simp
    finally have "(2 ^ sig + ?m) mod 2 ^ 128 = 2 ^ sig + ?m" by (rule mod_less)
    moreover have "LENGTH(128) = 128" by simp
    ultimately show ?thesis unfolding unat_word_ariths one f0 by (simp only: add.commute)
  qed
  have z: "(ucast (and u (push_bit sig 1 - 1)) :: u128) = 0 \<longleftrightarrow> ?m = 0" using f0 unat_eq_zero by metis
  note r = assms(5) [unfolded fp_assign_def biased_exponent [OF assms(1,2)] Let_def]
  have "2 ^ sig + ?m < 2 ^ 63 + 2 ^ 63" by (rule add_le_less_mono [OF p less_le_trans [OF m p]])
  then have s: "2 ^ sig + ?m < 2 ^ 64" "?m < 2 ^ 64" by simp_all
  have uf: "unat f = (if ?b = 0 then ?m else 2 ^ sig + ?m)" and e: "e = int (max 1 ?b) - bias - int sig"
    using r f0 f1 by (auto simp: max_def split: if_splits)
  show "unat f < 2 ^ 64" unfolding uf using s by simp
  show "dragon_value f e = ieee_value sig bias (unat u)"
    unfolding dragon_value_def uf e by (auto simp: ieee_value_def Let_def max_def)
  show "two_pow e = ieee_ulp sig bias (unat u)" unfolding e by (simp add: ieee_ulp_def)
  show "c \<longleftrightarrow> ?m = 0 \<and> 1 < ?b" using r z by (auto split: if_splits)
  have "?b = 0 \<Longrightarrow> ?m = unat u" by (metis add_0 div_mult_mod_eq mult_0)
  moreover have "?b \<noteq> 0 \<Longrightarrow> unat u \<noteq> 0" by (metis div_0)
  ultimately show "unat f \<noteq> 0 \<longleftrightarrow> unat u \<noteq> 0" unfolding uf by (cases "?b = 0") (simp_all only: if_True if_False add_eq_0_iff_both_eq_0 power_not_zero, simp_all)
qed


text \<open>
  C36: the shortest representation identifies the number. For the bits of any positive finite number of
  a format with an implicit leading bit, as of \<^verbatim>\<open>float\<close> and \<^verbatim>\<open>double\<close>, and an estimated exponent that is
  right or one too high, the loop ends and no other number of the format is nearer to what its digits
  mean.
\<close>

theorem shortest_identifies:
  fixes u :: "'w::len word"
  assumes "sig + eb \<le> LENGTH('w)" "sig < LENGTH('w)" "sig \<le> 63" "0 < unat u" "unat u < 2 ^ (sig + eb)" "\<bar>exp10\<bar> < 2 ^ 31"
    "ten_pow (exp10 - 1) \<le> ieee_value sig bias (unat u)"
    "ieee_value sig bias (unat u) + ieee_ulp sig bias (unat u) / 2 < ten_pow (exp10 + 1)"
  shows "\<exists>f e closer ds x. fp_assign True sig eb bias u = (f, e, closer) \<and>
    format_dragon f e closer True False (-1) exp10 = Inr (ds, x) \<and> ds \<noteq> [] \<and> (\<forall>c \<in> set ds. is_digit c) \<and>
    (\<forall>k. \<bar>real (dec_val ds) * ten_pow x - ieee_value sig bias (unat u)\<bar> \<le> \<bar>real (dec_val ds) * ten_pow x - ieee_value sig bias k\<bar>)"
proof -
  obtain f e closer where p: "fp_assign True sig eb bias u = (f, e, closer)" by (cases "fp_assign True sig eb bias u")
  note v = fp_assign_value [OF assms(1,5,2,3) p]
  have "f \<noteq> 0" using v(5) assms(4) by auto
  from format_dragon_shortest [OF this v(1) assms(6), of e closer] obtain ds x where
    d: "format_dragon f e closer True False (-1) exp10 = Inr (ds, x)" "ds \<noteq> []" "\<forall>c \<in> set ds. is_digit c"
      "dragon_value f e - two_pow e / (if closer then 4 else 2) \<le> real (dec_val ds) * ten_pow x"
      "real (dec_val ds) * ten_pow x \<le> dragon_value f e + two_pow e / 2"
    using assms(7,8) unfolding v(2,3) by blast
  have "two_pow e / (if closer then 4 else 2) = ieee_ulp sig bias (unat u - 1) / 2"
    unfolding v(3,4) ulp_before [OF assms(4)] by simp
  then show ?thesis
    using d midpoints_nearest [OF assms(4), of sig bias "real (dec_val ds) * ten_pow x"] unfolding p v(2,3) by auto
qed

theorem shortest_identifies_witness:
  "\<exists>f e closer ds x. assign_double 0x3FF0000000000000 = (f, e, closer) \<and>
    format_dragon f e closer True False (-1) 0 = Inr (ds, x) \<and> ds \<noteq> [] \<and> (\<forall>c \<in> set ds. is_digit c) \<and>
    (\<forall>k. \<bar>real (dec_val ds) * ten_pow x - 1\<bar> \<le> \<bar>real (dec_val ds) * ten_pow x - ieee_value 52 1023 k\<bar>)"
proof -
  have v: "ieee_value 52 1023 0x3FF0000000000000 = 1" "ieee_ulp 52 1023 0x3FF0000000000000 = 1 / 2 ^ 52"
    by (simp_all add: ieee_value_def ieee_ulp_def two_pow_def)
  show ?thesis
    using shortest_identifies [of 52 11 "0x3FF0000000000000 :: u64" 0 1023] by (simp add: v ten_pow_def assign_double_def)
qed

text \<open>
  An 80-bit number stores its leading bit, so the significand is not zero and the flag is never set for a
  normalized number, although the predecessor of a power of two is closer.
\<close>

lemma extended_never_closer:
  assumes "bit u 63" "assign_extended u = (f, e, closer)"
  shows "\<not> closer"
proof -
  have "bit (ucast (and u (push_bit 64 1 - 1)) :: u128) 63"
    unfolding low_mask using assms(1) by (simp add: bit_simps)
  then have "(ucast (and u (push_bit 64 1 - 1)) :: u128) \<noteq> 0" by (metis bit_0_eq bot_apply bot_bool_def)
  then show ?thesis using assms(2) by (auto simp: assign_extended_def fp_assign_def Let_def split: if_splits)
qed

end
