(* ===== verification/FmtUint128.thy ===== *)
theory FmtUint128
  imports FmtBigint
begin

text \<open>
  The 128-bit integers of the platforms without \<^verbatim>\<open>__int128\<close>, such as a 32-bit ARM (class
  \<^verbatim>\<open>uint128_fallback\<close> of \<^verbatim>\<open>src/include/fmt/format.h\<close>): two 64-bit halves. The big integers use them
  for the carries of products and squares. Each operation is compared with the one on words of 128
  bits; \<open>None\<close> is a failed assertion or a shift the language leaves undefined.
\<close>

record uint128_fallback =
  u_hi :: u64
  u_lo :: u64

definition u128_make :: "u64 \<Rightarrow> u64 \<Rightarrow> uint128_fallback" where
  "u128_make h l = \<lparr>u_hi = h, u_lo = l\<rparr>"

definition u128_of :: "u64 \<Rightarrow> uint128_fallback" where
  "u128_of v = u128_make 0 v"

definition u128_eq :: "uint128_fallback \<Rightarrow> uint128_fallback \<Rightarrow> bool" where
  "u128_eq x y \<longleftrightarrow> u_hi x = u_hi y \<and> u_lo x = u_lo y"

definition u128_greater :: "uint128_fallback \<Rightarrow> uint128_fallback \<Rightarrow> bool" where
  "u128_greater x y \<longleftrightarrow> (if u_hi x \<noteq> u_hi y then u_hi y < u_hi x else u_lo y < u_lo x)"

definition u128_or :: "uint128_fallback \<Rightarrow> uint128_fallback \<Rightarrow> uint128_fallback" where
  "u128_or x y = u128_make (or (u_hi x) (u_hi y)) (or (u_lo x) (u_lo y))"

definition u128_and :: "uint128_fallback \<Rightarrow> uint128_fallback \<Rightarrow> uint128_fallback" where
  "u128_and x y = u128_make (and (u_hi x) (u_hi y)) (and (u_lo x) (u_lo y))"

definition u128_not :: "uint128_fallback \<Rightarrow> uint128_fallback" where
  "u128_not x = u128_make (not (u_hi x)) (not (u_lo x))"

definition u128_plus :: "uint128_fallback \<Rightarrow> uint128_fallback \<Rightarrow> uint128_fallback option" where
  "u128_plus x n =
     (let new_lo = u_lo x + u_lo n;
          new_hi = u_hi x + u_hi n + (if new_lo < u_lo x then 1 else 0)
      in if new_hi < u_hi x then None else Some (u128_make new_hi new_lo))"

definition u128_plus64 :: "uint128_fallback \<Rightarrow> u64 \<Rightarrow> uint128_fallback" where
  "u128_plus64 x n =
     (let lo = u_lo x + n in u128_make (u_hi x + (if lo < n then 1 else 0)) lo)"

definition u128_times :: "uint128_fallback \<Rightarrow> u32 \<Rightarrow> uint128_fallback option" where
  "u128_times x r =
     (if u_hi x \<noteq> 0 then None
      else let hi = drop_bit 32 (u_lo x) * ucast r;
               lo = and (u_lo x) (ucast (not 0 :: u32)) * ucast r;
               new_lo = push_bit 32 hi + lo
           in Some (u128_make (drop_bit 32 hi + (if new_lo < lo then 1 else 0)) new_lo))"

definition u128_minus :: "uint128_fallback \<Rightarrow> u64 \<Rightarrow> uint128_fallback" where
  "u128_minus x r = u128_make (u_hi x - (if u_lo x < r then 1 else 0)) (u_lo x - r)"

text \<open>A shift by 64 or more goes by the half first; by nothing it would shift a half by 64.\<close>

function u128_right :: "uint128_fallback \<Rightarrow> nat \<Rightarrow> uint128_fallback option" where
  "u128_right x n =
     (if n = 64 then Some (u128_make 0 (u_hi x))
      else if 64 < n then u128_right (u128_make 0 (u_hi x)) (n - 64)
      else if n = 0 then None
      else Some (u128_make (drop_bit n (u_hi x)) (or (push_bit (64 - n) (u_hi x)) (drop_bit n (u_lo x)))))"
  by pat_completeness auto

termination by (relation "measure snd") auto

function u128_left :: "uint128_fallback \<Rightarrow> nat \<Rightarrow> uint128_fallback option" where
  "u128_left x n =
     (if n = 64 then Some (u128_make (u_lo x) 0)
      else if 64 < n then u128_left (u128_make (u_lo x) 0) (n - 64)
      else if n = 0 then None
      else Some (u128_make (or (push_bit n (u_hi x)) (drop_bit (64 - n) (u_lo x))) (push_bit n (u_lo x))))"
  by pat_completeness auto

termination by (relation "measure snd") auto

declare u128_right.simps [simp del] u128_left.simps [simp del]

section \<open>Words of 128 bits\<close>

definition u128_word :: "uint128_fallback \<Rightarrow> u128" where
  "u128_word x = push_bit 64 (ucast (u_hi x)) + ucast (u_lo x)"

definition u128_nat :: "uint128_fallback \<Rightarrow> nat" where
  "u128_nat x = 2 ^ 64 * unat (u_hi x) + unat (u_lo x)"

lemma u128_make_sel [simp]: "u_hi (u128_make h l) = h" "u_lo (u128_make h l) = l"
  by (simp_all add: u128_make_def)

lemma half_bound: "unat (x :: u64) < 2 ^ 64"
  using unsigned_less [of x, where 'a = nat] by simp

lemma unat_half: "unat (ucast (x :: u64) :: u128) = unat x"
  using half_bound [of x] by (simp add: unsigned_ucast_eq take_bit_nat_eq_self)

lemma u128_nat_bound: "u128_nat x < 2 ^ 128"
proof -
  have "2 ^ 64 * (unat (u_hi x) + 1) \<le> 2 ^ 64 * 2 ^ 64" using half_bound [of "u_hi x"] by (intro mult_le_mono2) simp
  then show ?thesis using half_bound [of "u_lo x"] by (simp add: u128_nat_def)
qed

lemma unat_u128_word: "unat (u128_word x) = u128_nat x"
proof -
  have p: "unat (push_bit 64 (ucast (u_hi x) :: u128)) = 2 ^ 64 * unat (u_hi x)"
  proof -
    have "unat (push_bit 64 (ucast (u_hi x) :: u128)) = (unat (u_hi x) * 2 ^ 64) mod 2 ^ 128"
      by (simp only: unsigned_push_bit_eq take_bit_eq_mod [where 'a = nat] push_bit_eq_mult [where 'a = nat] unat_half) simp
    also have "\<dots> = unat (u_hi x) * 2 ^ 64" using u128_nat_bound [of x] by (intro mod_less) (simp add: u128_nat_def)
    finally show ?thesis by simp
  qed
  show ?thesis unfolding u128_word_def u128_nat_def
    using u128_nat_bound [of x] by (subst unat_add_lem [THEN iffD1]) (simp_all add: p unat_half u128_nat_def)
qed

lemma u128_wordI: "u128_nat x = unat w \<Longrightarrow> u128_word x = w"
  by (simp add: word_unat_eq_iff unat_u128_word)

lemma bit_u128_word: "bit (u128_word x) i \<longleftrightarrow> (if i < 64 then bit (u_lo x) i else bit (u_hi x) (i - 64))"
proof -
  have "u128_word x = or (push_bit 64 (ucast (u_hi x))) (ucast (u_lo x))"
    unfolding u128_word_def
    by (rule disjunctive_add) (auto simp: bit_push_bit_iff bit_ucast_iff dest: bit_imp_le_length)
  then show ?thesis
    using bit_imp_le_length [of "u_hi x" "i - 64"] bit_imp_le_length [of "u_lo x" i]
    by (auto simp: bit_or_iff bit_push_bit_iff bit_ucast_iff)
qed

lemma beyond: "64 \<le> i \<Longrightarrow> \<not> bit (x :: u64) i"
  using bit_imp_le_length [of x i] by auto

lemma u128_bitwise:
  "u128_word (u128_or x y) = or (u128_word x) (u128_word y)"
  "u128_word (u128_and x y) = and (u128_word x) (u128_word y)"
  "u128_word (u128_not x) = not (u128_word x)"
  by (rule bit_word_eqI, auto simp: bit_u128_word bit_or_iff bit_and_iff bit_not_iff u128_or_def u128_and_def u128_not_def)+

lemma half_words:
  "u128_word (u128_make 0 (u_hi x)) = drop_bit 64 (u128_word x)"
  "u128_word (u128_make (u_lo x) 0) = push_bit 64 (u128_word x)"
  by (rule bit_word_eqI, auto simp: bit_u128_word bit_drop_bit_eq bit_push_bit_iff beyond)+

lemma u128_right_word: "0 < n \<Longrightarrow> \<exists>r. u128_right x n = Some r \<and> u128_word r = drop_bit n (u128_word x)"
proof (induction x n rule: u128_right.induct)
  case (1 x n)
  consider "n = 64" | "64 < n" | "n < 64" by linarith
  then show ?case
  proof cases
    case 2
    then show ?thesis using 1 half_words(1) [of x] by (subst u128_right.simps) (auto simp: drop_bit_drop_bit)
  next
    case 3
    let ?r = "u128_make (drop_bit n (u_hi x)) (or (push_bit (64 - n) (u_hi x)) (drop_bit n (u_lo x)))"
    have "u128_word ?r = drop_bit n (u128_word x)"
      using 3 1(2) by (intro bit_word_eqI)
        (auto simp: bit_u128_word bit_drop_bit_eq bit_or_iff bit_push_bit_iff beyond add.commute)
    then show ?thesis using 3 1(2) by (subst u128_right.simps) simp
  next
    case 1
    then show ?thesis using half_words(1) [of x] by (subst u128_right.simps) simp
  qed
qed

lemma u128_left_word: "0 < n \<Longrightarrow> \<exists>r. u128_left x n = Some r \<and> u128_word r = push_bit n (u128_word x)"
proof (induction x n rule: u128_left.induct)
  case (1 x n)
  consider "n = 64" | "64 < n" | "n < 64" by linarith
  then show ?case
  proof cases
    case 1
    then show ?thesis using half_words(2) [of x] by (subst u128_left.simps) simp
  next
    case 2
    then show ?thesis using 1 half_words(2) [of x] by (subst u128_left.simps) (auto simp: push_bit_push_bit)
  next
    case 3
    let ?r = "u128_make (or (push_bit n (u_hi x)) (drop_bit (64 - n) (u_lo x))) (push_bit n (u_lo x))"
    have "u128_word ?r = push_bit n (u128_word x)"
      using 3 1(2) by (intro bit_word_eqI)
        (auto simp: bit_u128_word bit_drop_bit_eq bit_or_iff bit_push_bit_iff beyond add.commute)
    then show ?thesis using 3 1(2) by (subst u128_left.simps) simp
  qed
qed

lemma u128_compare:
  "u128_eq x y \<longleftrightarrow> u128_word x = u128_word y" "u128_greater x y \<longleftrightarrow> u128_word y < u128_word x"
proof -
  have gt: "u128_nat y < u128_nat x" if "u_hi y < u_hi x" for x y
  proof -
    have "2 ^ 64 * (unat (u_hi y) + 1) \<le> 2 ^ 64 * unat (u_hi x)" using that by (intro mult_le_mono2) (simp add: word_less_nat_alt)
    then show ?thesis using half_bound [of "u_lo y"] by (simp add: u128_nat_def)
  qed
  show "u128_greater x y \<longleftrightarrow> u128_word y < u128_word x"
    unfolding word_less_nat_alt unat_u128_word
  proof (cases "u_hi x = u_hi y")
    case True
    then show "u128_greater x y \<longleftrightarrow> u128_nat y < u128_nat x" by (simp add: u128_greater_def u128_nat_def word_less_nat_alt)
  next
    case False
    then show "u128_greater x y \<longleftrightarrow> u128_nat y < u128_nat x"
      using gt [of x y] gt [of y x] by (cases "u_hi x" "u_hi y" rule: linorder_cases) (auto simp: u128_greater_def)
  qed
  have "u_hi x = u_hi y \<and> u_lo x = u_lo y" if "u128_word x = u128_word y"
  proof -
    have "u128_nat x = u128_nat y" using that by (simp flip: unat_u128_word)
    then have "u128_nat x div 2 ^ 64 = u128_nat y div 2 ^ 64" "u128_nat x mod 2 ^ 64 = u128_nat y mod 2 ^ 64" by simp_all
    moreover have "u128_nat z div 2 ^ 64 = unat (u_hi z)" "u128_nat z mod 2 ^ 64 = unat (u_lo z)" for z
      using half_bound [of "u_lo z"] by (simp_all add: u128_nat_def)
    ultimately show ?thesis by (simp add: word_unat_eq_iff)
  qed
  then show "u128_eq x y \<longleftrightarrow> u128_word x = u128_word y" by (auto simp: u128_eq_def u128_word_def)
qed

section \<open>Arithmetic\<close>

lemma unat_plus64: "unat (x + y :: u64) = (if unat x + unat y < 2 ^ 64 then unat x + unat y else unat x + unat y - 2 ^ 64)"
  using unat_word_ariths(1) [of x y] half_bound [of x] half_bound [of y] by (auto simp: mod_if)

lemma carry_iff: "(x + y :: u64) < x \<longleftrightarrow> 2 ^ 64 \<le> unat x + unat y" "(x + y :: u64) < y \<longleftrightarrow> 2 ^ 64 \<le> unat x + unat y"
  unfolding word_less_nat_alt unat_plus64 using half_bound [of x] half_bound [of y] by auto

text \<open>In words of 128 bits the upper halves add up whatever they lose, the lower ones up to the carry.\<close>

definition up_half :: "u64 \<Rightarrow> u128" where
  "up_half x = push_bit 64 (ucast x)"

lemma unat_up_half: "unat (up_half x) = 2 ^ 64 * unat x"
proof -
  have "unat (up_half x) = (unat x * 2 ^ 64) mod 2 ^ 128"
    unfolding up_half_def by (simp only: unsigned_push_bit_eq take_bit_eq_mod [where 'a = nat] push_bit_eq_mult [where 'a = nat] unat_half) simp
  also have "\<dots> = unat x * 2 ^ 64" using u128_nat_bound [of "u128_make x 0"] by (intro mod_less) (simp add: u128_nat_def)
  finally show ?thesis by simp
qed

lemma up_half_zero [simp]: "up_half 0 = 0"
  by (simp add: up_half_def)

lemma up_half_plus: "up_half (x + y) = up_half x + up_half y"
proof -
  have m: "2 ^ 64 * (k mod 2 ^ 64) = (2 ^ 64 * k) mod 2 ^ 128" for k :: nat
    using mult_mod_right [of "2 ^ 64" k "2 ^ 64"] by simp
  have "unat (up_half x + up_half y) = (2 ^ 64 * unat x + 2 ^ 64 * unat y) mod 2 ^ 128"
    using unat_word_ariths(1) [of "up_half x" "up_half y"] unfolding unat_up_half by simp
  also have "\<dots> = 2 ^ 64 * ((unat x + unat y) mod 2 ^ 64)" by (simp only: m distrib_left)
  also have "\<dots> = unat (up_half (x + y))"
    using unat_word_ariths(1) [of x y] unfolding unat_up_half by simp
  finally show ?thesis by (simp only: word_unat_eq_iff)
qed

lemma low_half_plus:
  "(ucast (x + y :: u64) :: u128) + (if x + y < x then up_half 1 else 0) = ucast x + ucast y"
proof -
  have s: "unat (ucast x + ucast y :: u128) = unat x + unat y"
    using half_bound [of x] half_bound [of y] by (subst unat_add_lem [THEN iffD1]) (simp_all add: unat_half)
  let ?c = "if x + y < x then up_half 1 else 0"
  have "unat ?c = (if x + y < x then 2 ^ 64 else 0)" by (simp add: unat_up_half)
  moreover have "unat (x + y) + unat ?c < 2 ^ 128" using half_bound [of "x + y"] by (simp add: unat_up_half)
  then have "unat (ucast (x + y) + ?c :: u128) = unat (x + y) + unat ?c"
    by (subst unat_add_lem [THEN iffD1]) (simp_all add: unat_half)
  ultimately have "unat (ucast (x + y) + ?c :: u128) = unat (ucast x + ucast y :: u128)"
    unfolding s unat_plus64 carry_iff by simp
  then show ?thesis by (simp only: word_unat_eq_iff)
qed

lemma u128_make_word: "u128_word (u128_make h l) = up_half h + ucast l" "u128_word x = up_half (u_hi x) + ucast (u_lo x)"
  by (simp_all add: u128_word_def up_half_def)

lemma plus_word:
  "u128_word (u128_make (u_hi x + u_hi y + (if u_lo x + u_lo y < u_lo x then 1 else 0)) (u_lo x + u_lo y)) = u128_word x + u128_word y"
proof -
  let ?c = "if u_lo x + u_lo y < u_lo x then 1 else 0 :: u64"
  have "up_half ?c = (if u_lo x + u_lo y < u_lo x then up_half 1 else 0)" by simp
  then have "up_half (u_hi x + u_hi y + ?c) + ucast (u_lo x + u_lo y) = up_half (u_hi x) + up_half (u_hi y) + (ucast (u_lo x) + ucast (u_lo y))"
    using low_half_plus [of "u_lo x" "u_lo y"] by (simp only: up_half_plus ac_simps)
  then show ?thesis by (simp only: u128_make_word u128_make_sel ac_simps)
qed

lemma u128_plus_word: "u128_plus x n = Some r \<Longrightarrow> u128_word r = u128_word x + u128_word n"
  using plus_word [of x n] by (auto simp: u128_plus_def Let_def split: if_splits)

lemma u128_plus_defined:
  assumes "u128_nat x + u128_nat n < 2 ^ 128"
  shows "\<exists>r. u128_plus x n = Some r"
proof -
  let ?c = "if u_lo x + u_lo n < u_lo x then 1 else 0 :: u64"
  have uc: "unat ?c = (if 2 ^ 64 \<le> unat (u_lo x) + unat (u_lo n) then 1 else 0)" by (simp add: carry_iff)
  have le: "unat (u_hi x) + unat (u_hi n) + unat ?c < 2 ^ 64"
  proof (rule ccontr)
    assume "\<not> ?thesis"
    then have "2 ^ 64 * 2 ^ 64 \<le> 2 ^ 64 * (unat (u_hi x) + unat (u_hi n) + unat ?c)" by (intro mult_le_mono2) simp
    also have "\<dots> \<le> u128_nat x + u128_nat n" unfolding uc by (auto simp: u128_nat_def distrib_left)
    finally show False using assms by simp
  qed
  have "unat (u_hi x + u_hi n + ?c) = unat (u_hi x) + unat (u_hi n) + unat ?c"
    using le unat_plus64 [of "u_hi x" "u_hi n"] unat_plus64 [of "u_hi x + u_hi n" ?c] by simp
  then show ?thesis by (simp add: u128_plus_def Let_def word_less_nat_alt)
qed

lemma u128_plus64_word: "u128_word (u128_plus64 x n) = u128_word x + ucast n"
  using plus_word [of x "u128_of n"]
  by (simp add: u128_plus64_def Let_def u128_of_def carry_iff u128_word_def)

lemma u128_minus_word: "u128_word (u128_minus x n) = u128_word x - ucast n"
proof -
  let ?m = "u128_minus x n"
  have sel: "u_lo ?m + n = u_lo x" "u_hi ?m + (if u_lo x < n then 1 else 0) = u_hi x" by (simp_all add: u128_minus_def)
  have "u_lo ?m + n < u_lo ?m \<longleftrightarrow> u_lo x < n" using carry_iff [of "u_lo ?m" n] sel(1) by simp
  then have "u128_plus64 ?m n = x"
    using sel carry_iff [of "u_lo ?m" n] by (simp add: u128_plus64_def Let_def u128_make_def)
  then show ?thesis using u128_plus64_word [of ?m n] by simp
qed

lemma u128_times_word:
  assumes "u_hi x = 0"
  shows "\<exists>p. u128_times x r = Some p \<and> u128_word p = u128_word x * ucast r"
proof -
  let ?l = "u_lo x"
  let ?H = "unat ?l div radix" and ?L = "unat ?l mod radix"
  have rd: "(2 :: nat) ^ 64 = radix * radix" by (simp add: radix_def)
  have ur: "unat (ucast r :: u64) = unat r" "unat (ucast r :: u128) = unat r" by (simp_all add: unat_wide)
  have m: "(ucast (not 0 :: u32) :: u64) = mask 32" by (rule bit_word_eqI) (auto simp: bit_ucast_iff bit_mask_iff)
  have L: "unat (and ?l (ucast (not 0 :: u32))) = ?L"
    unfolding m by (simp only: take_bit_eq_mask [symmetric] unsigned_take_bit_eq take_bit_eq_mod [where 'a = nat] radix_def)
  have H: "unat (drop_bit 32 ?l) = ?H" by (rule unat_high)
  have Hb: "?H < radix" using half_bound [of ?l] unfolding rd by (intro less_mult_imp_div_less)
  have Lb: "?L < radix" by simp
  have prod: "a * unat r \<le> (radix - 1) * (radix - 1)" if "a < radix" for a
    using that bigit_le [of r] by (intro mult_mono) simp_all
  have pb: "a * unat r < 2 ^ 64" if "a < radix" for a
    using prod [OF that] unfolding radix_def by (rule order.strict_trans1) simp
  have split: "radix * (a * c) + b * c = (b + radix * a) * c" for a b c :: nat by (simp add: algebra_simps)
  define hi lo where "hi = drop_bit 32 ?l * ucast r" and "lo = and ?l (ucast (not 0 :: u32)) * ucast r"
  have times: "unat (p * q :: u64) = unat p * unat q" if "unat p * unat q < 2 ^ 64" for p q
    using that unat_mult_lem [of p q] by simp
  have hi: "unat hi = ?H * unat r" unfolding hi_def using times [of "drop_bit 32 ?l" "ucast r"] pb [OF Hb] unfolding H ur .
  have lo: "unat lo = ?L * unat r" unfolding lo_def using times [of "and ?l (ucast (not 0 :: u32))" "ucast r"] pb [OF Lb] unfolding L ur .
  have sh: "unat (push_bit 32 hi) = radix * (unat hi mod radix)"
  proof -
    have "unat (push_bit 32 hi) = (radix * unat hi) mod (radix * radix)"
      by (simp only: unsigned_push_bit_eq take_bit_eq_mod [where 'a = nat] push_bit_eq_mult [where 'a = nat] radix_def mult.commute) simp
    then show ?thesis by (simp only: mult_mod_right)
  qed
  let ?nl = "push_bit 32 hi + lo"
  let ?p = "u128_make (drop_bit 32 hi + (if ?nl < lo then 1 else 0)) ?nl"
  have "unat hi div radix < radix" using pb [OF Hb] unfolding hi rd by (intro less_mult_imp_div_less)
  then have dh: "unat (drop_bit 32 hi + (if ?nl < lo then 1 else 0)) = unat hi div radix + (if ?nl < lo then 1 else 0)"
    by (simp add: unat_plus64 unat_high radix_def)
  have "u128_nat ?p = 2 ^ 64 * (unat hi div radix) + (radix * (unat hi mod radix) + unat lo)"
    unfolding u128_nat_def u128_make_sel dh by (simp add: unat_plus64 carry_iff sh)
  also have "\<dots> = radix * (unat hi mod radix + radix * (unat hi div radix)) + unat lo"
    unfolding rd by (simp only: distrib_left ac_simps)
  also have "\<dots> = radix * (?H * unat r) + ?L * unat r" unfolding split_radix hi lo ..
  also have "\<dots> = (?L + radix * ?H) * unat r" by (rule split)
  also have "\<dots> = unat ?l * unat r" unfolding split_radix ..
  finally have v: "u128_nat ?p = unat ?l * unat r" .
  have x: "u128_nat x = unat ?l" using assms by (simp add: u128_nat_def)
  have "unat (u128_word x * ucast r) = unat ?l * unat r"
    using u128_nat_bound [of ?p] unfolding v by (subst unat_mult_lem [THEN iffD1]) (simp_all add: unat_u128_word x ur)
  then have "u128_word ?p = u128_word x * ucast r" using v by (intro u128_wordI) simp
  then show ?thesis using assms by (simp add: u128_times_def Let_def hi_def lo_def)
qed

text \<open>
  C39: the two-word integers are 128-bit words. Comparisons, bitwise operations, sums, differences,
  products with 32-bit factors and shifts by any positive amount give the halves of the same
  operation on words of 128 bits, wherever the assertions of the class let them answer; the sum
  answers whenever it fits.
\<close>

theorem uint128_fallback_refines:
  "(u128_eq x y \<longleftrightarrow> u128_word x = u128_word y) \<and> (u128_greater x y \<longleftrightarrow> u128_word y < u128_word x) \<and>
   u128_word (u128_or x y) = or (u128_word x) (u128_word y) \<and> u128_word (u128_and x y) = and (u128_word x) (u128_word y) \<and>
   u128_word (u128_not x) = not (u128_word x) \<and>
   (\<forall>r. u128_plus x y = Some r \<longrightarrow> u128_word r = u128_word x + u128_word y) \<and>
   (unat (u128_word x) + unat (u128_word y) < 2 ^ 128 \<longrightarrow> u128_plus x y \<noteq> None) \<and>
   u128_word (u128_plus64 x m) = u128_word x + ucast m \<and> u128_word (u128_minus x m) = u128_word x - ucast m \<and>
   (u_hi x = 0 \<longrightarrow> (\<exists>p. u128_times x k = Some p \<and> u128_word p = u128_word x * ucast k)) \<and>
   (0 < n \<longrightarrow> (\<exists>r. u128_right x n = Some r \<and> u128_word r = drop_bit n (u128_word x)) \<and>
             (\<exists>r. u128_left x n = Some r \<and> u128_word r = push_bit n (u128_word x)))"
  using u128_compare [of x y] u128_bitwise(1,2) [of x y] u128_bitwise(3) [of x] u128_plus_word [of x y] u128_plus_defined [of x y]
    u128_plus64_word [of x m] u128_minus_word [of x m] u128_times_word [of x k] u128_right_word [of n x] u128_left_word [of n x]
  by (auto simp: unat_u128_word)

theorem uint128_fallback_refines_witness:
  "\<exists>p r. u128_times (u128_of 7) 3 = Some p \<and> u128_word p = u128_word (u128_of 7) * 3 \<and>
     u128_left (u128_of 7) 100 = Some r \<and> u128_word r = push_bit 100 (u128_word (u128_of 7)) \<and>
     u128_plus (u128_of 7) (u128_of 3) \<noteq> None"
  using uint128_fallback_refines [where x = "u128_of 7" and y = "u128_of 3" and m = 0 and k = 3 and n = 100]
  by (auto simp: u128_of_def unat_u128_word u128_nat_def)

text \<open>The assertion of the sum misses one overflow: a carry onto an upper half of ones.\<close>

lemma overflow_not_asserted:
  "u128_plus (u128_make 1 1) (u128_make (not 0) (not 0)) = Some (u128_make 1 0)"
  by code_simp

end
