(* ===== verification/Spec2Isabelle.thy ===== *)
theory Spec2Isabelle
  imports MotorController Guidance Adiru AdiruSocket UnitThreads Monitor Sockets TestPrograms ThreadQueue
    CommandLine CxxHelp FmtShortest FmtUint128
begin

text \<open>
  \<^bold>\<open>The program.\<close> The repository is the on-board software of a quadcopter on a Raspberry Pi, in C++.
  Drivers talk to four chips on an I2C bus (\<^verbatim>\<open>src/backend\<close>), a serial GPS receiver feeds a thread of
  its own, and separate processes meet over an MQTT broker or a local socket:
  \<^item> the inertial unit (\<^verbatim>\<open>src/main/adiru.cpp\<close>) samples the accelerometer and gyroscope, filters, fuses
    an attitude and publishes it over MQTT;
  \<^item> the guidance process (\<^verbatim>\<open>src/guidance/auto_com.cpp\<close>) reads that attitude, raises the thrust until
    the craft tips, and bisects the balance factor between front and rear motors;
  \<^item> the motor controller (\<^verbatim>\<open>src/main/motor_controller.cpp\<close>) turns thrust messages into PWM pulses;
  \<^item> a second unit (\<^verbatim>\<open>src/main/adiru-nosocket.cpp\<close>) broadcasts one 256-byte block of all its readings
    to the clients of a local socket, and the monitor (\<^verbatim>\<open>src/main/monitor.cpp\<close>) draws that block.

  \<^bold>\<open>The shape of the model.\<close> Everything below the sources (system calls, the bus, the clocks, the
  MQTT client library) is one argument, a kernel \<open>k :: req \<Rightarrow> 'w \<Rightarrow> ans \<times> 'w\<close> over an opaque world
  (theory Kernel). An operation that can throw, trap or exit is a function from the world to a
  \<open>fault + 'a\<close> and the world after it (\<open>('w, 'a) io\<close>, composed with \<open>io_bind\<close>); one that cannot
  returns the pair directly. A class is a record of its members, an enum a datatype with its codes,
  a static or global of a file a field of a record that is passed along. What a proof needs of the
  outside is a named hypothesis: \<open>register_bus\<close> (a device register holds what was last written to
  it), \<open>fd_kernel\<close> (descriptors and the epoll set behave as documented), \<open>attentive\<close> (the sensors
  keep reporting), each met by a concrete world in the witnesses (theory Sim and the ends of
  the component theories).

  \<^bold>\<open>Theories and sources.\<close>
  \<^item> Prelude: machine types, C conversions, faults, byte buffers, generic lemmas. StdNum:
    \<^verbatim>\<open>std::stoi\<close>, \<^verbatim>\<open>std::stod\<close>, \<^verbatim>\<open>std::to_string\<close> and the printf formats the sources use.
  \<^item> Kernel, Mqtt, Sim: the boundary, the MQTT calls, a concrete world.
  \<^item> I2c (\<^verbatim>\<open>backend/i2c.cpp\<close>): device, transfers; locale \<open>reg_device\<close>, the register contract the chip
    drivers rest on, interpreted for the device over a register bus.
  \<^item> Mpu6050, Pca9685, Bmp390, Qmc5883 (\<^verbatim>\<open>backend\<close>): the chips, each with all its operations. Readings,
    register fields, calibration, FIFO parsing; locale \<open>pwm_driver\<close> for the motor controller.
  \<^item> StrUtils (\<^verbatim>\<open>util/str_utils.cpp\<close>): the tokenizer and its contract \<open>token_source\<close>. Logger
    (\<^verbatim>\<open>util/log.cpp\<close>), Timer (\<^verbatim>\<open>util/timer.cpp\<close>), Server (\<^verbatim>\<open>util/server.cpp\<close>).
  \<^item> MathLib, FilterMath (\<^verbatim>\<open>math\<close>): vectors and quaternions; the filter designs and their stability.
  \<^item> Gps, Sockets (\<^verbatim>\<open>backend/gps.cpp\<close>, \<^verbatim>\<open>backend/socket.cpp\<close>).
  \<^item> MotorController, Guidance, Adiru, AdiruSocket, Monitor: the five processes, set-up, step and loop.
    UnitThreads: the timer loop and the GPS thread of the broadcasting unit, with every access to a
    field they share as a step of its own.
  \<^item> TestPrograms (\<^verbatim>\<open>tests\<close>, \<^verbatim>\<open>main/gps_test.cpp\<close>, \<^verbatim>\<open>main/mag_test.cpp\<close>); ThreadQueue
    (\<^verbatim>\<open>include/mqtt/thread_queue.h\<close>), the queue between the client library and the program, with
    locale \<open>bounded_queue\<close>.
  \<^item> The option parser (\<^verbatim>\<open>include/extern/cxxopts.hpp\<close>) the processes read their command line with.
    CxxValues: the matchers of the arguments (the variant without regular expressions), the readers
    of integers, characters, Booleans and decimals, the value objects with their defaults. Cxxopts:
    options, groups and help rows, adding an option, the parser state and its loop, positional
    arguments, defaults and aliases, the results. CxxTypes: kinds of values and the invariant that
    every stored value has the kind its option declares. CxxSpec: what a well-formed command line
    means, without the parser. CxxHelp: the help text, its column layout and word wrapping.
    CommandLine: the options the three processes declare, and their parameters as functions of the
    arguments.
  \<^item> The formatting library (\<^verbatim>\<open>include/fmt/core.h\<close>, \<^verbatim>\<open>format.h\<close>, \<^verbatim>\<open>format-inl.h\<close>) the logger prints
    with. FmtCore: its errors, the kinds of arguments and the sets of kinds, the packed descriptor,
    the specifiers. FmtNum: counting and writing digits with the tables of the source. FmtUtf8:
    the branch-free decoder and the walk over code points. FmtEscape: which code points are
    printable, escaped texts. FmtWrite: padding and one argument of each kind, with specifiers and
    without. FmtIntegers: what an integer looks like. FmtParse: the parser of argument ids and
    specifiers. FmtLoops: the loops over a format string over an abstract handler, locale
    \<open>text_handler\<close>. Fmt: the handler that formats, the handler that checks a string against the
    kinds of its arguments, \<open>vformat_to\<close>, \<open>println\<close>. FmtCheck: the check is sound.
    FmtFloat: the layout of floating-point values, and that it reads back. FmtBigint: the big
    integers, with the value of every operation. FmtDragon: the digits of a value to a precision, and
    that what is printed reads back as the value rounded there. FmtShortest: how a number is taken
    apart, and that its shortest digits identify it (numbers of \<open>float\<close>, \<open>double\<close>; significands below
    2 to the 64th). FmtUint128: the 128-bit integers of platforms without a native type.
  \<^item> This theory: the three chains across processes (unit to guidance, guidance to motors, unit to
    monitor).

  \<^bold>\<open>What is shown.\<close> Drivers: what each setter writes and leaves alone, that the scales of the
  driver stay equal to the ranges of the chip, what a reading is, pulse widths to the tick, which
  FIFO lengths stay in the buffer. Filters: stability for every cut-off below half the sampling
  rate. Attitude: quaternion and angles agree after every step, and converge to the tilt at rest.
  Server: the descriptor invariant over any number of ticks, nothing leaked, who was served when
  a send fails. Queue: order, capacity and wake-ups over every interleaving. GPS: the thread by itself publishes only
  whole sentences; beside the tick, which reads the fields without a lock, a position may have its
  parts from different sentences (\<open>position_mixed\<close>), but never a part that none reported. Guidance: never a division by zero, termination when the sensors keep
  reporting, and the result as a bisection. Monitor: no buffer is ever overrun. Command lines: a
  written-out list of settings is read back as exactly those settings, the first mistake decides
  the error, every result has its declared type, integers survive printing and reading, and each
  process starts with the parameters it was given or its defaults. The error properties say what
  happens on malformed messages and failing calls.

  \<^bold>\<open>Loops and fuel.\<close> A loop that the source runs for ever is a function of a number of rounds, so its
  properties hold after any number. The waits of the guidance process take fuel per wait;
  the property on its termination gives the bound: as many rounds as the sensors need at most
  to report the awaited state. The search itself is seven iterations, as in the source. Connecting
  is bounded by the number of attempts. Parsers recurse on their input with a measure.
  The line breaking of the help text, which may step back to the last blank, takes the square of
  the length of the text as fuel; that it never runs out is \<open>help_always_written\<close>.

  \<^bold>\<open>Not modelled, and approximations.\<close>
  \<^item> A \<^verbatim>\<open>double\<close> is a real, \<open>None\<close> where a division by zero gives infinity or NaN and the code goes on;
    rounding is not modelled. Conversions to integers check their range.
  \<^item> The threads of the broadcasting unit interleave between any two accesses to a shared field, each of
    which reads or writes the field whole and in program order; what a thread does on its own data or
    with the kernel is one step. The rounds the GPS thread may make before set-up has printed its last
    messages are counted after them. The threads of the queue interleave at its lock-protected steps.
    The other races on plain variables in the sources are noted in the manifest.
  \<^item> Option parser: hash values of option names and the order in which an unordered table is walked are
    arguments of the definitions (no result depends on them beyond the hypotheses stated);
    \<^verbatim>\<open>std::partition\<close> is taken to keep the order of the names of an option. Not there: storing
    into a variable of the caller, the iterator over a result, the variants with regular
    expressions and with a Unicode library.
  \<^item> Formatting library: the table-driven fast paths for the digits of floating-point values (the writer of
    a value takes its digits as an argument; the exact algorithm is modelled), the locale's
    grouping of digits (an argument), arguments of user-defined types, wide characters, and the
    headers for dates, ranges, colours, files and the printf emulation, which nothing uses.
  \<^item> Vendored code: the interface of the MQTT client (its calls are requests to the kernel), the
    matrix header without bodies.
  \<^item> The calibration script and the build files.
\<close>

section \<open>The guidance process and the motor controller\<close>

lemma fields_cons: "d \<notin> set a \<Longrightarrow> split_fields d (a @ d # r) = a # split_fields d r"
  by (induction a) (auto split: list.splits)

lemma fields_one: "d \<notin> set a \<Longrightarrow> split_fields d a = [a]"
  by (induction a) (auto split: list.splits)

lemma to_string_chars: "c \<in> set (to_string x) \<Longrightarrow> is_digit c \<or> c = CHR ''-'' \<or> c = CHR ''.''"
  using show_nat_digits show_fixed_digits by (auto simp: to_string_def Let_def split: if_splits)

lemma to_string_token:
  "CHR '' '' \<notin> set (to_string x)" "dropWhile is_space (to_string x) \<noteq> []"
proof -
  show s: "CHR '' '' \<notin> set (to_string x)"
    using to_string_chars [of "CHR '' ''" x] by (auto simp: is_digit_def)
  have "to_string x \<noteq> []" by (simp add: to_string_def Let_def)
  moreover have "\<not> is_space c" if "c \<in> set (to_string x)" for c
    using to_string_chars [OF that] by (auto simp: is_digit_def is_space_def)
  ultimately show "dropWhile is_space (to_string x) \<noteq> []"
    by (auto simp: dropWhile_eq_Nil_conv)
qed

lemma payload_fields:
  "split_fields CHR '' '' (thrust_payload f t) =
     [to_string t, to_string t, to_string (t * (1 - f) / f), to_string (t * (1 - f) / f)]"
  using to_string_token(1) by (simp add: thrust_payload_def Let_def fields_cons fields_one)

lemma round_half_even_le: "y \<le> real_of_int n \<Longrightarrow> round_half_even y \<le> n"
proof -
  assume y: "y \<le> real_of_int n"
  then have "\<lfloor>y\<rfloor> \<le> n" by (simp add: floor_le_iff)
  show ?thesis
  proof (cases "\<lfloor>y\<rfloor> = n")
    case True
    then have "y = real_of_int n" using y floor_correct [of y] by linarith
    then show ?thesis by (simp add: round_half_even_def)
  next
    case False
    then show ?thesis using \<open>\<lfloor>y\<rfloor> \<le> n\<close> by (simp add: round_half_even_def Let_def)
  qed
qed

lemma micro_range:
  assumes "0 \<le> t" "t \<le> 1"
  shows "0 \<le> micro t" "micro t \<le> 1"
proof -
  have "round_half_even (\<bar>t\<bar> * 10 ^ 6) \<le> 1000000" "0 \<le> round_half_even (\<bar>t\<bar> * 10 ^ 6)"
    using assms by (auto intro!: round_half_even_le round_half_even_nonneg)
  then show "0 \<le> micro t" "micro t \<le> 1" using assms(1) by (simp_all add: micro_def)
qed

lemma payload_field_values:
  assumes "i < 4" "0 \<le> t" "t \<le> 1" "0 \<le> r" "r \<le> 1" "r = t * (1 - f) / f"
  shows "0 \<le> [micro t, micro t, micro r, micro r] ! i \<and> [micro t, micro t, micro r, micro r] ! i \<le> 1 \<and>
    dropWhile is_space (split_fields CHR '' '' (thrust_payload f t) ! (i mod length (split_fields CHR '' '' (thrust_payload f t)))) \<noteq> [] \<and>
    stod (split_fields CHR '' '' (thrust_payload f t) ! (i mod length (split_fields CHR '' '' (thrust_payload f t)))) =
      Inr ([micro t, micro t, micro r, micro r] ! i)"
proof -
  have big: "\<bar>x\<bar> \<le> 10 ^ 300" if "0 \<le> x" "x \<le> 1" for x :: real
  proof -
    have "(1 :: real) \<le> 10 ^ 300" by simp
    with that show ?thesis by linarith
  qed
  have s: "stod (to_string x) = Inr (micro x)" if "0 \<le> x" "x \<le> 1" for x
    using stod_to_string [of "[]" x] big [OF that] by (simp add: num_end_def)
  have "i = 0 \<or> i = 1 \<or> i = 2 \<or> i = 3" using assms(1) by arith
  then show ?thesis
    unfolding payload_fields assms(6) [symmetric]
    using s assms(2-5) micro_range to_string_token(2) by auto
qed

text \<open>
  C2: What the guidance process publishes is what the motor controller does. For a thrust and a
  rear thrust between 0 and 1, the message of \<open>set_thrust\<close> gives the two front motors the thrust
  and the two rear motors the thrust corrected by the factor: each pulse is less than 6 microseconds
  shorter than the exact one and less than a thousandth longer, the fourth motor's if its ON count
  was 0, for that count is never written. The ON counts of the others become 0. Besides the counts of the
  motors only the subaddress registers 2 and 3 change, to 0.
\<close>

theorem thrust_reaches_motors:
  assumes "register_bus k regs" "0 \<le> fd (pca_dev p)" "per p = 20000"
    and "0 \<le> t" "t \<le> 1" "0 < f" "f \<le> 1" "t * (1 - f) / f \<le> 1"
    and "length (thrust_payload f t) < npos"
  shows "\<exists>w'. motor_handle k p (''motors/speed'', thrust_payload f t) w = (Inr (), w') \<and>
    (\<forall>ch. 0 \<le> ch \<longrightarrow> ch < 4 \<longrightarrow>
       pwm_on_ticks (dev_regs regs (pca_dev p) w') ch =
         (if ch = 3 then pwm_on_ticks (dev_regs regs (pca_dev p) w) 3 else 0) \<and>
       (ch < 3 \<or> pwm_on_ticks (dev_regs regs (pca_dev p) w) 3 = 0 \<longrightarrow>
         (let exact = 1000 + 1000 * (if ch < 2 then t else t * (1 - f) / f)
          in exact - 6 < pulse_us (per p) (dev_regs regs (pca_dev p) w') ch \<and>
            pulse_us (per p) (dev_regs regs (pca_dev p) w') ch < exact + 1 / 1000))) \<and>
    dev_regs regs (pca_dev p) w' 0x02 = 0 \<and> dev_regs regs (pca_dev p) w' 0x03 = 0 \<and>
    (\<forall>r. r \<notin> {0x02, 0x03} \<union> {0x06..0x15} \<longrightarrow> dev_regs regs (pca_dev p) w' r = dev_regs regs (pca_dev p) w r)"
proof -
  define r where "r = t * (1 - f) / f"
  have r: "0 \<le> r" "r \<le> 1" using assms(4-8) by (simp_all add: r_def)
  let ?ts = "[micro t, micro t, micro r, micro r]"
  obtain t' where parse: "stod_tokens 4 (tokenizer_new (thrust_payload f t) CHR '' '') = Inr (?ts, t')"
    using stod_tokens_cyclic [OF assms(9), of "CHR '' ''" ?ts 4]
      payload_field_values [OF _ assms(4,5) r r_def] by (auto simp: num_stop_def)
  have ts: "\<forall>x \<in> set ?ts. 0 \<le> x \<and> x \<le> 1" using micro_range assms(4,5) r by simp
  have "length ?ts = 4" by simp
  from motors_message [OF assms(1-3) parse this ts, of w] obtain w' where
    w': "handle_motors k p (thrust_payload f t) w = (Inr (), w')" and
    m: "\<And>ch. 0 \<le> ch \<Longrightarrow> ch < 4 \<Longrightarrow> pwm_on_ticks (dev_regs regs (pca_dev p) w') ch =
         (if ch = 3 then pwm_on_ticks (dev_regs regs (pca_dev p) w) 3 else 0)"
      "\<And>ch. 0 \<le> ch \<Longrightarrow> ch < 4 \<Longrightarrow> ch < 3 \<or> pwm_on_ticks (dev_regs regs (pca_dev p) w) 3 = 0 \<Longrightarrow>
         1000 + 1000 * ?ts ! nat ch - 59 / 10 < pulse_us (per p) (dev_regs regs (pca_dev p) w') ch \<and>
         pulse_us (per p) (dev_regs regs (pca_dev p) w') ch \<le> 1000 + 1000 * ?ts ! nat ch" and
    rest: "dev_regs regs (pca_dev p) w' 0x02 = 0" "dev_regs regs (pca_dev p) w' 0x03 = 0"
      "\<And>r. r \<notin> {0x02, 0x03} \<union> {0x06..0x15} \<Longrightarrow> dev_regs regs (pca_dev p) w' r = dev_regs regs (pca_dev p) w r"
    by blast
  have nth: "?ts ! nat ch = micro (if ch < 2 then t else r)" if "0 \<le> ch" "ch < 4" for ch
  proof -
    have "ch = 0 \<or> ch = 1 \<or> ch = 2 \<or> ch = 3" using that by arith
    then show ?thesis by auto
  qed
  have pulse: "let exact = 1000 + 1000 * (if ch < 2 then t else r)
      in exact - 6 < pulse_us (per p) (dev_regs regs (pca_dev p) w') ch \<and>
        pulse_us (per p) (dev_regs regs (pca_dev p) w') ch < exact + 1 / 1000"
    if "0 \<le> ch" "ch < 4" "ch < 3 \<or> pwm_on_ticks (dev_regs regs (pca_dev p) w) 3 = 0" for ch
    using m(2) [OF that] micro_error [of "if ch < 2 then t else r"] unfolding nth [OF that(1,2)] Let_def by linarith
  have handled: "motor_handle k p (''motors/speed'', thrust_payload f t) w = (Inr (), w')"
    using w' by (simp add: motor_handle_def)
  show ?thesis
    unfolding r_def [symmetric]
    by (intro exI [of _ w'] conjI allI impI handled rest m(1) pulse)
qed

theorem thrust_reaches_motors_witness:
  "\<exists>w'. motor_handle sim_kernel pca_example (''motors/speed'', thrust_payload (1 / 2) 0) sim0 = (Inr (), w')"
proof -
  have "length (thrust_payload (1 / 2) 0) < npos"
    by (simp add: thrust_payload_def to_string_def round_half_even_def show_nat.simps npos_def)
  from thrust_reaches_motors [OF sim_bus _ _ _ _ _ _ _ this, of pca_example sim0] show ?thesis
    by auto
qed

section \<open>The inertial unit and the guidance process\<close>

lemma spaced_fields: "xs \<noteq> [] \<Longrightarrow> split_fields CHR '' '' (spaced xs) = map to_string xs"
  by (induction xs rule: spaced.induct) (auto simp: fields_cons fields_one to_string_token(1))

lemma stod_shown: "\<bar>x\<bar> \<le> 10 ^ 300 \<Longrightarrow> stod (to_string x) = Inr (micro x)"
  using stod_to_string [of "[]" x] by (simp add: num_end_def)

lemma spaced_parsed:
  assumes "length xs = n" "0 < n" "\<forall>x \<in> set xs. \<bar>x\<bar> \<le> 10 ^ 300" "length (spaced xs) < npos"
  shows "\<exists>t. stod_tokens n (tokenizer_new (spaced xs) CHR '' '') = Inr (map micro xs, t)"
proof (rule stod_tokens_cyclic [OF assms(4)])
  have f: "split_fields CHR '' '' (spaced xs) = map to_string xs" using assms(1,2) by (intro spaced_fields) auto
  fix i
  assume i: "i < n"
  then have "stod (to_string (xs ! i)) = Inr (micro (xs ! i))" using assms(1,3) by (intro stod_shown) auto
  then show "dropWhile is_space (split_fields CHR '' '' (spaced xs) ! (i mod length (split_fields CHR '' '' (spaced xs)))) \<noteq> [] \<and>
      stod (split_fields CHR '' '' (spaced xs) ! (i mod length (split_fields CHR '' '' (spaced xs)))) = Inr (map micro xs ! i)"
    using i assms(1) to_string_token(2) by (simp add: f)
qed (use assms(1) in \<open>simp_all add: num_stop_def\<close>)

text \<open>
  C4: What the inertial unit publishes on \<^verbatim>\<open>adiru/full\<close> the guidance process takes in, to within
  half a millionth: the three accelerations, pitch and yaw and their rates. The roll and its
  rate never arrive: the guidance process stores them where it stores the yaw next.
\<close>

theorem attitude_reaches_guidance:
  assumes "length (filtered_data s) = 6"
    and "\<forall>x \<in> set (filtered_data s) \<union> set (vec_list (orientation_euler s)). \<bar>x\<bar> \<le> 10 ^ 300"
    and "length (full_payload s) < npos"
  shows "\<exists>g'. process_message_string (full_payload s) g = Inr g' \<and>
    vec_list (acceleration g') = map micro (take 3 (filtered_data s)) \<and>
    euler g' = (euler g)\<lparr>vy := micro (vy (orientation_euler s)), vz := micro (vz (orientation_euler s))\<rparr> \<and>
    euler_rate g' = (euler_rate g)\<lparr>vy := micro (filtered_data s ! 4), vz := micro (filtered_data s ! 5)\<rparr> \<and>
    (\<forall>x. \<bar>micro x - x\<bar> \<le> 1 / 2000000)"
proof -
  obtain a b c d e f where fd: "filtered_data s = [a, b, c, d, e, f]"
    using assms(1) by (auto simp: numeral_eq_Suc length_Suc_conv)
  let ?o = "orientation_euler s"
  let ?xs = "[a, b, c, vx ?o, vy ?o, vz ?o, d, e, f]"
  have p: "full_payload s = spaced ?xs" by (simp add: full_payload_def fd vec_list_def)
  have "\<forall>x \<in> set ?xs. \<bar>x\<bar> \<le> 10 ^ 300" using assms(2) by (simp add: fd vec_list_def)
  then obtain t where t: "stod_tokens 9 (tokenizer_new (spaced ?xs) CHR '' '') = Inr (map micro ?xs, t)"
    using spaced_parsed [of ?xs 9] assms(3) p by auto
  have m: "\<bar>micro x - x\<bar> \<le> 1 / 2000000" for x using micro_error [of x] by simp
  show ?thesis
    unfolding process_message_string_def p t using m by (simp add: fd vec_list_def)
qed

theorem attitude_reaches_guidance_witness:
  "\<exists>g'. process_message_string (full_payload (adiru_globals\<lparr>filtered_data := [0, 0, 1, 0, 0, 0]\<rparr>)) guidance_init = Inr g' \<and>
     vec_list (acceleration g') = [0, 0, 1]"
proof -
  have "length (full_payload (adiru_globals\<lparr>filtered_data := [0, 0, 1, 0, 0, 0]\<rparr>)) < npos"
    by (simp add: full_payload_def vec_list_def adiru_globals_def vector0_def to_string_def round_half_even_def
        show_nat.simps npos_def Let_def)
  from attitude_reaches_guidance [OF _ _ this, of guidance_init] show ?thesis
    by (auto simp: adiru_globals_def vec_list_def vector0_def micro_def round_half_even_def numeral_3_eq_3)
qed

section \<open>The broadcasting unit and the monitor\<close>

lemma payload_block:
  assumes "\<forall>x \<in> set xs. length (rep x) = 8" "i < length xs"
  shows "take 8 (drop (8 * i) (payload rep (map Double xs))) = rep (xs ! i)"
  using assms
proof (induction xs arbitrary: i)
  case (Cons x xs)
  show ?case
  proof (cases i)
    case (Suc j)
    have "drop (8 * i) (payload rep (map Double (x # xs))) = drop (8 * j) (payload rep (map Double xs))"
      using Cons.prems(1) by (simp add: payload_def Suc)
    then show ?thesis using Cons.IH [of j] Cons.prems by (simp add: Suc)
  qed (use Cons.prems in \<open>simp add: payload_def\<close>)
qed simp

lemma length_payload: "\<forall>x \<in> set xs. length (rep x) = 8 \<Longrightarrow> length (payload rep (map Double xs)) = 8 * length xs"
  by (induction xs) (simp_all add: payload_def)

lemma position_doubles:
  assumes "sentence_cells cs"
  obtains g where "cs = map Double g" "length g = 3"
proof (cases "cs = replicate 3 (Double (Some 0))")
  case True
  then show thesis using that [of "replicate 3 (Some 0)"] by simp
next
  case False
  then obtain q :: nmea_result where "cs = [Double (Some (lat q)), Double (Some (lng q)), Double (Some (if nr_fix q then 1 else -1))]"
    using assms False unfolding sentence_cells_def by blast
  then show thesis using that [of "[Some (lat q), Some (lng q), Some (if nr_fix q then 1 else -1)]"] by simp
qed

lemma received:
  assumes "k (Recv sock 256) w = (a, w')" "rval a = 256" "rdata a = bs" "length bs = 256" "length (mon_data m) = 256"
  shows "receive_round n k (sock, m, w) = (sock, m\<lparr>mon_data := bs\<rparr>, w')"
  using assms by (simp add: receive_round_def store_def)

lemma tick_data: "unit_tick k ord rep dt s w = (Inr s', w') \<Longrightarrow> u_data s' = u_data (fst (unit_measure k dt s w))"
  by (auto simp: unit_tick_def io_return_def elim!: io_bind_InrE split: prod.splits)

text \<open>Some representation tells the few doubles of one block apart.\<close>

lemma some_representation:
  assumes "length cs \<le> 256"
  obtains rep :: "real option \<Rightarrow> bytes" and val where
    "\<forall>x. Double x \<in> set cs \<longrightarrow> length (rep x) = 8 \<and> val (rep x) = x"
proof -
  let ?A = "{x. Double x \<in> set cs}"
  let ?g = "\<lambda>c. case c of Double x \<Rightarrow> x | Bytes b \<Rightarrow> None"
  have sub: "?A \<subseteq> ?g ` set cs"
  proof
    fix x
    assume "x \<in> ?A"
    then have "Double x \<in> set cs" by simp
    then have "?g (Double x) \<in> ?g ` set cs" by (rule imageI)
    then show "x \<in> ?g ` set cs" by simp
  qed
  then have fin: "finite ?A" by (rule finite_subset) simp
  have "card ?A \<le> card (?g ` set cs)" by (rule card_mono [OF _ sub]) simp
  also have "\<dots> \<le> card (set cs)" by (rule card_image_le) simp
  also have "\<dots> \<le> length cs" by (rule card_length)
  finally have card: "card ?A \<le> 256" using assms by simp
  obtain f :: "real option \<Rightarrow> nat" and n where f: "f ` ?A = {i. i < n}" "inj_on f ?A"
    using finite_imp_inj_to_nat_seg [OF fin] by blast
  have n: "n \<le> 256" using card_image [OF f(2)] card by (simp add: f(1))
  let ?rep = "\<lambda>x. replicate 7 (0 :: u8) @ [of_nat (f x)]" and ?val = "\<lambda>bs. inv_into ?A f (unat (last bs))"
  have "?val (?rep x) = x" if "x \<in> ?A" for x
  proof -
    have "f x < 256" using imageI [OF that, of f] n by (simp add: f(1))
    then have "unat (of_nat (f x) :: u8) = f x" by (simp add: unat_of_nat take_bit_nat_eq_self)
    then show ?thesis using inv_into_f_f [OF f(2) that] by simp
  qed
  then show thesis using that [of ?rep ?val] by simp
qed

text \<open>The cells of the monitor for a reading, its filtered values, the barometer's and the compass's.\<close>

definition readings_shown ::
  "(nat \<Rightarrow> real option) \<Rightarrow> real list \<Rightarrow> real list \<Rightarrow> real \<Rightarrow> real \<Rightarrow> real option \<Rightarrow> real list \<Rightarrow> bool" where
  "readings_shown c d ys t p h m \<longleftrightarrow>
     acceleration_cells c = [(1, 1, Some (d ! 0)), (1, 2, Some (d ! 1)), (1, 3, Some (d ! 2)),
       (2, 1, Some (ys ! 0)), (2, 2, Some (ys ! 1)), (2, 3, Some (ys ! 2))] \<and>
     gyro_cells c = [(1, 1, Some (d ! 3 * RAD_TO_DEG)), (1, 2, Some (d ! 4 * RAD_TO_DEG)),
       (1, 3, Some (d ! 5 * RAD_TO_DEG)), (2, 1, Some (ys ! 3 * RAD_TO_DEG)), (2, 2, Some (ys ! 4 * RAD_TO_DEG)),
       (2, 3, Some (ys ! 5 * RAD_TO_DEG))] \<and>
     orientation_cells c = [(1, 0, Some (tilt_roll d * RAD_TO_DEG)), (1, 1, Some (tilt_pitch d * RAD_TO_DEG)), (1, 2, Some 0)] \<and>
     press_cells c = [(1, 0, Some t), (1, 1, Some (p / 1000)), (1, 2, h)] \<and>
     magnet_cells c = [(1, 0, Some (m ! 0)), (1, 1, Some (m ! 1)), (1, 2, Some (m ! 2))]"

text \<open>
  C3: The monitor shows what the unit measures. A packet that a tick of the unit broadcasts is the
  256 bytes the monitor asks for; received whole, and with a representation of doubles both
  processes share, the monitor's cells are the unit's reading and its filtered values, the
  accelerometer's roll and pitch in degrees, and the barometer (the pressure in kilopascal) and
  compass. The turn rates, already in degrees per second, are multiplied by 57.29577951308232
  once more.
\<close>

theorem monitor_shows_unit:
  assumes "fd_kernel k v" "iteration_order ord" "unit_ok v (s, r, buf, w)"
    and "unit_tick k ord rep dt s w = (Inr s', w')" "f \<in> listeners (u_server s')"
    and "\<forall>x. Double x \<in> set (u_data s') \<longrightarrow> length (rep x) = 8 \<and> val (rep x) = x"
  shows "\<exists>packet d w1 t p h w2 m w3.
    sense k (u_mpu s) w = (d, w1) \<and> get_data k (u_bmp s) w1 = ((t, p, h), w2) \<and> qmc_get_data k (u_qmc s) w2 = (m, w3) \<and>
    (f, packet) \<in> set (sent v w') \<and> length packet = 256 \<and>
    (\<forall>k2 sock w4 a w5 n mon. k2 (Recv sock 256) w4 = (a, w5) \<longrightarrow> rval a = 256 \<longrightarrow> rdata a = packet \<longrightarrow>
      length (mon_data mon) = 256 \<longrightarrow>
      (\<exists>mon'. receive_round n k2 (sock, mon, w4) = (sock, mon', w5) \<and>
        readings_shown (dbl val mon') d (fst (filter_channels (u_filters s) d)) t p h m))"
proof -
  from assms obtain d w1 t p h w2 m w3 ys gs where
    run: "sense k (u_mpu s) w = (d, w1)" "get_data k (u_bmp s) w1 = ((t, p, h), w2)"
    "qmc_get_data k (u_qmc s) w2 = (m, w3)" "filter_channels (u_filters s) d = (ys, gs)"
    and lay: "u_data s' = map Double (map Some d @ map Some ys @ [Some (tilt_roll d), Some (tilt_pitch d), Some 0, Some t, Some p, h]
      @ map Some m) @ (if new_data (u_gps s) then fix_cells (u_gps s) else position_cells (u_data s)) @
      Double (Some dt) # drop 25 (u_data s)"
    and len: "length d = 6" "length ys = 6" "length m = 3" "unit_ok v (s', r, buf, w')"
    and out: "sent v w' = sent v w @ map (\<lambda>f. (f, payload rep (u_data s'))) (ord (listeners (u_server s')))"
    by (auto elim: unit_tick_run [where dt = dt])
  have ok: "gps_ok (u_gps s)" "sentence_cells (position_cells (u_data s))" "drop 25 (u_data s) = replicate 7 (Double (Some 0))"
    using assms(3) by (simp_all add: unit_ok_def)
  then have "sentence_cells (if new_data (u_gps s) then fix_cells (u_gps s) else position_cells (u_data s))"
    using fix_cells_ok by simp
  then obtain g where g: "(if new_data (u_gps s) then fix_cells (u_gps s) else position_cells (u_data s)) = map Double g" "length g = 3"
    by (rule position_doubles)
  define xs where "xs = map Some d @ map Some ys @ [Some (tilt_roll d), Some (tilt_pitch d), Some 0, Some t, Some p, h] @
      map Some m @ g @ Some dt # replicate 7 (Some 0)"
  have data: "u_data s' = map Double xs" by (simp add: lay g(1) ok(3) xs_def)
  have 32: "length xs = 32" using len g(2) by (simp add: xs_def)
  have rep: "length (rep x) = 8 \<and> val (rep x) = x" if "x \<in> set xs" for x using assms(6) that by (auto simp: data)
  let ?packet = "payload rep (map Double xs)"
  have packet: "length ?packet = 256" using length_payload [of xs rep] rep 32 by simp
  have cell: "val (take 8 (drop (8 * i) ?packet)) = xs ! i" if "i < 32" for i
    using payload_block [of xs rep i] rep that 32 by simp
  have "f \<in> set (ord (listeners (u_server s')))"
    using assms(2,5) len(4) by (simp add: iteration_order_def unit_ok_def server_ok_def)
  then have sent: "(f, ?packet) \<in> set (sent v w')" by (simp add: out data)
  have fst_ys: "fst (filter_channels (u_filters s) d) = ys" by (simp add: run(4))
  have shown: "dbl val (mon\<lparr>mon_data := ?packet\<rparr>) i = xs ! i" if "i < 32" for i mon
    using cell [OF that] by (simp add: dbl_def)
  have nth: "xs ! 0 = Some (d ! 0)" "xs ! 1 = Some (d ! 1)" "xs ! 2 = Some (d ! 2)" "xs ! 3 = Some (d ! 3)" "xs ! 4 = Some (d ! 4)"
    "xs ! 5 = Some (d ! 5)" "xs ! 6 = Some (ys ! 0)" "xs ! 7 = Some (ys ! 1)" "xs ! 8 = Some (ys ! 2)" "xs ! 9 = Some (ys ! 3)"
    "xs ! 10 = Some (ys ! 4)" "xs ! 11 = Some (ys ! 5)" "xs ! 12 = Some (tilt_roll d)" "xs ! 13 = Some (tilt_pitch d)" "xs ! 14 = Some 0"
    "xs ! 15 = Some t" "xs ! 16 = Some p" "xs ! 17 = h" "xs ! 18 = Some (m ! 0)" "xs ! 19 = Some (m ! 1)" "xs ! 20 = Some (m ! 2)"
    using len by (simp_all add: xs_def nth_append)
  note cells = acceleration_cells_def gyro_cells_def orientation_cells_def press_cells_def magnet_cells_def in_degrees_def
  show ?thesis
  proof (intro exI conjI, rule run, rule run, rule run, rule sent, rule packet, intro allI impI)
    fix k2 :: "'b kernel" and sock w4 a w5 n and mon :: monitor
    assume "k2 (Recv sock 256) w4 = (a, w5)" "rval a = 256" "rdata a = ?packet" "length (mon_data mon) = 256"
    then have "receive_round n k2 (sock, mon, w4) = (sock, mon\<lparr>mon_data := ?packet\<rparr>, w5)"
      by (intro received packet)
    then show "\<exists>mon'. receive_round n k2 (sock, mon, w4) = (sock, mon', w5) \<and>
        readings_shown (dbl val mon') d (fst (filter_channels (u_filters s) d)) t p h m"
      by (intro exI [of _ "mon\<lparr>mon_data := ?packet\<rparr>"])
        (simp add: readings_shown_def cells shown nth [simplified] fst_ys)
  qed
qed

theorem monitor_shows_unit_witness:
  "\<exists>rep val s' w' packet d w1. unit_tick box_kernel sorted_list_of_set rep 0.02
       (unit_globals\<lparr>u_server := \<lparr>sun_path = ''/tmp/a'', server_fd = 3, epoll_fd = 4, listeners = {5}\<rparr>\<rparr>)
       (box0\<lparr>b_next := 6, b_lst := {3}, b_pol := (\<lambda>_. {3, 5})\<rparr>) = (Inr s', w') \<and>
     sense box_kernel mpu_static (box0\<lparr>b_next := 6, b_lst := {3}, b_pol := (\<lambda>_. {3, 5})\<rparr>) = (d, w1) \<and>
     length packet = 256 \<and>
     (\<exists>mon'. receive_round 1 ((sim_reader packet)(Recv 7 256 := (\<lambda>w. ((answer_of 256)\<lparr>rdata := packet\<rparr>, w)))) (7, monitor_globals, sim0) = (7, mon', sim0) \<and>
       hd (gyro_cells (dbl val mon')) = (1, 1, Some (d ! 3 * RAD_TO_DEG)))"
proof -
  let ?sv = "\<lparr>sun_path = ''/tmp/a'', server_fd = 3, epoll_fd = 4, listeners = {5}\<rparr>"
  let ?s = "unit_globals\<lparr>u_server := ?sv\<rparr>" and ?w = "box0\<lparr>b_next := 6, b_lst := {3}, b_pol := (\<lambda>_. {3, 5})\<rparr>"
  have "server_ok box_view ?sv ?w" by (auto simp: server_ok_def box_view_def b_opn_def box0_def)
  then have ok: "unit_ok box_view (?s, no_result, [], ?w)"
    by (simp add: unit_ok_def unit_globals_def gps_ok_def gps_static_def position_cells_def sentence_cells_def)
  let ?cs = "u_data (fst (unit_measure box_kernel 0.02 ?s ?w))"
  obtain s0 w0 where t0: "unit_tick box_kernel sorted_list_of_set (\<lambda>_. []) 0.02 ?s ?w = (Inr s0, w0)"
    using box_unit_tick by blast
  have "length (u_data s0) = 32"
    by (rule unit_tick_run [OF box_fds ascending_order ok t0]) (simp add: unit_ok_def)
  then have "length ?cs \<le> 256" using tick_data [OF t0] by simp
  from some_representation [OF this] obtain rep :: "real option \<Rightarrow> bytes" and val
    where rv: "\<forall>x. Double x \<in> set ?cs \<longrightarrow> length (rep x) = 8 \<and> val (rep x) = x" by metis
  obtain s' w' where t: "unit_tick box_kernel sorted_list_of_set rep 0.02 ?s ?w = (Inr s', w')"
    and l: "u_server s' = ?sv"
    using box_unit_tick [of sorted_list_of_set rep "0.02" ?s ?w] by auto
  have "5 \<in> listeners (u_server s')" by (simp add: l)
  from monitor_shows_unit [where 'b = sim, OF box_fds ascending_order ok t this rv [folded tick_data [OF t]]] show ?thesis
  proof (elim exE conjE)
    fix packet d w1
    let ?k = "(sim_reader packet)(Recv 7 256 := (\<lambda>w. ((answer_of 256)\<lparr>rdata := packet\<rparr>, w)))"
    fix t p h m
    assume p: "sense box_kernel (u_mpu ?s) ?w = (d, w1)" "length packet = 256"
    assume shown: "\<forall>(k2 :: sim kernel) sock w4 a w5 n mon. k2 (Recv sock 256) w4 = (a, w5) \<longrightarrow> rval a = 256 \<longrightarrow> rdata a = packet \<longrightarrow>
      length (mon_data mon) = 256 \<longrightarrow>
      (\<exists>mon'. receive_round n k2 (sock, mon, w4) = (sock, mon', w5) \<and>
        readings_shown (dbl val mon') d (fst (filter_channels (u_filters ?s) d)) t p h m)"
    obtain mon' where mon: "receive_round 1 ?k (7, monitor_globals, sim0) = (7, mon', sim0)"
      "readings_shown (dbl val mon') d (fst (filter_channels (u_filters ?s) d)) t p h m"
      using shown [THEN spec [of _ ?k], THEN spec [of _ 7], THEN spec [of _ sim0],
          THEN spec [of _ "(answer_of 256)\<lparr>rdata := packet\<rparr>"], THEN spec [of _ sim0], THEN spec [of _ 1],
          THEN spec [of _ monitor_globals]]
      by (auto simp: monitor_globals_def)
    then have "hd (gyro_cells (dbl val mon')) = (1, 1, Some (d ! 3 * RAD_TO_DEG))" by (simp add: readings_shown_def)
    with mon(1) show ?thesis
      using t p
      by (intro exI [of _ rep] exI [of _ val] exI [of _ s'] exI [of _ w'] exI [of _ packet] exI [of _ d] exI [of _ w1] conjI)
        (auto simp: unit_globals_def)
  qed
qed

end
